(* ===== verification/Ckits_Prelude.thy ===== *)
theory Ckits_Prelude
  imports Main "HOL-Library.Word"
begin

text \<open>
  Shared vocabulary of the development.

  The code targets 32-bit ARM (\<open>libconf/mix_assembly.s\<close> is armv7, pointers are cast to
  \<open>int\<close>, function pointers are stored in \<open>unsigned int\<close>): \<open>int\<close>, \<open>long\<close>, \<open>size_t\<close> and
  pointers have 32 bits, \<open>short\<close> 16 bits, plain \<open>char\<close> is unsigned.  Unsigned machine values
  are words (\<open>u32\<close>, \<open>u64\<close>) or naturals with the reduction modulo \<open>2 ^ 32\<close> written out; signed
  values are integers, and every conversion or arithmetic result that C truncates goes through
  \<open>c_short\<close> or \<open>c_int\<close> (two's complement, what the compilers for this target do).
\<close>

named_theorems c_arith \<open>facts about truncated machine arithmetic\<close>
named_theorems heap_laws \<open>refinement facts of the pointer-level list operations\<close>

type_synonym u8 = "8 word"
type_synonym u32 = "32 word"
type_synonym u64 = "64 word"

section \<open>Truncated signed arithmetic\<close>

definition c_short :: "int \<Rightarrow> int" where
  "c_short x = signed_take_bit 15 x"

definition c_int :: "int \<Rightarrow> int" where
  "c_int x = signed_take_bit 31 x"

definition asr :: "int \<Rightarrow> nat \<Rightarrow> int" where
  \<comment> \<open>the arithmetic right shift \<open>x >> n\<close> of a signed value\<close>
  "asr x n = drop_bit n x"

abbreviation is_short :: "int \<Rightarrow> bool" where
  "is_short x \<equiv> - 32768 \<le> x \<and> x \<le> 32767"

abbreviation is_int :: "int \<Rightarrow> bool" where
  "is_int x \<equiv> - 2147483648 \<le> x \<and> x \<le> 2147483647"

lemma c_short_bounds [c_arith, simp]: "- 32768 \<le> c_short x" "c_short x \<le> 32767"
  using signed_take_bit_int_greater_eq_minus_exp [of 15 x] signed_take_bit_int_less_exp [of 15 x]
  by (simp_all add: c_short_def)

lemma c_int_bounds [c_arith, simp]: "- 2147483648 \<le> c_int x" "c_int x \<le> 2147483647"
  using signed_take_bit_int_greater_eq_minus_exp [of 31 x] signed_take_bit_int_less_exp [of 31 x]
  by (simp_all add: c_int_def)

lemma c_short_id [c_arith]: "is_short x \<Longrightarrow> c_short x = x"
  by (simp add: c_short_def signed_take_bit_int_eq_self)

lemma c_int_id [c_arith]: "is_int x \<Longrightarrow> c_int x = x"
  by (simp add: c_int_def signed_take_bit_int_eq_self)

lemma c_int_wrap_pos [c_arith]:
  assumes "2147483648 \<le> x" "x < 4294967296"
  shows "c_int x = x - 4294967296"
proof -
  have "(x + 2147483648) mod 4294967296 = (x + 2147483648 - 4294967296) mod 4294967296"
    by (simp only: minus_mod_self2)
  also have "\<dots> = x + 2147483648 - 4294967296"
    using assms by (intro mod_pos_pos_trivial) simp_all
  finally show ?thesis by (simp add: c_int_def signed_take_bit_eq_take_bit_shift take_bit_eq_mod)
qed

lemma asr_div: "asr x n = x div 2 ^ n"
  by (simp add: asr_def drop_bit_eq_div)

section \<open>Words\<close>

lemma unat_u32: "unat x < 2 ^ 32" for x :: u32
  using unsigned_less [where ?'a = nat, of x] by simp

lemma word_of_nat_unat: "word_of_nat (unat x) = x" for x :: u32
  by (simp add: of_nat_unat)

lemma unat_pow2: "k < 32 \<Longrightarrow> unat (2 ^ k :: u32) = 2 ^ k"
proof -
  assume "k < 32"
  then have "(2 :: nat) ^ k < 2 ^ 32" by (rule power_strict_increasing) simp
  moreover have "(2 ^ k :: u32) = word_of_nat (2 ^ k)" by simp
  ultimately show ?thesis by (simp only: unat_of_nat) simp
qed

unbundle bit_operations_syntax

lemma and_not_diff: "w AND NOT b = w - (w AND b)" for w :: "'a::len word"
proof -
  have "w - (w AND b) = w AND NOT (w AND b)"
    by (rule disjunctive_diff_eq_and_not) (auto simp: bit_eq_iff bit_simps)
  also have "\<dots> = w AND NOT b" by (auto simp: bit_eq_iff bit_simps)
  finally show ?thesis ..
qed

section \<open>Lists\<close>

lemma last_Cons_split: "\<exists>as. a # xs = as @ [last (a # xs)]"
  by (metis append_butlast_last_id list.distinct(1))

lemma distinct_Cons_append_split:
  "distinct (a # xs @ ys) \<longleftrightarrow> distinct (a # xs) \<and> distinct (ys @ [a]) \<and> set xs \<inter> set ys = {}"
  by auto

end
