(* ===== verification/Kernel_List.thy ===== *)
theory Kernel_List
  imports Ckits_Prelude
begin

text \<open>
  The intrusive doubly linked list of \<open>libckits/include/list.h\<close>, at the level of its
  pointers: a heap gives every \<open>list_head\<close> its \<open>next\<close> and \<open>prev\<close> field, \<open>None\<close> is the null
  pointer, and an operation that would dereference a null pointer returns \<open>None\<close>.  The
  predicate \<open>dlist\<close> says that a head and the entries behind it form a ring; each operation is
  shown to be the expected operation on the list of entries.
\<close>

section \<open>The heap and the operations\<close>

record 'a lheap =
  nextp :: "'a \<Rightarrow> 'a option"
  prevp :: "'a \<Rightarrow> 'a option"

definition set_next :: "'a lheap \<Rightarrow> 'a \<Rightarrow> 'a option \<Rightarrow> 'a lheap" where
  "set_next h p q = h\<lparr>nextp := (nextp h)(p := q)\<rparr>"

definition set_prev :: "'a lheap \<Rightarrow> 'a \<Rightarrow> 'a option \<Rightarrow> 'a lheap" where
  "set_prev h p q = h\<lparr>prevp := (prevp h)(p := q)\<rparr>"

definition INIT_LIST_HEAD :: "'a lheap \<Rightarrow> 'a \<Rightarrow> 'a lheap" where
  "INIT_LIST_HEAD h p = set_prev (set_next h p (Some p)) p (Some p)"

fun list_add_between :: "'a lheap \<Rightarrow> 'a \<Rightarrow> 'a option \<Rightarrow> 'a option \<Rightarrow> 'a lheap option" where
  \<comment> \<open>\<open>__list_add\<close>: both neighbours are dereferenced\<close>
  "list_add_between h new (Some p) (Some n) =
     (let h1 = set_prev h n (Some new);
          h2 = set_next h1 new (Some n);
          h3 = set_prev h2 new (Some p)
      in Some (set_next h3 p (Some new)))"
| "list_add_between h new _ _ = None"

definition list_add :: "'a lheap \<Rightarrow> 'a \<Rightarrow> 'a \<Rightarrow> 'a lheap option" where
  "list_add h new head = list_add_between h new (Some head) (nextp h head)"

definition list_add_tail :: "'a lheap \<Rightarrow> 'a \<Rightarrow> 'a \<Rightarrow> 'a lheap option" where
  "list_add_tail h new head = list_add_between h new (prevp h head) (Some head)"

fun list_del_between :: "'a lheap \<Rightarrow> 'a option \<Rightarrow> 'a option \<Rightarrow> 'a lheap option" where
  \<comment> \<open>\<open>__list_del\<close>\<close>
  "list_del_between h (Some p) (Some n) = Some (set_next (set_prev h n (Some p)) p (Some n))"
| "list_del_between h _ _ = None"

definition list_del :: "'a lheap \<Rightarrow> 'a \<Rightarrow> 'a lheap option" where
  "list_del h entry =
     (case list_del_between h (prevp h entry) (nextp h entry) of
        None \<Rightarrow> None
      | Some h1 \<Rightarrow> Some (set_prev (set_next h1 entry None) entry None))"

definition list_del_init :: "'a lheap \<Rightarrow> 'a \<Rightarrow> 'a lheap option" where
  "list_del_init h entry =
     map_option (\<lambda>h1. INIT_LIST_HEAD h1 entry)
       (list_del_between h (prevp h entry) (nextp h entry))"

definition list_move :: "'a lheap \<Rightarrow> 'a \<Rightarrow> 'a \<Rightarrow> 'a lheap option" where
  "list_move h l head =
     (case list_del_between h (prevp h l) (nextp h l) of
        None \<Rightarrow> None | Some h1 \<Rightarrow> list_add h1 l head)"

definition list_move_tail :: "'a lheap \<Rightarrow> 'a \<Rightarrow> 'a \<Rightarrow> 'a lheap option" where
  "list_move_tail h l head =
     (case list_del_between h (prevp h l) (nextp h l) of
        None \<Rightarrow> None | Some h1 \<Rightarrow> list_add_tail h1 l head)"

definition list_empty :: "'a lheap \<Rightarrow> 'a \<Rightarrow> bool" where
  "list_empty h head \<longleftrightarrow> nextp h head = Some head"

definition list_splice_at :: "'a lheap \<Rightarrow> 'a \<Rightarrow> 'a \<Rightarrow> 'a lheap option" where
  \<comment> \<open>\<open>__list_splice\<close>\<close>
  "list_splice_at h l head =
     (case (nextp h l, prevp h l, nextp h head) of
        (Some f, Some l2, Some at) \<Rightarrow>
          (let h1 = set_prev h f (Some head);
               h2 = set_next h1 head (Some f);
               h3 = set_next h2 l2 (Some at)
           in Some (set_prev h3 at (Some l2)))
      | _ \<Rightarrow> None)"

definition list_splice :: "'a lheap \<Rightarrow> 'a \<Rightarrow> 'a \<Rightarrow> 'a lheap option" where
  "list_splice h l head = (if \<not> list_empty h l then list_splice_at h l head else Some h)"

definition list_splice_init :: "'a lheap \<Rightarrow> 'a \<Rightarrow> 'a \<Rightarrow> 'a lheap option" where
  "list_splice_init h l head =
     (if \<not> list_empty h l
      then map_option (\<lambda>h1. INIT_LIST_HEAD h1 l) (list_splice_at h l head)
      else Some h)"

text \<open>
  The iteration macros.  The fuel bounds the number of visited entries; a walk over a ring of
  \<open>n\<close> entries needs \<open>n + 1\<close> units (\<open>list_for_each_ring\<close>).
\<close>

fun list_walk :: "nat \<Rightarrow> ('a \<Rightarrow> 'a option) \<Rightarrow> 'a \<Rightarrow> 'a option \<Rightarrow> 'a list option" where
  "list_walk 0 step head pos = None"
| "list_walk (Suc n) step head None = None"
| "list_walk (Suc n) step head (Some p) =
     (if p = head then Some [] else map_option (Cons p) (list_walk n step head (step p)))"

definition list_for_each :: "nat \<Rightarrow> 'a lheap \<Rightarrow> 'a \<Rightarrow> 'a list option" where
  "list_for_each n h head = list_walk n (nextp h) head (nextp h head)"

definition list_for_each_prev :: "nat \<Rightarrow> 'a lheap \<Rightarrow> 'a \<Rightarrow> 'a list option" where
  "list_for_each_prev n h head = list_walk n (prevp h) head (prevp h head)"

section \<open>Rings\<close>

fun linked :: "'a lheap \<Rightarrow> 'a list \<Rightarrow> bool" where
  "linked h (a # b # xs) \<longleftrightarrow> nextp h a = Some b \<and> prevp h b = Some a \<and> linked h (b # xs)"
| "linked h _ \<longleftrightarrow> True"

definition dlist :: "'a lheap \<Rightarrow> 'a \<Rightarrow> 'a list \<Rightarrow> bool" where
  "dlist h head xs \<longleftrightarrow> distinct (head # xs) \<and> linked h (head # xs @ [head])"

lemma heap_sel [simp]:
  "nextp (set_next h p q) = (nextp h)(p := q)" "prevp (set_next h p q) = prevp h"
  "nextp (set_prev h p q) = nextp h" "prevp (set_prev h p q) = (prevp h)(p := q)"
  by (simp_all add: set_next_def set_prev_def)

lemma linked_append:
  "linked h (as @ x # bs) \<longleftrightarrow> linked h (as @ [x]) \<and> linked h (x # bs)"
proof (induction as)
  case (Cons a as)
  then show ?case by (cases as) auto
qed simp

lemma linked_middle:
  "linked h (as @ p # n # bs) \<longleftrightarrow>
     linked h (as @ [p]) \<and> nextp h p = Some n \<and> prevp h n = Some p \<and> linked h (n # bs)"
  by (subst linked_append) simp

lemma linked_cong:
  assumes "\<And>a. a \<in> set (butlast zs) \<Longrightarrow> nextp h' a = nextp h a"
    and "\<And>b. b \<in> set (tl zs) \<Longrightarrow> prevp h' b = prevp h b"
  shows "linked h' zs = linked h zs"
  using assms
proof (induction h zs rule: linked.induct)
  case (1 h a b xs)
  then have "linked h' (b # xs) = linked h (b # xs)"
    by (auto dest: list.set_sel(2) split: if_splits)
  with "1.prems" show ?case by simp
qed simp_all

text \<open>A ring cut open at an arbitrary place: the part up to \<open>p\<close> and the part from \<open>n\<close> on.\<close>

lemma dlist_cut:
  assumes "dlist h head (xs @ ys)"
  obtains as p n bs where
    "head # xs = as @ [p]" "ys @ [head] = n # bs"
    "linked h (as @ [p])" "linked h (n # bs)" "nextp h p = Some n" "prevp h n = Some p"
    "p \<notin> set as" "n \<notin> set bs" "n \<notin> set xs" "p \<notin> set ys"
    "distinct (head # xs @ ys)" "p = last (head # xs)" "n = hd (ys @ [head])"
proof -
  obtain as where as: "head # xs = as @ [last (head # xs)]"
    using last_Cons_split by metis
  obtain n bs where nb: "ys @ [head] = n # bs" by (cases ys) auto
  let ?p = "last (head # xs)"
  have d: "distinct (head # xs @ ys)" using assms by (simp add: dlist_def)
  have ring: "head # (xs @ ys) @ [head] = as @ ?p # n # bs"
  proof -
    have "head # (xs @ ys) @ [head] = (head # xs) @ (ys @ [head])" by simp
    also have "\<dots> = (as @ [?p]) @ (n # bs)" using as nb by (rule arg_cong2)
    finally show ?thesis by simp
  qed
  from assms have l: "linked h (as @ ?p # n # bs)"
    unfolding dlist_def ring by simp
  have "distinct (as @ [?p])" using d as by (metis distinct_Cons_append_split)
  moreover have "distinct (n # bs)" using d nb by (metis distinct_Cons_append_split)
  moreover have "?p \<in> set (head # xs)" by (rule last_in_set) simp
  moreover have "n \<notin> set xs"
    using d nb by (cases ys) auto
  moreover have "?p \<notin> set ys"
    using d \<open>?p \<in> set (head # xs)\<close> by auto
  ultimately show thesis
    using as nb l d by (intro that [of as ?p n bs]) (auto simp: linked_middle)
qed

lemma dlist_ends:
  assumes "dlist h head xs"
  shows "nextp h head = Some (hd (xs @ [head]))" "prevp h head = Some (last (head # xs))"
proof -
  show "nextp h head = Some (hd (xs @ [head]))"
    using assms by (cases xs) (auto simp: dlist_def)
  from assms have "dlist h head (xs @ [])" by simp
  then show "prevp h head = Some (last (head # xs))"
    by (rule dlist_cut) auto
qed

lemma dlist_neighbours:
  assumes "dlist h head (xs @ y # ys)"
  shows "prevp h y = Some (last (head # xs))" "nextp h y = Some (hd (ys @ [head]))"
proof -
  show "prevp h y = Some (last (head # xs))"
    using assms by (rule dlist_cut) auto
  from assms have "dlist h head ((xs @ [y]) @ ys)" by simp
  then show "nextp h y = Some (hd (ys @ [head]))"
    by (rule dlist_cut) auto
qed

section \<open>Refinement: the pointer operations are list operations\<close>

lemma dlist_glue:
  assumes "head # xs = as @ [p]" "ys @ [head] = n # bs" "distinct (head # xs @ ys)"
    and "linked h (as @ [p])" "linked h (n # bs)" "nextp h p = Some n" "prevp h n = Some p"
  shows "dlist h head (xs @ ys)"
proof -
  have "head # (xs @ ys) @ [head] = (head # xs) @ (ys @ [head])" by simp
  also have "\<dots> = as @ p # n # bs" using assms(1,2) by (metis append.assoc append_Cons append_Nil)
  finally have "linked h (head # (xs @ ys) @ [head])"
    using assms(4-7) by (simp only: linked_middle)
  with assms(3) show ?thesis by (simp add: dlist_def)
qed

lemma list_add_between_ring [heap_laws]:
  assumes "dlist h head (xs @ ys)" "new \<notin> set (head # xs @ ys)"
  shows "\<exists>h'. list_add_between h new (Some (last (head # xs))) (Some (hd (ys @ [head]))) = Some h'
    \<and> dlist h' head (xs @ new # ys)"
proof (rule dlist_cut [OF assms(1)])
  fix as p n bs
  assume cut: "head # xs = as @ [p]" "ys @ [head] = n # bs" "linked h (as @ [p])"
    "linked h (n # bs)" "nextp h p = Some n" "prevp h n = Some p" "p \<notin> set as" "n \<notin> set bs"
    "n \<notin> set xs" "p \<notin> set ys" "distinct (head # xs @ ys)"
    "p = last (head # xs)" "n = hd (ys @ [head])"
  let ?h = "set_next (set_prev (set_next (set_prev h n (Some new)) new (Some n)) new (Some p))
    p (Some new)"
  have mem: "p \<in> set (head # xs)" "n \<in> set (ys @ [head])" "set (tl (as @ [p])) = set xs"
    "set (butlast (n # bs)) = set ys"
    using cut(1,2) by (metis in_set_conv_decomp, metis list.set_intros(1), metis list.sel(3),
        metis butlast_snoc)
  have ne: "new \<noteq> p" "new \<noteq> n" using assms(2) mem(1,2) by auto
  have "linked ?h (as @ [p])"
  proof (subst linked_cong)
    show "nextp ?h a = nextp h a" if "a \<in> set (butlast (as @ [p]))" for a
    proof -
      have "a \<in> set (head # xs)" using that cut(1) by (metis in_set_butlastD)
      then have "a \<noteq> new" using assms(2) by auto
      moreover have "a \<noteq> p" using that cut(7) by auto
      ultimately show ?thesis by simp
    qed
    show "prevp ?h b = prevp h b" if "b \<in> set (tl (as @ [p]))" for b
      using that assms(2) cut(9) by (auto simp: mem(3))
  qed (rule cut(3))
  moreover have "linked ?h (n # bs)"
  proof (subst linked_cong)
    show "nextp ?h a = nextp h a" if "a \<in> set (butlast (n # bs))" for a
      using that assms(2) cut(10) unfolding mem(4) by auto
    show "prevp ?h b = prevp h b" if "b \<in> set (tl (n # bs))" for b
    proof -
      have "b \<in> set (ys @ [head])" using that cut(2) by simp
      then show ?thesis using that assms(2) cut(8) by auto
    qed
  qed (rule cut(4))
  ultimately have "dlist ?h head ((xs @ [new]) @ ys)"
    using cut(1,2,11) assms(2) ne
    by (intro dlist_glue [of head "xs @ [new]" "as @ [p]" new ys n bs])
      (auto simp: linked_append [of _ _ p "[new]"])
  then show ?thesis using cut(12,13) by (simp add: Let_def)
qed

lemma list_del_between_ring [heap_laws]:
  assumes "dlist h head (xs @ y # ys)"
  shows "\<exists>h'. list_del_between h (Some (last (head # xs))) (Some (hd (ys @ [head]))) = Some h'
    \<and> dlist h' head (xs @ ys) \<and> (\<forall>a. a \<notin> set (head # xs @ ys) \<longrightarrow> nextp h' a = nextp h a \<and> prevp h' a = prevp h a)"
proof -
  define p where "p = last (head # xs)"
  define n where "n = hd (ys @ [head])"
  let ?h = "set_next (set_prev h n (Some p)) p (Some n)"
  have d: "distinct (head # xs)" "distinct (ys @ [head])" "set xs \<inter> set ys = {}"
    "distinct (head # xs @ ys)"
    using assms by (auto simp: dlist_def)
  obtain as where as: "head # xs = as @ [p]" using last_Cons_split p_def by metis
  obtain bs where bs: "ys @ [head] = n # bs" unfolding n_def by (cases ys) auto
  have "linked h (head # (xs @ y # ys) @ [head])" using assms by (simp add: dlist_def)
  also have "head # (xs @ y # ys) @ [head] = (head # xs) @ y # (ys @ [head])" by simp
  finally have l: "linked h (as @ [p])" "linked h (n # bs)"
    unfolding as bs by (simp_all add: linked_middle [of h as p y])
  have "set (tl (head # xs)) = set xs" by simp
  then have tl: "set (tl (as @ [p])) = set xs" unfolding as .
  have "set (butlast (ys @ [head])) = set ys" by simp
  then have bl: "set (butlast (n # bs)) = set ys" unfolding bs .
  have dp: "distinct (as @ [p])" using d(1) unfolding as .
  have dn: "distinct (n # bs)" using d(2) unfolding bs .
  have p: "p \<in> set (head # xs)" unfolding as by simp
  have n: "n \<in> set (ys @ [head])" unfolding bs by simp
  have "linked ?h (as @ [p])"
    using l(1) dp n d by (subst linked_cong) (auto simp: tl)
  moreover have "linked ?h (n # bs)"
    using l(2) dn p d by (subst linked_cong) (auto simp: bl simp del: butlast.simps)
  ultimately have "dlist ?h head (xs @ ys)"
    using as bs d by (intro dlist_glue [of head xs as p ys n bs]) auto
  moreover have "nextp ?h a = nextp h a \<and> prevp ?h a = prevp h a" if "a \<notin> set (head # xs @ ys)" for a
    using that p n by auto
  ultimately show ?thesis unfolding p_def [symmetric] n_def [symmetric] by auto
qed

lemma list_add_ring:
  assumes "dlist h head (xs @ ys)" "new \<notin> set (head # xs @ ys)"
  shows "\<exists>h'. list_add h new (last (head # xs)) = Some h' \<and> dlist h' head (xs @ new # ys)"
proof -
  have "nextp h (last (head # xs)) = Some (hd (ys @ [head]))"
    using assms(1) by (rule dlist_cut) auto
  then show ?thesis using list_add_between_ring [OF assms] by (simp only: list_add_def)
qed

lemma list_add_tail_ring:
  assumes "dlist h head (xs @ ys)" "new \<notin> set (head # xs @ ys)"
  shows "\<exists>h'. list_add_tail h new (hd (ys @ [head])) = Some h' \<and> dlist h' head (xs @ new # ys)"
proof -
  have "prevp h (hd (ys @ [head])) = Some (last (head # xs))"
    using assms(1) by (rule dlist_cut) auto
  then show ?thesis using list_add_between_ring [OF assms] by (simp only: list_add_tail_def)
qed

lemma dlist_frame:
  assumes "dlist h head xs"
    and "\<And>a. a \<in> set (head # xs) \<Longrightarrow> nextp h' a = nextp h a \<and> prevp h' a = prevp h a"
  shows "dlist h' head xs"
proof -
  have "linked h' (head # xs @ [head]) = linked h (head # xs @ [head])"
  proof (rule linked_cong)
    show "nextp h' a = nextp h a" if "a \<in> set (butlast (head # xs @ [head]))" for a
      using that by (intro assms(2) [THEN conjunct1]) (auto simp: butlast_append split: if_splits)
    show "prevp h' b = prevp h b" if "b \<in> set (tl (head # xs @ [head]))" for b
      using that by (intro assms(2) [THEN conjunct2]) auto
  qed
  with assms(1) show ?thesis by (simp add: dlist_def)
qed

lemma list_del_ring:
  assumes "dlist h head (xs @ y # ys)"
  shows "\<exists>h'. list_del h y = Some h' \<and> dlist h' head (xs @ ys) \<and> nextp h' y = None \<and> prevp h' y = None"
proof -
  obtain h1 where h1: "list_del_between h (Some (last (head # xs))) (Some (hd (ys @ [head]))) = Some h1"
    "dlist h1 head (xs @ ys)"
    using list_del_between_ring [OF assms] by blast
  have "y \<notin> set (head # xs @ ys)" using assms by (auto simp: dlist_def)
  then have "dlist (set_prev (set_next h1 y None) y None) head (xs @ ys)"
    using h1(2) by (elim dlist_frame) auto
  with h1(1) show ?thesis
    by (simp add: list_del_def dlist_neighbours [OF assms] del: last.simps)
qed

lemma list_del_init_ring:
  assumes "dlist h head (xs @ y # ys)"
  shows "\<exists>h'. list_del_init h y = Some h' \<and> dlist h' head (xs @ ys) \<and> dlist h' y []"
proof -
  obtain h1 where h1: "list_del_between h (Some (last (head # xs))) (Some (hd (ys @ [head]))) = Some h1"
    "dlist h1 head (xs @ ys)"
    using list_del_between_ring [OF assms] by blast
  have "y \<notin> set (head # xs @ ys)" using assms by (auto simp: dlist_def)
  then have "dlist (INIT_LIST_HEAD h1 y) head (xs @ ys)"
    using h1(2) by (elim dlist_frame) (auto simp: INIT_LIST_HEAD_def)
  moreover have "dlist (INIT_LIST_HEAD h1 y) y []"
    by (simp add: dlist_def INIT_LIST_HEAD_def)
  ultimately show ?thesis using h1(1)
    by (simp add: list_del_init_def dlist_neighbours [OF assms] del: last.simps)
qed

lemma list_move_ring:
  assumes "dlist h head (xs @ y # ys)"
  shows "\<exists>h'. list_move h y head = Some h' \<and> dlist h' head (y # xs @ ys)"
    and "\<exists>h'. list_move_tail h y head = Some h' \<and> dlist h' head (xs @ ys @ [y])"
proof -
  obtain h1 where h1: "list_del_between h (Some (last (head # xs))) (Some (hd (ys @ [head]))) = Some h1"
    "dlist h1 head (xs @ ys)"
    using list_del_between_ring [OF assms] by blast
  have y: "y \<notin> set (head # xs @ ys)" using assms by (auto simp: dlist_def)
  show "\<exists>h'. list_move h y head = Some h' \<and> dlist h' head (y # xs @ ys)"
    using h1(1) list_add_ring [of h1 head "[]" "xs @ ys" y] h1(2) y
    by (simp add: list_move_def dlist_neighbours [OF assms] del: last.simps) simp
  show "\<exists>h'. list_move_tail h y head = Some h' \<and> dlist h' head (xs @ ys @ [y])"
    using h1(1) list_add_tail_ring [of h1 head "xs @ ys" "[]" y] h1(2) y
    by (simp add: list_move_tail_def dlist_neighbours [OF assms] del: last.simps)
qed

lemma list_empty_ring: "dlist h head xs \<Longrightarrow> list_empty h head \<longleftrightarrow> xs = []"
  by (cases xs) (auto simp: list_empty_def dlist_def)

lemma list_walk_linked:
  assumes "linked h (as @ [head])" "head \<notin> set as" "length as < n"
  shows "list_walk n (nextp h) head (Some (hd (as @ [head]))) = Some as"
  using assms
proof (induction as arbitrary: n)
  case Nil
  then show ?case by (cases n) auto
next
  case (Cons a as)
  obtain m where m: "n = Suc m" "length as < m" using Cons.prems(3) by (cases n) auto
  have "nextp h a = Some (hd (as @ [head]))" "linked h (as @ [head])"
    using Cons.prems(1) by (cases as; simp)+
  with Cons m show ?case by auto
qed

lemma list_walk_linked_back:
  assumes "linked h (head # as)" "head \<notin> set as" "length as < n"
  shows "list_walk n (prevp h) head (Some (last (head # as))) = Some (rev as)"
  using assms
proof (induction as arbitrary: n rule: rev_induct)
  case Nil
  then show ?case by (cases n) auto
next
  case (snoc a as)
  obtain m where m: "n = Suc m" "length as < m" using snoc.prems(3) by (cases n) auto
  obtain bs p where b: "head # as = bs @ [p]" "p = last (head # as)" using last_Cons_split by metis
  have "linked h (bs @ [p, a])" using snoc.prems(1) b(1) by (metis append.assoc append_Cons append_Nil)
  then have "prevp h a = Some p" "linked h (head # as)"
    using b(1) by (simp_all add: linked_middle [of h bs p a "[]"])
  with snoc m b(2) show ?case by auto
qed

text \<open>Both iteration macros visit exactly the entries, in list order and in reverse.\<close>

lemma list_for_each_ring:
  assumes "dlist h head xs" "length xs < n"
  shows "list_for_each n h head = Some xs" "list_for_each_prev n h head = Some (rev xs)"
proof -
  have l: "linked h (head # xs @ [head])" and d: "head \<notin> set xs"
    using assms(1) by (auto simp: dlist_def)
  then have "linked h (xs @ [head])" by (cases xs) auto
  then show "list_for_each n h head = Some xs"
    using assms d list_walk_linked by (simp add: list_for_each_def dlist_ends)
  have "linked h (head # xs)"
    using l linked_append [of h "head # xs" head "[]"]
    by (metis append_Cons butlast_snoc dlist_ends(2) last_Cons_split linked_middle append.assoc append_Nil)
  then show "list_for_each_prev n h head = Some (rev xs)"
    using assms d list_walk_linked_back by (simp add: list_for_each_prev_def dlist_ends del: last.simps)
qed

lemma list_splice_ring:
  assumes "dlist h l (x # xs)" "dlist h head ys" "set (l # x # xs) \<inter> set (head # ys) = {}"
  shows "\<exists>h'. list_splice_at h l head = Some h' \<and> dlist h' head ((x # xs) @ ys)"
proof -
  define n where "n = hd (ys @ [head])"
  define q where "q = last (x # xs)"
  obtain bs where bs: "ys @ [head] = n # bs" unfolding n_def by (cases ys) auto
  obtain cs where cs: "x # xs = cs @ [q]" unfolding q_def using last_Cons_split by metis
  let ?h = "set_prev (set_next (set_next (set_prev h x (Some head)) head (Some x)) q (Some n)) n (Some q)"
  have d: "distinct (head # (x # xs) @ ys)" using assms by (auto simp: dlist_def)
  have lx: "linked h (cs @ [q])"
    using assms(1) linked_append [of h "l # cs" q "[l]"] cs
    by (cases cs) (auto simp: dlist_def)
  have ly: "linked h (n # bs)"
    using assms(2) bs by (auto simp: dlist_def)
  have dn: "distinct (n # bs)" "distinct (cs @ [q])"
    using d bs cs by (metis distinct_Cons_append_split, metis distinct.simps(2) distinct_append)
  have q: "q \<in> set (x # xs)" and n: "n \<in> set (ys @ [head])"
    unfolding cs bs by simp_all
  have bl: "set (butlast (n # bs)) = set ys" "set (tl (n # bs)) \<subseteq> set (ys @ [head])"
    unfolding bs [symmetric] by (simp, cases ys, auto)
  have "set (tl (x # xs)) \<subseteq> set xs" by simp
  then have tlx: "set (tl (cs @ [q])) \<subseteq> set xs" unfolding cs .
  have "linked ?h (cs @ [q])"
  proof (subst linked_cong)
    show "nextp ?h a = nextp h a" if "a \<in> set (butlast (cs @ [q]))" for a
    proof -
      have "a \<in> set (x # xs)" "a \<noteq> q" using that dn(2) unfolding cs by auto
      then show ?thesis using d by auto
    qed
    show "prevp ?h b = prevp h b" if "b \<in> set (tl (cs @ [q]))" for b
      using that d n tlx by auto
  qed (rule lx)
  moreover have "linked ?h (n # bs)"
  proof (subst linked_cong)
    show "nextp ?h a = nextp h a" if "a \<in> set (butlast (n # bs))" for a
      using that d q unfolding bl by auto
    show "prevp ?h b = prevp h b" if "b \<in> set (tl (n # bs))" for b
      using that d dn(1) bl(2) by auto
  qed (rule ly)
  moreover have "nextp ?h head = Some x" "prevp ?h x = Some head"
    using d q n by auto
  ultimately have "dlist ?h head ((x # xs) @ ys)"
    using bs cs d by (intro dlist_glue [of head "x # xs" "head # cs" q ys n bs]) (cases cs; auto)+
  moreover have "nextp h l = Some x" "prevp h l = Some q" "nextp h head = Some n"
    using dlist_ends [OF assms(1)] dlist_ends [OF assms(2)] by (simp_all add: q_def n_def)
  ultimately show ?thesis by (simp add: list_splice_at_def Let_def)
qed

text \<open>Framing: inserting into or removing from one ring leaves every disjoint ring alone.\<close>

lemma list_add_tail_frame:
  assumes "list_add_tail h new (hd (ys @ [head])) = Some h'" "dlist h head (xs @ ys)"
    and "dlist h g zs" "set (g # zs) \<inter> set (new # head # xs @ ys) = {}"
  shows "dlist h' g zs"
proof -
  let ?p = "last (head # xs)" and ?n = "hd (ys @ [head])"
  have "prevp h ?n = Some ?p" using assms(2) by (rule dlist_cut) auto
  then have "list_add_between h new (Some ?p) (Some ?n) = Some h'"
    using assms(1) by (simp add: list_add_tail_def del: last.simps)
  then have "nextp h' a = nextp h a \<and> prevp h' a = prevp h a" if "a \<notin> {new, ?p, ?n}" for a
    using that by (auto simp: Let_def simp del: last.simps)
  moreover have "?p \<in> set (head # xs)" "?n \<in> set (ys @ [head])"
    using last_in_set [of "head # xs"] list.set_sel(1) [of "ys @ [head]"] by simp_all
  then have "a \<notin> {new, ?p, ?n}" if "a \<in> set (g # zs)" for a using assms(4) that by auto
  ultimately show ?thesis by (intro dlist_frame [OF assms(3), of h']) blast
qed

lemma list_del_frame:
  assumes "list_del h y = Some h'" "dlist h head (xs @ y # ys)"
    and "dlist h g zs" "set (g # zs) \<inter> set (head # xs @ y # ys) = {}"
  shows "dlist h' g zs"
proof -
  obtain h1 where h1: "list_del_between h (Some (last (head # xs))) (Some (hd (ys @ [head]))) = Some h1"
    "\<forall>a. a \<notin> set (head # xs @ ys) \<longrightarrow> nextp h1 a = nextp h a \<and> prevp h1 a = prevp h a"
    using list_del_between_ring [OF assms(2)] by blast
  have "h' = set_prev (set_next h1 y None) y None"
    using assms(1) h1(1) by (simp add: list_del_def dlist_neighbours [OF assms(2)] del: last.simps)
  then have "nextp h' a = nextp h a \<and> prevp h' a = prevp h a" if "a \<notin> set (head # xs @ y # ys)" for a
    using that h1(2) by simp
  then show ?thesis using assms(3,4) by (intro dlist_frame [of h g zs h']) blast+
qed

section \<open>The contract of an intrusive list\<close>

text \<open>
  What the clients of the list (the timer list, the allocators) rely on.  The same contract is
  met by the offset-based list of the shared-memory allocator.
\<close>

locale intrusive_list =
  fixes rep :: "'h \<Rightarrow> 'a \<Rightarrow> 'a list \<Rightarrow> bool"
    and init :: "'h \<Rightarrow> 'a \<Rightarrow> 'h"
    and insert_before :: "'h \<Rightarrow> 'a \<Rightarrow> 'a \<Rightarrow> 'h option"
    and remove :: "'h \<Rightarrow> 'a \<Rightarrow> 'h option"
    and first :: "'h \<Rightarrow> 'a \<Rightarrow> 'a option"
  assumes rep_distinct: "rep h head xs \<Longrightarrow> distinct (head # xs)"
    and rep_init: "rep (init h head) head []"
    and rep_insert: "rep h head (xs @ ys) \<Longrightarrow> new \<notin> set (head # xs @ ys) \<Longrightarrow>
      \<exists>h'. insert_before h new (hd (ys @ [head])) = Some h' \<and> rep h' head (xs @ new # ys)"
    and rep_remove: "rep h head (xs @ y # ys) \<Longrightarrow> \<exists>h'. remove h y = Some h' \<and> rep h' head (xs @ ys)"
    and rep_first: "rep h head xs \<Longrightarrow> first h head = Some (hd (xs @ [head]))"
    and insert_frame: "insert_before h new (hd (ys @ [head])) = Some h' \<Longrightarrow> rep h head (xs @ ys) \<Longrightarrow>
      rep h g zs \<Longrightarrow> set (g # zs) \<inter> set (new # head # xs @ ys) = {} \<Longrightarrow> rep h' g zs"
    and remove_frame: "remove h y = Some h' \<Longrightarrow> rep h head (xs @ y # ys) \<Longrightarrow>
      rep h g zs \<Longrightarrow> set (g # zs) \<inter> set (head # xs @ y # ys) = {} \<Longrightarrow> rep h' g zs"
begin

lemma enqueue:
  assumes "rep h head xs" "new \<notin> set (head # xs)"
  shows "\<exists>h'. insert_before h new head = Some h' \<and> rep h' head (xs @ [new])"
  using rep_insert [of h head xs "[]" new] assms by simp

lemma dequeue:
  assumes "rep h head (x # xs)"
  shows "first h head = Some x" "\<exists>h'. remove h x = Some h' \<and> rep h' head xs"
  using rep_first [OF assms] rep_remove [of h head "[]" x xs] assms by simp_all

lemma first_is_head:
  assumes "rep h head xs"
  shows "first h head = Some head \<longleftrightarrow> xs = []"
  using rep_first [OF assms] rep_distinct [OF assms] by (cases xs) auto

lemma rotate:
  assumes "rep h head (x # xs)"
  shows "\<exists>h1 h2. remove h x = Some h1 \<and> insert_before h1 x head = Some h2 \<and> rep h2 head (xs @ [x])"
proof -
  obtain h1 where h1: "remove h x = Some h1" "rep h1 head xs" using dequeue(2) [OF assms] by blast
  moreover have "x \<notin> set (head # xs)" using rep_distinct [OF assms] by auto
  ultimately show ?thesis using enqueue by blast
qed

text \<open>Moving an entry of one ring to the tail of another, disjoint one.\<close>

lemma transfer:
  assumes "rep h a (xs @ y # ys)" "rep h b zs" "set (a # xs @ y # ys) \<inter> set (b # zs) = {}"
  shows "\<exists>h1 h2. remove h y = Some h1 \<and> insert_before h1 y b = Some h2 \<and>
    rep h2 a (xs @ ys) \<and> rep h2 b (zs @ [y])"
proof -
  obtain h1 where h1: "remove h y = Some h1" "rep h1 a (xs @ ys)"
    using rep_remove [OF assms(1)] by blast
  have b: "rep h1 b zs" using remove_frame [OF h1(1) assms(1,2)] assms(3) by blast
  obtain h2 where h2: "insert_before h1 y b = Some h2" "rep h2 b (zs @ [y])"
    using enqueue [OF b, of y] assms(3) by auto
  have "y \<notin> set (a # xs @ ys)" using rep_distinct [OF assms(1)] by auto
  then have "rep h2 a (xs @ ys)"
    using insert_frame [of h1 y "[]" b h2 zs a "xs @ ys"] h1(2) h2(1) b assms(3) by auto
  with h1(1) h2 show ?thesis by blast
qed

end

interpretation kl: intrusive_list dlist INIT_LIST_HEAD list_add_tail list_del nextp
proof unfold_locales
  show "distinct (head # xs)" if "dlist h head xs" for h :: "'a lheap" and head xs
    using that by (simp add: dlist_def)
  show "dlist (INIT_LIST_HEAD h head) head []" for h :: "'a lheap" and head
    by (simp add: dlist_def INIT_LIST_HEAD_def)
  show "\<exists>h'. list_add_tail h new (hd (ys @ [head])) = Some h' \<and> dlist h' head (xs @ new # ys)"
    if "dlist h head (xs @ ys)" "new \<notin> set (head # xs @ ys)" for h :: "'a lheap" and head xs ys new
    using that by (rule list_add_tail_ring)
  show "\<exists>h'. list_del h y = Some h' \<and> dlist h' head (xs @ ys)"
    if "dlist h head (xs @ y # ys)" for h :: "'a lheap" and head xs y ys
    using list_del_ring [OF that] by blast
  show "nextp h head = Some (hd (xs @ [head]))" if "dlist h head xs" for h :: "'a lheap" and head xs
    using that by (rule dlist_ends)
  show "dlist h' g zs" if "list_add_tail h new (hd (ys @ [head])) = Some h'" "dlist h head (xs @ ys)"
    "dlist h g zs" "set (g # zs) \<inter> set (new # head # xs @ ys) = {}"
    for h h' :: "'a lheap" and new head xs ys g zs
    using that by (rule list_add_tail_frame)
  show "dlist h' g zs" if "list_del h y = Some h'" "dlist h head (xs @ y # ys)"
    "dlist h g zs" "set (g # zs) \<inter> set (head # xs @ y # ys) = {}"
    for h h' :: "'a lheap" and y head xs ys g zs
    using that by (rule list_del_frame)
qed

section \<open>Properties\<close>

text \<open>
  C26. The pointer operations are list operations.  On a ring holding \<open>xs @ y # ys\<close>, a new entry
  is put first by \<open>list_add\<close> and last by \<open>list_add_tail\<close>; \<open>list_del\<close> and \<open>list_del_init\<close> remove
  exactly \<open>y\<close> (the latter leaving it as a ring of its own); \<open>list_move\<close> and \<open>list_move_tail\<close>
  carry it to either end.  No operation dereferences a null pointer, and \<open>list_empty\<close> tells
  exactly when no entry is left.
\<close>

theorem list_ops_refine:
  assumes "dlist h head (xs @ y # ys)" "new \<notin> set (head # xs @ y # ys)"
  shows "(\<exists>h'. list_add h new head = Some h' \<and> dlist h' head (new # xs @ y # ys)) \<and>
    (\<exists>h'. list_add_tail h new head = Some h' \<and> dlist h' head (xs @ y # ys @ [new])) \<and>
    (\<exists>h'. list_del h y = Some h' \<and> dlist h' head (xs @ ys) \<and> (list_empty h' head \<longleftrightarrow> xs @ ys = [])) \<and>
    (\<exists>h'. list_del_init h y = Some h' \<and> dlist h' head (xs @ ys) \<and> dlist h' y []) \<and>
    (\<exists>h'. list_move h y head = Some h' \<and> dlist h' head (y # xs @ ys)) \<and>
    (\<exists>h'. list_move_tail h y head = Some h' \<and> dlist h' head (xs @ ys @ [y]))"
proof (intro conjI)
  show "\<exists>h'. list_add h new head = Some h' \<and> dlist h' head (new # xs @ y # ys)"
    using list_add_ring [of h head "[]" "xs @ y # ys" new] assms by simp
  show "\<exists>h'. list_add_tail h new head = Some h' \<and> dlist h' head (xs @ y # ys @ [new])"
    using kl.enqueue [OF assms] by simp
  show "\<exists>h'. list_del h y = Some h' \<and> dlist h' head (xs @ ys) \<and> (list_empty h' head \<longleftrightarrow> xs @ ys = [])"
  proof -
    obtain h' where "list_del h y = Some h'" "dlist h' head (xs @ ys)"
      using kl.rep_remove [OF assms(1)] by blast
    then show ?thesis using list_empty_ring [of h' head "xs @ ys"] by (intro exI [of _ h']) simp
  qed
qed (rule list_del_init_ring [OF assms(1)] list_move_ring [OF assms(1)])+

definition ring3 :: "nat lheap" where
  \<comment> \<open>a head at address 0 with the entries 1 and 2\<close>
  "ring3 = \<lparr>nextp = [0 \<mapsto> 1, 1 \<mapsto> 2, 2 \<mapsto> 0], prevp = [0 \<mapsto> 2, 1 \<mapsto> 0, 2 \<mapsto> 1]\<rparr>"

lemma ring3_dlist: "dlist ring3 0 [1, 2]"
  by (simp add: dlist_def ring3_def)

theorem list_ops_refine_witness:
  "\<exists>h'. list_del ring3 1 = Some h' \<and> dlist h' 0 [2] \<and> \<not> list_empty h' 0"
  using list_ops_refine [of ring3 0 "[]" 1 "[2]" 3] ring3_dlist by simp

text \<open>
  Iteration.  \<open>list_for_each\<close> visits every entry of a ring once, in order, and stops at the
  head; \<open>list_for_each_prev\<close> visits them in the opposite order.
\<close>

theorem list_for_each_visits:
  assumes "dlist h head xs"
  shows "list_for_each (length xs + 1) h head = Some xs \<and>
    list_for_each_prev (length xs + 1) h head = Some (rev xs)"
  using list_for_each_ring [OF assms, of "length xs + 1"] by simp

theorem list_for_each_visits_witness: "list_for_each 3 ring3 0 = Some [1, 2]"
  using list_for_each_visits [OF ring3_dlist] by (simp add: numeral_3_eq_3)

text \<open>
  Splicing.  \<open>list_splice_init\<close> puts the entries of one ring, in order, in front of those of
  a disjoint ring and leaves the first ring empty.
\<close>

theorem list_splice_init_joins:
  assumes "dlist h l xs" "dlist h head ys" "set (l # xs) \<inter> set (head # ys) = {}"
  shows "\<exists>h'. list_splice_init h l head = Some h' \<and> dlist h' head (xs @ ys) \<and> dlist h' l []"
proof (cases xs)
  case Nil
  then show ?thesis using assms list_empty_ring [OF assms(1)] by (simp add: list_splice_init_def)
next
  case (Cons x xs')
  then obtain h1 where h1: "list_splice_at h l head = Some h1" "dlist h1 head (xs @ ys)"
    using list_splice_ring assms by metis
  have "l \<notin> set (head # xs @ ys)" using assms(1,3) by (auto simp: dlist_def)
  then have "dlist (INIT_LIST_HEAD h1 l) head (xs @ ys)"
    using h1(2) by (elim dlist_frame) (auto simp: INIT_LIST_HEAD_def)
  then show ?thesis
    using h1(1) list_empty_ring [OF assms(1)] Cons kl.rep_init [of h1 l] by (simp add: list_splice_init_def)
qed

theorem list_splice_init_joins_witness:
  "\<exists>h'. list_splice_init (INIT_LIST_HEAD ring3 9) 0 9 = Some h' \<and> dlist h' 9 [1, 2]"
proof -
  have "dlist (INIT_LIST_HEAD ring3 9) 0 [1, 2]"
    using ring3_dlist by (rule dlist_frame) (auto simp: INIT_LIST_HEAD_def)
  from list_splice_init_joins [OF this kl.rep_init] show ?thesis by auto
qed

end
