(* ===== verification/Mix_Func.thy ===== *)
theory Mix_Func
  imports Ckits_Prelude
begin

text \<open>
  The sample mixer \<open>libconf/mixfunc.c\<close> with its types from \<open>libconf/AudioConfMix.h\<close>, and
  \<open>AudioConfMix::mix\<close>, which composes the three passes.  A channel is its amplification mode and
  its sample buffer (16-bit values); the accumulator is a buffer of 32-bit values.  Reading or
  writing a buffer or channel array past its end is \<open>None\<close>.
\<close>

section \<open>The loops over channels and samples\<close>

fun for_idx :: "nat \<Rightarrow> nat \<Rightarrow> (nat \<Rightarrow> 'a \<Rightarrow> 'a option) \<Rightarrow> 'a list \<Rightarrow> 'a list option" where
  \<comment> \<open>\<open>for (; n-- > 0; ++i) a[i] = f(i, a[i])\<close> on the rest of the array from index \<open>i\<close>\<close>
  "for_idx 0 i f xs = Some xs"
| "for_idx (Suc n) i f [] = None"
| "for_idx (Suc n) i f (x # xs) =
     (case f i x of None \<Rightarrow> None | Some y \<Rightarrow> map_option (Cons y) (for_idx n (Suc i) f xs))"

definition elem_at :: "'a list \<Rightarrow> nat \<Rightarrow> 'a option" where
  "elem_at xs i = (if i < length xs then Some (xs ! i) else None)"

section \<open>Types\<close>

datatype fastmix_vol_t = MIX_DISABLE | MIX_KEEP_0dB | MIX_SUPP_3dB | MIX_GAIN_3dB

record fastmix_io_t =
  amp :: fastmix_vol_t
  pAudioData :: "int list"

section \<open>The functions of mixfunc.c\<close>

definition sature32 :: "int \<Rightarrow> int" where
  "sature32 temp =
     (if temp > 32767 then 32767 else if temp < - 32768 then - 32768 else c_short temp)"

definition pre_amp_chan :: "int \<Rightarrow> fastmix_io_t \<Rightarrow> fastmix_io_t option" where
  "pre_amp_chan nLen c =
     (case amp c of
        MIX_DISABLE \<Rightarrow>
          map_option (\<lambda>d. c\<lparr>pAudioData := d\<rparr>) (for_idx (nat nLen) 0 (\<lambda>_ _. Some 0) (pAudioData c))
      | MIX_SUPP_3dB \<Rightarrow>
          map_option (\<lambda>d. c\<lparr>pAudioData := d\<rparr>)
            (for_idx (nat nLen) 0 (\<lambda>_ x. Some (c_short (asr x 1))) (pAudioData c))
      | MIX_GAIN_3dB \<Rightarrow>
          map_option (\<lambda>d. c\<lparr>pAudioData := d\<rparr>)
            (for_idx (nat nLen) 0 (\<lambda>_ x. let temp = c_int (x * 2) in Some (sature32 temp)) (pAudioData c))
      | MIX_KEEP_0dB \<Rightarrow> Some c)"

definition fastmix_pre_amp :: "fastmix_io_t list \<Rightarrow> int \<Rightarrow> int \<Rightarrow> fastmix_io_t list option" where
  "fastmix_pre_amp pInput nNum nLen = for_idx (nat nNum) 0 (\<lambda>_. pre_amp_chan nLen) pInput"

definition fastmix_sat_amp :: "int list \<Rightarrow> fastmix_io_t \<Rightarrow> int \<Rightarrow> fastmix_io_t option" where
  "fastmix_sat_amp pInput pOutput nLen =
     map_option (\<lambda>d. pOutput\<lparr>pAudioData := d\<rparr>)
       (for_idx (nat nLen) 0
          (\<lambda>i _. case amp pOutput of
               MIX_DISABLE \<Rightarrow> Some 0
             | MIX_SUPP_3dB \<Rightarrow> map_option (\<lambda>x. sature32 (asr x 1)) (elem_at pInput i)
             | MIX_GAIN_3dB \<Rightarrow> map_option (\<lambda>x. sature32 (c_int (c_int (x * 2)))) (elem_at pInput i)
             | MIX_KEEP_0dB \<Rightarrow> map_option sature32 (elem_at pInput i))
          (pAudioData pOutput))"

fun add_chans :: "nat \<Rightarrow> nat \<Rightarrow> fastmix_io_t list \<Rightarrow> int \<Rightarrow> int option" where
  \<comment> \<open>the inner loop of \<open>fastmix_add\<close>: \<open>Ltemp += pInput[j].pAudioData[i]\<close>\<close>
  "add_chans 0 i cs Ltemp = Some Ltemp"
| "add_chans (Suc n) i [] Ltemp = None"
| "add_chans (Suc n) i (c # cs) Ltemp =
     (case elem_at (pAudioData c) i of
        None \<Rightarrow> None | Some x \<Rightarrow> add_chans n i cs (c_int (Ltemp + x)))"

definition fastmix_add :: "fastmix_io_t list \<Rightarrow> int list \<Rightarrow> int \<Rightarrow> int \<Rightarrow> int list option" where
  "fastmix_add pInput pOutput nNum nLen =
     for_idx (nat nLen) 0 (\<lambda>i _. add_chans (nat nNum) i pInput 0) pOutput"

fun sub_gain :: "fastmix_vol_t \<Rightarrow> int \<Rightarrow> int" where
  \<comment> \<open>the sample written for \<open>Ltemp = buffer[i] - pInput[j].pAudioData[i]\<close> in the unmuted branches\<close>
  "sub_gain MIX_SUPP_3dB Ltemp = sature32 (asr Ltemp 1)"
| "sub_gain MIX_GAIN_3dB Ltemp = sature32 (c_int (c_int (Ltemp * 2)))"
| "sub_gain _ Ltemp = sature32 Ltemp"

definition sub_sample :: "fastmix_vol_t \<Rightarrow> int list \<Rightarrow> fastmix_io_t list \<Rightarrow> nat \<Rightarrow> nat \<Rightarrow> int option" where
  "sub_sample m buffer pInput j i =
     (if m = MIX_DISABLE then Some 0
      else case (elem_at buffer i, Option.bind (elem_at pInput j) (\<lambda>c. elem_at (pAudioData c) i)) of
             (Some b, Some x) \<Rightarrow> Some (sub_gain m (c_int (b - x)))
           | _ \<Rightarrow> None)"

definition sub_amp_chan :: "int list \<Rightarrow> fastmix_io_t list \<Rightarrow> int \<Rightarrow> nat \<Rightarrow> fastmix_io_t \<Rightarrow> fastmix_io_t option"
  where
  "sub_amp_chan buffer pInput nLen j out =
     map_option (\<lambda>d. out\<lparr>pAudioData := d\<rparr>)
       (for_idx (nat nLen) 0 (\<lambda>i _. sub_sample (amp out) buffer pInput j i) (pAudioData out))"

definition fastmix_sub_amp ::
  "int list \<Rightarrow> fastmix_io_t list \<Rightarrow> fastmix_io_t list \<Rightarrow> int \<Rightarrow> int \<Rightarrow> fastmix_io_t list option" where
  "fastmix_sub_amp buffer pInput pOutput nNum nLen =
     for_idx (nat nNum) 0 (sub_amp_chan buffer pInput nLen) pOutput"

text \<open>
  \<open>AudioConfMix::mix\<close>.  \<open>None\<close> for a pointer argument is the null pointer; the result is the
  status code with the channel arrays and the accumulator after the call.
\<close>

record mix_bufs =
  mixIn :: "fastmix_io_t list option"
  mixFull :: "fastmix_io_t option"
  mixInter :: "fastmix_io_t list option"
  mixAcc :: "int list option"

definition mix :: "int \<Rightarrow> int \<Rightarrow> mix_bufs \<Rightarrow> (int \<times> mix_bufs) option" where
  "mix mSourceNum mSampleLen m =
     (case (mixIn m, mixAcc m) of
        (Some pInput, Some buffer) \<Rightarrow>
          Option.bind (fastmix_pre_amp pInput mSourceNum mSampleLen) (\<lambda>ins.
          Option.bind (fastmix_add ins buffer mSourceNum mSampleLen) (\<lambda>buf.
          Option.bind (case mixFull m of
                         None \<Rightarrow> Some None
                       | Some f \<Rightarrow> map_option Some (fastmix_sat_amp buf f mSampleLen)) (\<lambda>full.
          Option.bind (case mixInter m of
                         None \<Rightarrow> Some None
                       | Some outs \<Rightarrow>
                           map_option Some (fastmix_sub_amp buf ins outs mSourceNum mSampleLen)) (\<lambda>inter.
          Some (0, \<lparr>mixIn = Some ins, mixFull = full, mixInter = inter, mixAcc = Some buf\<rparr>)))))
      | _ \<Rightarrow> Some (- 1, m))"

section \<open>The loop combinator\<close>

lemma for_idx_Some:
  assumes "n \<le> length xs" "\<And>k. k < n \<Longrightarrow> f (i + k) (xs ! k) = Some (g k)"
  shows "for_idx n i f xs = Some (map g [0..<n] @ drop n xs)"
  using assms
proof (induction n i f xs arbitrary: g rule: for_idx.induct)
  case (3 n i f x xs)
  have "for_idx n (Suc i) f xs = Some (map (\<lambda>k. g (Suc k)) [0..<n] @ drop n xs)"
    using 3(2) "3.prems"(2) [of "Suc k" for k]
    by (intro 3(1) [of "g 0"]) (use "3.prems"(2) [of 0] "3.prems"(2) in \<open>auto\<close>)
  moreover have "map g [0..<Suc n] = g 0 # map (\<lambda>k. g (Suc k)) [0..<n]"
    by (simp add: upt_conv_Cons map_Suc_upt [symmetric] del: upt_Suc)
  ultimately show ?case using "3.prems"(2) [of 0] by simp
qed simp_all

lemma for_idx_length: "for_idx n i f xs = Some ys \<Longrightarrow> length ys = length xs"
  by (induction n i f xs arbitrary: ys rule: for_idx.induct) (auto split: option.splits)

lemma for_idx_nth:
  assumes "for_idx n i f xs = Some ys" "k < length xs"
  shows "if k < n then f (i + k) (xs ! k) = Some (ys ! k) else ys ! k = xs ! k"
  using assms
proof (induction n i f xs arbitrary: ys k rule: for_idx.induct)
  case (3 n i f x xs)
  then show ?case by (cases k) (fastforce split: option.splits if_splits)+
qed simp_all

lemma for_idx_bound: "for_idx n i f xs = Some ys \<Longrightarrow> n \<le> length xs"
  by (induction n i f xs arbitrary: ys rule: for_idx.induct) (auto split: option.splits)

section \<open>What each participant hears\<close>

definition clamp16 :: "int \<Rightarrow> int" where
  "clamp16 x = max (- 32768) (min 32767 x)"

fun gain_in :: "fastmix_vol_t \<Rightarrow> int \<Rightarrow> int" where
  "gain_in MIX_DISABLE x = 0"
| "gain_in MIX_SUPP_3dB x = x div 2"
| "gain_in MIX_GAIN_3dB x = clamp16 (2 * x)"
| "gain_in MIX_KEEP_0dB x = x"

fun gain_out :: "fastmix_vol_t \<Rightarrow> int \<Rightarrow> int" where
  "gain_out MIX_DISABLE s = 0"
| "gain_out MIX_SUPP_3dB s = clamp16 (s div 2)"
| "gain_out MIX_GAIN_3dB s = clamp16 (2 * s)"
| "gain_out MIX_KEEP_0dB s = clamp16 s"

definition chan_ok :: "nat \<Rightarrow> fastmix_io_t \<Rightarrow> bool" where
  "chan_ok len c \<longleftrightarrow> len \<le> length (pAudioData c) \<and> (\<forall>x\<in>set (pAudioData c). is_short x)"

lemma sature32_clamp: "sature32 x = clamp16 x"
  by (simp add: sature32_def clamp16_def c_short_id)

lemma clamp16_short: "is_short (clamp16 x)"
  by (simp add: clamp16_def)

lemma half_short: "- 32768 \<le> x \<Longrightarrow> - 32768 \<le> x div 2" "x \<le> 32767 \<Longrightarrow> x div 2 \<le> (32767 :: int)"
  by auto

lemma gain_in_short: "is_short x \<Longrightarrow> is_short (gain_in m x)"
  using clamp16_short by (cases m) auto

lemma elem_at_Some [simp]: "i < length xs \<Longrightarrow> elem_at xs i = Some (xs ! i)"
  by (simp add: elem_at_def)

lemma chan_ok_nth: "chan_ok len c \<Longrightarrow> i < len \<Longrightarrow> is_short (pAudioData c ! i)"
  by (simp add: chan_ok_def)

lemma pre_amp_chan_ok:
  assumes "chan_ok (nat nLen) c"
  shows "\<exists>c'. pre_amp_chan nLen c = Some c' \<and> amp c' = amp c \<and> chan_ok (nat nLen) c'
    \<and> (\<forall>i < nat nLen. pAudioData c' ! i = gain_in (amp c) (pAudioData c ! i))"
proof -
  define n where "n = nat nLen"
  have len: "n \<le> length (pAudioData c)" and sh: "\<And>x. x \<in> set (pAudioData c) \<Longrightarrow> is_short x"
    using assms by (auto simp: chan_ok_def n_def)
  have shi: "\<And>k. k < n \<Longrightarrow> is_short (pAudioData c ! k)" using len sh by simp
  let ?d = "map (\<lambda>k. gain_in (amp c) (pAudioData c ! k)) [0..<n] @ drop n (pAudioData c)"
  have run: "for_idx n 0 f (pAudioData c) = Some ?d"
    if "\<And>k x. is_short x \<Longrightarrow> f k x = Some (gain_in (amp c) x)" for f
    using len shi that by (intro for_idx_Some) auto
  have "is_short x" if "x \<in> set ?d" for x
    using that shi gain_in_short by (auto dest: in_set_dropD sh)
  then have ok: "chan_ok n (c\<lparr>pAudioData := ?d\<rparr>)" using len by (auto simp: chan_ok_def)
  show ?thesis
  proof (cases "amp c")
    case MIX_KEEP_0dB
    with assms show ?thesis by (simp add: pre_amp_chan_def)
  next
    case MIX_DISABLE
    then have "pre_amp_chan nLen c = Some (c\<lparr>pAudioData := ?d\<rparr>)"
      by (simp add: pre_amp_chan_def flip: n_def) (subst run, simp_all)
    with ok show ?thesis by (auto simp flip: n_def simp: nth_append)
  next
    case MIX_SUPP_3dB
    then have "pre_amp_chan nLen c = Some (c\<lparr>pAudioData := ?d\<rparr>)"
      by (simp add: pre_amp_chan_def flip: n_def) (subst run, simp_all add: asr_div c_short_id half_short)
    with ok show ?thesis by (auto simp flip: n_def simp: nth_append)
  next
    case MIX_GAIN_3dB
    then have "pre_amp_chan nLen c = Some (c\<lparr>pAudioData := ?d\<rparr>)"
      by (simp add: pre_amp_chan_def flip: n_def)
        (subst run, simp_all add: c_int_id sature32_clamp mult.commute)
    with ok show ?thesis by (auto simp flip: n_def simp: nth_append)
  qed
qed

lemma fastmix_pre_amp_ok:
  assumes "n \<le> length cs" "\<And>c. c \<in> set cs \<Longrightarrow> chan_ok (nat nLen) c"
  shows "\<exists>cs'. fastmix_pre_amp cs (int n) nLen = Some cs' \<and> length cs' = length cs
    \<and> (\<forall>j < n. amp (cs' ! j) = amp (cs ! j) \<and> chan_ok (nat nLen) (cs' ! j)
         \<and> (\<forall>i < nat nLen. pAudioData (cs' ! j) ! i = gain_in (amp (cs ! j)) (pAudioData (cs ! j) ! i)))"
proof -
  have "\<forall>j. \<exists>c'. j < n \<longrightarrow> pre_amp_chan nLen (cs ! j) = Some c'" 
    using assms pre_amp_chan_ok by (metis nth_mem order_less_le_trans)
  then obtain g where g: "\<And>j. j < n \<Longrightarrow> pre_amp_chan nLen (cs ! j) = Some (g j)" by metis
  have "fastmix_pre_amp cs (int n) nLen = Some (map g [0..<n] @ drop n cs)"
    unfolding fastmix_pre_amp_def using assms(1) g by (subst for_idx_Some) auto
  moreover have "amp (g j) = amp (cs ! j) \<and> chan_ok (nat nLen) (g j)
       \<and> (\<forall>i < nat nLen. pAudioData (g j) ! i = gain_in (amp (cs ! j)) (pAudioData (cs ! j) ! i))"
    if "j < n" for j
  proof -
    have "chan_ok (nat nLen) (cs ! j)" using that assms by (meson nth_mem order_less_le_trans)
    then show ?thesis using pre_amp_chan_ok g [OF that] by fastforce
  qed
  ultimately show ?thesis using assms(1) by (auto simp: nth_append)
qed

lemma add_chans_sum:
  assumes "n \<le> length cs" "\<And>k. k < n \<Longrightarrow> i < length (pAudioData (cs ! k)) \<and> is_short (pAudioData (cs ! k) ! i)"
    and "m + n \<le> 65535" "\<bar>L\<bar> \<le> int m * 32768"
  shows "add_chans n i cs L = Some (L + (\<Sum>k<n. pAudioData (cs ! k) ! i))"
  using assms
proof (induction n i cs L arbitrary: m rule: add_chans.induct)
  case (3 n i c cs L)
  let ?x = "pAudioData c ! i"
  have x: "i < length (pAudioData c)" "is_short ?x" using "3.prems"(2) [of 0] by simp_all
  have b: "\<bar>L + ?x\<bar> \<le> int (Suc m) * 32768" using "3.prems"(4) x(2) by auto
  moreover have "int (Suc m) \<le> 65535" using "3.prems"(3) by simp
  ultimately have "c_int (L + ?x) = L + ?x" by (intro c_int_id) auto
  moreover have "i < length (pAudioData (cs ! k)) \<and> is_short (pAudioData (cs ! k) ! i)" if "k < n" for k
    using "3.prems"(2) [of "Suc k"] that by simp
  moreover have "add_chans n i cs (c_int (L + ?x)) = Some (c_int (L + ?x) + (\<Sum>k<n. pAudioData (cs ! k) ! i))"
    using "3.prems"(1,3) b calculation x(1) by (intro "3.IH" [of _ "Suc m"]) auto
  ultimately show ?case
    using x(1) by (simp add: sum.lessThan_Suc_shift algebra_simps del: sum.lessThan_Suc)
qed simp_all

lemma sum_without:
  fixes f :: "nat \<Rightarrow> int"
  assumes "j < n"
  shows "(\<Sum>k<n. f k) - f j = (\<Sum>k\<in>{..<n} - {j}. f k)"
  using assms by (simp add: sum_diff1)

lemma sum_short_bound:
  fixes f :: "nat \<Rightarrow> int"
  assumes "finite A" "\<And>k. k \<in> A \<Longrightarrow> is_short (f k)"
  shows "\<bar>\<Sum>k\<in>A. f k\<bar> \<le> int (card A) * 32768"
proof -
  have "\<bar>\<Sum>k\<in>A. f k\<bar> \<le> (\<Sum>k\<in>A. \<bar>f k\<bar>)" by (rule sum_abs)
  also have "\<dots> \<le> (\<Sum>k\<in>A. 32768)" using assms(2) by (intro sum_mono) force
  finally show ?thesis by simp
qed

lemma fastmix_add_ok:
  assumes "n \<le> length cs" "n \<le> 65535" "nat nLen \<le> length buf"
    and "\<And>j. j < n \<Longrightarrow> chan_ok (nat nLen) (cs ! j)"
  shows "fastmix_add cs buf (int n) nLen =
    Some (map (\<lambda>i. \<Sum>k<n. pAudioData (cs ! k) ! i) [0..<nat nLen] @ drop (nat nLen) buf)"
proof -
  have "add_chans n i cs 0 = Some (\<Sum>k<n. pAudioData (cs ! k) ! i)" if "i < nat nLen" for i
    using add_chans_sum [of n cs i 0 0] assms(1,2,4) that chan_ok_nth
    by (force simp: chan_ok_def)
  then show ?thesis
    unfolding fastmix_add_def using assms(3) by (subst for_idx_Some) auto
qed

text \<open>One output channel of \<open>fastmix_sub_amp\<close>: the sum of the other channels, then the gain.\<close>

lemma sub_amp_chan_ok:
  assumes n: "n \<le> length cs" "n \<le> 32767" and len: "nat nLen \<le> length buf"
    and ok: "\<And>k. k < n \<Longrightarrow> chan_ok (nat nLen) (cs ! k)"
    and buf: "\<And>i. i < nat nLen \<Longrightarrow> buf ! i = (\<Sum>k<n. pAudioData (cs ! k) ! i)"
    and j: "j < n" and out: "nat nLen \<le> length (pAudioData out)"
  shows "\<exists>out'. sub_amp_chan buf cs nLen j out = Some out' \<and> length (pAudioData out') = length (pAudioData out) \<and>
    (\<forall>i < nat nLen. pAudioData out' ! i =
       gain_out (amp out) (\<Sum>k\<in>{..<n} - {j}. pAudioData (cs ! k) ! i))"
proof -
  let ?S = "\<lambda>i. \<Sum>k\<in>{..<n} - {j}. pAudioData (cs ! k) ! i"
  have S: "c_int (buf ! i - pAudioData (cs ! j) ! i) = ?S i \<and> c_int (?S i * 2) = ?S i * 2"
    if "i < nat nLen" for i
  proof -
    have "is_short (pAudioData (cs ! k) ! i)" if "k < n" for k
      using ok [OF that] \<open>i < nat nLen\<close> by (rule chan_ok_nth)
    then have "\<bar>?S i\<bar> \<le> int (card ({..<n} - {j})) * 32768"
      by (intro sum_short_bound) auto
    also have "card ({..<n} - {j}) = n - 1" using j by simp
    finally have b: "\<bar>?S i\<bar> \<le> int (n - 1) * 32768" .
    have "int (n - 1) \<le> 32766" using n(2) by simp
    with b have "\<bar>?S i\<bar> \<le> 1073676288" by linarith
    then show ?thesis
      using buf [OF that] sum_without [OF j, of "\<lambda>k. pAudioData (cs ! k) ! i"]
      by (auto intro!: c_int_id simp: abs_le_iff)
  qed
  let ?d = "map (\<lambda>i. gain_out (amp out) (?S i)) [0..<nat nLen] @ drop (nat nLen) (pAudioData out)"
  have "sub_sample (amp out) buf cs j i = Some (gain_out (amp out) (?S i))" if i: "i < nat nLen" for i
  proof -
    have "i < length (pAudioData (cs ! j))" using ok [OF j] i by (simp add: chan_ok_def)
    then show ?thesis
      using i j n len S [OF i]
      by (cases "amp out") (simp_all add: sub_sample_def sature32_clamp asr_div mult.commute)
  qed
  then have "sub_amp_chan buf cs nLen j out = Some (out\<lparr>pAudioData := ?d\<rparr>)"
    unfolding sub_amp_chan_def using out by (subst for_idx_Some) auto
  then show ?thesis using out by (simp add: nth_append)
qed

lemma pre_amp_chan_length: "pre_amp_chan nLen c = Some c' \<Longrightarrow> length (pAudioData c') = length (pAudioData c)"
  by (auto simp: pre_amp_chan_def dest: for_idx_length split: fastmix_vol_t.splits)

text \<open>The whole mix, with what it leaves in the buffers.\<close>

lemma mix_ok:
  assumes "length ins = n" "length outs = n" "n \<le> 32767"
    and "\<forall>c\<in>set ins. chan_ok (nat nLen) c"
    and "\<forall>c\<in>set outs. nat nLen \<le> length (pAudioData c)"
    and "nat nLen \<le> length acc"
  shows "\<exists>ins' outs' acc'.
    mix (int n) nLen \<lparr>mixIn = Some ins, mixFull = None, mixInter = Some outs, mixAcc = Some acc\<rparr> =
      Some (0, \<lparr>mixIn = Some ins', mixFull = None, mixInter = Some outs', mixAcc = Some acc'\<rparr>) \<and>
    length ins' = n \<and> (\<forall>j < n. length (pAudioData (ins' ! j)) = length (pAudioData (ins ! j))) \<and> length acc' = length acc \<and>
    length outs' = n \<and> (\<forall>j < n. length (pAudioData (outs' ! j)) = length (pAudioData (outs ! j))) \<and>
    (\<forall>j < n. \<forall>i < nat nLen. pAudioData (outs' ! j) ! i =
       gain_out (amp (outs ! j))
         (\<Sum>k\<in>{..<n} - {j}. gain_in (amp (ins ! k)) (pAudioData (ins ! k) ! i)))"
proof -
  obtain ins' where pre: "fastmix_pre_amp ins (int n) nLen = Some ins'" "length ins' = n"
    and ok: "\<And>j. j < n \<Longrightarrow> chan_ok (nat nLen) (ins' ! j)"
    and val: "\<And>j i. j < n \<Longrightarrow> i < nat nLen \<Longrightarrow>
      pAudioData (ins' ! j) ! i = gain_in (amp (ins ! j)) (pAudioData (ins ! j) ! i)"
    using fastmix_pre_amp_ok [of n ins nLen] assms(1,4) by auto
  let ?acc = "map (\<lambda>i. \<Sum>k<n. pAudioData (ins' ! k) ! i) [0..<nat nLen] @ drop (nat nLen) acc"
  have add: "fastmix_add ins' acc (int n) nLen = Some ?acc"
    using assms(3,6) pre(2) ok by (intro fastmix_add_ok) auto
  have "\<exists>out'. sub_amp_chan ?acc ins' nLen j (outs ! j) = Some out' \<and> length (pAudioData out') = length (pAudioData (outs ! j)) \<and>
      (\<forall>i < nat nLen. pAudioData out' ! i =
        gain_out (amp (outs ! j)) (\<Sum>k\<in>{..<n} - {j}. pAudioData (ins' ! k) ! i))"
    if "j < n" for j
    using assms(2,3,5) pre(2) ok that by (intro sub_amp_chan_ok) (auto simp: nth_append)
  then obtain g where g: "\<And>j. j < n \<Longrightarrow> sub_amp_chan ?acc ins' nLen j (outs ! j) = Some (g j) \<and> length (pAudioData (g j)) = length (pAudioData (outs ! j)) \<and>
      (\<forall>i < nat nLen. pAudioData (g j) ! i =
        gain_out (amp (outs ! j)) (\<Sum>k\<in>{..<n} - {j}. pAudioData (ins' ! k) ! i))"
    by metis
  then have "fastmix_sub_amp ?acc ins' outs (int n) nLen = Some (map g [0..<n])"
    unfolding fastmix_sub_amp_def using assms(2) by (subst for_idx_Some [of _ _ _ _ g]) auto
  moreover have "pAudioData (g j) ! i =
      gain_out (amp (outs ! j)) (\<Sum>k\<in>{..<n} - {j}. gain_in (amp (ins ! k)) (pAudioData (ins ! k) ! i))"
    if "j < n" "i < nat nLen" for i j
  proof -
    have "(\<Sum>k\<in>{..<n} - {j}. pAudioData (ins' ! k) ! i) =
        (\<Sum>k\<in>{..<n} - {j}. gain_in (amp (ins ! k)) (pAudioData (ins ! k) ! i))"
      using that(2) val by (intro sum.cong) auto
    then show ?thesis using g that by simp
  qed
  moreover have "length (pAudioData (ins' ! j)) = length (pAudioData (ins ! j))" if "j < n" for j
    using for_idx_nth [OF pre(1) [unfolded fastmix_pre_amp_def], of j] pre_amp_chan_length that assms(1) by simp
  ultimately show ?thesis using pre add assms(6) g by (simp add: mix_def)
qed

text \<open>
  The conference mix.  With every input channel holding 16-bit samples and all buffers long
  enough, \<open>AudioConfMix::mix\<close> succeeds, and participant \<open>j\<close> receives in sample \<open>i\<close> the saturated
  sum of the pre-amplified samples of all \<^emph>\<open>other\<close> participants, scaled by the output gain of
  channel \<open>j\<close>: nobody hears himself, muted inputs contribute nothing, and no intermediate 32-bit
  sum overflows.
\<close>

theorem mix_everyone_but_self:
  assumes "length ins = n" "length outs = n" "n \<le> 32767"
    and "\<forall>c\<in>set ins. chan_ok (nat nLen) c"
    and "\<forall>c\<in>set outs. nat nLen \<le> length (pAudioData c)"
    and "nat nLen \<le> length acc"
  shows "\<exists>ins' outs' acc'.
    mix (int n) nLen \<lparr>mixIn = Some ins, mixFull = None, mixInter = Some outs, mixAcc = Some acc\<rparr> =
      Some (0, \<lparr>mixIn = Some ins', mixFull = None, mixInter = Some outs', mixAcc = Some acc'\<rparr>) \<and>
    (\<forall>j < n. \<forall>i < nat nLen. pAudioData (outs' ! j) ! i =
       gain_out (amp (outs ! j))
         (\<Sum>k\<in>{..<n} - {j}. gain_in (amp (ins ! k)) (pAudioData (ins ! k) ! i)))"
proof -
  obtain ins' outs' acc' where "mix (int n) nLen \<lparr>mixIn = Some ins, mixFull = None, mixInter = Some outs, mixAcc = Some acc\<rparr> =
      Some (0, \<lparr>mixIn = Some ins', mixFull = None, mixInter = Some outs', mixAcc = Some acc'\<rparr>)"
    "\<forall>j < n. \<forall>i < nat nLen. pAudioData (outs' ! j) ! i =
       gain_out (amp (outs ! j)) (\<Sum>k\<in>{..<n} - {j}. gain_in (amp (ins ! k)) (pAudioData (ins ! k) ! i))"
    using mix_ok [OF assms] by blast
  then show ?thesis by blast
qed

theorem mix_everyone_but_self_witness:
  "\<exists>ins' outs' acc'.
    mix 2 1 \<lparr>mixIn = Some [\<lparr>amp = MIX_KEEP_0dB, pAudioData = [100]\<rparr>, \<lparr>amp = MIX_GAIN_3dB, pAudioData = [-7]\<rparr>],
      mixFull = None,
      mixInter = Some [\<lparr>amp = MIX_KEEP_0dB, pAudioData = [0]\<rparr>, \<lparr>amp = MIX_SUPP_3dB, pAudioData = [0]\<rparr>],
      mixAcc = Some [0]\<rparr> =
    Some (0, \<lparr>mixIn = Some ins', mixFull = None, mixInter = Some outs', mixAcc = Some acc'\<rparr>) \<and>
    pAudioData (outs' ! 0) ! 0 = -14 \<and> pAudioData (outs' ! 1) ! 0 = 50"
proof -
  let ?ins = "[\<lparr>amp = MIX_KEEP_0dB, pAudioData = [100]\<rparr>, \<lparr>amp = MIX_GAIN_3dB, pAudioData = [-7]\<rparr>]"
  let ?outs = "[\<lparr>amp = MIX_KEEP_0dB, pAudioData = [0]\<rparr>, \<lparr>amp = MIX_SUPP_3dB, pAudioData = [0]\<rparr>]"
  obtain ins' outs' acc' where
    m: "mix (int 2) 1 \<lparr>mixIn = Some ?ins, mixFull = None, mixInter = Some ?outs, mixAcc = Some [0]\<rparr> =
      Some (0, \<lparr>mixIn = Some ins', mixFull = None, mixInter = Some outs', mixAcc = Some acc'\<rparr>)"
    and v: "\<forall>j < 2. \<forall>i < nat 1. pAudioData (outs' ! j) ! i =
       gain_out (amp (?outs ! j)) (\<Sum>k\<in>{..<2} - {j}. gain_in (amp (?ins ! k)) (pAudioData (?ins ! k) ! i))"
    using mix_everyone_but_self [of ?ins 2 ?outs 1 "[0]"] by (auto simp: chan_ok_def)
  have sets: "{..<2} - {0::nat} = {1}" "{..<2} - {1::nat} = {0}" by auto
  have "pAudioData (outs' ! 0) ! 0 = -14"
    using v [rule_format, of 0 0] by (simp add: sets clamp16_def)
  moreover have "pAudioData (outs' ! 1) ! 0 = 50"
    using v [rule_format, of 1 0] sets(2) by (simp add: clamp16_def)
  ultimately show ?thesis using m by auto
qed

end
