(* ===== verification/Gen_Tone.thy ===== *)
theory Gen_Tone
  imports Ckits_Prelude
begin

text \<open>
  The tone generator \<open>libaux/gentone.c\<close>: the coefficient tables, the DTMF keypad decoding, the
  fixed-point recursive oscillator and the two generators \<open>GenDtmf\<close> and \<open>GenTone\<close>.  All samples
  and coefficients are 16-bit values; products and sums are computed in 32 bits.  The generated
  samples are returned as a list, the caller's \<open>signal[0 .. frameLen-1]\<close>.
\<close>

section \<open>Constants and tables\<close>

definition DTMF_DEC_PARAMETER_ERROR :: int where "DTMF_DEC_PARAMETER_ERROR = - 6001"
definition DTMF_GEN_UNKNOWN_SAMP_FREQ :: int where "DTMF_GEN_UNKNOWN_SAMP_FREQ = - 6003"
definition DTMF_AMP_LOW :: int where "DTMF_AMP_LOW = 23171"

definition dtmf_aTbl8Khz :: "int list" where
  "dtmf_aTbl8Khz = [27980, 26956, 25701, 24219, 19073, 16325, 13085, 9315]"
definition dtmf_aTbl16Khz :: "int list" where
  "dtmf_aTbl16Khz = [31548, 31281, 30951, 30556, 29144, 28361, 27409, 26258]"
definition dtmf_aTbl32Khz :: "int list" where
  "dtmf_aTbl32Khz = [32462, 32394, 32311, 32210, 31849, 31647, 31400, 31098]"
definition dtmf_aTbl48Khz :: "int list" where
  "dtmf_aTbl48Khz = [32632, 32602, 32564, 32520, 32359, 32268, 32157, 32022]"

definition dtmf_yInitTab8Khz :: "int list" where
  "dtmf_yInitTab8Khz = [8528, 9315, 10163, 11036, 13323, 14206, 15021, 15708]"
definition dtmf_yInitTab16Khz :: "int list" where
  "dtmf_yInitTab16Khz = [4429, 4879, 5380, 5918, 7490, 8207, 8979, 9801]"
definition dtmf_yInitTab32Khz :: "int list" where
  "dtmf_yInitTab32Khz = [2235, 2468, 2728, 3010, 3853, 4249, 4685, 5164]"
definition dtmf_yInitTab48Khz :: "int list" where
  "dtmf_yInitTab48Khz = [1493, 1649, 1823, 2013, 2582, 2851, 3148, 3476]"

definition dtfm_dBm0 :: "int list" where
  "dtfm_dBm0 =
     [16141, 14386, 12821, 11427, 10184, 9077, 8090, 7210, 6426, 5727, 5104, 4549, 4054, 3614,
      3221, 2870, 2558, 2280, 2032, 1811, 1614, 1439, 1282, 1143, 1018, 908, 809, 721, 643,
      573, 510, 455, 405, 361, 322, 287, 256]"

section \<open>The oscillator\<close>

record dtmf_tone_inst_t =
  reinit :: int
  oldOutputLow :: "int \<times> int"
  oldOutputHigh :: "int \<times> int"
  lastDtmfSample :: int

definition FIX_MUL_W16 :: "int \<Rightarrow> int \<Rightarrow> int" where
  "FIX_MUL_W16 a b = c_int (c_short a * c_short b)"

definition recur :: "int \<Rightarrow> int \<times> int \<Rightarrow> int" where
  \<comment> \<open>\<open>y[n] = a * y[n-1] - y[n-2]\<close> in Q14; the pair is \<open>(y[n-2], y[n-1])\<close>\<close>
  "recur a old = c_short (c_int (asr (c_int (FIX_MUL_W16 a (snd old) + 8192)) 14 - fst old))"

definition scale_sample :: "int \<Rightarrow> int \<Rightarrow> int \<Rightarrow> int" where
  "scale_sample vol tempValLow tempValHigh =
     (let tempVal = c_int (FIX_MUL_W16 DTMF_AMP_LOW tempValLow + c_int (tempValHigh * 2 ^ 15));
          tempVal2 = asr (c_int (tempVal + 16384)) 15
      in c_short (asr (c_int (FIX_MUL_W16 tempVal2 vol + 8192)) 14))"

definition gen_sample :: "int \<Rightarrow> int \<Rightarrow> int \<Rightarrow> dtmf_tone_inst_t \<Rightarrow> int \<times> dtmf_tone_inst_t" where
  \<comment> \<open>one iteration of the generation loop, shared by \<open>GenDtmf\<close> and \<open>GenTone\<close>\<close>
  "gen_sample a1 a2 vol st =
     (let tempValLow = recur a1 (oldOutputLow st);
          tempValHigh = recur a2 (oldOutputHigh st);
          st' = st\<lparr>oldOutputLow := (snd (oldOutputLow st), tempValLow),
                   oldOutputHigh := (snd (oldOutputHigh st), tempValHigh)\<rparr>
      in (scale_sample vol tempValLow tempValHigh, st'))"

fun gen_loop :: "nat \<Rightarrow> int \<Rightarrow> int \<Rightarrow> int \<Rightarrow> dtmf_tone_inst_t \<Rightarrow> int list \<times> dtmf_tone_inst_t" where
  "gen_loop 0 a1 a2 vol st = ([], st)"
| "gen_loop (Suc n) a1 a2 vol st =
     (let (x, st') = gen_sample a1 a2 vol st;
          (xs, st'') = gen_loop n a1 a2 vol st'
      in (x # xs, st''))"

definition osc_reinit :: "int \<Rightarrow> int \<Rightarrow> dtmf_tone_inst_t \<Rightarrow> dtmf_tone_inst_t" where
  "osc_reinit yLow yHigh st =
     (if reinit st \<noteq> 0
      then st\<lparr>oldOutputLow := (yLow, 0), oldOutputHigh := (yHigh, 0), reinit := 0\<rparr>
      else st)"

section \<open>The generators\<close>

definition low_index :: "char \<Rightarrow> nat option" where
  "low_index value =
     (if value \<in> {CHR ''1'', CHR ''2'', CHR ''3'', CHR ''a''} then Some 0
      else if value \<in> {CHR ''4'', CHR ''5'', CHR ''6'', CHR ''b''} then Some 1
      else if value \<in> {CHR ''7'', CHR ''8'', CHR ''9'', CHR ''c''} then Some 2
      else if value \<in> {CHR ''*'', CHR ''0'', CHR ''#'', CHR ''d''} then Some 3
      else None)"

definition high_index :: "char \<Rightarrow> nat" where
  \<comment> \<open>the variable keeps its initial value 4 when no case matches\<close>
  "high_index value =
     (if value \<in> {CHR ''1'', CHR ''4'', CHR ''7'', CHR ''*''} then 4
      else if value \<in> {CHR ''2'', CHR ''5'', CHR ''8'', CHR ''0''} then 5
      else if value \<in> {CHR ''3'', CHR ''6'', CHR ''9'', CHR ''#''} then 6
      else if value \<in> {CHR ''a'', CHR ''b'', CHR ''c'', CHR ''d''} then 7
      else 4)"

definition rate_tables :: "int \<Rightarrow> (int list \<times> int list \<times> int) option" where
  "rate_tables sampFreq =
     (if sampFreq = 8000 then Some (dtmf_aTbl8Khz, dtmf_yInitTab8Khz, 80)
      else if sampFreq = 16000 then Some (dtmf_aTbl16Khz, dtmf_yInitTab16Khz, 160)
      else if sampFreq = 32000 then Some (dtmf_aTbl32Khz, dtmf_yInitTab32Khz, 320)
      else if sampFreq = 48000 then Some (dtmf_aTbl48Khz, dtmf_yInitTab48Khz, 480)
      else None)"

text \<open>
  The result is the returned value, the samples written and the updated instance.  \<open>volume\<close>,
  \<open>sampFreq\<close> and \<open>extLen\<close> are \<open>short\<close> parameters: the caller's values are truncated on entry, and
  the returned \<open>frameLen\<close> is truncated on return.
\<close>

definition GenDtmf :: "dtmf_tone_inst_t \<Rightarrow> char \<Rightarrow> int \<Rightarrow> int \<Rightarrow> int \<Rightarrow> int \<times> int list \<times> dtmf_tone_inst_t" where
  "GenDtmf inst value vol_arg freq_arg len_arg =
     (let volume = c_short vol_arg; sampFreq = c_short freq_arg; extLen = c_short len_arg
      in if volume < 0 \<or> volume > 36 then (DTMF_DEC_PARAMETER_ERROR, [], inst)
         else if extLen < - 1 then (DTMF_DEC_PARAMETER_ERROR, [], inst)
         else case rate_tables sampFreq of
           None \<Rightarrow> (DTMF_GEN_UNKNOWN_SAMP_FREQ, [], inst)
         | Some (aTbl, yInitTable, dflt) \<Rightarrow>
             (let frameLen = (if extLen \<ge> 0 then extLen else dflt)
              in case low_index value of
                   None \<Rightarrow> (DTMF_DEC_PARAMETER_ERROR, [], inst)
                 | Some lowIndex \<Rightarrow>
                     (let highIndex = high_index value;
                          inst1 = osc_reinit (yInitTable ! lowIndex) (yInitTable ! highIndex) inst;
                          (signal, inst2) =
                            gen_loop (nat frameLen) (aTbl ! lowIndex) (aTbl ! highIndex)
                              (dtfm_dBm0 ! nat volume) inst1
                      in (c_short frameLen, signal, inst2))))"

text \<open>
  \<open>GenTone\<close> leaves \<open>frameLen\<close> unassigned when \<open>extLen\<close> is -1; \<open>junk\<close> is what the uninitialised
  variable then holds.
\<close>

definition GenTone :: "int \<Rightarrow> dtmf_tone_inst_t \<Rightarrow> int \<times> int \<Rightarrow> int \<times> int \<Rightarrow> int \<Rightarrow> int \<Rightarrow>
    int \<times> int list \<times> dtmf_tone_inst_t" where
  "GenTone junk inst yInit aTbl vol_arg len_arg =
     (let volume = c_short vol_arg; extLen = c_short len_arg
      in if volume < 0 \<or> volume > 36 then (DTMF_DEC_PARAMETER_ERROR, [], inst)
         else if extLen < - 1 then (DTMF_DEC_PARAMETER_ERROR, [], inst)
         else (let frameLen = (if extLen \<ge> 0 then extLen else junk);
                   inst1 = osc_reinit (fst yInit) (snd yInit) inst;
                   (signal, inst2) =
                     gen_loop (nat frameLen) (fst aTbl) (snd aTbl) (dtfm_dBm0 ! nat volume) inst1
               in (c_short frameLen, signal, inst2)))"

section \<open>Lemmas\<close>

lemmas dtmf_tables = dtmf_aTbl8Khz_def dtmf_aTbl16Khz_def dtmf_aTbl32Khz_def dtmf_aTbl48Khz_def
  dtmf_yInitTab8Khz_def dtmf_yInitTab16Khz_def dtmf_yInitTab32Khz_def dtmf_yInitTab48Khz_def

lemma gen_loop_length: "gen_loop n a1 a2 vol st = (xs, st') \<Longrightarrow> length xs = n"
  by (induction n arbitrary: st xs) (auto split: prod.splits simp: Let_def)

lemma gen_loop_reinit: "gen_loop n a1 a2 vol st = (xs, st') \<Longrightarrow> reinit st' = reinit st"
  by (induction n arbitrary: st xs) (fastforce split: prod.splits simp: Let_def gen_sample_def)+

lemma gen_loop_append:
  "gen_loop (n + m) a1 a2 vol st =
     (let (xs, st1) = gen_loop n a1 a2 vol st; (ys, st2) = gen_loop m a1 a2 vol st1
      in (xs @ ys, st2))"
  by (induction n arbitrary: st) (simp_all add: Let_def split: prod.splits)

lemma gen_loop_shorts: "gen_loop n a1 a2 vol st = (xs, st') \<Longrightarrow> \<forall>x\<in>set xs. is_short x"
  by (induction n arbitrary: st xs)
    (auto split: prod.splits simp: Let_def gen_sample_def scale_sample_def)

lemma osc_reinit_idem [simp]: "reinit st = 0 \<Longrightarrow> osc_reinit y1 y2 st = st"
  by (simp add: osc_reinit_def)

lemma osc_reinit_flag [simp]: "reinit (osc_reinit y1 y2 st) = 0"
  by (simp add: osc_reinit_def)

lemma recur_exact:
  assumes "is_short a" "is_short (fst old)" "is_short (snd old)"
  shows "recur a old = c_short ((a * snd old + 8192) div 16384 - fst old)"
proof -
  have "\<bar>a * snd old\<bar> \<le> 32768 * 32768"
    unfolding abs_mult using assms by (intro mult_mono) auto
  then have p: "- 1073741824 \<le> a * snd old" "a * snd old \<le> 1073741824" by auto
  then have m: "FIX_MUL_W16 a (snd old) = a * snd old"
    using assms by (simp add: FIX_MUL_W16_def c_short_id c_int_id)
  have q: "c_int (a * snd old + 8192) = a * snd old + 8192" using p by (intro c_int_id) auto
  have d: "- 65536 \<le> (a * snd old + 8192) div 16384" "(a * snd old + 8192) div 16384 \<le> 65537"
    using p by linarith+
  have "c_int ((a * snd old + 8192) div 16384 - fst old) = (a * snd old + 8192) div 16384 - fst old"
    using d assms(2) by (intro c_int_id) auto
  then show ?thesis by (simp add: recur_def m q asr_div)
qed

lemma scale_sample_exact:
  assumes "\<bar>lo\<bar> \<le> 19000" "\<bar>hi\<bar> \<le> 19000" "0 \<le> vol" "vol \<le> 16384"
  shows "scale_sample vol lo hi = (((23171 * lo + 32768 * hi + 16384) div 32768) * vol + 8192) div 16384"
    and "\<bar>scale_sample vol lo hi\<bar> \<le> 32438"
proof -
  let ?t = "23171 * lo + 32768 * hi"
  let ?u = "(?t + 16384) div 32768"
  have ab: "- 19000 \<le> lo" "lo \<le> 19000" "- 19000 \<le> hi" "hi \<le> 19000" using assms by auto
  have u: "\<bar>?u\<bar> \<le> 32437" using ab by linarith
  have t1: "FIX_MUL_W16 DTMF_AMP_LOW lo = 23171 * lo" "c_int (hi * 32768) = 32768 * hi"
    using ab by (simp_all add: FIX_MUL_W16_def DTMF_AMP_LOW_def c_short_id c_int_id)
  have t2: "c_int (c_int ?t + 16384) = ?t + 16384"
    using ab by (simp add: c_int_id)
  have "\<bar>?u * vol\<bar> \<le> 32437 * 16384"
    unfolding abs_mult using u assms(3,4) by (intro mult_mono) auto
  then have b: "- 531447808 \<le> ?u * vol" "?u * vol \<le> 531447808" by auto
  have m: "FIX_MUL_W16 ?u vol = ?u * vol"
    using u assms(3,4) b by (simp add: FIX_MUL_W16_def c_short_id c_int_id abs_le_iff)
  have "c_int (?u * vol + 8192) = ?u * vol + 8192" using b by (intro c_int_id) auto
  moreover have r: "- 32437 \<le> (?u * vol + 8192) div 16384" "(?u * vol + 8192) div 16384 \<le> 32437"
    using b by linarith+
  ultimately show e: "scale_sample vol lo hi = (?u * vol + 8192) div 16384"
    by (simp add: scale_sample_def t1 t2 m asr_div c_short_id Let_def del: add_divide_distrib)
  show "\<bar>scale_sample vol lo hi\<bar> \<le> 32438" using r unfolding e by linarith
qed

lemma GenDtmf_ok:
  assumes "0 \<le> v" "v \<le> 36" "rate_tables f = Some (aTbl, yTab, dflt)" "is_short f"
    and "low_index key = Some lo" "0 \<le> n" "n \<le> 32767"
  shows "GenDtmf inst key v f n =
    (let (xs, i) = gen_loop (nat n) (aTbl ! lo) (aTbl ! high_index key) (dtfm_dBm0 ! nat v)
                     (osc_reinit (yTab ! lo) (yTab ! high_index key) inst)
     in (n, xs, i))"
  using assms by (simp add: GenDtmf_def c_short_id Let_def split: prod.splits)

section \<open>Properties\<close>

text \<open>
  A DTMF tone is continuous across calls: generating \<open>n\<close> samples and then, with the
  instance that call leaves, \<open>m\<close> more for the same key gives exactly the samples, the count and
  the oscillator state of one call that generates \<open>n + m\<close> samples.  There is no click at a frame
  boundary.
\<close>

theorem GenDtmf_frames_join:
  assumes "0 \<le> v" "v \<le> 36" "rate_tables f \<noteq> None" "is_short f" "low_index key \<noteq> None"
    and "0 \<le> n" "0 \<le> m" "n + m \<le> 32767"
    and "GenDtmf inst key v f n = (r1, xs, i1)" "GenDtmf i1 key v f m = (r2, ys, i2)"
  shows "GenDtmf inst key v f (n + m) = (r1 + r2, xs @ ys, i2) \<and> int (length (xs @ ys)) = r1 + r2"
proof -
  obtain aTbl yTab dflt lo where t: "rate_tables f = Some (aTbl, yTab, dflt)" "low_index key = Some lo"
    using assms(3,5) by (metis not_None_eq prod_cases3)
  note ok = GenDtmf_ok [OF assms(1,2) t(1) assms(4) t(2)]
  let ?g = "\<lambda>k. gen_loop k (aTbl ! lo) (aTbl ! high_index key) (dtfm_dBm0 ! nat v)"
  let ?i = "osc_reinit (yTab ! lo) (yTab ! high_index key) inst"
  have 1: "?g (nat n) ?i = (xs, i1)" "r1 = n"
    using assms(6-9) by (auto simp: ok Let_def split: prod.splits)
  then have "reinit i1 = 0" using gen_loop_reinit by fastforce
  then have 2: "?g (nat m) i1 = (ys, i2)" "r2 = m"
    using assms(6-8,10) by (auto simp: ok Let_def split: prod.splits)
  have "nat (n + m) = nat n + nat m" using assms(6,7) by simp
  then show ?thesis
    using 1 2 assms(6-8) gen_loop_length [OF 1(1)] gen_loop_length [OF 2(1)]
    by (simp add: ok gen_loop_append)
qed

theorem GenDtmf_frames_join_witness:
  "GenDtmf \<lparr>reinit = 1, oldOutputLow = (0, 0), oldOutputHigh = (0, 0), lastDtmfSample = 0\<rparr>
      (CHR ''5'') 10 8000 (1 + 1) =
    (1 + 1, fst (snd (GenDtmf \<lparr>reinit = 1, oldOutputLow = (0, 0), oldOutputHigh = (0, 0), lastDtmfSample = 0\<rparr>
      (CHR ''5'') 10 8000 2)), snd (snd (GenDtmf \<lparr>reinit = 1, oldOutputLow = (0, 0), oldOutputHigh = (0, 0), lastDtmfSample = 0\<rparr>
      (CHR ''5'') 10 8000 2)))"
proof -
  let ?i = "\<lparr>reinit = 1, oldOutputLow = (0, 0), oldOutputHigh = (0, 0), lastDtmfSample = 0\<rparr>"
  obtain r1 xs i1 where 1: "GenDtmf ?i (CHR ''5'') 10 8000 1 = (r1, xs, i1)" by (metis prod_cases3)
  obtain r2 ys i2 where 2: "GenDtmf i1 (CHR ''5'') 10 8000 1 = (r2, ys, i2)" by (metis prod_cases3)
  have t: "rate_tables 8000 \<noteq> None" "low_index (CHR ''5'') \<noteq> None"
    by (simp_all add: rate_tables_def low_index_def)
  have r: "r1 = 1" "r2 = 1"
    using 1 2 by (auto simp: GenDtmf_def c_short_id rate_tables_def low_index_def Let_def split: prod.splits)
  show ?thesis using GenDtmf_frames_join [of 10 8000 "CHR ''5''" 1 1 ?i r1 xs i1 r2 ys i2] 1 2 t r by simp
qed

text \<open>
  No intermediate result of the generation loop overflows.  For 16-bit coefficients and
  history the recursion equals the exact value \<open>(a * y1 + 8192) div 2^14 - y2\<close> cut to 16 bits once,
  and as long as both oscillators stay within \<open>19000\<close> (16% above full scale in Q14) the mixed
  and scaled sample equals the exact rounded value for every volume of the table, and fits 16 bits.
\<close>

theorem oscillator_no_overflow:
  assumes "is_short a" "is_short y2" "is_short y1"
    and "\<bar>lo\<bar> \<le> 19000" "\<bar>hi\<bar> \<le> 19000" "vol \<in> set dtfm_dBm0"
  shows "recur a (y2, y1) = c_short ((a * y1 + 8192) div 16384 - y2) \<and>
    scale_sample vol lo hi = (((23171 * lo + 32768 * hi + 16384) div 32768) * vol + 8192) div 16384 \<and>
    is_short (scale_sample vol lo hi)"
proof -
  have "0 \<le> vol" "vol \<le> 16384" using assms(6) by (auto simp: dtfm_dBm0_def)
  note s = scale_sample_exact [OF assms(4,5) this]
  show ?thesis using recur_exact [of a "(y2, y1)"] assms(1-3) s by (simp add: abs_le_iff)
qed

theorem oscillator_no_overflow_witness:
  "recur 27980 (8528, 0) = c_short ((27980 * 0 + 8192) div 16384 - 8528) \<and>
   scale_sample 16141 (- 8528) 100 = (((23171 * - 8528 + 32768 * 100 + 16384) div 32768) * 16141 + 8192) div 16384 \<and>
   is_short (scale_sample 16141 (- 8528) 100)"
  using oscillator_no_overflow [of 27980 8528 0 "- 8528" 100 16141] by (simp add: dtfm_dBm0_def)

lemma low_index_keys: "(low_index key \<noteq> None) = (key \<in> set ''0123456789abcd*#'')"
  by (auto simp: low_index_def)

lemma rate_tables_short: "(rate_tables (c_short f) \<noteq> None) = (c_short f \<in> {8000, 16000, 32000})"
  using c_short_bounds(2) [of f] by (auto simp: rate_tables_def simp del: c_short_bounds)

lemma rate_tables_default: "rate_tables f = Some (aT, yT, dflt) \<Longrightarrow> 0 \<le> dflt \<and> dflt \<le> 480"
  by (auto simp: rate_tables_def split: if_splits)

lemma GenDtmf_error_unchanged:
  "fst (GenDtmf inst key v f n) < 0 \<Longrightarrow> snd (GenDtmf inst key v f n) = ([], inst)"
  by (auto simp: GenDtmf_def Let_def c_short_id dest: rate_tables_default
      split: option.splits prod.splits if_splits)

text \<open>
  The error cases and the accepted keys.  A request is served exactly when the volume is in
  0..36, the length is at least -1, the truncated sample rate is 8, 16 or 32 kHz and the key is
  one of the sixteen keypad characters; otherwise an error code below zero is returned, no sample
  is written and the instance is unchanged.  In particular a request for 48 kHz is always
  refused, since 48000 does not fit the \<open>short\<close> parameter.
\<close>

theorem GenDtmf_served_iff:
  "(0 \<le> fst (GenDtmf inst key v f n)) =
     (0 \<le> c_short v \<and> c_short v \<le> 36 \<and> - 1 \<le> c_short n \<and>
      c_short f \<in> {8000, 16000, 32000} \<and> key \<in> set ''0123456789abcd*#'') \<and>
   (0 \<le> fst (GenDtmf inst key v f n) \<or> snd (GenDtmf inst key v f n) = ([], inst)) \<and>
   fst (GenDtmf inst key v 48000 n) < 0"
proof (intro conjI)
  show served: "(0 \<le> fst (GenDtmf inst key v f n)) =
     (0 \<le> c_short v \<and> c_short v \<le> 36 \<and> - 1 \<le> c_short n \<and>
      c_short f \<in> {8000, 16000, 32000} \<and> key \<in> set ''0123456789abcd*#'')" for f
    unfolding low_index_keys [symmetric] rate_tables_short [symmetric]
    by (auto simp: GenDtmf_def Let_def DTMF_DEC_PARAMETER_ERROR_def DTMF_GEN_UNKNOWN_SAMP_FREQ_def
        c_short_id dest: rate_tables_default split: option.splits prod.splits)
  show "0 \<le> fst (GenDtmf inst key v f n) \<or> snd (GenDtmf inst key v f n) = ([], inst)"
    using GenDtmf_error_unchanged [of inst key v f n] by linarith
  have "c_short 48000 = - 17536" by (simp add: c_short_def)
  then show "fst (GenDtmf inst key v 48000 n) < 0"
    using served [of 48000] by simp
qed

text \<open>
  \<open>GenTone\<close> accepts the length -1 (as \<open>GenDtmf\<close> does, where it selects the default frame
  length) but has no default: the number of samples it writes and returns is then whatever the
  uninitialised variable \<open>frameLen\<close> holds.
\<close>

theorem GenTone_default_length_uninitialised:
  assumes "0 \<le> v" "v \<le> 36" "0 \<le> junk" "junk \<le> 32767"
  shows "fst (GenTone junk inst yInit aTbl v (- 1)) = junk \<and>
    int (length (fst (snd (GenTone junk inst yInit aTbl v (- 1))))) = junk"
proof -
  obtain xs i where g: "gen_loop (nat junk) (fst aTbl) (snd aTbl) (dtfm_dBm0 ! nat v)
      (osc_reinit (fst yInit) (snd yInit) inst) = (xs, i)" by force
  then show ?thesis using assms gen_loop_length [OF g] by (simp add: GenTone_def c_short_id)
qed

theorem GenTone_default_length_uninitialised_witness:
  "fst (GenTone 3 \<lparr>reinit = 1, oldOutputLow = (0, 0), oldOutputHigh = (0, 0), lastDtmfSample = 0\<rparr>
     (8528, 13323) (27980, 19073) 10 (- 1)) = 3"
  using GenTone_default_length_uninitialised [of 10 3] by simp

end
