(* ===== verification/Io_Stream.thy ===== *)
theory Io_Stream
  imports Ckits_Prelude
begin

text \<open>
  The in-memory stream of \<open>libckits/ioStream.c\<close>.  \<open>buffer\<close> is the memory block the stream was
  given (its length is what the caller really owns), \<open>ssize\<close> (the field \<open>size\<close>) the size the stream believes in,
  \<open>cursor\<close> the offset of the cursor from \<open>buffer\<close>, \<open>remain\<close> the field \<open>length\<close>.  Sizes and the
  cursor are 32-bit: \<open>length -= ret\<close> may wrap.  A store_bytes outside the memory block is \<open>None\<close>.  The
  \<open>ASSERT\<close> macros are compiled out in the default build and are not part of the model.
  The guard \<open>cursor < buffer || buffer + size <= cursor\<close> is, for a block that does not wrap around
  the address space, the test \<open>ssize \<le> cursor\<close> on offsets.
\<close>

section \<open>Model\<close>

record ioStream =
  buffer :: "u8 list"
  ssize :: u32
  cursor :: u32
  remain :: u32

datatype whence = SEEK_SET | SEEK_CUR | SEEK_END | SEEK_OTHER

definition store_bytes :: "u8 list \<Rightarrow> nat \<Rightarrow> u8 list \<Rightarrow> u8 list option" where
  "store_bytes mem off bytes =
     (if off + length bytes \<le> length mem
      then Some (take off mem @ bytes @ drop (off + length bytes) mem) else None)"

definition ioStreamRewind :: "ioStream \<Rightarrow> int \<times> ioStream" where
  "ioStreamRewind s = (0, s\<lparr>cursor := 0, remain := ssize s\<rparr>)"

definition ioStreamOpen :: "ioStream \<Rightarrow> (int \<times> ioStream) option" where
  "ioStreamOpen s =
     (let (ret, s1) = ioStreamRewind s
      in if ret \<noteq> 0 then Some (ret, s1)
         else map_option (\<lambda>m. (0, s1\<lparr>buffer := m\<rparr>)) (store_bytes (buffer s1) 0 (replicate (unat (ssize s1)) 0)))"

definition ioStreamTell :: "ioStream \<Rightarrow> int" where
  "ioStreamTell s = sint (ssize s - remain s)"

definition ioStreamSeek :: "ioStream \<Rightarrow> u32 \<Rightarrow> whence \<Rightarrow> int \<times> ioStream" where
  \<comment> \<open>\<open>offset\<close> is the two's complement representation of the \<open>off_t\<close> argument\<close>
  "ioStreamSeek s offset w =
     (let go = (\<lambda>mv.
            let move = (if sint mv < 0 then 0 else if mv > ssize s then ssize s else mv);
                s' = s\<lparr>cursor := move, remain := ssize s - move\<rparr>
            in (sint (ssize s' - remain s'), s'))
      in case w of
           SEEK_SET \<Rightarrow> go offset
         | SEEK_END \<Rightarrow> go (ssize s + offset)
         | SEEK_CUR \<Rightarrow> go (ssize s - remain s + offset)
         | SEEK_OTHER \<Rightarrow> (- 1, s))"

text \<open>
  \<open>vsnprintf(p, n, ...)\<close> of the C library, given the text the format expands to: it stores the
  first \<open>n - 1\<close> bytes and a terminating zero (nothing when \<open>n\<close> is 0) and returns the full length;
  \<open>None\<close> for the text is an output error, which returns a negative value.
\<close>

definition vsnprintf_bytes :: "u32 \<Rightarrow> u8 list \<Rightarrow> u8 list" where
  "vsnprintf_bytes n text = (if n = 0 then [] else take (unat n - 1) text @ [0])"

definition ioStreamPrint :: "ioStream \<Rightarrow> u8 list option \<Rightarrow> (int \<times> ioStream) option" where
  "ioStreamPrint s text =
     (if ssize s \<le> cursor s then Some (- 1, s)
      else case text of
             None \<Rightarrow> Some (- 1, s)
           | Some t \<Rightarrow>
               (case store_bytes (buffer s) (unat (cursor s)) (vsnprintf_bytes (remain s) t) of
                  None \<Rightarrow> None
                | Some m \<Rightarrow>
                    (let ret = word_of_nat (length t) :: u32; s1 = s\<lparr>buffer := m\<rparr>
                     in if sint ret \<ge> 0
                        then Some (sint ret, s1\<lparr>cursor := cursor s + ret, remain := remain s - ret\<rparr>)
                        else Some (sint ret, s1))))"

definition ioStreamWrite :: "ioStream \<Rightarrow> u8 list \<Rightarrow> u32 \<Rightarrow> (int \<times> ioStream) option" where
  \<comment> \<open>\<open>buf\<close> is the memory the caller's pointer refers to; reading past its end is \<open>None\<close>\<close>
  "ioStreamWrite s buf count =
     (if ssize s \<le> cursor s then Some (- 1, s)
      else let ret = (if count < remain s then count else remain s)
           in if sint ret > 0
              then (if unat ret \<le> length buf
                    then map_option (\<lambda>m. (sint ret, s\<lparr>buffer := m, cursor := cursor s + ret, remain := remain s - ret\<rparr>))
                           (store_bytes (buffer s) (unat (cursor s)) (take (unat ret) buf))
                    else None)
              else Some (sint ret, s))"

definition ioStreamPutc :: "u8 \<Rightarrow> ioStream \<Rightarrow> (int \<times> ioStream) option" where
  "ioStreamPutc c s =
     (if ssize s \<le> cursor s then Some (- 1, s)
      else if remain s > 1
           then map_option (\<lambda>m. (uint c, s\<lparr>buffer := m, cursor := cursor s + 1, remain := remain s - 1\<rparr>))
                  (store_bytes (buffer s) (unat (cursor s)) [c])
           else Some (- 1, s))"

definition ioStreamIsEnd :: "ioStream \<Rightarrow> int" where
  "ioStreamIsEnd s = (if ssize s \<le> cursor s then 1 else 0)"

text \<open>The calls a client can make, and a sequence of them.\<close>

datatype io_op = Open | Rewind | Seek u32 whence | Print "u8 list option" | Write "u8 list" u32 | Putc u8

fun io_step :: "io_op \<Rightarrow> ioStream \<Rightarrow> (int \<times> ioStream) option" where
  "io_step Open s = ioStreamOpen s"
| "io_step Rewind s = Some (ioStreamRewind s)"
| "io_step (Seek off w) s = Some (ioStreamSeek s off w)"
| "io_step (Print t) s = ioStreamPrint s t"
| "io_step (Write buf count) s = ioStreamWrite s buf count"
| "io_step (Putc c) s = ioStreamPutc c s"

fun io_run :: "io_op list \<Rightarrow> ioStream \<Rightarrow> ioStream option" where
  "io_run [] s = Some s"
| "io_run (x # xs) s = (case io_step x s of None \<Rightarrow> None | Some (r, s') \<Rightarrow> io_run xs s')"

section \<open>Invariant\<close>

definition io_inv :: "ioStream \<Rightarrow> bool" where
  "io_inv s \<longleftrightarrow> unat (ssize s) \<le> length (buffer s) \<and> remain s = ssize s - cursor s"

fun op_ok :: "io_op \<Rightarrow> bool" where
  \<comment> \<open>the caller's part: a write names no more bytes than its source holds\<close>
  "op_ok (Write buf count) = (unat count \<le> length buf)"
| "op_ok _ = True"

definition io_frame :: "ioStream \<Rightarrow> ioStream \<Rightarrow> bool" where
  "io_frame s s' \<longleftrightarrow> ssize s' = ssize s \<and> length (buffer s') = length (buffer s) \<and>
     drop (unat (ssize s)) (buffer s') = drop (unat (ssize s)) (buffer s)"

lemma io_frame_refl [simp]: "io_frame s s"
  by (simp add: io_frame_def)

lemma io_frame_trans: "io_frame s t \<Longrightarrow> io_frame t u \<Longrightarrow> io_frame s u"
  by (simp add: io_frame_def)

lemma store_frame:
  assumes "off + length bytes \<le> n" "n \<le> length mem"
  shows "\<exists>m. store_bytes mem off bytes = Some m \<and> length m = length mem \<and> drop n m = drop n mem"
proof -
  have "drop n (take off mem @ bytes @ drop (off + length bytes) mem) = drop n mem"
    using assms by simp
  then show ?thesis using assms by (auto simp: store_bytes_def)
qed

lemma remain_unat:
  assumes "cursor s < ssize s" "io_inv s"
  shows "unat (cursor s) + unat (remain s) = unat (ssize s)" "remain s \<noteq> 0"
proof -
  have "unat (ssize s - cursor s) = unat (ssize s) - unat (cursor s)"
    using assms(1) by (intro unat_sub) simp
  moreover have "unat (cursor s) < unat (ssize s)" using assms(1) by (simp add: word_less_nat_alt)
  ultimately show "unat (cursor s) + unat (remain s) = unat (ssize s)"
    using assms(2) by (simp add: io_inv_def)
  then show "remain s \<noteq> 0" using \<open>unat (cursor s) < unat (ssize s)\<close> by auto
qed

lemma vsnprintf_bytes_length:
  assumes "n \<noteq> 0"
  shows "length (vsnprintf_bytes n t) \<le> unat n"
proof -
  have "0 < unat n" using assms by (simp add: unat_gt_0)
  with assms show ?thesis by (simp add: vsnprintf_bytes_def)
qed

lemma io_step_safe:
  assumes "io_inv s" "op_ok x"
  shows "\<exists>r s'. io_step x s = Some (r, s') \<and> io_inv s' \<and> io_frame s s'"
proof (cases x)
  case Open
  obtain m where "store_bytes (buffer s) 0 (replicate (unat (ssize s)) 0) = Some m"
    "length m = length (buffer s)" "drop (unat (ssize s)) m = drop (unat (ssize s)) (buffer s)"
    using store_frame [of 0 "replicate (unat (ssize s)) 0" "unat (ssize s)" "buffer s"] assms(1)
    by (auto simp: io_inv_def)
  then show ?thesis using Open assms(1)
    by (simp add: ioStreamOpen_def ioStreamRewind_def io_inv_def io_frame_def)
next
  case Rewind
  then show ?thesis using assms(1) by (simp add: ioStreamRewind_def io_inv_def io_frame_def)
next
  case (Seek off w)
  then show ?thesis using assms(1)
    by (cases w) (auto simp: ioStreamSeek_def io_inv_def io_frame_def Let_def)
next
  case (Print t)
  show ?thesis
  proof (cases "ssize s \<le> cursor s \<or> t = None")
    case True
    then show ?thesis using Print assms(1) by (auto simp: ioStreamPrint_def)
  next
    case False
    then obtain tx where t: "t = Some tx" and c: "cursor s < ssize s" by auto
    note r = remain_unat [OF c assms(1)]
    obtain m where "store_bytes (buffer s) (unat (cursor s)) (vsnprintf_bytes (remain s) tx) = Some m"
      "length m = length (buffer s)" "drop (unat (ssize s)) m = drop (unat (ssize s)) (buffer s)"
      using store_frame [of "unat (cursor s)" "vsnprintf_bytes (remain s) tx" "unat (ssize s)" "buffer s"]
        vsnprintf_bytes_length [OF r(2), of tx] r(1) assms(1)
      by (auto simp: io_inv_def)
    then show ?thesis using Print assms(1) t c
      by (auto simp: ioStreamPrint_def io_inv_def io_frame_def Let_def algebra_simps)
  qed
next
  case (Write buf count)
  define ret where "ret = (if count < remain s then count else remain s)"
  show ?thesis
  proof (cases "ssize s \<le> cursor s \<or> sint ret \<le> 0")
    case True
    then show ?thesis using Write assms(1) by (auto simp: ioStreamWrite_def ret_def)
  next
    case False
    then have c: "cursor s < ssize s" by auto
    note r = remain_unat [OF c assms(1)]
    have "ret \<le> remain s" "ret \<le> count" by (auto simp: ret_def)
    then have le: "unat ret \<le> unat (remain s)" "unat ret \<le> length buf"
      using assms(2) Write by (auto simp: word_le_nat_alt)
    obtain m where "store_bytes (buffer s) (unat (cursor s)) (take (unat ret) buf) = Some m"
      "length m = length (buffer s)" "drop (unat (ssize s)) m = drop (unat (ssize s)) (buffer s)"
      using store_frame [of "unat (cursor s)" "take (unat ret) buf" "unat (ssize s)" "buffer s"] le r(1) assms(1)
      by (auto simp: io_inv_def)
    then show ?thesis using Write assms(1) False le(2)
      by (auto simp: ioStreamWrite_def ret_def [symmetric] io_inv_def io_frame_def Let_def algebra_simps)
  qed
next
  case (Putc c)
  show ?thesis
  proof (cases "ssize s \<le> cursor s")
    case True
    then show ?thesis using Putc assms(1) by (auto simp: ioStreamPutc_def)
  next
    case False
    then have c: "cursor s < ssize s" by auto
    note r = remain_unat [OF c assms(1)]
    obtain m where "store_bytes (buffer s) (unat (cursor s)) [c] = Some m"
      "length m = length (buffer s)" "drop (unat (ssize s)) m = drop (unat (ssize s)) (buffer s)"
      using store_frame [of "unat (cursor s)" "[c]" "unat (ssize s)" "buffer s"] c assms(1)
      by (auto simp: io_inv_def word_less_nat_alt)
    then show ?thesis using Putc assms(1) False
      by (auto simp: ioStreamPutc_def io_inv_def io_frame_def Let_def algebra_simps)
  qed
qed

section \<open>Properties\<close>

text \<open>
  C29. Memory safety of the stream: whatever sequence of calls a client makes on a stream whose
  block is at least as large as its \<open>size\<close> field, no call stores outside the block, the bytes
  behind \<open>size\<close> are never changed and the cursor and the remaining length stay consistent, even
  after \<open>length\<close> has wrapped around in a truncated print.
\<close>

theorem io_run_safe:
  assumes "io_inv s" "\<forall>x\<in>set ops. op_ok x"
  shows "\<exists>s'. io_run ops s = Some s' \<and> io_inv s' \<and> ssize s' = ssize s \<and>
    length (buffer s') = length (buffer s) \<and>
    drop (unat (ssize s)) (buffer s') = drop (unat (ssize s)) (buffer s)"
proof -
  have "\<exists>s'. io_run ops s = Some s' \<and> io_inv s' \<and> io_frame s s'"
    using assms
  proof (induction ops arbitrary: s)
    case (Cons x ops)
    obtain r s1 where 1: "io_step x s = Some (r, s1)" "io_inv s1" "io_frame s s1"
      using io_step_safe [of s x] Cons.prems by auto
    then show ?case using Cons.IH [of s1] Cons.prems(2) io_frame_trans by fastforce
  qed simp
  then show ?thesis by (simp add: io_frame_def)
qed

theorem io_run_safe_witness:
  "\<exists>s'. io_run [Print (Some [65, 66, 67]), Putc 68, Seek 0 SEEK_SET, Write [70, 71] 2]
      \<lparr>buffer = [1, 2, 9], ssize = 2, cursor = 0, remain = 2\<rparr> = Some s' \<and> drop 2 (buffer s') = [9]"
  using io_run_safe [of "\<lparr>buffer = [1, 2, 9], ssize = 2, cursor = 0, remain = 2\<rparr>"
      "[Print (Some [65, 66, 67]), Putc 68, Seek 0 SEEK_SET, Write [70, 71] 2]"]
  by (auto simp: io_inv_def)

lemma sint_small:
  assumes "unat (w :: u32) < 2147483648"
  shows "sint w = int (unat w)"
proof -
  have "int (unat w) < 2147483648" using assms by linarith
  then have "uint w < 2147483648" by simp
  moreover have "- 2147483648 \<le> uint w" using uint_ge_0 [of w] by linarith
  ultimately have "sint w = uint w" by (simp add: sint_uint signed_take_bit_int_eq_self)
  then show ?thesis by simp
qed

text \<open>
  A write that fits appends: it returns the count, \<open>ioStreamTell\<close> advances by it, the bytes
  appear at the old position, everything before the old position is unchanged, and seeking back
  to the old position makes the stream point at exactly these bytes.
\<close>

theorem ioStreamWrite_appends:
  assumes "io_inv s" "0 < count" "unat (cursor s) + unat count \<le> unat (ssize s)"
    and "unat (ssize s) < 2147483648" "unat count \<le> length buf"
  shows "\<exists>s'. ioStreamWrite s buf count = Some (int (unat count), s') \<and>
    ioStreamTell s' = ioStreamTell s + int (unat count) \<and>
    take (unat count) (drop (unat (cursor s)) (buffer s')) = take (unat count) buf \<and>
    take (unat (cursor s)) (buffer s') = take (unat (cursor s)) (buffer s) \<and>
    cursor (snd (ioStreamSeek s' (- count) SEEK_CUR)) = cursor s"
proof -
  have c0: "0 < unat count" using assms(2) by (simp add: word_less_nat_alt)
  have c: "cursor s < ssize s" using assms(3) c0 by (simp add: word_less_nat_alt)
  note r = remain_unat [OF c assms(1)]
  have "count \<le> remain s" using r(1) assms(3) by (simp add: word_le_nat_alt)
  then have ret: "(if count < remain s then count else remain s) = count" by auto
  have si: "sint count = int (unat count)" using assms(3,4) by (intro sint_small) simp
  have "0 < int (unat count)" using c0 by linarith
  then have pos: "0 < uint count" by simp
  let ?m = "take (unat (cursor s)) (buffer s) @ take (unat count) buf @ drop (unat (cursor s) + unat count) (buffer s)"
  let ?s = "s\<lparr>buffer := ?m, cursor := cursor s + count, remain := remain s - count\<rparr>"
  have len: "unat (cursor s) + unat count \<le> length (buffer s)"
    using assms(1,3) by (simp add: io_inv_def)
  then have "store_bytes (buffer s) (unat (cursor s)) (take (unat count) buf) = Some ?m"
    using assms(5) by (simp add: store_bytes_def min_absorb2)
  then have w: "ioStreamWrite s buf count = Some (int (unat count), ?s)"
    using c [unfolded not_le [symmetric]] assms(5) unfolding ioStreamWrite_def ret by (simp add: si pos Let_def)
  have cc: "unat (cursor s + count) = unat (cursor s) + unat count"
    using assms(3,4) by (simp add: unat_word_ariths)
  have "ssize s - remain s = cursor s" using assms(1) by (simp add: io_inv_def)
  then have "ioStreamTell s = int (unat (cursor s))" "ioStreamTell ?s = int (unat (cursor s + count))"
    using assms(3,4) cc by (simp_all add: ioStreamTell_def sint_small algebra_simps)
  moreover have "cursor (snd (ioStreamSeek ?s (- count) SEEK_CUR)) = cursor s"
    using assms(1,3,4) c by (simp add: ioStreamSeek_def Let_def io_inv_def sint_small word_less_nat_alt)
  ultimately show ?thesis using w cc assms(5) len by simp
qed

theorem ioStreamWrite_appends_witness:
  "\<exists>s'. ioStreamWrite \<lparr>buffer = [1, 2, 3, 4], ssize = 4, cursor = 1, remain = 3\<rparr> [70, 71] 2 = Some (2, s') \<and>
     take 2 (drop 1 (buffer s')) = [70, 71]"
  using ioStreamWrite_appends [of "\<lparr>buffer = [1, 2, 3, 4], ssize = 4, cursor = 1, remain = 3\<rparr>" 2 "[70, 71]"]
  by (auto simp: io_inv_def)

text \<open>
  A print that does not fit: the text is cut so that a terminating zero fits, the return
  value is the untruncated length, the stream is at its end afterwards, and \<open>ioStreamTell\<close> then
  reports a position at or behind the end of the buffer, not the number of bytes stored.
\<close>

theorem ioStreamPrint_truncates:
  assumes "io_inv s" "cursor s < ssize s" "unat (remain s) \<le> length t"
    and "unat (cursor s) + length t < 2147483648"
  shows "\<exists>s'. ioStreamPrint s (Some t) = Some (int (length t), s') \<and> ioStreamIsEnd s' = 1 \<and>
    take (unat (ssize s)) (buffer s') =
      take (unat (cursor s)) (buffer s) @ take (unat (remain s) - 1) t @ [0] \<and>
    ioStreamTell s' = int (unat (cursor s) + length t) \<and> int (unat (ssize s)) \<le> ioStreamTell s'"
proof -
  note r = remain_unat [OF assms(2,1)]
  define ret where "ret = (word_of_nat (length t) :: u32)"
  have ur: "unat ret = length t" using assms(4) by (simp add: ret_def unat_of_nat)
  have rs: "0 < unat (remain s)" using r(2) by (simp add: unat_gt_0)
  let ?b = "take (unat (remain s) - 1) t @ [0]"
  have lb: "length ?b = unat (remain s)" using assms(3) rs by simp
  let ?m = "take (unat (cursor s)) (buffer s) @ ?b @ drop (unat (ssize s)) (buffer s)"
  let ?s = "s\<lparr>buffer := ?m, cursor := cursor s + ret, remain := remain s - ret\<rparr>"
  have "store_bytes (buffer s) (unat (cursor s)) (vsnprintf_bytes (remain s) t) = Some ?m"
    unfolding store_bytes_def vsnprintf_bytes_def
    using lb r assms(1) by (simp add: io_inv_def)
  moreover have si: "sint ret = int (length t)" using assms(4) ur by (simp add: sint_small)
  ultimately have p: "ioStreamPrint s (Some t) = Some (int (length t), ?s)"
    using assms(2) by (simp add: ioStreamPrint_def Let_def not_le flip: ret_def)
  have cc: "unat (cursor s + ret) = unat (cursor s) + length t"
    using assms(4) ur by (simp add: unat_word_ariths)
  then have e: "ioStreamIsEnd ?s = 1"
    using r(1) assms(3) by (simp add: ioStreamIsEnd_def word_le_nat_alt)
  have "ssize s - remain s = cursor s" using assms(1) by (simp add: io_inv_def)
  then have tl: "ioStreamTell ?s = int (unat (cursor s) + length t)"
    using assms(4) cc by (simp add: ioStreamTell_def sint_small algebra_simps)
  have "unat (ssize s) \<le> length (buffer s)" using assms(1) by (simp add: io_inv_def)
  then have tk: "take (unat (ssize s)) ?m = take (unat (cursor s)) (buffer s) @ ?b"
    using r(1) lb by simp
  have "int (unat (ssize s)) \<le> int (unat (cursor s) + length t)" using r(1) assms(3) by linarith
  with p e tl tk show ?thesis by (intro exI [of _ ?s]) simp
qed

theorem ioStreamPrint_truncates_witness:
  "\<exists>s'. ioStreamPrint \<lparr>buffer = [1, 2, 3], ssize = 3, cursor = 1, remain = 2\<rparr> (Some [65, 66, 67, 68]) = Some (4, s') \<and>
     ioStreamTell s' = 5 \<and> take 3 (buffer s') = [1, 65, 0]"
  using ioStreamPrint_truncates [of "\<lparr>buffer = [1, 2, 3], ssize = 3, cursor = 1, remain = 2\<rparr>" "[65, 66, 67, 68]"]
  by (auto simp: io_inv_def)

end
