(* ===== verification/Wall_Clock.thy ===== *)
theory Wall_Clock
  imports Ckits_Prelude
begin

text \<open>
  \<open>libckits/wallClock.c\<close>: uptime and NTP time stamps.  \<open>gettimeofday\<close> is an argument (the current
  time); the conversion of microseconds to the NTP fraction is floating-point arithmetic and
  enters as the function \<open>frac\<close>.  The over-wide shift \<open>ntpsec << 32\<close> of a 32-bit operand has no
  defined value in C; the function \<open>shl32\<close> stands for whatever the machine delivers.
\<close>

unbundle bit_operations_syntax

record timeval =
  tv_sec :: u32
  tv_usec :: u32

definition EPOCH :: u32 where "EPOCH = 2208988800"

definition saveStartTime :: "timeval \<Rightarrow> timeval \<Rightarrow> int \<times> timeval" where
  \<comment> \<open>the static variable \<open>initTime\<close> is overwritten with the current time\<close>
  "saveStartTime now initTime = (0, now)"

definition showUptime :: "timeval \<Rightarrow> timeval \<Rightarrow> u32 list" where
  \<comment> \<open>the seven numbers handed to \<open>shell_print\<close>\<close>
  "showUptime now initTime =
     (let sec = tv_sec now - tv_sec initTime;
          mnt = sec div 60; sec = sec mod 60;
          hour = mnt div 60; mnt = mnt mod 60;
          day = hour div 24; hour = hour mod 24
      in [day, hour div 10, hour mod 10, mnt div 10, mnt mod 10, sec div 10, sec mod 10])"

text \<open>Output pointers: \<open>None\<close> is the null pointer, \<open>Some x\<close> a cell that holds \<open>x\<close>.\<close>

definition getApartNTPNow ::
  "(u32 \<Rightarrow> u32) \<Rightarrow> timeval \<Rightarrow> u32 option \<Rightarrow> u32 option \<Rightarrow> u32 option \<times> u32 option" where
  "getApartNTPNow frac tv ntpsec ntpusec =
     (if ntpsec = None \<or> ntpusec = None then (ntpsec, ntpusec)
      else (Some (tv_sec tv + EPOCH), Some (frac (tv_usec tv))))"

definition getWholeNTPNow :: "(u32 \<Rightarrow> u32) \<Rightarrow> (u32 \<Rightarrow> u32) \<Rightarrow> timeval \<Rightarrow> u64 option \<Rightarrow> u64 option" where
  "getWholeNTPNow shl32 frac tv ntptime =
     (if ntptime = None then None
      else case getApartNTPNow frac tv (Some 0) (Some 0) of
             (Some ntpsec, Some ntpusec) \<Rightarrow> Some (ucast (shl32 ntpsec OR ntpusec))
           | _ \<Rightarrow> ntptime)"

definition minusNTP :: "u64 \<Rightarrow> u64 \<Rightarrow> u32" where
  "minusNTP ntp1 ntp2 =
     (let diff = drop_bit 16 (ntp1 - ntp2)
      in if diff < 0xFFFFFFFF then ucast diff else 0xFFFFFFFF)"

definition minusNTPDelay :: "(u32 \<Rightarrow> u32) \<Rightarrow> (u32 \<Rightarrow> u32) \<Rightarrow> timeval \<Rightarrow> u64 \<Rightarrow> u32" where
  "minusNTPDelay shl32 frac tv ntptime =
     (case getWholeNTPNow shl32 frac tv (Some 0) of
        Some ntp \<Rightarrow> minusNTP ntp ntptime
      | None \<Rightarrow> 0)"

section \<open>Properties\<close>

lemma unat_drop16: "unat (drop_bit 16 (w :: u64)) = unat w div 65536"
  by (simp add: drop_bit_eq_div unat_div)

text \<open>
  \<open>minusNTP\<close> is the distance of two NTP time stamps in units of 1/65536 second, saturated at
  the largest 32-bit value; the distance is taken on the 64-bit circle.
\<close>

theorem minusNTP_saturates:
  "unat (minusNTP a b) = min 4294967295 (unat (a - b) div 65536)"
proof -
  let ?d = "drop_bit 16 (a - b)"
  have "?d < 0xFFFFFFFF \<longleftrightarrow> unat (a - b) div 65536 < 4294967295"
    by (simp add: word_less_nat_alt unat_drop16)
  moreover have "unat (ucast ?d :: u32) = unat (a - b) div 65536 mod 4294967296"
    by (simp add: unsigned_ucast_eq unat_drop16 take_bit_eq_mod)
  ultimately show ?thesis
    by (auto simp: minusNTP_def Let_def min_def)
qed

text \<open>
  The NTP time stamp that \<open>getWholeNTPNow\<close> delivers has lost its seconds: whatever value the
  machine gives the shift of a 32-bit operand by 32, the upper half of the 64-bit result, where
  the seconds belong, is zero.
\<close>

theorem getWholeNTPNow_loses_seconds:
  "\<exists>r. getWholeNTPNow shl32 frac tv (Some old) = Some r \<and> drop_bit 32 r = 0 \<and> unat r < 4294967296"
proof -
  have b: "unat (ucast (x :: u32) :: u64) < 4294967296" for x
  proof -
    have "unat x < 2 ^ LENGTH(32)" by (rule unsigned_less)
    then show ?thesis by (simp add: unsigned_ucast_eq take_bit_eq_mod)
  qed
  have "unat (drop_bit 32 (ucast (x :: u32) :: u64)) = 0" for x
    using b [of x] by (simp add: drop_bit_eq_div unat_div)
  then have "drop_bit 32 (ucast (x :: u32) :: u64) = 0" for x by (metis unat_eq_zero)
  then show ?thesis using b by (simp add: getWholeNTPNow_def getApartNTPNow_def)
qed

text \<open>
  The uptime shown is the elapsed time: the seven numbers are the days, and the two decimal
  digits each of hours below 24, minutes and seconds below 60, of the seconds since the start
  (modulo \<open>2 ^ 32\<close>).
\<close>

theorem showUptime_digits:
  "\<exists>d h1 h0 m1 m0 s1 s0. map unat (showUptime now start) = [d, h1, h0, m1, m0, s1, s0] \<and>
     ((d * 24 + (10 * h1 + h0)) * 60 + (10 * m1 + m0)) * 60 + (10 * s1 + s0) =
       unat (tv_sec now - tv_sec start) \<and>
     10 * h1 + h0 < 24 \<and> 10 * m1 + m0 < 60 \<and> 10 * s1 + s0 < 60 \<and> h0 < 10 \<and> m0 < 10 \<and> s0 < 10"
proof -
  define n where "n = unat (tv_sec now - tv_sec start)"
  have "map unat (showUptime now start) =
    [n div 60 div 60 div 24, n div 60 div 60 mod 24 div 10, n div 60 div 60 mod 24 mod 10,
     n div 60 mod 60 div 10, n div 60 mod 60 mod 10, n mod 60 div 10, n mod 60 mod 10]"
    by (simp add: showUptime_def Let_def unat_div unat_mod n_def)
  moreover have "((n div 60 div 60 div 24 * 24 + n div 60 div 60 mod 24) * 60 + n div 60 mod 60) * 60 + n mod 60 = n"
    by (simp add: div_mult_mod_eq mult.commute)
  ultimately show ?thesis unfolding n_def [symmetric]
    by (intro exI conjI) (simp_all only:, simp_all)
qed

end
