(* ===== verification/Assoc_Store.thy ===== *)
theory Assoc_Store
  imports Ckits_Prelude
begin

text \<open>
  The contract of an associative store: what the users of the hash tables rely on.  \<open>lookup\<close> is
  the abstraction of a store to a partial map; every operation keeps the store's invariant and
  acts on the abstraction as the corresponding map operation.
\<close>

locale assoc_store =
  fixes inv :: "'s \<Rightarrow> bool"
    and lookup :: "'s \<Rightarrow> 'k \<rightharpoonup> 'v"
    and put :: "'k \<Rightarrow> 'v \<Rightarrow> 's \<Rightarrow> 's"
    and del :: "'k \<Rightarrow> 's \<Rightarrow> 's"
  assumes inv_put: "inv s \<Longrightarrow> inv (put k v s)"
    and inv_del: "inv s \<Longrightarrow> inv (del k s)"
    and lookup_put: "inv s \<Longrightarrow> lookup (put k v s) = (lookup s)(k \<mapsto> v)"
    and lookup_del: "inv s \<Longrightarrow> lookup (del k s) = (lookup s)(k := None)"
begin

lemma put_overwrites: "inv s \<Longrightarrow> lookup (put k w (put k v s)) = lookup (put k w s)"
  by (simp add: lookup_put inv_put)

lemma put_commute: "inv s \<Longrightarrow> k \<noteq> l \<Longrightarrow> lookup (put k v (put l w s)) = lookup (put l w (put k v s))"
  by (simp add: lookup_put inv_put fun_upd_twist)

lemma del_put: "inv s \<Longrightarrow> lookup s k = None \<Longrightarrow> lookup (del k (put k v s)) = lookup s"
  by (auto simp: lookup_put lookup_del inv_put)

lemma del_idem: "inv s \<Longrightarrow> lookup (del k (del k s)) = lookup (del k s)"
  by (simp add: lookup_del inv_del)

text \<open>A whole sequence of insertions: the last value stored under a key wins.\<close>

lemma lookup_puts:
  assumes "inv s"
  shows "inv (fold (\<lambda>(k, v). put k v) kvs s)"
    and "lookup (fold (\<lambda>(k, v). put k v) kvs s) = lookup s ++ map_of (rev kvs)"
  using assms
proof (induction kvs arbitrary: s)
  case (Cons kv kvs)
  obtain k v where kv: "kv = (k, v)" by force
  {
    case 1
    then show ?case using Cons.IH(1) [of "put k v s"] by (simp add: kv inv_put)
  next
    case 2
    have "lookup (fold (\<lambda>(k, v). put k v) kvs (put k v s)) = (lookup s)(k \<mapsto> v) ++ map_of (rev kvs)"
      using Cons.IH(2) [of "put k v s"] 2 by (simp add: inv_put lookup_put fun_upd_def)
    then show ?case by (simp add: kv)
  }
qed simp_all

end

end
