(* ===== verification/Hash_Table.thy ===== *)
theory Hash_Table
  imports Assoc_Store
begin

text \<open>
  The string-keyed hash table \<open>libckits/hashTable.c\<close>.  A table is its size and its array of
  chains; a chain is the list of its tokens in link order.  Keys are C strings (the characters
  before the terminating zero), stored values are pointers (\<open>'v option\<close>, \<open>None\<close> the null
  pointer).  Whether an allocation succeeds is an argument (\<open>ht_alloc\<close>: what the installed
  allocator functions answer for a requested size).  Indexing the table array out of range is
  the outer \<open>None\<close> of a result.
\<close>

unbundle bit_operations_syntax

section \<open>Data\<close>

record 'v hashToken =
  tname :: string
  tvalue :: "'v option"

record 'v tableInfo =
  hashSize :: u32
  table :: "'v hashToken list list"

type_synonym allocFunc = "nat \<Rightarrow> bool"

record ht_alloc =
  ht_malloc :: allocFunc
  ht_free :: "unit option"
  ht_tkmalloc :: allocFunc
  ht_tkfree :: "unit option"

datatype iterCtrl = ITERCTRL_CONTINUE | ITERCTRL_BREAK

section \<open>Hashing\<close>

fun djb2_loop :: "string \<Rightarrow> nat \<Rightarrow> u32 \<Rightarrow> u32" where
  "djb2_loop [] count hash = hash"
| "djb2_loop (c # cs) 0 hash = hash"
| "djb2_loop (c # cs) (Suc count) hash = djb2_loop cs count ((push_bit 5 hash + hash) + of_char c)"

definition djb2_hash :: "string \<Rightarrow> int \<Rightarrow> u32" where
  "djb2_hash str count =
     (let count = (if count < 0 \<or> count \<ge> 7 then 7 else count) in djb2_loop str (nat count) 5381)"

fun realHashSize_loop :: "nat \<Rightarrow> u32 \<Rightarrow> u32" where
  \<comment> \<open>the loop with \<open>testbit = 2 ^ k\<close>; shifting bit 0 out ends it with 0\<close>
  "realHashSize_loop 0 hs = (if hs AND 2 ^ 0 \<noteq> 0 then 2 ^ 0 else 0)"
| "realHashSize_loop (Suc k) hs =
     (if hs AND 2 ^ Suc k \<noteq> 0 then 2 ^ Suc k else realHashSize_loop k hs)"

definition realHashSize :: "u32 \<Rightarrow> u32" where
  "realHashSize hs = (if hs > 4096 then 4096 else realHashSize_loop 12 hs)"

section \<open>Allocation hooks\<close>

definition setHtStringAlloc :: "allocFunc option \<Rightarrow> unit option \<Rightarrow> ht_alloc \<Rightarrow> int \<times> ht_alloc" where
  "setHtStringAlloc func1 func2 e =
     (case (func1, func2) of
        (Some f, Some g) \<Rightarrow> (0, e\<lparr>ht_malloc := f, ht_free := Some g\<rparr>)
      | _ \<Rightarrow> (- 1, e))"

definition setHtTokenAlloc :: "allocFunc option \<Rightarrow> unit option \<Rightarrow> ht_alloc \<Rightarrow> int \<times> ht_alloc" where
  "setHtTokenAlloc func1 func2 e =
     (case (func1, func2) of
        (Some f, Some g) \<Rightarrow> (0, e\<lparr>ht_tkmalloc := f, ht_tkfree := Some g\<rparr>)
      | _ \<Rightarrow> (- 1, e))"

definition hashStrdup :: "ht_alloc \<Rightarrow> string \<Rightarrow> string option" where
  "hashStrdup e s = (if ht_malloc e (length s + 1) then Some s else None)"

section \<open>Operations\<close>

definition initHashTable :: "ht_alloc \<Rightarrow> bool \<Rightarrow> u32 \<Rightarrow> int \<times> 'v tableInfo option" where
  \<comment> \<open>\<open>pHandle\<close>: whether the caller's handle pointer is not null; the new handle if one is stored\<close>
  "initHashTable e pHandle hs =
     (let hs = realHashSize hs
      in if \<not> pHandle \<or> hs = 0 then (- 1, None)
         else if \<not> ht_malloc e (4 + 12 * unat hs) then (- 1, None)
         else (0, Some \<lparr>hashSize = hs, table = replicate (unat hs) []\<rparr>))"

fun chain_find :: "string \<Rightarrow> 'v hashToken list \<Rightarrow> 'v hashToken option" where
  "chain_find name [] = None"
| "chain_find name (t # ts) = (if name = tname t then Some t else chain_find name ts)"

fun chain_unlink :: "string \<Rightarrow> 'v hashToken list \<Rightarrow> 'v hashToken list" where
  "chain_unlink name [] = []"
| "chain_unlink name (t # ts) = (if name = tname t then ts else t # chain_unlink name ts)"

fun chain_assign :: "string \<Rightarrow> 'v option \<Rightarrow> 'v hashToken list \<Rightarrow> 'v hashToken list" where
  \<comment> \<open>\<open>newToken->value = value\<close> on the token that \<open>findToken\<close> returned\<close>
  "chain_assign name v [] = []"
| "chain_assign name v (t # ts) =
     (if name = tname t then t\<lparr>tvalue := v\<rparr> # ts else t # chain_assign name v ts)"

definition slot :: "'v tableInfo \<Rightarrow> string \<Rightarrow> nat" where
  "slot tbl name = unat (djb2_hash name (- 1) AND (hashSize tbl - 1))"

definition findToken ::
  "'v tableInfo \<Rightarrow> string \<Rightarrow> bool \<Rightarrow> ('v hashToken option \<times> 'v tableInfo) option" where
  "findToken tbl name delFlag =
     (let i = slot tbl name
      in if i < length (table tbl)
         then Some (chain_find name (table tbl ! i),
                    if delFlag
                    then tbl\<lparr>table := (table tbl)[i := chain_unlink name (table tbl ! i)]\<rparr>
                    else tbl)
         else None)"

definition createToken :: "ht_alloc \<Rightarrow> string \<Rightarrow> 'v option \<Rightarrow> 'v hashToken option" where
  "createToken e name v =
     (if ht_tkmalloc e 12
      then (case hashStrdup e name of
              Some n \<Rightarrow> Some \<lparr>tname = n, tvalue = v\<rparr>
            | None \<Rightarrow> None)
      else None)"

text \<open>
  Results: the returned code, what was stored through \<open>retval\<close> (\<open>None\<close>: nothing was stored) and
  the table afterwards.  \<open>handle\<close>, \<open>name\<close> and \<open>retval\<close> may be null pointers.
\<close>

type_synonym 'v ht_result = "(int \<times> 'v option option \<times> 'v tableInfo option) option"

definition deleteToken :: "'v hashToken option \<Rightarrow> bool \<Rightarrow> int \<times> 'v option option" where
  "deleteToken item retval =
     (case item of
        None \<Rightarrow> (- 1, None)
      | Some t \<Rightarrow> (0, if retval then Some (tvalue t) else None))"

definition setHashValue ::
  "ht_alloc \<Rightarrow> 'v tableInfo option \<Rightarrow> string option \<Rightarrow> 'v option \<Rightarrow> bool \<Rightarrow> 'v ht_result" where
  "setHashValue e handle name value retval =
     (let out = (if retval then Some None else None)
      in case (handle, name) of
           (Some tbl, Some n) \<Rightarrow>
             (case findToken tbl n False of
                None \<Rightarrow> None
              | Some (Some t, _) \<Rightarrow>
                  (let i = slot tbl n
                   in Some (0, if retval then Some (tvalue t) else None,
                        Some (tbl\<lparr>table := (table tbl)[i := chain_assign n value (table tbl ! i)]\<rparr>)))
              | Some (None, _) \<Rightarrow>
                  (case createToken e n value of
                     None \<Rightarrow> Some (- 1, out, handle)
                   | Some t \<Rightarrow>
                       (let i = slot tbl n
                        in if i < length (table tbl)
                           then Some (0, out, Some (tbl\<lparr>table := (table tbl)[i := (table tbl ! i) @ [t]]\<rparr>))
                           else None)))
         | _ \<Rightarrow> Some (- 1, out, handle))"

definition getHashValue :: "'v tableInfo option \<Rightarrow> string option \<Rightarrow> bool \<Rightarrow> 'v ht_result" where
  "getHashValue handle name retval =
     (case (handle, name, retval) of
        (Some tbl, Some n, True) \<Rightarrow>
          (case findToken tbl n False of
             None \<Rightarrow> None
           | Some (None, _) \<Rightarrow> Some (- 1, None, handle)
           | Some (Some t, _) \<Rightarrow> Some (0, Some (tvalue t), handle))
      | _ \<Rightarrow> Some (- 1, None, handle))"

definition delHashValue :: "'v tableInfo option \<Rightarrow> string option \<Rightarrow> bool \<Rightarrow> 'v ht_result" where
  "delHashValue handle name retval =
     (case (handle, name) of
        (Some tbl, Some n) \<Rightarrow>
          (case findToken tbl n True of
             None \<Rightarrow> None
           | Some (None, tbl') \<Rightarrow> Some (- 1, None, Some tbl')
           | Some (Some t, tbl') \<Rightarrow>
               (let (ret, out) = deleteToken (Some t) retval in Some (ret, out, Some tbl')))
      | _ \<Rightarrow> Some (- 1, None, handle))"

fun iter_chain ::
  "(string \<Rightarrow> 'v option \<Rightarrow> 'p \<Rightarrow> iterCtrl \<times> 'p) \<Rightarrow> 'v hashToken list \<Rightarrow> 'p \<Rightarrow> iterCtrl \<times> 'p" where
  "iter_chain cb [] p = (ITERCTRL_CONTINUE, p)"
| "iter_chain cb (t # ts) p =
     (case cb (tname t) (tvalue t) p of
        (ITERCTRL_BREAK, p') \<Rightarrow> (ITERCTRL_BREAK, p')
      | (ITERCTRL_CONTINUE, p') \<Rightarrow> iter_chain cb ts p')"

fun iter_slots ::
  "(string \<Rightarrow> 'v option \<Rightarrow> 'p \<Rightarrow> iterCtrl \<times> 'p) \<Rightarrow> nat \<Rightarrow> 'v hashToken list list \<Rightarrow> 'p \<Rightarrow> (iterCtrl \<times> 'p) option"
  where
  "iter_slots cb 0 cs p = Some (ITERCTRL_CONTINUE, p)"
| "iter_slots cb (Suc n) [] p = None"
| "iter_slots cb (Suc n) (c # cs) p =
     (case iter_chain cb c p of
        (ITERCTRL_BREAK, p') \<Rightarrow> Some (ITERCTRL_BREAK, p')
      | (ITERCTRL_CONTINUE, p') \<Rightarrow> iter_slots cb n cs p')"

definition iterHashTable ::
  "'v tableInfo option \<Rightarrow> (string \<Rightarrow> 'v option \<Rightarrow> 'p \<Rightarrow> iterCtrl \<times> 'p) option \<Rightarrow> 'p \<Rightarrow> (int \<times> 'p) option"
  where
  "iterHashTable handle callback p =
     (case (handle, callback) of
        (Some tbl, Some cb) \<Rightarrow>
          map_option (\<lambda>(ctrl, p'). (if ctrl = ITERCTRL_BREAK then - 1 else 0, p'))
            (iter_slots cb (unat (hashSize tbl)) (table tbl) p)
      | _ \<Rightarrow> Some (- 1, p))"

definition dumpHashTable :: "'v tableInfo option \<Rightarrow> (string \<times> nat \<times> nat \<times> 'v option) list" where
  \<comment> \<open>the lines printed: name, slot, level in the chain, value\<close>
  "dumpHashTable handle =
     (case handle of
        None \<Rightarrow> []
      | Some tbl \<Rightarrow>
          concat (map (\<lambda>(i, c). map (\<lambda>(level, t). (tname t, i, level, tvalue t)) (enumerate 0 c))
                    (enumerate 0 (take (unat (hashSize tbl)) (table tbl)))))"

section \<open>The table size\<close>

lemma bit_word_unat: "(hs :: u32) AND 2 ^ k = 0 \<longleftrightarrow> even (unat hs div 2 ^ k)"
proof -
  have "bit hs k \<longleftrightarrow> bit (unat hs) k" by (simp add: bit_unsigned_iff)
  then show ?thesis by (simp add: and_exp_eq_0_iff_not_bit bit_iff_odd [of "unat hs"])
qed

lemma realHashSize_loop_top:
  assumes "k < 31" "unat hs < 2 ^ Suc k" "hs \<noteq> 0"
  shows "\<exists>j \<le> k. realHashSize_loop k hs = 2 ^ j \<and> 2 ^ j \<le> unat hs \<and> unat hs < 2 ^ Suc j"
  using assms
proof (induction k)
  case 0
  then have "unat hs \<noteq> 0" "unat hs < 2" by (simp_all add: unat_eq_zero)
  then have "unat hs = 1" by linarith
  then show ?case using bit_word_unat [of hs 0] by simp
next
  case (Suc k)
  show ?case
  proof (cases "hs AND 2 ^ Suc k = 0")
    case True
    then have "even (unat hs div 2 ^ Suc k)" using bit_word_unat [of hs "Suc k"] by simp
    moreover have "unat hs div 2 ^ Suc k < 2"
      using Suc.prems(2) by (simp add: div_less_iff_less_mult mult.commute)
    ultimately have "unat hs div 2 ^ Suc k = 0" by (cases "unat hs div 2 ^ Suc k") auto
    then have "unat hs < 2 ^ Suc k" by (simp add: div_eq_0_iff)
    then show ?thesis using Suc True by (auto intro: le_SucI)
  next
    case False
    then have "odd (unat hs div 2 ^ Suc k)" using bit_word_unat [of hs "Suc k"] by simp
    then have "2 ^ Suc k \<le> unat hs" by (metis div_less dvd_0_right not_le)
    then show ?thesis using False Suc.prems(2) by (intro exI [of _ "Suc k"]) simp
  qed
qed

lemma realHashSize_0: "realHashSize 0 = 0"
proof -
  have "realHashSize_loop k 0 = 0" for k by (induction k) simp_all
  then show ?thesis by (simp add: realHashSize_def)
qed

lemma realHashSize_power:
  assumes "hs \<noteq> 0"
  shows "\<exists>k \<le> 12. realHashSize hs = 2 ^ k \<and> 2 ^ k \<le> unat hs \<and> (unat hs < 2 ^ Suc k \<or> k = 12)"
proof (cases "hs > 4096")
  case True
  then show ?thesis by (intro exI [of _ 12]) (simp add: realHashSize_def word_less_nat_alt)
next
  case False
  then have "unat hs < 2 ^ Suc 12" by (simp add: word_less_nat_alt)
  from realHashSize_loop_top [OF _ this assms] show ?thesis
    using False by (auto simp: realHashSize_def)
qed

section \<open>Chains\<close>

lemma chain_find_None: "chain_find n c = None \<longleftrightarrow> n \<notin> tname ` set c"
  by (induction c) auto

lemma chain_find_name: "chain_find n c = Some t \<Longrightarrow> tname t = n \<and> t \<in> set c"
  by (induction c) (auto split: if_splits)

lemma chain_find_member: "distinct (map tname c) \<Longrightarrow> t \<in> set c \<Longrightarrow> chain_find (tname t) c = Some t"
  by (induction c) (auto simp: image_iff)

lemma chain_find_assign:
  "chain_find n (chain_assign m v c) =
     (if n = m then map_option (\<lambda>t. t\<lparr>tvalue := v\<rparr>) (chain_find n c) else chain_find n c)"
  by (induction c) auto

lemma chain_find_append:
  "chain_find n (c @ d) = (case chain_find n c of None \<Rightarrow> chain_find n d | Some t \<Rightarrow> Some t)"
  by (induction c) auto

lemma chain_find_unlink:
  "distinct (map tname c) \<Longrightarrow> chain_find n (chain_unlink m c) = (if n = m then None else chain_find n c)"
  by (induction c) (auto simp: chain_find_None)

lemma chain_assign_names [simp]: "map tname (chain_assign m v c) = map tname c"
  by (induction c) auto

lemma chain_unlink_names [simp]: "map tname (chain_unlink m c) = remove1 m (map tname c)"
  by (induction c) auto

section \<open>Invariant and abstraction\<close>

definition ht_inv :: "'v tableInfo \<Rightarrow> bool" where
  "ht_inv tbl \<longleftrightarrow> (\<exists>k \<le> 12. hashSize tbl = 2 ^ k) \<and> length (table tbl) = unat (hashSize tbl) \<and>
     (\<forall>i < length (table tbl). distinct (map tname (table tbl ! i)) \<and>
        (\<forall>n \<in> set (map tname (table tbl ! i)). slot tbl n = i))"

definition ht_lookup :: "'v tableInfo \<Rightarrow> string \<rightharpoonup> 'v option" where
  "ht_lookup tbl n = map_option tvalue (chain_find n (table tbl ! slot tbl n))"

lemma slot_less:
  assumes "ht_inv tbl"
  shows "slot tbl n < length (table tbl)"
proof -
  obtain k where k: "k \<le> 12" "hashSize tbl = 2 ^ k" using assms by (auto simp: ht_inv_def)
  have "x AND (2 ^ k - 1) = take_bit k x" for x :: u32
    by (simp add: take_bit_eq_mask mask_eq_exp_minus_1)
  then have "slot tbl n = take_bit k (unat (djb2_hash n (- 1)))"
    by (simp add: slot_def k(2) unsigned_take_bit_eq)
  then have "slot tbl n < 2 ^ k" by simp
  moreover have "unat (2 ^ k :: u32) = 2 ^ k" using k(1) by (simp add: unat_pow2)
  ultimately show ?thesis using assms k by (simp add: ht_inv_def)
qed

lemma slot_table [simp]: "slot (tbl\<lparr>table := x\<rparr>) n = slot tbl n"
  by (simp add: slot_def)

lemma ht_update_slot:
  assumes "ht_inv tbl" "distinct (map tname c)" "\<forall>m \<in> set (map tname c). slot tbl m = slot tbl n"
  shows "ht_inv (tbl\<lparr>table := (table tbl)[slot tbl n := c]\<rparr>)"
    and "ht_lookup (tbl\<lparr>table := (table tbl)[slot tbl n := c]\<rparr>) m =
      (if slot tbl m = slot tbl n then map_option tvalue (chain_find m c) else ht_lookup tbl m)"
  using assms slot_less [OF assms(1), of n]
  by (auto simp: ht_inv_def ht_lookup_def nth_list_update)

lemma ht_chain:
  assumes "ht_inv tbl"
  shows "distinct (map tname (table tbl ! slot tbl n))"
    and "\<forall>m \<in> set (map tname (table tbl ! slot tbl n)). slot tbl m = slot tbl n"
  using assms slot_less [OF assms, of n] by (auto simp: ht_inv_def)

lemma ht_assign:
  assumes "ht_inv tbl" "ht_lookup tbl n \<noteq> None"
  shows "ht_inv (tbl\<lparr>table := (table tbl)[slot tbl n := chain_assign n v (table tbl ! slot tbl n)]\<rparr>)"
    and "ht_lookup (tbl\<lparr>table := (table tbl)[slot tbl n := chain_assign n v (table tbl ! slot tbl n)]\<rparr>) =
      (ht_lookup tbl)(n \<mapsto> v)"
proof -
  let ?c = "table tbl ! slot tbl n"
  note c = ht_chain [OF assms(1), of n]
  have pre: "distinct (map tname (chain_assign n v ?c))"
    "\<forall>m\<in>set (map tname (chain_assign n v ?c)). slot tbl m = slot tbl n"
    unfolding chain_assign_names by (rule c)+
  show "ht_inv (tbl\<lparr>table := (table tbl)[slot tbl n := chain_assign n v ?c]\<rparr>)"
    using ht_update_slot(1) [OF assms(1) pre] .
  show "ht_lookup (tbl\<lparr>table := (table tbl)[slot tbl n := chain_assign n v ?c]\<rparr>) = (ht_lookup tbl)(n \<mapsto> v)"
  proof
    fix m
    show "ht_lookup (tbl\<lparr>table := (table tbl)[slot tbl n := chain_assign n v ?c]\<rparr>) m = ((ht_lookup tbl)(n \<mapsto> v)) m"
      using assms(2)
      by (subst ht_update_slot(2) [OF assms(1) pre]) (auto simp: chain_find_assign ht_lookup_def)
  qed
qed

lemma ht_append:
  assumes "ht_inv tbl" "ht_lookup tbl n = None"
  shows "ht_inv (tbl\<lparr>table := (table tbl)[slot tbl n := (table tbl ! slot tbl n) @ [\<lparr>tname = n, tvalue = v\<rparr>]]\<rparr>)"
    and "ht_lookup (tbl\<lparr>table := (table tbl)[slot tbl n := (table tbl ! slot tbl n) @ [\<lparr>tname = n, tvalue = v\<rparr>]]\<rparr>) =
      (ht_lookup tbl)(n \<mapsto> v)"
proof -
  let ?c = "table tbl ! slot tbl n" and ?t = "\<lparr>tname = n, tvalue = v\<rparr>"
  note c = ht_chain [OF assms(1), of n]
  have "distinct (map tname (?c @ [?t]))"
    using c(1) assms(2) by (simp add: ht_lookup_def chain_find_None)
  moreover have "slot tbl m = slot tbl n" if "m \<in> set (map tname (?c @ [?t]))" for m
    using that by (cases "m = n") (simp, intro c(2) [rule_format], simp)
  ultimately have pre: "distinct (map tname (?c @ [?t]))"
    "\<forall>m\<in>set (map tname (?c @ [?t])). slot tbl m = slot tbl n" by blast+
  show "ht_inv (tbl\<lparr>table := (table tbl)[slot tbl n := ?c @ [?t]]\<rparr>)"
    using ht_update_slot(1) [OF assms(1) pre] .
  show "ht_lookup (tbl\<lparr>table := (table tbl)[slot tbl n := ?c @ [?t]]\<rparr>) = (ht_lookup tbl)(n \<mapsto> v)"
  proof
    fix m
    show "ht_lookup (tbl\<lparr>table := (table tbl)[slot tbl n := ?c @ [?t]]\<rparr>) m = ((ht_lookup tbl)(n \<mapsto> v)) m"
      using assms(2)
      by (subst ht_update_slot(2) [OF assms(1) pre])
        (auto simp: chain_find_append ht_lookup_def split: option.splits)
  qed
qed

lemma ht_unlink:
  assumes "ht_inv tbl"
  shows "ht_inv (tbl\<lparr>table := (table tbl)[slot tbl n := chain_unlink n (table tbl ! slot tbl n)]\<rparr>)"
    and "ht_lookup (tbl\<lparr>table := (table tbl)[slot tbl n := chain_unlink n (table tbl ! slot tbl n)]\<rparr>) =
      (ht_lookup tbl)(n := None)"
proof -
  let ?c = "table tbl ! slot tbl n"
  note c = ht_chain [OF assms, of n]
  have "distinct (map tname (chain_unlink n ?c))"
    using c(1) by (simp only: chain_unlink_names) (rule distinct_remove1)
  moreover have "\<forall>m\<in>set (map tname (chain_unlink n ?c)). slot tbl m = slot tbl n"
    using c(2) by (simp only: chain_unlink_names) (meson notin_set_remove1)
  ultimately have pre: "distinct (map tname (chain_unlink n ?c))"
    "\<forall>m\<in>set (map tname (chain_unlink n ?c)). slot tbl m = slot tbl n" .
  show "ht_inv (tbl\<lparr>table := (table tbl)[slot tbl n := chain_unlink n ?c]\<rparr>)"
    using ht_update_slot(1) [OF assms pre] .
  show "ht_lookup (tbl\<lparr>table := (table tbl)[slot tbl n := chain_unlink n ?c]\<rparr>) = (ht_lookup tbl)(n := None)"
  proof
    fix m
    show "ht_lookup (tbl\<lparr>table := (table tbl)[slot tbl n := chain_unlink n ?c]\<rparr>) m = ((ht_lookup tbl)(n := None)) m"
      by (subst ht_update_slot(2) [OF assms pre]) (simp add: chain_find_unlink [OF c(1)] ht_lookup_def)
  qed
qed

lemma findToken_inv:
  "ht_inv tbl \<Longrightarrow> findToken tbl n False = Some (chain_find n (table tbl ! slot tbl n), tbl)"
  "ht_inv tbl \<Longrightarrow> findToken tbl n True = Some (chain_find n (table tbl ! slot tbl n),
     tbl\<lparr>table := (table tbl)[slot tbl n := chain_unlink n (table tbl ! slot tbl n)]\<rparr>)"
  by (simp_all add: findToken_def slot_less Let_def)

text \<open>The three operations on well-formed tables, every outcome.\<close>

lemma setHashValue_outcome:
  assumes "ht_inv tbl"
  obtains (replaced) old tbl' where "ht_lookup tbl n = Some old"
      "setHashValue e (Some tbl) (Some n) v r = Some (0, if r then Some old else None, Some tbl')"
      "ht_inv tbl'" "ht_lookup tbl' = (ht_lookup tbl)(n \<mapsto> v)"
  | (added) tbl' where "ht_lookup tbl n = None" "ht_tkmalloc e 12" "ht_malloc e (length n + 1)"
      "setHashValue e (Some tbl) (Some n) v r = Some (0, if r then Some None else None, Some tbl')"
      "ht_inv tbl'" "ht_lookup tbl' = (ht_lookup tbl)(n \<mapsto> v)"
  | (no_memory) "ht_lookup tbl n = None" "\<not> (ht_tkmalloc e 12 \<and> ht_malloc e (length n + 1))"
      "setHashValue e (Some tbl) (Some n) v r = Some (- 1, if r then Some None else None, Some tbl)"
proof (cases "chain_find n (table tbl ! slot tbl n)")
  case (Some t)
  then have l: "ht_lookup tbl n = Some (tvalue t)" by (simp add: ht_lookup_def)
  then have "ht_lookup tbl n \<noteq> None" by simp
  note ht = ht_assign [OF assms this, of v]
  show thesis
    by (rule replaced [OF l _ ht]) (simp add: setHashValue_def findToken_inv assms Some Let_def)
next
  case None
  then have l: "ht_lookup tbl n = None" by (simp add: ht_lookup_def)
  note ht = ht_append [OF assms l, of v]
  show thesis
  proof (cases "ht_tkmalloc e 12 \<and> ht_malloc e (length n + 1)")
    case True
    then have "setHashValue e (Some tbl) (Some n) v r = Some (0, if r then Some None else None,
        Some (tbl\<lparr>table := (table tbl)[slot tbl n := (table tbl ! slot tbl n) @ [\<lparr>tname = n, tvalue = v\<rparr>]]\<rparr>))"
      by (simp add: setHashValue_def findToken_inv assms None Let_def createToken_def hashStrdup_def slot_less)
    from added [OF l _ _ this ht] True show thesis by simp
  next
    case False
    then have "setHashValue e (Some tbl) (Some n) v r = Some (- 1, if r then Some None else None, Some tbl)"
      by (auto simp: setHashValue_def findToken_inv assms None Let_def createToken_def hashStrdup_def)
    from no_memory [OF l False this] show thesis .
  qed
qed

lemma getHashValue_inv:
  assumes "ht_inv tbl"
  shows "getHashValue (Some tbl) (Some n) True =
    (case ht_lookup tbl n of None \<Rightarrow> Some (- 1, None, Some tbl) | Some v \<Rightarrow> Some (0, Some v, Some tbl))"
  by (simp add: getHashValue_def findToken_inv assms ht_lookup_def split: option.splits)

lemma delHashValue_inv:
  assumes "ht_inv tbl"
  shows "\<exists>tbl'. delHashValue (Some tbl) (Some n) r =
      (case ht_lookup tbl n of None \<Rightarrow> Some (- 1, None, Some tbl')
         | Some v \<Rightarrow> Some (0, if r then Some v else None, Some tbl')) \<and>
      ht_inv tbl' \<and> ht_lookup tbl' = (ht_lookup tbl)(n := None)"
  using ht_unlink [OF assms, of n]
  by (auto simp: delHashValue_def findToken_inv assms ht_lookup_def deleteToken_def split: option.splits)

section \<open>The table as an associative store\<close>

definition ht_ok :: ht_alloc where
  "ht_ok = \<lparr>ht_malloc = (\<lambda>_. True), ht_free = Some (), ht_tkmalloc = (\<lambda>_. True), ht_tkfree = Some ()\<rparr>"

definition ht_put :: "string \<Rightarrow> 'v option \<Rightarrow> 'v tableInfo \<Rightarrow> 'v tableInfo" where
  "ht_put n v tbl =
     (case setHashValue ht_ok (Some tbl) (Some n) v False of
        Some (_, _, Some tbl') \<Rightarrow> tbl' | _ \<Rightarrow> tbl)"

definition ht_del :: "string \<Rightarrow> 'v tableInfo \<Rightarrow> 'v tableInfo" where
  "ht_del n tbl =
     (case delHashValue (Some tbl) (Some n) False of
        Some (_, _, Some tbl') \<Rightarrow> tbl' | _ \<Rightarrow> tbl)"

lemma ht_put_inv:
  assumes "ht_inv tbl"
  shows "ht_inv (ht_put n v tbl) \<and> ht_lookup (ht_put n v tbl) = (ht_lookup tbl)(n \<mapsto> v)"
  using assms by (rule setHashValue_outcome [of tbl n ht_ok v False]) (auto simp: ht_put_def ht_ok_def)

lemma ht_del_inv:
  assumes "ht_inv tbl"
  shows "ht_inv (ht_del n tbl) \<and> ht_lookup (ht_del n tbl) = (ht_lookup tbl)(n := None)"
  using delHashValue_inv [OF assms, of n False] by (auto simp: ht_del_def split: option.splits)

interpretation ht: assoc_store ht_inv ht_lookup ht_put ht_del
  by unfold_locales (simp_all add: ht_put_inv ht_del_inv)

lemma initHashTable_inv:
  assumes "initHashTable e p hs = (0, Some tbl)"
  shows "ht_inv tbl \<and> ht_lookup tbl = Map.empty"
proof -
  have hs: "hs \<noteq> 0" "tbl = \<lparr>hashSize = realHashSize hs, table = replicate (unat (realHashSize hs)) []\<rparr>"
    using assms by (auto simp: initHashTable_def Let_def realHashSize_0 split: if_splits)
  obtain k where "k \<le> 12" "realHashSize hs = 2 ^ k" using realHashSize_power [OF hs(1)] by blast
  then have i: "ht_inv tbl" using hs(2) by (auto simp: ht_inv_def)
  moreover have "ht_lookup tbl n = None" for n
    using slot_less [OF i, of n] hs(2) by (simp add: ht_lookup_def)
  ultimately show ?thesis by auto
qed

section \<open>Iteration\<close>

definition ht_entries :: "'v tableInfo \<Rightarrow> (string \<times> 'v option) list" where
  "ht_entries tbl = concat (map (map (\<lambda>t. (tname t, tvalue t))) (table tbl))"

definition collect :: "string \<Rightarrow> 'v option \<Rightarrow> (string \<times> 'v option) list \<Rightarrow> iterCtrl \<times> (string \<times> 'v option) list" where
  "collect n v acc = (ITERCTRL_CONTINUE, acc @ [(n, v)])"

lemma iter_chain_collect:
  "iter_chain collect c acc = (ITERCTRL_CONTINUE, acc @ map (\<lambda>t. (tname t, tvalue t)) c)"
  by (induction c arbitrary: acc) (simp_all add: collect_def)

lemma iter_slots_collect:
  "iter_slots collect (length cs) cs acc =
     Some (ITERCTRL_CONTINUE, acc @ concat (map (map (\<lambda>t. (tname t, tvalue t))) cs))"
  by (induction cs arbitrary: acc) (simp_all add: iter_chain_collect)

lemma ht_names_distinct:
  assumes "ht_inv tbl" "k \<le> length (table tbl)"
  shows "distinct (concat (map (map tname) (take k (table tbl)))) \<and>
    (\<forall>n \<in> set (concat (map (map tname) (take k (table tbl)))). slot tbl n < k)"
  using assms(2)
proof (induction k)
  case (Suc k)
  let ?N = "\<lambda>k. concat (map (map tname) (take k (table tbl)))"
  have IH: "distinct (?N k)" "\<And>n. n \<in> set (?N k) \<Longrightarrow> slot tbl n < k" using Suc by auto
  have k: "distinct (map tname (table tbl ! k))" "\<And>n. n \<in> set (map tname (table tbl ! k)) \<Longrightarrow> slot tbl n = k"
    using assms(1) Suc.prems by (auto simp: ht_inv_def)
  have eq: "?N (Suc k) = ?N k @ map tname (table tbl ! k)"
    using Suc.prems by (simp add: take_Suc_conv_app_nth)
  have "set (?N k) \<inter> set (map tname (table tbl ! k)) = {}" using IH(2) k(2) by fastforce
  then show ?case unfolding eq distinct_append set_append
    using IH k by (metis UnE less_Suc_eq)
qed simp

lemma ht_entries_lookup:
  assumes "ht_inv tbl"
  shows "distinct (map fst (ht_entries tbl))" "map_of (ht_entries tbl) = ht_lookup tbl"
proof -
  have "map fst (ht_entries tbl) = concat (map (map tname) (table tbl))"
    by (simp add: ht_entries_def map_concat comp_def)
  then show d: "distinct (map fst (ht_entries tbl))"
    using ht_names_distinct [OF assms order_refl] by simp
  have "(n, v) \<in> set (ht_entries tbl) \<longleftrightarrow> ht_lookup tbl n = Some v" for n v
  proof
    assume "(n, v) \<in> set (ht_entries tbl)"
    then obtain c t where c: "c \<in> set (table tbl)" and t: "t \<in> set c" "tname t = n" "tvalue t = v"
      by (auto simp: ht_entries_def)
    then obtain i where i: "i < length (table tbl)" "table tbl ! i = c" by (auto simp: in_set_conv_nth)
    then have "slot tbl n = i" using t assms by (auto simp: ht_inv_def)
    moreover have "chain_find n (table tbl ! i) = Some t"
      using t i assms chain_find_member [of c t] by (auto simp: ht_inv_def)
    ultimately show "ht_lookup tbl n = Some v" using t by (simp add: ht_lookup_def)
  next
    assume "ht_lookup tbl n = Some v"
    then obtain t where "chain_find n (table tbl ! slot tbl n) = Some t" "tvalue t = v"
      by (auto simp: ht_lookup_def)
    then show "(n, v) \<in> set (ht_entries tbl)"
      using slot_less [OF assms, of n] chain_find_name [of n _ t]
      by (force simp: ht_entries_def)
  qed
  then show "map_of (ht_entries tbl) = ht_lookup tbl"
    using d by (intro ext) (metis map_of_SomeD map_of_is_SomeI not_None_eq option.exhaust)
qed

section \<open>Properties\<close>

text \<open>
  C2. The hash table implements a finite map.  On every well-formed table, for every key:
  \<open>getHashValue\<close> returns the stored value or -1; \<open>setHashValue\<close> stores the value (reporting the old
  one, or null for a new key, through \<open>retval\<close>) whenever the key exists or the two allocations
  succeed, and otherwise returns -1 and changes nothing; \<open>delHashValue\<close> removes the key and reports
  its value, or returns -1.  No call indexes the bucket array out of range, and well-formedness
  is kept.
\<close>

theorem hash_table_refines_map:
  assumes "ht_inv tbl"
  shows "getHashValue (Some tbl) (Some n) True =
      (case ht_lookup tbl n of None \<Rightarrow> Some (- 1, None, Some tbl) | Some v \<Rightarrow> Some (0, Some v, Some tbl)) \<and>
    (\<exists>tbl'. setHashValue e (Some tbl) (Some n) v True =
        (if ht_lookup tbl n = None \<and> \<not> (ht_tkmalloc e 12 \<and> ht_malloc e (length n + 1))
         then Some (- 1, Some None, Some tbl)
         else Some (0, Some (case ht_lookup tbl n of None \<Rightarrow> None | Some old \<Rightarrow> old), Some tbl')) \<and>
      ht_inv tbl' \<and> ht_lookup tbl' = (ht_lookup tbl)(n \<mapsto> v)) \<and>
    (\<exists>tbl'. delHashValue (Some tbl) (Some n) True =
        (case ht_lookup tbl n of None \<Rightarrow> Some (- 1, None, Some tbl') | Some v \<Rightarrow> Some (0, Some v, Some tbl')) \<and>
      ht_inv tbl' \<and> ht_lookup tbl' = (ht_lookup tbl)(n := None))"
proof (intro conjI)
  show "\<exists>tbl'. setHashValue e (Some tbl) (Some n) v True =
        (if ht_lookup tbl n = None \<and> \<not> (ht_tkmalloc e 12 \<and> ht_malloc e (length n + 1))
         then Some (- 1, Some None, Some tbl)
         else Some (0, Some (case ht_lookup tbl n of None \<Rightarrow> None | Some old \<Rightarrow> old), Some tbl')) \<and>
      ht_inv tbl' \<and> ht_lookup tbl' = (ht_lookup tbl)(n \<mapsto> v)"
    using assms
  proof (cases rule: setHashValue_outcome [of tbl n e v True])
    case no_memory
    then show ?thesis using ht.inv_put [OF assms] ht.lookup_put [OF assms]
      by (intro exI [of _ "ht_put n v tbl"]) auto
  qed auto
  show "\<exists>tbl'. delHashValue (Some tbl) (Some n) True =
        (case ht_lookup tbl n of None \<Rightarrow> Some (- 1, None, Some tbl') | Some v \<Rightarrow> Some (0, Some v, Some tbl')) \<and>
      ht_inv tbl' \<and> ht_lookup tbl' = (ht_lookup tbl)(n := None)"
    using delHashValue_inv [OF assms, of n True] by (cases "ht_lookup tbl n") auto
qed (rule getHashValue_inv [OF assms])

theorem hash_table_refines_map_witness:
  "getHashValue (Some \<lparr>hashSize = 1, table = [[\<lparr>tname = ''port'', tvalue = Some (5060 :: nat)\<rparr>]]\<rparr>)
     (Some ''port'') True =
   Some (0, Some (Some 5060), Some \<lparr>hashSize = 1, table = [[\<lparr>tname = ''port'', tvalue = Some 5060\<rparr>]]\<rparr>)"
proof -
  let ?t = "\<lparr>hashSize = 1, table = [[\<lparr>tname = ''port'', tvalue = Some (5060 :: nat)\<rparr>]]\<rparr>"
  have slot: "slot ?t n = 0" for n by (simp add: slot_def)
  have "ht_inv ?t" by (auto simp: ht_inv_def slot intro: exI [of _ 0])
  from hash_table_refines_map [OF this, of "''port''"] show ?thesis
    by (simp add: ht_lookup_def slot)
qed

text \<open>
  Creating a table: for a non-null handle and a successful allocation, every requested size
  above zero gives an empty table whose number of buckets is a power of two, at most 4096, not
  above the request and more than half of it (or 4096); a size of zero is refused.
\<close>

theorem initHashTable_size:
  assumes "hs \<noteq> 0" "\<forall>sz. ht_malloc e sz"
  shows "\<exists>tbl k. initHashTable e True hs = (0, Some tbl) \<and> ht_inv tbl \<and> ht_lookup tbl = Map.empty \<and>
    length (table tbl) = 2 ^ k \<and> k \<le> 12 \<and> 2 ^ k \<le> unat hs \<and> (unat hs < 2 * 2 ^ k \<or> k = 12) \<and>
    initHashTable e True 0 = (- 1, None :: 'v tableInfo option)"
proof -
  obtain k where k: "k \<le> 12" "realHashSize hs = 2 ^ k" "2 ^ k \<le> unat hs" "unat hs < 2 ^ Suc k \<or> k = 12"
    using realHashSize_power [OF assms(1)] by blast
  let ?t = "\<lparr>hashSize = 2 ^ k, table = replicate (unat (2 ^ k :: u32)) []\<rparr>"
  have "unat (2 ^ k :: u32) = 2 ^ k" using k(1) by (simp add: unat_pow2)
  then have "(2 ^ k :: u32) \<noteq> 0" by (metis power_not_zero unat_0 zero_neq_numeral)
  then have "initHashTable e True hs = (0, Some ?t)"
    using assms(2) k(2) by (simp add: initHashTable_def Let_def)
  moreover have "initHashTable e True 0 = (- 1, None :: 'v tableInfo option)"
    by (simp add: initHashTable_def realHashSize_0 Let_def)
  ultimately show ?thesis
    using initHashTable_inv [of e True hs ?t] k \<open>unat (2 ^ k :: u32) = 2 ^ k\<close>
    by (intro exI [of _ ?t] exI [of _ k]) auto
qed

theorem initHashTable_size_witness:
  "\<exists>tbl k. initHashTable ht_ok True 100 = (0, Some (tbl :: nat tableInfo)) \<and> length (table tbl) = 2 ^ k \<and>
     2 ^ k \<le> (100 :: nat)"
  using initHashTable_size [of 100 ht_ok] by (auto simp: ht_ok_def)

text \<open>
  Iteration is exhaustive: \<open>iterHashTable\<close> with a callback that never asks to stop visits
  every key exactly once, with its current value, and returns 0.
\<close>

theorem iterHashTable_visits_all:
  assumes "ht_inv tbl"
  shows "\<exists>es. iterHashTable (Some tbl) (Some collect) [] = Some (0, es) \<and>
    distinct (map fst es) \<and> map_of es = ht_lookup tbl"
proof -
  have "iter_slots collect (unat (hashSize tbl)) (table tbl) [] = Some (ITERCTRL_CONTINUE, ht_entries tbl)"
    using iter_slots_collect [of "table tbl" "[]"] assms by (simp add: ht_inv_def ht_entries_def)
  then show ?thesis using ht_entries_lookup [OF assms] by (simp add: iterHashTable_def)
qed

theorem iterHashTable_visits_all_witness:
  "\<exists>es. iterHashTable (Some \<lparr>hashSize = 1, table = [[\<lparr>tname = ''a'', tvalue = Some (7 :: nat)\<rparr>]]\<rparr>) (Some collect) [] =
     Some (0, es) \<and> distinct (map fst es)"
proof -
  let ?t = "\<lparr>hashSize = 1, table = [[\<lparr>tname = ''a'', tvalue = Some (7 :: nat)\<rparr>]]\<rparr>"
  have slot: "slot ?t n = 0" for n by (simp add: slot_def)
  have "ht_inv ?t" by (auto simp: ht_inv_def slot intro: exI [of _ 0])
  from iterHashTable_visits_all [OF this] show ?thesis by blast
qed

text \<open>
  Loading a list of key/value pairs and reading back: after any sequence of insertions into
  a fresh table, \<open>getHashValue\<close> answers for every key with the value of the last insertion under
  that key, and with -1 for keys never inserted, whatever collisions occurred.
\<close>

theorem hash_table_bulk_load:
  assumes "initHashTable e p hs = (0, Some tbl)"
  shows "getHashValue (Some (fold (\<lambda>(k, v). ht_put k v) kvs tbl)) (Some n) True =
    (case map_of (rev kvs) n of
       None \<Rightarrow> Some (- 1, None, Some (fold (\<lambda>(k, v). ht_put k v) kvs tbl))
     | Some v \<Rightarrow> Some (0, Some v, Some (fold (\<lambda>(k, v). ht_put k v) kvs tbl)))"
proof -
  note i = initHashTable_inv [OF assms]
  have "ht_lookup (fold (\<lambda>(k, v). ht_put k v) kvs tbl) = map_of (rev kvs)"
    using ht.lookup_puts(2) [of tbl kvs] i by simp
  then show ?thesis using getHashValue_inv [OF ht.lookup_puts(1)] i by metis
qed

theorem hash_table_bulk_load_witness:
  "\<exists>tbl. initHashTable ht_ok True 1 = (0, Some tbl) \<and>
    fst (the (getHashValue (Some (fold (\<lambda>(k, v). ht_put k v) [(''a'', Some (1 :: nat)), (''a'', Some 2)] tbl))
      (Some ''a'') True)) = 0"
proof -
  obtain k where k: "realHashSize 1 = 2 ^ k" "2 ^ k \<le> (1 :: nat)"
    using realHashSize_power [of 1] by auto
  then have "k = 0" using one_less_power [of "2 :: nat" k] by (cases "k = 0") auto
  then have "realHashSize 1 = 1" using k by simp
  then have "\<exists>tbl. initHashTable ht_ok True 1 = (0, Some (tbl :: nat tableInfo))"
    by (simp add: initHashTable_def ht_ok_def Let_def)
  then obtain tbl :: "nat tableInfo" where "initHashTable ht_ok True 1 = (0, Some tbl)" by blast
  then show ?thesis
    using hash_table_bulk_load [of ht_ok True 1 tbl "[(''a'', Some 1), (''a'', Some 2)]" "''a''"]
    by (intro exI [of _ tbl]) simp
qed

end
