(* ===== verification/Time_List.thy ===== *)
theory Time_List
  imports Ckits_Prelude
begin

text \<open>
  \<open>libckits/timeList.c\<close>, the delta list of timers, in the build without \<open>THREAD_SAFE\<close> (the macro
  is commented out in \<open>timeList.h\<close>).  Each entry stores the time that remains after its
  predecessor has fired.  The ring of entries behind \<open>eventHead\<close> is the list of its nodes (that
  the pointer operations are list operations is shown in the theory of \<open>list.h\<close>); nodes carry
  their address, a null \<open>timeListType *\<close> is \<open>None\<close>, and the result of \<open>gettimeofday\<close> is the
  argument \<open>now\<close>.

  The abstract view is the agenda: every timer with the microseconds until it is due.  Each
  operation is shown to act on the agenda as documented, and an inductive definition of the
  reachable timer lists relates firing times to the deadlines that were asked for.
\<close>

section \<open>Data\<close>

record c_timeval =
  tv_sec :: int
  tv_usec :: int

record ('h, 'p) alarmEventNode =
  naddr :: nat \<comment> \<open>the address of the node\<close>
  tvRemain :: c_timeval
  cbTimeout :: "'h option"
  cbParam :: "'p option"
  reserved :: u32
  idToken :: u32

record ('h, 'p) timeListType =
  eventHead :: "('h, 'p) alarmEventNode"
  entries :: "('h, 'p) alarmEventNode list" \<comment> \<open>the ring behind \<open>eventHead.list\<close>\<close>
  listToken :: u32
  tvLastSync :: c_timeval

definition MILLION :: int where "MILLION = 1000000"

definition DELAY_ZERO :: c_timeval where "DELAY_ZERO = \<lparr>tv_sec = 0, tv_usec = 0\<rparr>"

definition infinity :: c_timeval where
  "infinity = \<lparr>tv_sec = 0x7FFFFFFF, tv_usec = MILLION - 1\<rparr>"

section \<open>Operations\<close>

unbundle bit_operations_syntax

fun initTimeList :: "c_timeval \<Rightarrow> ('h, 'p) timeListType option \<Rightarrow> int \<times> ('h, 'p) timeListType option" where
  "initTimeList now None = (- 1, None)"
| "initTimeList now (Some lst) =
     (0, Some (lst\<lparr>eventHead := (eventHead lst)\<lparr>tvRemain := infinity, cbTimeout := None, idToken := - 1\<rparr>,
                   entries := [], tvLastSync := now, listToken := 1\<rparr>))"

fun uninitTimeList :: "('h, 'p) timeListType option \<Rightarrow> ('h, 'p) timeListType option" where
  \<comment> \<open>without the mutex there is nothing to destroy\<close>
  "uninitTimeList lst = lst"

definition time_interval :: "c_timeval \<Rightarrow> c_timeval \<Rightarrow> c_timeval" where
  "time_interval tv2 tv1 =
     (let s = c_int (tv_sec tv2 - tv_sec tv1);
          u = c_int (tv_usec tv2 - tv_usec tv1);
          u' = (if u < 0 then c_int (u + MILLION) else u);
          s' = (if u < 0 then c_int (s - 1) else s)
      in if s' < 0 then DELAY_ZERO else \<lparr>tv_sec = s', tv_usec = u'\<rparr>)"

definition time_overthan :: "c_timeval \<Rightarrow> c_timeval \<Rightarrow> bool" where
  "time_overthan tv2 tv1 \<longleftrightarrow>
     tv_sec tv2 > tv_sec tv1 \<or> (tv_sec tv2 = tv_sec tv1 \<and> tv_usec tv2 \<ge> tv_usec tv1)"

fun sync_loop :: "c_timeval \<Rightarrow> ('h, 'p) alarmEventNode list \<Rightarrow> ('h, 'p) alarmEventNode list" where
  "sync_loop since [] = []"
| "sync_loop since (cur # rest) =
     (if time_overthan since (tvRemain cur)
      then cur\<lparr>tvRemain := DELAY_ZERO\<rparr> # sync_loop (time_interval since (tvRemain cur)) rest
      else cur\<lparr>tvRemain := time_interval (tvRemain cur) since\<rparr> # rest)"

definition synchronize :: "c_timeval \<Rightarrow> ('h, 'p) timeListType \<Rightarrow> ('h, 'p) timeListType" where
  "synchronize now lst =
     lst\<lparr>tvLastSync := now, entries := sync_loop (time_interval now (tvLastSync lst)) (entries lst)\<rparr>"

fun add_loop :: "('h, 'p) alarmEventNode \<Rightarrow> ('h, 'p) alarmEventNode list \<Rightarrow> ('h, 'p) alarmEventNode list" where
  \<comment> \<open>the loop that looks for the insertion point, and \<open>list_add_tail\<close> in front of it\<close>
  "add_loop newEntry [] = [newEntry]"
| "add_loop newEntry (cur # rest) =
     (if time_overthan (tvRemain newEntry) (tvRemain cur)
      then cur # add_loop (newEntry\<lparr>tvRemain := time_interval (tvRemain newEntry) (tvRemain cur)\<rparr>) rest
      else newEntry # cur\<lparr>tvRemain := time_interval (tvRemain cur) (tvRemain newEntry)\<rparr> # rest)"

fun addAlarmEventNode ::
  "c_timeval \<Rightarrow> ('h, 'p) timeListType option \<Rightarrow> ('h, 'p) alarmEventNode \<Rightarrow> int \<times> ('h, 'p) timeListType option" where
  "addAlarmEventNode now None newEntry = (- 1, None)"
| "addAlarmEventNode now (Some lst) newEntry =
     (let lst1 = synchronize now lst
      in (c_int (uint (listToken lst1)),
          Some (lst1\<lparr>entries := add_loop (newEntry\<lparr>idToken := listToken lst1\<rparr>) (entries lst1),
                     listToken := (listToken lst1 + 1) AND 0x0FFFFFFF\<rparr>)))"

definition first_event :: "('h, 'p) timeListType \<Rightarrow> ('h, 'p) alarmEventNode" where
  \<comment> \<open>\<open>list_entry(lst->eventHead.list.next, ...)\<close>: the head itself when the ring is empty\<close>
  "first_event lst = (case entries lst of [] \<Rightarrow> eventHead lst | cur # _ \<Rightarrow> cur)"

fun timeToNextAlarmEvent ::
  "c_timeval \<Rightarrow> ('h, 'p) timeListType option \<Rightarrow> c_timeval \<times> ('h, 'p) timeListType option" where
  "timeToNextAlarmEvent now None = (infinity, None)"
| "timeToNextAlarmEvent now (Some lst) =
     (let lst1 = synchronize now lst in (tvRemain (first_event lst1), Some lst1))"

text \<open>
  \<open>handleAlarmEvent\<close> returns the list and the node it unlinked, whose \<open>cbTimeout\<close>, when not null,
  is called as the last action (the caller of the definition performs the call).  \<open>None\<close>: the head
  itself would be unlinked, which destroys the ring.
\<close>

fun handleAlarmEvent ::
  "c_timeval \<Rightarrow> ('h, 'p) timeListType option \<Rightarrow>
     (('h, 'p) timeListType option \<times> ('h, 'p) alarmEventNode option) option" where
  "handleAlarmEvent now None = Some (None, None)"
| "handleAlarmEvent now (Some lst) =
     (let cur = first_event lst;
          lst1 = (if tv_sec (tvRemain cur) \<noteq> 0 \<or> tv_usec (tvRemain cur) \<noteq> 0 then synchronize now lst else lst);
          cur1 = first_event lst1
      in if tv_sec (tvRemain cur1) = 0 \<and> tv_usec (tvRemain cur1) < 1000 div 2
         then (case entries lst1 of
                 [] \<Rightarrow> None
               | _ # rest \<Rightarrow> Some (Some (lst1\<lparr>entries := rest\<rparr>), Some cur1))
         else Some (Some lst1, None))"

fun queryAlarmEventNode :: "('h, 'p) timeListType option \<Rightarrow> u32 \<Rightarrow> ('h, 'p) alarmEventNode option" where
  "queryAlarmEventNode None token = None"
| "queryAlarmEventNode (Some lst) token = find (\<lambda>cur. token = idToken cur) (entries lst)"

definition add_remain :: "c_timeval \<Rightarrow> c_timeval \<Rightarrow> c_timeval" where
  \<comment> \<open>\<open>next->tvRemain += entry_ptr->tvRemain\<close> with the carry\<close>
  "add_remain nxt e =
     (let s = c_int (tv_sec nxt + tv_sec e); u = c_int (tv_usec nxt + tv_usec e)
      in if u \<ge> MILLION then \<lparr>tv_sec = c_int (s + 1), tv_usec = c_int (u - MILLION)\<rparr>
         else \<lparr>tv_sec = s, tv_usec = u\<rparr>)"

fun unlink_event ::
  "u32 \<Rightarrow> ('h, 'p) alarmEventNode \<Rightarrow> ('h, 'p) alarmEventNode list \<Rightarrow>
     ('h, 'p) alarmEventNode \<times> ('h, 'p) alarmEventNode list" where
  \<comment> \<open>the first entry with the token leaves the ring; its time goes to the next entry or to the head\<close>
  "unlink_event token head [] = (head, [])"
| "unlink_event token head (cur # rest) =
     (if token = idToken cur
      then (case rest of
              [] \<Rightarrow> (head\<lparr>tvRemain := add_remain (tvRemain head) (tvRemain cur)\<rparr>, [])
            | nxt # rest' \<Rightarrow> (head, nxt\<lparr>tvRemain := add_remain (tvRemain nxt) (tvRemain cur)\<rparr> # rest'))
      else map_prod id (Cons cur) (unlink_event token head rest))"

fun delAlarmEventNode ::
  "c_timeval \<Rightarrow> ('h, 'p) timeListType option \<Rightarrow> u32 \<Rightarrow>
     ('h, 'p) alarmEventNode option \<times> ('h, 'p) timeListType option" where
  \<comment> \<open>a node found in the ring has a non-null \<open>next\<close>, so the check for null never returns\<close>
  "delAlarmEventNode now None token = (None, None)"
| "delAlarmEventNode now (Some lst) token =
     (let lst1 = synchronize now lst
      in case queryAlarmEventNode (Some lst1) token of
           None \<Rightarrow> (None, Some lst1)
         | Some entry_ptr \<Rightarrow>
             (case unlink_event token (eventHead lst1) (entries lst1) of
                (head', es') \<Rightarrow> (Some entry_ptr, Some (lst1\<lparr>eventHead := head', entries := es'\<rparr>))))"

definition isTimeListEmpty :: "('h, 'p) timeListType \<Rightarrow> bool" where
  "isTimeListEmpty lst \<longleftrightarrow> entries lst = []"

fun dumpTimeList ::
  "c_timeval \<Rightarrow> ('h, 'p) timeListType option \<Rightarrow>
     int \<times> (u32 \<times> int \<times> int) list \<times> ('h, 'p) timeListType option" where
  \<comment> \<open>the number of entries, the printed triples, and the synchronised list\<close>
  "dumpTimeList now None = (0, [], None)"
| "dumpTimeList now (Some lst) =
     (let lst1 = synchronize now lst
      in (int (length (entries lst1)),
          map (\<lambda>cur. (idToken cur, tv_sec (tvRemain cur), tv_usec (tvRemain cur))) (entries lst1),
          Some lst1))"

section \<open>Time arithmetic\<close>

definition usecs :: "c_timeval \<Rightarrow> int" where
  "usecs tv = tv_sec tv * 1000000 + tv_usec tv"

definition norm_tv :: "c_timeval \<Rightarrow> bool" where
  "norm_tv tv \<longleftrightarrow> 0 \<le> tv_sec tv \<and> tv_sec tv \<le> 2147483647 \<and> 0 \<le> tv_usec tv \<and> tv_usec tv < 1000000"

lemma usecs_bounds:
  assumes "norm_tv tv"
  shows "0 \<le> usecs tv" "usecs tv < 2147483648 * 1000000"
  using assms by (auto simp: usecs_def norm_tv_def)

lemma usecs_zero [simp]: "usecs DELAY_ZERO = 0" "norm_tv DELAY_ZERO"
  by (simp_all add: usecs_def DELAY_ZERO_def norm_tv_def)

lemma time_overthan_usecs:
  assumes "norm_tv a" "norm_tv b"
  shows "time_overthan a b \<longleftrightarrow> usecs b \<le> usecs a"
  using assms by (auto simp: time_overthan_def usecs_def norm_tv_def)

lemma time_interval_usecs:
  assumes "norm_tv a" "norm_tv b"
  shows "norm_tv (time_interval a b)" "usecs (time_interval a b) = max 0 (usecs a - usecs b)"
  using assms
  by (auto simp: time_interval_def usecs_def norm_tv_def Let_def c_int_id MILLION_def DELAY_ZERO_def)

lemma add_remain_usecs:
  assumes "norm_tv a" "norm_tv b" "usecs a + usecs b < 2147483648 * 1000000"
  shows "norm_tv (add_remain a b)" "usecs (add_remain a b) = usecs a + usecs b"
  using assms by (auto simp: add_remain_def usecs_def norm_tv_def Let_def c_int_id MILLION_def)

section \<open>The agenda\<close>

text \<open>
  \<open>agenda t es\<close>: the entries with the time they are due, when the first one counts from \<open>t\<close>.
  Entries are identified by what the list does not change: the node with its \<open>tvRemain\<close> erased.
\<close>

definition bare :: "('h, 'p) alarmEventNode \<Rightarrow> ('h, 'p) alarmEventNode" where
  "bare n = n\<lparr>tvRemain := DELAY_ZERO\<rparr>"

fun agenda :: "int \<Rightarrow> ('h, 'p) alarmEventNode list \<Rightarrow> (int \<times> ('h, 'p) alarmEventNode) list" where
  "agenda t [] = []"
| "agenda t (n # ns) = (t + usecs (tvRemain n), bare n) # agenda (t + usecs (tvRemain n)) ns"

definition tl_inv :: "('h, 'p) timeListType \<Rightarrow> bool" where
  "tl_inv lst \<longleftrightarrow> norm_tv (tvLastSync lst) \<and> (\<forall>n \<in> set (entries lst). norm_tv (tvRemain n)) \<and>
     (\<forall>d \<in> set (map fst (agenda 0 (entries lst))). d < 2147483648 * 1000000) \<and>
     distinct (map naddr (entries lst))"

definition insert_due :: "int \<Rightarrow> 'n \<Rightarrow> (int \<times> 'n) list \<Rightarrow> (int \<times> 'n) list" where
  "insert_due r x ag = takeWhile (\<lambda>(d, _). d \<le> r) ag @ (r, x) # dropWhile (\<lambda>(d, _). d \<le> r) ag"

lemma bare_sel [simp]:
  "naddr (bare n) = naddr n" "idToken (bare n) = idToken n" "cbTimeout (bare n) = cbTimeout n"
  "cbParam (bare n) = cbParam n" "reserved (bare n) = reserved n"
  "bare (n\<lparr>tvRemain := tv\<rparr>) = bare n"
  by (simp_all add: bare_def)

lemma agenda_shift: "agenda (t + s) ns = map (\<lambda>(d, n). (d + s, n)) (agenda t ns)"
proof (induction ns arbitrary: t)
  case (Cons n ns)
  have "t + s + usecs (tvRemain n) = (t + usecs (tvRemain n)) + s" by simp
  then show ?case using Cons by (simp only: agenda.simps list.map) simp
qed simp

lemma agenda_snd: "map snd (agenda t ns) = map bare ns"
  by (induction ns arbitrary: t) auto

lemma agenda_ge:
  assumes "\<forall>n \<in> set ns. norm_tv (tvRemain n)" "(d, x) \<in> set (agenda t ns)"
  shows "t \<le> d"
  using assms
proof (induction ns arbitrary: t)
  case (Cons n ns)
  then show ?case using usecs_bounds(1) [of "tvRemain n"] by fastforce
qed simp

lemma agenda_sorted:
  assumes "\<forall>n \<in> set ns. norm_tv (tvRemain n)"
  shows "sorted (map fst (agenda t ns))"
  using assms
proof (induction ns arbitrary: t)
  case (Cons n ns)
  then show ?case using agenda_ge by fastforce
qed simp

subsection \<open>Synchronising\<close>

lemma sync_loop_norm:
  assumes "norm_tv D" "\<forall>n \<in> set ns. norm_tv (tvRemain n)"
  shows "\<forall>n \<in> set (sync_loop D ns). norm_tv (tvRemain n)"
  using assms
proof (induction D ns rule: sync_loop.induct)
  case (2 D n ns)
  then show ?case by (auto simp: time_interval_usecs)
qed simp

lemma sync_loop_agenda:
  assumes "norm_tv D" "\<forall>n \<in> set ns. norm_tv (tvRemain n)"
  shows "agenda 0 (sync_loop D ns) = map (\<lambda>(d, n). (max 0 (d - usecs D), n)) (agenda 0 ns)"
  using assms
proof (induction D ns rule: sync_loop.induct)
  case (2 D n ns)
  let ?r = "usecs (tvRemain n)"
  have n: "norm_tv (tvRemain n)" and ns: "\<forall>n \<in> set ns. norm_tv (tvRemain n)" using "2.prems" by auto
  have sh: "agenda ?r ns = map (\<lambda>(d, n). (d + ?r, n)) (agenda 0 ns)"
    using agenda_shift [of 0 ?r ns] by simp
  show ?case
  proof (cases "time_overthan D (tvRemain n)")
    case True
    then have le: "?r \<le> usecs D" using time_overthan_usecs "2.prems"(1) n by blast
    have "usecs (time_interval D (tvRemain n)) = usecs D - ?r"
      using time_interval_usecs(2) [OF "2.prems"(1) n] le by simp
    then show ?thesis
      using True "2.IH" [OF True time_interval_usecs(1) [OF "2.prems"(1) n] ns] le
      by (simp add: sh diff_diff_eq2 case_prod_beta)
  next
    case False
    then have lt: "usecs D < ?r" using time_overthan_usecs "2.prems"(1) n by fastforce
    then have i: "usecs (time_interval (tvRemain n) D) = ?r - usecs D"
      using time_interval_usecs(2) [OF n "2.prems"(1)] by simp
    have "agenda (?r - usecs D) ns = map (\<lambda>(d, n). (d + (?r - usecs D), n)) (agenda 0 ns)"
      using agenda_shift [of 0 "?r - usecs D" ns] by simp
    moreover have "d + (?r - usecs D) = max 0 (d + ?r - usecs D)" if "(d, x) \<in> set (agenda 0 ns)" for d x
      using agenda_ge [OF ns that] lt by simp
    ultimately show ?thesis using False i lt by (auto simp: sh)
  qed
qed simp

lemma sync_loop_addrs [simp]: "map bare (sync_loop D ns) = map bare ns"
  by (induction D ns rule: sync_loop.induct) auto

lemma map_naddr_bare: "map naddr ns = map naddr (map bare ns)"
  by simp

lemma synchronize_fields [simp]:
  "tvLastSync (synchronize now lst) = now" "listToken (synchronize now lst) = listToken lst"
  "eventHead (synchronize now lst) = eventHead lst"
  "map bare (entries (synchronize now lst)) = map bare (entries lst)"
  "entries (synchronize now lst) = [] \<longleftrightarrow> entries lst = []"
proof -
  show "map bare (entries (synchronize now lst)) = map bare (entries lst)"
    by (simp add: synchronize_def)
  then show "entries (synchronize now lst) = [] \<longleftrightarrow> entries lst = []"
    by (metis map_is_Nil_conv)
qed (simp_all add: synchronize_def)

lemma synchronize_nil [simp]: "entries lst = [] \<Longrightarrow> entries (synchronize now lst) = []"
  by simp

lemma synchronize_agenda:
  assumes "tl_inv lst" "norm_tv now"
  shows "tl_inv (synchronize now lst)"
    and "agenda 0 (entries (synchronize now lst)) =
      map (\<lambda>(d, n). (max 0 (d - max 0 (usecs now - usecs (tvLastSync lst))), n)) (agenda 0 (entries lst))"
proof -
  let ?D = "time_interval now (tvLastSync lst)"
  have i: "norm_tv ?D" "usecs ?D = max 0 (usecs now - usecs (tvLastSync lst))"
    using assms time_interval_usecs by (auto simp: tl_inv_def)
  have e: "entries (synchronize now lst) = sync_loop ?D (entries lst)"
    by (simp add: synchronize_def)
  show a: "agenda 0 (entries (synchronize now lst)) =
      map (\<lambda>(d, n). (max 0 (d - max 0 (usecs now - usecs (tvLastSync lst))), n)) (agenda 0 (entries lst))"
    using sync_loop_agenda [OF i(1), of "entries lst"] assms(1) i(2) by (auto simp: e tl_inv_def)
  have "distinct (map naddr (entries (synchronize now lst)))"
    using assms(1) map_naddr_bare synchronize_fields(4) [of now lst] unfolding tl_inv_def by metis
  moreover have "max 0 (d - max 0 s) < B" if "d < B" "0 < B" for d s B :: int
    using that by simp
  then have "\<forall>d \<in> set (map fst (agenda 0 (entries (synchronize now lst)))). d < 2147483648 * 1000000"
    using assms(1) by (fastforce simp: a tl_inv_def)
  ultimately show "tl_inv (synchronize now lst)"
    using sync_loop_norm [OF i(1), of "entries lst"] assms by (simp add: e tl_inv_def)
qed

subsection \<open>Adding\<close>

lemma insert_due_simps [simp]:
  "insert_due r x [] = [(r, x)]"
  "insert_due r x ((c, n) # ag) = (if c \<le> r then (c, n) # insert_due r x ag else (r, x) # (c, n) # ag)"
  by (simp_all add: insert_due_def)

lemma insert_due_shift:
  "map (\<lambda>(d, n). (d + c, n)) (insert_due r x ag) = insert_due (r + c) x (map (\<lambda>(d, n). (d + c, n)) ag)"
  by (induction ag) auto

lemma insert_due_set [simp]: "set (insert_due r x ag) = insert (r, x) (set ag)"
  by (induction ag) (auto split: if_splits)

lemma insert_due_snd: "set (map snd (insert_due r x ag)) = insert x (set (map snd ag))"
  by auto

lemma add_loop_agenda:
  assumes "norm_tv (tvRemain new)" "\<forall>n \<in> set ns. norm_tv (tvRemain n)"
  shows "agenda 0 (add_loop new ns) = insert_due (usecs (tvRemain new)) (bare new) (agenda 0 ns) \<and>
    (\<forall>n \<in> set (add_loop new ns). norm_tv (tvRemain n))"
  using assms
proof (induction new ns rule: add_loop.induct)
  case (2 new cur rest)
  let ?c = "usecs (tvRemain cur)"
  have cur: "norm_tv (tvRemain cur)" and rest: "\<forall>n \<in> set rest. norm_tv (tvRemain n)"
    using "2.prems" by auto
  have sh: "agenda ?c ns = map (\<lambda>(d, n). (d + ?c, n)) (agenda 0 ns)" for ns :: "('a, 'b) alarmEventNode list"
    using agenda_shift [of 0 ?c ns] by simp
  show ?case
  proof (cases "time_overthan (tvRemain new) (tvRemain cur)")
    case True
    then have le: "?c \<le> usecs (tvRemain new)" using time_overthan_usecs "2.prems"(1) cur by blast
    let ?new = "new\<lparr>tvRemain := time_interval (tvRemain new) (tvRemain cur)\<rparr>"
    have i: "norm_tv (tvRemain ?new)" "usecs (tvRemain ?new) + ?c = usecs (tvRemain new)"
      using time_interval_usecs [OF "2.prems"(1) cur] le by auto
    have "agenda 0 (add_loop ?new rest) = insert_due (usecs (tvRemain ?new)) (bare new) (agenda 0 rest) \<and>
      (\<forall>n \<in> set (add_loop ?new rest). norm_tv (tvRemain n))"
      using "2.IH" [OF True i(1) rest] by simp
    then show ?thesis
      using True le cur by (simp add: sh insert_due_shift i(2) [simplified])
  next
    case False
    then have lt: "usecs (tvRemain new) < ?c" using time_overthan_usecs "2.prems"(1) cur by fastforce
    have "norm_tv (time_interval (tvRemain cur) (tvRemain new))"
      "usecs (time_interval (tvRemain cur) (tvRemain new)) = ?c - usecs (tvRemain new)"
      using time_interval_usecs [OF cur "2.prems"(1)] lt by auto
    then show ?thesis using False lt "2.prems" by simp
  qed
qed simp

lemma add_loop_nodes: "set (map bare (add_loop new ns)) = insert (bare new) (set (map bare ns))"
proof (induction new ns rule: add_loop.induct)
  case (2 new cur rest)
  then show ?case by (auto simp: insert_commute)
qed simp

lemma add_loop_distinct:
  "naddr new \<notin> set (map naddr ns) \<Longrightarrow> distinct (map naddr ns) \<Longrightarrow> distinct (map naddr (add_loop new ns))"
proof (induction new ns rule: add_loop.induct)
  case (2 new cur rest)
  let ?new = "new\<lparr>tvRemain := time_interval (tvRemain new) (tvRemain cur)\<rparr>"
  have "naddr ` set (add_loop ?new rest) = naddr ` set (map bare (add_loop ?new rest))"
    by (auto simp: image_image)
  also have "\<dots> = insert (naddr new) (naddr ` set rest)"
    unfolding add_loop_nodes by (auto simp: image_image)
  finally show ?case using 2 by auto
qed simp

subsection \<open>Deleting\<close>

fun drop_first :: "('x \<Rightarrow> bool) \<Rightarrow> 'x list \<Rightarrow> 'x list" where
  "drop_first P [] = []"
| "drop_first P (x # xs) = (if P x then xs else x # drop_first P xs)"

lemma drop_first_subset: "set (drop_first P xs) \<subseteq> set xs"
  by (induction xs) auto

lemma drop_first_map: "drop_first P (map f xs) = map f (drop_first (P \<circ> f) xs)"
  by (induction xs) auto

lemma drop_first_distinct: "distinct xs \<Longrightarrow> distinct (drop_first P xs)"
  using drop_first_subset by (induction xs) fastforce+

lemma unlink_event_agenda:
  assumes "\<forall>n \<in> set ns. norm_tv (tvRemain n)"
    and "\<forall>d \<in> set (map fst (agenda 0 ns)). d < 2147483648 * 1000000"
  shows "agenda 0 (snd (unlink_event token head ns)) = drop_first (\<lambda>(d, n). idToken n = token) (agenda 0 ns) \<and>
    (\<forall>n \<in> set (snd (unlink_event token head ns)). norm_tv (tvRemain n)) \<and>
    map bare (snd (unlink_event token head ns)) = drop_first (\<lambda>n. idToken n = token) (map bare ns)"
  using assms
proof (induction ns)
  case (Cons cur rest)
  let ?c = "usecs (tvRemain cur)"
  have cur: "norm_tv (tvRemain cur)" and rest: "\<forall>n \<in> set rest. norm_tv (tvRemain n)"
    using Cons.prems by auto
  have sh: "agenda ?c ns = map (\<lambda>(d, n). (d + ?c, n)) (agenda 0 ns)" for ns :: "('a, 'b) alarmEventNode list"
    using agenda_shift [of 0 ?c ns] by simp
  have "0 \<le> ?c" using usecs_bounds(1) [OF cur] .
  then have bd: "\<forall>d \<in> set (map fst (agenda 0 rest)). d < 2147483648 * 1000000"
    using Cons.prems(2) by (fastforce simp: sh)
  show ?case
  proof (cases "token = idToken cur")
    case True
    show ?thesis
    proof (cases rest)
      case (Cons nxt rest')
      then have "usecs (tvRemain nxt) + ?c < 2147483648 * 1000000" "norm_tv (tvRemain nxt)"
        using \<open>\<forall>d \<in> set (map fst (agenda 0 (cur # rest))). _\<close> rest by (auto simp: add.commute)
      then show ?thesis
        using True Cons rest add_remain_usecs [of "tvRemain nxt" "tvRemain cur"] cur
        by (auto simp: add.commute)
    qed (use True in simp)
  next
    case False
    then show ?thesis
      using Cons.IH [OF rest bd] cur
      by (auto simp: sh drop_first_map comp_def case_prod_beta)
  qed
qed simp

lemma unlink_event_head:
  "fst (unlink_event token head ns) =
     (case rev ns of
        [] \<Rightarrow> head
      | l # front \<Rightarrow>
          if idToken l = token \<and> (\<forall>n \<in> set front. idToken n \<noteq> token)
          then head\<lparr>tvRemain := add_remain (tvRemain head) (tvRemain l)\<rparr> else head)"
proof (induction ns)
  case (Cons cur rest)
  show ?case
  proof (cases rest rule: rev_cases)
    case (snoc front l)
    then show ?thesis using Cons by (cases front) auto
  qed simp
qed simp

subsection \<open>The operations on the agenda\<close>

abbreviation elapsed :: "c_timeval \<Rightarrow> ('h, 'p) timeListType \<Rightarrow> int" where
  "elapsed now lst \<equiv> max 0 (usecs now - usecs (tvLastSync lst))"

definition elapse :: "int \<Rightarrow> (int \<times> 'n) list \<Rightarrow> (int \<times> 'n) list" where
  "elapse e ag = map (\<lambda>(d, n). (max 0 (d - e), n)) ag"

definition timers :: "('h, 'p) timeListType \<Rightarrow> (int \<times> ('h, 'p) alarmEventNode) list" where
  "timers lst = agenda 0 (entries lst)"

lemma timers_nodes: "map snd (timers lst) = map bare (entries lst)"
  by (simp add: timers_def agenda_snd)

lemma timers_empty [simp]: "timers lst = [] \<longleftrightarrow> entries lst = []"
  by (cases "entries lst") (simp_all add: timers_def)

lemma synchronize_timers:
  assumes "tl_inv lst" "norm_tv now"
  shows "tl_inv (synchronize now lst)" "timers (synchronize now lst) = elapse (elapsed now lst) (timers lst)"
  using synchronize_agenda [OF assms] by (simp_all add: timers_def elapse_def)

lemma addAlarmEventNode_timers:
  assumes "tl_inv lst" "norm_tv now" "norm_tv (tvRemain new)" "naddr new \<notin> set (map naddr (entries lst))"
    and "addAlarmEventNode now (Some lst) new = (k, lst')"
  obtains l where "lst' = Some l" "tl_inv l" "tvLastSync l = now" "eventHead l = eventHead lst"
    "timers l = insert_due (usecs (tvRemain new)) (bare (new\<lparr>idToken := listToken lst\<rparr>))
       (elapse (elapsed now lst) (timers lst))"
    "listToken l = (listToken lst + 1) AND 0x0FFFFFFF" "k = c_int (uint (listToken lst))"
proof -
  let ?s = "synchronize now lst" and ?n = "new\<lparr>idToken := listToken lst\<rparr>"
  let ?l = "?s\<lparr>entries := add_loop ?n (entries ?s), listToken := (listToken lst + 1) AND 0x0FFFFFFF\<rparr>"
  note s = synchronize_timers [OF assms(1,2)]
  have norm: "\<forall>n \<in> set (entries ?s). norm_tv (tvRemain n)" using s(1) by (simp add: tl_inv_def)
  have ag: "timers ?l = insert_due (usecs (tvRemain new)) (bare ?n) (timers ?s)"
    "\<forall>n \<in> set (entries ?l). norm_tv (tvRemain n)"
    using add_loop_agenda [of ?n "entries ?s"] assms(3) norm by (simp_all add: timers_def)
  have "map naddr (entries ?s) = map naddr (entries lst)"
    using map_naddr_bare synchronize_fields(4) by metis
  then have "distinct (map naddr (entries ?l))"
    using add_loop_distinct [of ?n "entries ?s"] assms(1,4) by (simp add: tl_inv_def)
  moreover have "\<forall>d \<in> set (map fst (timers ?l)). d < 2147483648 * 1000000"
    using s(1) usecs_bounds(2) [OF assms(3)] unfolding ag(1)
    by (auto simp: tl_inv_def timers_def)
  ultimately have "tl_inv ?l" using ag(2) assms(2) by (simp add: tl_inv_def timers_def)
  then show thesis
    using assms(5) ag(1) s(2) by (intro that [of ?l]) (simp_all add: Let_def)
qed

lemma find_bare: "find (\<lambda>n. t = idToken n) ns = None \<longleftrightarrow> (\<forall>n \<in> set (map bare ns). idToken n \<noteq> t)"
  by (induction ns) auto

lemma drop_first_absent: "\<forall>x \<in> set xs. \<not> P x \<Longrightarrow> drop_first P xs = xs"
  by (induction xs) auto

lemma delAlarmEventNode_timers:
  assumes "tl_inv lst" "norm_tv now" "delAlarmEventNode now (Some lst) token = (e, lst')"
  obtains l where "lst' = Some l" "tl_inv l" "tvLastSync l = now" "listToken l = listToken lst"
    "timers l = drop_first (\<lambda>(d, n). idToken n = token) (elapse (elapsed now lst) (timers lst))"
    "e = None \<longleftrightarrow> (\<forall>n \<in> set (entries lst). idToken n \<noteq> token)"
    "map_option bare e = find (\<lambda>n. idToken n = token) (map bare (entries lst))"
proof -
  let ?s = "synchronize now lst" and ?P = "\<lambda>(d, n). idToken n = token"
  note s = synchronize_timers [OF assms(1,2)]
  have q: "queryAlarmEventNode (Some ?s) token = find (\<lambda>cur. token = idToken cur) (entries ?s)" by simp
  have fb: "map_option bare (find (\<lambda>n. token = idToken n) ns) = find (\<lambda>n. idToken n = token) (map bare ns)"
    for ns :: "('a, 'b) alarmEventNode list" by (induction ns) auto
  show thesis
  proof (cases "find (\<lambda>cur. token = idToken cur) (entries ?s)")
    case None
    then have none: "\<forall>n \<in> set (map bare (entries lst)). idToken n \<noteq> token"
      using find_bare synchronize_fields(4) by metis
    then have "\<forall>x \<in> set (timers ?s). \<not> ?P x"
      using timers_nodes [of ?s] synchronize_fields(4) [of now lst]
      by (metis (mono_tags, lifting) case_prod_beta image_eqI list.set_map)
    then have "timers ?s = drop_first ?P (timers ?s)" by (simp add: drop_first_absent)
    then show thesis
      using None s none assms(3) fb [of "entries ?s"] by (intro that [of ?s]) (auto simp: Let_def)
  next
    case (Some x)
    obtain h es where u: "unlink_event token (eventHead ?s) (entries ?s) = (h, es)" by fastforce
    let ?l = "?s\<lparr>eventHead := h, entries := es\<rparr>"
    note ag = unlink_event_agenda [of "entries ?s" token "eventHead ?s", unfolded u snd_conv]
    have pre: "\<forall>n \<in> set (entries ?s). norm_tv (tvRemain n)"
      "\<forall>d \<in> set (map fst (agenda 0 (entries ?s))). d < 2147483648 * 1000000"
      "distinct (map naddr (entries ?s))"
      using s(1) by (auto simp: tl_inv_def)
    have t: "timers ?l = drop_first ?P (timers ?s)" using ag [OF pre(1,2)] by (simp add: timers_def)
    have "distinct (map naddr (map bare es))"
      using ag [OF pre(1,2)] drop_first_distinct [of "map naddr (map bare (entries ?s))"] pre(3)
      by (metis (no_types, lifting) distinct_map drop_first_distinct drop_first_subset inj_on_subset map_naddr_bare)
    then have "distinct (map naddr es)" by (simp only: map_naddr_bare [symmetric])
    then have "tl_inv ?l"
      using ag [OF pre(1,2)] pre(2) assms(2) drop_first_subset [of ?P "agenda 0 (entries ?s)"]
      by (auto simp: tl_inv_def)
    moreover have "e = Some x" "lst' = Some ?l" using assms(3) Some u by (simp_all add: Let_def)
    moreover have "\<not> (\<forall>n \<in> set (map bare (entries lst)). idToken n \<noteq> token)"
      using Some find_bare synchronize_fields(4) by (metis option.distinct(1))
    ultimately show thesis
      using t s(2) Some fb [of "entries ?s"] by (intro that [of ?l]) auto
  qed
qed

text \<open>
  Firing.  When the first entry still has a microsecond left the list is synchronised first; an
  entry fires when less than half a millisecond is left.
\<close>

definition before_fire :: "c_timeval \<Rightarrow> ('h, 'p) timeListType \<Rightarrow> ('h, 'p) timeListType" where
  \<comment> \<open>the list after the conditional call of \<open>synchronize\<close> in \<open>handleAlarmEvent\<close>\<close>
  "before_fire now lst =
     (let tv = tvRemain (first_event lst) in if tv_sec tv \<noteq> 0 \<or> tv_usec tv \<noteq> 0 then synchronize now lst else lst)"

lemma first_due:
  assumes "tl_inv lst" "entries lst = n # ns"
  shows "timers lst = (usecs (tvRemain n), bare n) # tl (timers lst)" "norm_tv (tvRemain n)"
    "first_event lst = n"
  using assms by (simp_all add: timers_def tl_inv_def first_event_def)

lemma ripe_usecs:
  assumes "norm_tv tv"
  shows "tv_sec tv = 0 \<and> tv_usec tv < 1000 div 2 \<longleftrightarrow> usecs tv < 500"
    and "tv_sec tv \<noteq> 0 \<or> tv_usec tv \<noteq> 0 \<longleftrightarrow> usecs tv \<noteq> 0"
proof -
  consider "tv_sec tv = 0" | "1 \<le> tv_sec tv" using assms unfolding norm_tv_def by linarith
  then have "(tv_sec tv = 0 \<and> tv_usec tv < 1000 div 2 \<longleftrightarrow> usecs tv < 500) \<and>
    (tv_sec tv \<noteq> 0 \<or> tv_usec tv \<noteq> 0 \<longleftrightarrow> usecs tv \<noteq> 0)"
  proof cases
    case 2
    then have "1000000 \<le> usecs tv" using assms unfolding norm_tv_def usecs_def by linarith
    with 2 show ?thesis by auto
  qed (simp add: usecs_def)
  then show "tv_sec tv = 0 \<and> tv_usec tv < 1000 div 2 \<longleftrightarrow> usecs tv < 500"
    "tv_sec tv \<noteq> 0 \<or> tv_usec tv \<noteq> 0 \<longleftrightarrow> usecs tv \<noteq> 0" by auto
qed

lemma tl_inv_tail:
  assumes "tl_inv lst" "entries lst = n # ns"
  shows "tl_inv (lst\<lparr>entries := ns\<rparr>)"
    "timers (lst\<lparr>entries := ns\<rparr>) = map (\<lambda>(d, x). (d - usecs (tvRemain n), x)) (tl (timers lst))"
proof -
  have sh: "agenda (usecs (tvRemain n)) ns = map (\<lambda>(d, x). (d + usecs (tvRemain n), x)) (agenda 0 ns)"
    using agenda_shift [of 0 "usecs (tvRemain n)" ns] by simp
  have "0 \<le> usecs (tvRemain n)" using first_due(2) [OF assms] usecs_bounds by blast
  then show "tl_inv (lst\<lparr>entries := ns\<rparr>)"
    using assms by (fastforce simp: tl_inv_def sh)
  show "timers (lst\<lparr>entries := ns\<rparr>) = map (\<lambda>(d, x). (d - usecs (tvRemain n), x)) (tl (timers lst))"
    by (simp add: timers_def assms(2) sh comp_def case_prod_beta)
qed

lemma before_fire_timers:
  assumes "tl_inv lst" "norm_tv now"
  shows "tl_inv (before_fire now lst)"
    and "before_fire now lst = synchronize now lst \<or> before_fire now lst = lst \<and> (entries lst \<noteq> [] \<longrightarrow> fst (hd (timers lst)) = 0)"
    and "map bare (entries (before_fire now lst)) = map bare (entries lst)"
proof -
  show "tl_inv (before_fire now lst)"
    using synchronize_timers(1) [OF assms] assms(1) by (simp add: before_fire_def Let_def)
  show "map bare (entries (before_fire now lst)) = map bare (entries lst)"
    by (simp add: before_fire_def Let_def)
  show "before_fire now lst = synchronize now lst \<or> before_fire now lst = lst \<and> (entries lst \<noteq> [] \<longrightarrow> fst (hd (timers lst)) = 0)"
  proof (cases "entries lst")
    case (Cons n ns)
    then show ?thesis
      using first_due [OF assms(1) Cons] ripe_usecs(2) [of "tvRemain n"]
      by (auto simp: before_fire_def Let_def) (metis fst_conv list.sel(1))
  qed (auto simp: before_fire_def Let_def)
qed

lemma handleAlarmEvent_cases:
  assumes "tl_inv lst" "norm_tv now" "entries lst \<noteq> []"
  defines "b \<equiv> before_fire now lst"
  shows "handleAlarmEvent now (Some lst) =
    (if fst (hd (timers b)) < 500
     then Some (Some (b\<lparr>entries := tl (entries b)\<rparr>), Some (hd (entries b)))
     else Some (Some b, None))"
    and "entries b = hd (entries b) # tl (entries b)"
proof -
  have "tl_inv b" using before_fire_timers(1) [OF assms(1,2)] by (simp add: b_def)
  have "map bare (entries b) = map bare (entries lst)"
    using before_fire_timers(3) [OF assms(1,2)] by (simp add: b_def)
  then have "entries b \<noteq> []" using assms(3) by auto
  then show e: "entries b = hd (entries b) # tl (entries b)" by simp
  note f = first_due [OF \<open>tl_inv b\<close> e]
  have "fst (hd (timers b)) = usecs (tvRemain (hd (entries b)))" by (subst f(1)) simp
  then have r: "tv_sec (tvRemain (first_event b)) = 0 \<and> tv_usec (tvRemain (first_event b)) < 1000 div 2 \<longleftrightarrow>
      fst (hd (timers b)) < 500"
    using ripe_usecs(1) [OF f(2)] f(3) by simp
  have "handleAlarmEvent now (Some lst) =
      (if tv_sec (tvRemain (first_event b)) = 0 \<and> tv_usec (tvRemain (first_event b)) < 1000 div 2
       then (case entries b of [] \<Rightarrow> None | _ # rest \<Rightarrow> Some (Some (b\<lparr>entries := rest\<rparr>), Some (first_event b)))
       else Some (Some b, None))"
    by (simp only: handleAlarmEvent.simps b_def before_fire_def Let_def)
  then show "handleAlarmEvent now (Some lst) =
    (if fst (hd (timers b)) < 500
     then Some (Some (b\<lparr>entries := tl (entries b)\<rparr>), Some (hd (entries b)))
     else Some (Some b, None))"
    unfolding r using e f(3) by (auto split: list.splits)
qed

lemma handleAlarmEvent_empty:
  assumes "entries lst = []"
    and "\<not> (tv_sec (tvRemain (eventHead lst)) = 0 \<and> tv_usec (tvRemain (eventHead lst)) < 500)"
  shows "handleAlarmEvent now (Some lst) = Some (Some (before_fire now lst), None)"
  using assms by (auto simp: before_fire_def first_event_def Let_def)

section \<open>Addresses of the queued nodes\<close>

lemma naddr_timers: "naddr ` set (entries lst) = naddr ` set (map snd (timers lst))"
  unfolding timers_nodes by (auto simp: image_image)

lemma elapse_snd [simp]: "map snd (elapse e ag) = map snd ag"
  by (simp add: elapse_def case_prod_beta comp_def)

lemma drop_first_found:
  assumes "distinct (map f xs)" "find P xs = Some x"
  shows "f ` set (drop_first P xs) = f ` set xs - {f x}" "x \<in> set xs"
  using assms by (induction xs) (auto split: if_splits)

lemma addAlarmEventNode_addrs:
  assumes "tl_inv lst" "norm_tv t" "norm_tv (tvRemain new)" "naddr new \<notin> set (map naddr (entries lst))"
  shows "\<exists>l. addAlarmEventNode t (Some lst) new = (c_int (uint (listToken lst)), Some l) \<and> tl_inv l \<and>
    naddr ` set (entries l) = insert (naddr new) (naddr ` set (entries lst)) \<and>
    timers l = insert_due (usecs (tvRemain new)) (bare (new\<lparr>idToken := listToken lst\<rparr>))
        (elapse (elapsed t lst) (timers lst)) \<and> listToken l = (listToken lst + 1) AND 0x0FFFFFFF \<and>
    set (map bare (entries l)) = insert (bare (new\<lparr>idToken := listToken lst\<rparr>)) (set (map bare (entries lst)))"
proof -
  obtain k l' where a: "addAlarmEventNode t (Some lst) new = (k, l')" by fastforce
  show ?thesis
  proof (rule addAlarmEventNode_timers [OF assms a])
    fix l assume l: "l' = Some l" "tl_inv l" "k = c_int (uint (listToken lst))"
      "timers l = insert_due (usecs (tvRemain new)) (bare (new\<lparr>idToken := listToken lst\<rparr>))
        (elapse (elapsed t lst) (timers lst))" "listToken l = (listToken lst + 1) AND 0x0FFFFFFF"
    have "naddr ` set (entries l) = insert (naddr new) (naddr ` set (map snd (timers lst)))"
      unfolding naddr_timers [of l] l(4) insert_due_snd elapse_snd by simp
    moreover have "set (map bare (entries l)) = insert (bare (new\<lparr>idToken := listToken lst\<rparr>)) (set (map bare (entries lst)))"
      unfolding timers_nodes [symmetric] l(4) insert_due_snd elapse_snd by simp
    ultimately show ?thesis using a l by (simp add: naddr_timers [of lst] del: addAlarmEventNode.simps)
  qed
qed

lemma delAlarmEventNode_addrs:
  assumes "tl_inv lst" "norm_tv t"
  shows "\<exists>e l. delAlarmEventNode t (Some lst) token = (e, Some l) \<and> tl_inv l \<and>
    set (map bare (entries l)) \<subseteq> set (map bare (entries lst)) \<and>
    (case e of
       None \<Rightarrow> naddr ` set (entries l) = naddr ` set (entries lst) \<and> (\<forall>n \<in> set (entries lst). idToken n \<noteq> token)
     | Some n \<Rightarrow> naddr ` set (entries l) = naddr ` set (entries lst) - {naddr n} \<and> naddr n \<in> naddr ` set (entries lst) \<and>
         (\<exists>m \<in> set (entries lst). idToken m = token))"
proof -
  obtain e l' where d: "delAlarmEventNode t (Some lst) token = (e, l')" by fastforce
  show ?thesis
  proof (rule delAlarmEventNode_timers [OF assms d])
    fix l assume l: "l' = Some l" "tl_inv l"
      "timers l = drop_first (\<lambda>(d, n). idToken n = token) (elapse (elapsed t lst) (timers lst))"
      "e = None \<longleftrightarrow> (\<forall>n \<in> set (entries lst). idToken n \<noteq> token)"
      "map_option bare e = find (\<lambda>n. idToken n = token) (map bare (entries lst))"
    have "map snd (timers l) = drop_first (\<lambda>n. idToken n = token) (map snd (elapse (elapsed t lst) (timers lst)))"
      unfolding l(3) drop_first_map by (simp add: comp_def split_def)
    then have nodes: "map bare (entries l) = drop_first (\<lambda>n. idToken n = token) (map bare (entries lst))"
      by (simp only: elapse_snd timers_nodes)
    then have sub: "set (map bare (entries l)) \<subseteq> set (map bare (entries lst))" using drop_first_subset by metis
    have addrs: "naddr ` set (entries x) = naddr ` set (map bare (entries x))" for x :: "('a, 'b) timeListType"
      by (auto simp: image_image)
    have dist: "distinct (map naddr (map bare (entries lst)))"
      using assms(1) by (simp only: map_naddr_bare [symmetric]) (simp add: tl_inv_def)
    show ?thesis
    proof (cases e)
      case None
      then have "map bare (entries l) = map bare (entries lst)"
        using nodes l(4) by (simp add: drop_first_absent)
      then have "naddr ` set (entries l) = naddr ` set (entries lst)" using addrs by metis
      then show ?thesis using None d l sub by (simp del: delAlarmEventNode.simps)
    next
      case (Some n)
      then have f: "find (\<lambda>n. idToken n = token) (map bare (entries lst)) = Some (bare n)" using l(5) by simp
      then have "naddr ` set (entries l) = naddr ` set (entries lst) - {naddr n}"
        using drop_first_found(1) [OF dist f] nodes addrs [of l] addrs [of lst] by simp
      moreover have "naddr n \<in> naddr ` set (entries lst)"
        using drop_first_found(2) [OF dist f] unfolding addrs [of lst] by (metis bare_sel(1) imageI)
      moreover have "\<exists>m \<in> set (entries lst). idToken m = token" using Some l(4) by blast
      ultimately show ?thesis using Some d l sub by (simp del: delAlarmEventNode.simps)
    qed
  qed
qed

lemma handleAlarmEvent_addrs:
  assumes "tl_inv lst" "norm_tv t"
    and "entries lst = [] \<longrightarrow> \<not> (tv_sec (tvRemain (eventHead lst)) = 0 \<and> tv_usec (tvRemain (eventHead lst)) < 500)"
  shows "\<exists>l e. handleAlarmEvent t (Some lst) = Some (Some l, e) \<and> tl_inv l \<and>
    set (map bare (entries l)) \<union> bare ` set_option e \<subseteq> set (map bare (entries lst)) \<and>
    (case e of
       None \<Rightarrow> naddr ` set (entries l) = naddr ` set (entries lst)
     | Some n \<Rightarrow> naddr ` set (entries l) = naddr ` set (entries lst) - {naddr n} \<and> naddr n \<in> naddr ` set (entries lst))"
proof (cases "entries lst = []")
  case True
  then show ?thesis
    using handleAlarmEvent_empty [of lst t] assms before_fire_timers [OF assms(1,2)]
    by (auto simp del: handleAlarmEvent.simps)
next
  case False
  let ?b = "before_fire t lst"
  note b = before_fire_timers [OF assms(1,2)] and h = handleAlarmEvent_cases [OF assms(1,2) False]
  have addrs: "map naddr (entries ?b) = map naddr (entries lst)" using map_naddr_bare b(3) by metis
  then have img: "naddr ` set (entries ?b) = naddr ` set (entries lst)" by (metis list.set_map)
  show ?thesis
  proof (cases "fst (hd (timers ?b)) < 500")
    case True
    have "distinct (map naddr (entries ?b))" using b(1) by (simp add: tl_inv_def)
    then have "distinct (map naddr (hd (entries ?b) # tl (entries ?b)))" using h(2) by simp
    moreover have "naddr ` set (hd (entries ?b) # tl (entries ?b)) = naddr ` set (entries lst)" using h(2) img by simp
    ultimately have "insert (naddr (hd (entries ?b))) (naddr ` set (tl (entries ?b))) = naddr ` set (entries lst)"
      "naddr (hd (entries ?b)) \<notin> naddr ` set (tl (entries ?b))" by simp_all
    then have "naddr ` set (tl (entries ?b)) = naddr ` set (entries lst) - {naddr (hd (entries ?b))}"
      "naddr (hd (entries ?b)) \<in> naddr ` set (entries lst)"
      by (metis Diff_insert_absorb, metis insertI1)
    moreover have "set (map bare (hd (entries ?b) # tl (entries ?b))) = set (map bare (entries lst))" using h(2) b(3) by metis
    ultimately show ?thesis
      using h(1) True tl_inv_tail(1) [OF b(1) h(2)] by (auto simp del: handleAlarmEvent.simps)
  next
    case False
    have "set (map bare (entries ?b)) = set (map bare (entries lst))" using b(3) by metis
    then show ?thesis using h(1) b(1) img False by (simp del: handleAlarmEvent.simps)
  qed
qed

section \<open>Reachable timer lists\<close>

text \<open>
  \<open>tl_reach lst D k\<close>: the list \<open>lst\<close> has been reached from a fresh one by calls of the interface
  at non-decreasing times; \<open>D\<close> records the absolute deadline asked for when a node was added and
  \<open>k\<close> counts the timers fired so far.
\<close>

inductive tl_reach :: "('h, 'p) timeListType \<Rightarrow> (nat \<Rightarrow> int) \<Rightarrow> nat \<Rightarrow> bool" where
  init: "initTimeList now (Some old) = (0, Some lst) \<Longrightarrow> norm_tv now \<Longrightarrow> tl_reach lst D 0"
| add: "tl_reach lst D k \<Longrightarrow> norm_tv now \<Longrightarrow> usecs (tvLastSync lst) \<le> usecs now \<Longrightarrow>
    norm_tv (tvRemain new) \<Longrightarrow> naddr new \<notin> set (map naddr (entries lst)) \<Longrightarrow>
    addAlarmEventNode now (Some lst) new = (token, Some lst') \<Longrightarrow>
    tl_reach lst' (D(naddr new := usecs now + usecs (tvRemain new))) k"
| del: "tl_reach lst D k \<Longrightarrow> norm_tv now \<Longrightarrow> usecs (tvLastSync lst) \<le> usecs now \<Longrightarrow>
    delAlarmEventNode now (Some lst) t = (e, Some lst') \<Longrightarrow> tl_reach lst' D k"
| nextev: "tl_reach lst D k \<Longrightarrow> norm_tv now \<Longrightarrow> usecs (tvLastSync lst) \<le> usecs now \<Longrightarrow>
    timeToNextAlarmEvent now (Some lst) = (tv, Some lst') \<Longrightarrow> tl_reach lst' D k"
| handle: "tl_reach lst D k \<Longrightarrow> norm_tv now \<Longrightarrow> usecs (tvLastSync lst) \<le> usecs now \<Longrightarrow>
    handleAlarmEvent now (Some lst) = Some (Some lst', fired) \<Longrightarrow>
    tl_reach lst' D (case fired of None \<Rightarrow> k | Some _ \<Rightarrow> k + 1)"

definition on_time :: "(nat \<Rightarrow> int) \<Rightarrow> nat \<Rightarrow> int \<Rightarrow> (int \<times> ('h, 'p) alarmEventNode) list \<Rightarrow> bool" where
  \<comment> \<open>with the last synchronisation at \<open>s\<close>: no timer is late, and none is early by more than \<open>499 * k\<close>\<close>
  "on_time D k s ag \<longleftrightarrow>
     (\<forall>(d, x) \<in> set ag. s + d \<le> max (D (naddr x)) s \<and> D (naddr x) - 499 * int k \<le> s + d)"

lemma on_time_elapse:
  assumes "on_time D k s ag" "s \<le> t"
  shows "on_time D k t (elapse (max 0 (t - s)) ag)"
proof -
  have "t + max 0 (d - max 0 (t - s)) \<le> max (D x) t \<and> D x - 499 * int k \<le> t + max 0 (d - max 0 (t - s))"
    if "s + d \<le> max (D x) s" "D x - 499 * int k \<le> s + d" for d x
    using that assms(2) by auto
  then show ?thesis using assms(1) by (fastforce simp: on_time_def elapse_def)
qed

lemma on_time_subset: "on_time D k s ag \<Longrightarrow> set ag' \<subseteq> set ag \<Longrightarrow> on_time D k s ag'"
  by (auto simp: on_time_def)

lemma on_time_sync:
  assumes "tl_inv lst" "norm_tv now" "usecs (tvLastSync lst) \<le> usecs now"
    and "on_time D k (usecs (tvLastSync lst)) (timers lst)"
  shows "on_time D k (usecs now) (timers (synchronize now lst))"
  using on_time_elapse [OF assms(4,3)] synchronize_timers(2) [OF assms(1,2)] by simp

lemma before_fire_on_time:
  assumes "tl_inv lst" "norm_tv now" "usecs (tvLastSync lst) \<le> usecs now"
    and "on_time D k (usecs (tvLastSync lst)) (timers lst)"
  shows "on_time D k (usecs (tvLastSync (before_fire now lst))) (timers (before_fire now lst))"
    "usecs (tvLastSync (before_fire now lst)) \<le> usecs now"
  using before_fire_timers(2) [OF assms(1,2)] on_time_sync [OF assms] assms(3,4) by auto

lemma on_time_fire:
  assumes "tl_inv lst" "entries lst = n # ns" "usecs (tvRemain n) < 500"
    and "on_time D k (usecs (tvLastSync lst)) (timers lst)"
  shows "on_time D (k + 1) (usecs (tvLastSync lst)) (timers (lst\<lparr>entries := ns\<rparr>))"
proof -
  let ?s = "usecs (tvLastSync lst)" and ?c = "usecs (tvRemain n)"
  have c: "0 \<le> ?c" using first_due(2) [OF assms(1,2)] usecs_bounds by blast
  have "?s + (d - ?c) \<le> max (D (naddr x)) ?s \<and> D (naddr x) - 499 * int (k + 1) \<le> ?s + (d - ?c)"
    if "(d, x) \<in> set (tl (timers lst))" for d x
  proof -
    have "(d, x) \<in> set (timers lst)" using that by (metis list.set_sel(2) list.sel(2))
    then have "?s + d \<le> max (D (naddr x)) ?s" "D (naddr x) - 499 * int k \<le> ?s + d"
      using assms(4) by (auto simp: on_time_def)
    then show ?thesis using c assms(3) by auto
  qed
  then show ?thesis by (auto simp: on_time_def tl_inv_tail(2) [OF assms(1,2)])
qed

lemma tl_reach_invariant:
  assumes "tl_reach lst D k"
  shows "tl_inv lst \<and> on_time D k (usecs (tvLastSync lst)) (timers lst)"
  using assms
proof induction
  case (init now old lst D)
  then have "entries lst = []" "tvLastSync lst = now" by auto
  then show ?case using init(2) by (simp add: tl_inv_def timers_def on_time_def)
next
  case (add lst D k now new token lst')
  let ?n = "bare (new\<lparr>idToken := listToken lst\<rparr>)" and ?D = "D(naddr new := usecs now + usecs (tvRemain new))"
  obtain l where l: "lst' = l" "tl_inv l" "tvLastSync l = now"
    "timers l = insert_due (usecs (tvRemain new)) ?n (elapse (elapsed now lst) (timers lst))"
    using addAlarmEventNode_timers [OF _ add.hyps(2,4,5,6)] add.IH by (metis option.inject)
  have "on_time D k (usecs now) (elapse (elapsed now lst) (timers lst))"
    using on_time_elapse add.IH add.hyps(3) by blast
  moreover have "naddr x \<noteq> naddr new" if "(d, x) \<in> set (elapse (elapsed now lst) (timers lst))" for d x
  proof -
    have "x \<in> set (map snd (timers lst))" using that by (force simp: elapse_def)
    then have "naddr x \<in> set (map naddr (entries lst))" unfolding timers_nodes by auto
    then show ?thesis using add.hyps(5) by metis
  qed
  ultimately show ?case using l usecs_bounds(1) [OF add.hyps(4)] by (auto simp: on_time_def)
next
  case (del lst D k now t e lst')
  then obtain l where "lst' = l" "tl_inv l" "tvLastSync l = now"
    "timers l = drop_first (\<lambda>(d, n). idToken n = t) (elapse (elapsed now lst) (timers lst))"
    using delAlarmEventNode_timers [OF _ del.hyps(2,4)] by (metis option.inject)
  then show ?case
    using on_time_elapse on_time_subset [OF _ drop_first_subset] del.IH del.hyps(3) by fastforce
next
  case (nextev lst D k now tv lst')
  then have "lst' = synchronize now lst" by (auto simp: Let_def)
  then show ?case using on_time_sync synchronize_timers(1) nextev by auto
next
  case (handle lst D k now lst' fired)
  let ?b = "before_fire now lst"
  note b = before_fire_timers [OF conjunct1 [OF handle.IH] handle.hyps(2)]
    before_fire_on_time [OF conjunct1 [OF handle.IH] handle.hyps(2,3) conjunct2 [OF handle.IH]]
  show ?case
  proof (cases "entries lst = []")
    case True
    then have "entries ?b = []" using b(3) by simp
    then have "lst' = ?b" "fired = None"
      using handle.hyps(4) by (auto simp: before_fire_def Let_def split: if_splits list.splits)
    then show ?thesis using b by simp
  next
    case False
    note h = handleAlarmEvent_cases [OF conjunct1 [OF handle.IH] handle.hyps(2) False]
    show ?thesis
    proof (cases "fst (hd (timers ?b)) < 500")
      case True
      then have "lst' = ?b\<lparr>entries := tl (entries ?b)\<rparr>" "fired = Some (hd (entries ?b))"
        using h(1) handle.hyps(4) by simp_all
      moreover have "usecs (tvRemain (hd (entries ?b))) < 500"
        using True first_due(1) [OF b(1) h(2)] by (metis fst_conv list.sel(1))
      ultimately show ?thesis
        using on_time_fire [OF b(1) h(2) _ b(4)] tl_inv_tail(1) [OF b(1) h(2)] by simp
    next
      case False
      then show ?thesis using h(1) handle.hyps(4) b by simp
    qed
  qed
qed

section \<open>Properties\<close>

text \<open>
  C4. The delta list implements an agenda.  On a well-formed list, with \<open>e\<close> the microseconds since
  the last synchronisation: adding a timer puts it, with exactly the requested delay, behind all
  timers due no later (first come first served among equals) and leaves the due times of all
  others alone; deleting a token removes the first timer that carries it and moves no other due
  time; both return what they should, and \<open>timeToNextAlarmEvent\<close> answers with the due time of the
  first timer.  Well-formedness is kept throughout.
\<close>

theorem time_list_refines_agenda:
  assumes "tl_inv lst" "norm_tv now" "norm_tv (tvRemain new)" "naddr new \<notin> set (map naddr (entries lst))"
  shows "(\<exists>l. addAlarmEventNode now (Some lst) new = (c_int (uint (listToken lst)), Some l) \<and> tl_inv l \<and>
      timers l = insert_due (usecs (tvRemain new)) (bare (new\<lparr>idToken := listToken lst\<rparr>))
        (elapse (elapsed now lst) (timers lst))) \<and>
    (\<exists>e l. delAlarmEventNode now (Some lst) token = (e, Some l) \<and> tl_inv l \<and>
      map_option bare e = find (\<lambda>n. idToken n = token) (map bare (entries lst)) \<and>
      timers l = drop_first (\<lambda>(d, n). idToken n = token) (elapse (elapsed now lst) (timers lst))) \<and>
    (\<exists>tv l. timeToNextAlarmEvent now (Some lst) = (tv, Some l) \<and> tl_inv l \<and>
      timers l = elapse (elapsed now lst) (timers lst) \<and>
      (if entries lst = [] then tv = tvRemain (eventHead lst) else usecs tv = fst (hd (timers l))))"
proof (intro conjI)
  obtain k l' where a: "addAlarmEventNode now (Some lst) new = (k, l')" by fastforce
  show "\<exists>l. addAlarmEventNode now (Some lst) new = (c_int (uint (listToken lst)), Some l) \<and> tl_inv l \<and>
      timers l = insert_due (usecs (tvRemain new)) (bare (new\<lparr>idToken := listToken lst\<rparr>))
        (elapse (elapsed now lst) (timers lst))"
    by (rule addAlarmEventNode_timers [OF assms a]) (auto simp: a simp del: addAlarmEventNode.simps)
  obtain e l'' where d: "delAlarmEventNode now (Some lst) token = (e, l'')" by fastforce
  show "\<exists>e l. delAlarmEventNode now (Some lst) token = (e, Some l) \<and> tl_inv l \<and>
      map_option bare e = find (\<lambda>n. idToken n = token) (map bare (entries lst)) \<and>
      timers l = drop_first (\<lambda>(d, n). idToken n = token) (elapse (elapsed now lst) (timers lst))"
    by (rule delAlarmEventNode_timers [OF assms(1,2) d]) (auto simp: d simp del: delAlarmEventNode.simps)
  let ?s = "synchronize now lst"
  note s = synchronize_timers [OF assms(1,2)]
  have "if entries lst = [] then tvRemain (first_event ?s) = tvRemain (eventHead lst)
    else usecs (tvRemain (first_event ?s)) = fst (hd (timers ?s))"
  proof (cases "entries ?s")
    case (Cons n ns)
    then have "entries lst \<noteq> []" by (metis list.distinct(1) synchronize_nil)
    then show ?thesis using first_due [OF s(1) Cons] by (metis fst_conv list.sel(1))
  qed (simp_all add: first_event_def)
  then show "\<exists>tv l. timeToNextAlarmEvent now (Some lst) = (tv, Some l) \<and> tl_inv l \<and>
      timers l = elapse (elapsed now lst) (timers lst) \<and>
      (if entries lst = [] then tv = tvRemain (eventHead lst) else usecs tv = fst (hd (timers l)))"
    using s by (simp add: Let_def)
qed

definition tv_us :: "int \<Rightarrow> c_timeval" where
  "tv_us u = \<lparr>tv_sec = 0, tv_usec = u\<rparr>"

definition demo_node :: "nat \<Rightarrow> int \<Rightarrow> (unit, unit) alarmEventNode" where
  "demo_node a u = \<lparr>naddr = a, tvRemain = tv_us u, cbTimeout = Some (), cbParam = None, reserved = 0, idToken = 0\<rparr>"

definition demo_list :: "(unit, unit) alarmEventNode list \<Rightarrow> (unit, unit) timeListType" where
  "demo_list es = \<lparr>eventHead = (demo_node 0 0)\<lparr>tvRemain := infinity, cbTimeout := None, idToken := - 1\<rparr>, entries = es, listToken = 1, tvLastSync = tv_us 0\<rparr>"

lemmas demo_defs = demo_list_def demo_node_def tv_us_def

theorem time_list_refines_agenda_witness:
  "\<exists>l. addAlarmEventNode (tv_us 100) (Some (demo_list [demo_node 1 600])) (demo_node 2 500) = (1, Some l) \<and>
     map fst (timers l) = [500, 500] \<and> map (naddr \<circ> snd) (timers l) = [1, 2]"
proof -
  have "tl_inv (demo_list [demo_node 1 600])" "norm_tv (tv_us 100)" "norm_tv (tvRemain (demo_node 2 500))"
    "naddr (demo_node 2 500) \<notin> set (map naddr (entries (demo_list [demo_node 1 600])))"
    by (simp_all add: tl_inv_def norm_tv_def usecs_def demo_defs)
  from time_list_refines_agenda [OF this, THEN conjunct1]
  obtain l where l: "addAlarmEventNode (tv_us 100) (Some (demo_list [demo_node 1 600])) (demo_node 2 500) =
      (c_int (uint (listToken (demo_list [demo_node 1 600]))), Some l)"
    "timers l = insert_due (usecs (tvRemain (demo_node 2 500)))
        (bare ((demo_node 2 500)\<lparr>idToken := listToken (demo_list [demo_node 1 600])\<rparr>))
        (elapse (elapsed (tv_us 100) (demo_list [demo_node 1 600])) (timers (demo_list [demo_node 1 600])))"
    by blast
  have "timers l = [(500, bare (demo_node 1 600)), (500, bare ((demo_node 2 500)\<lparr>idToken := 1\<rparr>))]"
    by (subst l(2)) (simp add: timers_def elapse_def usecs_def demo_defs)
  moreover have "c_int (uint (listToken (demo_list [demo_node 1 600]))) = 1" by (simp add: c_int_id demo_defs)
  ultimately show ?thesis using l(1) by (auto simp: demo_node_def)
qed

lemma demo_add:
  "tl_reach (demo_list [(demo_node 1 u)\<lparr>idToken := 1\<rparr>]\<lparr>listToken := 2\<rparr>) ((\<lambda>_. 0)(1 := u)) 0"
  if "0 \<le> u" "u < 1000000"
proof -
  have init: "tl_reach (demo_list []) (\<lambda>_. 0) 0"
    by (rule tl_reach.init [of "tv_us 0" "demo_list []"]) (simp_all add: norm_tv_def demo_defs)
  have "tl_reach (demo_list [(demo_node 1 u)\<lparr>idToken := 1\<rparr>]\<lparr>listToken := 2\<rparr>)
      ((\<lambda>_. 0)(naddr (demo_node 1 u) := usecs (tv_us 0) + usecs (tvRemain (demo_node 1 u)))) 0"
    using that
    by (intro tl_reach.add [OF init, of "tv_us 0" "demo_node 1 u" 1])
      (simp_all add: norm_tv_def demo_defs synchronize_def Let_def c_int_id)
  then show ?thesis using that by (simp add: usecs_def demo_defs)
qed

text \<open>
  How early a timer can fire.  In every reachable timer list: a timer that
  fires at time \<open>now\<close>, as the \<open>k + 1\<close>st one, was asked for a deadline of at most
  \<open>now + 499 (k + 1)\<close> microseconds.  The slack grows with every firing because \<open>handleAlarmEvent\<close> drops the
  time that was left on the fired entry.
\<close>

theorem timers_not_too_early:
  assumes "tl_reach lst D k" "norm_tv now" "usecs (tvLastSync lst) \<le> usecs now"
    and "handleAlarmEvent now (Some lst) = Some (Some lst', Some fired)"
  shows "D (naddr fired) \<le> usecs now + 499 * (int k + 1)"
proof -
  let ?b = "before_fire now lst"
  note i = tl_reach_invariant [OF assms(1)]
  note b = before_fire_timers [OF conjunct1 [OF i] assms(2)]
    before_fire_on_time [OF conjunct1 [OF i] assms(2,3) conjunct2 [OF i]]
  have ne: "entries lst \<noteq> []"
    using assms(4) by (auto simp: Let_def split: if_splits list.splits)
  note h = handleAlarmEvent_cases [OF conjunct1 [OF i] assms(2) ne]
  have f: "fst (hd (timers ?b)) < 500" "fired = hd (entries ?b)"
    using h(1) assms(4) by (auto split: if_splits)
  have "(usecs (tvRemain fired), bare fired) \<in> set (timers ?b)" "usecs (tvRemain fired) < 500"
    using first_due(1) [OF b(1) h(2)] f by (metis list.set_intros(1), metis fst_conv list.sel(1))
  then show ?thesis using b(4,5) by (fastforce simp: on_time_def)
qed

theorem timers_not_too_early_witness: "((\<lambda>_. 0)(1 := 300)) (1 :: nat) \<le> usecs (tv_us 100) + 499"
proof -
  let ?l = "demo_list [(demo_node 1 300)\<lparr>idToken := 1\<rparr>]\<lparr>listToken := 2\<rparr>"
  have "\<exists>l' f. handleAlarmEvent (tv_us 100) (Some ?l) = Some (Some l', Some f) \<and> naddr f = 1"
    by (simp add: Let_def first_event_def synchronize_def time_overthan_def time_interval_def c_int_id demo_defs)
  then obtain l' f where "handleAlarmEvent (tv_us 100) (Some ?l) = Some (Some l', Some f)" "naddr f = 1"
    by blast
  with timers_not_too_early [OF demo_add, of 300 "tv_us 100" l' f] show ?thesis
    by (simp add: norm_tv_def usecs_def demo_defs)
qed

text \<open>
  C34. A timer that is due makes its list fire: if the deadline of any queued timer has come, the
  next \<open>handleAlarmEvent\<close> unlinks the first entry and calls its handler; the others stay queued, in
  order.
\<close>

theorem due_timer_fires:
  assumes "tl_reach lst D k" "norm_tv now" "usecs (tvLastSync lst) \<le> usecs now"
    and "n \<in> set (entries lst)" "D (naddr n) \<le> usecs now"
  shows "\<exists>lst' fired. handleAlarmEvent now (Some lst) = Some (Some lst', Some fired) \<and>
    map bare (fired # entries lst') = map bare (entries lst)"
proof -
  let ?b = "before_fire now lst"
  note i = tl_reach_invariant [OF assms(1)]
  note b = before_fire_timers [OF conjunct1 [OF i] assms(2)]
  have ne: "entries lst \<noteq> []" using assms(4) by auto
  note h = handleAlarmEvent_cases [OF conjunct1 [OF i] assms(2) ne]
  have "fst (hd (timers ?b)) < 500"
  proof (cases "?b = synchronize now lst")
    case True
    have "bare n \<in> set (map snd (timers ?b))" using assms(4) b(3) unfolding timers_nodes by simp
    then obtain d where d: "(d, bare n) \<in> set (timers ?b)" by auto
    have "on_time D k (usecs now) (timers ?b)"
      using on_time_sync [OF conjunct1 [OF i] assms(2,3) conjunct2 [OF i]] True by simp
    then have "d \<le> 0" using d assms(5) by (auto simp: on_time_def)
    moreover have "\<forall>n \<in> set (entries ?b). norm_tv (tvRemain n)" using b(1) by (simp add: tl_inv_def)
    then have "sorted (map fst (timers ?b))" unfolding timers_def by (rule agenda_sorted)
    then have "fst (hd (timers ?b)) \<le> d" using d by (cases "timers ?b") auto
    ultimately show ?thesis by simp
  next
    case False
    then show ?thesis using b(2) ne by auto
  qed
  then have "handleAlarmEvent now (Some lst) =
      Some (Some (?b\<lparr>entries := tl (entries ?b)\<rparr>), Some (hd (entries ?b)))"
    using h(1) by simp
  moreover have "map bare (hd (entries ?b) # tl (entries ?b)) = map bare (entries lst)"
    using h(2) b(3) by metis
  ultimately show ?thesis by auto
qed

theorem due_timer_fires_witness:
  "\<exists>lst' fired. handleAlarmEvent (tv_us 300)
     (Some (demo_list [(demo_node 1 300)\<lparr>idToken := 1\<rparr>]\<lparr>listToken := 2\<rparr>)) = Some (Some lst', Some fired)"
  using due_timer_fires [OF demo_add, of 300 "tv_us 300" "(demo_node 1 300)\<lparr>idToken := 1\<rparr>"]
  by (simp add: norm_tv_def usecs_def demo_defs del: handleAlarmEvent.simps) blast

text \<open>
  The slack accumulates: there is a reachable list in which, one timer having fired, the next
  one fires at time 0 although its deadline is 998 microseconds away, beyond the half millisecond
  the code announces.
\<close>

theorem firing_drift:
  "\<exists>(lst :: (unit, unit) timeListType) D lst' fired. tl_reach lst D 1 \<and> tvLastSync lst = tv_us 0 \<and>
     handleAlarmEvent (tv_us 0) (Some lst) = Some (Some lst', Some fired) \<and>
     D (naddr fired) = usecs (tv_us 0) + 998"
proof -
  let ?a = "(demo_node 1 499)\<lparr>idToken := 1\<rparr>" and ?b = "(demo_node 2 499)\<lparr>idToken := 2\<rparr>"
  let ?D = "((\<lambda>_. 0)(1 := 499))(2 := 998 :: int)"
  have two: "tl_reach (demo_list [?a, ?b]\<lparr>listToken := 3\<rparr>)
      (((\<lambda>_. 0)(1 := 499))(naddr (demo_node 2 998) := usecs (tv_us 0) + usecs (tvRemain (demo_node 2 998)))) 0"
    by (intro tl_reach.add [OF demo_add [of 499], of "tv_us 0" "demo_node 2 998" 2])
      (simp_all add: norm_tv_def demo_defs synchronize_def Let_def c_int_id time_overthan_def time_interval_def
        MILLION_def DELAY_ZERO_def)
  have D: "((\<lambda>_. 0)(1 := 499))(naddr (demo_node 2 998) := usecs (tv_us 0) + usecs (tvRemain (demo_node 2 998))) = ?D"
    by (simp add: usecs_def demo_defs)
  have "handleAlarmEvent (tv_us 0) (Some (demo_list [?a, ?b]\<lparr>listToken := 3\<rparr>)) =
      Some (Some (demo_list [?b]\<lparr>listToken := 3\<rparr>), Some ?a)"
    by (simp add: Let_def first_event_def synchronize_def time_overthan_def time_interval_def c_int_id demo_defs)
  from tl_reach.handle [OF two [unfolded D] _ _ this]
  have one: "tl_reach (demo_list [?b]\<lparr>listToken := 3\<rparr>) ?D 1" by (simp add: norm_tv_def usecs_def demo_defs)
  have "handleAlarmEvent (tv_us 0) (Some (demo_list [?b]\<lparr>listToken := 3\<rparr>)) =
      Some (Some (demo_list []\<lparr>listToken := 3\<rparr>), Some ?b)"
    by (simp add: Let_def first_event_def synchronize_def time_overthan_def time_interval_def c_int_id demo_defs)
  with one show ?thesis
    by (intro exI [of _ "demo_list [?b]\<lparr>listToken := 3\<rparr>"] exI [of _ ?D] exI [of _ "demo_list []\<lparr>listToken := 3\<rparr>"]
        exI [of _ ?b]) (simp add: usecs_def demo_defs del: handleAlarmEvent.simps)
qed

lemma infinity_overflows:
  assumes "norm_tv r" "0 < usecs r"
  shows "tv_sec (add_remain infinity r) < 0"
proof -
  have n: "0 \<le> tv_sec r" "tv_sec r \<le> 2147483647" "0 \<le> tv_usec r" "tv_usec r < 1000000"
    using assms(1) by (auto simp: norm_tv_def)
  have u: "c_int (999999 + tv_usec r) = 999999 + tv_usec r" using n by (intro c_int_id) auto
  consider (carry) "1 \<le> tv_usec r" | (whole) "tv_usec r = 0" "1 \<le> tv_sec r"
    using n assms(2) unfolding usecs_def by linarith
  then show ?thesis
  proof cases
    case whole
    then have "c_int (2147483647 + tv_sec r) = 2147483647 + tv_sec r - 4294967296"
      using n by (intro c_int_wrap_pos) auto
    then show ?thesis using whole u n by (simp add: add_remain_def infinity_def MILLION_def Let_def)
  next
    case carry
    have "c_int (c_int (2147483647 + tv_sec r) + 1) < 0"
    proof (cases "tv_sec r = 0")
      case True
      then show ?thesis by (simp add: c_int_id c_int_wrap_pos)
    next
      case False
      then have "c_int (2147483647 + tv_sec r) = 2147483647 + tv_sec r - 4294967296"
        using n by (intro c_int_wrap_pos) auto
      then show ?thesis using n by (simp add: c_int_id)
    qed
    then show ?thesis using carry u by (simp add: add_remain_def infinity_def MILLION_def Let_def)
  qed
qed

text \<open>
  Cancelling the last timer destroys the sentinel.  \<open>delAlarmEventNode\<close> adds the time left on
  the cancelled timer to the next ring member, which for the last timer is \<open>eventHead\<close> itself with
  its value "never" (0x7FFFFFFF seconds).  If any time was left, the sum overflows and
  \<open>timeToNextAlarmEvent\<close> on the now empty list answers with a negative time.
\<close>

theorem cancel_last_breaks_sentinel:
  assumes "tl_inv lst" "norm_tv now" "entries lst = [n]" "tvRemain (eventHead lst) = infinity"
    and "elapsed now lst < usecs (tvRemain n)"
  shows "\<exists>e l. delAlarmEventNode now (Some lst) (idToken n) = (Some e, Some l) \<and> isTimeListEmpty l \<and>
    tv_sec (fst (timeToNextAlarmEvent later (Some l))) < 0"
proof -
  let ?D = "time_interval now (tvLastSync lst)" and ?r = "time_interval (tvRemain n) (time_interval now (tvLastSync lst))"
  have D: "norm_tv ?D" "usecs ?D = elapsed now lst" and n: "norm_tv (tvRemain n)"
    using time_interval_usecs assms(1-3) by (auto simp: tl_inv_def)
  then have r: "norm_tv ?r" "0 < usecs ?r"
    using time_interval_usecs [OF n D(1)] assms(5) by auto
  have "\<not> time_overthan ?D (tvRemain n)" using time_overthan_usecs [OF D(1) n] D(2) assms(5) by simp
  then have "entries (synchronize now lst) = [n\<lparr>tvRemain := ?r\<rparr>]" by (simp add: synchronize_def assms(3))
  then have "delAlarmEventNode now (Some lst) (idToken n) =
      (Some (n\<lparr>tvRemain := ?r\<rparr>),
       Some (synchronize now lst\<lparr>eventHead := (eventHead lst)\<lparr>tvRemain := add_remain infinity ?r\<rparr>, entries := []\<rparr>))"
    by (simp add: Let_def assms(4))
  then show ?thesis
    using infinity_overflows [OF r] by (simp add: isTimeListEmpty_def first_event_def Let_def)
qed

theorem cancel_last_breaks_sentinel_witness:
  "\<exists>e l. delAlarmEventNode (tv_us 0) (Some (demo_list [demo_node 1 5])) 0 = (Some e, Some l) \<and>
     isTimeListEmpty l \<and> tv_sec (fst (timeToNextAlarmEvent (tv_us 0) (Some l))) < 0"
proof -
  have "tl_inv (demo_list [demo_node 1 5])" "norm_tv (tv_us 0)"
    by (simp_all add: tl_inv_def norm_tv_def usecs_def demo_defs)
  from cancel_last_breaks_sentinel [OF this, of "demo_node 1 5" "tv_us 0"] show ?thesis
    by (simp add: usecs_def demo_defs del: delAlarmEventNode.simps timeToNextAlarmEvent.simps)
qed

end
