(* ===== verification/Slot_Alloc.thy ===== *)
theory Slot_Alloc
  imports Kernel_List
begin

text \<open>
  The slot allocator of \<open>libckits/myAlloc.c\<close>: a chunk cut into slots of one size whose free slots
  hang in an intrusive list.  The list lives in the pointer heap of \<open>list.h\<close>: a \<open>free_slot_t\<close> is
  its \<open>list_t\<close>, so slots are named by their addresses; addresses and sizes are 32-bit words and 0
  is the null pointer.  \<open>None\<close> is the dereference of a null pointer.
\<close>

section \<open>Model\<close>

unbundle bit_operations_syntax

record slot_alloc_t =
  slotSize :: u32
  freeSlots :: u32 \<comment> \<open>the address of the list head\<close>
  chunkMem :: u32
  chunkSize :: u32

definition invalid_slot_alloc :: "slot_alloc_t \<Rightarrow> bool" where
  \<comment> \<open>the check every entry point makes on a non-null allocator\<close>
  "invalid_slot_alloc a \<longleftrightarrow> slotSize a \<le> 0 \<or> chunkMem a = 0 \<or> chunkSize a \<le> 0"

fun slot_loop :: "nat \<Rightarrow> u32 \<Rightarrow> u32 \<Rightarrow> u32 \<Rightarrow> u32 lheap \<Rightarrow> u32 lheap option" where
  "slot_loop 0 sz mem head h = Some h"
| "slot_loop (Suc n) sz mem head h =
     (case list_add_tail h mem head of
        None \<Rightarrow> None
      | Some h1 \<Rightarrow> slot_loop n sz (mem + sz) head h1)"

definition slot_round :: "u32 \<Rightarrow> u32" where
  \<comment> \<open>rounding the slot size to 8, at least \<open>sizeof(free_slot_t)\<close>\<close>
  "slot_round s = (let sz = (s + 7) AND NOT 7 in if sz < 8 then 8 else sz)"

definition init_slot_allocator ::
  "u32 lheap \<Rightarrow> slot_alloc_t option \<Rightarrow> (int \<times> u32 lheap \<times> slot_alloc_t option) option" where
  "init_slot_allocator h allocator =
     (case allocator of
        None \<Rightarrow> Some (- 1, h, None)
      | Some a \<Rightarrow>
          if invalid_slot_alloc a then Some (- 1, h, Some a)
          else (let sz = slot_round (slotSize a);
                    nmemb = chunkSize a div sz
                in case slot_loop (unat nmemb) sz (chunkMem a) (freeSlots a)
                          (INIT_LIST_HEAD h (freeSlots a)) of
                     None \<Rightarrow> None
                   | Some h1 \<Rightarrow> Some (0, h1, Some (a\<lparr>slotSize := sz\<rparr>))))"

definition uninit_slot_allocator :: "slot_alloc_t option \<Rightarrow> int" where
  "uninit_slot_allocator allocator =
     (case allocator of None \<Rightarrow> - 1 | Some a \<Rightarrow> if invalid_slot_alloc a then - 1 else 0)"

definition slot_malloc ::
  "u32 lheap \<Rightarrow> slot_alloc_t option \<Rightarrow> u32 \<Rightarrow> (u32 \<times> u32 lheap) option" where
  "slot_malloc h allocator sz =
     (case allocator of
        None \<Rightarrow> Some (0, h)
      | Some a \<Rightarrow>
          if invalid_slot_alloc a then Some (0, h)
          else if sz \<le> 0 \<or> sz > slotSize a then Some (0, h)
          else if list_empty h (freeSlots a) then Some (0, h)
          else (case nextp h (freeSlots a) of
                  None \<Rightarrow> None
                | Some slot \<Rightarrow>
                    (case list_del h slot of None \<Rightarrow> None | Some h1 \<Rightarrow> Some (slot, h1))))"

definition slot_free :: "u32 lheap \<Rightarrow> slot_alloc_t option \<Rightarrow> u32 \<Rightarrow> u32 lheap option" where
  "slot_free h allocator mem =
     (case allocator of
        None \<Rightarrow> Some h
      | Some a \<Rightarrow>
          if invalid_slot_alloc a then Some h
          else if mem = 0 then Some h
          else (let chunkEnd = chunkMem a + chunkSize a
                in if mem \<ge> chunkEnd \<or> mem < chunkMem a then Some h
                   else list_add_tail h mem (freeSlots a)))"

definition slot_alloc_dump :: "nat \<Rightarrow> u32 lheap \<Rightarrow> slot_alloc_t option \<Rightarrow> (u32 \<times> nat) list option" where
  \<comment> \<open>the lines printed in a debug build: slot address and running number; \<open>fuel\<close> bounds the walk\<close>
  "slot_alloc_dump fuel h allocator =
     (case allocator of
        None \<Rightarrow> Some []
      | Some a \<Rightarrow>
          if invalid_slot_alloc a then Some []
          else map_option (\<lambda>xs. zip xs [1..<Suc (length xs)]) (list_for_each fuel h (freeSlots a)))"

section \<open>Invariant\<close>

definition slots :: "slot_alloc_t \<Rightarrow> u32 list" where
  "slots a = map (\<lambda>i. chunkMem a + of_nat i * slotSize a) [0..<unat (chunkSize a div slotSize a)]"

definition slot_geom :: "slot_alloc_t \<Rightarrow> bool" where
  \<comment> \<open>the chunk does not wrap around the address space and the head is outside of it\<close>
  "slot_geom a \<longleftrightarrow> \<not> invalid_slot_alloc a \<and> unat (chunkMem a) + unat (chunkSize a) < 2 ^ 32 \<and>
     (unat (freeSlots a) < unat (chunkMem a) \<or> unat (chunkMem a) + unat (chunkSize a) \<le> unat (freeSlots a))"

definition slot_inv :: "u32 lheap \<Rightarrow> slot_alloc_t \<Rightarrow> u32 list \<Rightarrow> u32 set \<Rightarrow> bool" where
  \<comment> \<open>\<open>free\<close> is the free list and \<open>used\<close> the set of slots handed out\<close>
  "slot_inv h a free used \<longleftrightarrow> slot_geom a \<and> 8 \<le> slotSize a \<and> dlist h (freeSlots a) free \<and>
     set free \<inter> used = {} \<and> set free \<union> used = set (slots a)"

lemma slot_addr:
  assumes "slot_geom a" "i < unat (chunkSize a div slotSize a)"
  shows "unat (chunkMem a + of_nat i * slotSize a) = unat (chunkMem a) + i * unat (slotSize a)"
    and "unat (chunkMem a) + i * unat (slotSize a) + unat (slotSize a) \<le> unat (chunkMem a) + unat (chunkSize a)"
proof -
  let ?s = "unat (slotSize a)" and ?c = "unat (chunkSize a)" and ?m = "unat (chunkMem a)"
  have "Suc i \<le> ?c div ?s" using assms(2) by (simp add: unat_div)
  then have le: "Suc i * ?s \<le> ?c" by (metis div_times_less_eq_dividend le_trans mult_le_mono1)
  then show "?m + i * ?s + ?s \<le> ?m + ?c" by simp
  have b: "?m + i * ?s < 2 ^ 32" using le assms(1) by (simp add: slot_geom_def)
  have "chunkMem a + of_nat i * slotSize a = of_nat (?m + i * ?s)" by simp
  then show "unat (chunkMem a + of_nat i * slotSize a) = ?m + i * ?s"
    using b by (simp only: unat_of_nat) simp
qed

lemma slots_distinct: "slot_geom a \<Longrightarrow> distinct (slots a)"
proof -
  assume g: "slot_geom a"
  then have s: "0 < unat (slotSize a)" by (simp add: slot_geom_def invalid_slot_alloc_def unat_gt_0)
  have "inj_on (\<lambda>i. chunkMem a + of_nat i * slotSize a) (set [0..<unat (chunkSize a div slotSize a)])"
  proof (rule inj_onI)
    fix i j assume ij: "i \<in> set [0..<unat (chunkSize a div slotSize a)]"
      "j \<in> set [0..<unat (chunkSize a div slotSize a)]"
      "chunkMem a + of_nat i * slotSize a = chunkMem a + of_nat j * slotSize a"
    then have "unat (chunkMem a) + i * unat (slotSize a) = unat (chunkMem a) + j * unat (slotSize a)"
      using slot_addr(1) [OF g] by (metis atLeastLessThan_iff set_upt)
    then show "i = j" using s by simp
  qed
  then show ?thesis by (simp add: slots_def distinct_map)
qed

lemma slots_in_chunk:
  assumes "slot_geom a" "p \<in> set (slots a)"
  shows "unat (chunkMem a) \<le> unat p" "unat p + unat (slotSize a) \<le> unat (chunkMem a) + unat (chunkSize a)"
    "p \<noteq> freeSlots a" "p \<noteq> 0"
proof -
  obtain i where i: "i < unat (chunkSize a div slotSize a)" "p = chunkMem a + of_nat i * slotSize a"
    using assms(2) by (auto simp: slots_def)
  note ad = slot_addr [OF assms(1) i(1), folded i(2)]
  show "unat (chunkMem a) \<le> unat p" using ad(1) by simp
  show e: "unat p + unat (slotSize a) \<le> unat (chunkMem a) + unat (chunkSize a)" using ad by simp
  have "0 < unat (slotSize a)" "0 < unat (chunkMem a)"
    using assms(1) by (auto simp: slot_geom_def invalid_slot_alloc_def unat_gt_0)
  then show "p \<noteq> freeSlots a" "p \<noteq> 0"
    using assms(1) e ad(1) by (auto simp: slot_geom_def)
qed

section \<open>The operations\<close>

lemma slot_loop_ring:
  assumes "dlist h head xs" "distinct (head # xs @ map (\<lambda>i. mem + of_nat i * sz) [0..<n])"
  shows "\<exists>h'. slot_loop n sz mem head h = Some h' \<and> dlist h' head (xs @ map (\<lambda>i. mem + of_nat i * sz) [0..<n])"
  using assms
proof (induction n arbitrary: mem h xs)
  case (Suc n)
  have seq: "map (\<lambda>i. mem + of_nat i * sz) [0..<Suc n] = mem # map (\<lambda>i. mem + sz + of_nat i * sz) [0..<n]"
    unfolding map_upt_Suc
    by (simp only: of_nat_Suc of_nat_0 mult_zero_left add_0_right distrib_right mult_1 add.assoc) simp
  have "mem \<notin> set (head # xs)" using Suc.prems(2) unfolding seq by auto
  then obtain h1 where h1: "list_add_tail h mem head = Some h1" "dlist h1 head (xs @ [mem])"
    using kl.enqueue [OF Suc.prems(1)] by blast
  have "distinct (head # (xs @ [mem]) @ map (\<lambda>i. mem + sz + of_nat i * sz) [0..<n])"
    using Suc.prems(2) unfolding seq by simp
  from Suc.IH [OF h1(2) this] show ?case using h1(1) unfolding seq by simp
qed simp

lemma slot_round_bounds: "8 \<le> slot_round s"
  by (simp add: slot_round_def Let_def not_less)

lemma slot_malloc_inv:
  assumes "slot_inv h a free used" "0 < sz" "sz \<le> slotSize a"
  shows "case free of
      [] \<Rightarrow> slot_malloc h (Some a) sz = Some (0, h)
    | p # free' \<Rightarrow> \<exists>h'. slot_malloc h (Some a) sz = Some (p, h') \<and> slot_inv h' a free' (insert p used)"
proof (cases free)
  case Nil
  then show ?thesis
    using assms list_empty_ring [of h "freeSlots a" "[]"]
    by (auto simp: slot_inv_def slot_geom_def slot_malloc_def)
next
  case (Cons p free')
  then have d: "dlist h (freeSlots a) (p # free')" and v: "\<not> invalid_slot_alloc a"
    using assms(1) by (auto simp: slot_inv_def slot_geom_def)
  obtain h' where h': "list_del h p = Some h'" "dlist h' (freeSlots a) free'" and f: "nextp h (freeSlots a) = Some p"
    using kl.dequeue [OF d] by blast
  have "p \<notin> set free'" using kl.rep_distinct [OF d] by simp
  then have "slot_inv h' a free' (insert p used)"
    using assms(1) Cons h'(2) by (auto simp: slot_inv_def)
  then show ?thesis
    using Cons v f h'(1) assms(2,3) list_empty_ring [OF d]
    by (auto simp: slot_malloc_def word_le_nat_alt word_less_nat_alt)
qed

lemma slot_free_inv:
  assumes "slot_inv h a free used" "p \<in> used"
  shows "\<exists>h'. slot_free h (Some a) p = Some h' \<and> slot_inv h' a (free @ [p]) (used - {p})"
proof -
  have g: "slot_geom a" and p: "p \<in> set (slots a)" and d: "dlist h (freeSlots a) free"
    using assms by (auto simp: slot_inv_def)
  note c = slots_in_chunk [OF g p]
  have v: "\<not> invalid_slot_alloc a" "0 < unat (slotSize a)" and nw: "unat (chunkMem a) + unat (chunkSize a) < 2 ^ 32"
    using g by (auto simp: slot_geom_def invalid_slot_alloc_def unat_gt_0)
  have e: "unat (chunkMem a + chunkSize a) = unat (chunkMem a) + unat (chunkSize a)"
    using nw by (simp add: unat_word_ariths)
  then have "\<not> p \<ge> chunkMem a + chunkSize a" "\<not> p < chunkMem a"
    using c(1,2) v(2) unfolding word_le_nat_alt word_less_nat_alt by linarith+
  moreover have "p \<notin> set (freeSlots a # free)" using assms c(3) by (auto simp: slot_inv_def)
  then obtain h' where "list_add_tail h p (freeSlots a) = Some h'" "dlist h' (freeSlots a) (free @ [p])"
    using kl.enqueue [OF d] by blast
  ultimately show ?thesis
    using v c(4) assms by (auto simp: slot_free_def slot_inv_def)
qed

lemma slot_inv_count:
  assumes "slot_inv h a free used"
  shows "length free + card used = length (slots a)" "finite used"
proof -
  have "distinct free" using assms kl.rep_distinct by (fastforce simp: slot_inv_def)
  moreover have "finite used" using assms unfolding slot_inv_def by (metis finite_Un finite_set)
  moreover have "card (set free \<union> used) = length (slots a)"
    using assms slots_distinct distinct_card by (metis slot_inv_def)
  moreover have "card (set free \<union> used) = card (set free) + card used"
    using assms calculation by (intro card_Un_disjoint) (auto simp: slot_inv_def)
  ultimately show "length free + card used = length (slots a)" "finite used"
    by (simp_all add: distinct_card)
qed

lemma init_slot_allocator_inv:
  assumes "slot_geom a"
  defines "a' \<equiv> a\<lparr>slotSize := slot_round (slotSize a)\<rparr>"
  shows "slot_geom a'" "\<exists>h'. init_slot_allocator h (Some a) = Some (0, h', Some a') \<and> slot_inv h' a' (slots a') {}"
proof -
  have "0 < slot_round (slotSize a)"
    using slot_round_bounds [of "slotSize a"] by (simp add: word_le_nat_alt word_less_nat_alt)
  then show g: "slot_geom a'" using assms by (auto simp: slot_geom_def invalid_slot_alloc_def)
  have "distinct (freeSlots a # [] @ slots a')"
    using slots_distinct [OF g] slots_in_chunk(3) [OF g] by (auto simp: a'_def)
  then obtain h' where "slot_loop (unat (chunkSize a div slotSize a')) (slotSize a') (chunkMem a) (freeSlots a)
      (INIT_LIST_HEAD h (freeSlots a)) = Some h'" "dlist h' (freeSlots a) ([] @ slots a')"
    using slot_loop_ring [OF kl.rep_init, of "freeSlots a" "chunkMem a" "slotSize a'" "unat (chunkSize a div slotSize a')" h]
    by (auto simp: slots_def a'_def)
  then show "\<exists>h'. init_slot_allocator h (Some a) = Some (0, h', Some a') \<and> slot_inv h' a' (slots a') {}"
    using assms g slot_round_bounds
    by (simp add: init_slot_allocator_def slot_inv_def slot_geom_def Let_def a'_def)
qed

section \<open>Properties\<close>

text \<open>
  Initialising the slot allocator.  For a valid allocator whose chunk lies in the address space
  and does not contain the list head, \<open>init_slot_allocator\<close> succeeds, rounds the slot size to at
  least 8 bytes and puts into the free list, in address order, all slots that fit: they are
  pairwise disjoint and inside the chunk.
\<close>

theorem init_slot_allocator_slots:
  assumes "slot_geom a"
  shows "\<exists>h' a'. init_slot_allocator h (Some a) = Some (0, h', Some a') \<and>
    a' = a\<lparr>slotSize := slot_round (slotSize a)\<rparr> \<and> slot_inv h' a' (slots a') {} \<and>
    length (slots a') = unat (chunkSize a) div unat (slotSize a') \<and>
    (\<forall>i < length (slots a'). unat (slots a' ! i) = unat (chunkMem a) + i * unat (slotSize a') \<and>
      unat (slots a' ! i) + unat (slotSize a') \<le> unat (chunkMem a) + unat (chunkSize a))"
proof -
  let ?a = "a\<lparr>slotSize := slot_round (slotSize a)\<rparr>"
  note i = init_slot_allocator_inv [OF assms]
  have "length (slots ?a) = unat (chunkSize a) div unat (slotSize ?a)"
    by (simp add: slots_def unat_div)
  moreover have "\<forall>i < length (slots ?a). unat (slots ?a ! i) = unat (chunkMem a) + i * unat (slotSize ?a) \<and>
      unat (slots ?a ! i) + unat (slotSize ?a) \<le> unat (chunkMem a) + unat (chunkSize a)"
    using slot_addr [OF i(1)] by (auto simp: slots_def)
  ultimately show ?thesis using i(2) [of h] by blast
qed

definition demo_slots :: slot_alloc_t where
  \<comment> \<open>two 8-byte slots at addresses 16 and 24, the head at 64\<close>
  "demo_slots = \<lparr>slotSize = 5, freeSlots = 64, chunkMem = 16, chunkSize = 20\<rparr>"

lemma demo_slots_geom: "slot_geom demo_slots"
  by (simp add: slot_geom_def demo_slots_def invalid_slot_alloc_def)

theorem init_slot_allocator_slots_witness:
  "\<exists>h' a'. init_slot_allocator \<lparr>nextp = (\<lambda>_. None), prevp = (\<lambda>_. None)\<rparr> (Some demo_slots) = Some (0, h', Some a') \<and>
     slot_inv h' a' (slots a') {}"
  using init_slot_allocator_slots [OF demo_slots_geom, of "\<lparr>nextp = (\<lambda>_. None), prevp = (\<lambda>_. None)\<rparr>"] by blast

text \<open>
  C28. The slot allocator is a queue of free slots.  On a consistent state: a request of 1 up to
  \<open>slotSize\<close> bytes takes the oldest free slot, which is disjoint from every slot handed out, and
  fails exactly when all slots are out; a request outside these bounds fails without a change;
  freeing a slot handed out appends it to the queue; a null pointer and any pointer outside the
  chunk are ignored.  Consistency is kept, so no slot is lost or duplicated.
\<close>

theorem slot_allocator_queue:
  assumes "slot_inv h a free used"
  shows "(0 < sz \<and> sz \<le> slotSize a \<longrightarrow>
      (if card used = length (slots a) then slot_malloc h (Some a) sz = Some (0, h)
       else \<exists>h'. slot_malloc h (Some a) sz = Some (hd free, h') \<and> hd free \<notin> used \<and>
              slot_inv h' a (tl free) (insert (hd free) used))) \<and>
    (\<not> (0 < sz \<and> sz \<le> slotSize a) \<longrightarrow> slot_malloc h (Some a) sz = Some (0, h)) \<and>
    (p \<in> used \<longrightarrow> (\<exists>h'. slot_free h (Some a) p = Some h' \<and> slot_inv h' a (free @ [p]) (used - {p}))) \<and>
    (p = 0 \<or> unat p < unat (chunkMem a) \<or> unat (chunkMem a) + unat (chunkSize a) \<le> unat p \<longrightarrow>
      slot_free h (Some a) p = Some h)"
proof (intro conjI impI)
  assume "0 < sz \<and> sz \<le> slotSize a"
  then have m: "case free of
      [] \<Rightarrow> slot_malloc h (Some a) sz = Some (0, h)
    | p # free' \<Rightarrow> \<exists>h'. slot_malloc h (Some a) sz = Some (p, h') \<and> slot_inv h' a free' (insert p used)"
    using slot_malloc_inv [OF assms] by blast
  have c: "length free + card used = length (slots a)" using slot_inv_count [OF assms] by blast
  show "if card used = length (slots a) then slot_malloc h (Some a) sz = Some (0, h)
       else \<exists>h'. slot_malloc h (Some a) sz = Some (hd free, h') \<and> hd free \<notin> used \<and>
              slot_inv h' a (tl free) (insert (hd free) used)"
  proof (cases free)
    case Nil
    then show ?thesis using m c by simp
  next
    case (Cons q free')
    moreover have "q \<notin> used" using assms Cons by (auto simp: slot_inv_def)
    ultimately show ?thesis using m c by auto
  qed
next
  assume "\<not> (0 < sz \<and> sz \<le> slotSize a)"
  then show "slot_malloc h (Some a) sz = Some (0, h)"
    by (auto simp: slot_malloc_def not_less not_le word_gt_0_no)
next
  assume "p \<in> used"
  then show "\<exists>h'. slot_free h (Some a) p = Some h' \<and> slot_inv h' a (free @ [p]) (used - {p})"
    using slot_free_inv [OF assms] by blast
next
  assume out: "p = 0 \<or> unat p < unat (chunkMem a) \<or> unat (chunkMem a) + unat (chunkSize a) \<le> unat p"
  have "unat (chunkMem a + chunkSize a) = unat (chunkMem a) + unat (chunkSize a)"
    using assms by (simp add: slot_inv_def slot_geom_def unat_word_ariths)
  then show "slot_free h (Some a) p = Some h"
    using out by (auto simp: slot_free_def word_le_nat_alt word_less_nat_alt)
qed

theorem slot_allocator_queue_witness:
  "\<exists>h a p h'. init_slot_allocator \<lparr>nextp = (\<lambda>_. None), prevp = (\<lambda>_. None)\<rparr> (Some demo_slots) = Some (0, h, Some a) \<and>
     slot_malloc h (Some a) 5 = Some (p, h') \<and> p = 16"
proof -
  obtain h a where i: "init_slot_allocator \<lparr>nextp = (\<lambda>_. None), prevp = (\<lambda>_. None)\<rparr> (Some demo_slots) = Some (0, h, Some a)"
    "slot_inv h a (slots a) {}" "a = demo_slots\<lparr>slotSize := slot_round (slotSize demo_slots)\<rparr>"
    using init_slot_allocator_inv(2) [OF demo_slots_geom] by blast
  have "slot_round 5 = 8" by (simp add: slot_round_def Let_def)
  then have a: "a = \<lparr>slotSize = 8, freeSlots = 64, chunkMem = 16, chunkSize = 20\<rparr>"
    using i(3) by (simp add: demo_slots_def)
  then have "slots a = [16, 24]" by (simp add: slots_def upt_rec)
  with slot_allocator_queue [OF i(2), of 5 0] show ?thesis using i(1) a by auto
qed

end
