(* ===== verification/Block_Tiling.thy ===== *)
theory Block_Tiling
  imports Ckits_Prelude
begin

text \<open>
  What the pool allocator (\<open>myAlloc.c\<close>) and the shared-memory allocator (\<open>shmAlloc.c\<close>) have in
  common: a chunk filled by blocks, each a size word followed by its payload.  A block is named
  by the address of its payload; \<open>sz p\<close> is the payload size.  Cutting a block in two and merging
  two neighbours keep the chunk filled.
\<close>

section \<open>Size macros\<close>

text \<open>The same macros in both files; \<open>sizeof(size_t)\<close> and \<open>sizeof(uint32_t)\<close> are 4.\<close>

definition POOLSIZE_TO_EFFTSIZE :: "u32 \<Rightarrow> u32" where "POOLSIZE_TO_EFFTSIZE x = x - 4"

definition EFFTSIZE_TO_POOLSIZE :: "u32 \<Rightarrow> u32" where "EFFTSIZE_TO_POOLSIZE x = x + 4"

section \<open>Tilings\<close>

text \<open>\<open>tiles sz s bs e\<close>: the blocks \<open>bs\<close>, each with its size word, fill the addresses from \<open>s\<close> to \<open>e\<close>.\<close>

fun tiles :: "(u32 \<Rightarrow> u32) \<Rightarrow> nat \<Rightarrow> u32 list \<Rightarrow> nat \<Rightarrow> bool" where
  "tiles sz s [] e \<longleftrightarrow> s = e"
| "tiles sz s (p # ps) e \<longleftrightarrow> unat p = s + 4 \<and> tiles sz (unat p + unat (sz p)) ps e"

lemma tiles_append: "tiles sz s (as @ bs) e \<longleftrightarrow> (\<exists>m. tiles sz s as m \<and> tiles sz m bs e)"
  by (induction as arbitrary: s) auto

lemma tiles_cong: "(\<And>p. p \<in> set bs \<Longrightarrow> sz p = sz' p) \<Longrightarrow> tiles sz s bs e = tiles sz' s bs e"
  by (induction bs arbitrary: s) auto

lemma tiles_bounds:
  assumes "tiles sz s bs e"
  shows "s \<le> e" "p \<in> set bs \<Longrightarrow> s + 4 \<le> unat p \<and> unat p + unat (sz p) \<le> e"
  using assms
proof (induction bs arbitrary: s)
  case (Cons q bs)
  { case 1 then show ?case using Cons.IH(1) by fastforce }
  { case 2
    then have "unat q + unat (sz q) \<le> e" using Cons.IH(1) by auto
    with 2 Cons.IH(2) show ?case by fastforce }
qed simp_all

lemma tiles_split:
  assumes "tiles sz s bs e" "p \<in> set bs"
  obtains as cs where "bs = as @ p # cs" "tiles sz s as (unat p - 4)" "4 \<le> unat p"
    "tiles sz (unat p + unat (sz p)) cs e"
proof -
  obtain as cs where b: "bs = as @ p # cs" using assms(2) by (metis split_list)
  then obtain m where "tiles sz s as m" "tiles sz m (p # cs) e" using assms(1) tiles_append by metis
  then have "tiles sz s as (unat p - 4)" "4 \<le> unat p" "tiles sz (unat p + unat (sz p)) cs e" by auto
  then show thesis using b that by blast
qed

lemma tiles_apart:
  assumes "tiles sz s bs e" "p \<in> set bs" "q \<in> set bs" "p \<noteq> q"
  shows "unat p + unat (sz p) + 4 \<le> unat q \<or> unat q + unat (sz q) + 4 \<le> unat p"
proof -
  obtain as cs where b: "bs = as @ p # cs" and a: "tiles sz s as (unat p - 4)" "4 \<le> unat p"
    and c: "tiles sz (unat p + unat (sz p)) cs e"
    using tiles_split [OF assms(1,2)] .
  consider "q \<in> set as" | "q \<in> set cs" using assms(3,4) b by auto
  then show ?thesis
  proof cases
    case 1
    then show ?thesis using tiles_bounds(2) [OF a(1), of q] a(2) by linarith
  next
    case 2
    then show ?thesis using tiles_bounds(2) [OF c, of q] by linarith
  qed
qed

lemma tiles_distinct:
  assumes "tiles sz s bs e"
  shows "distinct bs"
  using assms
proof (induction bs arbitrary: s)
  case (Cons p bs)
  then have t: "tiles sz (unat p + unat (sz p)) bs e" by (metis tiles.simps(2))
  have "p \<notin> set bs" using tiles_bounds(2) [OF t, of p] by auto
  then show ?case using Cons.IH [OF t] by simp
qed simp

lemma tiles_neighbour:
  assumes "tiles sz s bs e" "p \<in> set bs" "q \<in> set bs" "unat p + unat (sz p) + 4 = unat q"
  obtains as cs where "bs = as @ p # q # cs" "tiles sz s as (unat p - 4)" "4 \<le> unat p"
    "tiles sz (unat q + unat (sz q)) cs e"
proof -
  obtain as cs where b: "bs = as @ p # cs" and a: "tiles sz s as (unat p - 4)" "4 \<le> unat p"
    and c: "tiles sz (unat p + unat (sz p)) cs e"
    using tiles_split [OF assms(1,2)] .
  have "q \<notin> set as" using tiles_bounds(2) [OF a(1), of q] assms(4) by auto
  moreover have "q \<noteq> p" using assms(4) by auto
  ultimately have "q \<in> set cs" using assms(3) b by auto
  then obtain c0 cs' where cs: "cs = c0 # cs'" by (cases cs) auto
  then have "unat c0 = unat q" using c assms(4) by simp
  then have "c0 = q" by (simp add: word_unat_eq_iff)
  then show thesis using that b a c cs by auto
qed

lemma tiles_merge:
  assumes "tiles sz s bs e" "e < 2 ^ 32" "p \<in> set bs" "q \<in> set bs" "unat p + unat (sz p) + 4 = unat q"
  defines "sz' \<equiv> sz(p := sz p + EFFTSIZE_TO_POOLSIZE (sz q))"
  shows "\<exists>bs'. tiles sz' s bs' e \<and> set bs' = set bs - {q}" "unat (sz' p) = unat (sz p) + unat (sz q) + 4"
proof -
  obtain as cs where b: "bs = as @ p # q # cs" and a: "tiles sz s as (unat p - 4)" "4 \<le> unat p"
    and c: "tiles sz (unat q + unat (sz q)) cs e"
    using tiles_neighbour [OF assms(1,3-5)] .
  have "unat q + unat (sz q) \<le> e" using tiles_bounds(1) [OF c] .
  then have n: "unat (sz p) + (unat (sz q) + 4) < 2 ^ 32" using assms(2,5) by linarith
  have "sz' p = of_nat (unat (sz p) + (unat (sz q) + 4))"
    by (simp add: sz'_def EFFTSIZE_TO_POOLSIZE_def)
  then show u: "unat (sz' p) = unat (sz p) + unat (sz q) + 4" using n by (simp only: unat_of_nat) simp
  have d: "distinct bs" using tiles_distinct [OF assms(1)] .
  have as: "tiles sz' s as (unat p - 4)" using a(1) d b by (subst tiles_cong [of as _ sz]) (auto simp: sz'_def)
  have "tiles sz' (unat q + unat (sz q)) cs e"
    using c d b by (subst tiles_cong [of cs _ sz]) (auto simp: sz'_def)
  moreover have "unat p + unat (sz' p) = unat q + unat (sz q)" using u assms(5) by simp
  ultimately have "tiles sz' (unat p - 4) (p # cs) e" using a(2) by simp
  then have "tiles sz' s (as @ p # cs) e" using as unfolding tiles_append by blast
  moreover have "set (as @ p # cs) = set bs - {q}" using d b by auto
  ultimately show "\<exists>bs'. tiles sz' s bs' e \<and> set bs' = set bs - {q}" by blast
qed

lemma tiles_cut:
  assumes "tiles sz s bs e" "e < 2 ^ 32" "p \<in> set bs" "unat k + 4 \<le> unat (sz p)"
  defines "q \<equiv> p + k + 4"
  defines "sz' \<equiv> (sz(q := POOLSIZE_TO_EFFTSIZE (sz p - k)))(p := k)"
  shows "\<exists>bs'. tiles sz' s bs' e \<and> set bs' = insert q (set bs)" "unat q = unat p + unat k + 4" "q \<notin> set bs"
    "unat (sz' q) = unat (sz p) - unat k - 4"
proof -
  obtain as cs where b: "bs = as @ p # cs" and a: "tiles sz s as (unat p - 4)" "4 \<le> unat p"
    and c: "tiles sz (unat p + unat (sz p)) cs e"
    using tiles_split [OF assms(1,3)] .
  have le: "unat p + unat (sz p) \<le> e" using tiles_bounds(1) [OF c] .
  have "q = of_nat (unat p + unat k + 4)" by (simp add: q_def)
  moreover have "unat p + unat k + 4 < 2 ^ 32" using le assms(2,4) by linarith
  ultimately show u: "unat q = unat p + unat k + 4" by (simp only: unat_of_nat) simp
  show nq: "q \<notin> set bs"
  proof
    assume "q \<in> set bs"
    moreover have "q \<noteq> p" using u by auto
    ultimately show False using tiles_apart [OF assms(1,3), of q] u assms(4) by auto
  qed
  have "sz p - k - 4 = of_nat (unat (sz p) - unat k - 4)"
    using assms(4) by (simp add: of_nat_diff)
  moreover have "unat (sz p) - unat k - 4 < 2 ^ 32" using le assms(2) by linarith
  ultimately have "unat (sz p - k - 4) = unat (sz p) - unat k - 4" by (simp only: unat_of_nat) simp
  moreover have pq: "p \<noteq> q" using u by auto
  ultimately show v: "unat (sz' q) = unat (sz p) - unat k - 4"
    by (simp add: sz'_def POOLSIZE_TO_EFFTSIZE_def)
  have d: "distinct bs" using tiles_distinct [OF assms(1)] .
  have "tiles sz' s as (unat p - 4)" using a(1) d b nq by (subst tiles_cong [of as _ sz]) (auto simp: sz'_def)
  moreover have "tiles sz' (unat p + unat (sz p)) cs e"
    using c d b nq by (subst tiles_cong [of cs _ sz]) (auto simp: sz'_def)
  then have "tiles sz' (unat p - 4) (p # q # cs) e" using u v a(2) assms(4) pq by (simp add: sz'_def)
  ultimately have "tiles sz' s (as @ p # q # cs) e" unfolding tiles_append by blast
  moreover have "set (as @ p # q # cs) = insert q (set bs)" using b by auto
  ultimately show "\<exists>bs'. tiles sz' s bs' e \<and> set bs' = insert q (set bs)" by blast
qed

section \<open>Filled chunks\<close>

definition adjacent :: "(u32 \<Rightarrow> u32) \<Rightarrow> u32 \<Rightarrow> u32 \<Rightarrow> bool" where
  "adjacent sz p q \<longleftrightarrow> unat p + unat (sz p) + 4 = unat q"

definition heap_ok :: "(u32 \<Rightarrow> u32) \<Rightarrow> nat \<Rightarrow> nat \<Rightarrow> u32 set \<Rightarrow> bool" where
  \<comment> \<open>the blocks fill the chunk and each has room for its list links\<close>
  "heap_ok sz s e B \<longleftrightarrow> (\<exists>bs. tiles sz s bs e \<and> set bs = B) \<and> (\<forall>p \<in> B. 8 \<le> unat (sz p))"

definition coalesced :: "(u32 \<Rightarrow> u32) \<Rightarrow> u32 set \<Rightarrow> bool" where
  "coalesced sz F \<longleftrightarrow> (\<forall>p \<in> F. \<forall>q \<in> F. \<not> adjacent sz p q)"

lemma heap_ok_bounds:
  assumes "heap_ok sz s e B" "p \<in> B"
  shows "s + 4 \<le> unat p" "unat p + unat (sz p) \<le> e" "8 \<le> unat (sz p)"
  using assms tiles_bounds(2) by (auto simp: heap_ok_def)

lemma heap_ok_apart:
  assumes "heap_ok sz s e B" "p \<in> B" "q \<in> B" "p \<noteq> q"
  shows "unat p + unat (sz p) + 4 \<le> unat q \<or> unat q + unat (sz q) + 4 \<le> unat p"
  using assms tiles_apart unfolding heap_ok_def by metis

lemma heap_ok_merge:
  assumes "heap_ok sz s e B" "e < 2 ^ 32" "p \<in> B" "q \<in> B" "adjacent sz p q"
  shows "heap_ok (sz(p := sz p + EFFTSIZE_TO_POOLSIZE (sz q))) s e (B - {q})"
proof -
  obtain bs where b: "tiles sz s bs e" "set bs = B" using assms(1) by (auto simp: heap_ok_def)
  note m = tiles_merge [OF b(1) assms(2), of p q] 
  have "8 \<le> unat (sz p)" using heap_ok_bounds(3) [OF assms(1,3)] .
  then show ?thesis
    using m assms(1,3-5) b(2) by (auto simp: heap_ok_def adjacent_def)
qed

lemma merged_size:
  assumes "heap_ok sz s e B" "e < 2 ^ 32" "p \<in> B" "q \<in> B" "adjacent sz p q"
  shows "unat (sz p + EFFTSIZE_TO_POOLSIZE (sz q)) = unat (sz p) + unat (sz q) + 4"
proof -
  obtain bs where b: "tiles sz s bs e" "set bs = B" using assms(1) by (auto simp: heap_ok_def)
  show ?thesis using tiles_merge(2) [OF b(1) assms(2), of p q] assms(3-5) b(2) by (simp add: adjacent_def)
qed

lemma heap_ok_cut:
  assumes "heap_ok sz s e B" "e < 2 ^ 32" "p \<in> B" "8 \<le> unat k" "unat k + 12 \<le> unat (sz p)"
  defines "sz' \<equiv> (sz(p + k + 4 := POOLSIZE_TO_EFFTSIZE (sz p - k)))(p := k)"
  shows "heap_ok sz' s e (insert (p + k + 4) B)" "p + k + 4 \<notin> B" "unat (p + k + 4) = unat p + unat k + 4"
    "unat (sz' (p + k + 4)) = unat (sz p) - unat k - 4"
proof -
  obtain bs where b: "tiles sz s bs e" "set bs = B" using assms(1) by (auto simp: heap_ok_def)
  have "unat k + 4 \<le> unat (sz p)" "p \<in> set bs" using assms(3,5) b(2) by auto
  note c = tiles_cut [OF b(1) assms(2) this(2,1), folded sz'_def, unfolded b(2)]
  show "p + k + 4 \<notin> B" "unat (p + k + 4) = unat p + unat k + 4"
    "unat (sz' (p + k + 4)) = unat (sz p) - unat k - 4"
    using c by auto
  moreover have "8 \<le> unat (sz' x)" if "x \<in> insert (p + k + 4) B" for x
    using that assms(1,3,4,5) c(4) by (auto simp: heap_ok_def sz'_def split: if_splits)
  ultimately show "heap_ok sz' s e (insert (p + k + 4) B)"
    using c(1) by (auto simp: heap_ok_def)
qed

lemma word_adjacent:
  assumes "heap_ok sz s e B" "e \<le> 2 ^ 32 - 8" "4 \<le> s" "cur \<in> B" "n \<in> B"
  shows "n - 4 + EFFTSIZE_TO_POOLSIZE (sz n) = cur - 4 \<longleftrightarrow> adjacent sz n cur"
proof -
  note c = heap_ok_bounds [OF assms(1,4)] and n = heap_ok_bounds [OF assms(1,5)]
  have "n - 4 + EFFTSIZE_TO_POOLSIZE (sz n) = of_nat (unat n + unat (sz n))"
    by (simp add: EFFTSIZE_TO_POOLSIZE_def)
  then have "unat (n - 4 + EFFTSIZE_TO_POOLSIZE (sz n)) = unat n + unat (sz n)"
    using n(2) assms(2) by (simp only: unat_of_nat) simp
  moreover have "unat (cur - 4) = unat cur - 4"
    using c(1) assms(3) by (subst unat_sub) (simp_all add: word_le_nat_alt)
  ultimately show ?thesis using c(1) by (auto simp: adjacent_def word_unat_eq_iff)
qed

lemma coalesced_keep:
  assumes "coalesced sz S" "S' \<subseteq> S" "\<And>p. p \<in> S' \<Longrightarrow> sz' p = sz p"
  shows "coalesced sz' S'"
proof -
  have "\<not> adjacent sz' p q" if "p \<in> S'" "q \<in> S'" for p q
  proof -
    have "\<not> adjacent sz p q" using assms(1,2) that by (auto simp: coalesced_def)
    then show ?thesis using assms(3) [OF that(1)] by (simp add: adjacent_def)
  qed
  then show ?thesis by (simp add: coalesced_def)
qed

end
