(* ===== verification/Pool_Alloc.thy ===== *)
theory Pool_Alloc
  imports Block_Tiling
begin

text \<open>
  The pool allocator of \<open>libckits/myAlloc.c\<close>: blocks of varying size with a size word in front of
  the payload.  A block is named by its payload address, which is also the address of its
  \<open>list\<close> member while it is free; its \<open>size\<close> field is the word before that address and is read
  through \<open>blkSize\<close>.  The free ring is the list of its blocks (the pointer level is the theory of
  \<open>list.h\<close>).  The list head is the field \<open>freeSlots\<close> of the allocator, so that the word in front
  of it, the field \<open>reserved\<close>, is what the code reads as the size of the head.  \<open>None\<close> as the
  result of an operation: the head has been unlinked as if it were a block.
\<close>

section \<open>Model\<close>

unbundle bit_operations_syntax

record pool_alloc_t =
  reserved :: u32
  freeSlots :: "u32 list"
  chunkMem :: u32
  chunkSize :: u32
  blkSize :: "u32 \<Rightarrow> u32" \<comment> \<open>the size words in memory\<close>

definition ALIGN_8BYTES :: "u32 \<Rightarrow> u32" where
  "ALIGN_8BYTES x = (x + 7) AND NOT 7"

definition init_pool_allocator :: "pool_alloc_t option \<Rightarrow> int \<times> pool_alloc_t option" where
  "init_pool_allocator allocator =
     (case allocator of
        None \<Rightarrow> (- 1, None)
      | Some a \<Rightarrow>
          if chunkMem a = 0 \<or> chunkSize a \<le> EFFTSIZE_TO_POOLSIZE 0 then (- 1, Some a)
          else (let memStart = ALIGN_8BYTES (chunkMem a); chunkEnd = chunkMem a + chunkSize a
                in if memStart \<ge> chunkEnd then (- 1, Some a)
                   else (0, Some (a\<lparr>freeSlots := [memStart + 4],
                                   blkSize := (blkSize a)(memStart + 4 := POOLSIZE_TO_EFFTSIZE (chunkSize a))\<rparr>))))"

definition uninit_pool_allocator :: "pool_alloc_t option \<Rightarrow> int" where
  "uninit_pool_allocator allocator =
     (case allocator of None \<Rightarrow> - 1 | Some a \<Rightarrow> if chunkMem a = 0 \<or> chunkSize a \<le> 0 then - 1 else 0)"

definition pool_insert :: "(u32 \<Rightarrow> u32) \<Rightarrow> u32 \<Rightarrow> u32 list \<Rightarrow> u32 list" where
  \<comment> \<open>the loop to the first block that is not smaller, and \<open>list_add\<close> behind it (behind the head when
    there is none)\<close>
  "pool_insert sz cur xs =
     (case dropWhile (\<lambda>n. \<not> sz n \<ge> sz cur) xs of
        [] \<Rightarrow> cur # xs
      | n # rest \<Rightarrow> takeWhile (\<lambda>n. \<not> sz n \<ge> sz cur) xs @ n # cur # rest)"

definition pool_malloc :: "pool_alloc_t option \<Rightarrow> u32 \<Rightarrow> (u32 \<times> pool_alloc_t option) option" where
  "pool_malloc allocator req =
     (case allocator of
        None \<Rightarrow> Some (0, None)
      | Some a \<Rightarrow>
          if chunkMem a = 0 \<or> chunkSize a \<le> 0 then Some (0, Some a)
          else if req \<le> 0 then Some (0, Some a)
          else (case find (\<lambda>n. blkSize a n \<ge> req) (freeSlots a) of
                  None \<Rightarrow> if reserved a \<ge> req then None else Some (0, Some a)
                | Some n \<Rightarrow>
                    (let xs = remove1 n (freeSlots a)
                     in if blkSize a n > ALIGN_8BYTES req + 12
                        then (let cur = n + ALIGN_8BYTES req + 4;
                                  sz1 = (blkSize a)(cur := POOLSIZE_TO_EFFTSIZE (blkSize a n - ALIGN_8BYTES req));
                                  sz2 = sz1(n := ALIGN_8BYTES req)
                              in Some (n, Some (a\<lparr>blkSize := sz2, freeSlots := pool_insert sz2 cur xs\<rparr>)))
                        else Some (n, Some (a\<lparr>freeSlots := xs\<rparr>)))))"

fun find_adj :: "(u32 \<Rightarrow> u32) \<Rightarrow> u32 \<Rightarrow> u32 list \<Rightarrow> (u32 \<times> bool) option" where
  \<comment> \<open>the first free block that ends where \<open>cur\<close> begins (\<open>True\<close>) or begins where it ends\<close>
  "find_adj sz cur [] = None"
| "find_adj sz cur (n # ns) =
     (if n - 4 + EFFTSIZE_TO_POOLSIZE (sz n) = cur - 4 then Some (n, True)
      else if cur - 4 + EFFTSIZE_TO_POOLSIZE (sz cur) = n - 4 then Some (n, False)
      else find_adj sz cur ns)"

lemma find_adj_in: "find_adj sz cur ns = Some (n, b) \<Longrightarrow> n \<in> set ns"
  by (induction ns) (auto split: if_splits)

function combine :: "(u32 \<Rightarrow> u32) \<Rightarrow> u32 \<Rightarrow> u32 list \<Rightarrow> (u32 \<Rightarrow> u32) \<times> u32 \<times> u32 list" where
  "combine sz cur xs =
     (case find_adj sz cur xs of
        None \<Rightarrow> (sz, cur, xs)
      | Some (n, True) \<Rightarrow> combine (sz(n := sz n + EFFTSIZE_TO_POOLSIZE (sz cur))) n (remove1 n xs)
      | Some (n, False) \<Rightarrow> combine (sz(cur := sz cur + EFFTSIZE_TO_POOLSIZE (sz n))) cur (remove1 n xs))"
  by pat_completeness auto
termination
  by (relation "measure (\<lambda>(sz, cur, xs). length xs)")
    (auto dest!: find_adj_in simp: length_remove1 intro!: diff_less length_pos_if_in_set)

declare combine.simps [simp del]

definition pool_free :: "pool_alloc_t option \<Rightarrow> u32 \<Rightarrow> pool_alloc_t option" where
  "pool_free allocator mem =
     (case allocator of
        None \<Rightarrow> None
      | Some a \<Rightarrow>
          if chunkMem a = 0 \<or> chunkSize a \<le> 0 then Some a
          else if mem = 0 then Some a
          else (let chunkEnd = chunkMem a + chunkSize a
                in if mem \<ge> chunkEnd \<or> mem < chunkMem a then Some a
                   else if blkSize a mem > chunkSize a then Some a
                   else (case combine (blkSize a) mem (freeSlots a) of
                           (sz, cur, xs) \<Rightarrow> Some (a\<lparr>blkSize := sz, freeSlots := pool_insert sz cur xs\<rparr>))))"

text \<open>\<open>pool_strdup\<close>: \<open>None\<close> when \<open>s\<close> is null (its length is taken before the check) or when the head was
  unlinked; otherwise the pointer, the bytes stored there, and the allocator.\<close>

definition pool_strdup :: "pool_alloc_t option \<Rightarrow> string option \<Rightarrow> (u32 \<times> string \<times> pool_alloc_t option) option" where
  "pool_strdup allocator s =
     (case s of
        None \<Rightarrow> None
      | Some str \<Rightarrow>
          (case pool_malloc allocator (of_nat (length str) + 1) of
             None \<Rightarrow> None
           | Some (mem, a) \<Rightarrow> Some (mem, if mem \<noteq> 0 then str @ [CHR 0x00] else [], a)))"

definition pool_alloc_dump :: "pool_alloc_t option \<Rightarrow> (u32 \<times> nat \<times> u32) list \<times> u32" where
  \<comment> \<open>what a debug build prints, and the total it compares with \<open>chunkSize\<close>\<close>
  "pool_alloc_dump allocator =
     (case allocator of
        None \<Rightarrow> ([], 0)
      | Some a \<Rightarrow>
          if chunkMem a = 0 \<or> chunkSize a \<le> 0 then ([], 0)
          else (zip (freeSlots a) (zip [1..<Suc (length (freeSlots a))] (map (blkSize a) (freeSlots a))),
                sum_list (map (\<lambda>n. EFFTSIZE_TO_POOLSIZE (blkSize a n)) (freeSlots a))))"

section \<open>Alignment arithmetic\<close>

lemma align8_unat:
  assumes "unat x + 7 < 2 ^ 32"
  shows "unat (ALIGN_8BYTES x) = (unat x + 7) div 8 * 8"
proof -
  have m: "(7 :: u32) = mask 3" by (simp add: mask_eq_exp_minus_1)
  have "(x + 7) AND NOT 7 = (x + 7) - ((x + 7) AND 7)" by (rule and_not_diff)
  moreover have "unat ((x + 7) AND 7) = unat (x + 7) mod 8"
    unfolding m by (simp only: take_bit_eq_mask [symmetric] unsigned_take_bit_eq) (simp add: take_bit_eq_mod)
  moreover have "unat (x + 7) = unat x + 7" using assms by (simp add: unat_word_ariths)
  ultimately have "unat (ALIGN_8BYTES x) = unat x + 7 - (unat x + 7) mod 8"
    unfolding ALIGN_8BYTES_def by (metis unat_sub word_le_nat_alt mod_less_eq_dividend)
  then show ?thesis by (simp add: minus_mod_eq_div_mult)
qed

section \<open>Invariant\<close>

definition pool_geom :: "pool_alloc_t \<Rightarrow> bool" where
  "pool_geom a \<longleftrightarrow> chunkMem a \<noteq> 0 \<and> unat (chunkMem a) mod 8 = 0 \<and> 12 \<le> unat (chunkSize a) \<and>
     unat (chunkMem a) + unat (chunkSize a) \<le> 2 ^ 32 - 8"

definition pool_inv :: "pool_alloc_t \<Rightarrow> u32 set \<Rightarrow> bool" where
  "pool_inv a used \<longleftrightarrow> pool_geom a \<and> reserved a = 0 \<and> distinct (freeSlots a) \<and>
     set (freeSlots a) \<inter> used = {} \<and>
     heap_ok (blkSize a) (unat (chunkMem a)) (unat (chunkMem a) + unat (chunkSize a)) (set (freeSlots a) \<union> used) \<and>
     coalesced (blkSize a) (set (freeSlots a))"

lemma pool_insert_split:
  obtains "pool_insert sz cur xs = cur # xs"
  | as n rest where "xs = as @ n # rest" "pool_insert sz cur xs = as @ n # cur # rest"
proof (cases "dropWhile (\<lambda>n. \<not> sz n \<ge> sz cur) xs")
  case Nil
  then have "pool_insert sz cur xs = cur # xs" unfolding pool_insert_def by (simp only: list.case)
  then show thesis using that(1) by blast
next
  case (Cons n rest)
  then have "xs = takeWhile (\<lambda>n. \<not> sz n \<ge> sz cur) xs @ n # rest" by (metis takeWhile_dropWhile_id)
  moreover have "pool_insert sz cur xs = takeWhile (\<lambda>n. \<not> sz n \<ge> sz cur) xs @ n # cur # rest"
    unfolding pool_insert_def Cons by (simp only: list.case)
  ultimately show thesis using that(2) by blast
qed

lemma pool_insert_set [simp]: "set (pool_insert sz cur xs) = insert cur (set xs)"
  by (rule pool_insert_split [of sz cur xs]) auto

lemma pool_insert_distinct: "distinct (cur # xs) \<Longrightarrow> distinct (pool_insert sz cur xs)"
  by (rule pool_insert_split [of sz cur xs]) auto

section \<open>The operations keep the invariant\<close>

lemma find_adj_result:
  "case find_adj sz cur xs of
     None \<Rightarrow> \<forall>n \<in> set xs. n - 4 + EFFTSIZE_TO_POOLSIZE (sz n) \<noteq> cur - 4 \<and> cur - 4 + EFFTSIZE_TO_POOLSIZE (sz cur) \<noteq> n - 4
   | Some (n, True) \<Rightarrow> n - 4 + EFFTSIZE_TO_POOLSIZE (sz n) = cur - 4
   | Some (n, False) \<Rightarrow> cur - 4 + EFFTSIZE_TO_POOLSIZE (sz cur) = n - 4"
  by (induction xs) (auto split: option.splits bool.splits)

definition freeing :: "(u32 \<Rightarrow> u32) \<Rightarrow> nat \<Rightarrow> nat \<Rightarrow> u32 set \<Rightarrow> u32 \<Rightarrow> u32 list \<Rightarrow> bool" where
  \<comment> \<open>the state of the coalescing loop: \<open>cur\<close> is being freed, \<open>U\<close> are the blocks in use\<close>
  "freeing sz s e U cur xs \<longleftrightarrow> heap_ok sz s e (insert cur (set xs \<union> U)) \<and> distinct (cur # xs) \<and>
     cur \<notin> U \<and> set xs \<inter> U = {} \<and> coalesced sz (set xs)"

lemma freeing_merge:
  assumes "freeing sz s e U cur xs" "e < 2 ^ 32" "n \<in> set xs"
  shows "adjacent sz n cur \<Longrightarrow> freeing (sz(n := sz n + EFFTSIZE_TO_POOLSIZE (sz cur))) s e U n (remove1 n xs)"
    and "adjacent sz cur n \<Longrightarrow> freeing (sz(cur := sz cur + EFFTSIZE_TO_POOLSIZE (sz n))) s e U cur (remove1 n xs)"
proof -
  let ?B = "insert cur (set xs \<union> U)"
  have f: "heap_ok sz s e ?B" "distinct xs" "cur \<notin> set xs" "cur \<notin> U" "set xs \<inter> U = {}" "coalesced sz (set xs)"
    using assms(1) by (auto simp: freeing_def)
  have r: "set (remove1 n xs) = set xs - {n}" "distinct (remove1 n xs)" using f(2) by simp_all
  have co: "coalesced (sz(x := v)) (set xs - {n})" if "x \<notin> set xs - {n}" for x v
    using f(6) that by (auto simp: coalesced_def adjacent_def)
  show "freeing (sz(n := sz n + EFFTSIZE_TO_POOLSIZE (sz cur))) s e U n (remove1 n xs)" if "adjacent sz n cur"
  proof -
    have "?B - {cur} = insert n (set (remove1 n xs) \<union> U)" using assms(3) f r(1) by auto
    then show ?thesis
      using heap_ok_merge [OF f(1) assms(2), of n cur] that assms(3) f r co by (auto simp: freeing_def)
  qed
  show "freeing (sz(cur := sz cur + EFFTSIZE_TO_POOLSIZE (sz n))) s e U cur (remove1 n xs)" if "adjacent sz cur n"
  proof -
    have "?B - {n} = insert cur (set (remove1 n xs) \<union> U)" using assms(3) f r(1) by auto
    then show ?thesis
      using heap_ok_merge [OF f(1) assms(2), of cur n] that assms(3) f r co by (auto simp: freeing_def)
  qed
qed

lemma combine_freeing:
  assumes "freeing sz s e U cur xs" "e \<le> 2 ^ 32 - 8" "4 \<le> s" "combine sz cur xs = (sz', cur', xs')"
  shows "freeing sz' s e U cur' xs' \<and> coalesced sz' (insert cur' (set xs')) \<and> (\<forall>u \<in> U. sz' u = sz u) \<and>
    unat cur' \<le> unat cur \<and> unat cur + unat (sz cur) \<le> unat cur' + unat (sz' cur')"
  using assms
proof (induction sz cur xs rule: combine.induct)
  case (1 sz cur xs)
  let ?B = "insert cur (set xs \<union> U)"
  have h: "heap_ok sz s e ?B" and lt: "e < 2 ^ 32" using "1.prems"(1,2) by (auto simp: freeing_def)
  have adj: "n - 4 + EFFTSIZE_TO_POOLSIZE (sz n) = cur - 4 \<longleftrightarrow> adjacent sz n cur"
    "cur - 4 + EFFTSIZE_TO_POOLSIZE (sz cur) = n - 4 \<longleftrightarrow> adjacent sz cur n" if "n \<in> set xs" for n
    using word_adjacent [OF h "1.prems"(2,3)] that by auto
  show ?case
  proof (cases "find_adj sz cur xs")
    case None
    then have "sz' = sz" "cur' = cur" "xs' = xs" using "1.prems"(4) by (subst (asm) combine.simps, simp)+
    moreover have "\<forall>n \<in> set xs. \<not> adjacent sz n cur \<and> \<not> adjacent sz cur n"
      using find_adj_result [where sz = sz and cur = cur and xs = xs] None adj by simp
    then have "coalesced sz (insert cur (set xs))"
      using "1.prems"(1) by (auto simp: freeing_def coalesced_def adjacent_def)
    ultimately show ?thesis using "1.prems"(1) by simp
  next
    case (Some nb)
    obtain n b where nb: "nb = (n, b)" by fastforce
    have n: "n \<in> set xs" using find_adj_in Some nb by blast
    then have nU: "n \<notin> U" "cur \<notin> U" using "1.prems"(1) by (auto simp: freeing_def)
    show ?thesis
    proof (cases b)
      case True
      have "adjacent sz n cur" using find_adj_result [where sz = sz and cur = cur and xs = xs] Some nb True adj(1) [OF n] by simp
      note f = freeing_merge(1) [OF "1.prems"(1) lt n this] and m = merged_size [OF h lt _ _ this] this
      have "combine (sz(n := sz n + EFFTSIZE_TO_POOLSIZE (sz cur))) n (remove1 n xs) = (sz', cur', xs')"
        using "1.prems"(4) Some nb True by (subst (asm) combine.simps) simp
      from "1.IH"(1) [OF Some nb [symmetric] eqTrueI [OF True] f "1.prems"(2,3) this] nU True m n show ?thesis
        by (auto simp: adjacent_def)
    next
      case False
      then have bf: "b = False" by simp
      have "adjacent sz cur n" using False find_adj_result [where sz = sz and cur = cur and xs = xs] Some nb False adj(2) [OF n] by simp
      note f = freeing_merge(2) [OF "1.prems"(1) lt n this] and m = merged_size [OF h lt _ _ this]
      have "combine (sz(cur := sz cur + EFFTSIZE_TO_POOLSIZE (sz n))) cur (remove1 n xs) = (sz', cur', xs')"
        using "1.prems"(4) Some nb False by (subst (asm) combine.simps) simp
      from "1.IH"(2) [OF Some nb [symmetric] bf f "1.prems"(2,3) this] nU False m n show ?thesis by auto
    qed
  qed
qed

lemma pool_geom_start: "pool_geom a \<Longrightarrow> 8 \<le> unat (chunkMem a)"
proof -
  assume g: "pool_geom a"
  then have "0 < unat (chunkMem a)" by (simp add: pool_geom_def unat_gt_0)
  moreover have "unat (chunkMem a) mod 8 = 0" using g by (simp add: pool_geom_def)
  ultimately show ?thesis by (auto dest: mod_less)
qed

lemma pool_inv_used:
  assumes "pool_inv a used" "p \<in> set (freeSlots a) \<union> used"
  shows "unat (chunkMem a) + 4 \<le> unat p" "unat p + unat (blkSize a p) \<le> unat (chunkMem a) + unat (chunkSize a)"
    "8 \<le> unat (blkSize a p)"
  using assms heap_ok_bounds by (auto simp: pool_inv_def)

lemma pool_free_inv:
  assumes "pool_inv a used" "p \<in> used"
  shows "\<exists>a'. pool_free (Some a) p = Some a' \<and> pool_inv a' (used - {p}) \<and>
    (\<forall>u \<in> used - {p}. blkSize a' u = blkSize a u) \<and>
    (\<exists>q \<in> set (freeSlots a'). unat q \<le> unat p \<and> unat p + unat (blkSize a p) \<le> unat q + unat (blkSize a' q))"
proof -
  let ?s = "unat (chunkMem a)" and ?e = "unat (chunkMem a) + unat (chunkSize a)"
  have g: "pool_geom a" "reserved a = 0" using assms(1) by (simp_all add: pool_inv_def)
  then have e: "?e \<le> 2 ^ 32 - 8" "8 \<le> ?s" "chunkMem a \<noteq> 0" "0 < unat (chunkSize a)"
    using pool_geom_start by (auto simp: pool_geom_def)
  have B: "insert p (set (freeSlots a) \<union> (used - {p})) = set (freeSlots a) \<union> used" using assms(2) by auto
  have fr: "freeing (blkSize a) ?s ?e (used - {p}) p (freeSlots a)"
    using assms unfolding freeing_def B by (auto simp: pool_inv_def)
  obtain sz' cur xs where c: "combine (blkSize a) p (freeSlots a) = (sz', cur, xs)" by (metis prod_cases3)
  have "4 \<le> ?s" using e(2) by simp
  note cf = combine_freeing [OF fr e(1) this c]
  let ?a = "a\<lparr>blkSize := sz', freeSlots := pool_insert sz' cur xs\<rparr>"
  note b = pool_inv_used [OF assms(1) UnI2 [OF assms(2)]]
  have end_eq: "unat (chunkMem a + chunkSize a) = ?e" using e(1) by (simp add: unat_word_ariths)
  have "p \<noteq> 0" "\<not> p \<ge> chunkMem a + chunkSize a" "\<not> p < chunkMem a" "\<not> blkSize a p > chunkSize a"
    using b end_eq unfolding word_le_nat_alt word_less_nat_alt by (auto simp: word_unat_eq_iff)
  moreover have "\<not> chunkSize a \<le> 0" using e(4) by (simp add: word_le_nat_alt)
  ultimately have "pool_free (Some a) p = Some ?a" using e(3) c by (simp add: pool_free_def Let_def)
  moreover have "pool_inv ?a (used - {p})"
    using cf g pool_insert_distinct [of cur xs sz'] by (auto simp: pool_inv_def pool_geom_def freeing_def)
  ultimately show ?thesis using cf by auto
qed

lemma align8_bounds:
  assumes "unat x + 7 < 2 ^ 32" "0 < unat x"
  shows "unat x \<le> unat (ALIGN_8BYTES x)" "unat (ALIGN_8BYTES x) \<le> unat x + 7" "8 \<le> unat (ALIGN_8BYTES x)"
proof -
  have "unat x + 7 = (unat x + 7) div 8 * 8 + (unat x + 7) mod 8" by simp
  moreover have "(unat x + 7) mod 8 < 8" by simp
  ultimately show "unat x \<le> unat (ALIGN_8BYTES x)" "unat (ALIGN_8BYTES x) \<le> unat x + 7"
    unfolding align8_unat [OF assms(1)] by linarith+
  have "1 \<le> (unat x + 7) div 8" using assms(2) by linarith
  then show "8 \<le> unat (ALIGN_8BYTES x)" unfolding align8_unat [OF assms(1)] by linarith
qed

lemma pool_malloc_split_inv:
  assumes "pool_inv a used" "n \<in> set (freeSlots a)" "8 \<le> unat k" "unat k + 12 < unat (blkSize a n)"
  defines "cur \<equiv> n + k + 4"
  defines "sz' \<equiv> ((blkSize a)(cur := POOLSIZE_TO_EFFTSIZE (blkSize a n - k)))(n := k)"
  shows "pool_inv (a\<lparr>blkSize := sz', freeSlots := pool_insert sz' cur (remove1 n (freeSlots a))\<rparr>) (insert n used)"
    and "\<forall>u \<in> used. sz' u = blkSize a u" "sz' n = k"
proof -
  let ?s = "unat (chunkMem a)" and ?e = "unat (chunkMem a) + unat (chunkSize a)" and ?B = "set (freeSlots a) \<union> used"
  have i: "pool_geom a" "reserved a = 0" "distinct (freeSlots a)" "set (freeSlots a) \<inter> used = {}"
    "heap_ok (blkSize a) ?s ?e ?B" "coalesced (blkSize a) (set (freeSlots a))"
    using assms(1) by (auto simp: pool_inv_def)
  have e: "?e < 2 ^ 32" using i(1) by (simp add: pool_geom_def)
  have nB: "n \<in> ?B" "n \<notin> used" using assms(2) i(4) by auto
  have "unat k + 12 \<le> unat (blkSize a n)" using assms(4) by simp
  note c = heap_ok_cut [OF i(5) e nB(1) assms(3) this, folded cur_def, folded sz'_def]
  have B': "insert cur ?B = set (pool_insert sz' cur (remove1 n (freeSlots a))) \<union> insert n used"
    using i(3) assms(2) by auto
  have same: "sz' x = blkSize a x" if "x \<in> ?B" "x \<noteq> n" for x using that c(2) by (auto simp: sz'_def)
  then show u: "\<forall>u \<in> used. sz' u = blkSize a u" using nB(2) by blast
  show "sz' n = k" by (simp add: sz'_def)
  have apart: "unat p + unat (blkSize a p) + 4 \<le> unat n \<or> unat n + unat (blkSize a n) + 4 \<le> unat p"
    if "p \<in> set (freeSlots a)" "p \<noteq> n" for p
    using heap_ok_apart [OF i(5) _ nB(1) that(2)] that(1) by blast
  have "\<not> adjacent sz' p q" if pq: "p \<in> insert cur (set (freeSlots a) - {n})" "q \<in> insert cur (set (freeSlots a) - {n})" for p q
  proof -
    consider "p = cur" "q = cur" | "p = cur" "q \<in> set (freeSlots a) - {n}" | "p \<in> set (freeSlots a) - {n}" "q = cur"
      | "p \<in> set (freeSlots a) - {n}" "q \<in> set (freeSlots a) - {n}" using pq by blast
    then show ?thesis
    proof cases
      case 2
      then have "\<not> adjacent (blkSize a) n q" using i(6) assms(2) by (auto simp: coalesced_def)
      then show ?thesis using 2 c(3,4) assms(4) by (auto simp: adjacent_def)
    next
      case 3
      then show ?thesis using apart [of p] same [of p] c(3) assms(4) by (auto simp: adjacent_def)
    next
      case 4
      then show ?thesis using i(6) same [of p] by (auto simp: coalesced_def adjacent_def)
    qed (auto simp: adjacent_def)
  qed
  then have "coalesced sz' (insert cur (set (freeSlots a) - {n}))" by (auto simp: coalesced_def)
  moreover have "distinct (pool_insert sz' cur (remove1 n (freeSlots a)))"
    using i(3) c(2) by (intro pool_insert_distinct) auto
  moreover have "set (pool_insert sz' cur (remove1 n (freeSlots a))) = insert cur (set (freeSlots a) - {n})"
    using i(3) by simp
  moreover have "insert cur (set (freeSlots a) - {n}) \<inter> insert n used = {}" using i(4) c(2) nB by auto
  moreover have "pool_geom (a\<lparr>blkSize := sz', freeSlots := pool_insert sz' cur (remove1 n (freeSlots a))\<rparr>)"
    using i(1) by (simp add: pool_geom_def)
  ultimately show "pool_inv (a\<lparr>blkSize := sz', freeSlots := pool_insert sz' cur (remove1 n (freeSlots a))\<rparr>) (insert n used)"
    using i(2) c(1) B' by (simp add: pool_inv_def)
qed

lemma pool_malloc_take_inv:
  assumes "pool_inv a used" "n \<in> set (freeSlots a)"
  shows "pool_inv (a\<lparr>freeSlots := remove1 n (freeSlots a)\<rparr>) (insert n used)"
proof -
  have "set (remove1 n (freeSlots a)) \<union> insert n used = set (freeSlots a) \<union> used"
    "set (remove1 n (freeSlots a)) = set (freeSlots a) - {n}"
    using assms by (auto simp: pool_inv_def)
  then show ?thesis
    using assms by (auto simp: pool_inv_def pool_geom_def coalesced_def)
qed

lemma pool_malloc_inv:
  assumes "pool_inv a used" "0 < req"
  shows "case find (\<lambda>n. blkSize a n \<ge> req) (freeSlots a) of
      None \<Rightarrow> pool_malloc (Some a) req = Some (0, Some a)
    | Some n \<Rightarrow> n \<in> set (freeSlots a) \<and> (\<exists>a'. pool_malloc (Some a) req = Some (n, Some a') \<and>
        pool_inv a' (insert n used) \<and> req \<le> blkSize a' n \<and> (\<forall>u \<in> used. blkSize a' u = blkSize a u))"
proof -
  have g: "pool_geom a" "reserved a = 0" "\<not> req \<le> 0" using assms by (auto simp: pool_inv_def)
  then have v: "chunkMem a \<noteq> 0" "\<not> chunkSize a \<le> 0"
    by (auto simp: pool_geom_def word_le_nat_alt)
  show ?thesis
  proof (cases "find (\<lambda>n. blkSize a n \<ge> req) (freeSlots a)")
    case None
    then show ?thesis using v g by (simp add: pool_malloc_def)
  next
    case (Some n)
    then have n: "n \<in> set (freeSlots a)" "req \<le> blkSize a n"
      by (auto simp: find_Some_iff)
    note b = pool_inv_used [OF assms(1) UnI1 [OF n(1)]]
    let ?k = "ALIGN_8BYTES req"
    have le: "unat (chunkMem a) + unat (chunkSize a) \<le> 2 ^ 32 - 8" "8 \<le> unat (chunkMem a)"
      using g(1) pool_geom_start by (auto simp: pool_geom_def)
    have "unat req \<le> unat (blkSize a n)" using n(2) by (simp add: word_le_nat_alt)
    then have r: "unat req + 19 < 2 ^ 32" "0 < unat req"
      using b le assms(2) by (auto simp: word_less_nat_alt)
    have k: "unat req \<le> unat ?k" "unat ?k \<le> unat req + 7" "8 \<le> unat ?k"
      using align8_bounds [of req] r by auto
    have k12: "unat (?k + 12) = unat ?k + 12"
      using k(2) r(1) by (simp add: unat_word_ariths)
    show ?thesis
    proof (cases "blkSize a n > ?k + 12")
      case True
      then have "unat ?k + 12 < unat (blkSize a n)" using k12 by (simp add: word_less_nat_alt)
      note s = pool_malloc_split_inv [OF assms(1) n(1) k(3) this]
      have "req \<le> ?k" using k(1) by (simp add: word_le_nat_alt)
      then show ?thesis using Some True v g(3) n(1) s
        by (simp add: pool_malloc_def Let_def del: fun_upd_apply)
    next
      case False
      then show ?thesis using Some v g(3) n pool_malloc_take_inv [OF assms(1) n(1)]
        by (simp add: pool_malloc_def Let_def)
    qed
  qed
qed

lemma pool_inv_unused:
  assumes "pool_inv a {}"
  shows "freeSlots a = [chunkMem a + 4]" "unat (blkSize a (chunkMem a + 4)) = unat (chunkSize a) - 4"
proof -
  let ?s = "unat (chunkMem a)" and ?e = "unat (chunkMem a) + unat (chunkSize a)"
  obtain bs where bs: "tiles (blkSize a) ?s bs ?e" "set bs = set (freeSlots a)"
    using assms by (auto simp: pool_inv_def heap_ok_def)
  have g: "12 \<le> unat (chunkSize a)" "?e \<le> 2 ^ 32 - 8" "distinct (freeSlots a)" "coalesced (blkSize a) (set (freeSlots a))"
    using assms by (auto simp: pool_inv_def pool_geom_def)
  obtain p ps where p: "bs = p # ps" using bs(1) g(1) by (cases bs) auto
  have "ps = []"
  proof (rule ccontr)
    assume "ps \<noteq> []"
    then obtain q qs where "ps = q # qs" by (cases ps) auto
    then have "adjacent (blkSize a) p q" "p \<in> set bs" "q \<in> set bs" using bs(1) p by (auto simp: adjacent_def)
    then show False using g(4) bs(2) by (auto simp: coalesced_def)
  qed
  then have t: "unat p = ?s + 4" "unat p + unat (blkSize a p) = ?e" using bs(1) p by auto
  have "unat (chunkMem a + 4) = ?s + 4" using g(1,2) by (simp add: unat_word_ariths)
  then have "p = chunkMem a + 4" using t(1) by (simp add: word_unat_eq_iff)
  moreover have "set (freeSlots a) = {p}" using bs(2) p \<open>ps = []\<close> by simp
  then have "freeSlots a = [p]"
    using g(3) by (metis distinct_card card.empty card_insert_disjoint empty_set finite.emptyI insert_absorb
        insert_not_empty length_0_conv length_Suc_conv list.set_intros(1) list.simps(15) singletonD)
  ultimately show "freeSlots a = [chunkMem a + 4]" "unat (blkSize a (chunkMem a + 4)) = unat (chunkSize a) - 4"
    using t by auto
qed

lemma init_pool_allocator_inv:
  assumes "pool_geom a" "reserved a = 0"
  obtains a' where "init_pool_allocator (Some a) = (0, Some a')" "pool_inv a' {}"
    "chunkMem a' = chunkMem a" "chunkSize a' = chunkSize a"
proof -
  let ?s = "unat (chunkMem a)" and ?n = "unat (chunkSize a)" and ?p = "chunkMem a + 4"
  have g: "chunkMem a \<noteq> 0" "?s mod 8 = 0" "12 \<le> ?n" "?s + ?n \<le> 2 ^ 32 - 8"
    using assms(1) by (auto simp: pool_geom_def)
  have "unat (ALIGN_8BYTES (chunkMem a)) = ?s"
    using g(2-4) by (subst align8_unat) (auto elim!: dvdE simp: mod_eq_0_iff_dvd)
  then have al: "ALIGN_8BYTES (chunkMem a) = chunkMem a" by (simp add: word_unat_eq_iff)
  have p: "unat ?p = ?s + 4" and e: "unat (chunkMem a + chunkSize a) = ?s + ?n"
    using g(3,4) by (simp_all add: unat_word_ariths)
  have sz: "unat (POOLSIZE_TO_EFFTSIZE (chunkSize a)) = ?n - 4"
    using g(3) unfolding POOLSIZE_TO_EFFTSIZE_def by (subst unat_sub) (simp_all add: word_le_nat_alt)
  let ?a = "a\<lparr>freeSlots := [?p], blkSize := (blkSize a)(?p := POOLSIZE_TO_EFFTSIZE (chunkSize a))\<rparr>"
  have "init_pool_allocator (Some a) = (0, Some ?a)"
    using g e by (simp add: init_pool_allocator_def al EFFTSIZE_TO_POOLSIZE_def word_le_nat_alt Let_def)
  moreover have "tiles (blkSize ?a) ?s [?p] (?s + ?n)" using p sz g(3) by simp
  then have "heap_ok (blkSize ?a) ?s (?s + ?n) {?p}"
    using sz g(3) unfolding heap_ok_def by (intro conjI exI [of _ "[?p]"]) auto
  then have "pool_inv ?a {}"
    using assms p sz by (simp add: pool_inv_def pool_geom_def coalesced_def adjacent_def)
  ultimately show thesis by (intro that [of ?a]) auto
qed

section \<open>Properties\<close>

text \<open>
  \<open>pool_reach a used\<close>: the state after some calls of a client that initialises the pool on an
  aligned chunk, with \<open>reserved\<close> zero, and frees only blocks it holds (\<open>used\<close>).
\<close>

inductive pool_reach :: "pool_alloc_t \<Rightarrow> u32 set \<Rightarrow> bool" where
  init: "pool_geom a \<Longrightarrow> reserved a = 0 \<Longrightarrow> init_pool_allocator (Some a) = (0, Some a') \<Longrightarrow> pool_reach a' {}"
| malloc: "pool_reach a used \<Longrightarrow> pool_malloc (Some a) req = Some (p, Some a') \<Longrightarrow>
    pool_reach a' (if p = 0 then used else insert p used)"
| free: "pool_reach a used \<Longrightarrow> p \<in> used \<Longrightarrow> pool_free (Some a) p = Some a' \<Longrightarrow> pool_reach a' (used - {p})"

lemma pool_reach_inv: "pool_reach a used \<Longrightarrow> pool_inv a used"
proof (induction rule: pool_reach.induct)
  case (init a a')
  then show ?case using init_pool_allocator_inv [OF init(1,2)] by (metis option.inject prod.inject)
next
  case (malloc a used req p a')
  show ?case
  proof (cases "0 < req")
    case True
    note m = pool_malloc_inv [OF malloc.IH True]
    show ?thesis
    proof (cases "find (\<lambda>n. blkSize a n \<ge> req) (freeSlots a)")
      case (Some n)
      then have "p = n" "pool_inv a' (insert n used)" "n \<in> set (freeSlots a)"
        using m malloc.hyps(2) by auto
      moreover have "n \<noteq> 0" using pool_inv_used(1) [OF malloc.IH, of n] calculation(3) by auto
      ultimately show ?thesis by simp
    qed (use m malloc in auto)
  next
    case False
    then have "p = 0" "a' = a" using malloc.hyps(2) by (auto simp: pool_malloc_def not_less split: if_splits)
    then show ?thesis using malloc.IH by simp
  qed
next
  case (free a used p a')
  then show ?case using pool_free_inv [OF free.IH free.hyps(2)] by auto
qed

text \<open>
  C1. Memory safety of the pool: in every reachable state the blocks in use lie inside the chunk
  and are pairwise disjoint with their size words; free blocks are disjoint from all of them, no
  two free blocks are adjacent (everything that can be merged is), and when no block is in use
  the free list is again the single block that \<open>init_pool_allocator\<close> made.
\<close>

theorem pool_blocks_disjoint:
  assumes "pool_reach a used"
  shows "(\<forall>p \<in> set (freeSlots a) \<union> used. unat (chunkMem a) + 4 \<le> unat p \<and>
      unat p + unat (blkSize a p) \<le> unat (chunkMem a) + unat (chunkSize a)) \<and>
    (\<forall>p \<in> set (freeSlots a) \<union> used. \<forall>q \<in> set (freeSlots a) \<union> used. p \<noteq> q \<longrightarrow>
      unat p + unat (blkSize a p) + 4 \<le> unat q \<or> unat q + unat (blkSize a q) + 4 \<le> unat p) \<and>
    set (freeSlots a) \<inter> used = {} \<and> coalesced (blkSize a) (set (freeSlots a)) \<and>
    (used = {} \<longrightarrow> freeSlots a = [chunkMem a + 4] \<and> unat (blkSize a (chunkMem a + 4)) = unat (chunkSize a) - 4)"
proof -
  have i: "pool_inv a used" using assms by (rule pool_reach_inv)
  then have h: "heap_ok (blkSize a) (unat (chunkMem a)) (unat (chunkMem a) + unat (chunkSize a)) (set (freeSlots a) \<union> used)"
    "set (freeSlots a) \<inter> used = {}" "coalesced (blkSize a) (set (freeSlots a))"
    by (auto simp: pool_inv_def)
  show ?thesis
    using pool_inv_used [OF i] heap_ok_apart [OF h(1)] h(2,3) pool_inv_unused i by blast
qed

definition demo_pool :: pool_alloc_t where
  "demo_pool = \<lparr>reserved = 0, freeSlots = [], chunkMem = 64, chunkSize = 64, blkSize = (\<lambda>_. 0)\<rparr>"

lemma demo_pool_reach: "\<exists>a. pool_reach a {} \<and> chunkMem a = 64 \<and> chunkSize a = 64 \<and> freeSlots a = [68]"
proof -
  have "pool_geom demo_pool" "reserved demo_pool = 0" by (simp_all add: pool_geom_def demo_pool_def)
  from init_pool_allocator_inv [OF this] pool_reach.init [OF this] pool_inv_unused(1)
  obtain a where "pool_reach a {}" "chunkMem a = 64" "chunkSize a = 64" "freeSlots a = [chunkMem a + 4]"
    by (metis demo_pool_def pool_alloc_t.select_convs(3,4))
  then show ?thesis by auto
qed

theorem pool_blocks_disjoint_witness: "\<exists>a. pool_reach a {} \<and> freeSlots a = [68] \<and> unat (blkSize a 68) = 60"
proof -
  obtain a where "pool_reach a {}" "chunkMem a = 64" "chunkSize a = 64" "freeSlots a = [68]"
    using demo_pool_reach by blast
  then show ?thesis using pool_blocks_disjoint [of a "{}"] by auto
qed

text \<open>
  Allocation.  In a reachable state a positive request fails exactly when no free block is
  large enough; otherwise the first block that is large enough is returned, with at least the
  requested size, and the sizes of all blocks in use are unchanged.
\<close>

theorem pool_malloc_first_fit:
  assumes "pool_reach a used" "0 < req"
  shows "case find (\<lambda>n. blkSize a n \<ge> req) (freeSlots a) of
      None \<Rightarrow> pool_malloc (Some a) req = Some (0, Some a) \<and> (\<forall>n \<in> set (freeSlots a). blkSize a n < req)
    | Some n \<Rightarrow> n \<in> set (freeSlots a) \<and> n \<notin> used \<and> n \<noteq> 0 \<and> (\<exists>a'. pool_malloc (Some a) req = Some (n, Some a') \<and>
        req \<le> blkSize a' n \<and> n \<notin> set (freeSlots a') \<and> (\<forall>u \<in> used. blkSize a' u = blkSize a u))"
proof -
  have i: "pool_inv a used" using assms(1) by (rule pool_reach_inv)
  note m = pool_malloc_inv [OF i assms(2)]
  show ?thesis
  proof (cases "find (\<lambda>n. blkSize a n \<ge> req) (freeSlots a)")
    case None
    then have "\<forall>n \<in> set (freeSlots a). blkSize a n < req" by (auto simp: find_None_iff not_le)
    then show ?thesis using m None by simp
  next
    case (Some n)
    then obtain a' where a': "pool_malloc (Some a) req = Some (n, Some a')" "pool_inv a' (insert n used)"
      "req \<le> blkSize a' n" "\<forall>u \<in> used. blkSize a' u = blkSize a u" "n \<in> set (freeSlots a)"
      using m by auto
    have "n \<noteq> 0" using pool_inv_used(1) [OF i, of n] a'(5) by auto
    moreover have "n \<notin> used" "n \<notin> set (freeSlots a')" using i a'(2,5) by (auto simp: pool_inv_def)
    ultimately show ?thesis using Some a' by auto
  qed
qed

theorem pool_malloc_first_fit_witness:
  "\<exists>a a'. pool_reach a {} \<and> pool_malloc (Some a) 10 = Some (68, Some a') \<and> 10 \<le> blkSize a' 68"
proof -
  obtain a where a: "pool_reach a {}" "freeSlots a = [68]" "chunkMem a = 64" "chunkSize a = 64" using demo_pool_reach by blast
  have "unat (blkSize a 68) = 60" using pool_inv_unused(2) [OF pool_reach_inv [OF a(1)]] a by simp
  then have "10 \<le> blkSize a 68" by (simp add: word_le_nat_alt)
  then show ?thesis using pool_malloc_first_fit [OF a(1), of 10] a by auto
qed

text \<open>
  Freeing.  Freeing a block in use makes its bytes available again: in the state after the
  call some free block covers it, and no block in use has changed its size.  A null pointer and
  the first address behind the chunk are ignored.
\<close>

theorem pool_free_returns_block:
  assumes "pool_reach a used" "p \<in> used"
  shows "(\<exists>a'. pool_free (Some a) p = Some a' \<and>
      (\<exists>q \<in> set (freeSlots a'). unat q \<le> unat p \<and>
        unat p + unat (blkSize a p) \<le> unat q + unat (blkSize a' q)) \<and>
      (\<forall>u \<in> used - {p}. blkSize a' u = blkSize a u)) \<and>
    pool_free (Some a) 0 = Some a \<and> pool_free (Some a) (chunkMem a + chunkSize a) = Some a"
proof -
  have i: "pool_inv a used" using assms(1) by (rule pool_reach_inv)
  have "pool_free (Some a) 0 = Some a" "pool_free (Some a) (chunkMem a + chunkSize a) = Some a"
    by (simp_all add: pool_free_def Let_def)
  then show ?thesis using pool_free_inv [OF i assms(2)] by blast
qed

theorem pool_free_returns_block_witness:
  "\<exists>a a'. pool_free (Some a) 68 = Some a' \<and> (\<exists>q \<in> set (freeSlots a'). unat q \<le> unat (68 :: u32))"
proof -
  obtain a where a: "pool_reach a {}" "freeSlots a = [68]" "chunkMem a = 64" "chunkSize a = 64"
    using demo_pool_reach by blast
  have "unat (blkSize a 68) = 60" using pool_inv_unused(2) [OF pool_reach_inv [OF a(1)]] a by simp
  then have "10 \<le> blkSize a 68" by (simp add: word_le_nat_alt)
  then obtain a1 where "pool_malloc (Some a) 10 = Some (68, Some a1)"
    using pool_malloc_inv [OF pool_reach_inv [OF a(1)], of 10] a(2) by auto
  from pool_reach.malloc [OF a(1) this] have "pool_reach a1 {68}" by simp
  from pool_free_returns_block [OF this] show ?thesis by blast
qed

text \<open>
  The word in front of the list head is taken for a block size.  \<open>init_pool_allocator\<close> leaves
  the field \<open>reserved\<close> as it finds it, and a request that no free block can serve, but that is not
  above \<open>reserved\<close>, makes \<open>pool_malloc\<close> unlink the list head and hand out the address of the
  allocator's own link fields.
\<close>

theorem pool_malloc_takes_head:
  assumes "pool_geom a" "chunkSize a < req" "req \<le> reserved a"
  shows "\<exists>a'. init_pool_allocator (Some a) = (0, Some a') \<and> pool_malloc (Some a') req = None"
proof -
  let ?z = "a\<lparr>reserved := 0\<rparr>"
  have "pool_geom ?z" using assms(1) by (simp add: pool_geom_def)
  then obtain z where z: "init_pool_allocator (Some ?z) = (0, Some z)" "pool_inv z {}"
    "chunkMem z = chunkMem ?z" "chunkSize z = chunkSize ?z"
    using init_pool_allocator_inv [of ?z] by auto
  then have "init_pool_allocator (Some a) = (0, Some (z\<lparr>reserved := reserved a\<rparr>))"
    by (auto simp: init_pool_allocator_def Let_def split: if_splits)
  moreover have "unat (blkSize z (chunkMem z + 4)) = unat (chunkSize a) - 4" "freeSlots z = [chunkMem z + 4]"
    using pool_inv_unused [OF z(2)] z(4) by auto
  then have "pool_malloc (Some (z\<lparr>reserved := reserved a\<rparr>)) req = None"
    using assms z(3,4) by (auto simp: pool_malloc_def pool_geom_def word_le_nat_alt word_less_nat_alt)
  ultimately show ?thesis by blast
qed

theorem pool_malloc_takes_head_witness:
  "\<exists>a'. init_pool_allocator (Some (demo_pool\<lparr>reserved := 1000\<rparr>)) = (0, Some a') \<and> pool_malloc (Some a') 100 = None"
  using pool_malloc_takes_head [of "demo_pool\<lparr>reserved := 1000\<rparr>" 100]
  by (simp add: pool_geom_def demo_pool_def)

end
