(* ===== verification/Ep_Core.thy ===== *)
theory Ep_Core
  imports Time_List Slot_Alloc
begin

text \<open>
  \<open>libckits/epCore.c\<close>, the event loop: timed calls whose nodes come from a slot allocator over the
  static array \<open>theEventNodes\<close>, and transports registered with epoll.  The static variables are the
  record \<open>ep_core\<close>.  What the operating system answers (the time, \<open>epoll_create\<close>, \<open>epoll_ctl\<close>,
  \<open>epoll_wait\<close>) is an argument; the client's callbacks are functions on the state, which may call
  back into the module.  \<open>None\<close> is the dereference of a null pointer.
\<close>

section \<open>Data\<close>

unbundle bit_operations_syntax

record 'f epVirtualTable =
  handleRead :: "'f option"
  handleWrite :: "'f option"
  handleClose :: "'f option"
  dealloc :: "'f option"

record 'f epTransport =
  tdescriptor :: int
  vptr :: "'f epVirtualTable option"

datatype ep_cb = EpTimeOutHandler \<comment> \<open>the one function that is stored in \<open>cbTimeout\<close>\<close>

record ('f, 'p) ep_core =
  descriptor :: int
  header :: "nat list" \<comment> \<open>the transports linked by \<open>next\<close>, by address\<close>
  waitQueue :: "(ep_cb, 'p) timeListType"
  singletonFlag :: bool
  timeEventFactoryFlag :: bool
  epTimeEventAlloc :: slot_alloc_t
  links :: "u32 lheap" \<comment> \<open>the memory of the free-slot links\<close>
  transports :: "nat \<Rightarrow> 'f epTransport" \<comment> \<open>the memory of the transports\<close>

type_synonym ('f, 'p) ep_op = "('f, 'p) ep_core \<Rightarrow> ('f, 'p) ep_core option"

record ep_os =
  now :: c_timeval
  epoll_create :: int
  epoll_ctl :: int

section \<open>Timed calls\<close>

definition SIZEOF_NODE :: u32 where "SIZEOF_NODE = 32"

definition CHECK_SINGLETON :: "ep_os \<Rightarrow> ('f, 'p) ep_core \<Rightarrow> ('f, 'p) ep_core" where
  "CHECK_SINGLETON os st =
     (if \<not> singletonFlag st
      then st\<lparr>waitQueue := the (snd (initTimeList (now os) (Some (waitQueue st)))),
              descriptor := epoll_create os, header := [], singletonFlag := True\<rparr>
      else st)"

definition TIMEEVENT_FACTORY_SINGLETON :: "('f, 'p) ep_op" where
  "TIMEEVENT_FACTORY_SINGLETON st =
     (if \<not> timeEventFactoryFlag st
      then (case init_slot_allocator (links st) (Some (epTimeEventAlloc st)) of
              Some (_, h, Some a) \<Rightarrow> Some (st\<lparr>links := h, epTimeEventAlloc := a, timeEventFactoryFlag := True\<rparr>)
            | _ \<Rightarrow> None)
      else Some st)"

definition epFactoryCreateTimeEvent :: "('f, 'p) ep_core \<Rightarrow> (u32 \<times> ('f, 'p) ep_core) option" where
  "epFactoryCreateTimeEvent st =
     (case TIMEEVENT_FACTORY_SINGLETON st of
        None \<Rightarrow> None
      | Some st1 \<Rightarrow>
          (case slot_malloc (links st1) (Some (epTimeEventAlloc st1)) SIZEOF_NODE of
             None \<Rightarrow> None
           | Some (p, h) \<Rightarrow> Some (p, st1\<lparr>links := h\<rparr>)))"

definition epFactoryRecyleTimeEvent :: "u32 \<Rightarrow> ('f, 'p) ep_core \<Rightarrow> (int \<times> ('f, 'p) ep_core) option" where
  "epFactoryRecyleTimeEvent thisEvent st =
     (case TIMEEVENT_FACTORY_SINGLETON st of
        None \<Rightarrow> None
      | Some st1 \<Rightarrow>
          if \<not> timeEventFactoryFlag st1 then Some (- 1, st1)
          else (case slot_free (links st1) (Some (epTimeEventAlloc st1)) thisEvent of
                  None \<Rightarrow> None
                | Some h \<Rightarrow> Some (0, st1\<lparr>links := h\<rparr>)))"

definition epCallLater ::
  "ep_os \<Rightarrow> int \<Rightarrow> int \<Rightarrow> u32 \<Rightarrow> 'p option \<Rightarrow> ('f, 'p) ep_core \<Rightarrow> (int \<times> ('f, 'p) ep_core) option" where
  \<comment> \<open>\<open>handler\<close> is the code address stored in \<open>reserved\<close>, 0 the null pointer\<close>
  "epCallLater os seconds useconds handler param st =
     (let st = CHECK_SINGLETON os st
      in if handler = 0 then Some (- 1, st)
         else (case epFactoryCreateTimeEvent st of
                 None \<Rightarrow> None
               | Some (p, st1) \<Rightarrow>
                   if p = 0 then Some (- 1, st1)
                   else (let node = \<lparr>naddr = unat p, tvRemain = \<lparr>tv_sec = seconds, tv_usec = useconds\<rparr>,
                                     cbTimeout = Some EpTimeOutHandler, cbParam = param, reserved = handler,
                                     idToken = 0\<rparr>
                         in case addAlarmEventNode (now os) (Some (waitQueue st1)) node of
                              (ret, Some q) \<Rightarrow> Some (ret, st1\<lparr>waitQueue := q\<rparr>)
                            | (ret, None) \<Rightarrow> None)))"

definition epCancelCall :: "ep_os \<Rightarrow> int \<Rightarrow> ('f, 'p) ep_core \<Rightarrow> (int \<times> ('f, 'p) ep_core) option" where
  \<comment> \<open>there is no \<open>CHECK_SINGLETON\<close>: the links of a queue that was never initialised are null\<close>
  "epCancelCall os token st =
     (if \<not> singletonFlag st then None
      else (case delAlarmEventNode (now os) (Some (waitQueue st)) (word_of_int token) of
              (e, None) \<Rightarrow> None
            | (None, Some q) \<Rightarrow> Some (- 1, st\<lparr>waitQueue := q\<rparr>)
            | (Some e, Some q) \<Rightarrow> epFactoryRecyleTimeEvent (word_of_nat (naddr e)) (st\<lparr>waitQueue := q\<rparr>)))"

text \<open>The client: what its timeout handlers and its transport callbacks do to the state.\<close>

record ('f, 'p) ep_client =
  call_handler :: "u32 \<Rightarrow> 'p option \<Rightarrow> ('f, 'p) ep_core \<Rightarrow> (int \<times> ('f, 'p) ep_core) option"
  call_transport :: "'f \<Rightarrow> nat \<Rightarrow> ('f, 'p) ep_op"

definition epTimeOutHandler ::
  "('f, 'p) ep_client \<Rightarrow> (ep_cb, 'p) alarmEventNode \<Rightarrow> ('f, 'p) ep_core \<Rightarrow> (int \<times> ('f, 'p) ep_core) option" where
  "epTimeOutHandler c theEvent st =
     (case call_handler c (reserved theEvent) (cbParam theEvent) st of
        None \<Rightarrow> None
      | Some (ret, st1) \<Rightarrow>
          map_option (\<lambda>(_, st2). (ret, st2)) (epFactoryRecyleTimeEvent (word_of_nat (naddr theEvent)) st1))"

definition fire_alarms :: "('f, 'p) ep_client \<Rightarrow> c_timeval \<Rightarrow> ('f, 'p) ep_op" where
  \<comment> \<open>\<open>handleAlarmEvent(&epCoreStruct.waitQueue)\<close> with its call of \<open>cbTimeout\<close>\<close>
  "fire_alarms c t st =
     (case handleAlarmEvent t (Some (waitQueue st)) of
        Some (Some q, None) \<Rightarrow> Some (st\<lparr>waitQueue := q\<rparr>)
      | Some (Some q, Some e) \<Rightarrow>
          (case cbTimeout e of
             None \<Rightarrow> Some (st\<lparr>waitQueue := q\<rparr>)
           | Some EpTimeOutHandler \<Rightarrow> map_option snd (epTimeOutHandler c e (st\<lparr>waitQueue := q\<rparr>)))
      | _ \<Rightarrow> None)"

section \<open>Transports\<close>

fun unlink_desc :: "(nat \<Rightarrow> 'f epTransport) \<Rightarrow> int \<Rightarrow> nat list \<Rightarrow> nat option \<times> nat list" where
  \<comment> \<open>the loop behind the first element: the matching transport leaves the list\<close>
  "unlink_desc mem d [] = (None, [])"
| "unlink_desc mem d (t # ts) =
     (if d = tdescriptor (mem t) then (Some t, ts) else map_prod id (Cons t) (unlink_desc mem d ts))"

definition epGetTransport :: "int \<Rightarrow> ('f, 'p) ep_core \<Rightarrow> nat option \<times> ('f, 'p) ep_core" where
  "epGetTransport theDesc st =
     (case header st of
        [] \<Rightarrow> (None, st)
      | p # rest \<Rightarrow>
          if theDesc = tdescriptor (transports st p) then (Some p, st)
          else (case unlink_desc (transports st) theDesc rest of
                  (r, rest') \<Rightarrow> (r, st\<lparr>header := p # rest'\<rparr>)))"

definition insertTransport :: "nat option \<Rightarrow> ('f, 'p) ep_core \<Rightarrow> int \<times> ('f, 'p) ep_core" where
  "insertTransport transport st =
     (case transport of None \<Rightarrow> (- 1, st) | Some t \<Rightarrow> (0, st\<lparr>header := t # header st\<rparr>))"

definition epAddTransport :: "ep_os \<Rightarrow> nat option \<Rightarrow> ('f, 'p) ep_core \<Rightarrow> int \<times> ('f, 'p) ep_core" where
  "epAddTransport os transport st =
     (let st = CHECK_SINGLETON os st
      in case transport of
           None \<Rightarrow> (- 1, st)
         | Some t \<Rightarrow>
             if vptr (transports st t) = None \<or> tdescriptor (transports st t) = - 1 \<or> descriptor st = - 1
             then (- 1, st)
             else if epoll_ctl os = - 1 then (- 1, st)
             else (0, st))"

definition epCloseTransport ::
  "('f, 'p) ep_client \<Rightarrow> ep_os \<Rightarrow> nat option \<Rightarrow> ('f, 'p) ep_core \<Rightarrow> (int \<times> ('f, 'p) ep_core) option" where
  "epCloseTransport c os transport st =
     (let st = CHECK_SINGLETON os st
      in case transport of
           None \<Rightarrow> Some (1, st)
         | Some t \<Rightarrow>
             if tdescriptor (transports st t) = - 1 then Some (1, st)
             else (let st1 = st\<lparr>transports := (transports st)(t := (transports st t)\<lparr>tdescriptor := - 1\<rparr>)\<rparr>
                   in case vptr (transports st1 t) of
                        None \<Rightarrow> None
                      | Some v \<Rightarrow>
                          (case handleClose v of
                             None \<Rightarrow> Some (0, st1)
                           | Some f \<Rightarrow> map_option (Pair 0) (call_transport c f t st1))))"

section \<open>The loop\<close>

definition EPOLLIN :: u32 where "EPOLLIN = 0x1"
definition EPOLLOUT :: u32 where "EPOLLOUT = 0x4"
definition EPOLLERR :: u32 where "EPOLLERR = 0x8"
definition EPOLLHUP :: u32 where "EPOLLHUP = 0x10"

definition call_opt :: "('f, 'p) ep_client \<Rightarrow> 'f option \<Rightarrow> nat \<Rightarrow> ('f, 'p) ep_op" where
  "call_opt c f t st = (case f of None \<Rightarrow> Some st | Some g \<Rightarrow> call_transport c g t st)"

definition handle_event ::
  "('f, 'p) ep_client \<Rightarrow> ep_os \<Rightarrow> nat \<times> u32 \<Rightarrow> ('f, 'p) ep_op" where
  "handle_event c os ev st =
     (let t = fst ev; flags = snd ev; v = vptr (transports st t)
      in if flags AND (EPOLLHUP OR EPOLLERR) \<noteq> 0
         then map_option snd (epCloseTransport c os (Some t) st)
         else if flags AND (EPOLLIN OR EPOLLOUT) = 0 then Some st
         else (case v of
                 None \<Rightarrow> None
               | Some tab \<Rightarrow>
                   (case (if flags AND EPOLLIN \<noteq> 0 then call_opt c (handleRead tab) t st else Some st) of
                      None \<Rightarrow> None
                    | Some st1 \<Rightarrow>
                        if flags AND EPOLLOUT \<noteq> 0 then call_opt c (handleWrite tab) t st1 else Some st1)))"

fun handle_events ::
  "('f, 'p) ep_client \<Rightarrow> ep_os \<Rightarrow> (nat \<times> u32) list \<Rightarrow> ('f, 'p) ep_op" where
  "handle_events c os [] st = Some st"
| "handle_events c os (ev # evs) st =
     (case handle_event c os ev st of None \<Rightarrow> None | Some st1 \<Rightarrow> handle_events c os evs st1)"

datatype wait_result = WaitEvents "(nat \<times> u32) list" | WaitEINTR | WaitError

definition ep_timeout :: "c_timeval \<Rightarrow> int" where
  "ep_timeout tv = c_int (c_int (tv_sec tv * 1000) + tv_usec tv div 1000)"

text \<open>
  One round of \<open>epAction\<close>: \<open>before\<close> is the time when the timeout is computed, \<open>after\<close> the time when
  \<open>epoll_wait\<close> has returned \<open>w\<close>.  The result says whether the loop goes on and with which timeout
  \<open>epoll_wait\<close> was called.
\<close>

definition ep_round ::
  "('f, 'p) ep_client \<Rightarrow> ep_os \<Rightarrow> c_timeval \<Rightarrow> c_timeval \<Rightarrow> wait_result \<Rightarrow> ('f, 'p) ep_core \<Rightarrow>
     (bool \<times> int \<times> ('f, 'p) ep_core) option" where
  "ep_round c os before after w st =
     (case timeToNextAlarmEvent before (Some (waitQueue st)) of
        (tv, Some q) \<Rightarrow>
          (let st1 = st\<lparr>waitQueue := q\<rparr>; time_out = ep_timeout tv
           in case w of
                WaitEINTR \<Rightarrow> map_option (\<lambda>s. (True, time_out, s)) (fire_alarms c after st1)
              | WaitError \<Rightarrow> Some (False, time_out, st1)
              | WaitEvents evs \<Rightarrow>
                  (case fire_alarms c after st1 of
                     None \<Rightarrow> None
                   | Some st2 \<Rightarrow> map_option (\<lambda>s. (True, time_out, s)) (handle_events c os evs st2)))
      | (tv, None) \<Rightarrow> None)"

text \<open>The loop itself, over the successive answers of the system; \<open>Inr\<close>: still running after all of them.\<close>

fun ep_rounds ::
  "('f, 'p) ep_client \<Rightarrow> ep_os \<Rightarrow> (c_timeval \<times> c_timeval \<times> wait_result) list \<Rightarrow> ('f, 'p) ep_core \<Rightarrow>
     (int \<times> ('f, 'p) ep_core + ('f, 'p) ep_core) option" where
  "ep_rounds c os [] st = Some (Inr st)"
| "ep_rounds c os ((before, after, w) # ins) st =
     (case ep_round c os before after w st of
        None \<Rightarrow> None
      | Some (False, _, st1) \<Rightarrow> Some (Inl (0, st1))
      | Some (True, _, st1) \<Rightarrow> ep_rounds c os ins st1)"

definition epAction ::
  "('f, 'p) ep_client \<Rightarrow> ep_os \<Rightarrow> (c_timeval \<times> c_timeval \<times> wait_result) list \<Rightarrow> ('f, 'p) ep_core \<Rightarrow>
     (int \<times> ('f, 'p) ep_core + ('f, 'p) ep_core) option" where
  "epAction c os ins st =
     (let st = CHECK_SINGLETON os st
      in if descriptor st = - 1 then Some (Inl (- 1, st)) else ep_rounds c os ins st)"

section \<open>Invariant\<close>

definition node_slots :: "(ep_cb, 'p) timeListType \<Rightarrow> u32 set" where
  \<comment> \<open>the slots occupied by queued nodes\<close>
  "node_slots q = word_of_nat ` naddr ` set (entries q)"

definition armed :: "(ep_cb, 'p) timeListType \<Rightarrow> bool" where
  \<comment> \<open>every queued node has its \<open>cbTimeout\<close>\<close>
  "armed q \<longleftrightarrow> (\<forall>n \<in> set (map bare (entries q)). cbTimeout n \<noteq> None)"

definition ep_inv :: "('f, 'p) ep_core \<Rightarrow> u32 set \<Rightarrow> bool" where
  \<comment> \<open>every slot is free, queued, or one of the nodes \<open>F\<close> whose handlers are running\<close>
  "ep_inv st F \<longleftrightarrow>
     (if singletonFlag st then tl_inv (waitQueue st) else entries (waitQueue st) = []) \<and>
     slotSize (epTimeEventAlloc st) = 32 \<and> chunkSize (epTimeEventAlloc st) = 1280 \<and> slot_geom (epTimeEventAlloc st) \<and>
     armed (waitQueue st) \<and> (\<forall>n \<in> set (entries (waitQueue st)). naddr n < 2 ^ 32) \<and> node_slots (waitQueue st) \<inter> F = {} \<and>
     (if timeEventFactoryFlag st
      then \<exists>free. slot_inv (links st) (epTimeEventAlloc st) free (node_slots (waitQueue st) \<union> F)
      else entries (waitQueue st) = [] \<and> F = {})"

lemma forty_slots: "slotSize a = 32 \<Longrightarrow> chunkSize a = 1280 \<Longrightarrow> length (slots a) = 40"
  by (simp add: slots_def)

lemma CHECK_SINGLETON_inv:
  assumes "ep_inv st F" "norm_tv (now os)"
  shows "ep_inv (CHECK_SINGLETON os st) F" "singletonFlag (CHECK_SINGLETON os st)"
    "entries (waitQueue (CHECK_SINGLETON os st)) = entries (waitQueue st)"
proof -
  have "ep_inv (CHECK_SINGLETON os st) F \<and> singletonFlag (CHECK_SINGLETON os st) \<and>
    entries (waitQueue (CHECK_SINGLETON os st)) = entries (waitQueue st)"
  proof (cases "singletonFlag st")
    case False
    then show ?thesis
      using assms by (auto simp: CHECK_SINGLETON_def ep_inv_def tl_inv_def node_slots_def armed_def split: if_splits)
  qed (use assms in \<open>simp add: CHECK_SINGLETON_def\<close>)
  then show "ep_inv (CHECK_SINGLETON os st) F" "singletonFlag (CHECK_SINGLETON os st)"
    "entries (waitQueue (CHECK_SINGLETON os st)) = entries (waitQueue st)" by auto
qed

lemma factory_inv:
  assumes "ep_inv st F"
  shows "\<exists>st1. TIMEEVENT_FACTORY_SINGLETON st = Some st1 \<and> ep_inv st1 F \<and> timeEventFactoryFlag st1 \<and>
    waitQueue st1 = waitQueue st \<and> singletonFlag st1 = singletonFlag st"
proof (cases "timeEventFactoryFlag st")
  case False
  let ?a = "epTimeEventAlloc st"
  have g: "slot_geom ?a" "slotSize ?a = 32" "entries (waitQueue st) = []" "F = {}"
    using assms False by (auto simp: ep_inv_def)
  have "slot_round 32 = 32" by (simp add: slot_round_def Let_def)
  then have a: "?a\<lparr>slotSize := slot_round (slotSize ?a)\<rparr> = ?a" using g(2) by simp
  obtain h where "init_slot_allocator (links st) (Some ?a) = Some (0, h, Some ?a)" "slot_inv h ?a (slots ?a) {}"
    using init_slot_allocator_inv(2) [OF g(1), of "links st"] unfolding a by blast
  then show ?thesis
    using assms False g by (auto simp: TIMEEVENT_FACTORY_SINGLETON_def ep_inv_def node_slots_def)
qed (use assms in \<open>simp add: TIMEEVENT_FACTORY_SINGLETON_def\<close>)

lemma create_inv:
  assumes "ep_inv st F"
  shows "\<exists>p st1. epFactoryCreateTimeEvent st = Some (p, st1) \<and> waitQueue st1 = waitQueue st \<and>
    singletonFlag st1 = singletonFlag st \<and>
    (if card (node_slots (waitQueue st) \<union> F) = 40 then p = 0 \<and> ep_inv st1 F
     else p \<noteq> 0 \<and> p \<notin> node_slots (waitQueue st) \<union> F \<and> ep_inv st1 (insert p F))"
proof -
  obtain st1 where s: "TIMEEVENT_FACTORY_SINGLETON st = Some st1" "ep_inv st1 F" "timeEventFactoryFlag st1"
    "waitQueue st1 = waitQueue st" "singletonFlag st1 = singletonFlag st"
    using factory_inv [OF assms] by blast
  let ?a = "epTimeEventAlloc st1" and ?u = "node_slots (waitQueue st) \<union> F"
  obtain free where f: "slot_inv (links st1) ?a free ?u" and sz: "slotSize ?a = 32" "chunkSize ?a = 1280" "slot_geom ?a"
    using s by (auto simp: ep_inv_def)
  have c: "length free + card ?u = 40" using slot_inv_count(1) [OF f] forty_slots [OF sz(1,2)] by simp
  have "(0 :: u32) < SIZEOF_NODE" "SIZEOF_NODE \<le> slotSize ?a" by (simp_all add: SIZEOF_NODE_def sz)
  note m = slot_malloc_inv [OF f this]
  show ?thesis
  proof (cases free)
    case Nil
    then show ?thesis using m c s by (simp add: epFactoryCreateTimeEvent_def)
  next
    case (Cons p free')
    then obtain h where h: "slot_malloc (links st1) (Some ?a) SIZEOF_NODE = Some (p, h)" "slot_inv h ?a free' (insert p ?u)"
      using m by auto
    have p: "p \<in> set (slots ?a)" "p \<notin> ?u" using f Cons by (auto simp: slot_inv_def)
    have "ep_inv (st1\<lparr>links := h\<rparr>) (insert p F)" using s p(2) h(2) by (auto simp: ep_inv_def)
    moreover have "p \<noteq> 0" using slots_in_chunk(4) [OF sz(3) p(1)] .
    ultimately show ?thesis using s h(1) p(2) c Cons by (simp add: epFactoryCreateTimeEvent_def)
  qed
qed

lemma recycle_inv:
  assumes "ep_inv st F" "p \<in> F"
  shows "\<exists>st1. epFactoryRecyleTimeEvent p st = Some (0, st1) \<and> ep_inv st1 (F - {p}) \<and>
    waitQueue st1 = waitQueue st \<and> singletonFlag st1 = singletonFlag st"
proof -
  obtain st1 where s: "TIMEEVENT_FACTORY_SINGLETON st = Some st1" "ep_inv st1 F" "timeEventFactoryFlag st1"
    "waitQueue st1 = waitQueue st" "singletonFlag st1 = singletonFlag st"
    using factory_inv [OF assms(1)] by blast
  let ?a = "epTimeEventAlloc st1" and ?u = "node_slots (waitQueue st) \<union> F"
  obtain free where f: "slot_inv (links st1) ?a free ?u"
    using s by (auto simp: ep_inv_def)
  have d: "node_slots (waitQueue st) \<inter> F = {}" using assms(1) by (simp add: ep_inv_def)
  then have u: "?u - {p} = node_slots (waitQueue st) \<union> (F - {p})" using assms(2) by auto
  obtain h where "slot_free (links st1) (Some ?a) p = Some h" "slot_inv h ?a (free @ [p]) (?u - {p})"
    using slot_free_inv [OF f, of p] assms(2) by blast
  then show ?thesis
    using s d unfolding u by (auto simp: epFactoryRecyleTimeEvent_def ep_inv_def)
qed

text \<open>Replacing the queue: what the timer operations must keep.\<close>

lemma requeue_inv:
  assumes "ep_inv st F" "singletonFlag st" "timeEventFactoryFlag st \<or> entries q = [] \<and> F' = {}"
    and "tl_inv q" "armed q" "naddr ` set (entries q) \<subseteq> naddr ` set (entries (waitQueue st)) \<union> unat ` F"
    and "node_slots q \<inter> F' = {}" "node_slots q \<union> F' = node_slots (waitQueue st) \<union> F"
  shows "ep_inv (st\<lparr>waitQueue := q\<rparr>) F'"
proof -
  have "naddr n < 2 ^ 32" if "n \<in> set (entries q)" for n
  proof -
    have "naddr n \<in> naddr ` set (entries (waitQueue st)) \<union> unat ` F" using that assms(6) by auto
    then show ?thesis using assms(1) unat_u32 by (auto simp: ep_inv_def)
  qed
  then show ?thesis using assms(1-5,7-8) by (auto simp: ep_inv_def split: if_splits)
qed

lemma node_slots_insert:
  "naddr ` set (entries q') = insert (unat p) (naddr ` set (entries q)) \<Longrightarrow> node_slots q' = insert p (node_slots q)"
  by (simp add: node_slots_def)

lemma node_slots_remove:
  assumes "naddr ` set (entries q') = naddr ` set (entries q) - {k}" "k \<in> naddr ` set (entries q)"
    "\<forall>n \<in> set (entries q). naddr n < 2 ^ 32"
  shows "node_slots q' = node_slots q - {word_of_nat k}" "word_of_nat k \<in> node_slots q"
proof -
  have "inj_on (word_of_nat :: nat \<Rightarrow> u32) (naddr ` set (entries q))"
    using assms(3) by (intro inj_onI) (auto simp: word_of_nat_eq_iff take_bit_eq_mod)
  then show "node_slots q' = node_slots q - {word_of_nat k}" "word_of_nat k \<in> node_slots q"
    using assms(1,2) by (simp_all add: node_slots_def inj_on_image_set_diff [of _ "naddr ` set (entries q)"])
qed

lemma epCallLater_inv:
  assumes "ep_inv st F" "norm_tv (now os)" "norm_tv \<lparr>tv_sec = s, tv_usec = u\<rparr>" "handler \<noteq> 0"
  defines "q \<equiv> waitQueue (CHECK_SINGLETON os st)"
  shows "if card (node_slots (waitQueue st) \<union> F) = 40
    then \<exists>st'. epCallLater os s u handler param st = Some (- 1, st') \<and> ep_inv st' F \<and> waitQueue st' = q
    else \<exists>p st'. epCallLater os s u handler param st = Some (c_int (uint (listToken q)), st') \<and> ep_inv st' F \<and>
      p \<notin> node_slots (waitQueue st) \<union> F \<and>
      timers (waitQueue st') = insert_due (usecs \<lparr>tv_sec = s, tv_usec = u\<rparr>)
        (bare \<lparr>naddr = unat p, tvRemain = \<lparr>tv_sec = s, tv_usec = u\<rparr>, cbTimeout = Some EpTimeOutHandler,
               cbParam = param, reserved = handler, idToken = listToken q\<rparr>)
        (elapse (elapsed (now os) q) (timers q))"
proof -
  let ?c = "CHECK_SINGLETON os st"
  note c = CHECK_SINGLETON_inv [OF assms(1,2)]
  have ns: "node_slots (waitQueue ?c) = node_slots (waitQueue st)" using c(3) by (simp add: node_slots_def)
  obtain p st1 where cr: "epFactoryCreateTimeEvent ?c = Some (p, st1)" "waitQueue st1 = q" "singletonFlag st1"
    "if card (node_slots (waitQueue st) \<union> F) = 40 then p = 0 \<and> ep_inv st1 F
     else p \<noteq> 0 \<and> p \<notin> node_slots (waitQueue st) \<union> F \<and> ep_inv st1 (insert p F)"
    using create_inv [OF c(1)] c(2) unfolding ns q_def by metis
  show ?thesis
  proof (cases "card (node_slots (waitQueue st) \<union> F) = 40")
    case True
    then show ?thesis using cr assms(4) by (simp add: epCallLater_def Let_def)
  next
    case False
    then have p: "p \<noteq> 0" "p \<notin> node_slots (waitQueue st) \<union> F" "ep_inv st1 (insert p F)" using cr(4) by auto
    let ?n = "\<lparr>naddr = unat p, tvRemain = \<lparr>tv_sec = s, tv_usec = u\<rparr>, cbTimeout = Some EpTimeOutHandler,
               cbParam = param, reserved = handler, idToken = 0\<rparr>"
    have q: "tl_inv q" using p(3) cr(2,3) by (simp add: ep_inv_def)
    have "naddr ?n \<notin> set (map naddr (entries q))"
    proof
      assume "naddr ?n \<in> set (map naddr (entries q))"
      then have "word_of_nat (unat p) \<in> node_slots q" by (force simp: node_slots_def simp del: of_nat_unat)
      then show False using p(2) ns by (simp only: word_of_nat_unat q_def) blast
    qed
    then obtain l where l: "addAlarmEventNode (now os) (Some q) ?n = (c_int (uint (listToken q)), Some l)" "tl_inv l"
      "naddr ` set (entries l) = insert (unat p) (naddr ` set (entries q))"
      "timers l = insert_due (usecs (tvRemain ?n)) (bare (?n\<lparr>idToken := listToken q\<rparr>)) (elapse (elapsed (now os) q) (timers q))"
      "set (map bare (entries l)) = insert (bare (?n\<lparr>idToken := listToken q\<rparr>)) (set (map bare (entries q)))"
      using addAlarmEventNode_addrs [OF q assms(2), of ?n] assms(3) by auto
    have ar: "armed q" using p(3) cr(2) by (simp add: ep_inv_def)
    then have "armed l" unfolding armed_def l(5) by auto
    note ar = this
    have nl: "node_slots l = insert p (node_slots (waitQueue st))"
      using node_slots_insert [OF l(3)] ns by (simp add: q_def)
    have "node_slots (waitQueue st) \<inter> F = {}" using assms(1) by (simp add: ep_inv_def)
    then have "ep_inv (st1\<lparr>waitQueue := l\<rparr>) F"
      using p(2,3) cr(2,3) l(2,3) nl ns ar
      by (intro requeue_inv [OF p(3) cr(3)]) (auto simp: ep_inv_def q_def split: if_splits)
    moreover have "epCallLater os s u handler param st = Some (c_int (uint (listToken q)), st1\<lparr>waitQueue := l\<rparr>)"
      using assms(4) cr(1,2) p(1) l(1) by (simp add: epCallLater_def Let_def del: addAlarmEventNode.simps)
    ultimately show ?thesis using False l(4) p(2) by auto
  qed
qed

lemma epCancelCall_inv:
  assumes "ep_inv st F" "norm_tv (now os)" "singletonFlag st"
  shows "\<exists>r st'. epCancelCall os token st = Some (r, st') \<and> ep_inv st' F \<and>
    (if \<exists>n \<in> set (entries (waitQueue st)). idToken n = word_of_int token
     then r = 0 \<and> card (node_slots (waitQueue st)) = Suc (card (node_slots (waitQueue st')))
     else r = - 1 \<and> node_slots (waitQueue st') = node_slots (waitQueue st))"
proof -
  let ?q = "waitQueue st" and ?t = "word_of_int token :: u32"
  have i: "tl_inv ?q" "\<forall>n \<in> set (entries ?q). naddr n < 2 ^ 32" "node_slots ?q \<inter> F = {}"
    using assms by (auto simp: ep_inv_def)
  have fin: "finite (node_slots ?q)" by (simp add: node_slots_def)
  obtain e l where d: "delAlarmEventNode (now os) (Some ?q) ?t = (e, Some l)" "tl_inv l" and
    sub: "set (map bare (entries l)) \<subseteq> set (map bare (entries ?q))" and
    cs: "case e of
       None \<Rightarrow> naddr ` set (entries l) = naddr ` set (entries ?q) \<and> (\<forall>n \<in> set (entries ?q). idToken n \<noteq> ?t)
     | Some n \<Rightarrow> naddr ` set (entries l) = naddr ` set (entries ?q) - {naddr n} \<and> naddr n \<in> naddr ` set (entries ?q) \<and>
         (\<exists>m \<in> set (entries ?q). idToken m = ?t)"
    using delAlarmEventNode_addrs [OF i(1) assms(2)] by blast
  have "armed ?q" using assms(1) by (simp add: ep_inv_def)
  then have ar: "armed l" using sub unfolding armed_def by blast
  show ?thesis
  proof (cases e)
    case None
    then have n: "naddr ` set (entries l) = naddr ` set (entries ?q)" "\<forall>n \<in> set (entries ?q). idToken n \<noteq> ?t" using cs by auto
    then have "node_slots l = node_slots ?q" by (simp add: node_slots_def)
    moreover from this n have "ep_inv (st\<lparr>waitQueue := l\<rparr>) F"
      using assms(1,3) d(2) i ar by (intro requeue_inv) (auto simp: ep_inv_def split: if_splits)
    ultimately show ?thesis using None d n(2) assms(3) by (auto simp: epCancelCall_def simp del: delAlarmEventNode.simps)
  next
    case (Some n)
    let ?p = "word_of_nat (naddr n) :: u32"
    have a: "naddr ` set (entries l) = naddr ` set (entries ?q) - {naddr n}" "naddr n \<in> naddr ` set (entries ?q)"
      using cs Some by auto
    note r = node_slots_remove [OF a i(2)]
    have tok: "\<exists>m \<in> set (entries ?q). idToken m = ?t" using cs Some by auto
    have p: "?p \<notin> F" using r(2) i(3) by blast
    have "entries ?q \<noteq> []" using a(2) by auto
    then have flag: "timeEventFactoryFlag st" using assms(1) by (auto simp: ep_inv_def split: if_splits)
    have "node_slots l \<inter> insert ?p F = {}" "node_slots l \<union> insert ?p F = node_slots ?q \<union> F"
      using r i(3) by auto
    moreover have "naddr ` set (entries l) \<subseteq> naddr ` set (entries ?q) \<union> unat ` F" using a(1) by blast
    ultimately have "ep_inv (st\<lparr>waitQueue := l\<rparr>) (insert ?p F)"
      using requeue_inv [OF assms(1,3) _ d(2) ar] flag by blast
    from recycle_inv [OF this, of ?p]
    obtain st' where s: "epFactoryRecyleTimeEvent ?p (st\<lparr>waitQueue := l\<rparr>) = Some (0, st')" "ep_inv st' F"
      "waitQueue st' = l" using p by auto
    moreover have "card (node_slots ?q) = Suc (card (node_slots l))"
      using r fin by (metis card_Suc_Diff1)
    ultimately show ?thesis
      using tok d(1) Some assms(3) by (auto simp: epCancelCall_def simp del: delAlarmEventNode.simps)
  qed
qed

section \<open>Rounds of the loop\<close>

text \<open>
  What is required of the client: its callbacks return, keep the bookkeeping of nodes intact and
  leave the tables of the registered transports \<open>T\<close> in place.  Callbacks that only use
  \<open>epCallLater\<close> and \<open>epCancelCall\<close> do so.
\<close>

definition ep_good :: "nat set \<Rightarrow> ('f, 'p) ep_core \<Rightarrow> u32 set \<Rightarrow> bool" where
  "ep_good T st F \<longleftrightarrow> ep_inv st F \<and> singletonFlag st \<and> (\<forall>t \<in> T. vptr (transports st t) \<noteq> None)"

definition client_ok :: "nat set \<Rightarrow> ('f, 'p) ep_client \<Rightarrow> bool" where
  "client_ok T c \<longleftrightarrow>
     (\<forall>h p st F. ep_good T st F \<longrightarrow> (\<exists>r st'. call_handler c h p st = Some (r, st') \<and> ep_good T st' F)) \<and>
     (\<forall>f t st F. ep_good T st F \<longrightarrow> (\<exists>st'. call_transport c f t st = Some st' \<and> ep_good T st' F))"

definition head_intact :: "(ep_cb, 'p) timeListType \<Rightarrow> bool" where
  "head_intact q \<longleftrightarrow> tv_sec (tvRemain (eventHead q)) \<noteq> 0"

lemma factory_transports: "TIMEEVENT_FACTORY_SINGLETON st = Some st1 \<Longrightarrow> transports st1 = transports st"
  by (auto simp: TIMEEVENT_FACTORY_SINGLETON_def split: if_splits option.splits prod.splits)

lemma recycle_transports: "epFactoryRecyleTimeEvent p st = Some (r, st1) \<Longrightarrow> transports st1 = transports st"
  by (auto simp: epFactoryRecyleTimeEvent_def dest!: factory_transports split: if_splits option.splits)

lemma fire_alarms_good:
  assumes "client_ok T c" "ep_good T st F" "norm_tv t" "head_intact (waitQueue st)"
  shows "\<exists>st'. fire_alarms c t st = Some st' \<and> ep_good T st' F"
proof -
  let ?q = "waitQueue st"
  have g: "ep_inv st F" "singletonFlag st" "\<forall>t \<in> T. vptr (transports st t) \<noteq> None"
    using assms(2) by (auto simp: ep_good_def)
  then have i: "tl_inv ?q" "\<forall>n \<in> set (entries ?q). naddr n < 2 ^ 32" "node_slots ?q \<inter> F = {}"
    by (auto simp: ep_inv_def)
  obtain l e where h: "handleAlarmEvent t (Some ?q) = Some (Some l, e)" "tl_inv l" and
    sub: "set (map bare (entries l)) \<union> bare ` set_option e \<subseteq> set (map bare (entries ?q))" and
    cs: "case e of
       None \<Rightarrow> naddr ` set (entries l) = naddr ` set (entries ?q)
     | Some n \<Rightarrow> naddr ` set (entries l) = naddr ` set (entries ?q) - {naddr n} \<and> naddr n \<in> naddr ` set (entries ?q)"
    using handleAlarmEvent_addrs [OF i(1) assms(3)] assms(4) unfolding head_intact_def by blast
  have "armed ?q" using g(1) by (simp add: ep_inv_def)
  then have ar: "armed l" "\<forall>n \<in> bare ` set_option e. cbTimeout n \<noteq> None" using sub unfolding armed_def by blast+
  show ?thesis
  proof (cases e)
    case None
    then have a: "naddr ` set (entries l) = naddr ` set (entries ?q)" using cs by simp
    then have "node_slots l = node_slots ?q" by (simp add: node_slots_def)
    moreover have "timeEventFactoryFlag st \<or> entries l = [] \<and> F = {}"
      using g(1) a by (auto simp: ep_inv_def split: if_splits)
    ultimately have "ep_inv (st\<lparr>waitQueue := l\<rparr>) F"
      using i(3) a by (intro requeue_inv [OF g(1,2) _ h(2) ar(1)]) simp_all
    then show ?thesis using None h(1) g by (simp add: fire_alarms_def ep_good_def del: handleAlarmEvent.simps)
  next
    case (Some n)
    let ?p = "word_of_nat (naddr n) :: u32" and ?s = "st\<lparr>waitQueue := l\<rparr>"
    have a: "naddr ` set (entries l) = naddr ` set (entries ?q) - {naddr n}" "naddr n \<in> naddr ` set (entries ?q)"
      using cs Some by auto
    note r = node_slots_remove [OF a i(2)]
    have p: "?p \<notin> F" using r(2) i(3) by blast
    have "entries ?q \<noteq> []" using a(2) by auto
    then have flag: "timeEventFactoryFlag st" using g(1) by (auto simp: ep_inv_def split: if_splits)
    have "node_slots l \<inter> insert ?p F = {}" "node_slots l \<union> insert ?p F = node_slots ?q \<union> F"
      using r i(3) by auto
    moreover have "naddr ` set (entries l) \<subseteq> naddr ` set (entries ?q) \<union> unat ` F" using a(1) by blast
    ultimately have inv: "ep_inv ?s (insert ?p F)"
      using requeue_inv [OF g(1,2) _ h(2) ar(1)] flag by blast
    then have gs: "ep_good T ?s (insert ?p F)" using g by (simp add: ep_good_def)
    obtain r1 st1 where c: "call_handler c (reserved n) (cbParam n) ?s = Some (r1, st1)" "ep_good T st1 (insert ?p F)"
      using assms(1) gs unfolding client_ok_def by blast
    have "ep_inv st1 (insert ?p F)" using c(2) by (simp add: ep_good_def)
    from recycle_inv [OF this, of ?p] obtain st2 where
      z: "epFactoryRecyleTimeEvent ?p st1 = Some (0, st2)" "ep_inv st2 F" "singletonFlag st2 = singletonFlag st1"
      using p by auto
    have "ep_good T st2 F" using z c(2) recycle_transports [OF z(1)] by (simp add: ep_good_def)
    moreover obtain cb where "cbTimeout n = Some cb" using ar(2) Some by auto
    then have "fire_alarms c t st = Some st2"
      using Some h(1) c(1) z(1)
      by (cases cb) (simp add: fire_alarms_def epTimeOutHandler_def del: handleAlarmEvent.simps)
    ultimately show ?thesis by blast
  qed
qed

lemma CHECK_SINGLETON_id: "singletonFlag st \<Longrightarrow> CHECK_SINGLETON os st = st"
  by (simp add: CHECK_SINGLETON_def)

lemma ep_good_close:
  assumes "ep_good T st F"
  shows "ep_good T (st\<lparr>transports := (transports st)(t := (transports st t)\<lparr>tdescriptor := d\<rparr>)\<rparr>) F"
  using assms by (auto simp: ep_good_def ep_inv_def)

lemma handle_event_good:
  assumes "client_ok T c" "ep_good T st F" "fst ev \<in> T"
  shows "\<exists>st'. handle_event c os ev st = Some st' \<and> ep_good T st' F"
proof -
  let ?t = "fst ev"
  have call: "\<exists>s'. call_transport c f ?t s = Some s' \<and> ep_good T s' F" if "ep_good T s F" for f s
    using assms(1) that unfolding client_ok_def by blast
  then have opt: "\<exists>s'. call_opt c f ?t s = Some s' \<and> ep_good T s' F" if "ep_good T s F" for f s
    using that by (cases f) (auto simp: call_opt_def)
  have v: "vptr (transports s ?t) \<noteq> None" "singletonFlag s" if "ep_good T s F" for s
    using that assms(3) by (auto simp: ep_good_def)
  let ?s = "st\<lparr>transports := (transports st)(?t := (transports st ?t)\<lparr>tdescriptor := - 1\<rparr>)\<rparr>"
  have gs: "ep_good T ?s F" using ep_good_close [OF assms(2)] .
  obtain tab where tab: "vptr (transports st ?t) = Some tab" using v(1) [OF assms(2)] by blast
  have close: "\<exists>r st'. epCloseTransport c os (Some ?t) st = Some (r, st') \<and> ep_good T st' F"
  proof (cases "tdescriptor (transports st ?t) = - 1")
    case True
    then show ?thesis using v(2) [OF assms(2)] assms(2) by (simp add: epCloseTransport_def CHECK_SINGLETON_id Let_def)
  next
    case False
    then have "epCloseTransport c os (Some ?t) st = map_option (Pair 0) (call_opt c (handleClose tab) ?t ?s)"
      using v(2) [OF assms(2)] tab
      by (cases "handleClose tab") (simp_all add: epCloseTransport_def CHECK_SINGLETON_id Let_def call_opt_def)
    then show ?thesis using opt [OF gs, of "handleClose tab"] by auto
  qed
  show ?thesis
  proof (cases "snd ev AND (EPOLLHUP OR EPOLLERR) \<noteq> 0")
    case True
    then show ?thesis using close by (auto simp: handle_event_def Let_def)
  next
    case False
    obtain s1 where s1: "(if snd ev AND EPOLLIN \<noteq> 0 then call_opt c (handleRead tab) ?t st else Some st) = Some s1"
      "ep_good T s1 F" using opt [OF assms(2), of "handleRead tab"] assms(2) by (cases "snd ev AND EPOLLIN \<noteq> 0") auto
    then show ?thesis
      using False tab opt [OF s1(2), of "handleWrite tab"] assms(2) by (auto simp: handle_event_def Let_def)
  qed
qed

lemma handle_events_good:
  assumes "client_ok T c" "ep_good T st F" "fst ` set evs \<subseteq> T"
  shows "\<exists>st'. handle_events c os evs st = Some st' \<and> ep_good T st' F"
  using assms(2,3)
proof (induction evs arbitrary: st)
  case (Cons ev evs)
  then show ?case using handle_event_good [OF assms(1) Cons.prems(1), of ev os] by fastforce
qed simp

lemma sync_good:
  assumes "ep_good T st F" "norm_tv t"
  shows "ep_good T (st\<lparr>waitQueue := synchronize t (waitQueue st)\<rparr>) F"
proof -
  let ?q = "waitQueue st" and ?l = "synchronize t (waitQueue st)"
  have g: "ep_inv st F" "singletonFlag st" using assms(1) by (auto simp: ep_good_def)
  then have i: "tl_inv ?q" "armed ?q" "node_slots ?q \<inter> F = {}" by (auto simp: ep_inv_def)
  have m: "map naddr (entries ?l) = map naddr (entries ?q)" using map_naddr_bare synchronize_fields(4) by metis
  then have a: "naddr ` set (entries ?l) = naddr ` set (entries ?q)" by (metis list.set_map)
  then have "node_slots ?l = node_slots ?q" by (simp add: node_slots_def)
  moreover have "armed ?l" using i(2) by (simp add: armed_def synchronize_fields(4) del: set_map)
  moreover have "timeEventFactoryFlag st \<or> entries ?l = [] \<and> F = {}"
    using g(1) by (auto simp: ep_inv_def split: if_splits)
  ultimately have "ep_inv (st\<lparr>waitQueue := ?l\<rparr>) F"
    using i(3) a synchronize_timers(1) [OF i(1) assms(2)] by (intro requeue_inv [OF g]) simp_all
  then show ?thesis using assms(1) by (simp add: ep_good_def)
qed

text \<open>
  \<open>epGetTransport\<close> takes the transport it returns out of the list, except when it is the first one,
  which stays linked.
\<close>

lemma epGetTransport_unlinks:
  assumes "header st = p # rest" "distinct (p # rest)"
  shows "case epGetTransport d st of (r, st') \<Rightarrow>
    r = find (\<lambda>t. d = tdescriptor (transports st t)) (header st) \<and>
    header st' = (if r = Some p then header st else filter (\<lambda>t. r \<noteq> Some t) (header st))"
proof -
  let ?m = "\<lambda>t. d = tdescriptor (transports st t)"
  have u: "unlink_desc (transports st) d ts = (find ?m ts, filter (\<lambda>t. find ?m ts \<noteq> Some t) ts)" if "distinct ts" for ts
    using that
  proof (induction ts)
    case (Cons t ts)
    have "filter (\<lambda>x. x \<noteq> t) ts = ts" using Cons.prems by (auto intro: filter_True)
    moreover have "find ?m ts \<noteq> Some t" using Cons.prems by (auto simp: find_Some_iff)
    ultimately show ?case using Cons by (auto simp: eq_commute)
  qed simp
  have "find (\<lambda>t. d = tdescriptor (transports st t)) rest \<noteq> Some p" using assms(2) by (auto simp: find_Some_iff)
  then show ?thesis using assms u [of rest] by (auto simp: epGetTransport_def)
qed

section \<open>Properties\<close>

text \<open>
  Scheduling a call.  On a consistent state, for a handler and a delay in normal form:
  \<open>epCallLater\<close> fails, with -1 and no timer added, exactly when all forty nodes are in use;
  otherwise it returns the token of a new timer that is due after the delay and will call the
  handler with its parameter, queued behind the timers due no later, and takes a node that no
  other timer uses.  Consistency is kept.
\<close>

theorem epCallLater_schedules:
  assumes "ep_inv st {}" "norm_tv (now os)" "norm_tv \<lparr>tv_sec = s, tv_usec = u\<rparr>" "handler \<noteq> 0"
    and "q = waitQueue (CHECK_SINGLETON os st)"
  shows "if card (node_slots (waitQueue st)) = 40
    then \<exists>st'. epCallLater os s u handler param st = Some (- 1, st') \<and> ep_inv st' {} \<and> waitQueue st' = q
    else \<exists>p st'. epCallLater os s u handler param st = Some (c_int (uint (listToken q)), st') \<and> ep_inv st' {} \<and>
      p \<notin> node_slots (waitQueue st) \<and>
      timers (waitQueue st') = insert_due (usecs \<lparr>tv_sec = s, tv_usec = u\<rparr>)
        (bare \<lparr>naddr = unat p, tvRemain = \<lparr>tv_sec = s, tv_usec = u\<rparr>, cbTimeout = Some EpTimeOutHandler,
               cbParam = param, reserved = handler, idToken = listToken q\<rparr>)
        (elapse (elapsed (now os) q) (timers q))"
  using epCallLater_inv [OF assms(1-4), of param] unfolding assms(5) Un_empty_right .

definition demo_core :: "(unit, unit) ep_core" where
  \<comment> \<open>the static variables at program start, the node array at address 4096\<close>
  "demo_core = \<lparr>descriptor = - 1, header = [],
     waitQueue = \<lparr>eventHead = \<lparr>naddr = 0, tvRemain = DELAY_ZERO, cbTimeout = None, cbParam = None, reserved = 0, idToken = 0\<rparr>,
       entries = [], listToken = 0, tvLastSync = DELAY_ZERO\<rparr>,
     singletonFlag = False, timeEventFactoryFlag = False,
     epTimeEventAlloc = \<lparr>slotSize = 32, freeSlots = 64, chunkMem = 4096, chunkSize = 1280\<rparr>,
     links = \<lparr>nextp = (\<lambda>_. None), prevp = (\<lambda>_. None)\<rparr>,
     transports = (\<lambda>_. \<lparr>tdescriptor = - 1, vptr = None\<rparr>)\<rparr>"

definition demo_os :: ep_os where
  "demo_os = \<lparr>now = \<lparr>tv_sec = 100, tv_usec = 0\<rparr>, epoll_create = 5, epoll_ctl = 0\<rparr>"

lemma demo_core_inv: "ep_inv demo_core {}" "norm_tv (now demo_os)"
  by (simp_all add: ep_inv_def demo_core_def demo_os_def slot_geom_def invalid_slot_alloc_def armed_def
      node_slots_def norm_tv_def)

theorem epCallLater_schedules_witness:
  "\<exists>st'. epCallLater demo_os 2 0 77 None demo_core = Some (1, st') \<and> ep_inv st' {}"
proof -
  have "listToken (waitQueue (CHECK_SINGLETON demo_os demo_core)) = 1"
    by (simp add: CHECK_SINGLETON_def demo_core_def)
  moreover have "card (node_slots (waitQueue demo_core)) = 0" by (simp add: node_slots_def demo_core_def)
  moreover have "norm_tv \<lparr>tv_sec = 2, tv_usec = 0\<rparr>" by (simp add: norm_tv_def)
  ultimately show ?thesis
    using epCallLater_schedules [OF demo_core_inv, of 2 0 77 _ None] by (auto simp: c_int_id)
qed

text \<open>
  Cancelling a call.  On a consistent, initialised state \<open>epCancelCall\<close> returns 0 exactly when
  a queued timer carries the token; then one node goes back to the allocator.  Otherwise it
  returns -1 and the queued nodes stay the same.  Before the first other call of the module
  (no initialisation is done here) it dereferences a null pointer.
\<close>

theorem epCancelCall_frees_node:
  assumes "ep_inv st {}" "norm_tv (now os)" "singletonFlag st"
  shows "(\<exists>r st'. epCancelCall os token st = Some (r, st') \<and> ep_inv st' {} \<and>
      (if \<exists>n \<in> set (entries (waitQueue st)). idToken n = word_of_int token
       then r = 0 \<and> card (node_slots (waitQueue st)) = Suc (card (node_slots (waitQueue st')))
       else r = - 1 \<and> node_slots (waitQueue st') = node_slots (waitQueue st))) \<and>
    epCancelCall os token (st\<lparr>singletonFlag := False\<rparr>) = None"
  using epCancelCall_inv [OF assms, of token] by (simp add: epCancelCall_def)

lemma demo_core_started:
  "ep_inv (CHECK_SINGLETON demo_os demo_core) {}" "singletonFlag (CHECK_SINGLETON demo_os demo_core)"
  "entries (waitQueue (CHECK_SINGLETON demo_os demo_core)) = []"
  using CHECK_SINGLETON_inv [OF demo_core_inv] by (simp_all add: demo_core_def)

theorem epCancelCall_frees_node_witness:
  "\<exists>st'. epCancelCall demo_os 5 (CHECK_SINGLETON demo_os demo_core) = Some (- 1, st') \<and> ep_inv st' {}"
  using epCancelCall_frees_node [OF demo_core_started(1) demo_core_inv(2) demo_core_started(2), of 5] demo_core_started(3)
  by auto

text \<open>
  C18. A round of the loop keeps the books.  For a client whose callbacks respect the interface, on
  a consistent state whose list head still holds its "never" mark, a round of \<open>epAction\<close> runs to
  its end without dereferencing a null pointer, whatever \<open>epoll_wait\<close> answers, and every node is
  again free or queued: a fired timer's node is recycled exactly once, after its handler, even
  when the handler schedules or cancels calls itself.  The loop ends exactly on an error other
  than an interrupted wait.
\<close>

theorem ep_round_keeps_books:
  assumes "client_ok T c" "ep_good T st {}" "head_intact (waitQueue st)" "norm_tv before" "norm_tv after"
    and "case w of WaitEvents evs \<Rightarrow> fst ` set evs \<subseteq> T | _ \<Rightarrow> True"
  shows "\<exists>st' time_out. ep_round c os before after w st = Some (w \<noteq> WaitError, time_out, st') \<and> ep_good T st' {}"
proof -
  let ?s = "st\<lparr>waitQueue := synchronize before (waitQueue st)\<rparr>"
  have g: "ep_good T ?s {}" using sync_good [OF assms(2,4)] .
  have "head_intact (waitQueue ?s)" using assms(3) by (simp add: head_intact_def)
  then obtain st2 where f: "fire_alarms c after ?s = Some st2" "ep_good T st2 {}"
    using fire_alarms_good [OF assms(1) g assms(5)] by blast
  show ?thesis
  proof (cases w)
    case (WaitEvents evs)
    then obtain st3 where "handle_events c os evs st2 = Some st3" "ep_good T st3 {}"
      using handle_events_good [OF assms(1) f(2), of evs os] assms(6) by auto
    then show ?thesis using WaitEvents f by (simp add: ep_round_def Let_def)
  qed (use f g in \<open>simp_all add: ep_round_def Let_def\<close>)
qed

definition demo_client :: "(unit, unit) ep_client" where
  "demo_client = \<lparr>call_handler = (\<lambda>_ _ st. Some (0, st)), call_transport = (\<lambda>_ _ st. Some st)\<rparr>"

theorem ep_round_keeps_books_witness:
  "\<exists>st' time_out. ep_round demo_client demo_os (now demo_os) (now demo_os) WaitEINTR (CHECK_SINGLETON demo_os demo_core) =
     Some (True, time_out, st') \<and> ep_good {} st' {}"
proof -
  have "client_ok {} demo_client" by (simp add: client_ok_def demo_client_def)
  moreover have "ep_good {} (CHECK_SINGLETON demo_os demo_core) {}"
    using demo_core_started by (simp add: ep_good_def)
  moreover have "head_intact (waitQueue (CHECK_SINGLETON demo_os demo_core))"
    by (simp add: head_intact_def CHECK_SINGLETON_def demo_core_def infinity_def)
  ultimately show ?thesis
    using ep_round_keeps_books [of "{}" demo_client _ "now demo_os" "now demo_os" WaitEINTR demo_os] demo_core_inv(2) by simp
qed

text \<open>
  The timeout handed to \<open>epoll_wait\<close>.  For a timer at most 2147482 seconds ahead it is the due
  time in whole milliseconds, rounded down; for the mark "never" of an empty list the 32-bit
  arithmetic wraps around to exactly -1, the value that makes \<open>epoll_wait\<close> wait for ever.
\<close>

theorem ep_timeout_milliseconds:
  assumes "norm_tv tv" "tv_sec tv \<le> 2147482"
  shows "ep_timeout tv * 1000 \<le> usecs tv \<and> usecs tv < (ep_timeout tv + 1) * 1000 \<and> ep_timeout infinity = - 1"
proof -
  have n: "0 \<le> tv_sec tv" "0 \<le> tv_usec tv" "tv_usec tv < 1000000" using assms(1) by (auto simp: norm_tv_def)
  define q where "q = tv_usec tv div 1000"
  have "tv_usec tv = q * 1000 + tv_usec tv mod 1000" "0 \<le> tv_usec tv mod 1000" "tv_usec tv mod 1000 < 1000"
    by (simp_all add: q_def)
  then have d: "0 \<le> q" "q \<le> 999" "q * 1000 \<le> tv_usec tv" "tv_usec tv < q * 1000 + 1000"
    using n by linarith+
  then have "ep_timeout tv = tv_sec tv * 1000 + q"
    using n(1) assms(2) by (simp add: ep_timeout_def c_int_id flip: q_def)
  moreover have "ep_timeout infinity = - 1"
    by (simp add: ep_timeout_def infinity_def MILLION_def c_int_def signed_take_bit_eq_take_bit_shift take_bit_eq_mod)
  ultimately show ?thesis using d by (simp add: usecs_def)
qed

theorem ep_timeout_milliseconds_witness:
  "ep_timeout \<lparr>tv_sec = 2, tv_usec = 1999\<rparr> * 1000 \<le> 2001999 \<and> 2001999 < (ep_timeout \<lparr>tv_sec = 2, tv_usec = 1999\<rparr> + 1) * 1000"
  using ep_timeout_milliseconds [of "\<lparr>tv_sec = 2, tv_usec = 1999\<rparr>"] by (simp add: norm_tv_def usecs_def)

end
