(* ===== verification/Shm_Alloc.thy ===== *)
theory Shm_Alloc
  imports Kernel_List Block_Tiling
begin

text \<open>
  \<open>libckits/shmAlloc.c\<close>, the allocator in a chunk of shared memory, which processes may map at
  different addresses: links are offsets from the start of the chunk.  First the offset-linked
  list, shown to meet the contract of an intrusive list; then the allocator, over the list of free
  blocks it keeps in address order.  Pointers into the chunk are their offsets from the handle; a
  block is named by the offset of its payload (its \<open>list\<close> member), 4 above the block itself.  The
  links of a free block take 8 bytes of its payload; linking a block with a smaller payload
  overwrites the size word of the next block, and the model's answer is then \<open>None\<close>.
\<close>

unbundle bit_operations_syntax

section \<open>The offset-linked list\<close>

record shm_list_heap =
  snext :: "u32 \<Rightarrow> u32"
  sprev :: "u32 \<Rightarrow> u32"

definition shm_list_add_between :: "shm_list_heap \<Rightarrow> u32 \<Rightarrow> u32 \<Rightarrow> u32 \<Rightarrow> shm_list_heap" where
  \<comment> \<open>\<open>__shm_list_add\<close>\<close>
  "shm_list_add_between h new p n =
     (let h1 = h\<lparr>sprev := (sprev h)(n := new)\<rparr>;
          h2 = h1\<lparr>snext := (snext h1)(new := n)\<rparr>;
          h3 = h2\<lparr>sprev := (sprev h2)(new := p)\<rparr>
      in h3\<lparr>snext := (snext h3)(p := new)\<rparr>)"

definition shm_list_add :: "shm_list_heap \<Rightarrow> u32 \<Rightarrow> u32 \<Rightarrow> shm_list_heap" where
  "shm_list_add h new head = shm_list_add_between h new head (snext h head)"

definition shm_list_add_tail :: "shm_list_heap \<Rightarrow> u32 \<Rightarrow> u32 \<Rightarrow> shm_list_heap" where
  "shm_list_add_tail h new head = shm_list_add_between h new (sprev h head) head"

definition shm_list_del_between :: "shm_list_heap \<Rightarrow> u32 \<Rightarrow> u32 \<Rightarrow> shm_list_heap" where
  \<comment> \<open>\<open>__shm_list_del\<close>\<close>
  "shm_list_del_between h p n =
     (let h1 = h\<lparr>sprev := (sprev h)(n := p)\<rparr> in h1\<lparr>snext := (snext h1)(p := n)\<rparr>)"

definition shm_list_del :: "shm_list_heap \<Rightarrow> u32 \<Rightarrow> shm_list_heap" where
  "shm_list_del h entry =
     (let h1 = shm_list_del_between h (sprev h entry) (snext h entry)
      in h1\<lparr>snext := (snext h1)(entry := 0), sprev := (sprev h1)(entry := 0)\<rparr>)"

definition shm_list_init :: "shm_list_heap \<Rightarrow> u32 \<Rightarrow> shm_list_heap" where
  \<comment> \<open>\<open>INIT_SHM_LIST_HEAD\<close> in \<open>init_shm_allocator\<close>\<close>
  "shm_list_init h head = h\<lparr>sprev := (sprev h)(head := head), snext := (snext h)(head := head)\<rparr>"

text \<open>The offsets as pointers that are never null.\<close>

definition as_heap :: "shm_list_heap \<Rightarrow> u32 lheap" where
  "as_heap h = \<lparr>nextp = (\<lambda>p. Some (snext h p)), prevp = (\<lambda>p. Some (sprev h p))\<rparr>"

definition shm_ring :: "shm_list_heap \<Rightarrow> u32 \<Rightarrow> u32 list \<Rightarrow> bool" where
  "shm_ring h head xs \<longleftrightarrow> dlist (as_heap h) head xs"

lemma as_heap_add_tail: "list_add_tail (as_heap h) new x = Some (as_heap (shm_list_add_tail h new x))"
  by (auto simp: list_add_tail_def as_heap_def shm_list_add_tail_def shm_list_add_between_def set_next_def set_prev_def
      Let_def fun_eq_iff)

lemma as_heap_del:
  "\<exists>h1. list_del (as_heap h) y = Some h1 \<and> (\<forall>a. a \<noteq> y \<longrightarrow>
     nextp (as_heap (shm_list_del h y)) a = nextp h1 a \<and> prevp (as_heap (shm_list_del h y)) a = prevp h1 a)"
  by (auto simp: list_del_def as_heap_def shm_list_del_def shm_list_del_between_def Let_def set_next_def set_prev_def)

interpretation sl: intrusive_list shm_ring shm_list_init
  "\<lambda>h new x. Some (shm_list_add_tail h new x)" "\<lambda>h y. Some (shm_list_del h y)" "\<lambda>h x. Some (snext h x)"
proof unfold_locales
  show "distinct (head # xs)" if "shm_ring h head xs" for h head xs
    using kl.rep_distinct [of "as_heap h" head xs] that by (simp add: shm_ring_def)
  show "shm_ring (shm_list_init h head) head []" for h head
    by (simp add: shm_ring_def dlist_def as_heap_def shm_list_init_def)
  show "\<exists>h'. Some (shm_list_add_tail h new (hd (ys @ [head]))) = Some h' \<and> shm_ring h' head (xs @ new # ys)"
    if "shm_ring h head (xs @ ys)" "new \<notin> set (head # xs @ ys)" for h head xs ys new
    using kl.rep_insert [of "as_heap h"] that as_heap_add_tail by (simp add: shm_ring_def)
  show "\<exists>h'. Some (shm_list_del h y) = Some h' \<and> shm_ring h' head (xs @ ys)"
    if "shm_ring h head (xs @ y # ys)" for h head xs y ys
  proof -
    obtain h1 where h1: "list_del (as_heap h) y = Some h1"
      "\<And>a. a \<noteq> y \<Longrightarrow> nextp (as_heap (shm_list_del h y)) a = nextp h1 a \<and> prevp (as_heap (shm_list_del h y)) a = prevp h1 a"
      using as_heap_del by metis
    then have "dlist h1 head (xs @ ys)"
      using kl.rep_remove [of "as_heap h" head xs y ys] that by (simp add: shm_ring_def)
    moreover have "y \<notin> set (head # xs @ ys)" using kl.rep_distinct that by (fastforce simp: shm_ring_def)
    ultimately have "shm_ring (shm_list_del h y) head (xs @ ys)"
      unfolding shm_ring_def using h1(2) by (elim dlist_frame) metis
    then show ?thesis by blast
  qed
  show "Some (snext h head) = Some (hd (xs @ [head]))" if "shm_ring h head xs" for h head xs
    using kl.rep_first [of "as_heap h"] that by (simp add: shm_ring_def as_heap_def)
  show "shm_ring h' g zs" if "Some (shm_list_add_tail h new (hd (ys @ [head]))) = Some h'" "shm_ring h head (xs @ ys)"
    "shm_ring h g zs" "set (g # zs) \<inter> set (new # head # xs @ ys) = {}" for h h' new head xs ys g zs
    using kl.insert_frame [of "as_heap h"] that as_heap_add_tail unfolding shm_ring_def by blast
  show "shm_ring h' g zs" if "Some (shm_list_del h y) = Some h'" "shm_ring h head (xs @ y # ys)"
    "shm_ring h g zs" "set (g # zs) \<inter> set (head # xs @ y # ys) = {}" for h h' y head xs ys g zs
  proof -
    obtain h1 where h1: "list_del (as_heap h) y = Some h1"
      "\<And>a. a \<noteq> y \<Longrightarrow> nextp (as_heap (shm_list_del h y)) a = nextp h1 a \<and> prevp (as_heap (shm_list_del h y)) a = prevp h1 a"
      using as_heap_del by metis
    have "dlist h1 g zs" using kl.remove_frame [OF h1(1)] that(2-4) unfolding shm_ring_def by blast
    moreover have "y \<notin> set (g # zs)" using that(4) by auto
    ultimately have "dlist (as_heap (shm_list_del h y)) g zs" using h1(2) by (elim dlist_frame) metis
    then show ?thesis using that(1) unfolding shm_ring_def by simp
  qed
qed

section \<open>The allocator\<close>

record shm_alloc_t =
  freeParts :: "u32 list" \<comment> \<open>the free ring, by payload offset\<close>
  candiate :: u32 \<comment> \<open>the offset of a block (not of its payload), 0 for none\<close>
  magicFlag :: u32
  chunkSize :: u32
  psize :: "u32 \<Rightarrow> u32" \<comment> \<open>the size words; the low two bits count references\<close>

definition ALIGN_4BYTES :: "u32 \<Rightarrow> u32" where "ALIGN_4BYTES x = (x + 3) AND NOT 3"

definition CONST_MAGIC_FLAG :: u32 where "CONST_MAGIC_FLAG = 0xAA55AA55"

text \<open>
  \<open>init_shm_allocator memStart sz old\<close>: \<open>old\<close> is what the aligned address holds before; the result
  is the handle (0 for null) and the allocator there.  \<open>sizeof(shm_alloc_t)\<close> is 20.
\<close>

definition init_shm_allocator :: "u32 \<Rightarrow> u32 \<Rightarrow> shm_alloc_t \<Rightarrow> u32 \<times> shm_alloc_t" where
  "init_shm_allocator memStart csize old =
     (if memStart = 0 \<or> csize \<le> EFFTSIZE_TO_POOLSIZE 0 + 20 then (0, old)
      else (let chunkEnd = memStart + csize; base = ALIGN_4BYTES memStart; node = base + 20
            in if node \<ge> chunkEnd then (0, old)
               else if magicFlag old = CONST_MAGIC_FLAG then (base, old)
               else (base, old\<lparr>chunkSize := chunkEnd - node, freeParts := [],
                               psize := (psize old)(24 := POOLSIZE_TO_EFFTSIZE (chunkEnd - node)),
                               candiate := 20, magicFlag := CONST_MAGIC_FLAG\<rparr>)))"

definition shm_invalid :: "shm_alloc_t \<Rightarrow> bool" where
  \<comment> \<open>the check every entry point makes on a non-null handle\<close>
  "shm_invalid info \<longleftrightarrow> chunkSize info \<le> 0 \<or> magicFlag info \<noteq> CONST_MAGIC_FLAG"

definition uninit_shm_allocator :: "shm_alloc_t option \<Rightarrow> int \<times> shm_alloc_t option" where
  "uninit_shm_allocator handle =
     (case handle of
        None \<Rightarrow> (- 1, None)
      | Some info \<Rightarrow> if shm_invalid info then (- 1, Some info) else (0, Some (info\<lparr>magicFlag := NOT CONST_MAGIC_FLAG\<rparr>)))"

fun recycle_scan ::
  "(u32 \<Rightarrow> u32) \<Rightarrow> u32 \<Rightarrow> bool \<Rightarrow> u32 list \<Rightarrow> (u32 \<Rightarrow> u32) \<times> u32 \<times> bool \<times> u32 list \<times> u32 list" where
  \<comment> \<open>the loop of \<open>shm_recycle\<close>: the sizes, \<open>cur\<close>, the flag \<open>in\<close>, and the list up to and from \<open>node\<close>\<close>
  "recycle_scan sz cur inn [] = (sz, cur, inn, [], [])"
| "recycle_scan sz cur inn (n # ns) =
     (if n > cur then (sz, cur, inn, [], n # ns)
      else if n - 4 + EFFTSIZE_TO_POOLSIZE (sz n) = cur - 4
      then (case recycle_scan (sz(n := sz n + EFFTSIZE_TO_POOLSIZE (sz cur))) n True ns of
              (sz', cur', inn', pre, suf) \<Rightarrow> (sz', cur', inn', n # pre, suf))
      else (case recycle_scan sz cur inn ns of
              (sz', cur', inn', pre, suf) \<Rightarrow> (sz', cur', inn', n # pre, suf)))"

definition shm_recycle :: "shm_alloc_t \<Rightarrow> u32 \<Rightarrow> shm_alloc_t option" where
  "shm_recycle info cur0 =
     (case recycle_scan (psize info) cur0 False (freeParts info) of
        (sz, cur, inn, pre, suf) \<Rightarrow>
          if \<not> inn \<and> sz cur < 8 then None
          else (let xs = (if inn then pre @ suf else pre @ cur # suf)
                in case suf of
                     [] \<Rightarrow> Some (info\<lparr>psize := sz, freeParts := xs\<rparr>)
                   | node # _ \<Rightarrow>
                       if cur - 4 + EFFTSIZE_TO_POOLSIZE (sz cur) = node - 4
                       then Some (info\<lparr>psize := sz(cur := sz cur + EFFTSIZE_TO_POOLSIZE (sz node)),
                                       freeParts := remove1 node xs\<rparr>)
                       else Some (info\<lparr>psize := sz, freeParts := xs\<rparr>)))"

fun harvest_pick :: "(u32 \<Rightarrow> u32) \<Rightarrow> u32 \<Rightarrow> u32 option \<Rightarrow> u32 list \<Rightarrow> u32 \<times> u32 option" where
  "harvest_pick sz maxSize cur [] = (maxSize, cur)"
| "harvest_pick sz maxSize cur (n # ns) =
     (if sz n > maxSize then harvest_pick sz (sz n) (Some n) ns else harvest_pick sz maxSize cur ns)"

definition shm_harvest :: "shm_alloc_t \<Rightarrow> shm_alloc_t" where
  "shm_harvest info =
     (case harvest_pick (psize info) 0 None (freeParts info) of
        (maxSize, Some cur) \<Rightarrow>
          if maxSize \<noteq> 0 then info\<lparr>freeParts := remove1 cur (freeParts info), candiate := cur - 4\<rparr>
          else info\<lparr>candiate := 0\<rparr>
      | (_, None) \<Rightarrow> info\<lparr>candiate := 0\<rparr>)"

definition shm_carve :: "shm_alloc_t \<Rightarrow> u32 \<Rightarrow> u32 \<Rightarrow> u32 \<times> shm_alloc_t" where
  \<comment> \<open>taking \<open>req\<close> bytes from the candidate, with or without a split\<close>
  "shm_carve info p req =
     (if psize info p > ALIGN_4BYTES req + 12
      then (let cur = p + ALIGN_4BYTES req + 4;
                sz1 = (psize info)(cur := POOLSIZE_TO_EFFTSIZE (psize info p - ALIGN_4BYTES req))
            in (p, info\<lparr>psize := sz1(p := ALIGN_4BYTES req), candiate := cur - 4\<rparr>))
      else (p, info\<lparr>candiate := 0\<rparr>))"

fun shm_malloc_loop :: "nat \<Rightarrow> shm_alloc_t \<Rightarrow> u32 \<Rightarrow> (u32 \<times> shm_alloc_t) option" where
  \<comment> \<open>the do-while loop; the first argument is \<open>health\<close>\<close>
  "shm_malloc_loop 0 info req =
     (if candiate info = 0 then Some (0, info)
      else if psize info (candiate info + 4) \<ge> req then Some (shm_carve info (candiate info + 4) req)
      else Some (0, info))"
| "shm_malloc_loop (Suc health) info req =
     (if candiate info = 0 then Some (0, info)
      else if psize info (candiate info + 4) \<ge> req then Some (shm_carve info (candiate info + 4) req)
      else (case shm_recycle (info\<lparr>candiate := 0\<rparr>) (candiate info + 4) of
              None \<Rightarrow> None
            | Some info1 \<Rightarrow> shm_malloc_loop 0 (shm_harvest info1) req))"

definition shm_malloc :: "shm_alloc_t option \<Rightarrow> u32 \<Rightarrow> (u32 \<times> shm_alloc_t option) option" where
  "shm_malloc handle req =
     (case handle of
        None \<Rightarrow> Some (0, None)
      | Some info \<Rightarrow>
          if shm_invalid info \<or> req \<le> 0 then Some (0, Some info)
          else map_option (\<lambda>(p, i). (p, Some i))
                 (if candiate info = 0 then shm_malloc_loop 0 (shm_harvest info) req
                  else shm_malloc_loop 1 info req))"

text \<open>
  In \<open>shm_add_reference\<close> and \<open>shm_free\<close> the pointer is given by its offset; one below the handle has
  an offset that wraps around and is beyond the end like any other foreign pointer.
\<close>

definition shm_add_reference :: "shm_alloc_t option \<Rightarrow> u32 option \<Rightarrow> int \<times> shm_alloc_t option" where
  "shm_add_reference handle mem =
     (case (handle, mem) of
        (Some info, Some p) \<Rightarrow>
          if shm_invalid info then (- 1, Some info)
          else if p \<ge> 20 + chunkSize info then (- 1, Some info)
          else (let s = psize info p AND NOT 3
                in if s > chunkSize info then (- 1, Some info)
                   else if s + 3 \<le> psize info p then (- 1, Some info)
                   else (0, Some (info\<lparr>psize := (psize info)(p := psize info p + 1)\<rparr>)))
      | _ \<Rightarrow> (- 1, handle))"

definition shm_free :: "shm_alloc_t option \<Rightarrow> u32 option \<Rightarrow> shm_alloc_t option option" where
  "shm_free handle mem =
     (case (handle, mem) of
        (Some info, Some p) \<Rightarrow>
          if shm_invalid info then Some (Some info)
          else if p \<ge> 20 + chunkSize info then Some (Some info)
          else (let s = psize info p AND NOT 3
                in if s > chunkSize info then Some (Some info)
                   else if psize info p AND 3 \<noteq> 0
                   then Some (Some (info\<lparr>psize := (psize info)(p := psize info p - 1)\<rparr>))
                   else map_option Some (shm_recycle info p))
      | _ \<Rightarrow> Some handle)"

definition shm_offset :: "u32 \<Rightarrow> shm_alloc_t \<Rightarrow> u32 \<Rightarrow> u32" where
  \<comment> \<open>\<open>handle\<close> and \<open>mem\<close> are addresses here\<close>
  "shm_offset handle info mem =
     (if handle = 0 \<or> shm_invalid info \<or> mem = 0 then 0xFFFFFFFF else mem - handle)"

definition shm_pointer :: "u32 \<Rightarrow> shm_alloc_t \<Rightarrow> u32 \<Rightarrow> u32" where
  "shm_pointer handle info off =
     (if handle = 0 \<or> shm_invalid info \<or> 20 + chunkSize info \<le> off then 0 else handle + off)"

definition shm_strdup :: "shm_alloc_t option \<Rightarrow> string \<Rightarrow> (u32 \<times> string \<times> shm_alloc_t option) option" where
  \<comment> \<open>the offset of the copy, the bytes stored there, the allocator\<close>
  "shm_strdup handle s =
     (if length s = 0 then Some (0, [], handle)
      else case shm_malloc handle (of_nat (length s) + 1) of
             None \<Rightarrow> None
           | Some (p, h) \<Rightarrow> Some (p, if p \<noteq> 0 then s @ [CHR 0x00] else [], h))"

section \<open>Sizes and reference bits\<close>

definition al4 :: "u32 \<Rightarrow> bool" where "al4 w \<longleftrightarrow> w AND 3 = 0"

definition eff :: "(u32 \<Rightarrow> u32) \<Rightarrow> u32 \<Rightarrow> u32" where "eff sz p = sz p AND NOT 3"

lemma and3: "w AND 3 = take_bit 2 w" for w :: u32
  by (simp add: take_bit_eq_mask mask_eq_exp_minus_1)

lemma al4_dvd: "al4 w \<longleftrightarrow> 4 dvd uint w"
proof -
  have "uint (w AND 3) = uint w mod 4"
    unfolding and3 by (simp only: unsigned_take_bit_eq) (simp add: take_bit_eq_mod)
  then have "w AND 3 = 0 \<longleftrightarrow> uint w mod 4 = 0" by (simp add: word_uint_eq_iff)
  then show ?thesis unfolding al4_def by (simp add: dvd_eq_mod_eq_0)
qed

lemma al4_arith: "al4 a \<Longrightarrow> al4 b \<Longrightarrow> al4 (a + b)" "al4 a \<Longrightarrow> al4 b \<Longrightarrow> al4 (a - b)" "al4 4"
  unfolding al4_dvd by (auto simp: uint_word_ariths intro!: dvd_mod)

lemma al4_and: "al4 w \<Longrightarrow> w AND NOT 3 = w"
  unfolding and_not_diff al4_def by simp

lemma al4_align: "al4 (w AND NOT 3)"
  by (simp add: al4_def and.assoc)

lemma eff_al4: "al4 (sz p) \<Longrightarrow> eff sz p = sz p"
  unfolding eff_def by (rule al4_and)

lemma eff_upd: "al4 v \<Longrightarrow> eff (sz(p := v)) = (eff sz)(p := v)"
proof (rule ext)
  show "eff (sz(p := v)) x = ((eff sz)(p := v)) x" if "al4 v" for x
    using al4_and [OF that] unfolding eff_def by (cases "x = p") (simp_all only: fun_upd_same fun_upd_other not_False_eq_True)
qed

lemma align4_unat:
  assumes "unat x + 3 < 2 ^ 32"
  shows "unat x \<le> unat (ALIGN_4BYTES x)" "unat (ALIGN_4BYTES x) \<le> unat x + 3"
proof -
  have "(x + 3) AND NOT 3 = (x + 3) - ((x + 3) AND 3)" by (rule and_not_diff)
  moreover have m: "unat ((x + 3) AND 3) = unat (x + 3) mod 4"
    unfolding and3 by (simp only: unsigned_take_bit_eq) (simp add: take_bit_eq_mod)
  moreover have "unat (x + 3) = unat x + 3" using assms by (simp add: unat_word_ariths)
  ultimately have "unat (ALIGN_4BYTES x) = unat x + 3 - (unat x + 3) mod 4"
    unfolding ALIGN_4BYTES_def by (metis unat_sub word_le_nat_alt mod_less_eq_dividend)
  moreover have "(unat x + 3) mod 4 \<le> 3" by simp
  ultimately show "unat x \<le> unat (ALIGN_4BYTES x)" "unat (ALIGN_4BYTES x) \<le> unat x + 3" by linarith+
qed

section \<open>Recycling\<close>

text \<open>What the loop of \<open>shm_recycle\<close> finds in a list in address order.\<close>

lemma recycle_scan_result:
  assumes "heap_ok es s e (insert cur (set xs \<union> U))" "e \<le> 2 ^ 32 - 8" "4 \<le> s"
    and "sorted_wrt (<) xs" "cur \<notin> set xs" "\<forall>p \<in> set (cur # xs). es p = sz p"
  shows "\<exists>pre suf. xs = pre @ suf \<and> (\<forall>m \<in> set suf. cur < m) \<and>
    (recycle_scan sz cur False xs = (sz, cur, False, pre, suf) \<and> (\<forall>m \<in> set pre. m < cur \<and> \<not> adjacent sz m cur) \<or>
     (\<exists>pre0 n. pre = pre0 @ [n] \<and> adjacent sz n cur \<and>
        recycle_scan sz cur False xs = (sz(n := sz n + EFFTSIZE_TO_POOLSIZE (sz cur)), n, True, pre, suf)))"
  using assms
proof (induction xs arbitrary: U)
  case (Cons n ns)
  let ?B = "insert cur (set (n # ns) \<union> U)"
  have adj: "n - 4 + EFFTSIZE_TO_POOLSIZE (sz n) = cur - 4 \<longleftrightarrow> adjacent sz n cur"
    using word_adjacent [OF Cons.prems(1-3), of cur n] Cons.prems(6) by (simp add: adjacent_def)
  have sorted: "\<forall>m \<in> set ns. n < m" "sorted_wrt (<) ns" using Cons.prems(4) by auto
  show ?case
  proof (cases "n > cur")
    case True
    then have "\<forall>m \<in> set (n # ns). cur < m" using sorted(1) by auto
    then have "n # ns = [] @ n # ns \<and> (\<forall>m \<in> set (n # ns). cur < m) \<and>
        recycle_scan sz cur False (n # ns) = (sz, cur, False, [], n # ns) \<and> (\<forall>m \<in> set []. m < cur \<and> \<not> adjacent sz m cur)"
      using True by simp
    then show ?thesis by blast
  next
    case False
    then have lt: "n < cur" using Cons.prems(5) by auto
    show ?thesis
    proof (cases "adjacent sz n cur")
      case True
      have "cur < m" if "m \<in> set ns" for m
      proof -
        have "n \<noteq> m" "m \<noteq> cur" "n < m" using that sorted(1) Cons.prems(5) by auto
        then show ?thesis
          using heap_ok_apart [OF Cons.prems(1), of n m] that True Cons.prems(6) unfolding adjacent_def word_less_nat_alt
          by (auto simp: word_unat_eq_iff)
      qed
      moreover have "recycle_scan sz cur False (n # ns) = (sz(n := sz n + EFFTSIZE_TO_POOLSIZE (sz cur)), n, True, [n], ns)"
      proof -
        have "recycle_scan z n True ns = (z, n, True, [], ns)" for z using sorted(1) by (cases ns) auto
        then show ?thesis using lt True adj by simp
      qed
      moreover have "n # ns = [n] @ ns" "[n] = [] @ [n]" by simp_all
      ultimately show ?thesis using True by blast
    next
      case no: False
      have "?B = insert cur (set ns \<union> insert n U)" by auto
      then have "heap_ok es s e (insert cur (set ns \<union> insert n U))" "cur \<notin> set ns" "\<forall>p \<in> set (cur # ns). es p = sz p"
        using Cons.prems(1,5,6) by simp_all
      from Cons.IH [OF this(1) Cons.prems(2,3) sorted(2) this(2,3)]
      obtain pre suf where ih: "ns = pre @ suf" "\<forall>m \<in> set suf. cur < m"
        "recycle_scan sz cur False ns = (sz, cur, False, pre, suf) \<and> (\<forall>m \<in> set pre. m < cur \<and> \<not> adjacent sz m cur) \<or>
         (\<exists>pre0 n. pre = pre0 @ [n] \<and> adjacent sz n cur \<and>
           recycle_scan sz cur False ns = (sz(n := sz n + EFFTSIZE_TO_POOLSIZE (sz cur)), n, True, pre, suf))"
        by blast
      have step: "recycle_scan sz cur False (n # ns) = (case recycle_scan sz cur False ns of
              (sz', cur', inn', pre, suf) \<Rightarrow> (sz', cur', inn', n # pre, suf))"
        using lt no adj by auto
      from ih(3) show ?thesis
      proof
        assume "recycle_scan sz cur False ns = (sz, cur, False, pre, suf) \<and> (\<forall>m \<in> set pre. m < cur \<and> \<not> adjacent sz m cur)"
        then have "n # ns = (n # pre) @ suf" "recycle_scan sz cur False (n # ns) = (sz, cur, False, n # pre, suf)"
          "\<forall>m \<in> set (n # pre). m < cur \<and> \<not> adjacent sz m cur"
          using ih(1) step lt no by (simp_all del: recycle_scan.simps)
        then show ?thesis using ih(2) by blast
      next
        assume "\<exists>pre0 n. pre = pre0 @ [n] \<and> adjacent sz n cur \<and>
           recycle_scan sz cur False ns = (sz(n := sz n + EFFTSIZE_TO_POOLSIZE (sz cur)), n, True, pre, suf)"
        then obtain pre0 k where "pre = pre0 @ [k]" "adjacent sz k cur"
          "recycle_scan sz cur False ns = (sz(k := sz k + EFFTSIZE_TO_POOLSIZE (sz cur)), k, True, pre, suf)" by blast
        then have "n # ns = (n # pre) @ suf" "n # pre = (n # pre0) @ [k]" "adjacent sz k cur"
          "recycle_scan sz cur False (n # ns) = (sz(k := sz k + EFFTSIZE_TO_POOLSIZE (sz cur)), k, True, n # pre, suf)"
          using ih(1) step by (simp_all del: recycle_scan.simps)
        then show ?thesis using ih(2) by blast
      qed
    qed
  qed
qed simp

definition floating :: "(u32 \<Rightarrow> u32) \<Rightarrow> nat \<Rightarrow> u32 set \<Rightarrow> u32 \<Rightarrow> u32 list \<Rightarrow> u32 list \<Rightarrow> bool" where
  \<comment> \<open>the free block \<open>c\<close> belongs between \<open>pre\<close> and \<open>suf\<close>; \<open>U\<close> are the other blocks\<close>
  "floating sz e U c pre suf \<longleftrightarrow>
     heap_ok (eff sz) 20 e (insert c (set (pre @ suf) \<union> U)) \<and> sorted_wrt (<) (pre @ c # suf) \<and>
     c \<notin> U \<and> set (pre @ suf) \<inter> U = {} \<and> (\<forall>p \<in> set (pre @ c # suf). al4 (sz p)) \<and>
     coalesced (eff sz) (set (pre @ suf)) \<and> (\<forall>m \<in> set pre. \<not> adjacent (eff sz) m c)"

definition parts :: "(u32 \<Rightarrow> u32) \<Rightarrow> nat \<Rightarrow> u32 set \<Rightarrow> u32 list \<Rightarrow> bool" where
  \<comment> \<open>the free list \<open>xs\<close> is in address order, fully merged, and fills the chunk together with \<open>U\<close>\<close>
  "parts sz e U xs \<longleftrightarrow> heap_ok (eff sz) 20 e (set xs \<union> U) \<and> sorted_wrt (<) xs \<and> set xs \<inter> U = {} \<and>
     (\<forall>p \<in> set xs. al4 (sz p)) \<and> coalesced (eff sz) (set xs)"

lemma sorted_distinct: "sorted_wrt (<) xs \<Longrightarrow> distinct xs" for xs :: "u32 list"
  by (induction xs) auto

lemma floating_done:
  assumes "floating sz e U c pre suf" "suf \<noteq> [] \<longrightarrow> \<not> adjacent (eff sz) c (hd suf)"
  shows "parts sz e U (pre @ c # suf)"
proof -
  let ?B = "insert c (set (pre @ suf) \<union> U)"
  have f: "heap_ok (eff sz) 20 e ?B" "sorted_wrt (<) (pre @ c # suf)" "coalesced (eff sz) (set (pre @ suf))"
    "\<forall>m \<in> set pre. \<not> adjacent (eff sz) m c" using assms(1) by (auto simp: floating_def)
  have right: "\<not> adjacent (eff sz) c m" if m: "m \<in> set suf" for m
  proof
    assume adj: "adjacent (eff sz) c m"
    obtain h t where ht: "suf = h # t" using m by (cases suf) auto
    then have "m \<noteq> h" using adj assms(2) by auto
    then have "h < m" "c < h" using m ht f(2) by (auto simp: sorted_wrt_append)
    moreover have "c \<in> ?B" "h \<in> ?B" using ht by auto
    ultimately show False
      using heap_ok_apart [OF f(1), of c h] adj unfolding adjacent_def word_less_nat_alt by auto
  qed
  have "\<not> adjacent (eff sz) p q" if "p \<in> insert c (set (pre @ suf))" "q \<in> insert c (set (pre @ suf))" for p q
  proof -
    have "\<not> adjacent (eff sz) c c" by (simp add: adjacent_def)
    moreover have "\<not> adjacent (eff sz) c q" if "q \<in> set pre" for q
      using that f(2) by (auto simp: sorted_wrt_append adjacent_def word_less_nat_alt)
    moreover have "\<not> adjacent (eff sz) p c" if "p \<in> set suf" for p
      using that f(2) by (auto simp: sorted_wrt_append adjacent_def word_less_nat_alt)
    ultimately show ?thesis using that right f(3,4) by (auto simp: coalesced_def)
  qed
  then have "coalesced (eff sz) (set (pre @ c # suf))" by (auto simp: coalesced_def)
  moreover have "set (pre @ c # suf) \<union> U = ?B" by auto
  ultimately show ?thesis using assms(1) f(1,2) unfolding parts_def floating_def by auto
qed

lemma floating_merge_right:
  assumes "floating sz e U c pre (n # suf)" "e < 2 ^ 32" "adjacent (eff sz) c n"
  defines "sz' \<equiv> sz(c := sz c + EFFTSIZE_TO_POOLSIZE (sz n))"
  shows "parts sz' e U (pre @ c # suf)"
proof -
  let ?B = "insert c (set (pre @ n # suf) \<union> U)"
  have f: "heap_ok (eff sz) 20 e ?B" "sorted_wrt (<) (pre @ c # n # suf)" "coalesced (eff sz) (set (pre @ n # suf))"
    "\<forall>m \<in> set pre. \<not> adjacent (eff sz) m c" "\<forall>p \<in> set (pre @ c # n # suf). al4 (sz p)"
    "c \<notin> U" "set (pre @ n # suf) \<inter> U = {}"
    using assms(1) by (auto simp: floating_def)
  have al: "al4 (sz c)" "al4 (sz n)" using f(5) by auto
  then have av: "al4 (sz c + EFFTSIZE_TO_POOLSIZE (sz n))"
    unfolding EFFTSIZE_TO_POOLSIZE_def by (intro al4_arith)
  have es: "eff sz' = (eff sz)(c := eff sz c + EFFTSIZE_TO_POOLSIZE (eff sz n))"
    unfolding sz'_def eff_upd [OF av] using al by (simp add: eff_al4)
  have d: "distinct (pre @ c # n # suf)" using sorted_distinct [OF f(2)] .
  have B: "?B - {n} = insert c (set (pre @ suf) \<union> U)" using d f(7) by auto
  have ok: "heap_ok (eff sz') 20 e (insert c (set (pre @ suf) \<union> U))"
    using heap_ok_merge [OF f(1) assms(2), of c n] assms(3) unfolding es B by simp
  have v: "unat (eff sz' c) = unat (eff sz c) + unat (eff sz n) + 4"
    using merged_size [OF f(1) assms(2), of c n] assms(3) unfolding es by simp
  have same: "eff sz' m = eff sz m" if "m \<noteq> c" for m using that by (simp add: es)
  have nc: "m \<noteq> c" if "m \<in> set (pre @ suf)" for m using d that by auto
  have "coalesced (eff sz') (set (pre @ suf))"
  proof (rule coalesced_keep [OF f(3)])
    show "set (pre @ suf) \<subseteq> set (pre @ n # suf)" by auto
  qed (rule same [OF nc])
  moreover have "\<forall>m \<in> set pre. \<not> adjacent (eff sz') m c"
  proof
    fix m assume m: "m \<in> set pre"
    then have "eff sz' m = eff sz m" using same nc by simp
    then show "\<not> adjacent (eff sz') m c" using f(4) m by (simp add: adjacent_def)
  qed
  moreover have "\<forall>p \<in> set (pre @ c # suf). al4 (sz' p)" using f(5) av by (auto simp: sz'_def)
  moreover have "sorted_wrt (<) (pre @ c # suf)" using f(2) by (auto simp: sorted_wrt_append)
  ultimately have "floating sz' e U c pre suf" using ok f(6,7) unfolding floating_def by auto
  moreover have "suf \<noteq> [] \<longrightarrow> \<not> adjacent (eff sz') c (hd suf)"
  proof
    assume "suf \<noteq> []"
    then have "hd suf \<in> set (pre @ n # suf)" by simp
    then have "\<not> adjacent (eff sz) n (hd suf)" using f(3) by (auto simp: coalesced_def)
    then show "\<not> adjacent (eff sz') c (hd suf)" using v assms(3) by (simp add: adjacent_def)
  qed
  ultimately show ?thesis by (rule floating_done)
qed

lemma floating_plain:
  assumes "parts sz e (insert cur U) (pre @ suf)" "al4 (sz cur)" "cur \<notin> U"
    and "\<forall>m \<in> set suf. cur < m" "\<forall>m \<in> set pre. m < cur \<and> \<not> adjacent sz m cur"
  shows "floating sz e U cur pre suf"
proof -
  have p: "heap_ok (eff sz) 20 e (insert cur (set (pre @ suf) \<union> U))" "sorted_wrt (<) (pre @ suf)"
    "set (pre @ suf) \<inter> insert cur U = {}" "\<forall>p \<in> set (pre @ suf). al4 (sz p)" "coalesced (eff sz) (set (pre @ suf))"
    using assms(1) by (auto simp: parts_def)
  have "\<forall>m \<in> set pre. \<not> adjacent (eff sz) m cur" using assms(5) p(4) by (auto simp: adjacent_def eff_al4)
  moreover have "sorted_wrt (<) (pre @ cur # suf)" using p(2) assms(4,5) by (auto simp: sorted_wrt_append)
  ultimately show ?thesis using p assms(2,3) unfolding floating_def by auto
qed

lemma floating_merge_left:
  assumes "parts sz e (insert cur U) (pre @ n # suf)" "al4 (sz cur)" "cur \<notin> U" "e < 2 ^ 32"
    and "\<forall>m \<in> set suf. cur < m" "adjacent sz n cur"
  defines "sz' \<equiv> sz(n := sz n + EFFTSIZE_TO_POOLSIZE (sz cur))"
  shows "floating sz' e U n pre suf"
proof -
  let ?B = "insert cur (set (pre @ n # suf) \<union> U)"
  have p: "heap_ok (eff sz) 20 e ?B" "sorted_wrt (<) (pre @ n # suf)"
    "set (pre @ n # suf) \<inter> insert cur U = {}" "\<forall>p \<in> set (pre @ n # suf). al4 (sz p)" "coalesced (eff sz) (set (pre @ n # suf))"
    using assms(1) by (auto simp: parts_def)
  have al: "al4 (sz n)" using p(4) by auto
  then have av: "al4 (sz n + EFFTSIZE_TO_POOLSIZE (sz cur))"
    using assms(2) unfolding EFFTSIZE_TO_POOLSIZE_def by (intro al4_arith)
  have es: "eff sz' = (eff sz)(n := eff sz n + EFFTSIZE_TO_POOLSIZE (eff sz cur))"
    unfolding sz'_def eff_upd [OF av] using al assms(2) by (simp add: eff_al4)
  have adj: "adjacent (eff sz) n cur" using assms(6) al by (simp add: adjacent_def eff_al4)
  have d: "distinct (pre @ n # suf)" using sorted_distinct [OF p(2)] .
  have B: "?B - {cur} = insert n (set (pre @ suf) \<union> U)" using p(3) assms(3) by auto
  have "heap_ok (eff sz') 20 e (insert n (set (pre @ suf) \<union> U))"
    using heap_ok_merge [OF p(1) assms(4), of n cur] adj unfolding es B by simp
  moreover have nn: "m \<noteq> n" if "m \<in> set (pre @ suf)" for m using d that by auto
  have same: "eff sz' m = eff sz m" if "m \<noteq> n" for m using that by (simp add: es)
  have "coalesced (eff sz') (set (pre @ suf))"
  proof (rule coalesced_keep [OF p(5)])
    show "set (pre @ suf) \<subseteq> set (pre @ n # suf)" by auto
  qed (rule same [OF nn])
  moreover have "\<forall>m \<in> set pre. \<not> adjacent (eff sz') m n"
  proof
    fix m assume m: "m \<in> set pre"
    then have "eff sz' m = eff sz m" using same nn by simp
    then show "\<not> adjacent (eff sz') m n" using p(5) m by (simp add: adjacent_def coalesced_def)
  qed
  moreover have "\<forall>p \<in> set (pre @ n # suf). al4 (sz' p)" using p(4) av by (auto simp: sz'_def)
  ultimately show ?thesis using p(2,3) d unfolding floating_def by auto
qed

lemma shm_recycle_scan:
  assumes "parts (psize info) e (insert cur U) (freeParts info)" "e \<le> 2 ^ 32 - 8"
    and "al4 (psize info cur)" "cur \<notin> U"
  shows "\<exists>sz c inn pre pre' suf. recycle_scan (psize info) cur False (freeParts info) = (sz, c, inn, pre, suf) \<and>
    (if inn then pre @ suf else pre @ c # suf) = pre' @ c # suf \<and> floating sz e U c pre' suf \<and>
    (\<forall>u \<in> U. sz u = psize info u)"
proof -
  let ?sz = "psize info" and ?xs = "freeParts info"
  have p: "heap_ok (eff ?sz) 20 e (insert cur (set ?xs \<union> U))" "sorted_wrt (<) ?xs" "set ?xs \<inter> insert cur U = {}"
    "\<forall>p \<in> set ?xs. al4 (?sz p)"
    using assms(1) by (auto simp: parts_def)
  have cn: "cur \<notin> set ?xs" "\<forall>p \<in> set (cur # ?xs). eff ?sz p = ?sz p" "4 \<le> (20 :: nat)"
    using p(3,4) assms(3) eff_al4 by auto
  obtain pre suf where xs: "?xs = pre @ suf" "\<forall>m \<in> set suf. cur < m" and
    res: "recycle_scan ?sz cur False ?xs = (?sz, cur, False, pre, suf) \<and> (\<forall>m \<in> set pre. m < cur \<and> \<not> adjacent ?sz m cur) \<or>
     (\<exists>pre0 n. pre = pre0 @ [n] \<and> adjacent ?sz n cur \<and>
        recycle_scan ?sz cur False ?xs = (?sz(n := ?sz n + EFFTSIZE_TO_POOLSIZE (?sz cur)), n, True, pre, suf))"
    using recycle_scan_result [OF p(1) assms(2) cn(3) p(2) cn(1,2)] by blast
  from res show ?thesis
  proof
    assume r: "recycle_scan ?sz cur False ?xs = (?sz, cur, False, pre, suf) \<and> (\<forall>m \<in> set pre. m < cur \<and> \<not> adjacent ?sz m cur)"
    have "floating ?sz e U cur pre suf"
      using floating_plain [OF assms(1) [unfolded xs(1)] assms(3,4) xs(2)] r by blast
    then show ?thesis using r by (intro exI [of _ ?sz] exI [of _ cur] exI [of _ False]) auto
  next
    assume "\<exists>pre0 n. pre = pre0 @ [n] \<and> adjacent ?sz n cur \<and>
        recycle_scan ?sz cur False ?xs = (?sz(n := ?sz n + EFFTSIZE_TO_POOLSIZE (?sz cur)), n, True, pre, suf)"
    then obtain pre0 n where r: "pre = pre0 @ [n]" "adjacent ?sz n cur"
      "recycle_scan ?sz cur False ?xs = (?sz(n := ?sz n + EFFTSIZE_TO_POOLSIZE (?sz cur)), n, True, pre, suf)" by blast
    have "parts ?sz e (insert cur U) (pre0 @ n # suf)" using assms(1) xs(1) r(1) by simp
    then have "floating (?sz(n := ?sz n + EFFTSIZE_TO_POOLSIZE (?sz cur))) e U n pre0 suf"
      using floating_merge_left [OF _ assms(3,4) _ xs(2) r(2)] assms(2) by simp
    moreover have "n \<notin> U" using p(3) xs(1) r(1) by auto
    then have "\<forall>u \<in> U. (?sz(n := ?sz n + EFFTSIZE_TO_POOLSIZE (?sz cur))) u = ?sz u" by auto
    moreover have "(if True then pre @ suf else pre @ n # suf) = pre0 @ n # suf" using r(1) by simp
    ultimately show ?thesis using r(3) by blast
  qed
qed

lemma shm_recycle_parts:
  assumes "parts (psize info) e (insert cur U) (freeParts info)" "e \<le> 2 ^ 32 - 8"
    and "al4 (psize info cur)" "cur \<notin> U"
  shows "\<exists>info'. shm_recycle info cur = Some info' \<and> parts (psize info') e U (freeParts info') \<and>
    (\<forall>u \<in> U. psize info' u = psize info u) \<and> candiate info' = candiate info \<and>
    magicFlag info' = magicFlag info \<and> chunkSize info' = chunkSize info"
proof -
  obtain sz c inn pre pre' suf where
    sc: "recycle_scan (psize info) cur False (freeParts info) = (sz, c, inn, pre, suf)"
      "(if inn then pre @ suf else pre @ c # suf) = pre' @ c # suf"
    and fl: "floating sz e U c pre' suf" and keep: "\<forall>u \<in> U. sz u = psize info u"
    using shm_recycle_scan [OF assms] by blast
  let ?B = "insert c (set (pre' @ suf) \<union> U)"
  have ok: "heap_ok (eff sz) 20 e ?B" "c \<notin> U" "\<forall>p \<in> set (pre' @ c # suf). eff sz p = sz p" "sorted_wrt (<) (pre' @ c # suf)"
    using fl eff_al4 by (auto simp: floating_def)
  then have "8 \<le> unat (sz c)" using heap_ok_bounds(3) [OF ok(1), of c] by simp
  then have big: "\<not> sz c < 8" by (simp add: word_less_nat_alt)
  have rec: "shm_recycle info cur = (case suf of
      [] \<Rightarrow> Some (info\<lparr>psize := sz, freeParts := pre' @ c # suf\<rparr>)
    | node # _ \<Rightarrow> if c - 4 + EFFTSIZE_TO_POOLSIZE (sz c) = node - 4
        then Some (info\<lparr>psize := sz(c := sz c + EFFTSIZE_TO_POOLSIZE (sz node)), freeParts := remove1 node (pre' @ c # suf)\<rparr>)
        else Some (info\<lparr>psize := sz, freeParts := pre' @ c # suf\<rparr>))"
    unfolding shm_recycle_def sc(1) prod.case Let_def sc(2) using big by simp
  show ?thesis
  proof (cases suf)
    case Nil
    then show ?thesis
      using keep floating_done [OF fl] unfolding rec by simp
  next
    case (Cons n suf')
    have adj: "c - 4 + EFFTSIZE_TO_POOLSIZE (sz c) = n - 4 \<longleftrightarrow> adjacent (eff sz) c n"
      using word_adjacent [OF ok(1) assms(2), of n c] ok(3) Cons by simp
    have rm: "remove1 n (pre' @ c # suf) = pre' @ c # suf'"
      using sorted_distinct [OF ok(4)] Cons by (auto simp: remove1_append)
    show ?thesis
    proof (cases "adjacent (eff sz) c n")
      case True
      have "parts (sz(c := sz c + EFFTSIZE_TO_POOLSIZE (sz n))) e U (pre' @ c # suf')"
        using floating_merge_right [of sz e U c pre' n suf'] fl Cons True assms(2) by simp
      then show ?thesis
        using keep ok(2) True adj rm unfolding rec Cons by auto
    next
      case False
      then show ?thesis
        using keep adj Cons floating_done [OF fl] unfolding rec by auto
    qed
  qed
qed

section \<open>The invariant\<close>

text \<open>
  \<open>U\<close> are the payloads handed out.  The requests are of more than 4 bytes, so that every payload has
  room for the links of a free block, and the size of the chunk is a multiple of 4, so that the low
  bits of the size words start as zero.
\<close>

definition shm_cand :: "shm_alloc_t \<Rightarrow> u32 set" where
  "shm_cand info = (if candiate info = 0 then {} else {candiate info + 4})"

definition shm_end :: "shm_alloc_t \<Rightarrow> nat" where
  "shm_end info = 20 + unat (chunkSize info)"

definition shm_inv :: "shm_alloc_t \<Rightarrow> u32 set \<Rightarrow> bool" where
  "shm_inv info U \<longleftrightarrow>
     \<not> shm_invalid info \<and> shm_end info \<le> 2 ^ 32 - 16 \<and>
     parts (psize info) (shm_end info) (shm_cand info \<union> U) (freeParts info) \<and>
     shm_cand info \<inter> U = {} \<and> (\<forall>p \<in> shm_cand info. al4 (psize info p))"

definition refs :: "shm_alloc_t \<Rightarrow> u32 \<Rightarrow> nat" where
  \<comment> \<open>the references beyond the first\<close>
  "refs info p = unat (psize info p AND 3)"

lemma parts_take:
  assumes "parts sz e U xs" "c \<in> set xs"
  shows "parts sz e (insert c U) (remove1 c xs)"
proof -
  have d: "distinct xs" using assms(1) sorted_distinct by (simp add: parts_def)
  then have s: "set (remove1 c xs) = set xs - {c}" by simp
  then have "set (remove1 c xs) \<union> insert c U = set xs \<union> U" using assms(2) by auto
  moreover have "sorted_wrt (<) (remove1 c xs)"
    using assms(1) unfolding parts_def
    by (simp add: distinct_remove1_removeAll [OF d] removeAll_filter_not_eq sorted_wrt_filter)
  moreover have "coalesced (eff sz) (set (remove1 c xs))"
    using coalesced_keep [of "eff sz" "set xs"] assms(1) s unfolding parts_def by auto
  ultimately show ?thesis using assms(1) s unfolding parts_def by auto
qed

lemma harvest_pick_max:
  "harvest_pick sz m cur xs = (m', cur') \<Longrightarrow> m \<le> m' \<and> (\<forall>x \<in> set xs. sz x \<le> m') \<and>
     (m' = m \<and> cur' = cur \<or> (\<exists>c \<in> set xs. cur' = Some c \<and> sz c = m'))"
proof (induction xs arbitrary: m cur)
  case (Cons n ns)
  show ?case
  proof (cases "m < sz n")
    case True
    then show ?thesis using Cons.IH [of "sz n" "Some n"] Cons.prems by fastforce
  next
    case False
    then show ?thesis using Cons.IH [of m cur] Cons.prems by fastforce
  qed
qed simp

lemma parts_bounds:
  assumes "parts sz e U xs" "p \<in> set xs \<union> U"
  shows "24 \<le> unat p" "unat p + unat (eff sz p) \<le> e" "8 \<le> unat (eff sz p)"
  using heap_ok_bounds [of "eff sz" 20 e "set xs \<union> U" p] assms by (simp_all add: parts_def)

lemma block_offset: "24 \<le> unat p \<Longrightarrow> p - 4 \<noteq> 0 \<and> p - 4 + 4 = p" for p :: u32
  by (auto simp: diff_eq_eq)

lemma shm_harvest_inv:
  assumes "shm_inv info U" "candiate info = 0"
  shows "shm_inv (shm_harvest info) U \<and> psize (shm_harvest info) = psize info \<and>
    (candiate (shm_harvest info) = 0 \<and> freeParts (shm_harvest info) = [] \<or>
     candiate (shm_harvest info) \<noteq> 0 \<and>
     (\<forall>q \<in> set (freeParts (shm_harvest info)). psize info q \<le> psize info (candiate (shm_harvest info) + 4)))"
proof -
  have p: "parts (psize info) (shm_end info) U (freeParts info)" using assms by (simp add: shm_inv_def shm_cand_def)
  obtain m c where mc: "harvest_pick (psize info) 0 None (freeParts info) = (m, c)" by fastforce
  have al: "eff (psize info) q = psize info q" if "q \<in> set (freeParts info)" for q
    using p that eff_al4 by (auto simp: parts_def)
  note h = harvest_pick_max [OF mc]
  show ?thesis
  proof (cases "freeParts info")
    case Nil
    then have "shm_harvest info = info\<lparr>candiate := 0\<rparr>" using mc by (auto simp: shm_harvest_def)
    then show ?thesis using assms Nil by (simp add: shm_inv_def shm_cand_def shm_invalid_def shm_end_def)
  next
    case (Cons x xs)
    have x: "x \<in> set (freeParts info)" using Cons by simp
    then have "8 \<le> unat (psize info x)" using parts_bounds(3) [OF p, of x] al by simp
    moreover have "psize info x \<le> m" using h x by blast
    ultimately have "m \<noteq> 0" by (auto simp: word_le_nat_alt)
    then obtain y where y: "y \<in> set (freeParts info)" "c = Some y" "psize info y = m" using h by auto
    have hv: "shm_harvest info = info\<lparr>freeParts := remove1 y (freeParts info), candiate := y - 4\<rparr>"
      using mc y(2) \<open>m \<noteq> 0\<close> by (simp add: shm_harvest_def)
    have y24: "y - 4 \<noteq> 0 \<and> y - 4 + 4 = y" using block_offset parts_bounds(1) [OF p, of y] y(1) by simp
    have "y \<notin> U" "al4 (psize info y)" using p y(1) by (auto simp: parts_def)
    then have "shm_inv (shm_harvest info) U"
      using parts_take [OF p y(1)] assms(1) y24
      by (simp add: hv shm_inv_def shm_cand_def shm_end_def shm_invalid_def)
    moreover have "\<forall>q \<in> set (remove1 y (freeParts info)). psize info q \<le> m" using h notin_set_remove1 by fast
    ultimately show ?thesis using y24 y(3) by (simp add: hv)
  qed
qed

section \<open>Allocation\<close>

lemma al4_ge8: "al4 w \<Longrightarrow> 4 < unat w \<Longrightarrow> 8 \<le> unat w"
proof -
  assume a: "al4 w" "4 < unat w"
  have "int (unat w) = uint w" by simp
  then have "4 dvd unat w" using a(1) unfolding al4_dvd by presburger
  then show "8 \<le> unat w" using a(2) by presburger
qed

lemma shm_carve_inv:
  assumes "shm_inv info U" "candiate info \<noteq> 0" "4 < req" "req \<le> psize info (candiate info + 4)"
  defines "p \<equiv> candiate info + 4"
  shows "\<exists>info'. shm_carve info p req = (p, info') \<and> p \<notin> U \<and> p \<noteq> 0 \<and> shm_inv info' (insert p U) \<and>
    (\<forall>u \<in> U. psize info' u = psize info u) \<and> req \<le> psize info' p \<and> refs info' p = 0"
proof -
  let ?sz = "psize info" and ?e = "shm_end info" and ?k = "ALIGN_4BYTES req"
  have c: "parts ?sz ?e (insert p U) (freeParts info)" "p \<notin> U" "al4 (?sz p)" "?e \<le> 2 ^ 32 - 16"
    using assms(1,2) by (auto simp: shm_inv_def shm_cand_def p_def)
  have ep: "eff ?sz p = ?sz p" using c(3) by (rule eff_al4)
  have b: "24 \<le> unat p" "unat p + unat (?sz p) \<le> ?e"
    using parts_bounds [OF c(1), of p] ep by auto
  have rq: "unat req \<le> unat (?sz p)" using assms(4) by (simp add: p_def word_le_nat_alt)
  have k: "unat req \<le> unat ?k" "unat ?k \<le> unat req + 3" "al4 ?k"
    using align4_unat [of req] rq b c(4) al4_align by (auto simp: ALIGN_4BYTES_def)
  have k8: "8 \<le> unat ?k" using al4_ge8 [OF k(3)] k(1) assms(3) by (simp add: word_less_nat_alt)
  have p0: "p \<noteq> 0" using b(1) by auto
  have k12: "unat (?k + 12) = unat ?k + 12" using k(2) rq b c(4) by (simp add: unat_word_ariths)
  show ?thesis
  proof (cases "?sz p > ?k + 12")
    case False
    have "refs info p = 0" using c(3) by (simp add: refs_def al4_def)
    then show ?thesis
      using False assms(1,2,4) c(1,2) p0
      by (simp add: shm_carve_def shm_inv_def shm_cand_def shm_end_def shm_invalid_def refs_def p_def)
  next
    case True
    define q where "q = p + ?k + 4"
    define sz' where "sz' = (?sz(q := POOLSIZE_TO_EFFTSIZE (?sz p - ?k)))(p := ?k)"
    define info' where "info' = info\<lparr>psize := sz', candiate := q - 4\<rparr>"
    have "unat ?k + 12 \<le> unat (?sz p)" using True k12 by (simp add: word_less_nat_alt)
    then have kk: "unat ?k + 12 \<le> unat (eff ?sz p)" using ep by simp
    let ?B = "set (freeParts info) \<union> insert p U"
    have ok: "heap_ok (eff ?sz) 20 ?e ?B" "p \<in> ?B" "?e < 2 ^ 32" using c(1,4) by (auto simp: parts_def)
    have aq: "al4 (POOLSIZE_TO_EFFTSIZE (?sz p - ?k))"
      unfolding POOLSIZE_TO_EFFTSIZE_def by (intro al4_arith c(3) k(3))
    have es: "eff sz' = ((eff ?sz)(q := POOLSIZE_TO_EFFTSIZE (eff ?sz p - ?k)))(p := ?k)"
      unfolding sz'_def eff_upd [OF k(3)] eff_upd [OF aq] ep ..
    note cut = heap_ok_cut [OF ok(1,3,2) k8 kk, folded q_def, folded es]
    have qp: "q \<noteq> p" using cut(3) by auto
    have same: "sz' x = ?sz x" if "x \<noteq> p" "x \<noteq> q" for x using that by (simp add: sz'_def)
    have pr: "p \<notin> set (freeParts info)" using c(1) by (auto simp: parts_def)
    have "parts sz' ?e (insert p (insert q U)) (freeParts info)"
    proof -
      have "\<forall>x \<in> set (freeParts info). sz' x = ?sz x" using same cut(2) pr by (metis UnI1)
      then have "coalesced (eff sz') (set (freeParts info))" "\<forall>x \<in> set (freeParts info). al4 (sz' x)"
        using coalesced_keep [of "eff ?sz" "set (freeParts info)"] c(1) by (auto simp: parts_def eff_def)
      then show ?thesis using cut(1,2) c(1) by (auto simp: parts_def Un_insert_right insert_commute)
    qed
    moreover have "q - 4 \<noteq> 0 \<and> q - 4 + 4 = q" using block_offset cut(3) b(1) by simp
    moreover have "al4 (sz' q)" using aq qp by (simp add: sz'_def)
    ultimately have "shm_inv info' (insert p U)"
      using assms(1) cut(2) qp by (auto simp: info'_def shm_inv_def shm_cand_def shm_end_def shm_invalid_def)
    moreover have "shm_carve info p req = (p, info')"
      using True by (simp add: shm_carve_def info'_def sz'_def q_def)
    moreover have "\<forall>u \<in> U. psize info' u = ?sz u" 
    proof
      fix u assume "u \<in> U"
      then have "u \<noteq> p" "u \<noteq> q" using cut(2) c(2) by auto
      then show "psize info' u = ?sz u" using same by (simp add: info'_def)
    qed
    moreover have "req \<le> psize info' p" "refs info' p = 0"
      using k(1,3) by (simp_all add: info'_def sz'_def word_le_nat_alt refs_def al4_def)
    ultimately show ?thesis using c(2) p0 by blast
  qed
qed

definition shm_fits :: "shm_alloc_t \<Rightarrow> u32 \<Rightarrow> bool" where
  \<comment> \<open>some free block has room for the request\<close>
  "shm_fits info req \<longleftrightarrow> (\<exists>q \<in> shm_cand info \<union> set (freeParts info). req \<le> psize info q)"

definition shm_answer :: "shm_alloc_t \<Rightarrow> u32 set \<Rightarrow> u32 \<Rightarrow> u32 \<Rightarrow> shm_alloc_t \<Rightarrow> bool" where
  "shm_answer info U req p info' \<longleftrightarrow>
     (\<forall>u \<in> U. psize info' u = psize info u) \<and>
     (if p = 0 then shm_inv info' U \<and> \<not> shm_fits info' req
      else p \<notin> U \<and> shm_inv info' (insert p U) \<and> req \<le> psize info' p \<and> refs info' p = 0)"

lemma shm_malloc_loop_0:
  assumes "shm_inv info U" "4 < req"
    and "candiate info = 0 \<and> freeParts info = [] \<or>
      candiate info \<noteq> 0 \<and> (\<forall>q \<in> set (freeParts info). psize info q \<le> psize info (candiate info + 4))"
  shows "\<exists>p info'. shm_malloc_loop 0 info req = Some (p, info') \<and> shm_answer info U req p info'"
proof (cases "candiate info \<noteq> 0 \<and> req \<le> psize info (candiate info + 4)")
  case True
  then show ?thesis using shm_carve_inv [OF assms(1) _ assms(2)] by (auto simp: shm_answer_def)
next
  case False
  then have "\<not> shm_fits info req" using assms(3) by (auto simp: shm_fits_def shm_cand_def)
  moreover have "shm_malloc_loop 0 info req = Some (0, info)" using False by auto
  ultimately show ?thesis using assms(1) by (simp add: shm_answer_def)
qed

lemma shm_harvested:
  assumes "shm_inv info U" "candiate info = 0" "4 < req"
  shows "\<exists>p info'. shm_malloc_loop 0 (shm_harvest info) req = Some (p, info') \<and> shm_answer info U req p info'"
proof -
  note h = shm_harvest_inv [OF assms(1,2)]
  have "shm_answer info U req = shm_answer (shm_harvest info) U req" using h by (simp add: shm_answer_def fun_eq_iff)
  then show ?thesis using shm_malloc_loop_0 [of "shm_harvest info" U req] h assms(3) by simp
qed

lemma shm_put_back:
  assumes "shm_inv info U" "candiate info \<noteq> 0"
  shows "\<exists>info'. shm_recycle (info\<lparr>candiate := 0\<rparr>) (candiate info + 4) = Some info' \<and> shm_inv info' U \<and>
    candiate info' = 0 \<and> (\<forall>u \<in> U. psize info' u = psize info u)"
proof -
  have "parts (psize info) (shm_end info) (insert (candiate info + 4) U) (freeParts info)" "candiate info + 4 \<notin> U"
    "al4 (psize info (candiate info + 4))" "shm_end info \<le> 2 ^ 32 - 8"
    using assms by (auto simp: shm_inv_def shm_cand_def)
  then show ?thesis
    using shm_recycle_parts [of "info\<lparr>candiate := 0\<rparr>" "shm_end info" "candiate info + 4" U] assms(1)
    by (auto simp: shm_inv_def shm_cand_def shm_end_def shm_invalid_def)
qed

lemma shm_malloc_inv:
  assumes "shm_inv info U" "4 < req"
  shows "\<exists>p info'. shm_malloc (Some info) req = Some (p, Some info') \<and> shm_answer info U req p info'"
proof -
  have g: "\<not> (shm_invalid info \<or> req \<le> 0)" using assms by (auto simp: shm_inv_def)
  show ?thesis
  proof (cases "candiate info = 0")
    case True
    then show ?thesis using shm_harvested [OF assms(1) True assms(2)] g by (auto simp: shm_malloc_def)
  next
    case False
    show ?thesis
    proof (cases "req \<le> psize info (candiate info + 4)")
      case True
      then show ?thesis
        using shm_carve_inv [OF assms(1) False assms(2) True] False g by (auto simp: shm_malloc_def shm_answer_def)
    next
      case small: False
      obtain i1 where i1: "shm_recycle (info\<lparr>candiate := 0\<rparr>) (candiate info + 4) = Some i1" "shm_inv i1 U"
        "candiate i1 = 0" "\<forall>u \<in> U. psize i1 u = psize info u"
        using shm_put_back [OF assms(1) False] by blast
      then have "shm_answer info U req = shm_answer i1 U req" by (simp add: shm_answer_def fun_eq_iff)
      then show ?thesis
        using shm_harvested [OF i1(2,3) assms(2)] i1(1) False small g by (auto simp: shm_malloc_def)
    qed
  qed
qed

section \<open>References and release\<close>

lemma unat_and3: "unat (w AND 3) = unat w mod 4" for w :: u32
  unfolding and3 by (simp only: unsigned_take_bit_eq) (simp add: take_bit_eq_mod)

lemma unat_and_not3: "unat (w AND NOT 3) = 4 * (unat w div 4)" for w :: u32
proof -
  have "unat (w AND NOT 3) = unat w - unat w mod 4"
    unfolding and_not_diff using unat_and3 [of w]
    by (metis unat_sub word_le_nat_alt mod_less_eq_dividend)
  then show ?thesis by (simp add: minus_mod_eq_mult_div)
qed

lemma ref_up:
  fixes w :: u32
  assumes "unat (w AND 3) < 3"
  shows "(w + 1) AND NOT 3 = w AND NOT 3 \<and> unat ((w + 1) AND 3) = unat (w AND 3) + 1"
proof -
  obtain n where n: "unat w = n" "n < 2 ^ 32" using unat_u32 [of w] by simp
  have m: "n mod 4 < 3" using assms n(1) unat_and3 by metis
  have "n \<noteq> 2 ^ 32 - 1"
  proof
    assume "n = 2 ^ 32 - 1"
    then have "n mod 4 = 3" by simp
    then show False using m by simp
  qed
  then have w1: "unat (w + 1) = n + 1" using n by (simp add: unat_word_ariths)
  have "(n + 1) div 4 = n div 4" "(n + 1) mod 4 = n mod 4 + 1" using m by presburger+
  then show ?thesis unfolding word_unat_eq_iff unat_and3 unat_and_not3 w1 n(1) by simp
qed

lemma ref_down:
  fixes w :: u32
  assumes "w AND 3 \<noteq> 0"
  shows "(w - 1) AND NOT 3 = w AND NOT 3 \<and> unat ((w - 1) AND 3) = unat (w AND 3) - 1"
proof -
  have "unat (w AND 3) \<noteq> 0" using assms by (simp add: word_unat_eq_iff)
  then have m: "unat w mod 4 \<noteq> 0" unfolding unat_and3 .
  then have "unat w \<noteq> 0" by (metis mod_0)
  then obtain n where n: "unat w = Suc n" by (cases "unat w") auto
  then have w1: "unat (w - 1) = n" by (subst unat_sub) (simp_all add: word_le_nat_alt)
  have "n div 4 = Suc n div 4" "n mod 4 = Suc n mod 4 - 1" using m n by presburger+
  then show ?thesis unfolding word_unat_eq_iff unat_and3 unat_and_not3 w1 n by simp
qed

lemma ref_full: "(w AND NOT 3) + 3 \<le> w \<longleftrightarrow> 3 \<le> unat (w AND 3)" for w :: u32
proof -
  obtain n where n: "unat w = n" "n < 2 ^ 32" using unat_u32 [of w] by simp
  have "n div 4 < 2 ^ 30" using n(2) by (intro less_mult_imp_div_less) simp
  then have "4 * (n div 4) + 3 < 2 ^ 32" by simp
  then have "unat ((w AND NOT 3) + 3) = 4 * (n div 4) + 3"
    unfolding unat_word_ariths unat_and_not3 n(1) by simp
  moreover have "4 * (n div 4) + 3 \<le> n \<longleftrightarrow> 3 \<le> n mod 4" by presburger
  ultimately show ?thesis unfolding word_le_nat_alt unat_and3 n(1) by simp
qed

lemma shm_inv_used:
  assumes "shm_inv info U" "p \<in> U"
  shows "\<not> shm_invalid info" "\<not> 20 + chunkSize info \<le> p" "\<not> chunkSize info < psize info p AND NOT 3"
proof -
  have i: "parts (psize info) (shm_end info) (shm_cand info \<union> U) (freeParts info)" "shm_end info \<le> 2 ^ 32 - 16"
    using assms(1) by (simp_all add: shm_inv_def)
  show "\<not> shm_invalid info" using assms(1) by (simp add: shm_inv_def)
  have b: "24 \<le> unat p" "unat p + unat (psize info p AND NOT 3) \<le> 20 + unat (chunkSize info)" "8 \<le> unat (psize info p AND NOT 3)"
    using parts_bounds [OF i(1), of p] assms(2) by (simp_all add: eff_def shm_end_def)
  have e: "unat (20 + chunkSize info) = 20 + unat (chunkSize info)"
    using i(2) by (simp add: unat_word_ariths shm_end_def)
  have "unat p < unat (20 + chunkSize info)" using b(2,3) unfolding e by linarith
  then show "\<not> 20 + chunkSize info \<le> p" by (simp add: not_le word_less_nat_alt)
  have "unat (psize info p AND NOT 3) \<le> unat (chunkSize info)" using b by linarith
  then show "\<not> chunkSize info < psize info p AND NOT 3" by (simp add: not_less word_le_nat_alt)
qed

lemma shm_inv_refs:
  assumes "shm_inv info U" "p \<in> U" "v AND NOT 3 = psize info p AND NOT 3"
  shows "shm_inv (info\<lparr>psize := (psize info)(p := v)\<rparr>) U"
proof -
  let ?sz = "(psize info)(p := v)" and ?i = "info\<lparr>psize := (psize info)(p := v)\<rparr>"
  have e: "eff ?sz = eff (psize info)" using assms(3) by (auto simp: eff_def fun_eq_iff)
  have i: "set (freeParts info) \<inter> (shm_cand info \<union> U) = {}" "shm_cand info \<inter> U = {}"
    using assms(1) by (auto simp: shm_inv_def parts_def)
  then have "\<forall>q \<in> set (freeParts info). ?sz q = psize info q" "\<forall>q \<in> shm_cand info. ?sz q = psize info q"
    using assms(2) by auto
  moreover have "shm_cand ?i = shm_cand info" "shm_end ?i = shm_end info" "shm_invalid ?i = shm_invalid info"
    by (simp_all add: shm_cand_def shm_end_def shm_invalid_def)
  ultimately show ?thesis
    using assms(1) e unfolding shm_inv_def parts_def by (simp del: fun_upd_apply)
qed

lemma shm_add_reference_inv:
  assumes "shm_inv info U" "p \<in> U"
  shows "shm_add_reference (Some info) (Some p) =
      (if refs info p < 3 then (0, Some (info\<lparr>psize := (psize info)(p := psize info p + 1)\<rparr>)) else (- 1, Some info))"
    "refs info p < 3 \<Longrightarrow> shm_inv (info\<lparr>psize := (psize info)(p := psize info p + 1)\<rparr>) U"
    "refs info p < 3 \<Longrightarrow> refs (info\<lparr>psize := (psize info)(p := psize info p + 1)\<rparr>) p = refs info p + 1"
proof -
  note u = shm_inv_used [OF assms]
  show "shm_add_reference (Some info) (Some p) =
      (if refs info p < 3 then (0, Some (info\<lparr>psize := (psize info)(p := psize info p + 1)\<rparr>)) else (- 1, Some info))"
    using u ref_full [of "psize info p"] by (auto simp: shm_add_reference_def refs_def)
  show "shm_inv (info\<lparr>psize := (psize info)(p := psize info p + 1)\<rparr>) U" if "refs info p < 3"
    using shm_inv_refs [OF assms] ref_up [of "psize info p"] that by (simp add: refs_def)
  show "refs (info\<lparr>psize := (psize info)(p := psize info p + 1)\<rparr>) p = refs info p + 1" if "refs info p < 3"
    using ref_up [of "psize info p"] that by (simp add: refs_def)
qed

lemma shm_free_inv:
  assumes "shm_inv info U" "p \<in> U"
  shows "refs info p > 0 \<Longrightarrow> \<exists>info'. shm_free (Some info) (Some p) = Some (Some info') \<and> shm_inv info' U \<and>
      refs info' p = refs info p - 1 \<and> (\<forall>u \<in> U - {p}. psize info' u = psize info u)"
    "refs info p = 0 \<Longrightarrow> \<exists>info'. shm_free (Some info) (Some p) = Some (Some info') \<and> shm_inv info' (U - {p}) \<and>
      (\<forall>u \<in> U - {p}. psize info' u = psize info u)"
proof -
  note u = shm_inv_used [OF assms]
  show "\<exists>info'. shm_free (Some info) (Some p) = Some (Some info') \<and> shm_inv info' U \<and>
      refs info' p = refs info p - 1 \<and> (\<forall>u \<in> U - {p}. psize info' u = psize info u)" if "refs info p > 0"
  proof -
    have r: "psize info p AND 3 \<noteq> 0" using that by (auto simp: refs_def)
    then have "shm_free (Some info) (Some p) = Some (Some (info\<lparr>psize := (psize info)(p := psize info p - 1)\<rparr>))"
      using u by (simp add: shm_free_def)
    moreover have "refs (info\<lparr>psize := (psize info)(p := psize info p - 1)\<rparr>) p = refs info p - 1"
      using ref_down [OF r] by (simp add: refs_def)
    ultimately show ?thesis using shm_inv_refs [OF assms] ref_down [OF r] by auto
  qed
  show "\<exists>info'. shm_free (Some info) (Some p) = Some (Some info') \<and> shm_inv info' (U - {p}) \<and>
      (\<forall>u \<in> U - {p}. psize info' u = psize info u)" if "refs info p = 0"
  proof -
    have r: "psize info p AND 3 = 0" using that by (simp add: refs_def word_unat_eq_iff)
    have i: "parts (psize info) (shm_end info) (shm_cand info \<union> U) (freeParts info)" "shm_end info \<le> 2 ^ 32 - 16"
      "shm_cand info \<inter> U = {}" using assms(1) by (auto simp: shm_inv_def)
    let ?V = "shm_cand info \<union> (U - {p})"
    have "insert p ?V = shm_cand info \<union> U" "p \<notin> ?V" using assms(2) i(3) by auto
    then obtain info' where n: "shm_recycle info p = Some info'" "parts (psize info') (shm_end info) ?V (freeParts info')"
      "\<forall>v \<in> ?V. psize info' v = psize info v" "candiate info' = candiate info"
      "magicFlag info' = magicFlag info" "chunkSize info' = chunkSize info"
      using shm_recycle_parts [of info "shm_end info" p ?V] i(1,2) r by (auto simp: al4_def)
    have "shm_inv info' (U - {p})"
      using assms(1) n by (auto simp: shm_inv_def shm_cand_def shm_end_def shm_invalid_def)
    then show ?thesis using n(1,3) u r by (simp add: shm_free_def)
  qed
qed

section \<open>Reachable states\<close>

definition shm_chunk_ok :: "u32 \<Rightarrow> u32 \<Rightarrow> bool" where
  \<comment> \<open>the memory given at the start: word-aligned at its end and big enough for one block\<close>
  "shm_chunk_ok memStart csize \<longleftrightarrow> memStart \<noteq> 0 \<and> unat memStart + unat csize \<le> 2 ^ 32 - 16 \<and>
     al4 (memStart + csize) \<and> unat (ALIGN_4BYTES memStart) + 32 \<le> unat memStart + unat csize"

inductive shm_reach :: "shm_alloc_t \<Rightarrow> u32 set \<Rightarrow> bool" where
  shm_reach_init: "shm_chunk_ok memStart csize \<Longrightarrow> magicFlag old \<noteq> CONST_MAGIC_FLAG \<Longrightarrow>
     init_shm_allocator memStart csize old = (base, info) \<Longrightarrow> shm_reach info {}"
| shm_reach_malloc: "shm_reach info U \<Longrightarrow> 4 < req \<Longrightarrow> shm_malloc (Some info) req = Some (p, Some info') \<Longrightarrow>
     shm_reach info' (if p = 0 then U else insert p U)"
| shm_reach_ref: "shm_reach info U \<Longrightarrow> p \<in> U \<Longrightarrow> shm_add_reference (Some info) (Some p) = (r, Some info') \<Longrightarrow>
     shm_reach info' U"
| shm_reach_free: "shm_reach info U \<Longrightarrow> p \<in> U \<Longrightarrow> shm_free (Some info) (Some p) = Some (Some info') \<Longrightarrow>
     shm_reach info' (if refs info p = 0 then U - {p} else U)"

lemma init_shm_allocator_inv:
  assumes "shm_chunk_ok memStart csize" "magicFlag old \<noteq> CONST_MAGIC_FLAG"
    and "init_shm_allocator memStart csize old = (base, info)"
  shows "base \<noteq> 0 \<and> shm_inv info {}"
proof -
  define b where "b = ALIGN_4BYTES memStart"
  define n where "n = memStart + csize - (b + 20)"
  have g: "memStart \<noteq> 0" "unat memStart + unat csize \<le> 2 ^ 32 - 16" "al4 (memStart + csize)"
    "unat b + 32 \<le> unat memStart + unat csize"
    using assms(1) by (simp_all add: shm_chunk_ok_def b_def)
  have "unat memStart + 3 < 2 ^ 32"
  proof (rule ccontr)
    assume "\<not> ?thesis"
    then have "2 ^ 32 - 3 \<le> unat memStart" by simp
    then show False using g(2) by simp
  qed
  then have b: "unat memStart \<le> unat b" using align4_unat by (simp add: b_def)
  have ce: "unat (memStart + csize) = unat memStart + unat csize" using g(2) by (simp add: unat_word_ariths)
  have b20: "unat (b + 20) = unat b + 20" using g(2,4) by (simp add: unat_word_ariths)
  have un: "unat n = unat memStart + unat csize - (unat b + 20)"
    unfolding n_def using g(4) by (subst unat_sub) (simp_all add: word_le_nat_alt ce b20)
  have big: "\<not> csize \<le> EFFTSIZE_TO_POOLSIZE 0 + 20" "\<not> memStart + csize \<le> b + 20"
    using b g(4) by (auto simp: EFFTSIZE_TO_POOLSIZE_def word_le_nat_alt ce b20)
  have i: "base = b" "info = old\<lparr>chunkSize := n, freeParts := [],
      psize := (psize old)(24 := POOLSIZE_TO_EFFTSIZE n), candiate := 20, magicFlag := CONST_MAGIC_FLAG\<rparr>"
    using assms(2,3) g(1) big unfolding init_shm_allocator_def b_def [symmetric] Let_def n_def by auto
  have al: "al4 b" unfolding b_def ALIGN_4BYTES_def by (rule al4_align)
  have "al4 20" by (simp add: al4_def)
  then have "al4 (n - 4)" unfolding n_def by (intro al4_arith g(3) al)
  then have a4: "al4 (POOLSIZE_TO_EFFTSIZE n)" by (simp add: POOLSIZE_TO_EFFTSIZE_def)
  have n12: "12 \<le> unat n" using un g(4) by simp
  then have n4: "unat (POOLSIZE_TO_EFFTSIZE n) = unat n - 4"
    unfolding POOLSIZE_TO_EFFTSIZE_def by (subst unat_sub) (simp_all add: word_le_nat_alt)
  let ?sz = "(psize old)(24 := POOLSIZE_TO_EFFTSIZE n)"
  have e: "eff ?sz 24 = POOLSIZE_TO_EFFTSIZE n" using eff_upd [OF a4, of "psize old" 24] by simp
  have "tiles (eff ?sz) 20 [24] (20 + unat n)" using n12 e n4 by simp
  then have "heap_ok (eff ?sz) 20 (20 + unat n) {24}" using n12 e n4 unfolding heap_ok_def by fastforce
  then have "parts ?sz (20 + unat n) {24} []" by (simp add: parts_def coalesced_def)
  moreover have "n \<noteq> 0" using n12 by auto
  moreover have "20 + unat n \<le> 2 ^ 32 - 16" using un g(2,4) by linarith
  ultimately have "shm_inv info {}"
    using a4 unfolding i(2) by (simp add: shm_inv_def shm_cand_def shm_end_def shm_invalid_def)
  moreover have "b \<noteq> 0" using b g(1) by (auto simp: word_unat_eq_iff)
  ultimately show ?thesis using i(1) by simp
qed

lemma shm_reach_inv: "shm_reach info U \<Longrightarrow> shm_inv info U"
proof (induction rule: shm_reach.induct)
  case (shm_reach_init memStart csize old base info)
  then show ?case using init_shm_allocator_inv by blast
next
  case (shm_reach_malloc info U req p info')
  then show ?case using shm_malloc_inv [of info U req] by (auto simp: shm_answer_def)
next
  case (shm_reach_ref info U p r info')
  then show ?case
    using shm_add_reference_inv(1,2) [of info U p] by (auto split: if_splits)
next
  case (shm_reach_free info U p info')
  then show ?case
    using shm_free_inv [of info U p] by (cases "refs info p = 0") auto
qed

definition shm_fresh :: shm_alloc_t where
  \<comment> \<open>128 bytes of zeroed memory at 4096\<close>
  "shm_fresh = snd (init_shm_allocator 4096 128
     \<lparr>freeParts = [], candiate = 0, magicFlag = 0, chunkSize = 0, psize = \<lambda>_. 0\<rparr>)"

lemma shm_fresh_simp:
  "shm_fresh = \<lparr>freeParts = [], candiate = 20, magicFlag = CONST_MAGIC_FLAG, chunkSize = 108, psize = (\<lambda>_. 0)(24 := 104)\<rparr>"
  by (simp add: shm_fresh_def init_shm_allocator_def ALIGN_4BYTES_def EFFTSIZE_TO_POOLSIZE_def POOLSIZE_TO_EFFTSIZE_def
      CONST_MAGIC_FLAG_def)

lemma shm_fresh_reach: "shm_reach shm_fresh {}"
proof (rule shm_reach_init)
  show "init_shm_allocator 4096 128 \<lparr>freeParts = [], candiate = 0, magicFlag = 0, chunkSize = 0, psize = \<lambda>_. 0\<rparr> = (4096, shm_fresh)"
    by (simp add: shm_fresh_def init_shm_allocator_def ALIGN_4BYTES_def EFFTSIZE_TO_POOLSIZE_def CONST_MAGIC_FLAG_def)
qed (simp_all add: shm_chunk_ok_def al4_def ALIGN_4BYTES_def CONST_MAGIC_FLAG_def)

definition shm_sample :: shm_alloc_t where
  \<comment> \<open>16 bytes taken\<close>
  "shm_sample = \<lparr>freeParts = [], candiate = 40, magicFlag = CONST_MAGIC_FLAG, chunkSize = 108,
     psize = (\<lambda>_. 0)(44 := 84, 24 := 16)\<rparr>"

lemma shm_sample_malloc: "shm_malloc (Some shm_fresh) 16 = Some (24, Some shm_sample)"
  by (simp add: shm_fresh_simp shm_sample_def shm_malloc_def shm_invalid_def shm_carve_def ALIGN_4BYTES_def
      POOLSIZE_TO_EFFTSIZE_def fun_upd_twist)

lemma shm_sample_reach: "shm_reach shm_sample {24}"
  using shm_reach_malloc [OF shm_fresh_reach _ shm_sample_malloc] by simp

section \<open>Properties\<close>

lemma shm_inv_blocks:
  assumes "shm_inv info U"
  defines "B \<equiv> U \<union> shm_cand info \<union> set (freeParts info)"
  shows "heap_ok (eff (psize info)) 20 (20 + unat (chunkSize info)) B"
proof -
  have "B = set (freeParts info) \<union> (shm_cand info \<union> U)" by (auto simp: B_def)
  then show ?thesis using assms(1) by (simp add: shm_inv_def parts_def shm_end_def)
qed

text \<open>
  C10.  In every state reachable by taking blocks of more than 4 bytes, adding references and freeing,
  the blocks handed out, the candidate and the blocks of the free list lie inside the chunk and do
  not overlap (size words included), whatever the reference bits; the free list is in address order
  and no two blocks of it are neighbours left unmerged.
\<close>

theorem shm_blocks_disjoint:
  assumes "shm_reach info U"
  defines "B \<equiv> U \<union> shm_cand info \<union> set (freeParts info)"
  shows "(\<forall>p \<in> B. 24 \<le> unat p \<and> unat p + unat (psize info p AND NOT 3) \<le> 20 + unat (chunkSize info)) \<and>
    (\<forall>p \<in> B. \<forall>q \<in> B. p \<noteq> q \<longrightarrow> unat p + unat (psize info p AND NOT 3) + 4 \<le> unat q \<or>
       unat q + unat (psize info q AND NOT 3) + 4 \<le> unat p) \<and>
    sorted_wrt (<) (freeParts info) \<and>
    (\<forall>p \<in> set (freeParts info). \<forall>q \<in> set (freeParts info). unat p + unat (psize info p) + 4 \<noteq> unat q)"
proof -
  have i: "shm_inv info U" using shm_reach_inv [OF assms(1)] .
  note h = shm_inv_blocks [OF i, folded B_def]
  have f: "sorted_wrt (<) (freeParts info)" "coalesced (eff (psize info)) (set (freeParts info))"
    "\<And>p. p \<in> set (freeParts info) \<Longrightarrow> eff (psize info) p = psize info p"
    using i eff_al4 by (auto simp: shm_inv_def parts_def)
  have c: "unat p + unat (psize info p) + 4 \<noteq> unat q" if "p \<in> set (freeParts info)" "q \<in> set (freeParts info)" for p q
    using f(2) that f(3) [OF that(1)] unfolding coalesced_def adjacent_def by metis
  have b: "24 \<le> unat p" "unat p + unat (psize info p AND NOT 3) \<le> 20 + unat (chunkSize info)" if "p \<in> B" for p
    using heap_ok_bounds(1,2) [OF h that] unfolding eff_def by simp_all
  show ?thesis
    using b c f(1) heap_ok_apart [OF h, unfolded eff_def] by blast
qed

theorem shm_blocks_disjoint_witness:
  "unat (24 :: u32) + unat (psize shm_sample 24 AND NOT 3) \<le> 128 \<and>
   candiate shm_sample + 4 = 44 \<and> unat (44 :: u32) + unat (psize shm_sample 44 AND NOT 3) \<le> 128"
proof -
  have c: "candiate shm_sample + 4 = 44" "44 \<in> shm_cand shm_sample" "chunkSize shm_sample = 108"
    by (simp_all add: shm_sample_def shm_cand_def)
  have "unat p + unat (psize shm_sample p AND NOT 3) \<le> 20 + unat (chunkSize shm_sample)" if "p \<in> {24} \<union> shm_cand shm_sample" for p
    using shm_blocks_disjoint [OF shm_sample_reach] that by blast
  from this [of 24] this [of 44] show ?thesis using c by simp
qed

text \<open>
  C33.  In a reachable state \<open>shm_malloc\<close> of more than 4 bytes returns, in one round or two, and leaves
  the blocks in use as they were.  A block it hands out was free, has room for the request and has
  no extra reference.  It answers null only when no free block has room: the candidate was put back
  and merged first.
\<close>

theorem shm_malloc_complete:
  assumes "shm_reach info U" "4 < req"
  shows "\<exists>p info'. shm_malloc (Some info) req = Some (p, Some info') \<and>
    (\<forall>u \<in> U. psize info' u = psize info u) \<and>
    (if p = 0 then \<forall>q \<in> shm_cand info' \<union> set (freeParts info'). psize info' q < req
     else p \<notin> U \<and> req \<le> psize info' p \<and> refs info' p = 0 \<and> p \<notin> shm_cand info' \<union> set (freeParts info'))"
proof -
  obtain p info' where m: "shm_malloc (Some info) req = Some (p, Some info')" "shm_answer info U req p info'"
    using shm_malloc_inv [OF shm_reach_inv [OF assms(1)] assms(2)] by blast
  have "p \<notin> shm_cand info' \<union> set (freeParts info')" if "p \<noteq> 0"
    using m(2) that by (auto simp: shm_answer_def shm_inv_def parts_def)
  then show ?thesis using m by (auto simp: shm_answer_def shm_fits_def not_le)
qed

theorem shm_malloc_complete_witness:
  "\<exists>p info'. shm_malloc (Some shm_sample) 20 = Some (p, Some info') \<and> psize info' 24 = 16"
proof -
  have "psize shm_sample 24 = 16" by (simp add: shm_sample_def)
  then show ?thesis using shm_malloc_complete [OF shm_sample_reach, of 20] by fastforce
qed

text \<open>
  C32.  Reference counting.  For a block in use, \<open>shm_add_reference\<close> succeeds while there are fewer than
  three extra references and refuses, changing nothing, at three.  \<open>shm_free\<close> takes one extra
  reference away and the block stays in use; with none left it puts the block on the free list, and
  the allocator stays sound for the other blocks, whose sizes and references do not change.
\<close>

theorem shm_reference_counting:
  assumes "shm_reach info U" "p \<in> U"
  shows "(if refs info p < 3
      then \<exists>info'. shm_add_reference (Some info) (Some p) = (0, Some info') \<and> refs info' p = refs info p + 1 \<and>
             shm_free (Some info') (Some p) = Some (Some info)
      else shm_add_reference (Some info) (Some p) = (- 1, Some info)) \<and>
    (\<exists>info'. shm_free (Some info) (Some p) = Some (Some info') \<and>
       (\<forall>u \<in> U - {p}. psize info' u = psize info u) \<and>
       (if refs info p = 0 then shm_inv info' (U - {p}) else refs info' p = refs info p - 1 \<and> shm_inv info' U))"
proof -
  have i: "shm_inv info U" using shm_reach_inv [OF assms(1)] .
  note a = shm_add_reference_inv [OF i assms(2)]
  let ?i = "info\<lparr>psize := (psize info)(p := psize info p + 1)\<rparr>"
  have "shm_free (Some ?i) (Some p) = Some (Some info)" if r: "refs info p < 3"
  proof -
    note u = shm_inv_used [OF a(2) [OF r] assms(2)]
    have "refs ?i p \<noteq> 0" using a(3) [OF r] by simp
    then have "psize ?i p AND 3 \<noteq> 0" by (auto simp: refs_def)
    then show ?thesis using u by (simp add: shm_free_def)
  qed
  moreover have "\<exists>info'. shm_free (Some info) (Some p) = Some (Some info') \<and>
       (\<forall>u \<in> U - {p}. psize info' u = psize info u) \<and>
       (if refs info p = 0 then shm_inv info' (U - {p}) else refs info' p = refs info p - 1 \<and> shm_inv info' U)"
    using shm_free_inv [OF i assms(2)] by (cases "refs info p = 0") auto
  ultimately show ?thesis using a(1,3) by simp
qed

theorem shm_reference_counting_witness:
  "refs shm_sample 24 = 0 \<and>
   (\<exists>info'. shm_add_reference (Some shm_sample) (Some 24) = (0, Some info') \<and> refs info' 24 = 1 \<and>
      shm_free (Some info') (Some 24) = Some (Some shm_sample))"
proof -
  have r: "refs shm_sample 24 = 0" by (simp add: refs_def shm_sample_def)
  then show ?thesis using shm_reference_counting [OF shm_sample_reach, of 24] by simp
qed

text \<open>
  A request of 1 to 4 bytes from a chunk with room is given a payload of 4 bytes, and the size
  word of the remaining free block is the word after it.  Freeing the block writes its two links, 8
  bytes, over that word: a request that small cannot be freed while the block stands alone.
\<close>

theorem shm_small_block_overrun:
  assumes "shm_inv info U" "candiate info \<noteq> 0" "freeParts info = []" "0 < req" "req \<le> 4"
    and "24 < psize info (candiate info + 4)"
  shows "\<exists>info'. shm_malloc (Some info) req = Some (candiate info + 4, Some info') \<and>
    psize info' (candiate info + 4) = 4 \<and> candiate info' = candiate info + 4 + 4 \<and>
    shm_free (Some info') (Some (candiate info + 4)) = None"
proof -
  let ?p = "candiate info + 4"
  let ?i = "info\<lparr>psize := ((psize info)(?p + 8 := POOLSIZE_TO_EFFTSIZE (psize info ?p - 4)))(?p := 4), candiate := ?p + 4\<rparr>"
  have u: "unat req = 1 \<or> unat req = 2 \<or> unat req = 3 \<or> unat req = 4"
    using assms(4,5) by (auto simp: word_less_nat_alt word_le_nat_alt)
  then have "req = 1 \<or> req = 2 \<or> req = 3 \<or> req = 4" by (simp add: word_unat_eq_iff)
  then have al: "ALIGN_4BYTES req = 4" by (auto simp: ALIGN_4BYTES_def)
  have g: "\<not> shm_invalid info" "24 \<le> unat ?p" "unat ?p < 20 + unat (chunkSize info)" "shm_end info \<le> 2 ^ 32 - 16"
    using assms(1,2) parts_bounds [of "psize info" "shm_end info" "shm_cand info \<union> U" "freeParts info" ?p]
    by (auto simp: shm_inv_def shm_cand_def shm_end_def)
  have le: "req \<le> psize info ?p" using assms(5,6) by (auto simp: word_less_nat_alt word_le_nat_alt)
  have "(16 :: u32) < 24" by simp
  then have big: "16 < psize info ?p" using assms(6) by (rule less_trans)
  have m: "shm_malloc (Some info) req = Some (?p, Some ?i)"
    using assms(2,4) g(1) le al big by (auto simp: shm_malloc_def shm_carve_def algebra_simps)
  have e: "unat (20 + chunkSize info) = 20 + unat (chunkSize info)"
    using g(4) by (simp add: unat_word_ariths shm_end_def)
  have "\<not> 20 + chunkSize info \<le> ?p" using g(3) e by (simp add: word_le_nat_alt)
  moreover have "\<not> chunkSize info < 4" using g(2,3) by (simp add: word_less_nat_alt)
  ultimately have "shm_free (Some ?i) (Some ?p) = None"
    using assms(3) g(1) by (simp add: shm_free_def shm_recycle_def shm_invalid_def)
  then show ?thesis using m by simp
qed

theorem shm_small_block_overrun_witness:
  "\<exists>info'. shm_malloc (Some shm_fresh) 3 = Some (24, Some info') \<and> shm_free (Some info') (Some 24) = None"
proof -
  have "shm_inv shm_fresh {}" using shm_reach_inv [OF shm_fresh_reach] .
  then show ?thesis
    using shm_small_block_overrun [of shm_fresh "{}" 3] by (auto simp: shm_fresh_simp word_less_nat_alt word_le_nat_alt)
qed

end
