(* ===== verification/C_Json.thy ===== *)
theory C_Json
  imports Ckits_Prelude
begin

text \<open>
  \<open>libckits/cJSON.c\<close>: the JSON reader and writer.  A C string is the list of its characters before
  the terminator; a pointer into it is the list of characters from there on, and the empty list
  is a pointer to the terminator.  An item with its chain of children is a tree.

  What cannot be read in the source is a parameter: \<open>mok n\<close> tells whether the \<open>n\<close>-th call of the
  installed \<open>cJSON_malloc\<close> succeeds, and the record \<open>dbl\<close> stands for the type \<open>double\<close> with its
  arithmetic, \<open>pow\<close>, \<open>fabs\<close>, \<open>floor\<close>, the conversions and the formats of \<open>sprintf\<close>.

  A function answers \<open>Ret\<close>, or \<open>Fail\<close> where the code returns a null pointer, or \<open>Undef\<close> where it
  leaves a buffer or reads a variable that was never set.  The state is the number of calls of
  \<open>cJSON_malloc\<close> so far and the static \<open>ep\<close>.
\<close>

unbundle bit_operations_syntax

section \<open>Outcomes\<close>

datatype 'a jout = Ret 'a | Fail | Undef | Fuel

record jstate =
  mallocs :: nat
  ep :: "string option"

type_synonym 'a jm = "jstate \<Rightarrow> 'a jout \<times> jstate"

definition jret :: "'a \<Rightarrow> 'a jm" where "jret x s = (Ret x, s)"
definition jfail :: "'a jm" where "jfail s = (Fail, s)"
definition jundef :: "'a jm" where "jundef s = (Undef, s)"
definition jfuel :: "'a jm" where "jfuel s = (Fuel, s)"

definition jerr :: "string \<Rightarrow> 'a jm" where
  \<comment> \<open>\<open>ep = p; return 0\<close>\<close>
  "jerr p s = (Fail, s\<lparr>ep := Some p\<rparr>)"

definition jbind :: "'a jm \<Rightarrow> ('a \<Rightarrow> 'b jm) \<Rightarrow> 'b jm" where
  "jbind m f s =
     (case m s of (Ret x, s') \<Rightarrow> f x s' | (Fail, s') \<Rightarrow> (Fail, s') | (Undef, s') \<Rightarrow> (Undef, s') | (Fuel, s') \<Rightarrow> (Fuel, s'))"

definition jtry :: "'a jm \<Rightarrow> 'a option jm" where
  \<comment> \<open>a call whose null result is kept and tested later\<close>
  "jtry m s = (case m s of (Ret x, s') \<Rightarrow> (Ret (Some x), s') | (Fail, s') \<Rightarrow> (Ret None, s')
     | (Undef, s') \<Rightarrow> (Undef, s') | (Fuel, s') \<Rightarrow> (Fuel, s'))"

definition cJSON_malloc :: "(nat \<Rightarrow> bool) \<Rightarrow> unit jm" where
  "cJSON_malloc mok s = (if mok (mallocs s) then Ret () else Fail, s\<lparr>mallocs := Suc (mallocs s)\<rparr>)"

definition cJSON_GetErrorPtr :: "jstate \<Rightarrow> string option" where "cJSON_GetErrorPtr s = ep s"

definition fill :: "nat \<Rightarrow> string \<Rightarrow> string jm" where
  \<comment> \<open>a string and its terminator written into a buffer of \<open>cap\<close> bytes\<close>
  "fill cap out = (if length out + 1 \<le> cap then jret out else jundef)"

section \<open>Doubles\<close>

record 'd dbl =
  d_of_int :: "int \<Rightarrow> 'd"
  d_add :: "'d \<Rightarrow> 'd \<Rightarrow> 'd"
  d_sub :: "'d \<Rightarrow> 'd \<Rightarrow> 'd"
  d_mul :: "'d \<Rightarrow> 'd \<Rightarrow> 'd"
  d_pow :: "'d \<Rightarrow> 'd \<Rightarrow> 'd"
  d_fabs :: "'d \<Rightarrow> 'd"
  d_floor :: "'d \<Rightarrow> 'd"
  d_le :: "'d \<Rightarrow> 'd \<Rightarrow> bool"
  d_lt :: "'d \<Rightarrow> 'd \<Rightarrow> bool"
  d_to_int :: "'d \<Rightarrow> int" \<comment> \<open>the conversion \<open>(int)d\<close>\<close>
  DBL_EPSILON :: 'd
  d_1e60 :: 'd
  d_1em6 :: 'd
  d_1e9 :: 'd
  d_format :: "string \<Rightarrow> 'd \<Rightarrow> string" \<comment> \<open>\<open>sprintf\<close> with the format\<close>

section \<open>Items\<close>

datatype 'd cJSON = CJSON
  (type: int)
  (valuestring: "string option")
  (valueint: int)
  (valuedouble: 'd)
  (itemstring: "string option") \<comment> \<open>the member \<open>string\<close>\<close>
  (child: "'d cJSON list") \<comment> \<open>the chain from \<open>child\<close> along \<open>next\<close>\<close>

definition cJSON_False :: int where "cJSON_False = 0"
definition cJSON_True :: int where "cJSON_True = 1"
definition cJSON_NULL :: int where "cJSON_NULL = 2"
definition cJSON_Number :: int where "cJSON_Number = 3"
definition cJSON_String :: int where "cJSON_String = 4"
definition cJSON_Array :: int where "cJSON_Array = 5"
definition cJSON_Object :: int where "cJSON_Object = 6"
definition cJSON_IsReference :: int where "cJSON_IsReference = 256"

lemmas json_types = cJSON_False_def cJSON_True_def cJSON_NULL_def cJSON_Number_def cJSON_String_def cJSON_Array_def
  cJSON_Object_def cJSON_IsReference_def

definition set_type :: "int \<Rightarrow> 'd cJSON \<Rightarrow> 'd cJSON" where
  "set_type t c = CJSON t (valuestring c) (valueint c) (valuedouble c) (itemstring c) (child c)"

definition set_string :: "string option \<Rightarrow> 'd cJSON \<Rightarrow> 'd cJSON" where
  "set_string k c = CJSON (type c) (valuestring c) (valueint c) (valuedouble c) k (child c)"

definition set_child :: "'d cJSON list \<Rightarrow> 'd cJSON \<Rightarrow> 'd cJSON" where
  "set_child cs c = CJSON (type c) (valuestring c) (valueint c) (valuedouble c) (itemstring c) cs"

definition cJSON_New_Item :: "(nat \<Rightarrow> bool) \<Rightarrow> 'd dbl \<Rightarrow> 'd cJSON jm" where
  "cJSON_New_Item mok D = jbind (cJSON_malloc mok) (\<lambda>_. jret (CJSON 0 None 0 (d_of_int D 0) None []))"

definition cJSON_strdup :: "(nat \<Rightarrow> bool) \<Rightarrow> string \<Rightarrow> string jm" where
  "cJSON_strdup mok str = jbind (cJSON_malloc mok) (\<lambda>_. fill (length str + 1) str)"

definition tolower_c :: "char \<Rightarrow> nat" where
  "tolower_c c = (let n = of_char c in if 65 \<le> n \<and> n \<le> 90 then n + 32 else n)"

fun strcasecmp_loop :: "string \<Rightarrow> string \<Rightarrow> int" where
  "strcasecmp_loop [] [] = 0"
| "strcasecmp_loop (a # s1) (b # s2) =
     (if tolower_c a = tolower_c b then strcasecmp_loop s1 s2 else int (tolower_c a) - int (tolower_c b))"
| "strcasecmp_loop (a # s1) [] = int (tolower_c a)"
| "strcasecmp_loop [] (b # s2) = - int (tolower_c b)"

definition cJSON_strcasecmp :: "string option \<Rightarrow> string option \<Rightarrow> int" where
  "cJSON_strcasecmp s1 s2 =
     (case (s1, s2) of (None, None) \<Rightarrow> 0 | (None, Some _) \<Rightarrow> 1 | (Some _, None) \<Rightarrow> 1
      | (Some a, Some b) \<Rightarrow> strcasecmp_loop a b)"

section \<open>Numbers\<close>

definition is_digit :: "char \<Rightarrow> bool" where
  "is_digit c \<longleftrightarrow> 48 \<le> (of_char c :: nat) \<and> (of_char c :: nat) \<le> 57"

definition digit_val :: "char \<Rightarrow> int" where
  \<comment> \<open>\<open>*num - '0'\<close>\<close>
  "digit_val c = int (of_char c) - 48"

definition add_digit :: "'d dbl \<Rightarrow> 'd \<Rightarrow> char \<Rightarrow> 'd" where
  "add_digit D n c = d_add D (d_mul D n (d_of_int D 10)) (d_of_int D (digit_val c))"

fun int_digits :: "'d dbl \<Rightarrow> 'd \<Rightarrow> string \<Rightarrow> 'd \<times> string" where
  "int_digits D n [] = (n, [])"
| "int_digits D n (c # cs) = (if is_digit c then int_digits D (add_digit D n c) cs else (n, c # cs))"

fun frac_digits :: "'d dbl \<Rightarrow> 'd \<Rightarrow> 'd \<Rightarrow> string \<Rightarrow> 'd \<times> 'd \<times> string" where
  "frac_digits D n scale [] = (n, scale, [])"
| "frac_digits D n scale (c # cs) =
     (if is_digit c then frac_digits D (add_digit D n c) (d_sub D scale (d_of_int D 1)) cs else (n, scale, c # cs))"

fun exp_digits :: "int \<Rightarrow> string \<Rightarrow> int \<times> string" where
  "exp_digits subscale [] = (subscale, [])"
| "exp_digits subscale (c # cs) =
     (if is_digit c then exp_digits (c_int (subscale * 10 + digit_val c)) cs else (subscale, c # cs))"

definition parse_exp :: "string \<Rightarrow> int \<times> int \<times> string" where
  \<comment> \<open>\<open>subscale\<close>, \<open>signsubscale\<close> and the rest\<close>
  "parse_exp num =
     (case num of
        c # r \<Rightarrow>
          if c = CHR ''e'' \<or> c = CHR ''E''
          then (case r of
                  s # r' \<Rightarrow>
                    if s = CHR ''+'' then (case exp_digits 0 r' of (e, q) \<Rightarrow> (e, 1, q))
                    else if s = CHR ''-'' then (case exp_digits 0 r' of (e, q) \<Rightarrow> (e, - 1, q))
                    else (case exp_digits 0 r of (e, q) \<Rightarrow> (e, 1, q))
                | [] \<Rightarrow> (0, 1, []))
          else (0, 1, num)
      | [] \<Rightarrow> (0, 1, []))"

definition parse_sign :: "'d dbl \<Rightarrow> string \<Rightarrow> 'd \<times> string" where
  "parse_sign D num =
     (case num of c # r \<Rightarrow> if c = CHR ''-'' then (d_of_int D (- 1), r) else (d_of_int D 1, num) | [] \<Rightarrow> (d_of_int D 1, num))"

definition parse_int :: "'d dbl \<Rightarrow> string \<Rightarrow> 'd \<times> string" where
  \<comment> \<open>a zero, then digits that start with another one\<close>
  "parse_int D num =
     (let num2 = (case num of c # r \<Rightarrow> if c = CHR ''0'' then r else num | [] \<Rightarrow> num)
      in case num2 of
           c # _ \<Rightarrow> if is_digit c \<and> c \<noteq> CHR ''0'' then int_digits D (d_of_int D 0) num2 else (d_of_int D 0, num2)
         | [] \<Rightarrow> (d_of_int D 0, num2))"

definition parse_frac :: "'d dbl \<Rightarrow> 'd \<Rightarrow> string \<Rightarrow> 'd \<times> 'd \<times> string" where
  "parse_frac D n num =
     (case num of
        c # d # r \<Rightarrow> if c = CHR ''.'' \<and> is_digit d then frac_digits D n (d_of_int D 0) (d # r) else (n, d_of_int D 0, num)
      | _ \<Rightarrow> (n, d_of_int D 0, num))"

definition parse_number :: "'d dbl \<Rightarrow> 'd cJSON \<Rightarrow> string \<Rightarrow> 'd cJSON \<times> string" where
  "parse_number D item num =
     (let (sign, num1) = parse_sign D num;
          (n2, num2) = parse_int D num1;
          (n3, scale, num3) = parse_frac D n2 num2;
          (subscale, signsubscale, num4) = parse_exp num3;
          n = d_mul D (d_mul D sign n3)
                (d_pow D (d_of_int D 10) (d_add D scale (d_of_int D (c_int (subscale * signsubscale)))))
      in (CJSON cJSON_Number (valuestring item) (d_to_int D n) n (itemstring item) (child item), num4))"

fun nat_digits :: "nat \<Rightarrow> string" where
  "nat_digits n = (if n < 10 then [char_of (48 + n)] else nat_digits (n div 10) @ [char_of (48 + n mod 10)])"

declare nat_digits.simps [simp del]

definition int_digits_of :: "int \<Rightarrow> string" where
  \<comment> \<open>\<open>sprintf\<close> with \<open>%d\<close>\<close>
  "int_digits_of i = (if i < 0 then CHR ''-'' # nat_digits (nat (- i)) else nat_digits (nat i))"

definition print_number :: "(nat \<Rightarrow> bool) \<Rightarrow> 'd dbl \<Rightarrow> 'd cJSON \<Rightarrow> string jm" where
  "print_number mok D item =
     (let d = valuedouble item
      in if d_le D (d_fabs D (d_sub D (d_of_int D (valueint item)) d)) (DBL_EPSILON D) \<and>
            d_le D d (d_of_int D 2147483647) \<and> d_le D (d_of_int D (- 2147483648)) d
         then jbind (cJSON_malloc mok) (\<lambda>_. fill 21 (int_digits_of (valueint item)))
         else jbind (cJSON_malloc mok) (\<lambda>_.
                if d_le D (d_fabs D (d_sub D (d_floor D d) d)) (DBL_EPSILON D) \<and> d_lt D (d_fabs D d) (d_1e60 D)
                then fill 64 (d_format D ''%.0f'' d)
                else if d_lt D (d_fabs D d) (d_1em6 D) \<or> d_lt D (d_1e9 D) (d_fabs D d)
                then fill 64 (d_format D ''%e'' d)
                else fill 64 (d_format D ''%f'' d)))"

section \<open>Strings\<close>

definition is_space :: "char \<Rightarrow> bool" where
  \<comment> \<open>\<open>isspace\<close> in the C locale\<close>
  "is_space c \<longleftrightarrow> (let n = (of_char c :: nat) in n = 32 \<or> 9 \<le> n \<and> n \<le> 13)"

definition hex_val :: "char \<Rightarrow> nat option" where
  "hex_val c = (let n = of_char c in
     if 48 \<le> n \<and> n \<le> 57 then Some (n - 48)
     else if 97 \<le> n \<and> n \<le> 102 then Some (n - 87)
     else if 65 \<le> n \<and> n \<le> 70 then Some (n - 55) else None)"

fun hex_run :: "nat \<Rightarrow> nat \<Rightarrow> string \<Rightarrow> nat" where
  \<comment> \<open>at most \<open>w\<close> hexadecimal digits, accumulated\<close>
  "hex_run 0 acc s = acc"
| "hex_run (Suc w) acc [] = acc"
| "hex_run (Suc w) acc (c # cs) = (case hex_val c of Some v \<Rightarrow> hex_run w (16 * acc + v) cs | None \<Rightarrow> acc)"

definition starts_hex :: "nat \<Rightarrow> string \<Rightarrow> bool" where
  "starts_hex w s \<longleftrightarrow> 0 < w \<and> (case s of c # _ \<Rightarrow> hex_val c \<noteq> None | [] \<Rightarrow> False)"

definition hex_item :: "nat \<Rightarrow> string \<Rightarrow> nat option" where
  \<comment> \<open>the digits of \<open>%x\<close> in a field of width \<open>w\<close>, after an optional \<open>0x\<close>\<close>
  "hex_item w s =
     (case s of
        z # x # r \<Rightarrow>
          if 2 \<le> w \<and> z = CHR ''0'' \<and> (x = CHR ''x'' \<or> x = CHR ''X'')
          then (if starts_hex (w - 2) r then Some (hex_run (w - 2) 0 r) else None)
          else if starts_hex w s then Some (hex_run w 0 s) else None
      | _ \<Rightarrow> if starts_hex w s then Some (hex_run w 0 s) else None)"

definition sscanf_4x :: "string \<Rightarrow> u32 option" where
  \<comment> \<open>\<open>sscanf(s, "%4x", &uc)\<close>; \<open>None\<close> when it stores nothing\<close>
  "sscanf_4x s =
     (case dropWhile is_space s of
        [] \<Rightarrow> None
      | c # r \<Rightarrow>
          if c = CHR ''-'' then map_option (\<lambda>v. - word_of_nat v) (hex_item 3 r)
          else if c = CHR ''+'' then map_option word_of_nat (hex_item 3 r)
          else map_option word_of_nat (hex_item 4 (c # r)))"

fun string_len :: "string \<Rightarrow> nat option" where
  \<comment> \<open>the first loop of \<open>parse_string\<close>; \<open>None\<close> when it steps over the terminator.  \<open>len\<close> counts characters of the text,
    which lies in the memory: as the \<open>size_t\<close> of \<open>cJSON_malloc\<close> it is always right\<close>
  "string_len [] = Some 0"
| "string_len (c # cs) =
     (if c = CHR 0x22 then Some 0
      else if c = CHR 0x5C then (case cs of [] \<Rightarrow> None | _ # r \<Rightarrow> map_option Suc (string_len r))
      else map_option Suc (string_len cs))"

definition firstByteMark :: "nat \<Rightarrow> u32" where
  "firstByteMark len = [0x00, 0x00, 0xC0, 0xE0, 0xF0, 0xF8, 0xFC] ! len"

definition byte_of :: "u32 \<Rightarrow> char" where
  \<comment> \<open>the assignment to a \<open>char\<close>\<close>
  "byte_of w = char_of (unat w)"

fun utf8_tail :: "nat \<Rightarrow> u32 \<Rightarrow> string \<Rightarrow> u32 \<times> string" where
  \<comment> \<open>the cases 4, 3, 2 of the inner switch: continuation bytes from the last one backwards\<close>
  "utf8_tail 0 uc bs = (uc, bs)"
| "utf8_tail (Suc k) uc bs = utf8_tail k (drop_bit 6 uc) (byte_of ((uc OR 0x80) AND 0xBF) # bs)"

definition utf8_len :: "u32 \<Rightarrow> nat" where
  "utf8_len uc = (if uc < 0x80 then 1 else if uc < 0x800 then 2 else if uc < 0x10000 then 3 else 4)"

definition utf8 :: "u32 \<Rightarrow> string \<times> u32" where
  \<comment> \<open>the bytes, and \<open>uc\<close> after the shifts\<close>
  "utf8 uc = (case utf8_tail (utf8_len uc - 1) uc [] of
     (uc', bs) \<Rightarrow> (byte_of (uc' OR firstByteMark (utf8_len uc)) # bs, uc'))"

definition store :: "'a option \<Rightarrow> 'a option \<Rightarrow> 'a option" where
  \<comment> \<open>a variable after a scan: kept when the scan stores nothing\<close>
  "store old new = (case new of Some v \<Rightarrow> Some v | None \<Rightarrow> old)"

definition unicode_escape ::
  "u32 option \<Rightarrow> u32 option \<Rightarrow> string \<Rightarrow> (string \<times> u32 option \<times> u32 option \<times> string) option" where
  \<comment> \<open>the case \<open>'u'\<close>, \<open>r\<close> behind the \<open>u\<close>: the bytes written, \<open>uc\<close>, \<open>uc2\<close> and the rest.  The variables start
    unset; \<open>None\<close> when one is read unset or the pointer steps over the terminator\<close>
  "unicode_escape uc0 uc20 r =
     (case store uc0 (sscanf_4x r) of
        None \<Rightarrow> None
      | Some uc \<Rightarrow>
          if length r < 4 then None
          else if 0xDC00 \<le> uc \<and> uc \<le> 0xDFFF \<or> uc = 0 then Some ([], Some uc, uc20, drop 4 r)
          else if 0xD800 \<le> uc \<and> uc \<le> 0xDBFF
          then (case drop 4 r of
                  b # u # q \<Rightarrow>
                    if b \<noteq> CHR 0x5C \<or> u \<noteq> CHR ''u'' then Some ([], Some uc, uc20, drop 4 r)
                    else (case store uc20 (sscanf_4x q) of
                            None \<Rightarrow> None
                          | Some uc2 \<Rightarrow>
                              if length q < 4 then None
                              else if uc2 < 0xDC00 \<or> uc2 > 0xDFFF then Some ([], Some uc, Some uc2, drop 4 q)
                              else (case utf8 (0x10000 + ((push_bit 10 (uc AND 0x3FF)) OR (uc2 AND 0x3FF))) of
                                      (bs, uc') \<Rightarrow> Some (bs, Some uc', Some uc2, drop 4 q)))
                | _ \<Rightarrow> Some ([], Some uc, uc20, drop 4 r))
          else (case utf8 uc of (bs, uc') \<Rightarrow> Some (bs, Some uc', uc20, drop 4 r)))"

definition unescape :: "char \<Rightarrow> char" where
  "unescape e =
     (if e = CHR ''b'' then CHR 0x08 else if e = CHR ''f'' then CHR 0x0C else if e = CHR ''n'' then CHR 0x0A
      else if e = CHR ''r'' then CHR 0x0D else if e = CHR ''t'' then CHR 0x09 else e)"

lemma unicode_escape_shorter:
  "unicode_escape uc uc2 r = Some (bs, uc', uc2', q) \<Longrightarrow> length q \<le> length r"
  unfolding unicode_escape_def by (auto split: option.splits if_splits list.splits prod.splits dest: arg_cong [of _ _ length])

function parse_chars :: "u32 option \<Rightarrow> u32 option \<Rightarrow> string \<Rightarrow> (string \<times> string) option" where
  \<comment> \<open>the second loop of \<open>parse_string\<close>: the bytes written and the pointer after the loop\<close>
  "parse_chars uc uc2 [] = Some ([], [])"
| "parse_chars uc uc2 (c # cs) =
     (if c = CHR 0x22 then Some ([], c # cs)
      else if c \<noteq> CHR 0x5C then map_option (\<lambda>(out, q). (c # out, q)) (parse_chars uc uc2 cs)
      else (case cs of
              [] \<Rightarrow> None
            | e # r \<Rightarrow>
                if e = CHR ''u''
                then (case unicode_escape uc uc2 r of
                        None \<Rightarrow> None
                      | Some (bs, uc', uc2', q) \<Rightarrow> map_option (\<lambda>(out, q'). (bs @ out, q')) (parse_chars uc' uc2' q))
                else map_option (\<lambda>(out, q). (unescape e # out, q)) (parse_chars uc uc2 r)))"
  by pat_completeness auto
termination
  by (relation "measure (\<lambda>(_, _, s). length s)") (auto dest!: unicode_escape_shorter)

definition parse_string :: "(nat \<Rightarrow> bool) \<Rightarrow> 'd cJSON \<Rightarrow> string \<Rightarrow> ('d cJSON \<times> string) jm" where
  "parse_string mok item str =
     (case str of
        [] \<Rightarrow> jerr str
      | c # ptr \<Rightarrow>
          if c \<noteq> CHR 0x22 then jerr str
          else (case string_len ptr of
                  None \<Rightarrow> jundef
                | Some len \<Rightarrow> jbind (cJSON_malloc mok) (\<lambda>_.
                    case parse_chars None None ptr of
                      None \<Rightarrow> jundef
                    | Some (out, q) \<Rightarrow> jbind (fill (len + 1) out) (\<lambda>out.
                        jret (CJSON cJSON_String (Some out) (valueint item) (valuedouble item) (itemstring item) (child item),
                              case q of b # q' \<Rightarrow> if b = CHR 0x22 then q' else q | [] \<Rightarrow> q)))))"

definition short_escape :: "char \<Rightarrow> char option" where
  \<comment> \<open>the letters of \<open>print_string_ptr\<close>\<close>
  "short_escape c =
     (if c = CHR 0x5C then Some (CHR 0x5C) else if c = CHR 0x22 then Some (CHR 0x22)
      else if c = CHR 0x08 then Some (CHR ''b'') else if c = CHR 0x0C then Some (CHR ''f'')
      else if c = CHR 0x0A then Some (CHR ''n'') else if c = CHR 0x0D then Some (CHR ''r'')
      else if c = CHR 0x09 then Some (CHR ''t'') else None)"

fun printed_len :: "int \<Rightarrow> string \<Rightarrow> int" where
  \<comment> \<open>the first loop of \<open>print_string_ptr\<close>, which also ends when \<open>++len\<close> comes round to 0\<close>
  "printed_len len [] = len"
| "printed_len len (c # cs) =
     (let len1 = c_int (len + 1)
      in if len1 = 0 then 0
         else printed_len
           (if c \<in> {CHR 0x22, CHR 0x5C, CHR 0x08, CHR 0x0C, CHR 0x0A, CHR 0x0D, CHR 0x09} then c_int (len1 + 1)
            else if (of_char c :: nat) < 32 then c_int (len1 + 5) else len1) cs)"

definition size_arg :: "int \<Rightarrow> nat" where
  \<comment> \<open>an \<open>int\<close> passed for the \<open>size_t\<close> of \<open>cJSON_malloc\<close>\<close>
  "size_arg len = nat (len mod 2 ^ 32)"

definition hex_digit :: "nat \<Rightarrow> char" where
  "hex_digit n = (if n < 10 then char_of (48 + n) else char_of (87 + n))"

definition u_escape :: "char \<Rightarrow> string" where
  \<comment> \<open>\<open>sprintf(ptr2,"u%04x",token)\<close>\<close>
  "u_escape c = (let n = of_char c in [CHR ''u'', CHR ''0'', CHR ''0'', hex_digit (n div 16), hex_digit (n mod 16)])"

definition escape :: "char \<Rightarrow> string" where
  "escape c =
     (if 31 < (of_char c :: nat) \<and> c \<noteq> CHR 0x22 \<and> c \<noteq> CHR 0x5C then [c]
      else CHR 0x5C # (case short_escape c of Some e \<Rightarrow> [e] | None \<Rightarrow> u_escape c))"

definition print_string_ptr :: "(nat \<Rightarrow> bool) \<Rightarrow> string option \<Rightarrow> string jm" where
  "print_string_ptr mok str =
     (case str of
        None \<Rightarrow> cJSON_strdup mok []
      | Some s \<Rightarrow> jbind (cJSON_malloc mok) (\<lambda>_.
          fill (size_arg (c_int (printed_len 0 s + 3))) (CHR 0x22 # concat (map escape s) @ [CHR 0x22])))"

definition print_string :: "(nat \<Rightarrow> bool) \<Rightarrow> 'd cJSON \<Rightarrow> string jm" where
  "print_string mok item = print_string_ptr mok (valuestring item)"

section \<open>Reading\<close>

fun skip_ws :: "string \<Rightarrow> string" where
  \<comment> \<open>\<open>skip\<close>\<close>
  "skip_ws [] = []"
| "skip_ws (c # cs) = (if (of_char c :: nat) \<le> 32 then skip_ws cs else c # cs)"

definition at :: "char \<Rightarrow> string \<Rightarrow> bool" where
  \<comment> \<open>\<open>*value == c\<close> for a character other than the terminator\<close>
  "at c v \<longleftrightarrow> (case v of d # _ \<Rightarrow> d = c | [] \<Rightarrow> False)"

text \<open>
  The loops of \<open>parse_array\<close> and \<open>parse_object\<close> and the depth of the recursion are bounded by the first
  argument; the caller gives the length of the text and one.  \<open>pv\<close> is \<open>parse_value\<close> one level down.
\<close>

type_synonym 'd reader = "'d cJSON \<Rightarrow> string \<Rightarrow> ('d cJSON \<times> string) jm"

primrec array_loop ::
  "nat \<Rightarrow> 'd reader \<Rightarrow> (nat \<Rightarrow> bool) \<Rightarrow> 'd dbl \<Rightarrow> 'd cJSON \<Rightarrow> 'd cJSON list \<Rightarrow> string \<Rightarrow> ('d cJSON \<times> string) jm" where
  "array_loop 0 pv mok D item cs value = jfuel"
| "array_loop (Suc f) pv mok D item cs value =
     (if at (CHR '','') value
      then jbind (cJSON_New_Item mok D) (\<lambda>new_item.
           jbind (pv new_item (skip_ws (tl value))) (\<lambda>(c, q).
             array_loop f pv mok D item (cs @ [c]) (skip_ws q)))
      else if at (CHR '']'') value then jret (set_child cs item, tl value)
      else jerr value)"

definition parse_array ::
  "nat \<Rightarrow> 'd reader \<Rightarrow> (nat \<Rightarrow> bool) \<Rightarrow> 'd dbl \<Rightarrow> 'd cJSON \<Rightarrow> string \<Rightarrow> ('d cJSON \<times> string) jm" where
  "parse_array f pv mok D item value =
     (if \<not> at (CHR ''['') value then jerr value
      else (let value1 = skip_ws (tl value)
            in if at (CHR '']'') value1 then jret (set_type cJSON_Array item, tl value1)
               else jbind (cJSON_New_Item mok D) (\<lambda>new_item.
                    jbind (pv new_item (skip_ws value1)) (\<lambda>(c, q).
                      array_loop f pv mok D (set_type cJSON_Array item) [c] (skip_ws q)))))"

primrec parse_member ::
  "nat \<Rightarrow> 'd reader \<Rightarrow> (nat \<Rightarrow> bool) \<Rightarrow> 'd dbl \<Rightarrow> 'd cJSON \<Rightarrow> 'd cJSON list \<Rightarrow> string \<Rightarrow> ('d cJSON \<times> string) jm" where
  "parse_member 0 pv mok D item cs value = jfuel"
| "parse_member (Suc f) pv mok D item cs value =
     \<comment> \<open>a new item for the member at \<open>value\<close>, then the test of the loop\<close>
     jbind (cJSON_New_Item mok D) (\<lambda>new_item.
     jbind (parse_string mok new_item (skip_ws value)) (\<lambda>(c, q).
       let value1 = skip_ws q;
           c1 = CJSON (type c) None (valueint c) (valuedouble c) (valuestring c) (child c)
       in if \<not> at (CHR '':'') value1 then jerr value1
          else jbind (pv c1 (skip_ws (tl value1))) (\<lambda>(c2, q2).
            let value2 = skip_ws q2; cs2 = cs @ [c2]
            in if at (CHR '','') value2 then parse_member f pv mok D item cs2 (tl value2)
               else if at (CHR ''}'') value2 then jret (set_child cs2 item, tl value2)
               else jerr value2)))"

definition parse_object ::
  "nat \<Rightarrow> 'd reader \<Rightarrow> (nat \<Rightarrow> bool) \<Rightarrow> 'd dbl \<Rightarrow> 'd cJSON \<Rightarrow> string \<Rightarrow> ('d cJSON \<times> string) jm" where
  "parse_object f pv mok D item value =
     (if \<not> at (CHR ''{'') value then jerr value
      else (let value1 = skip_ws (tl value)
            in if at (CHR ''}'') value1 then jret (set_type cJSON_Object item, tl value1)
               else parse_member f pv mok D (set_type cJSON_Object item) [] value1))"

primrec parse_value :: "nat \<Rightarrow> (nat \<Rightarrow> bool) \<Rightarrow> 'd dbl \<Rightarrow> 'd cJSON \<Rightarrow> string \<Rightarrow> ('d cJSON \<times> string) jm" where
  "parse_value 0 mok D item value = jfuel"
| "parse_value (Suc f) mok D item value =
     (if take 4 value = ''null'' then jret (set_type cJSON_NULL item, drop 4 value)
      else if take 5 value = ''false'' then jret (set_type cJSON_False item, drop 5 value)
      else if take 4 value = ''true''
      then jret (CJSON cJSON_True (valuestring item) 1 (valuedouble item) (itemstring item) (child item), drop 4 value)
      else if at (CHR 0x22) value then parse_string mok item value
      else if value \<noteq> [] \<and> (at (CHR ''-'') value \<or> is_digit (hd value)) then jret (parse_number D item value)
      else if at (CHR ''['') value then parse_array f (parse_value f mok D) mok D item value
      else if at (CHR ''{'') value then parse_object f (parse_value f mok D) mok D item value
      else jerr value)"

definition cJSON_ParseWithOpts ::
  "(nat \<Rightarrow> bool) \<Rightarrow> 'd dbl \<Rightarrow> bool \<Rightarrow> string \<Rightarrow> ('d cJSON \<times> string) jm" where
  \<comment> \<open>the item and \<open>return_parse_end\<close>\<close>
  "cJSON_ParseWithOpts mok D require_null_terminated value =
     jbind (\<lambda>s. case cJSON_New_Item mok D s of (r, s') \<Rightarrow> (r, s'\<lparr>ep := None\<rparr>)) (\<lambda>c.
     jbind (parse_value (length (skip_ws value) + 1) mok D c (skip_ws value)) (\<lambda>(c, end).
       if require_null_terminated
       then (if skip_ws end \<noteq> [] then jerr (skip_ws end) else jret (c, skip_ws end))
       else jret (c, end)))"

definition cJSON_Parse :: "(nat \<Rightarrow> bool) \<Rightarrow> 'd dbl \<Rightarrow> string \<Rightarrow> 'd cJSON jm" where
  "cJSON_Parse mok D value = jbind (cJSON_ParseWithOpts mok D False value) (\<lambda>(c, _). jret c)"

section \<open>Writing\<close>

definition compose_array :: "bool \<Rightarrow> string list \<Rightarrow> string" where
  \<comment> \<open>the loop that joins the entries\<close>
  "compose_array fmt es = CHR ''['' # concat (map (\<lambda>e. e @ (if fmt then '', '' else '','')) (butlast es)) @ last es @ '']''"

definition array_size :: "bool \<Rightarrow> string list \<Rightarrow> int" where
  \<comment> \<open>\<open>len\<close> after the loop\<close>
  "array_size fmt es = fold (\<lambda>e len. c_int (len + (int (length e) + 2 + (if fmt then 1 else 0)))) es 5"

definition compose_member :: "bool \<Rightarrow> nat \<Rightarrow> string \<times> string \<Rightarrow> string" where
  "compose_member fmt depth = (\<lambda>(name, e).
     (if fmt then replicate depth (CHR 0x09) else []) @ name @ '':'' @ (if fmt then [CHR 0x09] else []) @ e)"

definition compose_object :: "bool \<Rightarrow> nat \<Rightarrow> (string \<times> string) list \<Rightarrow> string" where
  "compose_object fmt depth ms =
     CHR ''{'' # (if fmt then [CHR 0x0A] else []) @
     concat (map (\<lambda>m. compose_member fmt depth m @ '','' @ (if fmt then [CHR 0x0A] else [])) (butlast ms)) @
     compose_member fmt depth (last ms) @ (if fmt then [CHR 0x0A] else []) @
     (if fmt then replicate (depth - 1) (CHR 0x09) else []) @ ''}''"

definition object_size :: "bool \<Rightarrow> nat \<Rightarrow> (string \<times> string) list \<Rightarrow> int" where
  \<comment> \<open>\<open>len\<close> after the loop\<close>
  "object_size fmt depth ms =
     fold (\<lambda>(name, e) len. c_int (len + (int (length e) + int (length name) + 2 + (if fmt then 2 + int depth else 0)))) ms
       (c_int (7 + (if fmt then int depth else 0)))"

fun all_some :: "('a option \<times> 'b option) list \<Rightarrow> ('a \<times> 'b) list option" where
  "all_some [] = Some []"
| "all_some ((Some a, Some b) # xs) = map_option ((#) (a, b)) (all_some xs)"
| "all_some (_ # xs) = None"

definition empty_object :: "bool \<Rightarrow> nat \<Rightarrow> string" where
  "empty_object fmt depth = CHR ''{'' # (if fmt then CHR 0x0A # replicate (depth - 1) (CHR 0x09) else []) @ ''}''"

text \<open>
  \<open>print_array\<close> and \<open>print_object\<close>: \<open>none\<close> says that there are no children, \<open>collect\<close> is the loop over them that
  prints the entries.  The \<open>depth\<close> of \<open>print_object\<close> is the one it is called with.  The texts are counted in an \<open>int\<close>,
  which wraps; the arrays of pointers are not, for a pointer takes 4 bytes and each child an item of 40, so that
  \<open>numentries\<close> and \<open>depth\<close>, which count items in the memory, stay small.
\<close>

definition print_array :: "(nat \<Rightarrow> bool) \<Rightarrow> bool \<Rightarrow> bool \<Rightarrow> string list jm \<Rightarrow> string jm" where
  "print_array mok fmt none collect =
     (if none then jbind (cJSON_malloc mok) (\<lambda>_. fill 3 ''[]'')
      else jbind (cJSON_malloc mok) (\<lambda>_.
           jbind collect (\<lambda>es.
           jbind (cJSON_malloc mok) (\<lambda>_. fill (size_arg (array_size fmt es)) (compose_array fmt es)))))"

definition print_object ::
  "(nat \<Rightarrow> bool) \<Rightarrow> bool \<Rightarrow> nat \<Rightarrow> bool \<Rightarrow> (string option \<times> string option) list jm \<Rightarrow> string jm" where
  "print_object mok fmt depth none collect =
     (if none then jbind (cJSON_malloc mok) (\<lambda>_. fill (size_arg (if fmt then c_int (int depth + 3) else 3)) (empty_object fmt depth))
      else jbind (cJSON_malloc mok) (\<lambda>_.
           jbind (cJSON_malloc mok) (\<lambda>_.
           jbind collect (\<lambda>es.
             case all_some es of
               None \<Rightarrow> jfail
             | Some ms \<Rightarrow> jbind (cJSON_malloc mok) (\<lambda>_.
                 fill (size_arg (object_size fmt (depth + 1) ms)) (compose_object fmt (depth + 1) ms))))))"

fun print_value :: "(nat \<Rightarrow> bool) \<Rightarrow> 'd dbl \<Rightarrow> bool \<Rightarrow> nat \<Rightarrow> 'd cJSON \<Rightarrow> string jm"
and array_entries :: "(nat \<Rightarrow> bool) \<Rightarrow> 'd dbl \<Rightarrow> bool \<Rightarrow> nat \<Rightarrow> 'd cJSON list \<Rightarrow> string list jm"
and object_entries ::
  "(nat \<Rightarrow> bool) \<Rightarrow> 'd dbl \<Rightarrow> bool \<Rightarrow> nat \<Rightarrow> 'd cJSON list \<Rightarrow> (string option \<times> string option) list jm"
where
  "print_value mok D fmt depth (CJSON t vs vi vd k cs) =
     (if t AND 255 = cJSON_NULL then cJSON_strdup mok ''null''
      else if t AND 255 = cJSON_False then cJSON_strdup mok ''false''
      else if t AND 255 = cJSON_True then cJSON_strdup mok ''true''
      else if t AND 255 = cJSON_Number then print_number mok D (CJSON t vs vi vd k cs)
      else if t AND 255 = cJSON_String then print_string mok (CJSON t vs vi vd k cs)
      else if t AND 255 = cJSON_Array
      then print_array mok fmt (cs = []) (array_entries mok D fmt (depth + 1) cs)
      else if t AND 255 = cJSON_Object
      then print_object mok fmt depth (cs = []) (object_entries mok D fmt (depth + 1) cs)
      else jfail)"
| "array_entries mok D fmt depth [] = jret []"
| "array_entries mok D fmt depth (c # cs) =
     jbind (print_value mok D fmt depth c) (\<lambda>e.
     jbind (array_entries mok D fmt depth cs) (\<lambda>es. jret (e # es)))"
| "object_entries mok D fmt depth [] = jret []"
| "object_entries mok D fmt depth (c # cs) =
     jbind (jtry (print_string_ptr mok (itemstring c))) (\<lambda>name.
     jbind (jtry (print_value mok D fmt depth c)) (\<lambda>e.
     jbind (object_entries mok D fmt depth cs) (\<lambda>es. jret ((name, e) # es))))"

definition cJSON_Print :: "(nat \<Rightarrow> bool) \<Rightarrow> 'd dbl \<Rightarrow> 'd cJSON \<Rightarrow> string jm" where
  "cJSON_Print mok D item = print_value mok D True 0 item"

definition cJSON_PrintUnformatted :: "(nat \<Rightarrow> bool) \<Rightarrow> 'd dbl \<Rightarrow> 'd cJSON \<Rightarrow> string jm" where
  "cJSON_PrintUnformatted mok D item = print_value mok D False 0 item"

section \<open>Access and change\<close>

text \<open>
  The chain of an item's children as a list.  An item that is added is one that stands alone, as the
  constructors and the detaching functions return it; the functions that add a reference to an item
  owned elsewhere share its children and are left out.
\<close>

definition cJSON_GetArraySize :: "'d cJSON \<Rightarrow> int" where
  "cJSON_GetArraySize array = int (length (child array))"

fun chain_item :: "'d cJSON list \<Rightarrow> int \<Rightarrow> 'd cJSON option" where
  \<comment> \<open>\<open>while (c && item>0) item--,c=c->next\<close>\<close>
  "chain_item [] i = None"
| "chain_item (c # cs) i = (if i > 0 then chain_item cs (i - 1) else Some c)"

definition cJSON_GetArrayItem :: "'d cJSON \<Rightarrow> int \<Rightarrow> 'd cJSON option" where
  "cJSON_GetArrayItem array item = chain_item (child array) item"

fun find_name :: "'d cJSON list \<Rightarrow> string \<Rightarrow> int \<Rightarrow> (int \<times> 'd cJSON) option" where
  \<comment> \<open>\<open>while (c && cJSON_strcasecmp(c->string,string)) i++,c=c->next\<close>\<close>
  "find_name [] k i = None"
| "find_name (c # cs) k i = (if cJSON_strcasecmp (itemstring c) (Some k) \<noteq> 0 then find_name cs k (i + 1) else Some (i, c))"

definition cJSON_GetObjectItem :: "'d cJSON \<Rightarrow> string \<Rightarrow> 'd cJSON option" where
  "cJSON_GetObjectItem object k = map_option snd (find_name (child object) k 0)"

definition cJSON_AddItemToArray :: "'d cJSON \<Rightarrow> 'd cJSON option \<Rightarrow> 'd cJSON" where
  "cJSON_AddItemToArray array item = (case item of None \<Rightarrow> array | Some i \<Rightarrow> set_child (child array @ [i]) array)"

definition cJSON_AddItemToObject :: "(nat \<Rightarrow> bool) \<Rightarrow> 'd cJSON \<Rightarrow> string \<Rightarrow> 'd cJSON option \<Rightarrow> 'd cJSON jm" where
  "cJSON_AddItemToObject mok object k item =
     (case item of
        None \<Rightarrow> jret object
      | Some i \<Rightarrow> jbind (jtry (cJSON_strdup mok k)) (\<lambda>name. jret (cJSON_AddItemToArray object (Some (set_string name i)))))"

fun chain_detach :: "'d cJSON list \<Rightarrow> int \<Rightarrow> 'd cJSON option \<times> 'd cJSON list" where
  "chain_detach [] which = (None, [])"
| "chain_detach (c # cs) which =
     (if which > 0 then (case chain_detach cs (which - 1) of (r, cs') \<Rightarrow> (r, c # cs')) else (Some c, cs))"

definition cJSON_DetachItemFromArray :: "'d cJSON \<Rightarrow> int \<Rightarrow> 'd cJSON option \<times> 'd cJSON" where
  "cJSON_DetachItemFromArray array which =
     (case chain_detach (child array) which of (r, cs) \<Rightarrow> (r, set_child cs array))"

definition cJSON_DeleteItemFromArray :: "'d cJSON \<Rightarrow> int \<Rightarrow> 'd cJSON" where
  "cJSON_DeleteItemFromArray array which = snd (cJSON_DetachItemFromArray array which)"

definition cJSON_DetachItemFromObject :: "'d cJSON \<Rightarrow> string \<Rightarrow> 'd cJSON option \<times> 'd cJSON" where
  "cJSON_DetachItemFromObject object k =
     (case find_name (child object) k 0 of
        None \<Rightarrow> (None, object)
      | Some (i, _) \<Rightarrow> cJSON_DetachItemFromArray object i)"

definition cJSON_DeleteItemFromObject :: "'d cJSON \<Rightarrow> string \<Rightarrow> 'd cJSON" where
  "cJSON_DeleteItemFromObject object k = snd (cJSON_DetachItemFromObject object k)"

fun chain_replace :: "'d cJSON list \<Rightarrow> int \<Rightarrow> 'd cJSON \<Rightarrow> 'd cJSON list" where
  "chain_replace [] which newitem = []"
| "chain_replace (c # cs) which newitem =
     (if which > 0 then c # chain_replace cs (which - 1) newitem else newitem # cs)"

definition cJSON_ReplaceItemInArray :: "'d cJSON \<Rightarrow> int \<Rightarrow> 'd cJSON \<Rightarrow> 'd cJSON" where
  "cJSON_ReplaceItemInArray array which newitem = set_child (chain_replace (child array) which newitem) array"

definition cJSON_ReplaceItemInObject :: "(nat \<Rightarrow> bool) \<Rightarrow> 'd cJSON \<Rightarrow> string \<Rightarrow> 'd cJSON \<Rightarrow> 'd cJSON jm" where
  "cJSON_ReplaceItemInObject mok object k newitem =
     (case find_name (child object) k 0 of
        None \<Rightarrow> jret object
      | Some (i, _) \<Rightarrow> jbind (jtry (cJSON_strdup mok k)) (\<lambda>name.
          jret (cJSON_ReplaceItemInArray object i (set_string name newitem))))"

section \<open>Construction\<close>

definition cJSON_Create :: "(nat \<Rightarrow> bool) \<Rightarrow> 'd dbl \<Rightarrow> int \<Rightarrow> 'd cJSON jm" where
  \<comment> \<open>\<open>cJSON_CreateNull\<close>, \<open>CreateTrue\<close>, \<open>CreateFalse\<close>, \<open>CreateArray\<close>, \<open>CreateObject\<close> differ in the type\<close>
  "cJSON_Create mok D t = jbind (cJSON_New_Item mok D) (\<lambda>item. jret (set_type t item))"

definition cJSON_CreateBool :: "(nat \<Rightarrow> bool) \<Rightarrow> 'd dbl \<Rightarrow> int \<Rightarrow> 'd cJSON jm" where
  "cJSON_CreateBool mok D b = cJSON_Create mok D (if b \<noteq> 0 then cJSON_True else cJSON_False)"

definition cJSON_CreateNumber :: "(nat \<Rightarrow> bool) \<Rightarrow> 'd dbl \<Rightarrow> 'd \<Rightarrow> 'd cJSON jm" where
  "cJSON_CreateNumber mok D num = jbind (cJSON_New_Item mok D) (\<lambda>item.
     jret (CJSON cJSON_Number (valuestring item) (d_to_int D num) num (itemstring item) (child item)))"

definition cJSON_CreateString :: "(nat \<Rightarrow> bool) \<Rightarrow> 'd dbl \<Rightarrow> string \<Rightarrow> 'd cJSON jm" where
  "cJSON_CreateString mok D str = jbind (cJSON_New_Item mok D) (\<lambda>item.
     jbind (jtry (cJSON_strdup mok str)) (\<lambda>v.
       jret (CJSON cJSON_String v (valueint item) (valuedouble item) (itemstring item) (child item))))"

fun create_loop :: "('a \<Rightarrow> 'd cJSON jm) \<Rightarrow> bool \<Rightarrow> bool \<Rightarrow> 'd cJSON list \<Rightarrow> 'a list \<Rightarrow> 'd cJSON list jm" where
  \<comment> \<open>the loop of the array constructors: \<open>first\<close> for \<open>!i\<close>, \<open>p\<close> for a non-null \<open>p\<close>; a null item is
    dereferenced by \<open>suffix_object\<close>\<close>
  "create_loop mk first p cs [] = jret cs"
| "create_loop mk first p cs (x # xs) =
     jbind (jtry (mk x)) (\<lambda>n.
       case n of
         None \<Rightarrow> if first then create_loop mk False False [] xs else jundef
       | Some c \<Rightarrow> if first then create_loop mk False True [c] xs
                   else if p then create_loop mk False True (cs @ [c]) xs else jundef)"

definition create_array :: "(nat \<Rightarrow> bool) \<Rightarrow> 'd dbl \<Rightarrow> ('a \<Rightarrow> 'd cJSON jm) \<Rightarrow> 'a list \<Rightarrow> 'd cJSON jm" where
  "create_array mok D mk xs = jbind (cJSON_Create mok D cJSON_Array) (\<lambda>a.
     jbind (create_loop mk True False [] xs) (\<lambda>cs. jret (set_child cs a)))"

definition cJSON_CreateIntArray :: "(nat \<Rightarrow> bool) \<Rightarrow> 'd dbl \<Rightarrow> int list \<Rightarrow> 'd cJSON jm" where
  "cJSON_CreateIntArray mok D numbers = create_array mok D (\<lambda>i. cJSON_CreateNumber mok D (d_of_int D i)) numbers"

definition cJSON_CreateDoubleArray :: "(nat \<Rightarrow> bool) \<Rightarrow> 'd dbl \<Rightarrow> 'd list \<Rightarrow> 'd cJSON jm" where
  \<comment> \<open>and \<open>cJSON_CreateFloatArray\<close>, whose numbers are converted to \<open>double\<close> first\<close>
  "cJSON_CreateDoubleArray mok D numbers = create_array mok D (cJSON_CreateNumber mok D) numbers"

definition cJSON_CreateStringArray :: "(nat \<Rightarrow> bool) \<Rightarrow> 'd dbl \<Rightarrow> string list \<Rightarrow> 'd cJSON jm" where
  "cJSON_CreateStringArray mok D strings = create_array mok D (cJSON_CreateString mok D) strings"

definition dup_string :: "(nat \<Rightarrow> bool) \<Rightarrow> string option \<Rightarrow> string option jm" where
  "dup_string mok s = (case s of None \<Rightarrow> jret None | Some v \<Rightarrow> jbind (cJSON_strdup mok v) (\<lambda>w. jret (Some w)))"

fun cJSON_Duplicate :: "(nat \<Rightarrow> bool) \<Rightarrow> 'd dbl \<Rightarrow> bool \<Rightarrow> 'd cJSON \<Rightarrow> 'd cJSON jm"
and duplicate_chain :: "(nat \<Rightarrow> bool) \<Rightarrow> 'd dbl \<Rightarrow> 'd cJSON list \<Rightarrow> 'd cJSON list jm"
where
  "cJSON_Duplicate mok D recurse (CJSON t vs vi vd k cs) =
     jbind (cJSON_New_Item mok D) (\<lambda>_.
     jbind (dup_string mok vs) (\<lambda>vs'.
     jbind (dup_string mok k) (\<lambda>k'.
       if \<not> recurse then jret (CJSON (t AND NOT cJSON_IsReference) vs' vi vd k' [])
       else jbind (duplicate_chain mok D cs) (\<lambda>cs'.
         jret (CJSON (t AND NOT cJSON_IsReference) vs' vi vd k' cs')))))"
| "duplicate_chain mok D [] = jret []"
| "duplicate_chain mok D (c # cs) =
     jbind (cJSON_Duplicate mok D True c) (\<lambda>c'. jbind (duplicate_chain mok D cs) (\<lambda>cs'. jret (c' # cs')))"

end
