(* ===== verification/C_Json_Laws.thy ===== *)
theory C_Json_Laws
  imports C_Json
begin

text \<open>
  What the reader and the writer of \<open>cJSON.c\<close> promise: a JSON value that is written, with or without
  formatting, is read back as it was; the writer stays inside the buffers it asks for while their
  sizes fit its \<open>int\<close>, with one exception, and leaves them when a text is too long for it; and a text
  whose escape the reader measures and copies differently makes it leave its buffer.
\<close>

section \<open>Runs that return\<close>

named_theorems yields_intros \<open>returning runs, composed\<close>

definition yields :: "'a jm \<Rightarrow> 'a \<Rightarrow> bool" where
  "yields m r \<longleftrightarrow> (\<forall>s. \<exists>s'. m s = (Ret r, s'))"

definition mallocs_succeed :: "(nat \<Rightarrow> bool) \<Rightarrow> bool" where
  "mallocs_succeed mok \<longleftrightarrow> (\<forall>n. mok n)"

lemma yields_ret [yields_intros]: "x = r \<Longrightarrow> yields (jret x) r"
  by (simp add: yields_def jret_def)

lemma yields_bind [yields_intros]: "yields m x \<Longrightarrow> yields (f x) r \<Longrightarrow> yields (jbind m f) r"
proof -
  assume m: "yields m x" and f: "yields (f x) r"
  show ?thesis
    unfolding yields_def
  proof
    fix s
    obtain s1 where "m s = (Ret x, s1)" using m by (auto simp: yields_def)
    moreover obtain s2 where "f x s1 = (Ret r, s2)" using f unfolding yields_def by blast
    ultimately show "\<exists>s'. jbind m f s = (Ret r, s')" by (simp add: jbind_def)
  qed
qed

lemma yields_try [yields_intros]: "yields m x \<Longrightarrow> yields (jtry m) (Some x)"
proof -
  assume m: "yields m x"
  have "\<exists>s'. jtry m s = (Ret (Some x), s')" for s
  proof -
    obtain s1 where "m s = (Ret x, s1)" using m by (auto simp: yields_def)
    then show ?thesis by (simp add: jtry_def)
  qed
  then show ?thesis by (simp add: yields_def)
qed

lemma yields_fill [yields_intros]: "length out + 1 \<le> cap \<Longrightarrow> yields (fill cap out) out"
  by (simp add: fill_def yields_intros)

lemma yields_malloc [yields_intros]: "mallocs_succeed mok \<Longrightarrow> yields (cJSON_malloc mok) ()"
  by (simp add: yields_def cJSON_malloc_def mallocs_succeed_def)

lemma yields_after_malloc: "mallocs_succeed mok \<Longrightarrow> yields m r \<Longrightarrow> yields (jbind (cJSON_malloc mok) (\<lambda>_. m)) r"
  by (rule yields_bind [OF yields_malloc])

lemma yields_New_Item [yields_intros]:
  "mallocs_succeed mok \<Longrightarrow> yields (cJSON_New_Item mok D) (CJSON 0 None 0 (d_of_int D 0) None [])"
  by (simp add: cJSON_New_Item_def yields_intros yields_after_malloc)

lemma yields_strdup [yields_intros]: "mallocs_succeed mok \<Longrightarrow> yields (cJSON_strdup mok str) str"
  by (simp add: cJSON_strdup_def yields_intros yields_after_malloc)

section \<open>JSON values\<close>

datatype json = JNull | JFalse | JTrue | JInt int | JStr string | JArr "json list" | JObj "(string \<times> json) list"

text \<open>The item that stands for a value, with its name in the object that holds it.\<close>

fun to_cJSON :: "'d dbl \<Rightarrow> string option \<Rightarrow> json \<Rightarrow> 'd cJSON" where
  "to_cJSON D k JNull = CJSON cJSON_NULL None 0 (d_of_int D 0) k []"
| "to_cJSON D k JFalse = CJSON cJSON_False None 0 (d_of_int D 0) k []"
| "to_cJSON D k JTrue = CJSON cJSON_True None 1 (d_of_int D 0) k []"
| "to_cJSON D k (JInt i) = CJSON cJSON_Number None i (d_of_int D i) k []"
| "to_cJSON D k (JStr s) = CJSON cJSON_String (Some s) 0 (d_of_int D 0) k []"
| "to_cJSON D k (JArr js) = CJSON cJSON_Array None 0 (d_of_int D 0) k (map (to_cJSON D None) js)"
| "to_cJSON D k (JObj ms) = CJSON cJSON_Object None 0 (d_of_int D 0) k (map (\<lambda>(n, j). to_cJSON D (Some n) j) ms)"

fun json_ok :: "json \<Rightarrow> bool" where
  \<comment> \<open>integers of type \<open>int\<close>, strings without terminator\<close>
  "json_ok (JInt i) \<longleftrightarrow> is_int i"
| "json_ok (JStr s) \<longleftrightarrow> CHR 0x00 \<notin> set s"
| "json_ok (JArr js) \<longleftrightarrow> (\<forall>j \<in> set js. json_ok j)"
| "json_ok (JObj ms) \<longleftrightarrow> (\<forall>(n, j) \<in> set ms. CHR 0x00 \<notin> set n \<and> json_ok j)"
| "json_ok _ \<longleftrightarrow> True"

definition quoted :: "string \<Rightarrow> string" where
  "quoted s = CHR 0x22 # concat (map escape s) @ [CHR 0x22]"

fun text_of :: "bool \<Rightarrow> nat \<Rightarrow> json \<Rightarrow> string" where
  "text_of fmt d JNull = ''null''"
| "text_of fmt d JFalse = ''false''"
| "text_of fmt d JTrue = ''true''"
| "text_of fmt d (JInt i) = int_digits_of i"
| "text_of fmt d (JStr s) = quoted s"
| "text_of fmt d (JArr js) = (if js = [] then ''[]'' else compose_array fmt (map (text_of fmt (d + 1)) js))"
| "text_of fmt d (JObj ms) = (if ms = [] then empty_object fmt d
     else compose_object fmt (d + 1) (map (\<lambda>(n, j). (quoted n, text_of fmt (d + 1) j)) ms))"

text \<open>
  What the code relies on in \<open>double\<close>: integers of up to 53 bits are exact, so are their products and
  sums (a product that is zero has no sign to lose here), \<open>pow(10, 0)\<close> is 1, the conversions and
  comparisons of \<open>int\<close> values are exact.
\<close>

definition dbl_exact :: "'d dbl \<Rightarrow> bool" where
  "dbl_exact D \<longleftrightarrow>
     (\<forall>a b. \<bar>a * b\<bar> \<le> 2 ^ 53 \<and> (a * b \<noteq> 0 \<or> 0 \<le> a \<and> 0 \<le> b) \<longrightarrow> d_mul D (d_of_int D a) (d_of_int D b) = d_of_int D (a * b)) \<and>
     (\<forall>a b. 0 \<le> a \<and> 0 \<le> b \<and> a + b \<le> 2 ^ 53 \<longrightarrow> d_add D (d_of_int D a) (d_of_int D b) = d_of_int D (a + b)) \<and>
     d_pow D (d_of_int D 10) (d_of_int D 0) = d_of_int D 1 \<and>
     (\<forall>i. is_int i \<longrightarrow> d_to_int D (d_of_int D i) = i \<and>
        d_le D (d_fabs D (d_sub D (d_of_int D i) (d_of_int D i))) (DBL_EPSILON D)) \<and>
     (\<forall>i j. is_int i \<and> is_int j \<and> i \<le> j \<longrightarrow> d_le D (d_of_int D i) (d_of_int D j))"

section \<open>The writer's buffers\<close>

text \<open>
  The code counts the bytes of a buffer in an \<open>int\<close>.  The sizes it means are natural numbers, and what it
  passes to \<open>cJSON_malloc\<close> is such a size as long as it is below \<open>2 ^ 31\<close>; from \<open>2 ^ 32\<close> bytes on it is too small.
\<close>

definition array_bytes :: "bool \<Rightarrow> string list \<Rightarrow> nat" where
  "array_bytes fmt es = 5 + sum_list (map (\<lambda>e. length e + 2 + (if fmt then 1 else 0)) es)"

definition object_bytes :: "bool \<Rightarrow> nat \<Rightarrow> (string \<times> string) list \<Rightarrow> nat" where
  "object_bytes fmt depth ms = 7 + (if fmt then depth else 0) +
     sum_list (map (\<lambda>(name, e). length e + length name + 2 + (if fmt then 2 + depth else 0)) ms)"

lemma size_arg_small: "n < 2 ^ 32 \<Longrightarrow> size_arg (int n) = n"
  by (simp add: size_arg_def)

lemma size_arg_bound: "size_arg x < 2 ^ 32"
  by (simp add: size_arg_def nat_less_iff)

lemma c_int_nat: "n < 2 ^ 31 \<Longrightarrow> c_int (int n) = int n"
  by (simp add: c_int_id)

lemma fold_c_int:
  "n + sum_list (map g xs) < 2 ^ 31 \<Longrightarrow>
     fold (\<lambda>x len. c_int (len + int (g x))) xs (int n) = int (n + sum_list (map g xs))"
proof (induction xs arbitrary: n)
  case (Cons x xs)
  then have "c_int (int n + int (g x)) = int (n + g x)" using c_int_nat [of "n + g x"] by simp
  then show ?case using Cons.IH [of "n + g x"] Cons.prems by (simp add: add.assoc)
qed simp

lemma array_size_bytes: "array_bytes fmt es < 2 ^ 31 \<Longrightarrow> size_arg (array_size fmt es) = array_bytes fmt es"
proof -
  assume b: "array_bytes fmt es < 2 ^ 31"
  let ?g = "\<lambda>e. length e + 2 + (if fmt then 1 else 0)"
  have f: "int (length e) + 2 + (if fmt then 1 else 0) = int (?g e)" for e :: string by simp
  have "array_size fmt es = int (array_bytes fmt es)"
    using fold_c_int [of 5 ?g es] b unfolding array_size_def array_bytes_def f by simp
  then show ?thesis using b by (simp add: size_arg_small)
qed

lemma object_size_bytes:
  "object_bytes fmt depth ms < 2 ^ 31 \<Longrightarrow> size_arg (object_size fmt depth ms) = object_bytes fmt depth ms"
proof -
  assume b: "object_bytes fmt depth ms < 2 ^ 31"
  let ?g = "\<lambda>(name, e). length e + length name + 2 + (if fmt then 2 + depth else 0)" and ?n = "7 + (if fmt then depth else 0)"
  have f: "(\<lambda>(name, e) len. c_int (len + (int (length e) + int (length name) + 2 + (if fmt then 2 + int depth else 0)))) =
      (\<lambda>m len. c_int (len + int (?g m)))" by (auto simp: fun_eq_iff algebra_simps)
  have n: "c_int (7 + (if fmt then int depth else 0)) = int ?n" using b c_int_nat [of ?n] by (simp add: object_bytes_def split: if_splits)
  have "object_size fmt depth ms = int (object_bytes fmt depth ms)"
    using fold_c_int [of ?n ?g ms] b unfolding object_size_def object_bytes_def f n by simp
  then show ?thesis using b by (simp add: size_arg_small)
qed

definition char_bytes :: "char \<Rightarrow> nat" where
  "char_bytes c = (if c \<in> {CHR 0x22, CHR 0x5C, CHR 0x08, CHR 0x0C, CHR 0x0A, CHR 0x0D, CHR 0x09} then 2
     else if (of_char c :: nat) < 32 then 6 else 1)"

definition string_bytes :: "string \<Rightarrow> nat" where
  \<comment> \<open>the characters between the quotes\<close>
  "string_bytes s = sum_list (map char_bytes s)"

lemma printed_len_step: "n + char_bytes c < 2 ^ 31 \<Longrightarrow> printed_len (int n) (c # cs) = printed_len (int (n + char_bytes c)) cs"
  unfolding char_bytes_def by (auto simp: Let_def c_int_id add.commute [of _ "int n"] split: if_splits)

lemma printed_len_bytes: "n + string_bytes s < 2 ^ 31 \<Longrightarrow> printed_len (int n) s = int (n + string_bytes s)"
proof (induction s arbitrary: n)
  case (Cons c cs)
  then show ?case
    using printed_len_step [of n c cs] Cons.IH [of "n + char_bytes c"] by (simp add: string_bytes_def add.assoc del: printed_len.simps)
qed (simp add: string_bytes_def)

lemma string_size_bytes: "string_bytes s + 3 < 2 ^ 31 \<Longrightarrow> size_arg (c_int (printed_len 0 s + 3)) = string_bytes s + 3"
  using printed_len_bytes [of 0 s] c_int_nat [of "string_bytes s + 3"] size_arg_small [of "string_bytes s + 3"] by simp

lemma escape_len: "c \<noteq> CHR 0x00 \<Longrightarrow> length (escape c) = char_bytes c"
  by (auto simp: escape_def short_escape_def u_escape_def char_bytes_def Let_def)

lemma quoted_len: "CHR 0x00 \<notin> set s \<Longrightarrow> length (quoted s) + 1 = string_bytes s + 3"
proof -
  assume "CHR 0x00 \<notin> set s"
  then have "length (concat (map escape s)) = string_bytes s"
    by (induction s) (auto simp: string_bytes_def escape_len)
  then show ?thesis by (simp add: quoted_def)
qed

lemma compose_array_simp:
  "compose_array fmt (e # es) = CHR ''['' # e @ concat (map (\<lambda>x. (if fmt then '', '' else '','') @ x) es) @ '']''"
proof (induction es arbitrary: e)
  case (Cons x es)
  then show ?case using Cons [of x] by (simp add: compose_array_def)
qed (simp add: compose_array_def)

lemma compose_array_len:
  "length (compose_array fmt (e # es)) = length e + 2 + sum_list (map (\<lambda>x. length x + (if fmt then 2 else 1)) es)"
proof -
  have "length (concat (map (\<lambda>x. sep @ x) es)) = sum_list (map (\<lambda>x. length x + length sep) es)" for sep :: string
    by (induction es) auto
  then show ?thesis by (simp add: compose_array_simp)
qed

lemma compose_array_fits:
  assumes "es \<noteq> []"
  shows "length (compose_array fmt es) + 1 \<le> array_bytes fmt es" "array_bytes fmt es \<le> 2 * length (compose_array fmt es) + 8"
proof -
  obtain e es' where es: "es = e # es'" using assms by (cases es) auto
  let ?s = "sum_list (map (\<lambda>e. length e + 2 + (if fmt then 1 else 0)) es')" and ?l = "sum_list (map (\<lambda>x. length x + (if fmt then 2 else 1)) es')"
  have "?l \<le> ?s" "?s \<le> 2 * ?l" by (induction es') auto
  then show "length (compose_array fmt es) + 1 \<le> array_bytes fmt es" "array_bytes fmt es \<le> 2 * length (compose_array fmt es) + 8"
    by (auto simp: es compose_array_len array_bytes_def)
qed

lemma compose_array_entry: "e \<in> set es \<Longrightarrow> length e \<le> length (compose_array fmt es)"
proof (cases es)
  case (Cons e1 es')
  have "length e \<le> sum_list (map (\<lambda>x. length x + (if fmt then 2 else 1)) es')" if "e \<in> set es'"
    using that by (induction es') auto
  then show "e \<in> set es \<Longrightarrow> ?thesis" using Cons by (auto simp: compose_array_len)
qed simp

fun object_body :: "bool \<Rightarrow> nat \<Rightarrow> (string \<times> string) list \<Rightarrow> string" where
  \<comment> \<open>the members as they are written one after the other\<close>
  "object_body fmt depth [] = []"
| "object_body fmt depth (m # ms) =
     compose_member fmt depth m @ (if ms = [] then [] else '','') @ (if fmt then [CHR 0x0A] else []) @ object_body fmt depth ms"

lemma compose_object_simp:
  "ms \<noteq> [] \<Longrightarrow> compose_object fmt depth ms =
     CHR ''{'' # (if fmt then [CHR 0x0A] else []) @ object_body fmt depth ms @
     (if fmt then replicate (depth - 1) (CHR 0x09) else []) @ ''}''"
proof -
  have "concat (map (\<lambda>m. compose_member fmt depth m @ '','' @ (if fmt then [CHR 0x0A] else [])) (butlast ms)) @
     compose_member fmt depth (last ms) @ (if fmt then [CHR 0x0A] else []) = object_body fmt depth ms" if "ms \<noteq> []"
    using that by (induction ms) auto
  then show "ms \<noteq> [] \<Longrightarrow> ?thesis" by (simp add: compose_object_def)
qed

lemma object_body_len:
  "length (object_body fmt depth ms) \<le>
     sum_list (map (\<lambda>(name, e). length e + length name + 2 + (if fmt then 2 + depth else 0)) ms)"
  "sum_list (map (\<lambda>(name, e). length e + length name + 2 + (if fmt then 2 + depth else 0)) ms) \<le>
     2 * length (object_body fmt depth ms)"
  by (induction ms) (auto simp: compose_member_def)

lemma compose_object_fits:
  assumes "ms \<noteq> []"
  shows "length (compose_object fmt depth ms) + 1 \<le> object_bytes fmt depth ms"
    "object_bytes fmt depth ms \<le> 2 * length (compose_object fmt depth ms) + 8"
  using object_body_len [of fmt depth ms] assms by (auto simp: compose_object_simp object_bytes_def)

lemma compose_object_member:
  assumes "(n, e) \<in> set ms"
  shows "length n \<le> length (compose_object fmt depth ms)" "length e \<le> length (compose_object fmt depth ms)"
proof -
  have "length n \<le> length (object_body fmt depth ms) \<and> length e \<le> length (object_body fmt depth ms)"
    using assms by (induction ms) (auto simp: compose_member_def)
  moreover have "ms \<noteq> []" using assms by auto
  ultimately show "length n \<le> length (compose_object fmt depth ms)" "length e \<le> length (compose_object fmt depth ms)"
    by (simp_all add: compose_object_simp)
qed

lemma nat_digits_len: "n < 10 ^ k \<Longrightarrow> 0 < k \<Longrightarrow> length (nat_digits n) \<le> k"
proof (induction k arbitrary: n)
  case (Suc k)
  show ?case
  proof (cases "n < 10")
    case False
    then have "0 < k" using Suc.prems(1) by (cases k) auto
    moreover have "n div 10 < 10 ^ k" using Suc.prems(1) by (simp add: less_mult_imp_div_less mult.commute)
    ultimately show ?thesis using Suc.IH [of "n div 10"] False by (subst nat_digits.simps) simp
  qed (subst nat_digits.simps, simp)
qed simp

lemma int_digits_fit: "is_int i \<Longrightarrow> length (int_digits_of i) + 1 \<le> 21"
proof -
  assume i: "is_int i"
  then have "\<bar>i\<bar> < 10 ^ 10" by (auto simp: abs_if)
  then have "nat \<bar>i\<bar> < 10 ^ 10" by (simp add: nat_less_iff)
  then have "length (nat_digits (nat \<bar>i\<bar>)) \<le> 10" by (rule nat_digits_len) simp
  then show ?thesis by (auto simp: int_digits_of_def)
qed

section \<open>What the writer writes\<close>

text \<open>A text of at most \<open>10 ^ 9\<close> characters needs a buffer of less than \<open>2 ^ 31\<close> bytes.\<close>

abbreviation text_fits :: "string \<Rightarrow> bool" where
  "text_fits t \<equiv> length t \<le> 10 ^ 9"

lemma print_string_ptr_yields:
  assumes "mallocs_succeed mok" "CHR 0x00 \<notin> set s" "text_fits (quoted s)"
  shows "yields (print_string_ptr mok (Some s)) (quoted s)"
proof -
  have "size_arg (c_int (printed_len 0 s + 3)) = length (quoted s) + 1"
    using quoted_len [OF assms(2)] assms(3) string_size_bytes [of s] by simp
  then show ?thesis
    unfolding print_string_ptr_def using assms(1) by (simp add: quoted_def yields_after_malloc yields_fill)
qed

lemma fill_array_yields: "es \<noteq> [] \<Longrightarrow> text_fits (compose_array fmt es) \<Longrightarrow>
  yields (fill (size_arg (array_size fmt es)) (compose_array fmt es)) (compose_array fmt es)"
  using compose_array_fits [of es fmt] array_size_bytes [of fmt es] by (intro yields_fill) simp

lemma fill_object_yields: "ms \<noteq> [] \<Longrightarrow> text_fits (compose_object fmt d ms) \<Longrightarrow>
  yields (fill (size_arg (object_size fmt d ms)) (compose_object fmt d ms)) (compose_object fmt d ms)"
  using compose_object_fits [of ms fmt d] object_size_bytes [of fmt d ms] by (intro yields_fill) simp

lemma fill_empty_object_yields: "fmt \<longrightarrow> 0 < d \<Longrightarrow> text_fits (empty_object fmt d) \<Longrightarrow>
  yields (fill (size_arg (if fmt then c_int (int d + 3) else 3)) (empty_object fmt d)) (empty_object fmt d)"
  using c_int_nat [of "d + 3"] size_arg_small [of "d + 3"] size_arg_small [of 3]
  by (intro yields_fill) (auto simp: empty_object_def)

lemma print_number_yields:
  "mallocs_succeed mok \<Longrightarrow> dbl_exact D \<Longrightarrow> is_int i \<Longrightarrow>
     yields (print_number mok D (CJSON t vs i (d_of_int D i) k cs)) (int_digits_of i)"
  using int_digits_fit [of i] unfolding print_number_def dbl_exact_def by (simp add: yields_after_malloc yields_fill)

lemma array_entries_yields:
  "(\<And>j. j \<in> set js \<Longrightarrow> yields (print_value mok D fmt d (g j)) (h j)) \<Longrightarrow>
     yields (array_entries mok D fmt d (map g js)) (map h js)"
  by (induction js) (auto intro!: yields_intros)

lemma object_entries_yields:
  "(\<And>m. m \<in> set ms \<Longrightarrow> yields (print_string_ptr mok (itemstring (g m))) (n m) \<and> yields (print_value mok D fmt d (g m)) (h m)) \<Longrightarrow>
     yields (object_entries mok D fmt d (map g ms)) (map (\<lambda>m. (Some (n m), Some (h m))) ms)"
  by (induction ms) (auto intro!: yields_intros)

lemma all_some_map: "all_some (map (\<lambda>m. (Some (n m), Some (h m))) ms) = Some (map (\<lambda>m. (n m, h m)) ms)"
  by (induction ms) auto

lemma itemstring_to_cJSON [simp]: "itemstring (to_cJSON D k j) = k"
  by (cases j) auto

lemma print_value_text:
  assumes "mallocs_succeed mok" "dbl_exact D" "json_ok j" "fmt \<longrightarrow> 0 < d \<or> j \<noteq> JObj []" "text_fits (text_of fmt d j)"
  shows "yields (print_value mok D fmt d (to_cJSON D k j)) (text_of fmt d j)"
  using assms(3,4,5)
proof (induction j arbitrary: k d)
  case (JInt i)
  then show ?case using print_number_yields [OF assms(1,2), of i] by (simp add: json_types)
next
  case (JStr s)
  then show ?case using print_string_ptr_yields [OF assms(1), of s] by (simp add: json_types print_string_def)
next
  case (JArr js)
  show ?case
  proof (cases "js = []")
    case False
    let ?es = "map (text_of fmt (d + 1)) js"
    have fits: "text_fits (compose_array fmt ?es)" using JArr.prems(3) False by simp
    then have "text_fits (text_of fmt (d + 1) j)" if "j \<in> set js" for j
      using compose_array_entry [of "text_of fmt (d + 1) j" ?es fmt] that by simp
    then have "yields (array_entries mok D fmt (d + 1) (map (to_cJSON D None) js)) ?es"
      using JArr by (intro array_entries_yields) auto
    then show ?thesis
      using False assms(1) fill_array_yields [OF _ fits]
      by (auto simp: json_types print_array_def intro!: yields_malloc yields_bind)
  qed (use assms(1) in \<open>simp add: json_types print_array_def yields_after_malloc yields_fill\<close>)
next
  case (JObj ms)
  show ?case
  proof (cases "ms = []")
    case True
    then show ?thesis
      using assms(1) JObj.prems(2,3) fill_empty_object_yields [of fmt d]
      by (auto simp: json_types print_object_def intro!: yields_after_malloc)
  next
    case False
    let ?n = "\<lambda>(n, j :: json). quoted n" and ?h = "\<lambda>(n :: string, j). text_of fmt (d + 1) j"
      and ?ms = "map (\<lambda>(n, j). (quoted n, text_of fmt (d + 1) j)) ms"
    have fits: "text_fits (compose_object fmt (d + 1) ?ms)" using JObj.prems(3) False by simp
    have "yields (object_entries mok D fmt (d + 1) (map (\<lambda>(n, j). to_cJSON D (Some n) j) ms))
        (map (\<lambda>m. (Some (?n m), Some (?h m))) ms)"
    proof (rule object_entries_yields)
      fix m assume "m \<in> set ms"
      moreover obtain n j where m: "m = (n, j)" by (cases m)
      ultimately have ok: "CHR 0x00 \<notin> set n" "json_ok j" "(n, j) \<in> set ms" using JObj.prems(1) by auto
      then have "(quoted n, text_of fmt (d + 1) j) \<in> set ?ms" by force
      then have "text_fits (quoted n)" "text_fits (text_of fmt (d + 1) j)"
        using compose_object_member fits le_trans by meson+
      then show "yields (print_string_ptr mok (itemstring ((\<lambda>(n, j). to_cJSON D (Some n) j) m))) (?n m) \<and>
          yields (print_value mok D fmt (d + 1) ((\<lambda>(n, j). to_cJSON D (Some n) j) m)) (?h m)"
        using print_string_ptr_yields [OF assms(1) ok(1)] JObj.IH [of "(n, j)" j "d + 1" "Some n"] ok m by simp
    qed
    moreover have "map (\<lambda>m. (?n m, ?h m)) ms = ?ms" by (auto simp: case_prod_beta)
    then have "all_some (map (\<lambda>m. (Some (?n m), Some (?h m))) ms) = Some ?ms" using all_some_map [of ?n ?h ms] by simp
    ultimately show ?thesis
      using False assms(1) fill_object_yields [OF _ fits]
      by (auto simp: json_types print_object_def intro!: yields_malloc yields_bind)
  qed
qed (use assms(1) in \<open>simp_all add: json_types yields_strdup\<close>)

section \<open>Texts that are too long\<close>

text \<open>\<open>undef_or m P\<close>: \<open>m\<close> returns a value with \<open>P\<close> or leaves a buffer.\<close>

definition undef_or :: "'a jm \<Rightarrow> ('a \<Rightarrow> bool) \<Rightarrow> bool" where
  "undef_or m P \<longleftrightarrow> (\<forall>s. case fst (m s) of Ret x \<Rightarrow> P x | Fail \<Rightarrow> False | Undef \<Rightarrow> True | Fuel \<Rightarrow> False)"

lemma undef_or_fill: "undef_or (fill cap out) (\<lambda>e. e = out \<and> length e < cap)"
  by (simp add: undef_or_def fill_def jret_def jundef_def)

lemma undef_or_yields: "yields m r \<Longrightarrow> P r \<Longrightarrow> undef_or m P"
proof -
  assume y: "yields m r" and P: "P r"
  have "case fst (m s) of Ret x \<Rightarrow> P x | Fail \<Rightarrow> False | Undef \<Rightarrow> True | Fuel \<Rightarrow> False" for s
  proof -
    obtain s' where "m s = (Ret r, s')" using y by (auto simp: yields_def)
    then show ?thesis using P by simp
  qed
  then show ?thesis by (simp add: undef_or_def)
qed

lemma undef_or_mono: "undef_or m P \<Longrightarrow> (\<And>x. P x \<Longrightarrow> Q x) \<Longrightarrow> undef_or m Q"
  unfolding undef_or_def by (auto split: jout.splits)

lemma undef_or_bind:
  assumes "undef_or m P" "\<And>x. P x \<Longrightarrow> undef_or (g x) Q"
  shows "undef_or (jbind m g) Q"
proof -
  have "case fst (jbind m g s) of Ret x \<Rightarrow> Q x | Fail \<Rightarrow> False | Undef \<Rightarrow> True | Fuel \<Rightarrow> False" for s
  proof -
    obtain r s' where r: "m s = (r, s')" by fastforce
    then have p: "case r of Ret x \<Rightarrow> P x | Fail \<Rightarrow> False | Undef \<Rightarrow> True | Fuel \<Rightarrow> False"
      using assms(1) unfolding undef_or_def by (metis fst_conv)
    show ?thesis
    proof (cases r)
      case (Ret x)
      then show ?thesis using assms(2) [of x] p r unfolding undef_or_def by (simp add: jbind_def)
    qed (use r p in \<open>simp_all add: jbind_def\<close>)
  qed
  then show ?thesis by (simp add: undef_or_def)
qed

lemma undef_or_try: "undef_or m P \<Longrightarrow> undef_or (jtry m) (\<lambda>x. \<exists>y. x = Some y \<and> P y)"
proof -
  assume m: "undef_or m P"
  have "case fst (jtry m s) of Ret x \<Rightarrow> \<exists>y. x = Some y \<and> P y | Fail \<Rightarrow> False | Undef \<Rightarrow> True | Fuel \<Rightarrow> False" for s
  proof -
    obtain r s' where r: "m s = (r, s')" by fastforce
    then have "case r of Ret x \<Rightarrow> P x | Fail \<Rightarrow> False | Undef \<Rightarrow> True | Fuel \<Rightarrow> False"
      using m unfolding undef_or_def by (metis fst_conv)
    then show ?thesis using r by (cases r) (simp_all add: jtry_def)
  qed
  then show ?thesis by (simp add: undef_or_def)
qed

lemma undef_or_after_malloc: "mallocs_succeed mok \<Longrightarrow> undef_or m P \<Longrightarrow> undef_or (jbind (cJSON_malloc mok) (\<lambda>_. m)) P"
  by (rule undef_or_bind [OF undef_or_yields [OF yields_malloc]]) auto

abbreviation writes :: "string jm \<Rightarrow> string \<Rightarrow> bool" where
  \<comment> \<open>a text that a buffer of less than \<open>2 ^ 32\<close> bytes can hold, or an overrun\<close>
  "writes m t \<equiv> undef_or m (\<lambda>e. e = t \<and> length e < 4294967295)"

lemma writes_fill: "writes (fill (size_arg len) t) t"
  using size_arg_bound [of len] by (intro undef_or_mono [OF undef_or_fill]) auto

lemma print_string_ptr_writes: "mallocs_succeed mok \<Longrightarrow> writes (print_string_ptr mok (Some s)) (quoted s)"
  using writes_fill unfolding print_string_ptr_def quoted_def by (simp add: undef_or_after_malloc)

lemma array_entries_writes:
  "(\<And>j. j \<in> set js \<Longrightarrow> writes (print_value mok D fmt d (g j)) (h j)) \<Longrightarrow>
     undef_or (array_entries mok D fmt d (map g js)) (\<lambda>es. es = map h js)"
proof (induction js)
  case (Cons j js)
  have "writes (print_value mok D fmt d (g j)) (h j)"
    and "undef_or (array_entries mok D fmt d (map g js)) (\<lambda>es. es = map h js)" using Cons by auto
  then show ?case
    by (auto intro!: undef_or_bind [where m = "print_value mok D fmt d (g j)"] undef_or_bind [where m = "array_entries mok D fmt d (map g js)"]
        undef_or_yields [OF yields_ret [OF refl]])
qed (auto intro!: undef_or_yields yields_ret)

lemma object_entries_writes:
  "(\<And>m. m \<in> set ms \<Longrightarrow> writes (print_string_ptr mok (itemstring (g m))) (n m) \<and> writes (print_value mok D fmt d (g m)) (h m)) \<Longrightarrow>
     undef_or (object_entries mok D fmt d (map g ms)) (\<lambda>es. es = map (\<lambda>m. (Some (n m), Some (h m))) ms)"
proof (induction ms)
  case (Cons m ms)
  have m: "writes (print_string_ptr mok (itemstring (g m))) (n m)" "writes (print_value mok D fmt d (g m)) (h m)"
    and ms: "undef_or (object_entries mok D fmt d (map g ms)) (\<lambda>es. es = map (\<lambda>m. (Some (n m), Some (h m))) ms)"
    using Cons by auto
  show ?case
    unfolding list.map object_entries.simps
    by (intro undef_or_bind [OF undef_or_try [OF m(1)]] undef_or_bind [OF undef_or_try [OF m(2)]] undef_or_bind [OF ms]
        undef_or_yields [OF yields_ret [OF refl]]) auto
qed (auto intro!: undef_or_yields yields_ret)

lemma print_value_writes:
  assumes "mallocs_succeed mok" "dbl_exact D" "json_ok j"
  shows "writes (print_value mok D fmt d (to_cJSON D k j)) (text_of fmt d j)"
  using assms(3)
proof (induction j arbitrary: k d)
  case (JInt i)
  then show ?case using print_number_yields [OF assms(1,2), of i] int_digits_fit [of i] by (intro undef_or_yields) (auto simp: json_types)
next
  case (JStr s)
  then show ?case using print_string_ptr_writes [OF assms(1), of s] by (simp add: json_types print_string_def)
next
  case (JArr js)
  have "undef_or (array_entries mok D fmt (d + 1) (map (to_cJSON D None) js)) (\<lambda>es. es = map (text_of fmt (d + 1)) js)"
    using JArr by (intro array_entries_writes) auto
  moreover have "writes (fill 3 ''[]'') ''[]''" by (rule undef_or_yields [OF yields_fill]) auto
  ultimately have "writes (print_array mok fmt (js = []) (array_entries mok D fmt (d + 1) (map (to_cJSON D None) js))) (text_of fmt d (JArr js))"
    unfolding print_array_def
    by (cases "js = []") (auto simp: writes_fill intro!: undef_or_after_malloc [OF assms(1)] elim!: undef_or_bind)
  then show ?case by (simp add: json_types)
next
  case (JObj ms)
  let ?n = "\<lambda>(n, j :: json). quoted n" and ?h = "\<lambda>(n :: string, j). text_of fmt (d + 1) j"
    and ?ms = "map (\<lambda>(n, j). (quoted n, text_of fmt (d + 1) j)) ms"
  have "undef_or (object_entries mok D fmt (d + 1) (map (\<lambda>(n, j). to_cJSON D (Some n) j) ms))
      (\<lambda>es. es = map (\<lambda>m. (Some (?n m), Some (?h m))) ms)"
  proof (rule object_entries_writes)
    fix m assume "m \<in> set ms"
    moreover obtain n j where m: "m = (n, j)" by (cases m)
    ultimately have "json_ok j" "(n, j) \<in> set ms" using JObj.prems by auto
    then show "writes (print_string_ptr mok (itemstring ((\<lambda>(n, j). to_cJSON D (Some n) j) m))) (?n m) \<and>
        writes (print_value mok D fmt (d + 1) ((\<lambda>(n, j). to_cJSON D (Some n) j) m)) (?h m)"
      using print_string_ptr_writes [OF assms(1)] JObj.IH [of "(n, j)" j "d + 1" "Some n"] m by simp
  qed
  moreover have "map (\<lambda>m. (?n m, ?h m)) ms = ?ms" by (auto simp: case_prod_beta)
  then have "all_some (map (\<lambda>m. (Some (?n m), Some (?h m))) ms) = Some ?ms" using all_some_map [of ?n ?h ms] by simp
  ultimately have "writes (print_object mok fmt d (ms = []) (object_entries mok D fmt (d + 1) (map (\<lambda>(n, j). to_cJSON D (Some n) j) ms)))
      (text_of fmt d (JObj ms))"
    unfolding print_object_def
    by (cases "ms = []") (auto simp: writes_fill intro!: undef_or_after_malloc [OF assms(1)] elim!: undef_or_bind)
  then show ?case by (simp add: json_types)
qed (use assms(1) in \<open>auto simp: json_types intro!: undef_or_yields yields_strdup\<close>)

lemma text_of_nested:
  "length (text_of fmt (d + k) j) \<le> length (text_of fmt d (((\<lambda>j. JArr [j]) ^^ k) j))"
proof (induction k arbitrary: d)
  case (Suc k)
  then show ?case using Suc [of "d + 1"] by (simp add: compose_array_len)
qed simp

lemma text_of_wide: "0 < n \<Longrightarrow> n * (d + 1) \<le> length (text_of True d (JObj (replicate n m)))"
proof -
  have "n * (d + 1) \<le> length (object_body True (d + 1) (replicate n x))" for x
    by (induction n) (auto simp: compose_member_def split: prod.splits)
  then show "0 < n \<Longrightarrow> ?thesis" by (cases m) (simp add: compose_object_simp le_SucI trans_le_add1)
qed

lemma json_ok_nested: "json_ok j \<Longrightarrow> json_ok (((\<lambda>j. JArr [j]) ^^ k) j)"
  by (induction k) auto

section \<open>Reading strings\<close>

lemma hex_val_digit: "k < 16 \<Longrightarrow> hex_val (hex_digit k) = Some k"
proof -
  assume k: "k < 16"
  then have "(of_char (char_of (48 + k) :: char) :: nat) = 48 + k" "(of_char (char_of (87 + k) :: char) :: nat) = 87 + k"
    by (simp_all add: of_char_of)
  then show ?thesis using k by (auto simp: hex_val_def hex_digit_def)
qed

lemma hex_val_0 [simp]: "hex_val (CHR ''0'') = Some 0"
  by (simp add: hex_val_def)

lemma scan_u_escape:
  assumes "n < 256"
  shows "sscanf_4x (CHR ''0'' # CHR ''0'' # hex_digit (n div 16) # hex_digit (n mod 16) # r) = Some (word_of_nat n)"
proof -
  have four: "(4 :: nat) = Suc (Suc (Suc (Suc 0)))" by simp
  have "n div 16 < 16" using assms by (simp add: less_mult_imp_div_less)
  then have "hex_run 4 0 (CHR ''0'' # CHR ''0'' # hex_digit (n div 16) # hex_digit (n mod 16) # r) = n"
    unfolding four by (simp add: hex_val_digit)
  then show ?thesis by (simp add: sscanf_4x_def is_space_def hex_item_def starts_hex_def)
qed

lemma small_utf8:
  assumes "0 < n" "n < 128"
  shows "utf8 (word_of_nat n) = ([char_of n], word_of_nat n)"
proof -
  have u: "unat (word_of_nat n :: u32) = n" using assms(2) by (simp add: unat_of_nat)
  then have "utf8_len (word_of_nat n) = 1" using assms(2) by (simp add: utf8_len_def word_less_nat_alt)
  then show ?thesis using u by (simp add: utf8_def byte_of_def firstByteMark_def)
qed

lemma escape_u:
  assumes "0 < n" "n < 128"
  shows "unicode_escape uc uc2 (CHR ''0'' # CHR ''0'' # hex_digit (n div 16) # hex_digit (n mod 16) # r) =
    Some ([char_of n], Some (word_of_nat n), uc2, r)"
proof -
  let ?r = "CHR ''0'' # CHR ''0'' # hex_digit (n div 16) # hex_digit (n mod 16) # r"
  have u: "unat (word_of_nat n :: u32) = n" using assms(2) by (simp add: unat_of_nat)
  then have "(word_of_nat n :: u32) \<noteq> 0" using assms(1) by auto
  moreover have "\<not> 0xDC00 \<le> (word_of_nat n :: u32)" "\<not> 0xD800 \<le> (word_of_nat n :: u32)"
    using u assms(2) by (simp_all add: word_le_nat_alt)
  moreover have "sscanf_4x ?r = Some (word_of_nat n)" using assms(2) by (intro scan_u_escape) simp
  ultimately show ?thesis using small_utf8 [OF assms] by (simp add: unicode_escape_def store_def)
qed

lemma parse_chars_escape:
  assumes "c \<noteq> CHR 0x00"
  shows "\<exists>uc'. parse_chars uc uc2 (escape c @ r) = map_option (\<lambda>(out, q). (c # out, q)) (parse_chars uc' uc2 r)"
proof (cases "31 < (of_char c :: nat) \<and> c \<noteq> CHR 0x22 \<and> c \<noteq> CHR 0x5C")
  case True
  then have "escape c = [c]" by (auto simp: escape_def)
  then show ?thesis using True by auto
next
  case esc: False
  show ?thesis
  proof (cases "short_escape c")
    case (Some e)
    then have "escape c = [CHR 0x5C, e]" "unescape e = c" "e \<noteq> CHR ''u''"
      using esc by (auto simp: escape_def short_escape_def unescape_def split: if_splits)
    then show ?thesis by auto
  next
    case None
    define n where "n = (of_char c :: nat)"
    have cn: "char_of n = c" unfolding n_def by (rule char_of_char)
    have "c \<noteq> CHR 0x22" "c \<noteq> CHR 0x5C" using None by (auto simp: short_escape_def split: if_splits)
    then have "n < 128" using esc by (auto simp: n_def)
    moreover have "0 < n"
    proof (rule ccontr)
      assume "\<not> 0 < n"
      then have "(of_char c :: nat) = of_char (CHR 0x00)" by (simp add: n_def)
      then show False using assms by (simp only: of_char_eq_iff)
    qed
    moreover have "escape c @ r = CHR 0x5C # CHR ''u'' # CHR ''0'' # CHR ''0'' # hex_digit (n div 16) # hex_digit (n mod 16) # r"
      using esc None by (auto simp: escape_def u_escape_def n_def Let_def)
    ultimately show ?thesis using escape_u [of n uc uc2 r] cn by auto
  qed
qed

lemma parse_chars_quoted:
  "CHR 0x00 \<notin> set s \<Longrightarrow> parse_chars uc uc2 (concat (map escape s) @ CHR 0x22 # r) = Some (s, CHR 0x22 # r)"
proof (induction s arbitrary: uc)
  case (Cons c s)
  then obtain uc' where "parse_chars uc uc2 (escape c @ concat (map escape s) @ CHR 0x22 # r) =
      map_option (\<lambda>(out, q). (c # out, q)) (parse_chars uc' uc2 (concat (map escape s) @ CHR 0x22 # r))"
    using parse_chars_escape [of c uc uc2 "concat (map escape s) @ CHR 0x22 # r"] by auto
  then show ?case using Cons by simp
qed simp

lemma hex_digit_plain: "k < 16 \<Longrightarrow> hex_digit k \<noteq> CHR 0x22 \<and> hex_digit k \<noteq> CHR 0x5C"
  using hex_val_digit [of k] by (auto simp: hex_val_def)

lemma string_len_escape:
  "\<exists>k. string_len (escape c @ r) = map_option (\<lambda>l. Suc (k + l)) (string_len r)"
proof (cases "31 < (of_char c :: nat) \<and> c \<noteq> CHR 0x22 \<and> c \<noteq> CHR 0x5C")
  case True
  then have "escape c = [c]" by (auto simp: escape_def)
  then show ?thesis using True by (intro exI [of _ 0]) auto
next
  case esc: False
  show ?thesis
  proof (cases "short_escape c")
    case (Some e)
    then have "escape c = [CHR 0x5C, e]" using esc by (auto simp: escape_def)
    then show ?thesis by (intro exI [of _ 0]) auto
  next
    case None
    define n where "n = (of_char c :: nat)"
    have "n < 256" unfolding n_def by (rule nat_of_char_less_256)
    then have "n div 16 < 16" by (simp add: less_mult_imp_div_less)
    then have "hex_digit (n div 16) \<noteq> CHR 0x22 \<and> hex_digit (n div 16) \<noteq> CHR 0x5C"
      "hex_digit (n mod 16) \<noteq> CHR 0x22 \<and> hex_digit (n mod 16) \<noteq> CHR 0x5C" by (simp_all add: hex_digit_plain)
    moreover have "escape c @ r = CHR 0x5C # CHR ''u'' # CHR ''0'' # CHR ''0'' # hex_digit (n div 16) # hex_digit (n mod 16) # r"
      using esc None by (auto simp: escape_def u_escape_def n_def Let_def)
    ultimately show ?thesis by (intro exI [of _ 4]) (cases "string_len r", simp_all)
  qed
qed

lemma string_len_quoted: "\<exists>l \<ge> length s. string_len (concat (map escape s) @ CHR 0x22 # r) = Some l"
proof (induction s)
  case (Cons c s)
  then obtain l where l: "length s \<le> l" "string_len (concat (map escape s) @ CHR 0x22 # r) = Some l" by blast
  obtain k where "string_len (escape c @ concat (map escape s) @ CHR 0x22 # r) =
      map_option (\<lambda>l. Suc (k + l)) (string_len (concat (map escape s) @ CHR 0x22 # r))"
    using string_len_escape by blast
  then show ?case using l by auto
qed simp

lemma parse_string_quoted:
  assumes "mallocs_succeed mok" "CHR 0x00 \<notin> set s"
  shows "yields (parse_string mok (CJSON t v i d k cs) (quoted s @ r)) (CJSON cJSON_String (Some s) i d k cs, r)"
proof -
  obtain l where "length s \<le> l" "string_len (concat (map escape s) @ CHR 0x22 # r) = Some l"
    using string_len_quoted by blast
  then show ?thesis
    using parse_chars_quoted [OF assms(2)] assms(1)
    by (auto simp: parse_string_def quoted_def intro!: yields_malloc yields_bind yields_fill yields_ret)
qed

section \<open>Reading numbers\<close>

definition ends_number :: "string \<Rightarrow> bool" where
  \<comment> \<open>what may follow a number without being read as a part of it\<close>
  "ends_number r \<longleftrightarrow> (case r of c # _ \<Rightarrow> \<not> is_digit c \<and> c \<noteq> CHR ''.'' \<and> c \<noteq> CHR ''e'' \<and> c \<noteq> CHR ''E'' | [] \<Rightarrow> True)"

lemma digit_char:
  assumes "k < 10"
  shows "is_digit (char_of (48 + k))" "digit_val (char_of (48 + k)) = int k" "char_of (48 + k) = CHR ''0'' \<longleftrightarrow> k = 0"
proof -
  have o: "(of_char (char_of (48 + k) :: char) :: nat) = 48 + k" using assms by simp
  then show "is_digit (char_of (48 + k))" "digit_val (char_of (48 + k)) = int k"
    using assms by (simp_all add: is_digit_def digit_val_def)
  have "char_of (48 + k) = CHR ''0'' \<longleftrightarrow> (of_char (char_of (48 + k) :: char) :: nat) = of_char (CHR ''0'')"
    by (simp only: of_char_eq_iff)
  then show "char_of (48 + k) = CHR ''0'' \<longleftrightarrow> k = 0" using o by simp
qed

lemma nat_digits_shape:
  "\<exists>(k :: nat) ds. nat_digits n = char_of (48 + k) # ds \<and> k < 10 \<and> (k = 0 \<longleftrightarrow> n = 0) \<and> (n = 0 \<longrightarrow> ds = []) \<and>
     (\<forall>c \<in> set (nat_digits n). is_digit c)"
proof (induction n rule: nat_digits.induct)
  case (1 n)
  show ?case
  proof (cases "n < 10")
    case True
    then have "nat_digits n = char_of (48 + n) # []" by (subst nat_digits.simps) simp
    then show ?thesis using True digit_char(1) [OF True] by (intro exI [of _ n]) simp
  next
    case False
    from 1 [OF False] obtain k :: nat and ds where "nat_digits (n div 10) = char_of (48 + k) # ds" "k < 10"
      "k = 0 \<longleftrightarrow> n div 10 = 0" "\<forall>c \<in> set (nat_digits (n div 10)). is_digit c" by auto
    moreover have "nat_digits n = nat_digits (n div 10) @ [char_of (48 + n mod 10)]"
      using False by (subst nat_digits.simps) simp
    moreover have "n \<noteq> 0" "n div 10 \<noteq> 0" "is_digit (char_of (48 + n mod 10))"
      using False digit_char(1) [of "n mod 10"] by auto
    ultimately show ?thesis by (intro exI [of _ k]) simp
  qed
qed

lemma int_digits_run:
  "\<forall>c \<in> set ds. is_digit c \<Longrightarrow> ends_number r \<Longrightarrow> int_digits D n (ds @ r) = (foldl (add_digit D) n ds, r)"
  by (induction ds arbitrary: n) (auto simp: ends_number_def split: list.splits)

lemma add_digit_exact:
  assumes "dbl_exact D" "k < 10" "int m * 10 + int k \<le> 2 ^ 53"
  shows "add_digit D (d_of_int D (int m)) (char_of (48 + k)) = d_of_int D (int m * 10 + int k)"
proof -
  have "d_mul D (d_of_int D (int m)) (d_of_int D 10) = d_of_int D (int m * 10)"
    using assms(1,3) unfolding dbl_exact_def by simp
  moreover have "d_add D (d_of_int D (int m * 10)) (d_of_int D (int k)) = d_of_int D (int m * 10 + int k)"
    using assms(1,3) unfolding dbl_exact_def by simp
  ultimately show ?thesis using digit_char(2) [OF assms(2)] by (simp add: add_digit_def)
qed

lemma fold_digits:
  assumes "dbl_exact D" "int n \<le> 2 ^ 53"
  shows "foldl (add_digit D) (d_of_int D 0) (nat_digits n) = d_of_int D (int n)"
  using assms(2)
proof (induction n rule: nat_digits.induct)
  case (1 n)
  show ?case
  proof (cases "n < 10")
    case True
    then show ?thesis using add_digit_exact [OF assms(1) True, of 0] by (subst nat_digits.simps) simp
  next
    case False
    have n: "int (n div 10) * 10 + int (n mod 10) = int n" by (simp add: zmod_int zdiv_int)
    have "foldl (add_digit D) (d_of_int D 0) (nat_digits (n div 10)) = d_of_int D (int (n div 10))"
      using 1 False by simp
    then show ?thesis
      using add_digit_exact [OF assms(1), of "n mod 10" "n div 10"] n 1(2) False by (subst nat_digits.simps) simp
  qed
qed

lemma parse_exp_none: "ends_number r \<Longrightarrow> parse_exp r = (0, 1, r)"
  by (auto simp: parse_exp_def ends_number_def split: list.splits)

lemma parse_number_digits:
  assumes "dbl_exact D" "is_int i" "ends_number r"
  shows "parse_number D (CJSON t v vi vd k cs) (int_digits_of i @ r) = (CJSON cJSON_Number v i (d_of_int D i) k cs, r)"
proof -
  define n where "n = nat \<bar>i\<bar>"
  have n: "int n = \<bar>i\<bar>" "int n \<le> 2 ^ 53" using assms(2) by (auto simp: n_def)
  obtain h :: nat and ds where d: "nat_digits n = char_of (48 + h) # ds" "h < 10" "h = 0 \<longleftrightarrow> n = 0" "n = 0 \<longrightarrow> ds = []"
    "\<forall>c \<in> set (nat_digits n). is_digit c" using nat_digits_shape [of n] by blast
  have run: "int_digits D (d_of_int D 0) (nat_digits n @ r) = (d_of_int D (int n), r)"
    using int_digits_run [OF d(5) assms(3)] fold_digits [OF assms(1) n(2)] by metis
  have frac: "parse_frac D m r = (m, d_of_int D 0, r)" for m
    using assms(3) by (auto simp: parse_frac_def ends_number_def split: list.splits)
  have one: "d_mul D (d_of_int D a) (d_of_int D 1) = d_of_int D a" if "a \<noteq> 0 \<or> 0 \<le> a" "\<bar>a\<bar> \<le> 2 ^ 53" for a
    using assms(1) that unfolding dbl_exact_def by simp
  have pow: "d_pow D (d_of_int D 10) (d_add D (d_of_int D 0) (d_of_int D (c_int (0 * 1)))) = d_of_int D 1"
    using assms(1) unfolding dbl_exact_def by (simp add: c_int_def)
  have toint: "d_to_int D (d_of_int D i) = i" using assms(1,2) unfolding dbl_exact_def by blast
  have core: "parse_int D (nat_digits n @ r) = (d_of_int D (int n), r)"
  proof (cases "n = 0")
    case True
    then have "nat_digits n @ r = CHR ''0'' # r" using d digit_char(3) [OF d(2)] by simp
    moreover have "(case r of c # _ \<Rightarrow> if is_digit c \<and> c \<noteq> CHR ''0'' then int_digits D (d_of_int D 0) r else (d_of_int D 0, r)
                    | [] \<Rightarrow> (d_of_int D 0, r)) = (d_of_int D 0, r)"
      using assms(3) by (auto simp: ends_number_def split: list.splits)
    ultimately show ?thesis using True by (simp add: parse_int_def)
  next
    case False
    then have "char_of (48 + h) \<noteq> CHR ''0''" "is_digit (char_of (48 + h))" using d(2,3) digit_char by blast+
    then show ?thesis using run d(1) by (simp add: parse_int_def)
  qed
  have minus: "char_of (48 + h) \<noteq> CHR ''-''"
  proof
    assume "char_of (48 + h) = CHR ''-''"
    then have "is_digit (CHR ''-'')" using digit_char(1) [OF d(2)] by simp
    then show False by (simp add: is_digit_def)
  qed
  show ?thesis
  proof (cases "i < 0")
    case True
    have "d_mul D (d_of_int D (- 1)) (d_of_int D (int n)) = d_of_int D i"
      using assms(1) n True unfolding dbl_exact_def by simp
    moreover have "int_digits_of i = CHR ''-'' # nat_digits n"
      using True by (simp add: int_digits_of_def n_def)
    moreover have "d_mul D (d_of_int D i) (d_of_int D 1) = d_of_int D i" using one [of i] True n by simp
    ultimately show ?thesis
      using core frac pow toint parse_exp_none [OF assms(3)] by (simp add: parse_number_def parse_sign_def)
  next
    case False
    have "d_mul D (d_of_int D 1) (d_of_int D (int n)) = d_of_int D i"
      using assms(1) n False unfolding dbl_exact_def by simp
    moreover have "int_digits_of i = nat_digits n"
      using False by (simp add: int_digits_of_def n_def)
    moreover have "d_mul D (d_of_int D i) (d_of_int D 1) = d_of_int D i" using one [of i] False n by simp
    moreover have "parse_sign D (nat_digits n @ r) = (d_of_int D 1, nat_digits n @ r)"
      using minus d(1) by (simp add: parse_sign_def)
    ultimately show ?thesis
      using core frac pow toint parse_exp_none [OF assms(3)] by (simp add: parse_number_def)
  qed
qed

section \<open>Reading values\<close>

lemma skip_ws_simps [simp]:
  "skip_ws (replicate n (CHR 0x09) @ r) = skip_ws r"
  "(of_char c :: nat) > 32 \<Longrightarrow> skip_ws (c # r) = c # r"
  by (induction n) auto

definition starts_value :: "string \<Rightarrow> bool" where
  \<comment> \<open>neither white space nor a closing bracket\<close>
  "starts_value t \<longleftrightarrow> (case t of c # _ \<Rightarrow> (of_char c :: nat) > 32 \<and> c \<noteq> CHR '']'' \<and> c \<noteq> CHR ''}'' | [] \<Rightarrow> False)"

lemma starts_value_skip: "starts_value t \<Longrightarrow> skip_ws (t @ r) = t @ r"
  by (auto simp: starts_value_def split: list.splits)

lemma starts_value_at: "starts_value t \<Longrightarrow> \<not> at (CHR '']'') (t @ r) \<and> \<not> at (CHR ''}'') (t @ r)"
  by (auto simp: starts_value_def at_def split: list.splits)

lemma int_digits_of_start: "\<exists>c r. int_digits_of i = c # r \<and> (c = CHR ''-'' \<or> is_digit c)"
proof (cases "i < 0")
  case False
  then show ?thesis using nat_digits_shape [of "nat i"] unfolding int_digits_of_def by fastforce
qed (simp add: int_digits_of_def)

lemma text_of_starts: "starts_value (text_of fmt d j)"
proof (cases j)
  case (JInt i)
  obtain c r where "int_digits_of i = c # r" "c = CHR ''-'' \<or> is_digit c" using int_digits_of_start by blast
  then show ?thesis using JInt by (auto simp: starts_value_def is_digit_def)
next
  case (JArr js)
  then show ?thesis by (cases js) (simp_all add: starts_value_def compose_array_simp)
next
  case (JObj ms)
  then show ?thesis by (cases ms) (simp_all add: starts_value_def compose_object_simp empty_object_def)
qed (simp_all add: starts_value_def quoted_def)

text \<open>\<open>pv\<close> reads \<open>j\<close> from the text \<open>t\<close>, whatever follows.\<close>

definition reads :: "'d dbl \<Rightarrow> 'd reader \<Rightarrow> string \<Rightarrow> json \<Rightarrow> bool" where
  "reads D pv t j \<longleftrightarrow> starts_value t \<and> (\<forall>ty k r. ends_number r \<longrightarrow>
     yields (pv (CJSON ty None 0 (d_of_int D 0) k []) (t @ r)) (to_cJSON D k j, r))"

lemma readsD:
  "reads D pv t j \<Longrightarrow> ends_number r \<Longrightarrow> yields (pv (CJSON ty None 0 (d_of_int D 0) k []) (t @ r)) (to_cJSON D k j, r)"
  by (simp add: reads_def)

definition sep :: "bool \<Rightarrow> string" where "sep fmt = (if fmt then '', '' else '','')"

lemma sep_simps [simp]: "at (CHR '','') (sep fmt @ x)" "skip_ws (tl (sep fmt @ x)) = skip_ws x" "sep fmt @ x \<noteq> []"
  by (simp_all add: sep_def at_def)

lemma ends_number_array: "ends_number (concat (map (\<lambda>x. sep fmt @ t x) js) @ CHR '']'' # r)"
  by (cases js) (simp_all add: ends_number_def is_digit_def sep_def)

lemma skip_ws_array: "skip_ws (concat (map (\<lambda>x. sep fmt @ t x) js) @ CHR '']'' # r) = concat (map (\<lambda>x. sep fmt @ t x) js) @ CHR '']'' # r"
  by (cases js) (simp_all add: sep_def)

lemma array_loop_reads:
  assumes "mallocs_succeed mok" "\<And>j. j \<in> set js \<Longrightarrow> reads D pv (t j) j" "length js < f"
  shows "yields (array_loop f pv mok D item cs (concat (map (\<lambda>x. sep fmt @ t x) js) @ CHR '']'' # r))
    (set_child (cs @ map (to_cJSON D None) js) item, r)"
  using assms(2,3)
proof (induction js arbitrary: f cs)
  case Nil
  then show ?case by (cases f) (auto simp: at_def intro: yields_ret)
next
  case (Cons j js)
  then obtain f' where f: "f = Suc f'" "length js < f'" by (cases f) auto
  let ?r = "concat (map (\<lambda>x. sep fmt @ t x) js) @ CHR '']'' # r"
  have j: "reads D pv (t j) j" using Cons.prems(1) by simp
  then have sk: "skip_ws (t j @ ?r) = t j @ ?r" using starts_value_skip reads_def by blast
  have ih: "yields (array_loop f' pv mok D item (cs @ [to_cJSON D None j]) ?r)
      (set_child ((cs @ [to_cJSON D None j]) @ map (to_cJSON D None) js) item, r)"
    by (rule Cons.IH) (use Cons.prems(1) f(2) in auto)
  have "yields (pv (CJSON 0 None 0 (d_of_int D 0) None []) (t j @ ?r)) (to_cJSON D None j, ?r)"
    using readsD [OF j ends_number_array] .
  then show ?case
    using ih sk assms(1) unfolding f(1)
    by (auto simp: skip_ws_array intro!: yields_bind [OF yields_New_Item] elim!: yields_bind)
qed

lemma parse_array_reads:
  assumes "mallocs_succeed mok" "\<And>j. j \<in> set js \<Longrightarrow> reads D pv (t j) j" "length js \<le> f" "js \<noteq> []"
  shows "yields (parse_array f pv mok D item (compose_array fmt (map t js) @ r))
    (set_child (map (to_cJSON D None) js) (set_type cJSON_Array item), r)"
proof -
  obtain j js' where js: "js = j # js'" using assms(4) by (cases js) auto
  let ?r = "concat (map (\<lambda>x. sep fmt @ t x) js') @ CHR '']'' # r"
  have j: "reads D pv (t j) j" using assms(2) js by simp
  have tx: "compose_array fmt (map t js) @ r = CHR ''['' # t j @ ?r" by (simp add: js compose_array_simp o_def sep_def)
  have sk: "skip_ws (t j @ ?r) = t j @ ?r" "\<not> at (CHR '']'') (t j @ ?r)"
    using j starts_value_skip starts_value_at unfolding reads_def by blast+
  have "yields (pv (CJSON 0 None 0 (d_of_int D 0) None []) (t j @ ?r)) (to_cJSON D None j, ?r)"
    using readsD [OF j ends_number_array] .
  moreover have "yields (array_loop f pv mok D (set_type cJSON_Array item) [to_cJSON D None j] ?r)
      (set_child ([to_cJSON D None j] @ map (to_cJSON D None) js') (set_type cJSON_Array item), r)"
    by (rule array_loop_reads) (use assms(1-3) js in auto)
  ultimately show ?thesis
    using assms(1) sk unfolding tx parse_array_def
    by (auto simp: at_def [of _ "_ # _"] js skip_ws_array intro!: yields_bind [OF yields_New_Item] elim!: yields_bind)
qed

definition newline :: "bool \<Rightarrow> string" where "newline fmt = (if fmt then [CHR 0x0A] else [])"

lemma newline_simps [simp]: "skip_ws (newline fmt @ x) = skip_ws x"
  by (simp add: newline_def)

text \<open>One member: its name, a colon and its value; the reader then looks at what follows.\<close>

lemma parse_member_step:
  assumes "mallocs_succeed mok" "CHR 0x00 \<notin> set n" "reads D pv t j" "ends_number rest"
    and "skip_ws v = skip_ws (compose_member fmt depth (quoted n, t) @ rest)"
    and "yields (let value2 = skip_ws rest; cs2 = cs @ [to_cJSON D (Some n) j]
            in if at (CHR '','') value2 then parse_member f pv mok D item cs2 (tl value2)
               else if at (CHR ''}'') value2 then jret (set_child cs2 item, tl value2)
               else jerr value2) res"
  shows "yields (parse_member (Suc f) pv mok D item cs v) res"
proof -
  define u where "u = (if fmt then [CHR 0x09] else []) @ t @ rest"
  have sv: "skip_ws v = quoted n @ CHR '':'' # u"
    unfolding assms(5) compose_member_def u_def by (simp add: quoted_def)
  have st: "skip_ws u = t @ rest" using assms(3) starts_value_skip by (simp add: reads_def u_def)
  have "yields (parse_string mok (CJSON 0 None 0 (d_of_int D 0) None []) (skip_ws v))
      (CJSON cJSON_String (Some n) 0 (d_of_int D 0) None [], CHR '':'' # u)"
    unfolding sv by (rule parse_string_quoted [OF assms(1,2)])
  moreover have "yields (pv (CJSON cJSON_String None 0 (d_of_int D 0) (Some n) []) (skip_ws u)) (to_cJSON D (Some n) j, rest)"
    unfolding st by (rule readsD [OF assms(3,4)])
  ultimately show ?thesis
    using assms(1,6)
    by (auto simp: at_def [of _ "_ # _"] Let_def intro!: yields_bind [OF yields_New_Item] elim!: yields_bind)
qed

lemma parse_member_reads:
  assumes "mallocs_succeed mok" "\<And>n j. (n, j) \<in> set ms \<Longrightarrow> CHR 0x00 \<notin> set n \<and> reads D pv (t j) j"
    and "length ms \<le> f" "ms \<noteq> []" "ends_number (newline fmt @ close)" "skip_ws close = CHR ''}'' # r"
    and "skip_ws v = skip_ws (object_body fmt depth (map (\<lambda>(n, j). (quoted n, t j)) ms) @ close)"
  shows "yields (parse_member f pv mok D item cs v) (set_child (cs @ map (\<lambda>(n, j). to_cJSON D (Some n) j) ms) item, r)"
  using assms(2-4,7)
proof (induction ms arbitrary: f cs v)
  case (Cons m ms)
  obtain n j where m: "m = (n, j)" by (cases m)
  obtain f' where f: "f = Suc f'" "length ms \<le> f'" using Cons.prems(2) by (cases f) auto
  have nj: "CHR 0x00 \<notin> set n" "reads D pv (t j) j" using Cons.prems(1) m by auto
  let ?body = "object_body fmt depth (map (\<lambda>(n, j). (quoted n, t j)) ms)"
  define rest where "rest = (if ms = [] then [] else '','') @ newline fmt @ ?body @ close"
  have v: "skip_ws v = skip_ws (compose_member fmt depth (quoted n, t j) @ rest)"
    using Cons.prems(4) by (simp add: m rest_def newline_def)
  show ?case
  proof (cases "ms = []")
    case True
    then have "ends_number rest" "skip_ws rest = CHR ''}'' # r" using assms(5,6) by (simp_all add: rest_def)
    then show ?thesis
      unfolding f(1) using True m
      by (intro parse_member_step [OF assms(1) nj _ v]) (auto simp: at_def intro: yields_ret)
  next
    case False
    have rs: "rest = CHR '','' # newline fmt @ ?body @ close" "ends_number rest"
      using False by (simp_all add: rest_def ends_number_def is_digit_def)
    have "yields (parse_member f' pv mok D item (cs @ [to_cJSON D (Some n) j]) (newline fmt @ ?body @ close))
        (set_child ((cs @ [to_cJSON D (Some n) j]) @ map (\<lambda>(n, j). to_cJSON D (Some n) j) ms) item, r)"
      by (rule Cons.IH) (use Cons.prems(1) f(2) False in auto)
    then show ?thesis
      unfolding f(1) using m rs
      by (intro parse_member_step [OF assms(1) nj rs(2) v]) (simp add: at_def)
  qed
qed simp

lemma parse_object_reads:
  assumes "mallocs_succeed mok" "\<And>n j. (n, j) \<in> set ms \<Longrightarrow> CHR 0x00 \<notin> set n \<and> reads D pv (t j) j"
    and "length ms \<le> f" "ms \<noteq> []"
  shows "yields (parse_object f pv mok D item (compose_object fmt depth (map (\<lambda>(n, j). (quoted n, t j)) ms) @ r))
    (set_child (map (\<lambda>(n, j). to_cJSON D (Some n) j) ms) (set_type cJSON_Object item), r)"
proof -
  let ?ms = "map (\<lambda>(n, j). (quoted n, t j)) ms"
  define close where "close = (if fmt then replicate (depth - 1) (CHR 0x09) else []) @ CHR ''}'' # r"
  have tx: "compose_object fmt depth ?ms @ r = CHR ''{'' # newline fmt @ object_body fmt depth ?ms @ close"
    using assms(4) by (simp add: compose_object_simp close_def newline_def)
  obtain n j ms' where ms: "ms = (n, j) # ms'" using assms(4) by (cases ms) auto
  have "\<exists>x. skip_ws (object_body fmt depth ?ms @ close) = CHR 0x22 # x"
    by (simp add: ms compose_member_def quoted_def)
  then obtain x where x: "skip_ws (object_body fmt depth ?ms @ close) = CHR 0x22 # x" ..
  have s: "\<not> at (CHR ''}'') (skip_ws (object_body fmt depth ?ms @ close))"
    "skip_ws (skip_ws (object_body fmt depth ?ms @ close)) = skip_ws (object_body fmt depth ?ms @ close)"
    unfolding x by (simp_all add: at_def)
  have "yields (parse_member f pv mok D (set_type cJSON_Object item) [] (skip_ws (object_body fmt depth ?ms @ close)))
      (set_child ([] @ map (\<lambda>(n, j). to_cJSON D (Some n) j) ms) (set_type cJSON_Object item), r)"
  proof (rule parse_member_reads [OF assms])
    show "ends_number (newline fmt @ close)" by (simp add: ends_number_def newline_def close_def is_digit_def)
    show "skip_ws close = CHR ''}'' # r" by (simp add: close_def)
  qed (assumption | rule s(2))+
  then show ?thesis using s(1) unfolding tx by (simp add: parse_object_def at_def [of _ "_ # _"] Let_def)
qed

lemma parse_value_brackets:
  "parse_value (Suc f) mok D item (CHR ''['' # q) = parse_array f (parse_value f mok D) mok D item (CHR ''['' # q)"
  "parse_value (Suc f) mok D item (CHR ''{'' # q) = parse_object f (parse_value f mok D) mok D item (CHR ''{'' # q)"
  "parse_value (Suc f) mok D item (CHR 0x22 # q) = parse_string mok item (CHR 0x22 # q)"
  by (simp_all add: at_def is_digit_def)

lemma compose_array_longer:
  assumes "es \<noteq> []"
  shows "length es \<le> length (compose_array fmt es)" "e \<in> set es \<Longrightarrow> length e < length (compose_array fmt es)"
    "\<exists>q. compose_array fmt es = CHR ''['' # q"
proof -
  obtain x xs where es: "es = x # xs" using assms by (cases es) auto
  obtain k where "length (sep fmt) = Suc k" by (cases fmt) (auto simp: sep_def)
  then have "length xs \<le> length (concat (map (\<lambda>y. sep fmt @ y) xs))" by (induction xs) auto
  moreover have "length y \<le> length (concat (map (\<lambda>y. sep fmt @ y) xs))" if "y \<in> set xs" for y
    using that by (induction xs) auto
  ultimately show "length es \<le> length (compose_array fmt es)" "e \<in> set es \<Longrightarrow> length e < length (compose_array fmt es)"
    "\<exists>q. compose_array fmt es = CHR ''['' # q"
    unfolding es compose_array_simp sep_def [symmetric] by fastforce+
qed

lemma compose_object_longer:
  assumes "ms \<noteq> []"
  shows "length ms \<le> length (compose_object fmt d ms)" "(n, e) \<in> set ms \<Longrightarrow> length e < length (compose_object fmt d ms)"
    "\<exists>q. compose_object fmt d ms = CHR ''{'' # q"
proof -
  have "length ms \<le> length (object_body fmt d ms)" by (induction ms) (auto simp: compose_member_def)
  moreover have "length e \<le> length (object_body fmt d ms)" if "(n, e) \<in> set ms"
    using that by (induction ms) (auto simp: compose_member_def)
  ultimately show "length ms \<le> length (compose_object fmt d ms)" "(n, e) \<in> set ms \<Longrightarrow> length e < length (compose_object fmt d ms)"
    "\<exists>q. compose_object fmt d ms = CHR ''{'' # q"
    unfolding compose_object_simp [OF assms] by fastforce+
qed

lemma parse_value_number:
  assumes "dbl_exact D" "is_int i" "ends_number r"
  shows "parse_value (Suc f) mok D (CJSON t v vi vd k cs) (int_digits_of i @ r) =
    jret (CJSON cJSON_Number v i (d_of_int D i) k cs, r)"
proof -
  obtain c q where c: "int_digits_of i = c # q" "c = CHR ''-'' \<or> is_digit c" using int_digits_of_start by blast
  then have "c \<noteq> CHR ''n''" "c \<noteq> CHR ''f''" "c \<noteq> CHR ''t''" "c \<noteq> CHR 0x22" by (auto simp: is_digit_def)
  then show ?thesis using c parse_number_digits [OF assms] by (auto simp: at_def)
qed

lemma parse_value_reads:
  assumes "mallocs_succeed mok" "dbl_exact D" "json_ok j" "length (text_of fmt d j) < f"
  shows "reads D (parse_value f mok D) (text_of fmt d j) j"
  using assms(3,4)
proof (induction j arbitrary: d f)
  case JNull
  then show ?case by (cases f) (auto simp: reads_def starts_value_def set_type_def intro: yields_ret)
next
  case JFalse
  then show ?case by (cases f) (auto simp: reads_def starts_value_def set_type_def intro: yields_ret)
next
  case JTrue
  then show ?case by (cases f) (auto simp: reads_def starts_value_def intro: yields_ret)
next
  case (JInt i)
  then obtain f' where "f = Suc f'" by (cases f) auto
  then show ?case
    using parse_value_number [OF assms(2)] JInt.prems text_of_starts [of fmt d "JInt i"]
    by (simp add: reads_def yields_ret)
next
  case (JStr s)
  then obtain f' where f: "f = Suc f'" by (cases f) auto
  have "yields (parse_value f mok D (CJSON ty None 0 (d_of_int D 0) k []) (quoted s @ r)) (to_cJSON D k (JStr s), r)" for ty k r
    using parse_string_quoted [OF assms(1), of s] JStr.prems(1) unfolding f quoted_def append_Cons parse_value_brackets by simp
  then show ?case using text_of_starts [of fmt d "JStr s"] by (simp add: reads_def)
next
  case (JArr js)
  then obtain f' where f: "f = Suc f'" by (cases f) auto
  show ?case
  proof (cases "js = []")
    case True
    then show ?thesis
      unfolding f by (auto simp: reads_def starts_value_def at_def is_digit_def parse_array_def set_type_def intro: yields_ret)
  next
    case False
    let ?t = "text_of fmt (d + 1)"
    note lg = compose_array_longer [where es = "map ?t js" and fmt = fmt]
    have tx: "text_of fmt d (JArr js) = compose_array fmt (map ?t js)" using False by simp
    have "reads D (parse_value f' mok D) (?t j) j" if "j \<in> set js" for j
      using JArr.IH [OF that] JArr.prems that lg(2) [of "?t j"] tx f False by simp
    then have rd: "yields (parse_array f' (parse_value f' mok D) mok D item (compose_array fmt (map ?t js) @ r))
        (set_child (map (to_cJSON D None) js) (set_type cJSON_Array item), r)" for item r
      using parse_array_reads [OF assms(1), of js D "parse_value f' mok D" ?t f'] JArr.prems(2) lg(1) tx f False by simp
    obtain q where "compose_array fmt (map ?t js) = CHR ''['' # q" using lg(3) False by auto
    then have "yields (parse_value f mok D (CJSON ty None 0 (d_of_int D 0) k []) (compose_array fmt (map ?t js) @ r))
        (to_cJSON D k (JArr js), r)" for ty k r
      using rd [of "CJSON ty None 0 (d_of_int D 0) k []" r] unfolding f
      by (simp add: parse_value_brackets set_child_def set_type_def del: parse_value.simps)
    then show ?thesis using text_of_starts [of fmt d "JArr js"] tx by (simp add: reads_def)
  qed
next
  case (JObj ms)
  then obtain f' where f: "f = Suc f'" by (cases f) auto
  show ?case
  proof (cases "ms = []")
    case True
    then show ?thesis
      unfolding f by (auto simp: reads_def starts_value_def empty_object_def at_def is_digit_def parse_object_def set_type_def
          intro: yields_ret)
  next
    case False
    let ?t = "text_of fmt (d + 1)" and ?ms = "map (\<lambda>(n, j). (quoted n, text_of fmt (d + 1) j)) ms"
    note lg = compose_object_longer [where ms = ?ms and fmt = fmt and d = "d + 1"]
    have tx: "text_of fmt d (JObj ms) = compose_object fmt (d + 1) ?ms" using False by simp
    have "CHR 0x00 \<notin> set n \<and> reads D (parse_value f' mok D) (?t j) j" if m: "(n, j) \<in> set ms" for n j
    proof -
      have "(quoted n, ?t j) \<in> set ?ms" using m by force
      then have "length (?t j) < f'" using lg(2) JObj.prems(2) tx f False by fastforce
      then show ?thesis using JObj.IH [of "(n, j)" j] JObj.prems(1) m by auto
    qed
    then have rd: "yields (parse_object f' (parse_value f' mok D) mok D item (compose_object fmt (d + 1) ?ms @ r))
        (set_child (map (\<lambda>(n, j). to_cJSON D (Some n) j) ms) (set_type cJSON_Object item), r)" for item r
      using parse_object_reads [OF assms(1), of ms D "parse_value f' mok D" ?t f'] JObj.prems(2) lg(1) tx f False by simp
    obtain q where "compose_object fmt (d + 1) ?ms = CHR ''{'' # q" using lg(3) False by auto
    then have "yields (parse_value f mok D (CJSON ty None 0 (d_of_int D 0) k []) (compose_object fmt (d + 1) ?ms @ r))
        (to_cJSON D k (JObj ms), r)" for ty k r
      using rd [of "CJSON ty None 0 (d_of_int D 0) k []" r] unfolding f
      by (simp add: parse_value_brackets set_child_def set_type_def del: parse_value.simps)
    then show ?thesis using text_of_starts [of fmt d "JObj ms"] tx by (simp add: reads_def)
  qed
qed

section \<open>What a run can end in\<close>

text \<open>
  \<open>ensures u f m P\<close>: a value that \<open>m\<close> returns satisfies \<open>P\<close>; \<open>m\<close> leaves a buffer only if \<open>u\<close> and exhausts the
  bound on its loops only if \<open>f\<close>.
\<close>

definition ensures :: "bool \<Rightarrow> bool \<Rightarrow> 'a jm \<Rightarrow> ('a \<Rightarrow> bool) \<Rightarrow> bool" where
  "ensures u f m P \<longleftrightarrow> (\<forall>s. case fst (m s) of Ret x \<Rightarrow> P x | Fail \<Rightarrow> True | Undef \<Rightarrow> u | Fuel \<Rightarrow> f)"

named_theorems ensures_intros \<open>runs, composed\<close>

lemma ensures_basic [ensures_intros]:
  "P x \<Longrightarrow> ensures u f (jret x) P" "ensures u f jfail P" "ensures u f (jerr p) P" "u \<Longrightarrow> ensures u f jundef P"
  "u \<or> length out + 1 \<le> cap \<Longrightarrow> R out \<Longrightarrow> ensures u f (fill cap out) R" "Q () \<Longrightarrow> ensures u f (cJSON_malloc mok) Q"
  by (auto simp: ensures_def jret_def jfail_def jerr_def jundef_def fill_def cJSON_malloc_def)

lemma ensures_bind:
  assumes "ensures u f m P" "\<And>x. P x \<Longrightarrow> ensures u f (g x) Q"
  shows "ensures u f (jbind m g) Q"
proof -
  have "case fst (jbind m g s) of Ret x \<Rightarrow> Q x | Fail \<Rightarrow> True | Undef \<Rightarrow> u | Fuel \<Rightarrow> f" for s
  proof -
    obtain r s' where r: "m s = (r, s')" by fastforce
    then have p: "case r of Ret x \<Rightarrow> P x | Fail \<Rightarrow> True | Undef \<Rightarrow> u | Fuel \<Rightarrow> f"
      using assms(1) unfolding ensures_def by (metis fst_conv)
    show ?thesis
    proof (cases r)
      case (Ret x)
      then have "case fst (g x s') of Ret x \<Rightarrow> Q x | Fail \<Rightarrow> True | Undef \<Rightarrow> u | Fuel \<Rightarrow> f"
        using assms(2) [of x] p unfolding ensures_def by simp
      then show ?thesis using r Ret by (simp add: jbind_def)
    qed (use r p in \<open>simp_all add: jbind_def\<close>)
  qed
  then show ?thesis by (simp add: ensures_def)
qed

lemma ensures_try: "ensures u f m P \<Longrightarrow> ensures u f (jtry m) (\<lambda>x. \<forall>y. x = Some y \<longrightarrow> P y)"
proof -
  assume m: "ensures u f m P"
  have "case fst (jtry m s) of Ret x \<Rightarrow> \<forall>y. x = Some y \<longrightarrow> P y | Fail \<Rightarrow> True | Undef \<Rightarrow> u | Fuel \<Rightarrow> f" for s
  proof -
    obtain r s' where r: "m s = (r, s')" by fastforce
    then have "case r of Ret x \<Rightarrow> P x | Fail \<Rightarrow> True | Undef \<Rightarrow> u | Fuel \<Rightarrow> f"
      using m unfolding ensures_def by (metis fst_conv)
    then show ?thesis using r by (cases r) (simp_all add: jtry_def)
  qed
  then show ?thesis by (simp add: ensures_def)
qed

lemma ensures_mono: "ensures u f m P \<Longrightarrow> (\<And>x. P x \<Longrightarrow> Q x) \<Longrightarrow> ensures u f m Q"
  unfolding ensures_def by (auto split: jout.splits)

lemma ensures_not_undef: "ensures False f m P \<Longrightarrow> fst (m s) \<noteq> Undef"
  unfolding ensures_def by (drule spec [of _ s]) auto

lemma ensures_not_fuel: "ensures u False m P \<Longrightarrow> fst (m s) \<noteq> Fuel"
  unfolding ensures_def by (drule spec [of _ s]) auto

lemma ensures_after_malloc: "ensures u f m P \<Longrightarrow> ensures u f (jbind (cJSON_malloc mok) (\<lambda>_. m)) P"
  by (rule ensures_bind [where P = "\<lambda>_. True"]) (auto intro: ensures_intros)

section \<open>The writer stays in its buffers\<close>

fun cj_ok :: "'d cJSON \<Rightarrow> bool" where
  \<comment> \<open>the members hold values of their C types\<close>
  "cj_ok (CJSON t vs vi vd k cs) \<longleftrightarrow> is_int vi \<and> (\<forall>s. vs = Some s \<longrightarrow> CHR 0x00 \<notin> set s) \<and>
     (\<forall>s. k = Some s \<longrightarrow> CHR 0x00 \<notin> set s) \<and> (\<forall>c \<in> set cs. cj_ok c)"

text \<open>What \<open>sprintf\<close> writes in the ranges in which \<open>print_number\<close> uses each format.\<close>

definition dbl_formats :: "'d dbl \<Rightarrow> bool" where
  "dbl_formats D \<longleftrightarrow>
     (\<forall>d. d_lt D (d_fabs D d) (d_1e60 D) \<longrightarrow> length (d_format D ''%.0f'' d) \<le> 63) \<and>
     (\<forall>d. length (d_format D ''%e'' d) \<le> 63) \<and>
     (\<forall>d. \<not> d_lt D (d_1e9 D) (d_fabs D d) \<longrightarrow> length (d_format D ''%f'' d) \<le> 63)"

text \<open>
  \<open>print_bytes fmt d c\<close> bounds the bytes of the text of an item with its terminator and of every buffer the writer
  asks for on the way: a number or a constant 64, each entry of an array 2 or 3 and its own, each member of
  a formatted object also the tabulators of its line.
\<close>

definition name_bytes :: "string option \<Rightarrow> nat" where
  "name_bytes str = (case str of None \<Rightarrow> 1 | Some s \<Rightarrow> string_bytes s + 3)"

fun print_bytes :: "bool \<Rightarrow> nat \<Rightarrow> 'd cJSON \<Rightarrow> nat" where
  "print_bytes fmt d (CJSON t vs vi vd k cs) =
     (if t AND 255 = cJSON_String then name_bytes vs
      else if t AND 255 = cJSON_Array
      then 5 + sum_list (map (\<lambda>c. print_bytes fmt (d + 1) c + 2 + (if fmt then 1 else 0)) cs)
      else if t AND 255 = cJSON_Object
      then 7 + (if fmt then d + 1 else 0) +
        sum_list (map (\<lambda>c. print_bytes fmt (d + 1) c + name_bytes (itemstring c) + 2 + (if fmt then 2 + (d + 1) else 0)) cs)
      else 64)"

lemma strdup_bounds: "ensures False False (cJSON_strdup mok s) (\<lambda>e. e = s)"
  unfolding cJSON_strdup_def by (intro ensures_after_malloc ensures_basic(5)) auto

lemma print_string_bounds:
  assumes "\<forall>s. str = Some s \<longrightarrow> CHR 0x00 \<notin> set s" "name_bytes str < 2 ^ 31"
  shows "ensures False False (print_string_ptr mok str) (\<lambda>e. length e < name_bytes str)"
proof (cases str)
  case (Some s)
  then have "length (quoted s) + 1 = string_bytes s + 3" "size_arg (c_int (printed_len 0 s + 3)) = string_bytes s + 3"
    using assms quoted_len [of s] string_size_bytes [of s] by (auto simp: name_bytes_def)
  then show ?thesis
    unfolding print_string_ptr_def Some option.case quoted_def
    by (intro ensures_after_malloc ensures_basic(5)) (auto simp: name_bytes_def)
qed (auto simp: print_string_ptr_def name_bytes_def intro: ensures_mono [OF strdup_bounds])

lemma print_number_bounds:
  assumes "is_int (valueint c)" "dbl_formats D"
  shows "ensures False False (print_number mok D c) (\<lambda>e. length e < 64)"
proof -
  have *: "ensures False False (fill 64 e) (\<lambda>e. length e < 64)" if "length e \<le> 63" for e
    using that by (intro ensures_basic(5)) auto
  have "ensures False False (fill 21 (int_digits_of (valueint c))) (\<lambda>e. length e < 64)"
    using int_digits_fit [OF assms(1)] by (intro ensures_basic(5)) auto
  then show ?thesis
    using assms(2) unfolding print_number_def Let_def dbl_formats_def by (auto intro!: ensures_after_malloc *)
qed

lemma array_entries_bounds:
  "(\<And>c. c \<in> set cs \<Longrightarrow> ensures False False (print_value mok D fmt d c) (\<lambda>e. length e < g c)) \<Longrightarrow>
     ensures False False (array_entries mok D fmt d cs) (\<lambda>es. list_all2 (\<lambda>e c. length e < g c) es cs)"
proof (induction cs)
  case (Cons c cs)
  have c: "ensures False False (print_value mok D fmt d c) (\<lambda>e. length e < g c)"
    and cs: "ensures False False (array_entries mok D fmt d cs) (\<lambda>es. list_all2 (\<lambda>e c. length e < g c) es cs)"
    using Cons by auto
  show ?case
    unfolding array_entries.simps by (intro ensures_bind [OF c] ensures_bind [OF cs] ensures_basic(1)) simp
qed (simp add: ensures_intros)

abbreviation member_bound :: "('d cJSON \<Rightarrow> nat) \<Rightarrow> string option \<times> string option \<Rightarrow> 'd cJSON \<Rightarrow> bool" where
  "member_bound g \<equiv> \<lambda>(n, e) c. (\<forall>x. n = Some x \<longrightarrow> length x < name_bytes (itemstring c)) \<and> (\<forall>x. e = Some x \<longrightarrow> length x < g c)"

lemma object_entries_bounds:
  "(\<And>c. c \<in> set cs \<Longrightarrow> ensures False False (print_string_ptr mok (itemstring c)) (\<lambda>e. length e < name_bytes (itemstring c)) \<and>
      ensures False False (print_value mok D fmt d c) (\<lambda>e. length e < g c)) \<Longrightarrow>
     ensures False False (object_entries mok D fmt d cs) (\<lambda>es. list_all2 (member_bound g) es cs)"
proof (induction cs)
  case (Cons c cs)
  have c: "ensures False False (print_string_ptr mok (itemstring c)) (\<lambda>e. length e < name_bytes (itemstring c))"
      "ensures False False (print_value mok D fmt d c) (\<lambda>e. length e < g c)"
    and cs: "ensures False False (object_entries mok D fmt d cs) (\<lambda>es. list_all2 (member_bound g) es cs)"
    using Cons by auto
  show ?case
    unfolding object_entries.simps
    by (intro ensures_bind [OF ensures_try [OF c(1)]] ensures_bind [OF ensures_try [OF c(2)]] ensures_bind [OF cs] ensures_basic(1)) simp
qed (simp add: ensures_intros)

lemma array_bytes_bound:
  "list_all2 (\<lambda>e c. length e < g c) es cs \<Longrightarrow>
     array_bytes fmt es \<le> 5 + sum_list (map (\<lambda>c. g c + 2 + (if fmt then 1 else 0)) cs)"
  unfolding array_bytes_def by (induction rule: list_all2_induct) auto

lemma object_bytes_bound:
  assumes "list_all2 (member_bound g) es cs" "all_some es = Some ms"
  shows "length ms = length cs" "object_bytes fmt depth ms \<le> 7 + (if fmt then depth else 0) +
    sum_list (map (\<lambda>c. g c + name_bytes (itemstring c) + 2 + (if fmt then 2 + depth else 0)) cs)"
proof -
  have "length ms = length cs \<and> sum_list (map (\<lambda>(name, e). length e + length name + 2 + (if fmt then 2 + depth else 0)) ms) \<le>
      sum_list (map (\<lambda>c. g c + name_bytes (itemstring c) + 2 + (if fmt then 2 + depth else 0)) cs)"
    using assms
  proof (induction arbitrary: ms rule: list_all2_induct)
    case (Cons x xs y ys)
    then obtain n e ms' where "x = (Some n, Some e)" "all_some xs = Some ms'" "ms = (n, e) # ms'"
      by (cases x; cases "fst x"; cases "snd x") auto
    then show ?case using Cons.IH [of ms'] Cons.hyps(1) by auto
  qed simp
  then show "length ms = length cs" "object_bytes fmt depth ms \<le> 7 + (if fmt then depth else 0) +
    sum_list (map (\<lambda>c. g c + name_bytes (itemstring c) + 2 + (if fmt then 2 + depth else 0)) cs)"
    by (auto simp: object_bytes_def)
qed

lemma fill_array_bounds:
  assumes "es \<noteq> []" "array_bytes fmt es \<le> b" "b < 2 ^ 31"
  shows "ensures False False (fill (size_arg (array_size fmt es)) (compose_array fmt es)) (\<lambda>e. length e < b)"
  using compose_array_fits(1) [OF assms(1), of fmt] array_size_bytes [of fmt es] assms by (intro ensures_basic(5)) auto

lemma fill_object_bounds:
  assumes "ms \<noteq> []" "object_bytes fmt d ms \<le> b" "b < 2 ^ 31"
  shows "ensures False False (fill (size_arg (object_size fmt d ms)) (compose_object fmt d ms)) (\<lambda>e. length e < b)"
  using compose_object_fits(1) [OF assms(1), of fmt d] object_size_bytes [of fmt d ms] assms by (intro ensures_basic(5)) auto

lemma fill_empty_object_bounds:
  assumes "\<not> (fmt \<and> d = 0)" "d + 8 < 2 ^ 31"
  shows "ensures False False (fill (size_arg (if fmt then c_int (int d + 3) else 3)) (empty_object fmt d))
    (\<lambda>e. length e < 7 + (if fmt then d + 1 else 0))"
  using assms c_int_nat [of "d + 3"] size_arg_small [of "d + 3"] size_arg_small [of 3]
  by (intro ensures_basic(5)) (auto simp: empty_object_def)

lemma sum_member: "x \<in> set xs \<Longrightarrow> (f x :: nat) \<le> sum_list (map f xs)"
  by (rule member_le_sum_list) auto

lemma print_array_bounds:
  assumes "\<And>c. c \<in> set cs \<Longrightarrow> ensures False False (print_value mok D fmt d c) (\<lambda>e. length e < g c)"
    "b = 5 + sum_list (map (\<lambda>c. g c + 2 + (if fmt then 1 else 0)) cs)" "b < 2 ^ 31"
  shows "ensures False False (print_array mok fmt (cs = []) (array_entries mok D fmt d cs)) (\<lambda>e. length e < b)"
proof (cases "cs = []")
  case False
  have "ensures False False (fill (size_arg (array_size fmt es)) (compose_array fmt es)) (\<lambda>e. length e < b)"
    if "list_all2 (\<lambda>e c. length e < g c) es cs" for es
    using fill_array_bounds [of es fmt b] array_bytes_bound [OF that, of fmt] that False assms(2,3) by fastforce
  then show ?thesis
    unfolding print_array_def using False by (auto intro!: ensures_after_malloc ensures_bind [OF array_entries_bounds [OF assms(1)]])
qed (auto simp: print_array_def assms(2) intro!: ensures_after_malloc ensures_basic(5))

lemma print_object_bounds:
  assumes "\<And>c. c \<in> set cs \<Longrightarrow> ensures False False (print_string_ptr mok (itemstring c)) (\<lambda>e. length e < name_bytes (itemstring c)) \<and>
      ensures False False (print_value mok D fmt (d + 1) c) (\<lambda>e. length e < g c)"
    "b = 7 + (if fmt then d + 1 else 0) +
      sum_list (map (\<lambda>c. g c + name_bytes (itemstring c) + 2 + (if fmt then 2 + (d + 1) else 0)) cs)" "b < 2 ^ 31"
    "\<not> (fmt \<and> d = 0 \<and> cs = [])"
  shows "ensures False False (print_object mok fmt d (cs = []) (object_entries mok D fmt (d + 1) cs)) (\<lambda>e. length e < b)"
proof (cases "cs = []")
  case False
  have m: "ensures False False (object_entries mok D fmt (d + 1) cs) (\<lambda>es. list_all2 (member_bound g) es cs)"
    by (rule object_entries_bounds) (rule assms(1))
  have "ensures False False (case all_some es of None \<Rightarrow> jfail | Some ms \<Rightarrow> jbind (cJSON_malloc mok) (\<lambda>_.
      fill (size_arg (object_size fmt (d + 1) ms)) (compose_object fmt (d + 1) ms))) (\<lambda>e. length e < b)"
    if es: "list_all2 (member_bound g) es cs" for es
  proof (cases "all_some es")
    case (Some ms)
    have "ms \<noteq> []" using object_bytes_bound(1) [OF es Some] False by auto
    then show ?thesis
      using fill_object_bounds [of ms fmt "d + 1" b] object_bytes_bound(2) [OF es Some, of fmt "d + 1"] Some assms(2,3)
      by (auto intro!: ensures_after_malloc)
  qed (simp add: ensures_intros)
  then have "ensures False False (jbind (object_entries mok D fmt (d + 1) cs) (\<lambda>es. case all_some es of None \<Rightarrow> jfail
      | Some ms \<Rightarrow> jbind (cJSON_malloc mok) (\<lambda>_. fill (size_arg (object_size fmt (d + 1) ms)) (compose_object fmt (d + 1) ms))))
      (\<lambda>e. length e < b)"
    by (rule ensures_bind [OF m])
  then show ?thesis unfolding print_object_def using False by (simp add: ensures_after_malloc)
next
  case True
  have "ensures False False (fill (size_arg (if fmt then c_int (int d + 3) else 3)) (empty_object fmt d)) (\<lambda>e. length e < b)"
    using fill_empty_object_bounds [of fmt d] assms(2,3,4) True by (cases fmt) (auto simp: empty_object_def size_arg_def intro!: ensures_basic(5))
  then show ?thesis unfolding print_object_def using True by (simp add: ensures_after_malloc)
qed

lemma print_value_bounds:
  assumes "cj_ok c" "dbl_formats D" "\<not> (fmt \<and> d = 0 \<and> type c AND 255 = cJSON_Object \<and> child c = [])" "print_bytes fmt d c < 2 ^ 31"
  shows "ensures False False (print_value mok D fmt d c) (\<lambda>e. length e < print_bytes fmt d c)"
  using assms(1,3,4)
proof (induction c arbitrary: d)
  case (CJSON t vs vi vd k cs)
  let ?g = "print_bytes fmt (d + 1)" and ?b = "print_bytes fmt d (CJSON t vs vi vd k cs)"
  have kid: "ensures False False (print_value mok D fmt (d + 1) c) (\<lambda>e. length e < ?g c)" if "c \<in> set cs" "?g c \<le> ?b" for c
    using CJSON.IH [of c "d + 1"] CJSON.prems that by simp
  have name: "ensures False False (print_string_ptr mok (itemstring c)) (\<lambda>e. length e < name_bytes (itemstring c))"
    if "c \<in> set cs" "name_bytes (itemstring c) \<le> ?b" for c
    using print_string_bounds [of "itemstring c"] CJSON.prems(1,3) that by (cases c) auto
  have arr: "ensures False False (print_array mok fmt (cs = []) (array_entries mok D fmt (d + 1) cs)) (\<lambda>e. length e < ?b)"
    if t: "t AND 255 = cJSON_Array"
  proof (rule print_array_bounds [where g = ?g])
    show "?b = 5 + sum_list (map (\<lambda>c. ?g c + 2 + (if fmt then 1 else 0)) cs)" using t by (simp add: json_types)
    then show "ensures False False (print_value mok D fmt (d + 1) c) (\<lambda>e. length e < ?g c)" if "c \<in> set cs" for c
      using kid [OF that] sum_member [OF that, of "\<lambda>c. ?g c + 2 + (if fmt then 1 else 0)"] by linarith
  qed (use CJSON.prems(3) in simp)
  have obj: "ensures False False (print_object mok fmt d (cs = []) (object_entries mok D fmt (d + 1) cs)) (\<lambda>e. length e < ?b)"
    if t: "t AND 255 = cJSON_Object"
  proof (rule print_object_bounds [where g = ?g])
    let ?f = "\<lambda>c. ?g c + name_bytes (itemstring c) + 2 + (if fmt then 2 + (d + 1) else 0)"
    show b: "?b = 7 + (if fmt then d + 1 else 0) + sum_list (map ?f cs)" using t by (simp add: json_types)
    show "ensures False False (print_string_ptr mok (itemstring c)) (\<lambda>e. length e < name_bytes (itemstring c)) \<and>
        ensures False False (print_value mok D fmt (d + 1) c) (\<lambda>e. length e < ?g c)" if "c \<in> set cs" for c
      using kid [OF that] name [OF that] sum_member [OF that, of ?f] b by linarith
  qed (use CJSON.prems(2,3) t in auto)
  have num: "ensures False False (print_number mok D (CJSON t vs vi vd k cs)) (\<lambda>e. length e < 64)"
    using CJSON.prems(1) print_number_bounds [OF _ assms(2)] by simp
  have str: "ensures False False (print_string mok (CJSON t vs vi vd k cs)) (\<lambda>e. length e < ?b)" if "t AND 255 = cJSON_String"
    using CJSON.prems(1,3) that print_string_bounds [of vs] by (simp add: print_string_def)
  have const: "ensures False False (cJSON_strdup mok w) (\<lambda>e. length e < 64)" if "length w < 64" for w
    using that by (auto intro: ensures_mono [OF strdup_bounds])
  consider "t AND 255 \<in> {cJSON_NULL, cJSON_False, cJSON_True}" | "t AND 255 = cJSON_Number"
    | "t AND 255 = cJSON_String" | "t AND 255 = cJSON_Array" | "t AND 255 = cJSON_Object"
    | "t AND 255 \<notin> {cJSON_NULL, cJSON_False, cJSON_True, cJSON_Number, cJSON_String, cJSON_Array, cJSON_Object}" by auto
  then show ?case
  proof cases
    case 1
    then have "?b = 64" by (auto simp: json_types)
    then show ?thesis using 1 const by (auto simp: json_types simp del: print_bytes.simps)
  next
    case 2
    then have "?b = 64" by (auto simp: json_types)
    then show ?thesis using 2 num by (simp add: json_types del: print_bytes.simps)
  qed (use str arr obj in \<open>auto simp: json_types intro: ensures_basic(2) simp del: print_bytes.simps\<close>)
qed

section \<open>The reader comes to an end\<close>

abbreviation shorter :: "nat \<Rightarrow> 'a \<times> string \<Rightarrow> bool" where
  "shorter n \<equiv> \<lambda>(_, q). length q \<le> n"

lemma skip_ws_shorter: "length (skip_ws v) \<le> length v"
  by (induction v) auto

lemma parse_chars_shorter: "parse_chars uc uc2 v = Some (out, q) \<Longrightarrow> length q \<le> length v"
proof (induction uc uc2 v arbitrary: out q rule: parse_chars.induct)
  case (2 uc uc2 c cs)
  show ?case
  proof (cases "c = CHR 0x22 \<or> c \<noteq> CHR 0x5C")
    case True
    then show ?thesis using 2 by (fastforce split: if_splits)
  next
    case False
    then obtain e r where cs: "cs = e # r" using "2.prems" by (cases cs) auto
    show ?thesis
    proof (cases "e = CHR ''u''")
      case True
      then show ?thesis
        using "2.prems" "2.IH"(2) False cs by (fastforce split: option.splits dest!: unicode_escape_shorter)
    next
      case no: False
      then show ?thesis using "2.prems" "2.IH"(3) False cs by fastforce
    qed
  qed
qed simp

lemma parse_string_ends: "ensures True False (parse_string mok item v) (shorter (length v))"
proof (cases v)
  case (Cons c ptr)
  have "ensures True False (case parse_chars None None ptr of
      None \<Rightarrow> jundef
    | Some (out, q) \<Rightarrow> jbind (fill (len + 1) out) (\<lambda>out.
        jret (CJSON cJSON_String (Some out) (valueint item) (valuedouble item) (itemstring item) (child item),
              case q of b # q' \<Rightarrow> if b = CHR 0x22 then q' else q | [] \<Rightarrow> q))) (shorter (length v))" for len
    using parse_chars_shorter [of None None ptr] Cons
    by (fastforce intro!: ensures_bind [where P = "\<lambda>_. True"] ensures_intros split: option.splits list.splits)
  then show ?thesis
    unfolding parse_string_def Cons by (auto intro!: ensures_after_malloc ensures_intros split: option.splits)
qed (simp add: parse_string_def ensures_intros)

lemma digits_shorter:
  "length (snd (int_digits D n v)) \<le> length v" "length (snd (snd (frac_digits D n z v))) \<le> length v"
  "length (snd (exp_digits e v)) \<le> length v"
proof -
  show "length (snd (int_digits D n v)) \<le> length v" by (induction v arbitrary: n) (auto intro: le_SucI)
  show "length (snd (snd (frac_digits D n z v))) \<le> length v" by (induction v arbitrary: n z) (auto intro: le_SucI)
  show "length (snd (exp_digits e v)) \<le> length v" by (induction v arbitrary: e) (auto intro: le_SucI)
qed

lemma parse_exp_shorter: "length (snd (snd (parse_exp v))) \<le> length v"
  using digits_shorter(3) [of 0 "tl v"] digits_shorter(3) [of 0 "tl (tl v)"]
  by (auto simp: parse_exp_def split: list.splits prod.splits)

lemma parse_number_shorter: "length (snd (parse_number D item v)) \<le> length v"
proof -
  have 1: "length (snd (parse_sign D w)) \<le> length w" for w by (auto simp: parse_sign_def split: list.splits)
  have 2: "length (snd (parse_int D w)) \<le> length w" for w
  proof -
    define z where "z = (case w of c # r \<Rightarrow> if c = CHR ''0'' then r else w | [] \<Rightarrow> w)"
    have "length (snd (parse_int D w)) \<le> length z"
      unfolding parse_int_def Let_def z_def [symmetric]
      using digits_shorter(1) [of D "d_of_int D 0" z] by (auto simp del: int_digits.simps split: list.splits)
    moreover have "length z \<le> length w" by (auto simp: z_def split: list.splits)
    ultimately show ?thesis by (rule le_trans)
  qed
  have 3: "length (snd (snd (parse_frac D n w))) \<le> length w" for n w
    using digits_shorter(2) [of D n "d_of_int D 0" "tl w"] by (auto simp: parse_frac_def split: list.splits)
  show ?thesis
    unfolding parse_number_def by (simp add: case_prod_beta Let_def) (meson 1 2 3 parse_exp_shorter le_trans)
qed

text \<open>A reader that ends on every text up to the length \<open>n\<close>, and does not go back in it.\<close>

definition reader_ends :: "'d reader \<Rightarrow> nat \<Rightarrow> bool" where
  "reader_ends pv n \<longleftrightarrow> (\<forall>item v. length v \<le> n \<longrightarrow> ensures True False (pv item v) (shorter (length v)))"

lemma reader_endsD:
  "reader_ends pv n \<Longrightarrow> length v \<le> n \<Longrightarrow> length v \<le> k \<Longrightarrow> ensures True False (pv item v) (shorter k)"
  unfolding reader_ends_def by (rule ensures_mono [of True False "pv item v" "shorter (length v)"]) auto

lemma ensures_New_Item: "ensures u f (cJSON_New_Item mok D) (\<lambda>_. True)"
  unfolding cJSON_New_Item_def by (intro ensures_after_malloc ensures_intros) simp

lemma at_length: "at c v \<Longrightarrow> length (skip_ws (tl v)) < length v \<and> length (tl v) < length v"
  using skip_ws_shorter [of "tl v"] by (cases v) (auto simp: at_def)

lemma array_loop_ends:
  assumes "reader_ends pv n"
  shows "length v \<le> n \<Longrightarrow> length v < f \<Longrightarrow> length v \<le> k \<Longrightarrow> ensures True False (array_loop f pv mok D item cs v) (shorter k)"
proof (induction f arbitrary: v cs)
  case (Suc f)
  show ?case
  proof (cases "at (CHR '','') v")
    case True
    note l = at_length [OF True]
    have "ensures True False (array_loop f pv mok D item (cs @ [c]) (skip_ws q)) (shorter k)" if "length q < length v" for c q
      using that Suc.prems skip_ws_shorter [of q] by (intro Suc.IH) linarith+
    then have "ensures True False (jbind (pv i (skip_ws (tl v))) (\<lambda>(c, q). array_loop f pv mok D item (cs @ [c]) (skip_ws q))) (shorter k)" for i
      using l Suc.prems by (intro ensures_bind [OF reader_endsD [OF assms, of _ "length (skip_ws (tl v))"]]) auto
    then show ?thesis using True by (auto intro: ensures_bind [OF ensures_New_Item])
  next
    case False
    then show ?thesis using Suc.prems by (auto intro!: ensures_intros)
  qed
qed simp

lemma parse_array_ends:
  assumes "reader_ends pv n" "length v \<le> Suc n" "length v \<le> f"
  shows "ensures True False (parse_array f pv mok D item v) (shorter (length v))"
proof (cases "at (CHR ''['') v")
  case True
  let ?v = "skip_ws (tl v)"
  have l: "length ?v < length v" using at_length [OF True] by simp
  have "ensures True False (array_loop f pv mok D i [c] (skip_ws q)) (shorter (length v))" if "length q < length v" for i c q
    using that assms(2,3) skip_ws_shorter [of q] by (intro array_loop_ends [OF assms(1)]) linarith+
  then have "ensures True False (jbind (pv i (skip_ws ?v)) (\<lambda>(c, q). array_loop f pv mok D j [c] (skip_ws q))) (shorter (length v))" for i j
    using l assms(2) skip_ws_shorter [of ?v]
    by (intro ensures_bind [OF reader_endsD [OF assms(1), of _ "length ?v"]]) auto
  then show ?thesis
    using True l unfolding parse_array_def Let_def
    by (auto intro!: ensures_intros ensures_bind [OF ensures_New_Item])
qed (simp add: parse_array_def ensures_intros)

lemma parse_member_ends:
  assumes "reader_ends pv n"
  shows "length v \<le> n \<Longrightarrow> length v < f \<Longrightarrow> length v \<le> k \<Longrightarrow> ensures True False (parse_member f pv mok D item cs v) (shorter k)"
proof (induction f arbitrary: v cs)
  case (Suc f)
  have rest: "ensures True False (let value2 = skip_ws q2; cs2 = cs @ [c2]
       in if at (CHR '','') value2 then parse_member f pv mok D item cs2 (tl value2)
          else if at (CHR ''}'') value2 then jret (set_child cs2 item, tl value2) else jerr value2) (shorter k)"
    if q: "length q2 \<le> length v" for q2 c2
  proof -
    have "ensures True False (parse_member f pv mok D item (cs @ [c2]) (tl (skip_ws q2))) (shorter k)"
      if "at (CHR '','') (skip_ws q2)"
      using at_length [OF that] skip_ws_shorter [of q2] q Suc.prems by (intro Suc.IH) linarith+
    moreover have "length (tl (skip_ws q2)) \<le> k" using skip_ws_shorter [of q2] q Suc.prems(3) by simp
    ultimately show ?thesis by (auto simp: Let_def intro!: ensures_intros)
  qed
  have val: "ensures True False (jbind (pv i (skip_ws (tl (skip_ws q)))) (\<lambda>(c2, q2).
       let value2 = skip_ws q2; cs2 = cs @ [c2]
       in if at (CHR '','') value2 then parse_member f pv mok D item cs2 (tl value2)
          else if at (CHR ''}'') value2 then jret (set_child cs2 item, tl value2) else jerr value2)) (shorter k)"
    if "length q \<le> length v" for q i
  proof -
    have "length (skip_ws (tl (skip_ws q))) \<le> length v"
      using skip_ws_shorter [of "tl (skip_ws q)"] skip_ws_shorter [of q] that by simp
    then show ?thesis
      using Suc.prems rest by (intro ensures_bind [OF reader_endsD [OF assms, of _ "length v"]]) auto
  qed
  have "ensures True False (parse_string mok i (skip_ws v)) (shorter (length v))" for i :: "'a cJSON"
    by (rule ensures_mono [OF parse_string_ends]) (use skip_ws_shorter [of v] in auto)
  then have "ensures True False (jbind (parse_string mok i (skip_ws v)) (\<lambda>(c, q).
       let value1 = skip_ws q; c1 = CJSON (type c) None (valueint c) (valuedouble c) (valuestring c) (child c)
       in if \<not> at (CHR '':'') value1 then jerr value1
          else jbind (pv c1 (skip_ws (tl value1))) (\<lambda>(c2, q2).
            let value2 = skip_ws q2; cs2 = cs @ [c2]
            in if at (CHR '','') value2 then parse_member f pv mok D item cs2 (tl value2)
               else if at (CHR ''}'') value2 then jret (set_child cs2 item, tl value2)
               else jerr value2))) (shorter k)" for i
    by (rule ensures_bind) (use val in \<open>auto simp: Let_def intro: ensures_intros\<close>)
  then show ?case by (auto intro: ensures_bind [OF ensures_New_Item])
qed simp

lemma parse_object_ends:
  assumes "reader_ends pv n" "length v \<le> Suc n" "length v \<le> f"
  shows "ensures True False (parse_object f pv mok D item v) (shorter (length v))"
proof (cases "at (CHR ''{'') v")
  case True
  have l: "length (skip_ws (tl v)) < length v" using at_length [OF True] by simp
  then have "ensures True False (parse_member f pv mok D i [] (skip_ws (tl v))) (shorter (length v))" for i
    using assms by (intro parse_member_ends [OF assms(1)]) linarith+
  then show ?thesis using True l by (auto simp: parse_object_def Let_def intro!: ensures_intros)
qed (simp add: parse_object_def ensures_intros)

lemma parse_value_ends: "reader_ends (parse_value (Suc n) mok D) n"
proof (induction n)
  case 0
  show ?case
    unfolding reader_ends_def
    by (auto simp: at_def intro!: ensures_intros)
next
  case (Suc n)
  have "ensures True False (parse_value (Suc (Suc n)) mok D item v) (shorter (length v))" if v: "length v \<le> Suc n" for item v
  proof -
    have "ensures True False (parse_array (Suc n) (parse_value (Suc n) mok D) mok D item v) (shorter (length v))"
      "ensures True False (parse_object (Suc n) (parse_value (Suc n) mok D) mok D item v) (shorter (length v))"
      using v by (auto intro!: parse_array_ends [OF Suc] parse_object_ends [OF Suc] simp del: parse_value.simps)
    moreover have "ensures True False (jret (parse_number D item v)) (shorter (length v))"
      using parse_number_shorter [of D item v] by (intro ensures_basic(1)) (simp add: case_prod_beta)
    moreover have "ensures True False (jret (i, drop k v)) (shorter (length v))" for i :: "'a cJSON" and k
      by (intro ensures_basic(1)) simp
    ultimately show ?thesis
      unfolding parse_value.simps(2) [of "Suc n"] using parse_string_ends [of mok item v]
      by (simp only: ensures_basic split: if_split) simp
  qed
  then show ?case by (simp add: reader_ends_def)
qed

section \<open>Properties\<close>

lemma yields_Parse:
  assumes "mallocs_succeed mok" "dbl_exact D" "json_ok j"
  shows "\<exists>s'. cJSON_ParseWithOpts mok D True (text_of fmt 0 j) s = (Ret (to_cJSON D None j, []), s')"
proof -
  let ?t = "text_of fmt 0 j"
  have sk: "skip_ws ?t = ?t" using starts_value_skip [OF text_of_starts, of fmt 0 j "[]"] by simp
  have "reads D (parse_value (length ?t + 1) mok D) ?t j" using assms by (intro parse_value_reads) auto
  from readsD [OF this, of "[]" 0 None] have
    "yields (parse_value (length ?t + 1) mok D (CJSON 0 None 0 (d_of_int D 0) None []) ?t) (to_cJSON D None j, [])"
    by (simp add: ends_number_def)
  moreover obtain s1 where "cJSON_New_Item mok D s = (Ret (CJSON 0 None 0 (d_of_int D 0) None []), s1)"
    using yields_New_Item [OF assms(1), of D] unfolding yields_def by blast
  moreover obtain s2 where
    "parse_value (length ?t + 1) mok D (CJSON 0 None 0 (d_of_int D 0) None []) ?t (s1\<lparr>ep := None\<rparr>) = (Ret (to_cJSON D None j, []), s2)"
    using calculation(1) unfolding yields_def by blast
  ultimately show ?thesis by (simp add: cJSON_ParseWithOpts_def sk jbind_def jret_def)
qed

text \<open>
  C3.  Writing a JSON value and reading the text gives the value back: for every value of integers,
  strings, arrays and objects nested in any way, whose text has at most \<open>10 ^ 9\<close> characters, with every
  allocation granted, \<open>cJSON_Print\<close> and \<open>cJSON_PrintUnformatted\<close> return a text (\<open>cJSON_Print\<close> unless the value
  is an empty object), and \<open>cJSON_ParseWithOpts\<close> reads the whole of it and returns an item equal to the
  one written.  The bound keeps the \<open>int\<close> in which the writer counts its buffers from wrapping.
\<close>

theorem json_round_trip:
  assumes "mallocs_succeed mok" "dbl_exact D" "json_ok j" "\<forall>fmt. text_fits (text_of fmt 0 j)"
  shows "\<exists>t s1 s2. cJSON_PrintUnformatted mok D (to_cJSON D None j) s = (Ret t, s1) \<and>
      cJSON_ParseWithOpts mok D True t s1 = (Ret (to_cJSON D None j, []), s2) \<and>
    (j = JObj [] \<or> (\<exists>t s1 s2. cJSON_Print mok D (to_cJSON D None j) s = (Ret t, s1) \<and>
      cJSON_ParseWithOpts mok D True t s1 = (Ret (to_cJSON D None j, []), s2)))"
proof -
  have p: "\<exists>s1. print_value mok D fmt 0 (to_cJSON D None j) s = (Ret (text_of fmt 0 j), s1)" if "fmt \<longrightarrow> j \<noteq> JObj []" for fmt
    using print_value_text [OF assms(1-3), of fmt 0 None] assms(4) that unfolding yields_def by blast
  obtain s1 where s1: "print_value mok D False 0 (to_cJSON D None j) s = (Ret (text_of False 0 j), s1)" using p by blast
  obtain s2 where s2: "cJSON_ParseWithOpts mok D True (text_of False 0 j) s1 = (Ret (to_cJSON D None j, []), s2)"
    using yields_Parse [OF assms(1-3)] by blast
  have "\<exists>t s1 s2. cJSON_Print mok D (to_cJSON D None j) s = (Ret t, s1) \<and>
      cJSON_ParseWithOpts mok D True t s1 = (Ret (to_cJSON D None j, []), s2)" if ne: "j \<noteq> JObj []"
  proof -
    obtain u1 where "print_value mok D True 0 (to_cJSON D None j) s = (Ret (text_of True 0 j), u1)" using p ne by blast
    moreover obtain u2 where "cJSON_ParseWithOpts mok D True (text_of True 0 j) u1 = (Ret (to_cJSON D None j, []), u2)"
      using yields_Parse [OF assms(1-3)] by blast
    ultimately show ?thesis unfolding cJSON_Print_def by blast
  qed
  then show ?thesis using s1 s2 unfolding cJSON_PrintUnformatted_def by blast
qed

definition int_dbl :: "int dbl" where
  \<comment> \<open>an exact arithmetic, for examples\<close>
  "int_dbl = \<lparr>d_of_int = (\<lambda>i. i), d_add = (+), d_sub = (-), d_mul = (*), d_pow = (\<lambda>a b. a ^ nat b), d_fabs = abs,
     d_floor = (\<lambda>d. d), d_le = (\<le>), d_lt = (<), d_to_int = (\<lambda>d. d), DBL_EPSILON = 0, d_1e60 = 10 ^ 60, d_1em6 = 0,
     d_1e9 = 10 ^ 9, d_format = (\<lambda>_ _. ''0'')\<rparr>"

lemma int_dbl_exact: "dbl_exact int_dbl"
  by (simp add: dbl_exact_def int_dbl_def)

theorem json_round_trip_witness:
  "\<exists>t s1 s2. cJSON_PrintUnformatted (\<lambda>_. True) int_dbl (to_cJSON int_dbl None (JObj [(''a'', JArr [JInt (- 12), JStr ''x''])]))
      \<lparr>mallocs = 0, ep = None\<rparr> = (Ret t, s1) \<and>
    cJSON_ParseWithOpts (\<lambda>_. True) int_dbl True t s1 =
      (Ret (to_cJSON int_dbl None (JObj [(''a'', JArr [JInt (- 12), JStr ''x''])]), []), s2)"
proof -
  have m: "mallocs_succeed (\<lambda>_. True)" by (simp add: mallocs_succeed_def)
  have o: "json_ok (JObj [(''a'', JArr [JInt (- 12), JStr ''x''])])" by simp
  have f: "\<forall>fmt. text_fits (text_of fmt 0 (JObj [(''a'', JArr [JInt (- 12), JStr ''x''])]))"
    by (simp add: compose_object_simp compose_member_def compose_array_simp quoted_def escape_def short_escape_def int_digits_of_def nat_digits.simps)
  show ?thesis using json_round_trip [OF m int_dbl_exact o f, of "\<lparr>mallocs = 0, ep = None\<rparr>"] by blast
qed

text \<open>
  C30.  As long as the sizes of its buffers stay below \<open>2 ^ 31\<close> (with 64 bytes reckoned for every number
  and constant), the writer never leaves a buffer it has asked for, whatever the tree of items and
  whichever allocations fail, except that \<open>cJSON_Print\<close> of an object without members writes four bytes into a
  buffer of three.
\<close>

theorem json_print_in_bounds:
  assumes "cj_ok c" "dbl_formats D" "\<forall>fmt. print_bytes fmt 0 c < 2 ^ 31"
  shows "fst (cJSON_PrintUnformatted mok D c s) \<noteq> Undef \<and>
    (fst (cJSON_Print mok D c s) = Undef \<longleftrightarrow> type c AND 255 = cJSON_Object \<and> child c = [] \<and> mok (mallocs s))"
proof -
  have ok: "fst (print_value mok D fmt 0 c s) \<noteq> Undef" if "\<not> (fmt \<and> type c AND 255 = cJSON_Object \<and> child c = [])" for fmt
    using print_value_bounds [OF assms(1,2), of fmt 0 mok] assms(3) that by (intro ensures_not_undef) auto
  obtain t vs vi vd k cs where c: "c = CJSON t vs vi vd k cs" by (cases c)
  have "fst (print_value mok D True 0 c s) = Undef \<longleftrightarrow> mok (mallocs s)" if "t AND 255 = cJSON_Object" "cs = []"
    using that by (simp add: c json_types print_object_def jbind_def cJSON_malloc_def fill_def empty_object_def jundef_def c_int_id size_arg_def)
  then show ?thesis using ok [of True] ok [of False] c by (auto simp: cJSON_Print_def cJSON_PrintUnformatted_def simp del: print_value.simps)
qed

theorem json_print_in_bounds_witness:
  "fst (cJSON_Print (\<lambda>_. True) int_dbl (to_cJSON int_dbl None (JObj [])) \<lparr>mallocs = 0, ep = None\<rparr>) = Undef \<and>
   fst (cJSON_Print (\<lambda>_. True) int_dbl (to_cJSON int_dbl None (JArr [JObj []])) \<lparr>mallocs = 0, ep = None\<rparr>) \<noteq> Undef"
proof -
  have f: "dbl_formats int_dbl" by (simp add: dbl_formats_def int_dbl_def)
  have c: "cj_ok (to_cJSON int_dbl None (JObj []))" "cj_ok (to_cJSON int_dbl None (JArr [JObj []]))" by simp_all
  have b: "\<forall>fmt. print_bytes fmt 0 (to_cJSON int_dbl None (JObj [])) < 2 ^ 31"
    "\<forall>fmt. print_bytes fmt 0 (to_cJSON int_dbl None (JArr [JObj []])) < 2 ^ 31" by (simp_all add: json_types)
  show ?thesis
    using json_print_in_bounds [OF c(1) f b(1), of "\<lambda>_. True" "\<lparr>mallocs = 0, ep = None\<rparr>"]
      json_print_in_bounds [OF c(2) f b(2), of "\<lambda>_. True" "\<lparr>mallocs = 0, ep = None\<rparr>"] by (simp add: json_types)
qed

text \<open>
  C37.  The writer counts the bytes of a buffer in a 32-bit \<open>int\<close>: a value whose text with its terminator
  takes \<open>2 ^ 32\<close> bytes or more, of which an indented text of a deep and wide tree of a few megabytes is an example,
  makes it write past the end of a buffer that is too small, with every allocation granted.
\<close>

theorem json_print_overruns:
  assumes "mallocs_succeed mok" "dbl_exact D" "json_ok j"
  shows "(2 ^ 32 \<le> length (text_of True 0 j) + 1 \<longrightarrow> fst (cJSON_Print mok D (to_cJSON D None j) s) = Undef) \<and>
    (2 ^ 32 \<le> length (text_of False 0 j) + 1 \<longrightarrow> fst (cJSON_PrintUnformatted mok D (to_cJSON D None j) s) = Undef)"
proof -
  have "fst (print_value mok D fmt 0 (to_cJSON D None j) s) = Undef" if "2 ^ 32 \<le> length (text_of fmt 0 j) + 1" for fmt
    using print_value_writes [OF assms, of fmt 0 None] that unfolding undef_or_def
    by (cases "fst (print_value mok D fmt 0 (to_cJSON D None j) s)") (auto split: jout.splits dest: spec [of _ s])
  then show ?thesis unfolding cJSON_Print_def cJSON_PrintUnformatted_def by blast
qed

theorem json_print_overruns_witness:
  "fst (cJSON_Print (\<lambda>_. True) int_dbl (to_cJSON int_dbl None
      (((\<lambda>j. JArr [j]) ^^ 4300) (JObj (replicate 1000000 ('''', JNull))))) \<lparr>mallocs = 0, ep = None\<rparr>) = Undef"
proof -
  have "1000000 * (0 + 4300 + 1) \<le> length (text_of True (0 + 4300) (JObj (replicate 1000000 ('''', JNull))))"
    by (rule text_of_wide) simp
  also have "\<dots> \<le> length (text_of True 0 (((\<lambda>j. JArr [j]) ^^ 4300) (JObj (replicate 1000000 ('''', JNull)))))"
    by (rule text_of_nested)
  finally have l: "1000000 * (0 + 4300 + 1) \<le> length (text_of True 0 (((\<lambda>j. JArr [j]) ^^ 4300) (JObj (replicate 1000000 ('''', JNull)))))" .
  have "2 ^ 32 \<le> length (text_of True 0 (((\<lambda>j. JArr [j]) ^^ 4300) (JObj (replicate 1000000 ('''', JNull))))) + 1"
    by (rule order_trans [OF _ trans_le_add1 [OF l]]) simp
  moreover have "json_ok (JObj (replicate 1000000 ('''', JNull)))" by (auto simp: in_set_replicate)
  moreover have "mallocs_succeed (\<lambda>_. True)" by (simp add: mallocs_succeed_def)
  ultimately show ?thesis using json_print_overruns [OF _ int_dbl_exact json_ok_nested] by blast
qed

text \<open>
  C35.  The reader comes to an end on every text, with any pattern of failing allocations: the bound
  that the model puts on its loops and its recursion is never reached.
\<close>

theorem json_parse_terminates: "fst (cJSON_ParseWithOpts mok D opt v s) \<noteq> Fuel"
proof -
  have p: "ensures True False (parse_value (length (skip_ws v) + 1) mok D item (skip_ws v)) (\<lambda>_. True)" for item
    using parse_value_ends [of "length (skip_ws v)" mok D] unfolding reader_ends_def
    by (auto intro: ensures_mono simp del: parse_value.simps)
  have "ensures True False (\<lambda>s. case cJSON_New_Item mok D s of (r, s') \<Rightarrow> (r, s'\<lparr>ep := None\<rparr>)) (\<lambda>_. True)"
    using ensures_New_Item [of True False mok D] by (simp add: ensures_def case_prod_beta)
  then have "ensures True False (cJSON_ParseWithOpts mok D opt v) (\<lambda>_. True)"
    unfolding cJSON_ParseWithOpts_def
    by (rule ensures_bind, intro ensures_bind [OF p]) (auto intro!: ensures_intros simp del: parse_value.simps)
  then show ?thesis by (rule ensures_not_fuel)
qed

text \<open>
  C36.  The reader can be made to write behind its buffer.  In a string that ends within a \<open>\u\<close> escape
  the length is measured to the closing quote, but the copying loop steps over the quote and goes
  on: after \<open>"\u1"ab\<close> any further text without quote and backslash is copied into a buffer of three
  bytes.
\<close>

theorem json_parse_overruns:
  fixes D :: "'d dbl"
  assumes "mallocs_succeed mok" "CHR 0x22 \<notin> set t" "CHR 0x5C \<notin> set t" "2 \<le> length t"
  shows "fst (cJSON_Parse mok D ([CHR 0x22, CHR 0x5C, CHR ''u'', CHR ''1'', CHR 0x22, a, b] @ t) s) = Undef"
proof -
  let ?v = "[CHR 0x22, CHR 0x5C, CHR ''u'', CHR ''1'', CHR 0x22, a, b] @ t"
  have plain: "parse_chars uc uc2 t = Some (t, [])" for uc uc2
    using assms(2,3) by (induction t) auto
  have four: "(4 :: nat) = Suc (Suc (Suc (Suc 0)))" by simp
  have "hex_val (CHR ''1'') = Some 1" "hex_val (CHR 0x22) = None" by (simp_all add: hex_val_def)
  then have "sscanf_4x (CHR ''1'' # CHR 0x22 # a # b # t) = Some 1"
    by (simp add: sscanf_4x_def is_space_def hex_item_def starts_hex_def four)
  then have "unicode_escape None None (CHR ''1'' # CHR 0x22 # a # b # t) = Some ([char_of (1 :: nat)], Some 1, None, t)"
    using small_utf8 [of 1] by (simp add: unicode_escape_def store_def word_le_nat_alt del: char_of_nat)
  then have "parse_chars None None (tl ?v) = Some (char_of (1 :: nat) # t, [])" using plain by simp
  moreover have "string_len (tl ?v) = Some 2" by simp
  moreover have "\<not> length (char_of (1 :: nat) # t) + 1 \<le> 3" using assms(4) by simp
  ultimately have "parse_string mok i ?v s' = (Undef, s'\<lparr>mallocs := Suc (mallocs s')\<rparr>)" for i :: "'d cJSON" and s'
    using assms(1) by (simp add: parse_string_def jbind_def cJSON_malloc_def mallocs_succeed_def fill_def jundef_def)
  then show ?thesis
    using assms(1)
    by (simp add: parse_value_brackets cJSON_Parse_def cJSON_ParseWithOpts_def cJSON_New_Item_def jbind_def cJSON_malloc_def jret_def
        mallocs_succeed_def del: parse_value.simps)
qed

theorem json_parse_overruns_witness:
  "fst (cJSON_Parse (\<lambda>_. True) int_dbl ([CHR 0x22, CHR 0x5C, CHR ''u'', CHR ''1'', CHR 0x22, CHR '' '', CHR '',''] @ ''XXXX'')
     \<lparr>mallocs = 0, ep = None\<rparr>) = Undef"
  by (rule json_parse_overruns) (simp_all add: mallocs_succeed_def)

end
