(* ===== verification/Status_Codes.thy ===== *)
theory Status_Codes
  imports Main
begin

text \<open>
  The status codes of \<open>utils/Errors.h\<close> the network and conference classes return, as 32-bit values, and
  the outcomes of their operations: a result, a thread that waits for a lock it holds itself, or the
  access to a null pointer or to deleted memory.
\<close>

definition NO_ERROR :: int where "NO_ERROR = 0"
definition UNKNOWN_ERROR :: int where "UNKNOWN_ERROR = - 2147483648"
definition NO_MEMORY :: int where "NO_MEMORY = - 12"
definition INVALID_OPERATION :: int where "INVALID_OPERATION = - 38"
definition BAD_VALUE :: int where "BAD_VALUE = - 22"
definition NAME_NOT_FOUND :: int where "NAME_NOT_FOUND = - 2"
definition NO_INIT :: int where "NO_INIT = - 19"
definition DEAD_OBJECT :: int where "DEAD_OBJECT = - 32"

lemmas status_defs = NO_ERROR_def UNKNOWN_ERROR_def NO_MEMORY_def INVALID_OPERATION_def BAD_VALUE_def
  NAME_NOT_FOUND_def NO_INIT_def DEAD_OBJECT_def

datatype 'a outcome = Ret 'a | Deadlock | Fault

fun obind :: "'a outcome \<Rightarrow> ('a \<Rightarrow> 'b outcome) \<Rightarrow> 'b outcome" where
  "obind (Ret x) f = f x"
| "obind Deadlock f = Deadlock"
| "obind Fault f = Fault"

fun access :: "'a option \<Rightarrow> 'a outcome" where
  "access None = Fault"
| "access (Some x) = Ret x"

end
