(* ===== verification/C_Json_Heap.thy ===== *)
theory C_Json_Heap
  imports Ckits_Prelude Status_Codes
begin

text \<open>
  The ownership of memory in \<open>libckits/cJSON.c\<close>.  \<open>C_Json\<close> has the items of a document as values; here they are blocks of a heap
  with pointers (0 is null), for the functions in which it matters who owns a block: \<open>cJSON_Delete\<close>, and the
  functions that add an item a second time, as a reference that shares the children and the string of the first.  An access to a block that is
  not there, a second \<open>free\<close> and a recursion that does not end are a \<open>Fault\<close>.  The addresses of new blocks are parameters, 0 when
  the allocator fails.
\<close>

section \<open>Model\<close>

record jitem =
  jnext :: nat
  jprev :: nat
  jchild :: nat
  isref :: bool \<comment> \<open>\<open>type & cJSON_IsReference\<close>\<close>
  kind :: nat \<comment> \<open>the rest of \<open>type\<close>\<close>
  valuestring :: nat
  jname :: nat \<comment> \<open>\<open>string\<close>\<close>

datatype jblock = JItem jitem | JText

type_synonym jheap = "nat \<rightharpoonup> jblock"

definition cJSON_InitHooks :: "('m option \<times> 'f option) option \<Rightarrow> 'm \<Rightarrow> 'f \<Rightarrow> 'm \<times> 'f" where
  \<comment> \<open>the new \<open>cJSON_malloc\<close> and \<open>cJSON_free\<close>\<close>
  "cJSON_InitHooks hooks malloc free =
     (case hooks of
        None \<Rightarrow> (malloc, free)
      | Some (m, f) \<Rightarrow> (case m of Some x \<Rightarrow> x | None \<Rightarrow> malloc, case f of Some x \<Rightarrow> x | None \<Rightarrow> free))"

definition item_at :: "nat \<Rightarrow> jheap \<Rightarrow> jitem outcome" where
  "item_at p h = (case h p of Some (JItem x) \<Rightarrow> Ret x | _ \<Rightarrow> Fault)"

definition j_free :: "nat \<Rightarrow> jheap \<Rightarrow> jheap outcome" where
  "j_free p h = (if h p = None then Fault else Ret (h(p := None)))"

definition free_if :: "bool \<Rightarrow> nat \<Rightarrow> jheap \<Rightarrow> jheap outcome" where
  \<comment> \<open>a pointer that is freed under a condition and if it is not null\<close>
  "free_if b p h = (if b \<and> p \<noteq> 0 then j_free p h else Ret h)"

fun cJSON_Delete :: "nat \<Rightarrow> nat \<Rightarrow> jheap \<Rightarrow> jheap outcome" where
  \<comment> \<open>the first argument bounds the depth of the recursion and of the loop\<close>
  "cJSON_Delete 0 c h = Fault"
| "cJSON_Delete (Suc k) c h =
     (if c = 0 then Ret h
      else obind (item_at c h) (\<lambda>x.
           obind (if \<not> isref x \<and> jchild x \<noteq> 0 then cJSON_Delete k (jchild x) h else Ret h) (\<lambda>h1.
           obind (item_at c h1) (\<lambda>x1.
           obind (free_if (\<not> isref x1) (valuestring x1) h1) (\<lambda>h2.
           obind (item_at c h2) (\<lambda>x2.
           obind (free_if True (jname x2) h2) (\<lambda>h3.
           obind (j_free c h3) (\<lambda>h4. cJSON_Delete k (jnext x) h4))))))))"

definition suffix_object :: "nat \<Rightarrow> nat \<Rightarrow> jheap \<Rightarrow> jheap outcome" where
  "suffix_object prev item h =
     obind (item_at prev h) (\<lambda>p. let h1 = h(prev \<mapsto> JItem (p\<lparr>jnext := item\<rparr>)) in
     obind (item_at item h1) (\<lambda>i. Ret (h1(item \<mapsto> JItem (i\<lparr>jprev := prev\<rparr>)))))"

fun last_item :: "nat \<Rightarrow> nat \<Rightarrow> jheap \<Rightarrow> nat outcome" where
  \<comment> \<open>the loop of \<open>cJSON_AddItemToArray\<close>\<close>
  "last_item 0 c h = Fault"
| "last_item (Suc k) c h = obind (item_at c h) (\<lambda>x. if jnext x = 0 then Ret c else last_item k (jnext x) h)"

definition add_to_array :: "nat \<Rightarrow> nat \<Rightarrow> nat \<Rightarrow> jheap \<Rightarrow> jheap outcome" where
  \<comment> \<open>\<open>cJSON_AddItemToArray\<close>\<close>
  "add_to_array k array item h =
     obind (item_at array h) (\<lambda>a.
     if item = 0 then Ret h
     else if jchild a = 0 then Ret (h(array \<mapsto> JItem (a\<lparr>jchild := item\<rparr>)))
     else obind (last_item k (jchild a) h) (\<lambda>c. suffix_object c item h))"

definition create_reference :: "nat \<Rightarrow> nat \<Rightarrow> jheap \<Rightarrow> (nat \<times> jheap) outcome" where
  \<comment> \<open>\<open>r\<close> is the result of \<open>cJSON_New_Item\<close>\<close>
  "create_reference r item h =
     (if r = 0 then Ret (0, h)
      else obind (item_at item h) (\<lambda>x. Ret (r, h(r \<mapsto> JItem (x\<lparr>jname := 0, isref := True, jnext := 0, jprev := 0\<rparr>)))))"

definition cJSON_AddItemReferenceToArray :: "nat \<Rightarrow> nat \<Rightarrow> nat \<Rightarrow> nat \<Rightarrow> jheap \<Rightarrow> jheap outcome" where
  "cJSON_AddItemReferenceToArray k r array item h = obind (create_reference r item h) (\<lambda>(ref, h1). add_to_array k array ref h1)"

definition cJSON_AddItemReferenceToObject :: "nat \<Rightarrow> nat \<Rightarrow> nat \<Rightarrow> nat \<Rightarrow> nat \<Rightarrow> jheap \<Rightarrow> jheap outcome" where
  \<comment> \<open>\<open>s\<close> is the result of \<open>cJSON_strdup\<close> for the name\<close>
  "cJSON_AddItemReferenceToObject k r s object item h =
     obind (create_reference r item h) (\<lambda>(ref, h1).
     if ref = 0 then Ret h1
     else obind (item_at ref h1) (\<lambda>x.
          obind (free_if True (jname x) h1) (\<lambda>h2.
          let h3 = (if s = 0 then h2 else h2(s \<mapsto> JText)) in
          obind (item_at ref h3) (\<lambda>y. add_to_array k object ref (h3(ref \<mapsto> JItem (y\<lparr>jname := s\<rparr>)))))))"

section \<open>Documents in the heap\<close>

datatype jtree = JNode (jaddr: nat) (jref: bool) (jsub: nat) (jval: nat) (jnam: nat) (jkids: "jtree list")

fun head_of :: "jtree list \<Rightarrow> nat" where
  "head_of [] = 0"
| "head_of (t # ts) = jaddr t"

fun chain :: "jheap \<Rightarrow> jtree list \<Rightarrow> bool" where
  \<comment> \<open>the trees are in the heap, linked by \<open>next\<close>; a reference has no children of its own\<close>
  "chain h [] = True"
| "chain h (JNode p r s v n ts # us) =
     (p \<noteq> 0 \<and> (\<exists>x. h p = Some (JItem x) \<and> jnext x = head_of us \<and> isref x = r \<and> jchild x = (if r then s else head_of ts) \<and> valuestring x = v \<and> jname x = n) \<and>
      (r \<longrightarrow> ts = []) \<and> (\<not> r \<and> v \<noteq> 0 \<longrightarrow> h v = Some JText) \<and> (n \<noteq> 0 \<longrightarrow> h n = Some JText) \<and> chain h ts \<and> chain h us)"

fun owned :: "jtree list \<Rightarrow> nat list" where
  \<comment> \<open>the blocks of the trees: an item, its name, and unless it is a reference its string and its children\<close>
  "owned [] = []"
| "owned (JNode p r s v n ts # us) = owned ts @ (if \<not> r \<and> v \<noteq> 0 then [v] else []) @ (if n \<noteq> 0 then [n] else []) @ p # owned us"

fun depth :: "jtree list \<Rightarrow> nat" where
  "depth [] = 1"
| "depth (JNode p r s v n ts # us) = Suc (depth ts + depth us)"

lemma head_of_zero: "chain h ts \<Longrightarrow> head_of ts = 0 \<longleftrightarrow> ts = []"
  by (cases ts rule: owned.cases) auto

lemma chain_frame: "chain h ts \<Longrightarrow> \<forall>a \<in> set (owned ts). h' a = h a \<Longrightarrow> chain h' ts"
proof (induction ts rule: owned.induct)
  case (2 p r s v n ts us)
  then show ?case by (auto split: if_splits)
qed simp

lemma chain_owned: "chain h ts \<Longrightarrow> a \<in> set (owned ts) \<Longrightarrow> a \<noteq> 0 \<and> h a \<noteq> None"
  by (induction ts rule: owned.induct) (auto split: if_splits)

definition without :: "nat set \<Rightarrow> jheap \<Rightarrow> jheap" where
  "without A h = (\<lambda>a. if a \<in> A then None else h a)"

lemma without_simps [simp]: "without {} h = h" "without A (without B h) = without (B \<union> A) h" "a \<notin> A \<Longrightarrow> without A h a = h a"
  by (auto simp: without_def)

lemma free_without: "a \<notin> A \<Longrightarrow> h a \<noteq> None \<Longrightarrow> j_free a (without A h) = Ret (without (insert a A) h)"
  by (auto simp: j_free_def without_def fun_eq_iff)

lemma free_if_without:
  assumes "b \<and> p \<noteq> 0 \<Longrightarrow> p \<notin> A \<and> h p \<noteq> None"
  shows "free_if b p (without A h) = Ret (without (A \<union> (if b \<and> p \<noteq> 0 then {p} else {})) h)"
  using assms free_without [of p A h] by (simp add: free_if_def)

lemma item_at_without: "a \<notin> A \<Longrightarrow> h a = Some (JItem x) \<Longrightarrow> item_at a (without A h) = Ret x"
  by (simp add: item_at_def)

text \<open>Deleting a document frees all it owns, each block once, and nothing else.\<close>

lemma delete_chain:
  assumes "chain h ts" "distinct (owned ts)" "depth ts \<le> k"
  shows "cJSON_Delete k (head_of ts) h = Ret (without (set (owned ts)) h)"
  using assms
proof (induction ts arbitrary: h k rule: owned.induct)
  case 1
  then show ?case by (cases k) simp_all
next
  case (2 p r s v n ts us)
  obtain m where k: "k = Suc m" "depth ts \<le> m" "depth us \<le> m" using "2.prems"(3) by (cases k) auto
  obtain x where x: "h p = Some (JItem x)" "jnext x = head_of us" "isref x = r" "jchild x = (if r then s else head_of ts)" "valuestring x = v" "jname x = n"
    using "2.prems"(1) by auto
  have c: "p \<noteq> 0" "chain h ts" "chain h us" "r \<Longrightarrow> ts = []" using "2.prems"(1) by auto
  let ?A = "set (owned ts)"
  let ?B = "?A \<union> (if \<not> r \<and> v \<noteq> 0 then {v} else {})"
  let ?C = "?B \<union> (if True \<and> n \<noteq> 0 then {n} else {})"
  have p: "p \<notin> ?A" "p \<notin> ?B" "p \<notin> ?C" using "2.prems"(2) by auto
  have 1: "(if \<not> isref x \<and> jchild x \<noteq> 0 then cJSON_Delete m (jchild x) h else Ret h) = Ret (without ?A h)"
  proof (cases "ts = []")
    case True
    then show ?thesis using x(3,4) by auto
  next
    case False
    then show ?thesis using "2.IH"(1) [OF c(2) _ k(2)] "2.prems"(2) x(3,4) head_of_zero [OF c(2)] c(4) by auto
  qed
  have 2: "free_if (\<not> r) v (without ?A h) = Ret (without ?B h)" using "2.prems"(1,2) by (intro free_if_without) auto
  have 3: "free_if True n (without ?B h) = Ret (without ?C h)" using "2.prems"(1,2) by (intro free_if_without) (auto split: if_splits)
  have 4: "j_free p (without ?C h) = Ret (without (insert p ?C) h)" using free_without [OF p(3)] x(1) by simp
  have f: "\<forall>a \<in> set (owned us). without (insert p ?C) h a = h a" using "2.prems"(2) by (auto simp: without_def)
  have 5: "cJSON_Delete m (head_of us) (without (insert p ?C) h) = Ret (without (set (owned us)) (without (insert p ?C) h))"
    using "2.IH"(2) [OF chain_frame [OF c(3) f] _ k(3)] "2.prems"(2) by simp
  have s: "insert p ?C \<union> set (owned us) = set (owned (JNode p r s v n ts # us))" by auto
  have i: "item_at p h = Ret x" "item_at p (without ?A h) = Ret x" "item_at p (without ?B h) = Ret x"
    using p(1,2) x(1) item_at_without [of p _ h x] by (simp_all add: item_at_def)
  have "cJSON_Delete (Suc m) p h = cJSON_Delete m (head_of us) (without (insert p ?C) h)"
    using c(1) by (simp only: cJSON_Delete.simps i obind.simps if_False x 1 [unfolded x] 2 3 4)
  then show ?case unfolding k(1) using 5 s by simp
qed

section \<open>References\<close>

text \<open>Linking one more item behind a chain.\<close>

lemma head_of_snoc [simp]: "head_of (ts @ us) = (if ts = [] then head_of us else head_of ts)"
  by (cases ts) auto

lemma jaddr_owned: "t \<in> set ts \<Longrightarrow> jaddr t \<in> set (owned ts)"
  by (induction ts rule: owned.induct) auto

lemma owned_append [simp]: "owned (ts @ us) = owned ts @ owned us"
  by (induction ts rule: owned.induct) auto

lemma last_item_chain:
  assumes "chain h ts" "ts \<noteq> []" "length ts \<le> k"
  shows "last_item k (head_of ts) h = Ret (jaddr (last ts))"
  using assms
proof (induction ts arbitrary: k)
  case (Cons t ts)
  obtain m where k: "k = Suc m" "length ts \<le> m" using Cons.prems(3) by (cases k) auto
  obtain p r s v n us where t: "t = JNode p r s v n us" by (cases t)
  show ?case
  proof (cases "ts = []")
    case True
    then show ?thesis using Cons.prems(1) by (auto simp: k t item_at_def)
  next
    case False
    then show ?thesis using Cons.IH [OF _ False k(2)] Cons.prems(1) head_of_zero [of h ts] by (auto simp: k t item_at_def)
  qed
qed simp

lemma chain_link:
  assumes "chain h ts" "ts \<noteq> []" "distinct (owned ts)" "h (jaddr (last ts)) = Some (JItem y)" "h' (jaddr (last ts)) = Some (JItem z)"
    "jnext z = head_of us" "isref z = isref y" "jchild z = jchild y" "valuestring z = valuestring y" "jname z = jname y"
    "\<forall>a \<in> set (owned ts) - {jaddr (last ts)}. h' a = h a" "chain h' us"
  shows "chain h' (ts @ us)"
  using assms(1-5,11)
proof (induction ts)
  case (Cons t ts)
  obtain p r s v n vs where t: "t = JNode p r s v n vs" by (cases t)
  let ?l = "jaddr (last (t # ts))"
  have e: "h' a = h a" if "a \<in> set (owned (t # ts))" "a \<noteq> ?l" for a using Cons.prems(6) that by simp
  have l: "?l \<notin> set (owned vs)" "\<not> r \<and> v \<noteq> 0 \<Longrightarrow> v \<noteq> ?l" "n \<noteq> 0 \<Longrightarrow> n \<noteq> ?l" "ts \<noteq> [] \<Longrightarrow> p \<noteq> ?l"
    using Cons.prems(3) jaddr_owned [of "last ts" ts] by (cases "ts = []"; auto simp: t)+
  have "chain h vs" using Cons.prems(1) by (simp add: t)
  moreover have "\<forall>a \<in> set (owned vs). h' a = h a" using e l(1) by (metis Un_iff owned.simps(2) set_append t)
  ultimately have vs: "chain h' vs" by (rule chain_frame)
  have w: "\<not> r \<and> v \<noteq> 0 \<Longrightarrow> h' v = h v" "n \<noteq> 0 \<Longrightarrow> h' n = h n" "ts \<noteq> [] \<Longrightarrow> h' p = h p" using e [of v] e [of n] e [of p] l by (simp_all add: t)
  show ?case
  proof (cases "ts = []")
    case True
    then show ?thesis using Cons.prems(1,4,5) vs w(1,2) assms(6-10,12) by (simp add: t)
  next
    case False
    have "chain h' (ts @ us)" using Cons.IH False Cons.prems e by (simp add: t)
    then show ?thesis using Cons.prems(1) False vs w by (simp add: t)
  qed
qed simp

lemma chain_last_item: "chain h ts \<Longrightarrow> ts \<noteq> [] \<Longrightarrow> \<exists>z. h (jaddr (last ts)) = Some (JItem z)"
  by (induction ts rule: owned.induct) auto

text \<open>An item with all it owns becomes the last one of an array or object.\<close>

lemma add_to_array_chain:
  assumes "chain h [JNode a False s v n kids]" "chain h [R]" "distinct (owned [JNode a False s v n kids])" "distinct (owned [R])"
    "set (owned [JNode a False s v n kids]) \<inter> set (owned [R]) = {}" "length kids \<le> k"
  shows "\<exists>h1. add_to_array k a (jaddr R) h = Ret h1 \<and> chain h1 [JNode a False s v n (kids @ [R])] \<and>
    (\<forall>b. b \<notin> set (owned kids) \<union> {a, jaddr R} \<longrightarrow> h1 b = h b)"
proof -
  let ?q = "jaddr R"
  obtain y where y: "h a = Some (JItem y)" "jnext y = 0" "\<not> isref y" "jchild y = head_of kids" "valuestring y = v" "jname y = n"
    using assms(1) by auto
  obtain i where i: "h ?q = Some (JItem i)" "jnext i = 0" using assms(2) by (cases R) auto
  have c: "a \<noteq> 0" "chain h kids" "v \<noteq> 0 \<Longrightarrow> h v = Some JText" "n \<noteq> 0 \<Longrightarrow> h n = Some JText" using assms(1) by auto
  have d: "a \<notin> set (owned kids)" "v \<noteq> 0 \<Longrightarrow> v \<noteq> a \<and> v \<notin> set (owned kids)" "n \<noteq> 0 \<Longrightarrow> n \<noteq> a \<and> n \<notin> set (owned kids)" "distinct (owned kids)"
    using assms(3) by (auto split: if_splits)
  have q: "?q \<in> set (owned [R])" "?q \<noteq> 0" using jaddr_owned [of R "[R]"] chain_owned [OF assms(2)] by auto
  then have q2: "?q \<noteq> a" "?q \<notin> set (owned kids)" "v \<noteq> 0 \<Longrightarrow> v \<noteq> ?q" "n \<noteq> 0 \<Longrightarrow> n \<noteq> ?q" "a \<notin> set (owned [R])"
    "set (owned kids) \<inter> set (owned [R]) = {}"
    using assms(5) by auto
  show ?thesis
  proof (cases "kids = []")
    case True
    let ?h1 = "h(a \<mapsto> JItem (y\<lparr>jchild := ?q\<rparr>))"
    have "add_to_array k a ?q h = Ret ?h1" using y(1,4) q(2) True by (simp add: item_at_def add_to_array_def)
    moreover have "chain ?h1 [R]" by (rule chain_frame [OF assms(2)]) (use q2(5) in auto)
    then have "chain ?h1 [JNode a False s v n (kids @ [R])]" using True c(1,3,4) y d(2,3) by simp
    moreover have "\<forall>b. b \<notin> set (owned kids) \<union> {a, ?q} \<longrightarrow> ?h1 b = h b" by simp
    ultimately show ?thesis by blast
  next
    case False
    let ?l = "jaddr (last kids)"
    have l: "?l \<in> set (owned kids)" using False jaddr_owned [of "last kids"] by simp
    obtain z where z: "h ?l = Some (JItem z)" using chain_last_item [OF c(2) False] by blast
    let ?h1 = "h(?l \<mapsto> JItem (z\<lparr>jnext := ?q\<rparr>), ?q \<mapsto> JItem (i\<lparr>jprev := ?l\<rparr>))"
    have n: "?l \<noteq> ?q" "?l \<noteq> a" "?l \<notin> set (owned [R])" using l q2 d(1) by auto
    have "last_item k (head_of kids) h = Ret ?l" by (rule last_item_chain [OF c(2) False assms(6)])
    then have "add_to_array k a ?q h = Ret ?h1"
      using y(1,4) q(2) i(1) z n head_of_zero [OF c(2)] False by (simp add: item_at_def add_to_array_def suffix_object_def)
    moreover have "chain ?h1 ([R] @ [])"
      by (rule chain_link [OF assms(2) _ assms(4), of i ?h1 "i\<lparr>jprev := ?l\<rparr>"]) (use i n(3) in auto)
    then have "chain ?h1 (kids @ [R])"
      by (intro chain_link [OF c(2) False d(4) z, of ?h1 "z\<lparr>jnext := ?q\<rparr>"]) (use n(1) q2(2) in auto)
    then have "chain ?h1 [JNode a False s v n (kids @ [R])]" using c(1,3,4) y d l n q2 False chain_owned [OF c(2) l] by auto
    moreover have "\<forall>b. b \<notin> set (owned kids) \<union> {a, ?q} \<longrightarrow> ?h1 b = h b" using l by auto
    ultimately show ?thesis by blast
  qed
qed

lemma add_reference:
  assumes "chain h [JNode a False s v n kids]" "distinct (owned [JNode a False s v n kids])" "h item = Some (JItem x)" "r \<noteq> 0" "h r = None" "length kids \<le> k"
  shows "\<exists>h1. cJSON_AddItemReferenceToArray k r a item h = Ret h1 \<and>
    chain h1 [JNode a False s v n (kids @ [JNode r True (jchild x) (valuestring x) 0 []])] \<and> (\<forall>b. b \<notin> set (owned kids) \<union> {a, r} \<longrightarrow> h1 b = h b)"
proof -
  let ?R = "JNode r True (jchild x) (valuestring x) 0 []" and ?h = "h(r \<mapsto> JItem (x\<lparr>jname := 0, isref := True, jnext := 0, jprev := 0\<rparr>))"
  have r: "r \<notin> set (owned [JNode a False s v n kids])" using chain_owned [OF assms(1), of r] assms(5) by blast
  have 1: "chain ?h [JNode a False s v n kids]" by (rule chain_frame [OF assms(1)]) (use r in auto)
  have 2: "chain ?h [?R]" "distinct (owned [?R])" "set (owned [JNode a False s v n kids]) \<inter> set (owned [?R]) = {}" using assms(4) r by simp_all
  obtain h1 where "add_to_array k a (jaddr ?R) ?h = Ret h1" "chain h1 [JNode a False s v n (kids @ [?R])]"
    "\<forall>b. b \<notin> set (owned kids) \<union> {a, jaddr ?R} \<longrightarrow> h1 b = ?h b"
    using add_to_array_chain [OF 1 2(1) assms(2) 2(2,3) assms(6)] by blast
  then show ?thesis using assms(3,4) by (simp add: cJSON_AddItemReferenceToArray_def create_reference_def item_at_def)
qed

lemma add_named_reference:
  assumes "chain h [JNode a False s v n kids]" "distinct (owned [JNode a False s v n kids])" "h item = Some (JItem x)" "r \<noteq> 0" "h r = None" "length kids \<le> k"
    "t \<noteq> 0" "h t = None" "t \<noteq> r"
  shows "\<exists>h1. cJSON_AddItemReferenceToObject k r t a item h = Ret h1 \<and>
    chain h1 [JNode a False s v n (kids @ [JNode r True (jchild x) (valuestring x) t []])] \<and> (\<forall>b. b \<notin> set (owned kids) \<union> {a, r, t} \<longrightarrow> h1 b = h b)"
proof -
  let ?R = "JNode r True (jchild x) (valuestring x) t []"
  let ?x = "x\<lparr>jname := 0, isref := True, jnext := 0, jprev := 0, jname := t\<rparr>"
  let ?h = "h(r \<mapsto> JItem (x\<lparr>jname := 0, isref := True, jnext := 0, jprev := 0\<rparr>), t \<mapsto> JText, r \<mapsto> JItem ?x)"
  have r: "r \<notin> set (owned [JNode a False s v n kids])" "t \<notin> set (owned [JNode a False s v n kids])"
    using chain_owned [OF assms(1), of r] chain_owned [OF assms(1), of t] assms(5,8) by blast+
  have 1: "chain ?h [JNode a False s v n kids]" by (rule chain_frame [OF assms(1)]) (use r in auto)
  have 2: "chain ?h [?R]" "distinct (owned [?R])" "set (owned [JNode a False s v n kids]) \<inter> set (owned [?R]) = {}" using assms(4,7,9) r by simp_all
  obtain h1 where h1: "add_to_array k a (jaddr ?R) ?h = Ret h1" "chain h1 [JNode a False s v n (kids @ [?R])]"
    "\<forall>b. b \<notin> set (owned kids) \<union> {a, jaddr ?R} \<longrightarrow> h1 b = ?h b"
    using add_to_array_chain [OF 1 2(1) assms(2) 2(2,3) assms(6)] by blast
  have "cJSON_AddItemReferenceToObject k r t a item h = add_to_array k a (jaddr ?R) ?h"
    using assms(3,4,7,9) by (simp add: cJSON_AddItemReferenceToObject_def create_reference_def item_at_def free_if_def Let_def)
  moreover have "\<forall>b. b \<notin> set (owned kids) \<union> {a, r, t} \<longrightarrow> h1 b = h b" using h1(3) by simp
  ultimately show ?thesis unfolding h1(1) using h1(2) by blast
qed

text \<open>
  C31. Who frees what.  An array or object and the documents \<open>us\<close> own different blocks.  An item of \<open>us\<close> is added to the array a second
  time, as a reference.  Deleting the array then frees every block of the array and the reference itself, each once, and leaves the item it refers to,
  its children and its string as they are, so that the documents \<open>us\<close> can be deleted afterwards: then nothing of either is left and
  no other block has been touched.
\<close>

theorem json_references_deleted:
  assumes "chain h [JNode a False s v n kids]" "chain h us" "distinct (owned [JNode a False s v n kids] @ owned us)"
    and "item \<in> set (owned us)" "h item = Some (JItem x)" "r \<noteq> 0" "h r = None" "length kids \<le> k"
    and "depth [JNode a False s v n kids] + 2 \<le> j" "depth us \<le> i"
  shows "\<exists>h1 h2. cJSON_AddItemReferenceToArray k r a item h = Ret h1 \<and> h1 r \<noteq> None \<and>
    cJSON_Delete j a h1 = Ret h2 \<and> (\<forall>b. h2 b = (if b \<in> set (owned [JNode a False s v n kids]) then None else h b)) \<and>
    cJSON_Delete i (head_of us) h2 = Ret (\<lambda>b. if b \<in> set (owned [JNode a False s v n kids]) \<union> set (owned us) then None else h b)"
proof -
  let ?T = "[JNode a False s v n kids]" and ?R = "JNode r True (jchild x) (valuestring x) 0 []"
  let ?T' = "[JNode a False s v n (kids @ [?R])]"
  have d: "distinct (owned ?T)" "distinct (owned us)" "set (owned ?T) \<inter> set (owned us) = {}" using assms(3) by (simp_all only: distinct_append)
  obtain h1 where 1: "cJSON_AddItemReferenceToArray k r a item h = Ret h1" "chain h1 ?T'" "\<And>b. b \<notin> set (owned kids) \<union> {a, r} \<Longrightarrow> h1 b = h b"
    using add_reference [OF assms(1) d(1) assms(5-8)] by blast
  have r: "r \<notin> set (owned ?T)" using chain_owned [OF assms(1)] assms(7) by blast
  have "depth (ts @ [?R]) = depth ts + 2" for ts by (induction ts rule: owned.induct) simp_all
  then have 2: "cJSON_Delete j a h1 = Ret (without (set (owned ?T')) h1)"
    using delete_chain [OF 1(2), of j] d(1) r assms(9) by (simp split: if_splits)
  have w: "without (set (owned ?T')) h1 = without (set (owned ?T)) h"
    using 1(3) assms(7) by (auto simp: without_def fun_eq_iff)
  have "\<forall>b \<in> set (owned us). without (set (owned ?T)) h b = h b" using d(3) by (metis disjoint_iff without_simps(3))
  then have "chain (without (set (owned ?T)) h) us" by (rule chain_frame [OF assms(2)])
  then have 3: "cJSON_Delete i (head_of us) (without (set (owned ?T)) h) = Ret (without (set (owned us)) (without (set (owned ?T)) h))"
    by (rule delete_chain [OF _ d(2) assms(10)])
  have "h1 r \<noteq> None" using chain_owned [OF 1(2), of r] by simp
  then show ?thesis using 1(1) 2 3 unfolding w without_simps by (auto simp: without_def)
qed

text \<open>An array with a number, to which the string of another document is added.\<close>

definition demo_json :: jheap where
  "demo_json = [1 \<mapsto> JItem \<lparr>jnext = 0, jprev = 0, jchild = 2, isref = False, kind = 5, valuestring = 0, jname = 0\<rparr>,
     2 \<mapsto> JItem \<lparr>jnext = 0, jprev = 0, jchild = 0, isref = False, kind = 3, valuestring = 0, jname = 0\<rparr>,
     3 \<mapsto> JItem \<lparr>jnext = 0, jprev = 0, jchild = 0, isref = False, kind = 4, valuestring = 4, jname = 0\<rparr>, 4 \<mapsto> JText]"

theorem json_references_deleted_witness:
  "\<exists>h1 h2. cJSON_AddItemReferenceToArray 1 9 1 3 demo_json = Ret h1 \<and> cJSON_Delete 8 1 h1 = Ret h2 \<and> h2 2 = None \<and> h2 9 = None \<and> h2 4 = Some JText \<and>
     cJSON_Delete 3 3 h2 = Ret (\<lambda>_. None)"
proof -
  let ?kids = "[JNode 2 False 0 0 0 []]" and ?us = "[JNode 3 False 0 4 0 []]"
  have h: "chain demo_json [JNode 1 False 0 0 0 ?kids]" "chain demo_json ?us" by (simp_all add: demo_json_def)
  obtain x where x: "demo_json 3 = Some (JItem x)" by (simp add: demo_json_def)
  have o: "owned [JNode 1 False 0 0 0 ?kids] = [2, 1]" "owned ?us = [4, 3]" by simp_all
  have p: "distinct (owned [JNode 1 False 0 0 0 ?kids] @ owned ?us)" "3 \<in> set (owned ?us)" "(9 :: nat) \<noteq> 0" "demo_json 9 = None" "length ?kids \<le> 1"
    "depth [JNode 1 False 0 0 0 ?kids] + 2 \<le> 8" "depth ?us \<le> 3"
    by (simp_all add: demo_json_def)
  obtain h1 h2 where 1: "cJSON_AddItemReferenceToArray 1 9 1 3 demo_json = Ret h1" "cJSON_Delete 8 1 h1 = Ret h2"
    "\<forall>b. h2 b = (if b \<in> set [2, 1] then None else demo_json b)" "cJSON_Delete 3 3 h2 = Ret (\<lambda>b. if b \<in> set [2, 1] \<union> set [4, 3] then None else demo_json b)"
    using json_references_deleted [OF h p(1,2) x p(3-7)] unfolding o by auto
  have "(\<lambda>b. if b \<in> set [2, 1] \<union> set [4, 3] then None else demo_json b) = (\<lambda>_. None)" by (auto simp: demo_json_def fun_eq_iff)
  then show ?thesis using 1 by (auto simp: demo_json_def)
qed

text \<open>
  The other order is wrong: after the item has been deleted the reference points to blocks that are gone.  Deleting one item of an
  array without detaching it deletes all items behind it, too.
\<close>

lemma reference_dangles:
  assumes "chain h us" "distinct (owned us)" "depth us \<le> k" "h item = Some (JItem x)" "jchild x \<in> set (owned us)" "create_reference r item h = Ret (r, h1)" "r \<noteq> 0" "h r = None"
  shows "\<exists>h2 y. cJSON_Delete k (head_of us) h1 = Ret h2 \<and> item_at r h2 = Ret y \<and> jchild y \<noteq> 0 \<and> item_at (jchild y) h2 = Fault"
proof -
  have h1: "h1 = h(r \<mapsto> JItem (x\<lparr>jname := 0, isref := True, jnext := 0, jprev := 0\<rparr>))" using assms(4,6,7) by (simp add: create_reference_def item_at_def)
  have r: "r \<notin> set (owned us)" using chain_owned [OF assms(1)] assms(8) by blast
  have "chain h1 us" using chain_frame [OF assms(1), of h1] r by (auto simp: h1)
  then have "cJSON_Delete k (head_of us) h1 = Ret (without (set (owned us)) h1)" by (rule delete_chain [OF _ assms(2,3)])
  moreover have "item_at r (without (set (owned us)) h1) = Ret (x\<lparr>jname := 0, isref := True, jnext := 0, jprev := 0\<rparr>)" using r by (simp add: item_at_def h1)
  moreover have "jchild x \<noteq> 0" using chain_owned [OF assms(1,5)] by simp
  ultimately show ?thesis using assms(5) by (auto simp: item_at_def without_def)
qed

lemma delete_takes_siblings:
  assumes "chain h (t # us)" "distinct (owned (t # us))" "depth (t # us) \<le> k"
  shows "\<exists>h1. cJSON_Delete k (jaddr t) h = Ret h1 \<and> (\<forall>u \<in> set us. h1 (jaddr u) = None)"
  using delete_chain [OF assms] jaddr_owned [of _ us] owned_append [of "[t]" us] by (auto simp: without_def)

text \<open>With only one hook the other function is the default: memory is allocated by one and freed by the other.\<close>

lemma one_hook: "cJSON_InitHooks (Some (Some m, None)) malloc free = (m, free)"
  by (simp add: cJSON_InitHooks_def)

end
