(* ===== verification/Ref_Base.thy ===== *)
theory Ref_Base
  imports Ckits_Prelude "HOL-Library.Monad_Syntax"
begin

text \<open>
  The reference counts of \<open>system/libutils/RefBase.cpp\<close> (without \<open>DEBUG_REFS\<close>), on which the
  transports, buffers and nodes of the program rest.  One object and its \<open>weakref_impl\<close> are a record:
  the two counts, the flags and whether either of the two memory blocks is still allocated; an access
  to a deleted block is \<open>None\<close>.

  Every operation is a sequence of atomic accesses to the counts.  \<open>rb_step\<close> makes one of them, from
  one control point \<open>rb_pc\<close> to the next; \<open>rb_call\<close> runs an operation to its end in one thread, and
  \<open>rb_threads\<close> interleaves any number of threads.  Destructors of derived classes are not part of this
  component: a deletion is recorded in the field \<open>obj\<close>.  The virtual functions are the base class's (no
  class of the program overrides one with a body), their calls are recorded in \<open>hooks\<close>.
\<close>

unbundle bit_operations_syntax

section \<open>Model\<close>

datatype rb_hook = OnFirstRef | OnLastStrongRef | OnLastWeakRef

record refs_t =
  mStrong :: int
  mWeak :: int
  mFlags :: u32
  obj :: bool \<comment> \<open>the object is not deleted\<close>
  impl :: bool \<comment> \<open>the \<open>weakref_impl\<close> is not deleted\<close>
  hooks :: "rb_hook list"

definition INITIAL_STRONG_VALUE :: int where "INITIAL_STRONG_VALUE = 268435456"
definition OBJECT_LIFETIME_STRONG :: u32 where "OBJECT_LIFETIME_STRONG = 0"
definition OBJECT_LIFETIME_WEAK :: u32 where "OBJECT_LIFETIME_WEAK = 1"
definition OBJECT_LIFETIME_MASK :: u32 where "OBJECT_LIFETIME_MASK = 1"
definition FIRST_INC_STRONG :: u32 where "FIRST_INC_STRONG = 1"

definition RefBase_init :: refs_t where
  \<comment> \<open>the constructors of \<open>RefBase\<close> and \<open>weakref_impl\<close>\<close>
  "RefBase_init = \<lparr>mStrong = INITIAL_STRONG_VALUE, mWeak = 0, mFlags = 0, obj = True, impl = True, hooks = []\<rparr>"

text \<open>The atomic accesses; each returns the value before it.\<close>

definition add_strong :: "int \<Rightarrow> refs_t \<Rightarrow> (int \<times> refs_t) option" where
  "add_strong d r = (if impl r then Some (mStrong r, r\<lparr>mStrong := c_int (mStrong r + d)\<rparr>) else None)"

definition add_weak :: "int \<Rightarrow> refs_t \<Rightarrow> (int \<times> refs_t) option" where
  "add_weak d r = (if impl r then Some (mWeak r, r\<lparr>mWeak := c_int (mWeak r + d)\<rparr>) else None)"

definition hook :: "rb_hook \<Rightarrow> refs_t \<Rightarrow> refs_t option" where
  \<comment> \<open>a virtual call through \<open>mBase\<close>\<close>
  "hook k r = (if impl r \<and> obj r then Some (r\<lparr>hooks := hooks r @ [k]\<rparr>) else None)"

definition onIncStrongAttempted :: "u32 \<Rightarrow> refs_t \<Rightarrow> bool option" where
  "onIncStrongAttempted flags r = (if impl r \<and> obj r then Some (flags AND FIRST_INC_STRONG \<noteq> 0) else None)"

definition delete_impl :: "refs_t \<Rightarrow> refs_t option" where
  "delete_impl r = (if impl r then Some (r\<lparr>impl := False\<rparr>) else None)"

definition RefBase_destroy :: "refs_t \<Rightarrow> refs_t option" where
  \<comment> \<open>\<open>delete\<close> of the object: \<open>~RefBase\<close>, then its memory\<close>
  "RefBase_destroy r =
     (if obj r \<and> impl r then
        map_option (\<lambda>r'. r'\<lparr>obj := False\<rparr>)
          (if mStrong r = INITIAL_STRONG_VALUE then delete_impl r
           else if mFlags r AND OBJECT_LIFETIME_MASK \<noteq> OBJECT_LIFETIME_STRONG \<and> mWeak r = 0 then delete_impl r
           else Some r)
      else None)"

definition extendObjectLifetime :: "u32 \<Rightarrow> refs_t \<Rightarrow> refs_t option" where
  "extendObjectLifetime mode r = (if obj r \<and> impl r then Some (r\<lparr>mFlags := mFlags r OR mode\<rparr>) else None)"

datatype rb_result = GotStrong | GotWeak | Dropped | Refused

text \<open>
  The control points.  The argument of a point is the local variable the code has there: \<open>c\<close> or
  \<open>curCount\<close>, and for \<open>decWeak\<close> what the operation that ends with it returns.
\<close>

datatype rb_pc =
    IncWeak | CreateWeak
  | IncStrong | IncStrongCount | IncStrongFirst
  | ForceIncStrong | ForceIncStrongCount
  | DecStrong | DecStrongLast int
  | DecWeak rb_result | DecWeakLast int rb_result
  | AttemptIncStrong | AttemptRead | AttemptLoop int | AttemptAllowed | AttemptFirst
  | AttemptIncWeak | AttemptWeakLoop int
  | Return rb_result

definition last_weak :: "refs_t \<Rightarrow> refs_t option" where
  \<comment> \<open>\<open>decWeak\<close> after the last weak reference has gone\<close>
  "last_weak r =
     (if \<not> impl r then None
      else if mFlags r AND OBJECT_LIFETIME_WEAK = OBJECT_LIFETIME_STRONG then
        (if mStrong r = INITIAL_STRONG_VALUE then RefBase_destroy r else delete_impl r)
      else hook OnLastWeakRef r \<bind>
        (\<lambda>r1. if mFlags r1 AND OBJECT_LIFETIME_MASK = OBJECT_LIFETIME_WEAK then RefBase_destroy r1 else Some r1))"

definition attempt_allow :: "int \<Rightarrow> refs_t \<Rightarrow> bool option" where
  \<comment> \<open>the value of \<open>allow\<close> for \<open>curCount\<close>\<close>
  "attempt_allow cur r =
     (if \<not> impl r then None
      else if cur = INITIAL_STRONG_VALUE then
        (if mFlags r AND OBJECT_LIFETIME_WEAK \<noteq> OBJECT_LIFETIME_WEAK then Some True
         else onIncStrongAttempted FIRST_INC_STRONG r)
      else if mFlags r AND OBJECT_LIFETIME_WEAK = OBJECT_LIFETIME_WEAK then onIncStrongAttempted FIRST_INC_STRONG r
      else Some False)"

fun rb_step :: "rb_pc \<Rightarrow> refs_t \<Rightarrow> (rb_pc \<times> refs_t) option" where
  "rb_step IncWeak r = map_option (\<lambda>(c, r'). (Return GotWeak, r')) (add_weak 1 r)"
| "rb_step CreateWeak r = (if obj r then Some (IncWeak, r) else None)"
| "rb_step IncStrong r = (if obj r then map_option (\<lambda>(c, r'). (IncStrongCount, r')) (add_weak 1 r) else None)"
| "rb_step IncStrongCount r =
     map_option (\<lambda>(c, r'). (if c \<noteq> INITIAL_STRONG_VALUE then Return GotStrong else IncStrongFirst, r')) (add_strong 1 r)"
| "rb_step IncStrongFirst r =
     add_strong (- INITIAL_STRONG_VALUE) r \<bind> (\<lambda>(c, r'). map_option (Pair (Return GotStrong)) (hook OnFirstRef r'))"
| "rb_step ForceIncStrong r = (if obj r then map_option (\<lambda>(c, r'). (ForceIncStrongCount, r')) (add_weak 1 r) else None)"
| "rb_step ForceIncStrongCount r =
     add_strong 1 r \<bind>
     (\<lambda>(c, r'). if c = INITIAL_STRONG_VALUE then Some (IncStrongFirst, r')
                else if c = 0 then map_option (Pair (Return GotStrong)) (hook OnFirstRef r')
                else Some (Return GotStrong, r'))"
| "rb_step DecStrong r = (if obj r then map_option (\<lambda>(c, r'). (DecStrongLast c, r')) (add_strong (- 1) r) else None)"
| "rb_step (DecStrongLast c) r =
     (if c = 1 then
        hook OnLastStrongRef r \<bind>
        (\<lambda>r1. map_option (Pair (DecWeak Dropped))
           (if mFlags r1 AND OBJECT_LIFETIME_MASK = OBJECT_LIFETIME_STRONG then RefBase_destroy r1 else Some r1))
      else Some (DecWeak Dropped, r))"
| "rb_step (DecWeak res) r = map_option (\<lambda>(c, r'). (DecWeakLast c res, r')) (add_weak (- 1) r)"
| "rb_step (DecWeakLast c res) r =
     (if c \<noteq> 1 then Some (Return res, r) else map_option (Pair (Return res)) (last_weak r))"
| "rb_step AttemptIncStrong r = map_option (\<lambda>(c, r'). (AttemptRead, r')) (add_weak 1 r)"
| "rb_step AttemptRead r = (if impl r then Some (AttemptLoop (mStrong r), r) else None)"
| "rb_step (AttemptLoop cur) r =
     (if \<not> impl r then None
      else if cur > 0 \<and> cur \<noteq> INITIAL_STRONG_VALUE then
        \<comment> \<open>\<open>android_atomic_cmpxchg\<close>\<close>
        (if mStrong r = cur then Some (Return GotStrong, r\<lparr>mStrong := c_int (cur + 1)\<rparr>) else Some (AttemptRead, r))
      else map_option (\<lambda>allow. (if allow then AttemptAllowed else DecWeak Refused, r)) (attempt_allow cur r))"
| "rb_step AttemptAllowed r =
     add_strong 1 r \<bind>
     (\<lambda>(c, r'). map_option (Pair (if c = INITIAL_STRONG_VALUE then AttemptFirst else Return GotStrong))
        (if c > 0 \<and> c < INITIAL_STRONG_VALUE then hook OnLastStrongRef r' else Some r'))"
| "rb_step AttemptFirst r =
     add_strong (- INITIAL_STRONG_VALUE) r \<bind> (\<lambda>(c, r'). map_option (Pair (Return GotStrong)) (hook OnFirstRef r'))"
| "rb_step AttemptIncWeak r = (if impl r then Some (AttemptWeakLoop (mWeak r), r) else None)"
| "rb_step (AttemptWeakLoop cur) r =
     (if \<not> impl r then None
      else if cur > 0 then
        (if mWeak r = cur then Some (Return GotWeak, r\<lparr>mWeak := c_int (cur + 1)\<rparr>) else Some (AttemptIncWeak, r))
      else Some (Return Refused, r))"
| "rb_step (Return res) r = Some (Return res, r)"

text \<open>
  An operation that runs alone: its steps one after the other.  No operation needs more than six,
  because without interference every compare-and-exchange succeeds.
\<close>

fun rb_run :: "nat \<Rightarrow> rb_pc \<Rightarrow> refs_t \<Rightarrow> (rb_result \<times> refs_t) option" where
  "rb_run n (Return res) r = Some (res, r)"
| "rb_run 0 p r = None"
| "rb_run (Suc n) p r = (case rb_step p r of None \<Rightarrow> None | Some (p', r') \<Rightarrow> rb_run n p' r')"

definition rb_call :: "rb_pc \<Rightarrow> refs_t \<Rightarrow> (rb_result \<times> refs_t) option" where
  "rb_call p r = rb_run 6 p r"

definition incWeak :: "refs_t \<Rightarrow> refs_t option" where
  "incWeak r = map_option snd (rb_call IncWeak r)"

definition decWeak :: "refs_t \<Rightarrow> refs_t option" where
  "decWeak r = map_option snd (rb_call (DecWeak Dropped) r)"

definition createWeak :: "refs_t \<Rightarrow> refs_t option" where
  "createWeak r = map_option snd (rb_call CreateWeak r)"

definition incStrong :: "refs_t \<Rightarrow> refs_t option" where
  "incStrong r = map_option snd (rb_call IncStrong r)"

definition forceIncStrong :: "refs_t \<Rightarrow> refs_t option" where
  "forceIncStrong r = map_option snd (rb_call ForceIncStrong r)"

definition decStrong :: "refs_t \<Rightarrow> refs_t option" where
  "decStrong r = map_option snd (rb_call DecStrong r)"

definition attemptIncStrong :: "refs_t \<Rightarrow> (bool \<times> refs_t) option" where
  "attemptIncStrong r = map_option (\<lambda>(res, r'). (res = GotStrong, r')) (rb_call AttemptIncStrong r)"

definition attemptIncWeak :: "refs_t \<Rightarrow> (bool \<times> refs_t) option" where
  "attemptIncWeak r = map_option (\<lambda>(res, r'). (res = GotWeak, r')) (rb_call AttemptIncWeak r)"

section \<open>Threads\<close>

text \<open>
  A thread owns references and is idle (\<open>None\<close>) or inside an operation.  It starts an operation only
  when it owns what the interface asks for: a reference to copy, to promote or to drop.  A reference
  that is dropped is handed over to the operation.  A new one is taken only below the limit of \<open>2 ^ 28\<close>
  references, at which a count would equal \<open>INITIAL_STRONG_VALUE\<close>.
\<close>

record rb_thread =
  strongs :: int
  weaks :: int
  pc :: "rb_pc option"

type_synonym rb_state = "refs_t \<times> rb_thread list"

fun strong_at :: "rb_pc \<Rightarrow> int" where
  \<comment> \<open>what an operation has in the strong count at a control point\<close>
  "strong_at IncStrongFirst = 1"
| "strong_at DecStrong = 1"
| "strong_at AttemptFirst = 1"
| "strong_at (Return GotStrong) = 1"
| "strong_at _ = 0"

fun weak_at :: "rb_pc \<Rightarrow> int" where
  "weak_at IncStrongCount = 1"
| "weak_at IncStrongFirst = 1"
| "weak_at ForceIncStrongCount = 1"
| "weak_at DecStrong = 1"
| "weak_at (DecStrongLast c) = 1"
| "weak_at (DecWeak res) = 1"
| "weak_at AttemptRead = 1"
| "weak_at (AttemptLoop c) = 1"
| "weak_at AttemptAllowed = 1"
| "weak_at AttemptFirst = 1"
| "weak_at (Return GotStrong) = 1"
| "weak_at (Return GotWeak) = 1"
| "weak_at _ = 0"

fun starts :: "rb_pc \<Rightarrow> bool" where
  \<comment> \<open>the entry points that take a new reference\<close>
  "starts IncWeak = True"
| "starts CreateWeak = True"
| "starts IncStrong = True"
| "starts ForceIncStrong = True"
| "starts AttemptIncStrong = True"
| "starts AttemptIncWeak = True"
| "starts (AttemptWeakLoop c) = True"
| "starts _ = False"

definition own_strong :: "rb_thread \<Rightarrow> int" where
  "own_strong t = strongs t + (case pc t of None \<Rightarrow> 0 | Some p \<Rightarrow> strong_at p)"

definition own_weak :: "rb_thread \<Rightarrow> int" where
  "own_weak t = strongs t + weaks t + (case pc t of None \<Rightarrow> 0 | Some p \<Rightarrow> weak_at p)"

definition own_reserved :: "rb_thread \<Rightarrow> int" where
  "own_reserved t = own_weak t + (case pc t of None \<Rightarrow> 0 | Some p \<Rightarrow> if starts p then 1 else 0)"

definition last_strong_pending :: "rb_thread \<Rightarrow> int" where
  "last_strong_pending t = (if pc t = Some (DecStrongLast 1) then 1 else 0)"

definition last_weak_pending :: "rb_thread \<Rightarrow> int" where
  "last_weak_pending t = (case pc t of Some (DecWeakLast c res) \<Rightarrow> if c = 1 then 1 else 0 | _ \<Rightarrow> 0)"

definition total :: "(rb_thread \<Rightarrow> int) \<Rightarrow> rb_thread list \<Rightarrow> int" where
  "total f ts = sum_list (map f ts)"

fun give_back :: "rb_result \<Rightarrow> rb_thread \<Rightarrow> rb_thread" where
  "give_back GotStrong t = t\<lparr>strongs := strongs t + 1, pc := None\<rparr>"
| "give_back GotWeak t = t\<lparr>weaks := weaks t + 1, pc := None\<rparr>"
| "give_back Dropped t = t\<lparr>pc := None\<rparr>"
| "give_back Refused t = t\<lparr>pc := None\<rparr>"

inductive thread_starts :: "rb_thread list \<Rightarrow> rb_thread \<Rightarrow> rb_thread \<Rightarrow> bool" where
  copy_strong: "pc t = None \<Longrightarrow> strongs t > 0 \<Longrightarrow> total own_reserved ts < INITIAL_STRONG_VALUE - 1 \<Longrightarrow>
    p \<in> {IncStrong, ForceIncStrong, CreateWeak, IncWeak} \<Longrightarrow> thread_starts ts t (t\<lparr>pc := Some p\<rparr>)"
| copy_weak: "pc t = None \<Longrightarrow> weaks t > 0 \<Longrightarrow> total own_reserved ts < INITIAL_STRONG_VALUE - 1 \<Longrightarrow>
    p \<in> {IncWeak, AttemptIncWeak, AttemptIncStrong} \<Longrightarrow> thread_starts ts t (t\<lparr>pc := Some p\<rparr>)"
| drop_strong: "pc t = None \<Longrightarrow> strongs t > 0 \<Longrightarrow>
    thread_starts ts t (t\<lparr>strongs := strongs t - 1, pc := Some DecStrong\<rparr>)"
| drop_weak: "pc t = None \<Longrightarrow> weaks t > 0 \<Longrightarrow>
    thread_starts ts t (t\<lparr>weaks := weaks t - 1, pc := Some (DecWeak Dropped)\<rparr>)"

inductive rb_threads :: "rb_state \<Rightarrow> rb_state \<Rightarrow> bool" where
  start: "i < length ts \<Longrightarrow> thread_starts ts (ts ! i) t \<Longrightarrow> rb_threads (r, ts) (r, ts[i := t])"
| step: "i < length ts \<Longrightarrow> pc (ts ! i) = Some p \<Longrightarrow> rb_step p r = Some (p', r') \<Longrightarrow>
    rb_threads (r, ts) (r', ts[i := (ts ! i)\<lparr>pc := Some p'\<rparr>])"
| return: "i < length ts \<Longrightarrow> pc (ts ! i) = Some (Return res) \<Longrightarrow> rb_threads (r, ts) (r, ts[i := give_back res (ts ! i)])"

inductive_cases thread_startsE: "thread_starts ts t t'"
inductive_cases rb_threadsE: "rb_threads s s'"

section \<open>The invariant of the counts\<close>

text \<open>
  While the object has had its first strong reference, the counts are what the threads and the running
  operations own; each block is allocated while its count is positive or the thread that brought the
  count to zero has not deleted it yet.
\<close>

fun pc_ok :: "rb_pc \<Rightarrow> bool" where
  "pc_ok IncStrongFirst = False"
| "pc_ok AttemptAllowed = False"
| "pc_ok AttemptFirst = False"
| "pc_ok (DecWeak res) = (res = Dropped \<or> res = Refused)"
| "pc_ok (DecWeakLast c res) = (res = Dropped \<or> res = Refused)"
| "pc_ok (AttemptLoop c) = (0 \<le> c \<and> c < INITIAL_STRONG_VALUE)"
| "pc_ok _ = True"

definition thread_ok :: "rb_thread \<Rightarrow> bool" where
  "thread_ok t \<longleftrightarrow> 0 \<le> strongs t \<and> 0 \<le> weaks t \<and>
     (case pc t of None \<Rightarrow> True
      | Some p \<Rightarrow> pc_ok p \<and>
          (p \<in> {IncStrong, IncStrongCount, ForceIncStrong, ForceIncStrongCount, CreateWeak} \<longrightarrow> strongs t > 0) \<and>
          (starts p \<longrightarrow> strongs t > 0 \<or> weaks t > 0))"

definition counts_ok :: "rb_state \<Rightarrow> bool" where
  "counts_ok s \<longleftrightarrow> (case s of (r, ts) \<Rightarrow>
     mFlags r = 0 \<and> (\<forall>t \<in> set ts. thread_ok t) \<and>
     mStrong r = total own_strong ts \<and> mWeak r = total own_weak ts \<and>
     total own_reserved ts < INITIAL_STRONG_VALUE \<and>
     total last_strong_pending ts = (if obj r \<and> mStrong r = 0 then 1 else 0) \<and>
     total last_weak_pending ts = (if impl r \<and> mWeak r = 0 then 1 else 0) \<and>
     (\<not> obj r \<longrightarrow> mStrong r = 0) \<and> (\<not> impl r \<longrightarrow> mWeak r = 0))"

lemma total_update:
  assumes "i < length ts"
  shows "total f (ts[i := t]) = total f ts - f (ts ! i) + f t"
  using assms unfolding total_def
proof (induction ts arbitrary: i)
  case (Cons x ts)
  then show ?case by (cases i) auto
qed simp

lemma total_ge:
  assumes "i < length ts" "\<forall>t \<in> set ts. 0 \<le> f t"
  shows "f (ts ! i) \<le> total f ts"
  using assms unfolding total_def
proof (induction ts arbitrary: i)
  case (Cons x ts)
  moreover have "0 \<le> sum_list (map f ts)" using Cons.prems(2) by (intro sum_list_nonneg) auto
  ultimately show ?case by (cases i) fastforce+
qed simp

lemma total_mono: "\<forall>t \<in> set ts. f t \<le> g t \<Longrightarrow> total f ts \<le> total g ts"
  unfolding total_def by (intro sum_list_mono) auto

lemma strong_at_bounds: "0 \<le> strong_at p \<and> strong_at p \<le> weak_at p"
  by (induction p rule: strong_at.induct) simp_all

lemma weak_at_bounds: "0 \<le> weak_at p \<and> weak_at p \<le> 1 \<and> (starts p \<longrightarrow> weak_at p = 0)"
  by (induction p rule: weak_at.induct) simp_all

lemma own_bounds:
  assumes "thread_ok t"
  shows "0 \<le> own_strong t" "own_strong t \<le> own_weak t" "own_weak t \<le> own_reserved t"
    "0 \<le> last_strong_pending t" "0 \<le> last_weak_pending t" "strongs t \<le> own_strong t" "strongs t + weaks t \<le> own_weak t"
proof -
  have n: "0 \<le> strongs t" "0 \<le> weaks t" using assms by (simp_all add: thread_ok_def)
  define sa wa where "sa = (case pc t of None \<Rightarrow> 0 | Some p \<Rightarrow> strong_at p)"
    and "wa = (case pc t of None \<Rightarrow> 0 | Some p \<Rightarrow> weak_at p)"
  have a: "0 \<le> sa" "sa \<le> wa" using strong_at_bounds by (simp_all add: sa_def wa_def split: option.splits)
  have "own_strong t = strongs t + sa" "own_weak t = strongs t + weaks t + wa"
    by (simp_all add: own_strong_def own_weak_def sa_def wa_def)
  then show "0 \<le> own_strong t" "own_strong t \<le> own_weak t" "strongs t \<le> own_strong t" "strongs t + weaks t \<le> own_weak t"
    using n a by linarith+
  show "own_weak t \<le> own_reserved t" by (simp add: own_reserved_def split: option.splits)
  show "0 \<le> last_strong_pending t" "0 \<le> last_weak_pending t"
    by (simp_all add: last_strong_pending_def last_weak_pending_def split: option.splits rb_pc.splits)
qed

lemma counts_ok_bounds:
  assumes "counts_ok (r, ts)" "i < length ts"
  shows "thread_ok (ts ! i)" "own_strong (ts ! i) \<le> mStrong r" "own_weak (ts ! i) \<le> mWeak r"
    "0 \<le> mStrong r" "mStrong r \<le> mWeak r" "mWeak r + (own_reserved (ts ! i) - own_weak (ts ! i)) < INITIAL_STRONG_VALUE"
    "last_strong_pending (ts ! i) > 0 \<Longrightarrow> obj r \<and> mStrong r = 0"
    "last_weak_pending (ts ! i) > 0 \<Longrightarrow> impl r \<and> mWeak r = 0"
proof -
  note c = assms(1) [unfolded counts_ok_def prod.case]
  have ok: "\<forall>t \<in> set ts. thread_ok t" using c by blast
  then show "thread_ok (ts ! i)" using assms(2) by simp
  have nn: "\<forall>t \<in> set ts. 0 \<le> own_strong t" "\<forall>t \<in> set ts. 0 \<le> own_weak t" "\<forall>t \<in> set ts. 0 \<le> own_reserved t - own_weak t"
    "\<forall>t \<in> set ts. 0 \<le> last_strong_pending t" "\<forall>t \<in> set ts. 0 \<le> last_weak_pending t"
    using ok own_bounds by (fastforce intro: order_trans)+
  show s: "own_strong (ts ! i) \<le> mStrong r" and "own_weak (ts ! i) \<le> mWeak r"
    using total_ge [OF assms(2) nn(1)] total_ge [OF assms(2) nn(2)] c by simp_all
  show "0 \<le> mStrong r" using s nn(1) assms(2) by (meson nth_mem order_trans)
  show "mStrong r \<le> mWeak r" using total_mono [of ts own_strong own_weak] ok own_bounds c by simp
  have "total (\<lambda>t. own_reserved t - own_weak t) ts = total own_reserved ts - total own_weak ts"
    by (simp add: total_def sum_list_subtractf)
  then show "mWeak r + (own_reserved (ts ! i) - own_weak (ts ! i)) < INITIAL_STRONG_VALUE"
    using total_ge [OF assms(2) nn(3)] c by simp
  show "last_strong_pending (ts ! i) > 0 \<Longrightarrow> obj r \<and> mStrong r = 0"
    using total_ge [OF assms(2) nn(4)] c by (auto split: if_splits)
  show "last_weak_pending (ts ! i) > 0 \<Longrightarrow> impl r \<and> mWeak r = 0"
    using total_ge [OF assms(2) nn(5)] c by (auto split: if_splits)
qed

lemma counts_ok_update:
  assumes "counts_ok (r, ts)" "i < length ts" "thread_ok t" "mFlags r' = 0"
    "mStrong r' = mStrong r - own_strong (ts ! i) + own_strong t"
    "mWeak r' = mWeak r - own_weak (ts ! i) + own_weak t"
    "total own_reserved ts - own_reserved (ts ! i) + own_reserved t < INITIAL_STRONG_VALUE"
    "(if obj r \<and> mStrong r = 0 then 1 else 0) - last_strong_pending (ts ! i) + last_strong_pending t =
       (if obj r' \<and> mStrong r' = 0 then 1 else 0)"
    "(if impl r \<and> mWeak r = 0 then 1 else 0) - last_weak_pending (ts ! i) + last_weak_pending t =
       (if impl r' \<and> mWeak r' = 0 then 1 else 0)"
    "\<not> obj r' \<longrightarrow> mStrong r' = 0" "\<not> impl r' \<longrightarrow> mWeak r' = 0"
  shows "counts_ok (r', ts[i := t])"
proof -
  note c = assms(1) [unfolded counts_ok_def prod.case]
  have "\<forall>t \<in> set ts. thread_ok t" using c by blast
  then have "\<forall>t' \<in> set (ts[i := t]). thread_ok t'"
    using assms(3) set_update_subset_insert [of ts i t] by blast
  then show ?thesis
    unfolding counts_ok_def prod.case total_update [OF assms(2)] using c assms(4-) by (intro conjI) simp_all
qed

lemmas rb_ops = add_strong_def add_weak_def hook_def delete_impl_def RefBase_destroy_def last_weak_def
  attempt_allow_def onIncStrongAttempted_def OBJECT_LIFETIME_STRONG_def OBJECT_LIFETIME_WEAK_def OBJECT_LIFETIME_MASK_def
  INITIAL_STRONG_VALUE_def

lemmas own_defs = own_strong_def own_weak_def own_reserved_def last_strong_pending_def last_weak_pending_def thread_ok_def

lemma counts_ok_step:
  assumes "counts_ok (r, ts)" "i < length ts" "pc (ts ! i) = Some p"
  shows "\<exists>p' r'. rb_step p r = Some (p', r') \<and> counts_ok (r', ts[i := (ts ! i)\<lparr>pc := Some p'\<rparr>])"
proof -
  define t where "t = ts ! i"
  note c = assms(1) [unfolded counts_ok_def prod.case]
  note b = counts_ok_bounds [OF assms(1,2), folded t_def]
  note u = counts_ok_update [OF assms(1,2), folded t_def]
  have pc: "pc t = Some p" using assms(3) by (simp add: t_def)
  have al: "obj r \<or> mStrong r = 0" "impl r \<or> mWeak r = 0" and fl: "mFlags r = 0"
    and R: "total own_reserved ts < INITIAL_STRONG_VALUE" using c by auto
  have n: "0 \<le> strongs t" "0 \<le> weaks t" using b(1) by (simp_all add: thread_ok_def)
  show ?thesis unfolding t_def [symmetric] using b pc al fl n R
    by (cases p; auto simp: rb_ops own_defs c_int_id intro!: u)
qed

lemma counts_ok_start:
  assumes "counts_ok (r, ts)" "i < length ts" "thread_starts ts (ts ! i) t'"
  shows "counts_ok (r, ts[i := t'])"
proof -
  define t where "t = ts ! i"
  note c = assms(1) [unfolded counts_ok_def prod.case]
  note b = counts_ok_bounds(1) [OF assms(1,2), folded t_def]
  note u = counts_ok_update [OF assms(1,2), folded t_def]
  have R: "total own_reserved ts < INITIAL_STRONG_VALUE" "mFlags r = 0" "obj r \<or> mStrong r = 0" "impl r \<or> mWeak r = 0"
    using c by auto
  from assms(3) [folded t_def] show ?thesis
    by (cases rule: thread_starts.cases) (use b R in \<open>auto simp: own_defs INITIAL_STRONG_VALUE_def intro!: u\<close>)
qed

lemma counts_ok_return:
  assumes "counts_ok (r, ts)" "i < length ts" "pc (ts ! i) = Some (Return res)"
  shows "counts_ok (r, ts[i := give_back res (ts ! i)])"
proof -
  define t where "t = ts ! i"
  note c = assms(1) [unfolded counts_ok_def prod.case]
  note b = counts_ok_bounds(1) [OF assms(1,2), folded t_def]
  note u = counts_ok_update [OF assms(1,2), folded t_def]
  have R: "total own_reserved ts < INITIAL_STRONG_VALUE" "mFlags r = 0" "obj r \<or> mStrong r = 0" "impl r \<or> mWeak r = 0"
    using c by auto
  show ?thesis unfolding t_def [symmetric] using b R assms(3) [folded t_def]
    by (cases res; auto simp: own_defs INITIAL_STRONG_VALUE_def intro!: u)
qed

lemma counts_ok_threads:
  assumes "rb_threads s s'" "counts_ok s"
  shows "counts_ok s'"
  using assms
proof cases
  case (start i ts t r)
  then show ?thesis using assms(2) counts_ok_start by simp
next
  case (step i ts p r p' r')
  then show ?thesis using assms(2) counts_ok_step [of r ts i p] by simp
next
  case (return i ts res r)
  then show ?thesis using assms(2) counts_ok_return by simp
qed

lemma counts_ok_reach: "rb_threads\<^sup>*\<^sup>* s s' \<Longrightarrow> counts_ok s \<Longrightarrow> counts_ok s'"
  by (induction rule: rtranclp_induct) (auto intro: counts_ok_threads)

definition shared :: "refs_t \<Rightarrow> rb_thread list \<Rightarrow> bool" where
  \<comment> \<open>no operation runs, the threads own all references, at least one of them strong\<close>
  "shared r ts \<longleftrightarrow> mFlags r = 0 \<and> obj r \<and> impl r \<and> (\<forall>t \<in> set ts. pc t = None \<and> 0 \<le> strongs t \<and> 0 \<le> weaks t) \<and>
     mStrong r = total strongs ts \<and> mWeak r = total (\<lambda>t. strongs t + weaks t) ts \<and>
     0 < mStrong r \<and> mWeak r < INITIAL_STRONG_VALUE"

lemma total_idle:
  assumes "\<forall>t \<in> set ts. pc t = None"
  shows "total own_strong ts = total strongs ts" "total own_weak ts = total (\<lambda>t. strongs t + weaks t) ts"
    "total own_reserved ts = total (\<lambda>t. strongs t + weaks t) ts"
    "total last_strong_pending ts = 0" "total last_weak_pending ts = 0"
  using assms unfolding total_def by (induction ts) (auto simp: own_defs)

lemma shared_counts_ok: "shared r ts \<Longrightarrow> counts_ok (r, ts)"
  using total_mono [of ts strongs "\<lambda>t. strongs t + weaks t"]
  by (auto simp: shared_def counts_ok_def total_idle thread_ok_def)

section \<open>Properties\<close>

text \<open>
  C11. Reference counting is safe under every interleaving.  Any number of threads own strong and weak
  references to one object (default lifetime), at least one of them strong, fewer than \<open>2 ^ 28\<close> in all.
  However they interleave \<open>incStrong\<close>, \<open>forceIncStrong\<close>, \<open>createWeak\<close>, \<open>incWeak\<close>, \<open>attemptIncWeak\<close>,
  \<open>attemptIncStrong\<close>, \<open>decStrong\<close> and \<open>decWeak\<close>, down to their atomic accesses: no step touches deleted
  memory; the object lives while any thread owns a strong reference, also one that
  \<open>attemptIncStrong\<close> has just got, and the counts while any thread owns a reference; whenever no
  operation is running the counts are exactly what the threads own, and the object, and the counts,
  are deleted if and only if the last strong, and the last, reference is gone.
\<close>

theorem refcount_interleavings:
  assumes "shared r\<^sub>0 ts\<^sub>0" "rb_threads\<^sup>*\<^sup>* (r\<^sub>0, ts\<^sub>0) (r, ts)"
  shows "(\<forall>i < length ts. \<forall>p. pc (ts ! i) = Some p \<longrightarrow> rb_step p r \<noteq> None) \<and>
    (\<forall>i < length ts. (own_strong (ts ! i) > 0 \<longrightarrow> obj r) \<and> (own_weak (ts ! i) > 0 \<longrightarrow> impl r)) \<and>
    ((\<forall>t \<in> set ts. pc t = None) \<longrightarrow>
      mStrong r = total strongs ts \<and> mWeak r = total (\<lambda>t. strongs t + weaks t) ts \<and>
      (obj r \<longleftrightarrow> total strongs ts > 0) \<and> (impl r \<longleftrightarrow> total (\<lambda>t. strongs t + weaks t) ts > 0))"
proof (intro conjI impI)
  have c: "counts_ok (r, ts)" using counts_ok_reach [OF assms(2)] shared_counts_ok [OF assms(1)] by blast
  note d = c [unfolded counts_ok_def prod.case]
  show "\<forall>i < length ts. \<forall>p. pc (ts ! i) = Some p \<longrightarrow> rb_step p r \<noteq> None"
    using counts_ok_step [OF c] by force
  show "\<forall>i < length ts. (own_strong (ts ! i) > 0 \<longrightarrow> obj r) \<and> (own_weak (ts ! i) > 0 \<longrightarrow> impl r)"
    using counts_ok_bounds(2,3) [OF c] d by force
  assume idle: "\<forall>t \<in> set ts. pc t = None"
  have nn: "0 \<le> total strongs ts" "0 \<le> total (\<lambda>t. strongs t + weaks t) ts"
    using d unfolding total_def by (auto intro!: sum_list_nonneg add_nonneg_nonneg simp: thread_ok_def)
  note e = d [unfolded total_idle [OF idle]]
  show "mStrong r = total strongs ts" "mWeak r = total (\<lambda>t. strongs t + weaks t) ts" using e by blast+
  show "obj r \<longleftrightarrow> total strongs ts > 0" "impl r \<longleftrightarrow> total (\<lambda>t. strongs t + weaks t) ts > 0"
    using e nn by (auto split: if_splits)
qed

text \<open>Schedules: what a thread does next, for concrete runs.\<close>

datatype rb_act = Start rb_pc | Go

fun act :: "nat \<Rightarrow> rb_act \<Rightarrow> rb_state \<Rightarrow> rb_state option" where
  "act i (Start p) (r, ts) =
     (let t = ts ! i in
      if i < length ts \<and> pc t = None then
        (if p = DecStrong \<and> strongs t > 0 then Some (r, ts[i := t\<lparr>strongs := strongs t - 1, pc := Some p\<rparr>])
         else if p = AttemptIncStrong \<and> weaks t > 0 \<and> total own_reserved ts < INITIAL_STRONG_VALUE - 1 then
           Some (r, ts[i := t\<lparr>pc := Some p\<rparr>])
         else None)
      else None)"
| "act i Go (r, ts) =
     (if i < length ts then
        (case pc (ts ! i) of
           None \<Rightarrow> None
         | Some (Return res) \<Rightarrow> Some (r, ts[i := give_back res (ts ! i)])
         | Some p \<Rightarrow> map_option (\<lambda>(p', r'). (r', ts[i := (ts ! i)\<lparr>pc := Some p'\<rparr>])) (rb_step p r))
      else None)"

fun acts :: "(nat \<times> rb_act) list \<Rightarrow> rb_state \<Rightarrow> rb_state option" where
  "acts [] s = Some s"
| "acts ((i, a) # as) s = (case act i a s of None \<Rightarrow> None | Some s' \<Rightarrow> acts as s')"

lemma act_sound: "act i a s = Some s' \<Longrightarrow> rb_threads s s'"
proof (induction i a s rule: act.induct)
  case (1 i p r ts)
  then show ?case
    by (auto simp: Let_def split: if_splits intro!: rb_threads.start thread_starts.intros)
next
  case (2 i r ts)
  then obtain p where p: "i < length ts" "pc (ts ! i) = Some p" by (auto split: if_splits option.splits)
  show ?case
  proof (cases "\<exists>res. p = Return res")
    case True
    then show ?thesis using 2 p by (auto intro!: rb_threads.return)
  next
    case False
    then have "map_option (\<lambda>(p', r'). (r', ts[i := (ts ! i)\<lparr>pc := Some p'\<rparr>])) (rb_step p r) = Some s'"
      using 2 p by (cases p) auto
    then show ?thesis using p by (auto intro!: rb_threads.step)
  qed
qed

lemma acts_sound: "acts as s = Some s' \<Longrightarrow> rb_threads\<^sup>*\<^sup>* s s'"
  by (induction as s rule: acts.induct)
    (auto split: option.splits dest!: act_sound intro: converse_rtranclp_into_rtranclp)

definition demo_threads :: "rb_thread list" where
  "demo_threads = [\<lparr>strongs = 1, weaks = 0, pc = None\<rparr>, \<lparr>strongs = 0, weaks = 1, pc = None\<rparr>]"

definition demo_shared :: refs_t where
  "demo_shared = \<lparr>mStrong = 1, mWeak = 2, mFlags = 0, obj = True, impl = True, hooks = []\<rparr>"

lemma demo_shared_ok: "shared demo_shared demo_threads"
  by (simp add: shared_def demo_shared_def demo_threads_def total_def INITIAL_STRONG_VALUE_def)

lemmas act_eval = demo_shared_def demo_threads_def total_def own_defs rb_ops Let_def c_int_id

theorem refcount_interleavings_witness:
  \<comment> \<open>the promotion starts before and ends after the other thread drops the only strong reference\<close>
  "\<exists>r ts. acts [(1, Start AttemptIncStrong), (1, Go), (1, Go), (0, Start DecStrong), (0, Go), (1, Go), (0, Go)]
      (demo_shared, demo_threads) = Some (r, ts) \<and> \<not> obj r \<and> impl r \<and> own_strong (ts ! 1) = 0 \<and>
     (\<forall>i < length ts. (own_strong (ts ! i) > 0 \<longrightarrow> obj r) \<and> (own_weak (ts ! i) > 0 \<longrightarrow> impl r))"
proof -
  obtain r ts where e: "acts [(1, Start AttemptIncStrong), (1, Go), (1, Go), (0, Start DecStrong), (0, Go), (1, Go), (0, Go)]
      (demo_shared, demo_threads) = Some (r, ts)" "\<not> obj r" "impl r" "own_strong (ts ! 1) = 0"
    by (simp add: act_eval)
  then show ?thesis using refcount_interleavings [OF demo_shared_ok acts_sound [OF e(1)]] by blast
qed

text \<open>
  Without a first strong reference promotion is not safe.  Two threads hold one weak reference each to
  an object that has never had a strong one, and both call \<open>attemptIncStrong\<close>.  The second reads the
  initial count, then the first gets the first strong reference, drops it and so deletes the object;
  the second goes on and increments the count without a further test: it returns success and owns a
  strong reference to the deleted object.
\<close>

theorem attemptIncStrong_initial_race:
  "\<exists>r ts. rb_threads\<^sup>*\<^sup>*
       (RefBase_init\<lparr>mWeak := 2\<rparr>, [\<lparr>strongs = 0, weaks = 1, pc = None\<rparr>, \<lparr>strongs = 0, weaks = 1, pc = None\<rparr>]) (r, ts) \<and>
     strongs (ts ! 1) = 1 \<and> pc (ts ! 1) = None \<and> \<not> obj r"
proof -
  let ?as = "[(1, Start AttemptIncStrong), (1, Go), (1, Go), (1, Go), (0, Start AttemptIncStrong), (0, Go), (0, Go), (0, Go),
    (0, Go), (0, Go), (0, Go), (0, Start DecStrong), (0, Go), (0, Go), (0, Go), (0, Go), (0, Go), (1, Go), (1, Go)]"
  obtain r ts where e: "acts ?as (RefBase_init\<lparr>mWeak := 2\<rparr>,
      [\<lparr>strongs = 0, weaks = 1, pc = None\<rparr>, \<lparr>strongs = 0, weaks = 1, pc = None\<rparr>]) = Some (r, ts)"
    "strongs (ts ! 1) = 1" "pc (ts ! 1) = None" "\<not> obj r"
    by (simp add: act_eval RefBase_init_def)
  then show ?thesis using acts_sound [OF e(1)] by blast
qed

section \<open>Operations that run alone\<close>

text \<open>
  The contract of the operations in one thread: an object is \<open>Fresh\<close> until it gets its first strong
  reference, with some weak ones; then it is \<open>Shared\<close> by strong and weak references.  \<open>Gone\<close> is an
  object that was deleted without ever having had a strong one.
\<close>

datatype rc = Fresh nat | Shared nat nat | Gone

fun rc_total :: "rc \<Rightarrow> nat" where
  "rc_total (Fresh w) = w"
| "rc_total (Shared s w) = s + w"
| "rc_total Gone = 0"

fun rc_alive :: "rc \<Rightarrow> bool" where
  "rc_alive (Fresh w) = True"
| "rc_alive (Shared s w) = (s > 0)"
| "rc_alive Gone = False"

fun rc_incStrong :: "rc \<Rightarrow> rc option" where
  "rc_incStrong (Fresh w) = Some (Shared 1 w)"
| "rc_incStrong (Shared s w) = (if s > 0 then Some (Shared (Suc s) w) else None)"
| "rc_incStrong Gone = None"

fun rc_decStrong :: "rc \<Rightarrow> rc option" where
  "rc_decStrong (Fresh w) = None"
| "rc_decStrong (Shared s w) = (if s > 0 then Some (Shared (s - 1) w) else None)"
| "rc_decStrong Gone = None"

fun rc_createWeak :: "rc \<Rightarrow> rc option" where
  "rc_createWeak (Fresh w) = Some (Fresh (Suc w))"
| "rc_createWeak (Shared s w) = (if s > 0 then Some (Shared s (Suc w)) else None)"
| "rc_createWeak Gone = None"

fun rc_decWeak :: "rc \<Rightarrow> rc option" where
  \<comment> \<open>the last weak reference to an object without a strong one deletes it\<close>
  "rc_decWeak (Fresh w) = (if w > 1 then Some (Fresh (w - 1)) else if w = 1 then Some Gone else None)"
| "rc_decWeak (Shared s w) = (if w > 0 then Some (Shared s (w - 1)) else None)"
| "rc_decWeak Gone = None"

fun rc_attempt :: "rc \<Rightarrow> (bool \<times> rc) option" where
  "rc_attempt (Fresh w) = (if w > 0 then Some (True, Shared 1 w) else None)"
| "rc_attempt (Shared s w) =
     (if w > 0 then Some (if s > 0 then (True, Shared (Suc s) w) else (False, Shared s w)) else None)"
| "rc_attempt Gone = None"

fun refs_rep :: "refs_t \<Rightarrow> rc \<Rightarrow> bool" where
  "refs_rep r (Fresh w) = (mFlags r = 0 \<and> mStrong r = INITIAL_STRONG_VALUE \<and> mWeak r = int w \<and> obj r \<and> impl r)"
| "refs_rep r (Shared s w) = (mFlags r = 0 \<and> mStrong r = int s \<and> mWeak r = int (s + w) \<and>
     (obj r \<longleftrightarrow> s > 0) \<and> (impl r \<longleftrightarrow> s + w > 0))"
| "refs_rep r Gone = (\<not> obj r \<and> \<not> impl r)"

lemma rb_call_unfold: "rb_call p r = rb_run (Suc (Suc (Suc (Suc (Suc (Suc 0)))))) p r"
  by (simp add: rb_call_def eval_nat_numeral)

lemmas rb_calls = rb_call_unfold incWeak_def decWeak_def createWeak_def incStrong_def forceIncStrong_def decStrong_def
  attemptIncStrong_def attemptIncWeak_def

lemma refs_rep_init: "refs_rep RefBase_init (Fresh 0)"
  by (simp add: RefBase_init_def)

lemma refs_rep_alive: "refs_rep r c \<Longrightarrow> obj r \<longleftrightarrow> rc_alive c"
  by (cases c) auto

lemma refs_incStrong:
  assumes "refs_rep r c" "int (rc_total c) < INITIAL_STRONG_VALUE - 1" "rc_incStrong c = Some c'"
  shows "\<exists>r'. incStrong r = Some r' \<and> refs_rep r' c'"
  using assms by (cases c) (auto simp: rb_calls rb_ops c_int_id split: if_splits)

lemma refs_decStrong:
  assumes "refs_rep r c" "int (rc_total c) < INITIAL_STRONG_VALUE - 1" "rc_decStrong c = Some c'"
  shows "\<exists>r'. decStrong r = Some r' \<and> refs_rep r' c'"
  using assms by (cases c) (auto simp: rb_calls rb_ops c_int_id split: if_splits)

lemma refs_createWeak:
  assumes "refs_rep r c" "int (rc_total c) < INITIAL_STRONG_VALUE - 1" "rc_createWeak c = Some c'"
  shows "\<exists>r'. createWeak r = Some r' \<and> refs_rep r' c'"
  using assms by (cases c) (auto simp: rb_calls rb_ops c_int_id split: if_splits)

lemma refs_decWeak:
  assumes "refs_rep r c" "int (rc_total c) < INITIAL_STRONG_VALUE - 1" "rc_decWeak c = Some c'"
  shows "\<exists>r'. decWeak r = Some r' \<and> refs_rep r' c'"
  using assms by (cases c) (auto simp: rb_calls rb_ops c_int_id split: if_splits)

lemma refs_attempt:
  assumes "refs_rep r c" "int (rc_total c) < INITIAL_STRONG_VALUE - 1" "rc_attempt c = Some (b, c')"
  shows "\<exists>r'. attemptIncStrong r = Some (b, r') \<and> refs_rep r' c'"
  using assms by (cases c) (auto simp: rb_calls rb_ops c_int_id split: if_splits)

text \<open>
  C19. The reference counts implement their contract.  For an object with fewer than \<open>2 ^ 28 - 1\<close>
  references: the first \<open>incStrong\<close> and a successful promotion of a fresh object leave exactly one strong
  reference; further ones count up and down; \<open>attemptIncStrong\<close> gets a reference if and only if the
  object has not been deleted and otherwise changes nothing; the object is deleted with its last
  strong reference, or with its last weak one when it never had a strong one.
\<close>

theorem refcount_refines:
  assumes "refs_rep r c" "int (rc_total c) < INITIAL_STRONG_VALUE - 1"
  shows "(case rc_incStrong c of None \<Rightarrow> True | Some c' \<Rightarrow> \<exists>r'. incStrong r = Some r' \<and> refs_rep r' c') \<and>
    (case rc_decStrong c of None \<Rightarrow> True | Some c' \<Rightarrow> \<exists>r'. decStrong r = Some r' \<and> refs_rep r' c') \<and>
    (case rc_createWeak c of None \<Rightarrow> True | Some c' \<Rightarrow> \<exists>r'. createWeak r = Some r' \<and> refs_rep r' c') \<and>
    (case rc_decWeak c of None \<Rightarrow> True | Some c' \<Rightarrow> \<exists>r'. decWeak r = Some r' \<and> refs_rep r' c') \<and>
    (case rc_attempt c of None \<Rightarrow> True
     | Some (b, c') \<Rightarrow> b = rc_alive c \<and> (\<exists>r'. attemptIncStrong r = Some (b, r') \<and> refs_rep r' c')) \<and>
    (obj r \<longleftrightarrow> rc_alive c)"
proof -
  have "b = rc_alive c" if "rc_attempt c = Some (b, c')" for b c'
    using that by (cases c) (auto split: if_splits)
  then show ?thesis
    using refs_incStrong [OF assms] refs_decStrong [OF assms] refs_createWeak [OF assms] refs_decWeak [OF assms]
      refs_attempt [OF assms] refs_rep_alive [OF assms(1)]
    by (auto split: option.split)
qed

theorem refcount_refines_witness:
  "\<exists>r'. createWeak RefBase_init = Some r' \<and> refs_rep r' (Fresh 1) \<and>
     (\<exists>r2. decWeak r' = Some r2 \<and> \<not> obj r2)"
proof -
  obtain r' where r': "createWeak RefBase_init = Some r'" "refs_rep r' (Fresh 1)"
    using refcount_refines [OF refs_rep_init] by (auto simp: INITIAL_STRONG_VALUE_def)
  then show ?thesis using refcount_refines [OF r'(2)] by (auto simp: INITIAL_STRONG_VALUE_def)
qed

text \<open>What clients of several objects use.\<close>

fun rc_weak :: "rc \<Rightarrow> nat" where
  "rc_weak (Fresh w) = w"
| "rc_weak (Shared s w) = w"
| "rc_weak Gone = 0"

fun rc_strong :: "rc \<Rightarrow> nat" where
  "rc_strong (Shared s w) = s"
| "rc_strong _ = 0"

definition refines :: "(refs_t \<Rightarrow> refs_t option) \<Rightarrow> (rc \<Rightarrow> rc option) \<Rightarrow> bool" where
  "refines f g \<longleftrightarrow> (\<forall>r c c'. refs_rep r c \<longrightarrow> int (rc_total c) < INITIAL_STRONG_VALUE - 1 \<longrightarrow> g c = Some c' \<longrightarrow>
     (\<exists>r'. f r = Some r' \<and> refs_rep r' c'))"

lemma refines_ops [simp]:
  "refines incStrong rc_incStrong" "refines decStrong rc_decStrong" "refines createWeak rc_createWeak" "refines decWeak rc_decWeak"
  using refs_incStrong refs_decStrong refs_createWeak refs_decWeak by (simp_all add: refines_def)

end
