(* ===== verification/Socket_Holder.thy ===== *)
theory Socket_Holder
  imports Ref_Base Slot_Alloc Status_Codes Io_Stream
begin

text \<open>
  \<open>libnet/Holder.cpp\<close>: the class \<open>SocketHolder\<close>, the registry of the transports by their sockets, a
  ring of \<open>socketItem\<close> in the order of the sockets whose memory comes from a slot allocator of
  \<open>CONTAINER_LIMIT\<close> slots.  The registry keeps weak references only.

  An item in use and a free slot share memory; the links of the ring, the contents of the items and
  the list of free slots are three components here, because no code reads a slot in the role it does not
  have.  The transports are outside of the registry: their reference counts, their member \<open>sock\<close>, and
  the virtual destructor \<open>dtor\<close> that runs when a count says so.  Every public operation holds \<open>mLock\<close>,
  a mutex that is not recursive: a destructor that enters the registry again is the outcome \<open>Deadlock\<close>.
  \<open>Fault\<close> is the access to a null pointer or to deleted memory.
\<close>

section \<open>Model\<close>

record socketItem =
  socket_fd :: int
  socket_inst :: nat \<comment> \<open>a pointer, 0 is null; the item's \<open>ref\<close> is this object's \<open>weakref_impl\<close>\<close>

record transports =
  refs_of :: "nat \<Rightarrow> refs_t"
  sock_of :: "nat \<Rightarrow> int"

type_synonym dtor = "nat \<Rightarrow> transports \<Rightarrow> transports outcome"

record SocketHolder =
  links :: "u32 lheap" \<comment> \<open>\<open>prev\<close> and \<open>next\<close> of the items and of \<open>mQueue\<close>\<close>
  sitems :: "u32 \<rightharpoonup> socketItem"
  mQueue :: u32 \<comment> \<open>the address of the head\<close>
  pool :: "u32 lheap" \<comment> \<open>the list of the free slots\<close>
  mAlloc :: slot_alloc_t

definition CONTAINER_LIMIT :: nat where "CONTAINER_LIMIT = 50"
definition sizeof_socketItem :: u32 where "sizeof_socketItem = 24"

definition SocketHolder_new :: "u32 lheap \<Rightarrow> u32 lheap \<Rightarrow> u32 \<Rightarrow> u32 \<Rightarrow> u32 \<Rightarrow> SocketHolder option" where
  \<comment> \<open>the constructor; the addresses are those of the members \<open>mArray\<close>, \<open>mAlloc.freeSlots\<close> and \<open>mQueue\<close>\<close>
  "SocketHolder_new l p array free queue =
     (let a = \<lparr>slotSize = sizeof_socketItem, freeSlots = free, chunkMem = array,
               chunkSize = of_nat CONTAINER_LIMIT * sizeof_socketItem\<rparr>
      in case init_slot_allocator p (Some a) of
           Some (err, p', Some a') \<Rightarrow>
             Some \<lparr>links = set_next (set_prev l queue (Some queue)) queue (Some queue), sitems = Map.empty,
                   mQueue = queue, pool = p', mAlloc = a'\<rparr>
         | _ \<Rightarrow> None)"

text \<open>A change of the counts of one object; a deletion runs its destructor.\<close>

definition refs_do :: "dtor \<Rightarrow> (refs_t \<Rightarrow> refs_t option) \<Rightarrow> nat \<Rightarrow> transports \<Rightarrow> transports outcome" where
  "refs_do dtor f b w =
     (case f (refs_of w b) of
        None \<Rightarrow> Fault
      | Some r \<Rightarrow>
          (let w' = w\<lparr>refs_of := (refs_of w)(b := r)\<rparr>
           in if obj (refs_of w b) \<and> \<not> obj r then dtor b w' else Ret w'))"

fun find_item :: "nat \<Rightarrow> u32 lheap \<Rightarrow> (u32 \<rightharpoonup> socketItem) \<Rightarrow> u32 \<Rightarrow> int \<Rightarrow> u32 option \<Rightarrow> (bool \<times> u32) option" where
  \<comment> \<open>the loop of \<open>insert\<close>, \<open>fetch\<close> and \<open>remove\<close>: whether the socket is there, and \<open>cursor\<close>\<close>
  "find_item 0 l items head sock cur = None"
| "find_item (Suc n) l items head sock None = None"
| "find_item (Suc n) l items head sock (Some c) =
     (if c = head then Some (False, c)
      else case items c of
             None \<Rightarrow> None
           | Some it \<Rightarrow>
               if socket_fd it > sock then Some (False, c)
               else if socket_fd it = sock then Some (True, c)
               else find_item n l items head sock (nextp l c))"

definition holder_find :: "SocketHolder \<Rightarrow> int \<Rightarrow> (bool \<times> u32) option" where
  "holder_find s sock = find_item (Suc CONTAINER_LIMIT) (links s) (sitems s) (mQueue s) sock (nextp (links s) (mQueue s))"

definition removeItem :: "dtor \<Rightarrow> SocketHolder \<Rightarrow> transports \<Rightarrow> u32 \<Rightarrow> (SocketHolder \<times> transports) outcome" where
  "removeItem dtor s w cur =
     obind (access (list_del_between (links s) (prevp (links s) cur) (nextp (links s) cur))) (\<lambda>l.
     obind (access (sitems s cur)) (\<lambda>it.
     obind (refs_do dtor decWeak (socket_inst it) w) (\<lambda>w1.
     obind (access (slot_free (pool s) (Some (mAlloc s)) cur)) (\<lambda>p.
     Ret (s\<lparr>links := l, sitems := (sitems s)(cur := None), pool := p\<rparr>, w1)))))"

definition link_item :: "SocketHolder \<Rightarrow> u32 \<Rightarrow> u32 \<Rightarrow> SocketHolder option" where
  \<comment> \<open>the four assignments at the end of \<open>insert\<close>\<close>
  "link_item s unit cur =
     (let l1 = set_next (links s) unit (Some cur)
      in case prevp l1 cur of
           None \<Rightarrow> None
         | Some p \<Rightarrow> Some (s\<lparr>links := set_prev (set_next (set_prev l1 unit (Some p)) p (Some unit)) cur (Some unit)\<rparr>))"

definition place_item ::
  "dtor \<Rightarrow> SocketHolder \<Rightarrow> transports \<Rightarrow> u32 \<Rightarrow> int \<Rightarrow> (int \<times> SocketHolder \<times> transports) outcome" where
  \<comment> \<open>\<open>insert\<close> from its loop on: an item with the same socket is replaced\<close>
  "place_item dtor s w unit sock =
     obind (access (holder_find s sock)) (\<lambda>(found, cur).
       if found \<and> unit = cur then Ret (UNKNOWN_ERROR, s, w)
       else
         obind (if found then
                  obind (access (nextp (links s) cur)) (\<lambda>node.
                  obind (removeItem dtor s w cur) (\<lambda>(s1, w1). Ret (node, s1, w1)))
                else Ret (cur, s, w)) (\<lambda>(pos, s1, w1).
         obind (access (link_item s1 unit pos)) (\<lambda>s2. Ret (NO_ERROR, s2, w1))))"

definition holder_insert ::
  "dtor \<Rightarrow> SocketHolder \<Rightarrow> transports \<Rightarrow> int \<Rightarrow> nat \<Rightarrow> (int \<times> SocketHolder \<times> transports) outcome" where
  "holder_insert dtor s w sock inst =
     (if inst = 0 then Ret (UNKNOWN_ERROR, s, w)
      else obind (access (slot_malloc (pool s) (Some (mAlloc s)) sizeof_socketItem)) (\<lambda>(unit, p).
        if unit = 0 then Ret (UNKNOWN_ERROR, s\<lparr>pool := p\<rparr>, w)
        else
          obind (refs_do dtor createWeak inst w) (\<lambda>w1.
          place_item dtor
            (s\<lparr>pool := p, links := set_next (links s) unit None,
               sitems := (sitems s)(unit \<mapsto> \<lparr>socket_fd = sock, socket_inst = inst\<rparr>)\<rparr>) w1 unit sock)))"

definition sp_assign :: "dtor \<Rightarrow> transports \<Rightarrow> nat \<Rightarrow> nat \<Rightarrow> transports outcome" where
  \<comment> \<open>\<open>sp::operator=\<close>: take the new reference, then drop the old one\<close>
  "sp_assign dtor w old new =
     obind (if new = 0 then Ret w else refs_do dtor incStrong new w) (\<lambda>w1.
       if old = 0 then Ret w1 else refs_do dtor decStrong old w1)"

definition holder_fetch ::
  "dtor \<Rightarrow> SocketHolder \<Rightarrow> transports \<Rightarrow> int \<Rightarrow> nat \<Rightarrow> (int \<times> nat \<times> SocketHolder \<times> transports) outcome" where
  \<comment> \<open>\<open>out\<close> is what the caller's \<open>sp\<close> refers to\<close>
  "holder_fetch dtor s w sock out =
     obind (access (holder_find s sock)) (\<lambda>(found, cur).
       if \<not> found then Ret (NAME_NOT_FOUND, out, s, w)
       else
         obind (access (sitems s cur)) (\<lambda>it.
         let b = socket_inst it in
         case attemptIncStrong (refs_of w b) of
           None \<Rightarrow> Fault
         | Some (got, r) \<Rightarrow>
             let w1 = w\<lparr>refs_of := (refs_of w)(b := r)\<rparr> in
             if \<not> got then
               obind (removeItem dtor s w1 cur) (\<lambda>(s', w'). Ret (DEAD_OBJECT, out, s', w'))
             else if sock_of w1 b \<noteq> sock then
               obind (refs_do dtor decStrong b w1) (\<lambda>w2.
               obind (removeItem dtor s w2 cur) (\<lambda>(s', w'). Ret (DEAD_OBJECT, out, s', w')))
             else
               obind (sp_assign dtor w1 out b) (\<lambda>w2.
               obind (refs_do dtor decStrong b w2) (\<lambda>w3. Ret (NO_ERROR, b, s, w3)))))"

definition holder_remove :: "dtor \<Rightarrow> SocketHolder \<Rightarrow> transports \<Rightarrow> int \<Rightarrow> (int \<times> SocketHolder \<times> transports) outcome" where
  "holder_remove dtor s w sock =
     obind (access (holder_find s sock)) (\<lambda>(found, cur).
       if \<not> found then Ret (NAME_NOT_FOUND, s, w)
       else obind (removeItem dtor s w cur) (\<lambda>(s', w'). Ret (NO_ERROR, s', w')))"

fun holder_clear :: "nat \<Rightarrow> dtor \<Rightarrow> SocketHolder \<Rightarrow> transports \<Rightarrow> u32 option \<Rightarrow> (SocketHolder \<times> transports) outcome" where
  \<comment> \<open>the loop of the destructor\<close>
  "holder_clear 0 dtor s w cur = Fault"
| "holder_clear (Suc n) dtor s w None = Fault"
| "holder_clear (Suc n) dtor s w (Some node) =
     (if node = mQueue s then Ret (s, w)
      else
        let next = nextp (links s) node in
        obind (access (sitems s node)) (\<lambda>it.
        obind (refs_do dtor decWeak (socket_inst it) w) (\<lambda>w1.
        obind (access (slot_free (pool s) (Some (mAlloc s)) node)) (\<lambda>p.
        holder_clear n dtor (s\<lparr>sitems := (sitems s)(node := None), pool := p\<rparr>) w1 next))))"

definition SocketHolder_destroy :: "dtor \<Rightarrow> SocketHolder \<Rightarrow> transports \<Rightarrow> (SocketHolder \<times> transports) outcome" where
  "SocketHolder_destroy dtor s w =
     obind (holder_clear (Suc CONTAINER_LIMIT) dtor s w (nextp (links s) (mQueue s))) (\<lambda>(s', w').
     Ret (s'\<lparr>links := set_next (set_prev (links s') (mQueue s') (Some (mQueue s'))) (mQueue s') (Some (mQueue s'))\<rparr>, w'))"

text \<open>
  \<open>dumpInfo\<close> prints the number of free slots and the sockets; the formatted texts of \<open>fd [%d/%d]: (\<close>,
  \<open>%d, \<close> and \<open>)\<close> with a newline are \<open>fmt1\<close>, \<open>fmt2\<close> and \<open>fmt3\<close>.
\<close>

fun dump_items :: "(int \<Rightarrow> u8 list option) \<Rightarrow> (u32 \<rightharpoonup> socketItem) \<Rightarrow> u32 list \<Rightarrow> ioStream \<Rightarrow> ioStream option" where
  "dump_items fmt2 items [] st = Some st"
| "dump_items fmt2 items (p # ps) st =
     (case items p of
        None \<Rightarrow> None
      | Some it \<Rightarrow> ioStreamPrint st (fmt2 (socket_fd it)) \<bind> (\<lambda>(_, st'). dump_items fmt2 items ps st'))"

definition holder_dumpInfo ::
  "(nat \<Rightarrow> nat \<Rightarrow> u8 list option) \<Rightarrow> (int \<Rightarrow> u8 list option) \<Rightarrow> u8 list option \<Rightarrow> SocketHolder \<Rightarrow>
     ioStream option \<Rightarrow> ioStream option option" where
  "holder_dumpInfo fmt1 fmt2 fmt3 s stream =
     (case stream of
        None \<Rightarrow> Some None
      | Some st \<Rightarrow>
          list_for_each (Suc CONTAINER_LIMIT) (pool s) (freeSlots (mAlloc s)) \<bind> (\<lambda>free.
          ioStreamPrint st (fmt1 (length free) CONTAINER_LIMIT) \<bind> (\<lambda>(_, st1).
          list_for_each (Suc CONTAINER_LIMIT) (links s) (mQueue s) \<bind> (\<lambda>ring.
          dump_items fmt2 (sitems s) ring st1 \<bind> (\<lambda>st2.
          let st3 = (if ring \<noteq> [] then snd (ioStreamSeek st2 (- 2) SEEK_CUR) else st2)
          in map_option (\<lambda>(_, st4). Some st4) (ioStreamPrint st3 fmt3))))))"

section \<open>The ring\<close>

definition fd_at :: "SocketHolder \<Rightarrow> u32 \<Rightarrow> int" where
  "fd_at s p = (case sitems s p of None \<Rightarrow> 0 | Some it \<Rightarrow> socket_fd it)"

definition inst_at :: "SocketHolder \<Rightarrow> u32 \<Rightarrow> nat" where
  "inst_at s p = (case sitems s p of None \<Rightarrow> 0 | Some it \<Rightarrow> socket_inst it)"

definition holder_map :: "SocketHolder \<Rightarrow> u32 list \<Rightarrow> int \<rightharpoonup> nat" where
  \<comment> \<open>what the registry stands for\<close>
  "holder_map s ring = map_of (map (\<lambda>p. (fd_at s p, inst_at s p)) ring)"

definition holder_inv :: "SocketHolder \<Rightarrow> u32 list \<Rightarrow> u32 set \<Rightarrow> bool" where
  \<comment> \<open>\<open>ring\<close> are the items in the ring, \<open>X\<close> the items taken from the allocator and not linked yet\<close>
  "holder_inv s ring X \<longleftrightarrow> dlist (links s) (mQueue s) ring \<and> dom (sitems s) = set ring \<union> X \<and> set ring \<inter> X = {} \<and>
     sorted_wrt (<) (map (fd_at s) ring) \<and> (\<exists>free. slot_inv (pool s) (mAlloc s) free (set ring \<union> X)) \<and>
     slotSize (mAlloc s) = sizeof_socketItem \<and> length (slots (mAlloc s)) = CONTAINER_LIMIT \<and> mQueue s \<notin> set (slots (mAlloc s))"

lemma holder_inv_slots:
  assumes "holder_inv s ring X" "p \<in> set ring \<union> X"
  shows "p \<in> set (slots (mAlloc s))" "p \<noteq> 0" "p \<noteq> mQueue s" "sitems s p \<noteq> None"
proof -
  obtain free where f: "slot_inv (pool s) (mAlloc s) free (set ring \<union> X)" using assms(1) by (auto simp: holder_inv_def)
  then show s: "p \<in> set (slots (mAlloc s))" using assms(2) by (auto simp: slot_inv_def)
  then show "p \<noteq> 0" using slots_in_chunk(4) f by (auto simp: slot_inv_def)
  show "p \<noteq> mQueue s" "sitems s p \<noteq> None" using s assms by (auto simp: holder_inv_def)
qed

lemma holder_inv_length:
  assumes "holder_inv s ring X"
  shows "length ring + card X \<le> CONTAINER_LIMIT" "finite X"
proof -
  obtain free where f: "slot_inv (pool s) (mAlloc s) free (set ring \<union> X)" using assms by (auto simp: holder_inv_def)
  have d: "distinct ring" using assms by (auto simp: holder_inv_def dlist_def)
  show fin: "finite X" using slot_inv_count(2) [OF f] by simp
  have "card (set ring \<union> X) = length ring + card X"
    using assms fin d by (simp add: card_Un_disjoint holder_inv_def distinct_card)
  then show "length ring + card X \<le> CONTAINER_LIMIT"
    using slot_inv_count(1) [OF f] assms by (simp add: holder_inv_def)
qed

lemma find_item_ring:
  assumes "dlist (links s) head (xs @ ys)" "\<forall>p \<in> set ys. sitems s p \<noteq> None" "length ys < n"
  shows "find_item n (links s) (sitems s) head sock (Some (hd (ys @ [head]))) =
    (let zs = dropWhile (\<lambda>p. fd_at s p < sock) ys in Some (zs \<noteq> [] \<and> fd_at s (hd zs) = sock, hd (zs @ [head])))"
  using assms
proof (induction ys arbitrary: xs n)
  case Nil
  then show ?case by (cases n) auto
next
  case (Cons y ys)
  obtain m where n: "n = Suc m" "length ys < m" using Cons.prems(3) by (cases n) auto
  have "nextp (links s) y = Some (hd (ys @ [head]))" using dlist_neighbours [OF Cons.prems(1)] by simp
  moreover have "y \<noteq> head" using Cons.prems(1) by (auto simp: dlist_def)
  moreover obtain it where "sitems s y = Some it" using Cons.prems(2) by auto
  ultimately show ?case
    using Cons.IH [of "xs @ [y]" m] Cons.prems n by (auto simp: fd_at_def Let_def)
qed

lemma holder_find_ring:
  fixes sock :: int
  assumes "holder_inv s ring X"
  defines "zs \<equiv> dropWhile (\<lambda>p. fd_at s p < sock) ring"
  shows "holder_find s sock = Some (zs \<noteq> [] \<and> fd_at s (hd zs) = sock, hd (zs @ [mQueue s]))"
proof -
  have d: "dlist (links s) (mQueue s) ([] @ ring)" using assms(1) by (simp add: holder_inv_def)
  then have n: "nextp (links s) (mQueue s) = Some (hd (ring @ [mQueue s]))" using kl.rep_first by auto
  have "length ring < Suc CONTAINER_LIMIT" using holder_inv_length [OF assms(1)] by simp
  then show ?thesis
    using find_item_ring [OF d, of "Suc CONTAINER_LIMIT" sock] assms(1) n holder_inv_slots(4) [OF assms(1)]
    unfolding zs_def holder_find_def by (simp add: Let_def)
qed

lemma holder_find_cases:
  assumes "holder_inv s ring X"
  obtains (found) xs p ys where "ring = xs @ p # ys" "fd_at s p = sock" "holder_find s sock = Some (True, p)"
      "\<forall>q \<in> set xs. fd_at s q < sock" "\<forall>q \<in> set ys. sock < fd_at s q"
  | (absent) xs ys where "ring = xs @ ys" "holder_find s sock = Some (False, hd (ys @ [mQueue s]))"
      "\<forall>q \<in> set xs. fd_at s q < sock" "\<forall>q \<in> set ys. sock < fd_at s q"
proof -
  define xs zs where "xs = takeWhile (\<lambda>p. fd_at s p < sock) ring" and "zs = dropWhile (\<lambda>p. fd_at s p < sock) ring"
  have ring: "ring = xs @ zs" by (simp add: xs_def zs_def)
  have less: "\<forall>q \<in> set xs. fd_at s q < sock" by (auto simp: xs_def dest: set_takeWhileD)
  have ge: "zs \<noteq> [] \<Longrightarrow> sock \<le> fd_at s (hd zs)"
    using hd_dropWhile [of "\<lambda>p. fd_at s p < sock" ring] by (simp add: zs_def)
  have sorted: "sorted_wrt (<) (map (fd_at s) zs)"
    using assms ring by (simp add: holder_inv_def sorted_wrt_append)
  note f = holder_find_ring [OF assms, of sock, folded zs_def]
  show thesis
  proof (cases zs)
    case Nil
    then show ?thesis using ring less f by (intro absent [of xs "[]"]) auto
  next
    case (Cons p ys)
    have gt: "\<forall>q \<in> set ys. fd_at s p < fd_at s q" using sorted by (simp add: Cons)
    show ?thesis
    proof (cases "fd_at s p = sock")
      case True
      then show ?thesis using ring less f gt Cons by (intro found [of xs p ys]) auto
    next
      case False
      then have "sock < fd_at s p" using ge Cons by auto
      then show ?thesis using ring less f gt Cons False by (intro absent [of xs zs]) (auto intro: less_trans)
    qed
  qed
qed

lemma fd_at_upd:
  "sitems s' = (sitems s)(p := x) \<Longrightarrow> q \<noteq> p \<Longrightarrow> fd_at s' q = fd_at s q"
  "sitems s' = (sitems s)(p := x) \<Longrightarrow> q \<noteq> p \<Longrightarrow> inst_at s' q = inst_at s q"
  by (simp_all add: fd_at_def inst_at_def)

lemma holder_map_upd:
  assumes "sitems s' = (sitems s)(p := x)" "p \<notin> set ring"
  shows "holder_map s' ring = holder_map s ring" "map (fd_at s') ring = map (fd_at s) ring"
proof -
  have e: "fd_at s' q = fd_at s q \<and> inst_at s' q = inst_at s q" if "q \<in> set ring" for q
    using fd_at_upd [OF assms(1)] assms(2) that by metis
  then have "map (\<lambda>p. (fd_at s' p, inst_at s' p)) ring = map (\<lambda>p. (fd_at s p, inst_at s p)) ring" by simp
  then show "holder_map s' ring = holder_map s ring" by (simp only: holder_map_def)
  show "map (fd_at s') ring = map (fd_at s) ring" using e by simp
qed

lemma holder_map_split:
  assumes "sorted_wrt (<) (map (fd_at s) (xs @ p # ys))"
  shows "holder_map s (xs @ p # ys) = (holder_map s (xs @ ys))(fd_at s p \<mapsto> inst_at s p)"
    "holder_map s (xs @ ys) (fd_at s p) = None"
proof -
  have "fd_at s p \<notin> fd_at s ` set (xs @ ys)" using assms by (auto simp: sorted_wrt_append)
  then have n: "fd_at s p \<notin> fst ` set (map (\<lambda>p. (fd_at s p, inst_at s p)) xs)"
    "fd_at s p \<notin> fst ` set (map (\<lambda>p. (fd_at s p, inst_at s p)) (xs @ ys))" by auto
  then show "holder_map s (xs @ ys) (fd_at s p) = None" unfolding holder_map_def map_of_eq_None_iff by blast
  have "dom (map_of (map (\<lambda>p. (fd_at s p, inst_at s p)) xs)) \<inter> {fd_at s p} = {}"
    using n(1) by (simp add: dom_map_of_conv_image_fst)
  then show "holder_map s (xs @ p # ys) = (holder_map s (xs @ ys))(fd_at s p \<mapsto> inst_at s p)"
    by (auto simp: holder_map_def map_of_append fun_eq_iff map_add_def split: option.splits)
qed

lemma removeItem_ok:
  assumes "holder_inv s (xs @ p # ys) X" "refs_do dtor decWeak (inst_at s p) w = Ret w1"
  shows "\<exists>s'. removeItem dtor s w p = Ret (s', w1) \<and> holder_inv s' (xs @ ys) X \<and> sitems s' = (sitems s)(p := None) \<and>
    mQueue s' = mQueue s \<and> mAlloc s' = mAlloc s"
proof -
  note i = assms(1) [unfolded holder_inv_def]
  have d: "dlist (links s) (mQueue s) (xs @ p # ys)" using i by blast
  obtain l where l: "list_del_between (links s) (prevp (links s) p) (nextp (links s) p) = Some l" "dlist l (mQueue s) (xs @ ys)"
    using list_del_between_ring [OF d] dlist_neighbours [OF d] by auto
  obtain it where it: "sitems s p = Some it" using holder_inv_slots(4) [OF assms(1), of p] by auto
  obtain free where f: "slot_inv (pool s) (mAlloc s) free (set (xs @ p # ys) \<union> X)" using i by blast
  have p: "p \<notin> set (xs @ ys) \<union> X" using i d by (auto simp: dlist_def)
  then have m: "set (xs @ p # ys) \<union> X - {p} = set (xs @ ys) \<union> X" by auto
  obtain pl where pl: "slot_free (pool s) (Some (mAlloc s)) p = Some pl"
    "slot_inv pl (mAlloc s) (free @ [p]) (set (xs @ ys) \<union> X)"
    using slot_free_inv [OF f, of p] unfolding m by auto
  let ?s = "s\<lparr>links := l, sitems := (sitems s)(p := None), pool := pl\<rparr>"
  have eq: "removeItem dtor s w p = Ret (?s, w1)"
    using l(1) it pl(1) assms(2) by (simp add: removeItem_def inst_at_def)
  have m: "map (fd_at ?s) (xs @ ys) = map (fd_at s) (xs @ ys)" using p by (intro holder_map_upd(2) [of ?s s p None]) auto
  have "sorted_wrt (<) (map (fd_at s) (xs @ ys))" using i by (simp add: sorted_wrt_append)
  then have so: "sorted_wrt (<) (map (fd_at ?s) (xs @ ys))" unfolding m .
  have st: "dom (sitems ?s) = set (xs @ ys) \<union> X" "set (xs @ ys) \<inter> X = {}" using i p by auto
  have "holder_inv ?s (xs @ ys) X"
    unfolding holder_inv_def using so st i l(2) pl(2)
    by (intro conjI exI [of _ "free @ [p]"]) (simp_all del: map_append set_append)
  then show ?thesis using eq by auto
qed

lemma link_item_ok:
  assumes "holder_inv s (xs @ ys) (insert u X)" "u \<notin> X"
    "\<forall>q \<in> set xs. fd_at s q < fd_at s u" "\<forall>q \<in> set ys. fd_at s u < fd_at s q"
  shows "\<exists>s'. link_item s u (hd (ys @ [mQueue s])) = Some s' \<and> holder_inv s' (xs @ u # ys) X \<and> sitems s' = sitems s"
proof -
  note i = assms(1) [unfolded holder_inv_def]
  have d: "dlist (links s) (mQueue s) (xs @ ys)" using i by blast
  have u: "u \<notin> set (mQueue s # xs @ ys)" using i holder_inv_slots(3) [OF assms(1), of u] by auto
  obtain l where l: "list_add_tail (links s) u (hd (ys @ [mQueue s])) = Some l" "dlist l (mQueue s) (xs @ u # ys)"
    using list_add_tail_ring [OF d u] by blast
  have pv: "prevp (links s) (hd (ys @ [mQueue s])) = Some (last (mQueue s # xs))" using d by (rule dlist_cut) auto
  have ne: "u \<noteq> hd (ys @ [mQueue s])" "u \<noteq> last (mQueue s # xs)" using u by (cases ys; auto)+
  have "link_item s u (hd (ys @ [mQueue s])) = Some (s\<lparr>links := l\<rparr>)"
    using l(1) pv ne
    by (auto simp: link_item_def list_add_tail_def Let_def set_next_def set_prev_def fun_eq_iff simp del: last.simps)
  moreover have "fd_at (s\<lparr>links := l\<rparr>) = fd_at s" by (simp add: fd_at_def fun_eq_iff)
  then have "sorted_wrt (<) (map (fd_at (s\<lparr>links := l\<rparr>)) (xs @ u # ys))"
    using i assms(3,4) by (fastforce simp: sorted_wrt_append)
  moreover have "set (xs @ u # ys) \<union> X = set (xs @ ys) \<union> insert u X" "set (xs @ u # ys) \<inter> X = {}"
    using i assms(2) by auto
  ultimately show ?thesis unfolding holder_inv_def using i l(2) by auto
qed

section \<open>The reference counts\<close>

definition life :: "nat \<Rightarrow> (nat \<Rightarrow> rc) \<Rightarrow> (nat \<Rightarrow> rc) \<Rightarrow> bool" where
  \<comment> \<open>strong references are as before, and no count has grown by more than \<open>k\<close>\<close>
  "life k c c' \<longleftrightarrow> (\<forall>b. rc_alive (c' b) = rc_alive (c b) \<and> rc_strong (c' b) = rc_strong (c b) \<and>
     rc_total (c' b) \<le> rc_total (c b) + k)"

lemma rc_decWeak_life:
  "rc_decWeak c = Some d \<Longrightarrow> c \<noteq> Fresh 1 \<Longrightarrow> rc_alive d = rc_alive c \<and> rc_strong d = rc_strong c \<and> rc_total d \<le> rc_total c"
  by (cases c) (auto split: if_splits)

lemma life_drop:
  assumes "rc_decWeak (c b) = Some (c' b)" "c b \<noteq> Fresh 1" "\<forall>i. i \<noteq> b \<longrightarrow> c' i = c i"
  shows "life 0 c c'"
  using rc_decWeak_life [OF assms(1,2)] assms(3) unfolding life_def by (metis add_0_right order_refl)

lemma life_trans: "life k c c' \<Longrightarrow> life j c' c'' \<Longrightarrow> life (k + j) c c''"
  unfolding life_def by (auto intro: order_trans)

lemma life_weaken: "life k c c' \<Longrightarrow> k \<le> j \<Longrightarrow> life j c c'"
  unfolding life_def by (meson add_le_cancel_left le_trans)

lemma life_refl: "life 0 c c"
  by (simp add: life_def)

definition counted :: "transports \<Rightarrow> (nat \<Rightarrow> rc) \<Rightarrow> bool" where
  "counted w c \<longleftrightarrow> (\<forall>b. refs_rep (refs_of w b) (c b))"

definition roomy :: "(nat \<Rightarrow> rc) \<Rightarrow> bool" where
  \<comment> \<open>every count is far from its limit\<close>
  "roomy c \<longleftrightarrow> (\<forall>b. int (rc_total (c b)) < INITIAL_STRONG_VALUE - 4)"

lemma refs_do_ok:
  assumes "refines f g" "counted w c" "int (rc_total (c b)) < INITIAL_STRONG_VALUE - 1" "g (c b) = Some c'"
  shows "\<exists>w1. counted w1 (c(b := c')) \<and> sock_of w1 = sock_of w \<and>
    refs_do dtor f b w = (if rc_alive (c b) \<and> \<not> rc_alive c' then dtor b w1 else Ret w1)"
proof -
  obtain r where r: "f (refs_of w b) = Some r" "refs_rep r c'" using assms unfolding refines_def counted_def by blast
  then have "counted (w\<lparr>refs_of := (refs_of w)(b := r)\<rparr>) (c(b := c'))" using assms(2) by (simp add: counted_def)
  moreover have "obj (refs_of w b) \<longleftrightarrow> rc_alive (c b)" "obj r \<longleftrightarrow> rc_alive c'"
    using refs_rep_alive assms(2) r(2) by (auto simp: counted_def)
  ultimately show ?thesis using r(1) by (intro exI [of _ "w\<lparr>refs_of := (refs_of w)(b := r)\<rparr>"]) (simp add: refs_do_def Let_def)
qed

lemma attempt_ok:
  assumes "counted w c" "int (rc_total (c b)) < INITIAL_STRONG_VALUE - 1" "rc_attempt (c b) = Some (g, c')"
  shows "\<exists>r. attemptIncStrong (refs_of w b) = Some (g, r) \<and> counted (w\<lparr>refs_of := (refs_of w)(b := r)\<rparr>) (c(b := c'))"
  using refs_attempt [OF _ assms(2,3)] assms(1) unfolding counted_def by (metis fun_upd_apply transports.select_convs(1) transports.surjective transports.update_convs(1))

definition accounted :: "SocketHolder \<Rightarrow> u32 list \<Rightarrow> (nat \<Rightarrow> rc) \<Rightarrow> bool" where
  \<comment> \<open>the registry owns a weak reference for every entry\<close>
  "accounted s ring c \<longleftrightarrow> (\<forall>b. count_list (map (inst_at s) ring) b \<le> rc_weak (c b))"

definition registry :: "SocketHolder \<Rightarrow> transports \<Rightarrow> u32 list \<Rightarrow> (nat \<Rightarrow> rc) \<Rightarrow> bool" where
  "registry s w ring c \<longleftrightarrow> holder_inv s ring {} \<and> counted w c \<and> accounted s ring c"

lemma holder_map_find:
  assumes "sorted_wrt (<) (map (fd_at s) (xs @ p # ys))"
  shows "holder_map s (xs @ p # ys) (fd_at s p) = Some (inst_at s p)"
    "holder_map s (xs @ ys) = (holder_map s (xs @ p # ys))(fd_at s p := None)"
  using holder_map_split [OF assms] by (auto simp: fun_eq_iff)

lemma holder_map_absent:
  assumes "\<forall>q \<in> set xs. fd_at s q < sock" "\<forall>q \<in> set ys. sock < fd_at s q"
  shows "holder_map s (xs @ ys) sock = None"
  using assms by (fastforce simp: holder_map_def map_of_eq_None_iff)

lemma decWeak_keeps:
  assumes "rc_weak c > 0" "c \<noteq> Fresh 1"
  obtains c' where "rc_decWeak c = Some c'" "rc_alive c' = rc_alive c" "rc_weak c' = rc_weak c - 1" "rc_total c' \<le> rc_total c"
  using assms by (cases c) (auto simp: not_less)

lemma remove_entry:
  assumes "holder_inv s (xs @ p # ys) X" "counted w c" "accounted s (xs @ p # ys) c" "c (inst_at s p) \<noteq> Fresh 1"
    "int (rc_total (c (inst_at s p))) < INITIAL_STRONG_VALUE - 1"
  shows "\<exists>s' w' c'. removeItem dtor s w p = Ret (s', w') \<and> holder_inv s' (xs @ ys) X \<and> counted w' c' \<and>
    accounted s' (xs @ ys) c' \<and> sock_of w' = sock_of w \<and> sitems s' = (sitems s)(p := None) \<and> mQueue s' = mQueue s \<and>
    holder_map s' (xs @ ys) = (holder_map s (xs @ p # ys))(fd_at s p := None) \<and>
    rc_decWeak (c (inst_at s p)) = Some (c' (inst_at s p)) \<and> (\<forall>b. b \<noteq> inst_at s p \<longrightarrow> c' b = c b)"
proof -
  let ?b = "inst_at s p"
  have cnt: "count_list (map (inst_at s) (xs @ ys)) b + (if b = ?b then 1 else 0) \<le> rc_weak (c b)" for b
    using assms(3) [unfolded accounted_def, rule_format, of b] by (auto split: if_splits)
  then have "rc_weak (c ?b) > 0" using cnt [of ?b] by simp
  then obtain d where d: "rc_decWeak (c ?b) = Some d" "rc_alive d = rc_alive (c ?b)" "rc_weak d = rc_weak (c ?b) - 1"
    using decWeak_keeps assms(4) by blast
  obtain w' where w': "counted w' (c(?b := d))" "sock_of w' = sock_of w" "refs_do dtor decWeak ?b w = Ret w'"
    using refs_do_ok [OF refines_ops(4) assms(2,5) d(1), of dtor] d(2) by auto
  obtain s' where s': "removeItem dtor s w p = Ret (s', w')" "holder_inv s' (xs @ ys) X" "sitems s' = (sitems s)(p := None)"
    "mQueue s' = mQueue s"
    using removeItem_ok [OF assms(1) w'(3)] by blast
  have p: "p \<notin> set (xs @ ys)" using assms(1) by (auto simp: holder_inv_def dlist_def)
  have "map (inst_at s') (xs @ ys) = map (inst_at s) (xs @ ys)"
    using fd_at_upd(2) [OF s'(3)] p by (intro map_cong refl) metis
  then have "accounted s' (xs @ ys) (c(?b := d)) \<longleftrightarrow> accounted s (xs @ ys) (c(?b := d))" by (simp only: accounted_def)
  moreover have "accounted s (xs @ ys) (c(?b := d))"
    unfolding accounted_def
  proof (intro allI)
    fix b
    show "count_list (map (inst_at s) (xs @ ys)) b \<le> rc_weak ((c(?b := d)) b)"
      using cnt [of b] d(3) by (cases "b = ?b") auto
  qed
  moreover have "holder_map s' (xs @ ys) = (holder_map s (xs @ p # ys))(fd_at s p := None)"
    using holder_map_upd(1) [OF s'(3) p] holder_map_find(2) assms(1) by (simp add: holder_inv_def)
  ultimately show ?thesis using s' w' d(1) by (intro exI [of _ s'] exI [of _ w'] exI [of _ "c(?b := d)"]) simp
qed

lemma roomyD: "roomy c \<Longrightarrow> int (rc_total (c b)) < INITIAL_STRONG_VALUE - 1"
  unfolding roomy_def by (drule spec [of _ b]) simp

lemma holder_remove_ok:
  assumes "registry s w ring c" "roomy c" "\<And>b. holder_map s ring sock = Some b \<Longrightarrow> c b \<noteq> Fresh 1"
  shows "(case holder_map s ring sock of
      None \<Rightarrow> holder_remove dtor s w sock = Ret (NAME_NOT_FOUND, s, w)
    | Some b \<Rightarrow> \<exists>s' w' ring' c'. holder_remove dtor s w sock = Ret (NO_ERROR, s', w') \<and> registry s' w' ring' c' \<and>
        holder_map s' ring' = (holder_map s ring)(sock := None) \<and> sock_of w' = sock_of w \<and>
        rc_decWeak (c b) = Some (c' b) \<and> (\<forall>b'. b' \<noteq> b \<longrightarrow> c' b' = c b'))"
proof -
  have i: "holder_inv s ring {}" using assms(1) by (simp add: registry_def)
  from i show ?thesis
  proof (cases rule: holder_find_cases [where sock = sock])
    case (found xs p ys)
    have m: "holder_map s ring sock = Some (inst_at s p)"
      using holder_map_find(1) [of s xs p ys] i found(1,2) by (auto simp: holder_inv_def)
    have "int (rc_total (c (inst_at s p))) < INITIAL_STRONG_VALUE - 1"
      using roomyD [OF assms(2)] .
    then obtain s' w' c' where r: "removeItem dtor s w p = Ret (s', w')" "holder_inv s' (xs @ ys) {}" "counted w' c'"
      "accounted s' (xs @ ys) c'" "sock_of w' = sock_of w"
      "holder_map s' (xs @ ys) = (holder_map s (xs @ p # ys))(fd_at s p := None)"
      "rc_decWeak (c (inst_at s p)) = Some (c' (inst_at s p))" "\<forall>b. b \<noteq> inst_at s p \<longrightarrow> c' b = c b"
      using remove_entry [of s xs p ys "{}" w c dtor] assms(1,3) m found(1) by (auto simp: registry_def)
    then show ?thesis using m found(1-3) by (auto simp: holder_remove_def registry_def)
  next
    case (absent xs ys)
    then show ?thesis using holder_map_absent [OF absent(3,4)] by (simp add: holder_remove_def)
  qed
qed


lemma take_slot:
  assumes "holder_inv s ring {}" "unit_slot = (\<lambda>u p. s\<lparr>pool := p, links := set_next (links s) u None, sitems := (sitems s)(u \<mapsto> it)\<rparr>)"
  shows "if length ring = CONTAINER_LIMIT then slot_malloc (pool s) (Some (mAlloc s)) sizeof_socketItem = Some (0, pool s)
    else \<exists>u p. slot_malloc (pool s) (Some (mAlloc s)) sizeof_socketItem = Some (u, p) \<and> u \<noteq> 0 \<and> u \<notin> set ring \<and>
      holder_inv (unit_slot u p) ring {u}"
proof -
  note i = assms(1) [unfolded holder_inv_def]
  obtain free where f: "slot_inv (pool s) (mAlloc s) free (set ring)" using i by auto
  have len: "length free + length ring = CONTAINER_LIMIT"
    using slot_inv_count(1) [OF f] i by (simp add: dlist_def distinct_card)
  have sz: "0 < sizeof_socketItem" "sizeof_socketItem \<le> slotSize (mAlloc s)" using i by (simp_all add: sizeof_socketItem_def)
  note m = slot_malloc_inv [OF f sz]
  show ?thesis
  proof (cases free)
    case Nil
    then show ?thesis using m len by simp
  next
    case (Cons u free')
    obtain p where p: "slot_malloc (pool s) (Some (mAlloc s)) sizeof_socketItem = Some (u, p)"
      "slot_inv p (mAlloc s) free' (insert u (set ring))" using m Cons by auto
    have u: "u \<notin> set ring" "u \<in> set (slots (mAlloc s))" using f Cons by (auto simp: slot_inv_def)
    have nz: "u \<noteq> 0" using slots_in_chunk(4) f u(2) by (auto simp: slot_inv_def)
    let ?s = "unit_slot u p"
    have it: "sitems ?s = (sitems s)(u \<mapsto> it)" by (simp add: assms(2))
    have "u \<noteq> mQueue s" using u(2) i by auto
    then have d: "dlist (links ?s) (mQueue ?s) ring"
      using i u(1) unfolding assms(2) by (auto intro!: dlist_frame [of "links s" "mQueue s" ring])
    have "sorted_wrt (<) (map (fd_at ?s) ring)" unfolding holder_map_upd(2) [OF it u(1)] using i by blast
    moreover have "slot_inv (pool ?s) (mAlloc ?s) free' (set ring \<union> {u})" using p(2) by (simp add: assms(2))
    moreover have "dom (sitems ?s) = set ring \<union> {u}" using i it by auto
    ultimately have "holder_inv ?s ring {u}" unfolding holder_inv_def using i u(1) d by (auto simp: assms(2))
    then show ?thesis using p(1) u(1) nz len Cons by auto
  qed
qed

lemma rc_decWeak_weak: "rc_decWeak c = Some c' \<Longrightarrow> rc_weak c' = rc_weak c - 1"
  by (cases c) (auto split: if_splits)

text \<open>An item \<open>u\<close> that is not in the ring yet, and the weak reference taken for it.\<close>

definition unplaced :: "SocketHolder \<Rightarrow> transports \<Rightarrow> u32 list \<Rightarrow> u32 \<Rightarrow> (nat \<Rightarrow> rc) \<Rightarrow> bool" where
  "unplaced s w ring u c \<longleftrightarrow> holder_inv s ring {u} \<and> counted w c \<and>
     (\<forall>b. count_list (map (inst_at s) ring) b + (if b = inst_at s u then 1 else 0) \<le> rc_weak (c b))"

lemma link_unplaced:
  assumes "unplaced s w (xs @ ys) u c" "\<forall>q \<in> set xs. fd_at s q < fd_at s u" "\<forall>q \<in> set ys. fd_at s u < fd_at s q"
  shows "\<exists>s'. link_item s u (hd (ys @ [mQueue s])) = Some s' \<and> registry s' w (xs @ u # ys) c \<and>
    holder_map s' (xs @ u # ys) = (holder_map s (xs @ ys))(fd_at s u \<mapsto> inst_at s u)"
proof -
  obtain s' where s': "link_item s u (hd (ys @ [mQueue s])) = Some s'" "holder_inv s' (xs @ u # ys) {}" "sitems s' = sitems s"
    using link_item_ok [of s xs ys u "{}"] assms by (auto simp: unplaced_def)
  have e: "fd_at s' = fd_at s" "inst_at s' = inst_at s" by (simp_all add: fd_at_def inst_at_def s'(3) fun_eq_iff)
  have "holder_map s' (xs @ u # ys) = (holder_map s (xs @ ys))(fd_at s u \<mapsto> inst_at s u)"
    using holder_map_split(1) [of s' xs u ys] s'(2) e by (simp add: holder_inv_def holder_map_def)
  moreover have "count_list (map (inst_at s') (xs @ u # ys)) b \<le> rc_weak (c b)" for b
    using assms(1) [unfolded unplaced_def, THEN conjunct2, THEN conjunct2, rule_format, of b] by (auto simp: e split: if_splits)
  then have "accounted s' (xs @ u # ys) c" by (simp only: accounted_def) blast
  ultimately show ?thesis using s'(1,2) assms(1) by (auto simp: registry_def unplaced_def)
qed

lemma remove_unplaced:
  assumes "unplaced s w (xs @ q # ys) u c" "c (inst_at s q) \<noteq> Fresh 1" "int (rc_total (c (inst_at s q))) < INITIAL_STRONG_VALUE - 1"
  shows "\<exists>s' w' c'. removeItem dtor s w q = Ret (s', w') \<and> unplaced s' w' (xs @ ys) u c' \<and> sock_of w' = sock_of w \<and>
    (\<forall>z. z \<noteq> q \<longrightarrow> fd_at s' z = fd_at s z \<and> inst_at s' z = inst_at s z) \<and> mQueue s' = mQueue s \<and>
    holder_map s' (xs @ ys) = (holder_map s (xs @ q # ys))(fd_at s q := None) \<and> life 0 c c'"
proof -
  let ?b = "inst_at s q"
  have i: "holder_inv s (xs @ q # ys) {u}" and cw: "counted w c" using assms(1) by (simp_all add: unplaced_def)
  have cnt: "count_list (map (inst_at s) (xs @ q # ys)) b + (if b = inst_at s u then 1 else 0) \<le> rc_weak (c b)" for b
    using assms(1) by (simp add: unplaced_def)
  then have "accounted s (xs @ q # ys) c" unfolding accounted_def by (metis add_leD1)
  then obtain s' w' c' where r: "removeItem dtor s w q = Ret (s', w')" "holder_inv s' (xs @ ys) {u}" "counted w' c'"
    "sock_of w' = sock_of w" "sitems s' = (sitems s)(q := None)" "mQueue s' = mQueue s"
    "holder_map s' (xs @ ys) = (holder_map s (xs @ q # ys))(fd_at s q := None)"
    "rc_decWeak (c ?b) = Some (c' ?b)" "\<forall>b. b \<noteq> ?b \<longrightarrow> c' b = c b"
    using remove_entry [OF i cw _ assms(2,3), of dtor] by blast
  have e: "fd_at s' z = fd_at s z" "inst_at s' z = inst_at s z" if "z \<noteq> q" for z using fd_at_upd [OF r(5) that] by blast+
  have q: "q \<notin> set (xs @ ys)" "u \<noteq> q" using i by (auto simp: holder_inv_def dlist_def)
  have m: "map (inst_at s') (xs @ ys) = map (inst_at s) (xs @ ys)" using e(2) q by (intro map_cong refl) metis
  have wk: "rc_weak (c' ?b) = rc_weak (c ?b) - 1" using rc_decWeak_weak [OF r(8)] .
  have "count_list (map (inst_at s') (xs @ ys)) b + (if b = inst_at s' u then 1 else 0) \<le> rc_weak (c' b)" for b
    unfolding m e(2) [OF q(2)] using cnt [of b] r(9) wk by (cases "b = ?b") auto
  then have "unplaced s' w' (xs @ ys) u c'" using r(2,3) unfolding unplaced_def by blast
  moreover have "life 0 c c'" using life_drop [of c ?b c'] r(8,9) assms(2) by blast
  ultimately show ?thesis using r(1,4,6,7) e by blast
qed

lemma place_item_ok:
  assumes "unplaced s w ring u c" "\<And>b. holder_map s ring (fd_at s u) = Some b \<Longrightarrow> c b \<noteq> Fresh 1"
    "\<And>b. int (rc_total (c b)) < INITIAL_STRONG_VALUE - 1"
  shows "\<exists>s' w' ring' c'. place_item dtor s w u (fd_at s u) = Ret (NO_ERROR, s', w') \<and> registry s' w' ring' c' \<and>
    holder_map s' ring' = (holder_map s ring)(fd_at s u \<mapsto> inst_at s u) \<and> sock_of w' = sock_of w \<and>
    life 0 c c'"
proof -
  have i: "holder_inv s ring {u}" using assms(1) by (simp add: unplaced_def)
  then show ?thesis
  proof (cases rule: holder_find_cases [where sock = "fd_at s u"])
    case (absent xs ys)
    then obtain s' where "link_item s u (hd (ys @ [mQueue s])) = Some s'" "registry s' w (xs @ u # ys) c"
      "holder_map s' (xs @ u # ys) = (holder_map s ring)(fd_at s u \<mapsto> inst_at s u)"
      using link_unplaced [of s w xs ys u c] assms(1) by auto
    moreover from this have "place_item dtor s w u (fd_at s u) = Ret (NO_ERROR, s', w)"
      using absent(2) by (simp add: place_item_def)
    ultimately show ?thesis using life_refl by blast
  next
    case (found xs q ys)
    have nq: "q \<notin> set (xs @ ys)" "u \<noteq> q" using i found(1) by (auto simp: holder_inv_def dlist_def)
    have m: "holder_map s ring (fd_at s u) = Some (inst_at s q)"
      using holder_map_find(1) [of s xs q ys] i found(1,2) by (auto simp: holder_inv_def)
    obtain s1 w1 c1 where r: "removeItem dtor s w q = Ret (s1, w1)" "unplaced s1 w1 (xs @ ys) u c1" "sock_of w1 = sock_of w"
      "\<forall>z. z \<noteq> q \<longrightarrow> fd_at s1 z = fd_at s z \<and> inst_at s1 z = inst_at s z" "mQueue s1 = mQueue s"
      "holder_map s1 (xs @ ys) = (holder_map s (xs @ q # ys))(fd_at s q := None)" "life 0 c c1"
      using remove_unplaced [of s w xs q ys u c dtor] assms(1) assms(2) [OF m] assms(3) unfolding found(1) by blast
    have "\<forall>z \<in> set xs. fd_at s1 z < fd_at s1 u" "\<forall>z \<in> set ys. fd_at s1 u < fd_at s1 z"
      using found(4,5) r(4) nq by (metis Un_iff set_append)+
    then obtain s2 where s2: "link_item s1 u (hd (ys @ [mQueue s])) = Some s2" "registry s2 w1 (xs @ u # ys) c1"
      "holder_map s2 (xs @ u # ys) = (holder_map s1 (xs @ ys))(fd_at s u \<mapsto> inst_at s u)"
      using link_unplaced [OF r(2)] r(4,5) nq(2) by auto
    have "nextp (links s) q = Some (hd (ys @ [mQueue s]))"
      using dlist_neighbours [of "links s" "mQueue s" xs q ys] i found(1) by (auto simp: holder_inv_def)
    then have "place_item dtor s w u (fd_at s u) = Ret (NO_ERROR, s2, w1)"
      using found(3) nq(2) r(1) s2(1) by (simp add: place_item_def)
    moreover have "holder_map s2 (xs @ u # ys) = (holder_map s ring)(fd_at s u \<mapsto> inst_at s u)"
      using s2(3) r(6) found(1,2) by simp
    ultimately show ?thesis using s2(2) r(3,7) by blast
  qed
qed

lemma holder_insert_ok:
  assumes "registry s w ring c" "roomy c" "inst \<noteq> 0" "rc_alive (c inst)"
    "\<And>b. holder_map s ring sock = Some b \<Longrightarrow> b \<noteq> inst \<Longrightarrow> c b \<noteq> Fresh 1"
  shows "if length ring = CONTAINER_LIMIT then holder_insert dtor s w sock inst = Ret (UNKNOWN_ERROR, s, w)
    else \<exists>s' w' ring' c'. holder_insert dtor s w sock inst = Ret (NO_ERROR, s', w') \<and> registry s' w' ring' c' \<and>
      holder_map s' ring' = (holder_map s ring)(sock \<mapsto> inst) \<and> sock_of w' = sock_of w \<and>
      life 1 c c'"
proof -
  have i: "holder_inv s ring {}" and cw: "counted w c" and ac: "accounted s ring c" using assms(1) by (simp_all add: registry_def)
  define it where "it = \<lparr>socket_fd = sock, socket_inst = inst\<rparr>"
  define unit_slot where "unit_slot = (\<lambda>u p. s\<lparr>pool := p, links := set_next (links s) u None, sitems := (sitems s)(u \<mapsto> it)\<rparr>)"
  note t = take_slot [OF i unit_slot_def]
  show ?thesis
  proof (cases "length ring = CONTAINER_LIMIT")
    case True
    then show ?thesis using t assms(3) by (simp add: holder_insert_def)
  next
    case False
    then obtain u p where u: "slot_malloc (pool s) (Some (mAlloc s)) sizeof_socketItem = Some (u, p)" "u \<noteq> 0" "u \<notin> set ring"
      "holder_inv (unit_slot u p) ring {u}" using t by auto
    let ?s = "unit_slot u p"
    have si: "sitems ?s = (sitems s)(u \<mapsto> it)" by (simp add: unit_slot_def)
    have hm: "holder_map ?s ring = holder_map s ring" using holder_map_upd(1) [OF si u(3)] .
    have inst: "map (inst_at ?s) ring = map (inst_at s) ring"
      using fd_at_upd(2) [OF si] u(3) by (intro map_cong refl) metis
    have at_u: "fd_at ?s u = sock" "inst_at ?s u = inst" by (simp_all add: si fd_at_def inst_at_def it_def)
    obtain d where d: "rc_createWeak (c inst) = Some d" "rc_alive d" "rc_weak d = Suc (rc_weak (c inst))"
      "rc_total d = Suc (rc_total (c inst))" using assms(4) by (cases "c inst") auto
    obtain w1 where w1: "counted w1 (c(inst := d))" "sock_of w1 = sock_of w" "refs_do dtor createWeak inst w = Ret w1"
      using refs_do_ok [OF refines_ops(3) cw roomyD [OF assms(2)] d(1), of dtor] d(2) by auto
    have cnt: "count_list (map (inst_at s) ring) b \<le> rc_weak (c b)" for b using ac by (simp add: accounted_def)
    have up: "unplaced ?s w1 ring u (c(inst := d))"
      unfolding unplaced_def inst at_u using u(4) w1(1) cnt d(3) by simp
    have nf: "(c(inst := d)) b \<noteq> Fresh 1" if "holder_map ?s ring (fd_at ?s u) = Some b" for b
    proof (cases "b = inst")
      case True
      have "(sock, b) \<in> set (map (\<lambda>p. (fd_at s p, inst_at s p)) ring)"
        using that [unfolded hm at_u, unfolded holder_map_def] by (rule map_of_SomeD)
      then have "count_list (map (inst_at s) ring) b \<noteq> 0" by (auto simp: count_list_0_iff)
      then show ?thesis using cnt [of b] d(3) True by auto
    qed (use assms(5) that at_u hm in auto)
    have room: "int (rc_total ((c(inst := d)) b)) < INITIAL_STRONG_VALUE - 1" for b
      using roomyD [OF assms(2), of b] assms(2) [unfolded roomy_def, rule_format, of inst] d(4) by simp
    have "holder_insert dtor s w sock inst = place_item dtor ?s w1 u (fd_at ?s u)"
      using assms(3) u(1,2) w1(3) at_u by (simp add: holder_insert_def unit_slot_def it_def)
    moreover have "life 1 c (c(inst := d))" using d assms(4) by (cases "c inst") (auto simp: life_def)
    then have "life 0 (c(inst := d)) c' \<Longrightarrow> life 1 c c'" for c' using life_trans by fastforce
    ultimately show ?thesis using place_item_ok [OF up nf room, of dtor] False unfolding w1(2) hm at_u by metis
  qed
qed

text \<open>
  What \<open>fetch\<close> needs of the object it finds and of the reference \<open>out\<close> the caller passes in: that no
  count it lowers is the last one.
\<close>

fun rc_took :: "rc \<Rightarrow> rc" where
  \<comment> \<open>one more strong reference\<close>
  "rc_took (Fresh w) = Shared 1 w"
| "rc_took (Shared s w) = Shared (Suc s) w"
| "rc_took Gone = Gone"

lemma rc_took_facts:
  assumes "rc_alive c"
  shows "rc_incStrong c = Some (rc_took c)" "rc_weak c > 0 \<Longrightarrow> rc_attempt c = Some (True, rc_took c)"
    "rc_alive (rc_took c)" "rc_weak (rc_took c) = rc_weak c" "rc_total (rc_took c) = Suc (rc_total c)"
    "rc_strong (rc_took c) = Suc (rc_strong c)" "rc_strong c > 0 \<Longrightarrow> rc_decStrong (rc_took c) = Some c"
    "rc_decStrong (rc_took (rc_took c)) = Some (rc_took c)"
  using assms by (cases c; simp)+

lemma fetch_keeps:
  \<comment> \<open>the branch of \<open>fetch\<close> that returns the instance\<close>
  assumes "counted w c" "roomy c" "rc_alive (c b)" "rc_weak (c b) > 0" "b \<noteq> 0"
    "out = 0 \<or> out = b \<and> rc_strong (c b) > 0 \<or> out \<noteq> b \<and> rc_strong (c out) > 1"
  defines "c' \<equiv> (if out = 0 then c(b := rc_took (c b)) else if out = b then c
      else c(b := rc_took (c b), out := the (rc_decStrong (c out))))"
  shows "\<exists>r w2 w3. attemptIncStrong (refs_of w b) = Some (True, r) \<and>
    sp_assign dtor (w\<lparr>refs_of := (refs_of w)(b := r)\<rparr>) out b = Ret w2 \<and> refs_do dtor decStrong b w2 = Ret w3 \<and>
    counted w3 c' \<and> sock_of w3 = sock_of w"
proof -
  note rm = assms(2) [unfolded roomy_def, rule_format]
  note tk = rc_took_facts [OF assms(3)]
  note tk2 = rc_took_facts [OF tk(3)]
  obtain r where r: "attemptIncStrong (refs_of w b) = Some (True, r)"
    "counted (w\<lparr>refs_of := (refs_of w)(b := r)\<rparr>) (c(b := rc_took (c b)))"
    using attempt_ok [OF assms(1) roomyD [OF assms(2)] tk(2) [OF assms(4)]] by blast
  let ?w = "w\<lparr>refs_of := (refs_of w)(b := r)\<rparr>"
  have "int (rc_total ((c(b := rc_took (c b))) b)) < INITIAL_STRONG_VALUE - 1" using rm [of b] tk(5) by simp
  then obtain w1 where w1: "counted w1 (c(b := rc_took (rc_took (c b))))" "sock_of w1 = sock_of w" "refs_do dtor incStrong b ?w = Ret w1"
    using refs_do_ok [OF refines_ops(1) r(2) _ , of b "rc_took (rc_took (c b))" dtor] tk2(1,3) by auto
  consider "out = 0" | "out = b" "rc_strong (c b) > 0" | so wo where "out \<noteq> 0" "out \<noteq> b" "c out = Shared so wo" "so > 1"
    using assms(6) by (cases "c out") auto
  then show ?thesis
  proof cases
    case 1
    then have "sp_assign dtor ?w out b = Ret w1" using assms(5) w1(3) by (simp add: sp_assign_def)
    moreover obtain w3 where "counted w3 c'" "sock_of w3 = sock_of w1" "refs_do dtor decStrong b w1 = Ret w3"
      using refs_do_ok [OF refines_ops(2) w1(1), of b "rc_took (c b)" dtor] tk(3,5,8) tk2(5) rm [of b] 1 by (auto simp: c'_def)
    ultimately show ?thesis using r(1) w1(2) by auto
  next
    case 2
    obtain w2 where w2: "counted w2 (c(b := rc_took (c b)))" "sock_of w2 = sock_of w1" "refs_do dtor decStrong b w1 = Ret w2"
      using refs_do_ok [OF refines_ops(2) w1(1), of b "rc_took (c b)" dtor] tk(3,5,8) tk2(5) rm [of b] by auto
    moreover have "sp_assign dtor ?w out b = Ret w2" using assms(5) w1(3) w2(3) 2 by (simp add: sp_assign_def)
    moreover obtain w3 where "counted w3 c'" "sock_of w3 = sock_of w2" "refs_do dtor decStrong b w2 = Ret w3"
      using refs_do_ok [OF refines_ops(2) w2(1), of b "c b" dtor] tk(3,5,7) rm [of b] 2 assms(3,5) by (auto simp: c'_def)
    ultimately show ?thesis using r(1) w1(2) by auto
  next
    case 3
    obtain w2 where w2: "counted w2 (c(b := rc_took (rc_took (c b)), out := Shared (so - 1) wo))" "sock_of w2 = sock_of w1"
      "refs_do dtor decStrong out w1 = Ret w2"
      using refs_do_ok [OF refines_ops(2) w1(1), of out "Shared (so - 1) wo" dtor] rm [of out] 3 by auto
    moreover have "sp_assign dtor ?w out b = Ret w2" using assms(5) w1(3) w2(3) 3 by (simp add: sp_assign_def)
    moreover obtain w3 where "counted w3 c'" "sock_of w3 = sock_of w2" "refs_do dtor decStrong b w2 = Ret w3"
      using refs_do_ok [OF refines_ops(2) w2(1), of b "rc_took (c b)" dtor] tk(3,5,8) tk2(5) rm [of b] 3
      by (auto simp: c'_def fun_upd_twist)
    ultimately show ?thesis using r(1) w1(2) by auto
  qed
qed

definition fetched :: "(nat \<Rightarrow> rc) \<Rightarrow> nat \<Rightarrow> nat \<Rightarrow> nat \<Rightarrow> rc" where
  \<comment> \<open>the references after the caller's \<open>sp\<close> has changed from \<open>out\<close> to \<open>b\<close>\<close>
  "fetched c out b = (if out = 0 then c(b := rc_took (c b)) else if out = b then c
      else c(b := rc_took (c b), out := the (rc_decStrong (c out))))"

lemma fetched_weak:
  assumes "rc_alive (c b)" "out = 0 \<or> out = b \<or> rc_strong (c out) > 1"
  shows "rc_weak (fetched c out b i) = rc_weak (c i)" "rc_alive (fetched c out b i) = rc_alive (c i)"
  using assms rc_took_facts [OF assms(1)] by (cases "c out"; auto simp: fetched_def)+

lemma fetch_drops:
  \<comment> \<open>the branches of \<open>fetch\<close> that remove the entry\<close>
  assumes "registry s w (xs @ p # ys) c" "roomy c" "holder_find s sock = Some (True, p)" "sock = fd_at s p" "b = inst_at s p"
    "\<not> rc_alive (c b) \<or> sock_of w b \<noteq> sock \<and> rc_strong (c b) > 0"
  shows "\<exists>s' w' c'. holder_fetch dtor s w sock out = Ret (DEAD_OBJECT, out, s', w') \<and> registry s' w' (xs @ ys) c' \<and>
    holder_map s' (xs @ ys) = (holder_map s (xs @ p # ys))(sock := None) \<and> sock_of w' = sock_of w \<and>
    life 0 c c'"
proof -
  have i: "holder_inv s (xs @ p # ys) {}" and cw: "counted w c" and ac: "accounted s (xs @ p # ys) c"
    using assms(1) by (simp_all add: registry_def)
  obtain it where it: "sitems s p = Some it" "socket_inst it = b"
    using holder_inv_slots(4) [OF i, of p] assms(5) by (auto simp: inst_at_def)
  have wk: "rc_weak (c b) > 0" using ac [unfolded accounted_def, rule_format, of b] assms(5) by simp
  have nf: "c b \<noteq> Fresh 1" using assms(6) by auto
  have rm: "int (rc_total (c b)) < INITIAL_STRONG_VALUE - 2" using assms(2) [unfolded roomy_def, rule_format, of b] by simp
  have drop: "\<exists>s' w' c'. removeItem dtor s w1 p = Ret (s', w') \<and> registry s' w' (xs @ ys) c' \<and> sock_of w' = sock_of w \<and>
      holder_map s' (xs @ ys) = (holder_map s (xs @ p # ys))(sock := None) \<and> life 0 c c'"
    if "counted w1 c" "sock_of w1 = sock_of w" for w1
  proof -
    note w1 = that
    obtain s' w' c' where r: "removeItem dtor s w1 p = Ret (s', w')" "holder_inv s' (xs @ ys) {}" "counted w' c'"
      "accounted s' (xs @ ys) c'" "sock_of w' = sock_of w1"
      "holder_map s' (xs @ ys) = (holder_map s (xs @ p # ys))(fd_at s p := None)"
      "rc_decWeak (c b) = Some (c' b)" "\<forall>i. i \<noteq> b \<longrightarrow> c' i = c i"
      using remove_entry [OF i w1(1) ac, of dtor] nf roomyD [OF assms(2), of b] unfolding assms(5) by blast
    have "life 0 c c'" using life_drop [of c b c'] r(7,8) nf by blast
    then show ?thesis using r(1-6) assms(4) w1(2) unfolding registry_def
      by (intro exI [of _ s'] exI [of _ w'] exI [of _ c']) simp
  qed
  show ?thesis
  proof (cases "rc_alive (c b)")
    case False
    then have "rc_attempt (c b) = Some (False, c b)" using wk by (cases "c b") auto
    then obtain r where r: "attemptIncStrong (refs_of w b) = Some (False, r)" "counted (w\<lparr>refs_of := (refs_of w)(b := r)\<rparr>) c"
      using attempt_ok [OF cw roomyD [OF assms(2)]] by fastforce
    then show ?thesis using drop [OF r(2)] assms(3) it by (auto simp: holder_fetch_def Let_def)
  next
    case True
    then have st: "sock_of w b \<noteq> sock" "rc_strong (c b) > 0" using assms(6) by auto
    note tk = rc_took_facts [OF True]
    obtain r where r: "attemptIncStrong (refs_of w b) = Some (True, r)"
      "counted (w\<lparr>refs_of := (refs_of w)(b := r)\<rparr>) (c(b := rc_took (c b)))"
      using attempt_ok [OF cw roomyD [OF assms(2)] tk(2) [OF wk]] by blast
    obtain w2 where w2: "counted w2 c" "sock_of w2 = sock_of w"
      "refs_do dtor decStrong b (w\<lparr>refs_of := (refs_of w)(b := r)\<rparr>) = Ret w2"
      using refs_do_ok [OF refines_ops(2) r(2), of b "c b" dtor] tk(5,7) st(2) rm True by auto
    show ?thesis using drop [OF w2(1,2)] assms(3) it r(1) w2(3) st(1) by (auto simp: holder_fetch_def Let_def)
  qed
qed

lemma holder_fetch_ok:
  assumes "registry s w ring c" "roomy c" "0 \<notin> ran (holder_map s ring)"
    "out = 0 \<or> rc_strong (c out) > 1 \<or> holder_map s ring sock = Some out \<and> rc_strong (c out) > 0"
    "\<And>b. holder_map s ring sock = Some b \<Longrightarrow> sock_of w b \<noteq> sock \<Longrightarrow> rc_alive (c b) \<Longrightarrow> rc_strong (c b) > 0"
  shows "case holder_map s ring sock of
      None \<Rightarrow> holder_fetch dtor s w sock out = Ret (NAME_NOT_FOUND, out, s, w)
    | Some b \<Rightarrow>
        if rc_alive (c b) \<and> sock_of w b = sock
        then \<exists>w'. holder_fetch dtor s w sock out = Ret (NO_ERROR, b, s, w') \<and> registry s w' ring (fetched c out b) \<and>
               sock_of w' = sock_of w
        else \<exists>s' w' ring' c'. holder_fetch dtor s w sock out = Ret (DEAD_OBJECT, out, s', w') \<and> registry s' w' ring' c' \<and>
               holder_map s' ring' = (holder_map s ring)(sock := None) \<and> sock_of w' = sock_of w \<and>
               life 0 c c'"
proof -
  have i: "holder_inv s ring {}" and cw: "counted w c" and ac: "accounted s ring c" using assms(1) by (simp_all add: registry_def)
  from i show ?thesis
  proof (cases rule: holder_find_cases [where sock = sock])
    case (absent xs ys)
    then show ?thesis using holder_map_absent [OF absent(3,4)] by (simp add: holder_fetch_def)
  next
    case (found xs p ys)
    define b where "b = inst_at s p"
    have m: "holder_map s ring sock = Some b"
      using holder_map_find(1) [of s xs p ys] i found(1,2) by (auto simp: holder_inv_def b_def)
    have b: "b \<noteq> 0" using assms(3) m ranI by metis
    show ?thesis
    proof (cases "rc_alive (c b) \<and> sock_of w b = sock")
      case True
      obtain it where it: "sitems s p = Some it" "socket_inst it = b"
        using holder_inv_slots(4) [OF i, of p] found(1) by (auto simp: inst_at_def b_def)
      have wk: "rc_weak (c b) > 0" using ac [unfolded accounted_def, rule_format, of b] found(1) by (simp add: b_def)
      have out: "out = 0 \<or> out = b \<and> rc_strong (c b) > 0 \<or> out \<noteq> b \<and> rc_strong (c out) > 1" using assms(4) m by auto
      obtain r w2 w3 where f: "attemptIncStrong (refs_of w b) = Some (True, r)"
        "sp_assign dtor (w\<lparr>refs_of := (refs_of w)(b := r)\<rparr>) out b = Ret w2" "refs_do dtor decStrong b w2 = Ret w3"
        "counted w3 (fetched c out b)" "sock_of w3 = sock_of w"
        using fetch_keeps [OF cw assms(2) conjunct1 [OF True] wk b out, of dtor] unfolding fetched_def by blast
      have "accounted s ring (fetched c out b)"
        using ac fetched_weak(1) [where c = c and b = b and out = out] True out unfolding accounted_def by metis
      moreover have "holder_fetch dtor s w sock out = Ret (NO_ERROR, b, s, w3)"
        using found(3) it f(1-3) True by (simp add: holder_fetch_def Let_def)
      ultimately show ?thesis using m True f(4,5) i by (auto simp: registry_def)
    next
      case False
      then have "\<not> rc_alive (c b) \<or> sock_of w b \<noteq> sock \<and> rc_strong (c b) > 0" using assms(5) [OF m] by blast
      from fetch_drops [OF assms(1) [unfolded found(1)] assms(2) found(3) found(2) [symmetric] b_def this, of dtor out]
      have "\<exists>s' w' ring' c'. holder_fetch dtor s w sock out = Ret (DEAD_OBJECT, out, s', w') \<and> registry s' w' ring' c' \<and>
          holder_map s' ring' = (holder_map s ring)(sock := None) \<and> sock_of w' = sock_of w \<and> life 0 c c'"
        unfolding found(1) by blast
      then show ?thesis unfolding m option.case if_not_P [OF False] .
    qed
  qed
qed

lemma SocketHolder_new_inv:
  assumes "slot_geom \<lparr>slotSize = sizeof_socketItem, freeSlots = free, chunkMem = array, chunkSize = 1200\<rparr>"
    "unat queue < unat array \<or> unat array + 1200 \<le> unat queue"
  shows "\<exists>s. SocketHolder_new l p array free queue = Some s \<and> holder_inv s [] {}"
proof -
  let ?a = "\<lparr>slotSize = sizeof_socketItem, freeSlots = free, chunkMem = array, chunkSize = 1200 :: u32\<rparr>"
  have rd: "slot_round sizeof_socketItem = sizeof_socketItem" by (simp add: slot_round_def sizeof_socketItem_def)
  have sz: "of_nat CONTAINER_LIMIT * sizeof_socketItem = (1200 :: u32)" by (simp add: CONTAINER_LIMIT_def sizeof_socketItem_def)
  obtain p' where p': "init_slot_allocator p (Some ?a) = Some (0, p', Some ?a)" "slot_inv p' ?a (slots ?a) {}"
    using init_slot_allocator_inv(2) [OF assms(1), of p] by (auto simp: rd)
  have len: "length (slots ?a) = CONTAINER_LIMIT"
    by (simp add: slots_def sizeof_socketItem_def CONTAINER_LIMIT_def)
  have q: "queue \<notin> set (slots ?a)"
  proof
    assume "queue \<in> set (slots ?a)"
    from slots_in_chunk(1,2) [OF assms(1) this] show False using assms(2) by (simp add: sizeof_socketItem_def)
  qed
  define s where "s = \<lparr>links = set_next (set_prev l queue (Some queue)) queue (Some queue), sitems = Map.empty,
      mQueue = queue, pool = p', mAlloc = ?a\<rparr>"
  have "SocketHolder_new l p array free queue = Some s"
    using p'(1) by (simp add: SocketHolder_new_def sz Let_def s_def)
  moreover have "\<exists>free. slot_inv (pool s) (mAlloc s) free {}" using p'(2) by (auto simp: s_def)
  then have "holder_inv s [] {}" using len q by (simp add: holder_inv_def dlist_def s_def)
  ultimately show ?thesis by blast
qed

section \<open>Properties\<close>

text \<open>
  C15. The registry of sockets is a map with room for 50 entries.  Inserting a transport that is alive
  maps its socket to it, in place of an entry the socket had before; when 50 sockets are registered it
  fails without a change, whether or not the socket is one of them.  Removing a socket deletes exactly its
  entry, or reports \<open>NAME_NOT_FOUND\<close>.  The ring stays sorted by socket without duplicates, no slot of
  the allocator is lost, every entry owns one weak reference, and no transport is deleted, provided the
  entry that goes is not the only reference to a transport that never had a strong one.
\<close>

theorem holder_is_map:
  assumes "registry s w ring c" "roomy c" "inst \<noteq> 0" "rc_alive (c inst)"
    "\<forall>b. holder_map s ring sock = Some b \<longrightarrow> c b \<noteq> Fresh 1"
  shows "(if length ring = CONTAINER_LIMIT then holder_insert dtor s w sock inst = Ret (UNKNOWN_ERROR, s, w)
     else \<exists>s' w' ring' c'. holder_insert dtor s w sock inst = Ret (NO_ERROR, s', w') \<and> registry s' w' ring' c' \<and>
       holder_map s' ring' = (holder_map s ring)(sock \<mapsto> inst) \<and> sock_of w' = sock_of w \<and>
       life 1 c c') \<and>
    (case holder_map s ring sock of
       None \<Rightarrow> holder_remove dtor s w sock = Ret (NAME_NOT_FOUND, s, w)
     | Some b \<Rightarrow> \<exists>s' w' ring' c'. holder_remove dtor s w sock = Ret (NO_ERROR, s', w') \<and> registry s' w' ring' c' \<and>
         holder_map s' ring' = (holder_map s ring)(sock := None) \<and> sock_of w' = sock_of w \<and>
         rc_decWeak (c b) = Some (c' b) \<and> (\<forall>b'. b' \<noteq> b \<longrightarrow> c' b' = c b')) \<and>
    sorted_wrt (<) (map (fd_at s) ring) \<and> length ring \<le> CONTAINER_LIMIT"
proof -
  have i: "holder_inv s ring {}" using assms(1) by (simp add: registry_def)
  then have "sorted_wrt (<) (map (fd_at s) ring)" by (simp add: holder_inv_def)
  moreover have "length ring \<le> CONTAINER_LIMIT" using holder_inv_length(1) [OF i] by simp
  moreover note holder_insert_ok [OF assms(1-4), of sock dtor] holder_remove_ok [OF assms(1,2), of sock dtor]
  ultimately show ?thesis using assms(5) by blast
qed

definition demo_refs :: transports where
  \<comment> \<open>transport \<open>b\<close> uses socket \<open>b\<close> and has one strong reference\<close>
  "demo_refs = \<lparr>refs_of = (\<lambda>_. RefBase_init\<lparr>mStrong := 1, mWeak := 1\<rparr>), sock_of = int\<rparr>"

definition no_dtor :: dtor where
  "no_dtor b w = Fault"

definition demo_holder :: SocketHolder where
  "demo_holder = the (SocketHolder_new \<lparr>nextp = (\<lambda>_. None), prevp = (\<lambda>_. None)\<rparr> \<lparr>nextp = (\<lambda>_. None), prevp = (\<lambda>_. None)\<rparr> 4096 16 64)"

lemma demo_holder_registry: "registry demo_holder demo_refs [] (\<lambda>_. Shared 1 0)" "roomy (\<lambda>_. Shared 1 0)"
proof -
  have "slot_geom \<lparr>slotSize = sizeof_socketItem, freeSlots = 16, chunkMem = 4096, chunkSize = 1200\<rparr>"
    by (simp add: slot_geom_def invalid_slot_alloc_def sizeof_socketItem_def)
  from SocketHolder_new_inv [OF this, of 64 "\<lparr>nextp = (\<lambda>_. None), prevp = (\<lambda>_. None)\<rparr>" "\<lparr>nextp = (\<lambda>_. None), prevp = (\<lambda>_. None)\<rparr>"]
  have "holder_inv demo_holder [] {}" by (auto simp: demo_holder_def)
  then show "registry demo_holder demo_refs [] (\<lambda>_. Shared 1 0)"
    by (simp add: registry_def counted_def accounted_def demo_refs_def RefBase_init_def)
  show "roomy (\<lambda>_. Shared 1 0)" by (simp add: roomy_def INITIAL_STRONG_VALUE_def)
qed

theorem holder_is_map_witness:
  "\<exists>s' w' ring' c'. holder_insert no_dtor demo_holder demo_refs 7 7 = Ret (NO_ERROR, s', w') \<and>
     registry s' w' ring' c' \<and> holder_map s' ring' = [7 \<mapsto> 7]"
proof -
  have e: "holder_map demo_holder [] = Map.empty" by (simp add: holder_map_def)
  show ?thesis
    using holder_is_map [OF demo_holder_registry, of 7 7 no_dtor] unfolding e by (auto simp: CONTAINER_LIMIT_def)
qed

text \<open>
  C16. Looking up a socket promotes its transport safely.  \<open>fetch\<close> returns the registered transport with
  one more strong reference if and only if it is still alive and still uses this socket; the caller's
  former reference is released.  An entry whose transport is gone, or has another socket by now, is
  removed and reported as \<open>DEAD_OBJECT\<close>, all counts as before but for the entry's own weak reference; a
  socket that is not registered changes nothing.  Required is that the reference the caller passes in is
  not the last one.
\<close>

theorem holder_fetch_promotes:
  assumes "registry s w ring c" "roomy c" "0 \<notin> ran (holder_map s ring)"
    "out = 0 \<or> rc_strong (c out) > 1 \<or> holder_map s ring sock = Some out \<and> rc_strong (c out) > 0"
    "\<forall>b. holder_map s ring sock = Some b \<longrightarrow> sock_of w b \<noteq> sock \<longrightarrow> rc_alive (c b) \<longrightarrow> rc_strong (c b) > 0"
  shows "case holder_map s ring sock of
      None \<Rightarrow> holder_fetch dtor s w sock out = Ret (NAME_NOT_FOUND, out, s, w)
    | Some b \<Rightarrow>
        if rc_alive (c b) \<and> sock_of w b = sock
        then \<exists>w'. holder_fetch dtor s w sock out = Ret (NO_ERROR, b, s, w') \<and> registry s w' ring (fetched c out b) \<and>
               sock_of w' = sock_of w
        else \<exists>s' w' ring' c'. holder_fetch dtor s w sock out = Ret (DEAD_OBJECT, out, s', w') \<and> registry s' w' ring' c' \<and>
               holder_map s' ring' = (holder_map s ring)(sock := None) \<and> sock_of w' = sock_of w \<and>
               life 0 c c'"
  using holder_fetch_ok [OF assms(1-4), of dtor] assms(5) by blast

theorem holder_fetch_promotes_witness:
  "\<exists>s' w' ring' c' w''. holder_insert no_dtor demo_holder demo_refs 7 7 = Ret (NO_ERROR, s', w') \<and>
     holder_fetch no_dtor s' w' 7 0 = Ret (NO_ERROR, 7, s', w'') \<and> registry s' w'' ring' (fetched c' 0 7)"
proof -
  have e: "holder_map demo_holder [] = Map.empty" by (simp add: holder_map_def)
  obtain s' w' ring' c' where i: "holder_insert no_dtor demo_holder demo_refs 7 7 = Ret (NO_ERROR, s', w')"
    "registry s' w' ring' c'" "holder_map s' ring' = [7 \<mapsto> 7]" "sock_of w' = sock_of demo_refs" "life 1 (\<lambda>_. Shared 1 0) c'"
    using holder_insert_ok [OF demo_holder_registry, of 7 7 no_dtor] e by (auto simp: CONTAINER_LIMIT_def)
  have "int (rc_total (c' b)) < INITIAL_STRONG_VALUE - 4" "rc_alive (c' b)" for b
    using i(5) [unfolded life_def, rule_format, of b] by (simp_all add: INITIAL_STRONG_VALUE_def)
  then have "roomy c'" "\<forall>b. rc_alive (c' b)" by (simp_all add: roomy_def)
  then show ?thesis
    using holder_fetch_promotes [OF i(2), of 0 7 no_dtor] i by (auto simp: demo_refs_def)
qed

end
