(* ===== verification/Token_Pool.thy ===== *)
theory Token_Pool
  imports Ckits_Prelude
begin

text \<open>
  \<open>libaux/TokenPool.cpp\<close>: names become pointers.  Every name is copied once into a buffer of 65536
  bytes and the copy is found again through 128 rows of pointers, so that equal names have equal
  pointers.  A pointer into \<open>tokenBuffer\<close> is its offset, a null pointer is \<open>None\<close>; a name is the list
  of its characters before the terminator.  The lock covers every operation whole, so an operation is
  one step.
\<close>

section \<open>The contract of an interner\<close>

text \<open>
  What the users of the names rely on: \<open>rep s m\<close> says that the state \<open>s\<close> has the pointers \<open>m\<close>.  A
  call that returns a pointer keeps those given out before, and no pointer stands for two names.
\<close>

locale interner =
  fixes rep :: "'s \<Rightarrow> (string \<rightharpoonup> 'p) \<Rightarrow> bool"
    and atom :: "'s \<Rightarrow> string \<Rightarrow> ('p option \<times> 's) option"
    and ok :: "string \<Rightarrow> bool"
  assumes rep_inj: "rep s m \<Longrightarrow> m a = Some p \<Longrightarrow> m b = Some p \<Longrightarrow> a = b"
    and atom_known: "rep s m \<Longrightarrow> m n = Some p \<Longrightarrow> atom s n = Some (Some p, s)"
    and atom_new: "rep s m \<Longrightarrow> ok n \<Longrightarrow> atom s n = Some (Some p, s') \<Longrightarrow> m n = None \<Longrightarrow> rep s' (m(n \<mapsto> p))"
begin

lemma atom_rep:
  assumes "rep s m" "ok n" "atom s n = Some (Some p, s')"
  shows "\<exists>m'. rep s' m' \<and> m \<subseteq>\<^sub>m m' \<and> m' n = Some p"
proof (cases "m n")
  case None
  then have "rep s' (m(n \<mapsto> p))" using atom_new assms by blast
  moreover have "m \<subseteq>\<^sub>m m(n \<mapsto> p)" using None by (auto simp: map_le_def)
  ultimately show ?thesis by (intro exI [of _ "m(n \<mapsto> p)"]) simp
next
  case (Some q)
  then have "p = q" "s' = s" using atom_known [OF assms(1) Some] assms(3) by auto
  then show ?thesis using assms(1) Some by (auto simp: map_le_def)
qed

lemma atom_twice:
  assumes "rep s m" "ok a" "ok b" "atom s a = Some (Some p, s1)" "atom s1 b = Some (Some q, s2)"
  shows "p = q \<longleftrightarrow> a = b"
proof -
  obtain m1 where m1: "rep s1 m1" "m1 a = Some p" using atom_rep [OF assms(1,2,4)] by blast
  obtain m2 where m2: "rep s2 m2" "m1 \<subseteq>\<^sub>m m2" "m2 b = Some q" using atom_rep [OF m1(1) assms(3,5)] by blast
  have "m2 a = Some p" using m1(2) m2(2) by (metis domI map_le_def)
  then show ?thesis using m2 rep_inj by auto
qed

end

section \<open>The pool\<close>

definition CONST_TOKENPOOL_SIZE :: nat where "CONST_TOKENPOOL_SIZE = 65536"
definition CONST_TOKENPOOL_ROWS :: nat where "CONST_TOKENPOOL_ROWS = 128"

record token_pool =
  mRows :: "nat option list list" \<comment> \<open>\<open>Vector<List<char *> >\<close>\<close>
  tokenBuffer :: "nat \<Rightarrow> char"
  bufferPtr :: nat

fun hash_loop :: "string \<Rightarrow> nat \<Rightarrow> u32 \<Rightarrow> u32" where
  "hash_loop [] count hash = hash"
| "hash_loop (c # cs) 0 hash = hash"
| "hash_loop (c # cs) (Suc count) hash = hash_loop cs count ((push_bit 5 hash + hash) + of_char c)"

definition Hash :: "string \<Rightarrow> u32" where
  "Hash s = (let count = length s in hash_loop s (if count \<ge> 7 then 7 else count) 5381)"

fun strcmp_eq :: "(nat \<Rightarrow> char) \<Rightarrow> nat \<Rightarrow> string \<Rightarrow> bool" where
  \<comment> \<open>\<open>0 == strcmp(p, name)\<close>\<close>
  "strcmp_eq buf p [] \<longleftrightarrow> buf p = CHR 0x00"
| "strcmp_eq buf p (c # cs) \<longleftrightarrow> buf p = c \<and> strcmp_eq buf (Suc p) cs"

fun strcpy_at :: "(nat \<Rightarrow> char) \<Rightarrow> nat \<Rightarrow> string \<Rightarrow> nat \<Rightarrow> char" where
  "strcpy_at buf p [] = buf(p := CHR 0x00)"
| "strcpy_at buf p (c # cs) = strcpy_at (buf(p := c)) (Suc p) cs"

definition TokenPool_init :: "(nat \<Rightarrow> char) \<Rightarrow> token_pool" where
  \<comment> \<open>the constructor, in memory that holds \<open>mem\<close>\<close>
  "TokenPool_init mem = \<lparr>mRows = replicate CONST_TOKENPOOL_ROWS [], tokenBuffer = mem, bufferPtr = 0\<rparr>"

definition alloc_nolock :: "token_pool \<Rightarrow> string option \<Rightarrow> nat option \<times> token_pool" where
  "alloc_nolock tp name =
     (case name of
        None \<Rightarrow> (None, tp)
      | Some n \<Rightarrow>
          (let size = 1 + length n
           in if bufferPtr tp + size \<ge> CONST_TOKENPOOL_SIZE then (None, tp)
              else (Some (bufferPtr tp),
                    tp\<lparr>tokenBuffer := strcpy_at (tokenBuffer tp) (bufferPtr tp) n, bufferPtr := bufferPtr tp + size\<rparr>)))"

fun find_token :: "(nat \<Rightarrow> char) \<Rightarrow> string \<Rightarrow> nat option list \<Rightarrow> nat option option" where
  \<comment> \<open>the search in a row: \<open>None\<close> when a null entry is compared, \<open>Some None\<close> when the name is not there\<close>
  "find_token buf name [] = Some None"
| "find_token buf name (None # es) = None"
| "find_token buf name (Some p # es) = (if strcmp_eq buf p name then Some (Some p) else find_token buf name es)"

definition atomize :: "token_pool \<Rightarrow> string \<Rightarrow> (nat option \<times> token_pool) option" where
  \<comment> \<open>\<open>atomize_internal\<close>\<close>
  "atomize tp name =
     (let index = unat (Hash name) mod length (mRows tp)
      in case find_token (tokenBuffer tp) name (mRows tp ! index) of
           None \<Rightarrow> None
         | Some (Some p) \<Rightarrow> Some (Some p, tp)
         | Some None \<Rightarrow>
             (case alloc_nolock tp (Some name) of
                (item, tp') \<Rightarrow> Some (item, tp'\<lparr>mRows := (mRows tp')[index := mRows tp' ! index @ [item]]\<rparr>)))"

definition TokenPool_clear :: "token_pool \<Rightarrow> token_pool" where
  \<comment> \<open>\<open>clear_internal\<close>\<close>
  "TokenPool_clear tp = tp\<lparr>bufferPtr := 0, mRows := map (\<lambda>_. []) (mRows tp)\<rparr>"

section \<open>Strings in the buffer\<close>

definition name_ok :: "string \<Rightarrow> bool" where "name_ok n \<longleftrightarrow> CHR 0x00 \<notin> set n"

lemma strcpy_before: "x < p \<Longrightarrow> strcpy_at buf p n x = buf x"
  by (induction n arbitrary: buf p) auto

lemma strcmp_frame: "(\<And>x. p \<le> x \<Longrightarrow> x \<le> p + length n \<Longrightarrow> buf' x = buf x) \<Longrightarrow> strcmp_eq buf' p n = strcmp_eq buf p n"
  by (induction n arbitrary: p) auto

lemma strcpy_strcmp: "strcmp_eq (strcpy_at buf p n) p n"
  by (induction n arbitrary: buf p) (auto simp: strcpy_before)

lemma strcmp_unique: "strcmp_eq buf p a \<Longrightarrow> strcmp_eq buf p b \<Longrightarrow> name_ok a \<Longrightarrow> name_ok b \<Longrightarrow> a = b"
proof (induction a arbitrary: b p)
  case Nil
  then show ?case by (cases b) (auto simp: name_ok_def)
next
  case (Cons c a)
  then show ?case by (cases b) (auto simp: name_ok_def)
qed

section \<open>The pointers of a pool\<close>

abbreviation row_of :: "string \<Rightarrow> nat" where "row_of n \<equiv> unat (Hash n) mod CONST_TOKENPOOL_ROWS"

definition pool_list :: "token_pool \<Rightarrow> (string \<times> nat) list \<Rightarrow> bool" where
  \<comment> \<open>the names in the order in which they came, with their pointers\<close>
  "pool_list tp L \<longleftrightarrow>
     length (mRows tp) = CONST_TOKENPOOL_ROWS \<and> distinct (map fst L) \<and> bufferPtr tp < CONST_TOKENPOOL_SIZE \<and>
     (\<forall>(n, p) \<in> set L. name_ok n \<and> strcmp_eq (tokenBuffer tp) p n \<and> p + length n < bufferPtr tp) \<and>
     (\<forall>i < CONST_TOKENPOOL_ROWS. mRows tp ! i = map (\<lambda>(n, p). Some p) (filter (\<lambda>(n, p). row_of n = i) L))"

definition pool_rep :: "token_pool \<Rightarrow> (string \<rightharpoonup> nat) \<Rightarrow> bool" where
  "pool_rep tp m \<longleftrightarrow> (\<exists>L. pool_list tp L \<and> m = map_of L)"

lemma find_token_list:
  assumes "\<forall>(n, p) \<in> set es. name_ok n \<and> strcmp_eq buf p n" "name_ok name"
  shows "find_token buf name (map (\<lambda>(n, p). Some p) es) = Some (map_of es name)"
  using assms(1)
proof (induction es)
  case (Cons e es)
  obtain n p where e: "e = (n, p)" by (cases e)
  then have "strcmp_eq buf p name \<longleftrightarrow> n = name" using Cons.prems strcmp_unique assms(2) by auto
  then show ?case using Cons e by auto
qed simp

lemma map_of_row: "map_of (filter (\<lambda>(n, p). row_of n = row_of name) L) name = map_of L name"
  by (induction L) auto

lemma atomize_cases:
  assumes "pool_list tp L" "name_ok name"
  shows "atomize tp name =
    (case map_of L name of
       Some p \<Rightarrow> Some (Some p, tp)
     | None \<Rightarrow> (case alloc_nolock tp (Some name) of
         (item, tp') \<Rightarrow> Some (item, tp'\<lparr>mRows := (mRows tp')[row_of name := mRows tp' ! row_of name @ [item]]\<rparr>)))"
proof -
  have l: "length (mRows tp) = CONST_TOKENPOOL_ROWS" using assms(1) by (simp add: pool_list_def)
  have "row_of name < CONST_TOKENPOOL_ROWS" by (simp add: CONST_TOKENPOOL_ROWS_def)
  then have row: "mRows tp ! row_of name = map (\<lambda>(n, p). Some p) (filter (\<lambda>(n, p). row_of n = row_of name) L)"
    using assms(1) by (simp add: pool_list_def)
  have "find_token (tokenBuffer tp) name (mRows tp ! row_of name) = Some (map_of L name)"
    unfolding row using assms by (subst find_token_list) (auto simp: pool_list_def map_of_row)
  then show ?thesis unfolding atomize_def l Let_def by (cases "map_of L name") (auto split: prod.splits)
qed

lemma pool_list_new:
  assumes "pool_list tp L" "name_ok name" "map_of L name = None" "bufferPtr tp + (1 + length name) < CONST_TOKENPOOL_SIZE"
  defines "tp' \<equiv> tp\<lparr>tokenBuffer := strcpy_at (tokenBuffer tp) (bufferPtr tp) name, bufferPtr := bufferPtr tp + (1 + length name),
    mRows := (mRows tp)[row_of name := mRows tp ! row_of name @ [Some (bufferPtr tp)]]\<rparr>"
  shows "atomize tp name = Some (Some (bufferPtr tp), tp')" "pool_list tp' (L @ [(name, bufferPtr tp)])"
proof -
  show "atomize tp name = Some (Some (bufferPtr tp), tp')"
    using atomize_cases [OF assms(1,2)] assms(3,4) by (simp add: alloc_nolock_def Let_def tp'_def not_le)
  have p: "length (mRows tp) = CONST_TOKENPOOL_ROWS" "distinct (map fst L)"
    "\<forall>(n, p) \<in> set L. name_ok n \<and> strcmp_eq (tokenBuffer tp) p n \<and> p + length n < bufferPtr tp"
    "\<forall>i < CONST_TOKENPOOL_ROWS. mRows tp ! i = map (\<lambda>(n, p). Some p) (filter (\<lambda>(n, p). row_of n = i) L)"
    using assms(1) by (simp_all add: pool_list_def)
  have "name_ok n \<and> strcmp_eq (tokenBuffer tp') p n \<and> p + length n < bufferPtr tp'"
    if "(n, p) \<in> set (L @ [(name, bufferPtr tp)])" for n p
  proof (cases "(n, p) \<in> set L")
    case True
    then have np: "name_ok n" "strcmp_eq (tokenBuffer tp) p n" "p + length n < bufferPtr tp" using p(3) by auto
    then have "strcmp_eq (tokenBuffer tp') p n = strcmp_eq (tokenBuffer tp) p n"
      by (intro strcmp_frame) (simp add: tp'_def strcpy_before)
    then show ?thesis using np by (simp add: tp'_def)
  next
    case False
    then show ?thesis using that assms(2) by (auto simp: tp'_def strcpy_strcmp)
  qed
  moreover have "name \<notin> set (map fst L)" using assms(3) by (simp add: map_of_eq_None_iff)
  moreover have "mRows tp' ! i = map (\<lambda>(n, p). Some p) (filter (\<lambda>(n, p). row_of n = i) (L @ [(name, bufferPtr tp)]))"
    if "i < CONST_TOKENPOOL_ROWS" for i
    using that p(1,4) by (auto simp: tp'_def nth_list_update)
  ultimately show "pool_list tp' (L @ [(name, bufferPtr tp)])"
    using p(1,2) assms(4) by (auto simp: pool_list_def tp'_def)
qed

lemma atomize_full:
  assumes "pool_list tp L" "name_ok name" "map_of L name = None" "\<not> bufferPtr tp + (1 + length name) < CONST_TOKENPOOL_SIZE"
  shows "atomize tp name = Some (None, tp\<lparr>mRows := (mRows tp)[row_of name := mRows tp ! row_of name @ [None]]\<rparr>)"
  using atomize_cases [OF assms(1,2)] assms(3,4) by (simp add: alloc_nolock_def Let_def not_less)

interpretation tok: interner pool_rep atomize name_ok
proof unfold_locales
  show "a = b" if r: "pool_rep s m" "m a = Some p" "m b = Some p" for s m a b p
  proof -
    obtain L where "pool_list s L" "m = map_of L" using r(1) by (auto simp: pool_rep_def)
    then have "\<forall>(n, p) \<in> set L. name_ok n \<and> strcmp_eq (tokenBuffer s) p n" "(a, p) \<in> set L" "(b, p) \<in> set L"
      using r(2,3) by (auto simp: pool_list_def dest: map_of_SomeD)
    then show ?thesis using strcmp_unique by blast
  qed
  show "atomize s n = Some (Some p, s)" if r: "pool_rep s m" "m n = Some p" for s m n p
  proof -
    obtain L where L: "pool_list s L" "m = map_of L" using r(1) by (auto simp: pool_rep_def)
    then have "name_ok n" using r(2) by (auto simp: pool_list_def dest!: map_of_SomeD)
    then show ?thesis using atomize_cases [OF L(1)] L(2) r(2) by simp
  qed
  show "pool_rep s' (m(n \<mapsto> p))"
    if r: "pool_rep s m" "name_ok n" "atomize s n = Some (Some p, s')" "m n = None" for s m n p s'
  proof -
    obtain L where L: "pool_list s L" "m = map_of L" using r(1) by (auto simp: pool_rep_def)
    have no: "map_of L n = None" using L(2) r(4) by simp
    have fits: "bufferPtr s + (1 + length n) < CONST_TOKENPOOL_SIZE"
    proof (rule ccontr)
      assume "\<not> ?thesis"
      then show False using atomize_full [OF L(1) r(2) no] r(3) by simp
    qed
    note new = pool_list_new [OF L(1) r(2) no fits]
    have "map_of (L @ [(n, p)]) = m(n \<mapsto> p)"
      using L(2) no by (auto simp: map_add_def fun_eq_iff split: option.splits)
    then show ?thesis using new r(3) unfolding pool_rep_def by auto
  qed
qed

section \<open>Properties\<close>

inductive tp_reach :: "token_pool \<Rightarrow> (string \<rightharpoonup> nat) \<Rightarrow> bool" where
  tp_reach_init: "tp_reach (TokenPool_init mem) Map.empty"
| tp_reach_atomize: "tp_reach tp m \<Longrightarrow> name_ok n \<Longrightarrow> atomize tp n = Some (Some p, tp') \<Longrightarrow> tp_reach tp' (m(n \<mapsto> p))"
| tp_reach_clear: "tp_reach tp m \<Longrightarrow> tp_reach (TokenPool_clear tp) Map.empty"

lemma pool_list_clear: "pool_list tp L \<Longrightarrow> pool_list (TokenPool_clear tp) []"
  by (auto simp: pool_list_def TokenPool_clear_def CONST_TOKENPOOL_SIZE_def)

lemma tp_reach_rep: "tp_reach tp m \<Longrightarrow> pool_rep tp m"
proof (induction rule: tp_reach.induct)
  case (tp_reach_init mem)
  have "pool_list (TokenPool_init mem) []"
    by (simp add: pool_list_def TokenPool_init_def CONST_TOKENPOOL_SIZE_def)
  then show ?case unfolding pool_rep_def by (intro exI [of _ "[]"]) simp
next
  case (tp_reach_atomize tp m n p tp')
  show ?case
  proof (cases "m n")
    case None
    then show ?thesis using tok.atom_new tp_reach_atomize by blast
  next
    case (Some q)
    then have "p = q" "tp' = tp" using tok.atom_known tp_reach_atomize by fastforce+
    then show ?thesis using tp_reach_atomize.IH Some by (metis fun_upd_triv)
  qed
next
  case (tp_reach_clear tp m)
  then obtain L where "pool_list tp L" by (auto simp: pool_rep_def)
  then show ?case unfolding pool_rep_def by (intro exI [of _ "[]"]) (simp add: pool_list_clear)
qed

text \<open>
  Tokens identify names.  In a pool reached by interning and clearing, a name that is known or
  still fits gets a pointer at which the buffer holds that name; the names interned before keep
  their pointers and their text, and the new pointer is that of another name only if the names are
  equal.  When the buffer is exhausted the answer is null, and the null entry left in the row makes
  the next search in that row for an unknown name dereference it.
\<close>

theorem atomize_interns:
  assumes "tp_reach tp m" "name_ok a"
  shows "if m a \<noteq> None \<or> bufferPtr tp + (1 + length a) < CONST_TOKENPOOL_SIZE
    then \<exists>p tp'. atomize tp a = Some (Some p, tp') \<and> strcmp_eq (tokenBuffer tp') p a \<and>
      (\<forall>b q. m b = Some q \<longrightarrow> strcmp_eq (tokenBuffer tp') q b \<and> atomize tp' b = Some (Some q, tp') \<and> (p = q \<longleftrightarrow> a = b))
    else \<exists>tp'. atomize tp a = Some (None, tp') \<and>
      (\<forall>b. name_ok b \<and> m b = None \<and> row_of b = row_of a \<longrightarrow> atomize tp' b = None)"
proof -
  obtain L where L: "pool_list tp L" "m = map_of L" using tp_reach_rep [OF assms(1)] by (auto simp: pool_rep_def)
  have tx: "strcmp_eq (tokenBuffer s) q b" if "pool_list s K" "map_of K b = Some q" for s K b q
    using that by (auto simp: pool_list_def dest!: map_of_SomeD)
  show ?thesis
  proof (cases "m a \<noteq> None \<or> bufferPtr tp + (1 + length a) < CONST_TOKENPOOL_SIZE")
    case True
    obtain p tp' where at: "atomize tp a = Some (Some p, tp')"
    proof (cases "map_of L a")
      case None
      then show thesis using pool_list_new(1) [OF L(1) assms(2) None] True L(2) that by auto
    next
      case (Some p)
      then show thesis using atomize_cases [OF L(1) assms(2)] that by simp
    qed
    obtain m' where m': "pool_rep tp' m'" "m \<subseteq>\<^sub>m m'" "m' a = Some p"
      using tok.atom_rep [OF tp_reach_rep [OF assms(1)] assms(2) at] by blast
    then obtain K where K: "pool_list tp' K" "m' = map_of K" by (auto simp: pool_rep_def)
    have "strcmp_eq (tokenBuffer tp') q b \<and> atomize tp' b = Some (Some q, tp') \<and> (p = q \<longleftrightarrow> a = b)" if "m b = Some q" for b q
    proof -
      have b: "m' b = Some q" using that m'(2) by (metis domI map_le_def)
      then show ?thesis using tx K tok.atom_known [OF m'(1)] tok.rep_inj [OF m'(1)] m'(3) by auto
    qed
    then show ?thesis using True at tx [OF K(1)] K(2) m'(3) by auto
  next
    case False
    then have no: "map_of L a = None" "\<not> bufferPtr tp + (1 + length a) < CONST_TOKENPOOL_SIZE" using L(2) by auto
    let ?t = "tp\<lparr>mRows := (mRows tp)[row_of a := mRows tp ! row_of a @ [None]]\<rparr>"
    have "atomize ?t b = None" if b: "name_ok b" "m b = None" "row_of b = row_of a" for b
    proof -
      have p: "length (mRows tp) = CONST_TOKENPOOL_ROWS" "row_of a < length (mRows tp)"
        "mRows tp ! row_of a = map (\<lambda>(n, p). Some p) (filter (\<lambda>(n, p). row_of n = row_of b) L)"
        using L(1) b(3) by (simp_all add: pool_list_def CONST_TOKENPOOL_ROWS_def)
      have "find_token (tokenBuffer tp) b (mRows tp ! row_of a) = Some None"
        unfolding p(3) using L b(1,2) by (subst find_token_list) (auto simp: pool_list_def map_of_row)
      moreover have "find_token buf n (es @ [None]) = None" if "find_token buf n es = Some None" for buf n es
        using that by (induction buf n es rule: find_token.induct) (auto split: if_splits)
      ultimately show ?thesis using p(1,2) b(3) by (simp add: atomize_def)
    qed
    then show ?thesis using False atomize_full [OF L(1) assms(2) no] by auto
  qed
qed

theorem atomize_interns_witness:
  "\<exists>p tp'. atomize (TokenPool_init (\<lambda>_. CHR 0x00)) ''samples'' = Some (Some p, tp') \<and>
     strcmp_eq (tokenBuffer tp') p ''samples''"
proof -
  have "name_ok ''samples''" "bufferPtr (TokenPool_init (\<lambda>_. CHR 0x00)) + (1 + length ''samples'') < CONST_TOKENPOOL_SIZE"
    by (simp_all add: name_ok_def TokenPool_init_def CONST_TOKENPOOL_SIZE_def)
  then show ?thesis using atomize_interns [OF tp_reach_init [of "\<lambda>_. CHR 0x00"], of "''samples''"] by auto
qed

end
