(* ===== verification/Meta_Buffer.thy ===== *)
theory Meta_Buffer
  imports Token_Pool
begin

text \<open>
  \<open>libaux/MetaBuffer.cpp\<close>: a data buffer with a valid range and up to twelve named, typed values.  The
  names of the values are pointers of the token pool, compared as pointers; the operations take the
  function \<open>atom\<close> of the interner and its state \<open>s\<close>, because the pool is shared by all buffers and even
  a search may add a name to it.

  The union of an item and its \<open>mType\<close> are one value of \<open>mb_value\<close>: every setter writes both and every
  reader compares the type first.  Floating-point values are their bit patterns.  \<open>mMem\<close> is the memory
  \<open>mData\<close> points to.  A failed \<open>CHECK\<close> ends the program and is \<open>None\<close>, like the access behind the array
  it guards.
\<close>

section \<open>Model\<close>

datatype mb_type = kTypeInt32 | kTypeInt64 | kTypeSize | kTypeFloat | kTypeDouble | kTypePointer | kTypeString

datatype mb_value =
  Int32Value int | Int64Value int | SizeValue nat | FloatValue u32 | DoubleValue u64 | PtrValue nat

fun mType :: "mb_value \<Rightarrow> mb_type" where
  "mType (Int32Value _) = kTypeInt32"
| "mType (Int64Value _) = kTypeInt64"
| "mType (SizeValue _) = kTypeSize"
| "mType (FloatValue _) = kTypeFloat"
| "mType (DoubleValue _) = kTypeDouble"
| "mType (PtrValue _) = kTypePointer"

record 'p mb_item =
  mName :: "'p option"
  mValue :: mb_value

definition kMaxNumItems :: nat where "kMaxNumItems = 12"

record 'p meta_buffer =
  mMem :: "u8 list"
  mCapacity :: nat
  mRangeOffset :: nat
  mRangeLength :: nat
  mQuickData :: u32
  mOwnsData :: bool
  mDealloc :: "nat option"
  mItems :: "'p mb_item list" \<comment> \<open>the whole array, the first \<open>mNumItems\<close> are in use\<close>
  mNumItems :: nat

type_synonym ('s, 'p) interning = "'s \<Rightarrow> string \<Rightarrow> ('p option \<times> 's) option"

definition MetaBuffer_own :: "u8 list \<Rightarrow> 'p mb_item list \<Rightarrow> nat \<Rightarrow> 'p meta_buffer" where
  \<comment> \<open>\<open>MetaBuffer(size_t capacity)\<close>; \<open>mem\<close> is what \<open>malloc\<close> returned, \<open>junk\<close> the uninitialised array\<close>
  "MetaBuffer_own mem junk capacity =
     \<lparr>mMem = mem, mCapacity = capacity, mRangeOffset = 0, mRangeLength = capacity, mQuickData = 0, mOwnsData = True,
      mDealloc = None, mItems = junk, mNumItems = 0\<rparr>"

definition MetaBuffer_wrap :: "u8 list \<Rightarrow> 'p mb_item list \<Rightarrow> nat \<Rightarrow> nat option \<Rightarrow> 'p meta_buffer" where
  \<comment> \<open>\<open>MetaBuffer(void *data, size_t capacity, freeFunc ff)\<close>\<close>
  "MetaBuffer_wrap mem junk capacity ff =
     \<lparr>mMem = mem, mCapacity = capacity, mRangeOffset = 0, mRangeLength = capacity, mQuickData = 0, mOwnsData = False,
      mDealloc = ff, mItems = junk, mNumItems = 0\<rparr>"

definition MetaBuffer_create ::
  "(nat \<Rightarrow> u8 list option) \<Rightarrow> 'p mb_item list \<Rightarrow> nat \<Rightarrow> u8 list option \<Rightarrow> nat option \<Rightarrow> 'p meta_buffer option" where
  \<comment> \<open>\<open>None\<close> is the null pointer\<close>
  "MetaBuffer_create malloc junk len data ff =
     (case data of
        Some mem \<Rightarrow> Some (MetaBuffer_wrap mem junk len ff)
      | None \<Rightarrow> map_option (\<lambda>mem. MetaBuffer_own mem junk len) (malloc len))"

datatype mb_release = Free | Dealloc nat | Keep

definition MetaBuffer_destroy :: "'p meta_buffer \<Rightarrow> mb_release" where
  \<comment> \<open>what the destructor does with the memory\<close>
  "MetaBuffer_destroy mb = (if mOwnsData mb then Free else case mDealloc mb of Some ff \<Rightarrow> Dealloc ff | None \<Rightarrow> Keep)"

definition mb_setRange :: "nat \<Rightarrow> nat \<Rightarrow> 'p meta_buffer \<Rightarrow> 'p meta_buffer" where
  "mb_setRange offset len mb = mb\<lparr>mRangeOffset := offset, mRangeLength := len\<rparr>"

definition mb_setLength :: "nat \<Rightarrow> 'p meta_buffer \<Rightarrow> 'p meta_buffer" where
  \<comment> \<open>\<open>setRange(size_t range)\<close>\<close>
  "mb_setLength len mb = mb\<lparr>mRangeLength := len\<rparr>"

definition mb_setQuickData :: "u32 \<Rightarrow> 'p meta_buffer \<Rightarrow> 'p meta_buffer" where
  "mb_setQuickData d mb = mb\<lparr>mQuickData := d\<rparr>"

definition mb_clear :: "'p meta_buffer \<Rightarrow> 'p meta_buffer" where
  "mb_clear mb = mb\<lparr>mNumItems := 0\<rparr>"

text \<open>\<open>data()[i]\<close>: a byte of the range, or outside the memory \<open>None\<close>.\<close>

definition mb_get :: "'p meta_buffer \<Rightarrow> nat \<Rightarrow> u8 option" where
  "mb_get mb i = (if mRangeOffset mb + i < length (mMem mb) then Some (mMem mb ! (mRangeOffset mb + i)) else None)"

definition mb_put :: "nat \<Rightarrow> u8 \<Rightarrow> 'p meta_buffer \<Rightarrow> 'p meta_buffer option" where
  "mb_put i b mb =
     (if mRangeOffset mb + i < length (mMem mb) then Some (mb\<lparr>mMem := (mMem mb)[mRangeOffset mb + i := b]\<rparr>) else None)"

fun item_index :: "'p option \<Rightarrow> 'p mb_item list \<Rightarrow> nat" where
  \<comment> \<open>\<open>while (i < mNumItems && mItems[i].mName != name) ++i\<close> on the items in use\<close>
  "item_index n [] = 0"
| "item_index n (it # its) = (if mName it = n then 0 else Suc (item_index n its))"

definition allocateItem :: "('s, 'p) interning \<Rightarrow> 's \<Rightarrow> 'p meta_buffer \<Rightarrow> string \<Rightarrow> (nat \<times> 's \<times> 'p meta_buffer) option" where
  \<comment> \<open>the index of the item\<close>
  "allocateItem atom s mb name =
     (case atom s name of
        None \<Rightarrow> None
      | Some (n, s') \<Rightarrow>
          (let i = item_index n (take (mNumItems mb) (mItems mb))
           in if i < mNumItems mb then Some (i, s', mb)
              else if mNumItems mb < kMaxNumItems
                   then Some (mNumItems mb, s',
                     mb\<lparr>mNumItems := Suc (mNumItems mb), mItems := (mItems mb)[mNumItems mb := (mItems mb ! mNumItems mb)\<lparr>mName := n\<rparr>]\<rparr>)
                   else None))"

definition findItem :: "('s, 'p) interning \<Rightarrow> 's \<Rightarrow> 'p meta_buffer \<Rightarrow> string \<Rightarrow> mb_type \<Rightarrow> (mb_value option \<times> 's) option" where
  "findItem atom s mb name ty =
     (case atom s name of
        None \<Rightarrow> None
      | Some (n, s') \<Rightarrow>
          (let i = item_index n (take (mNumItems mb) (mItems mb))
           in if i < mNumItems mb
              then (let v = mValue (mItems mb ! i) in Some (if mType v = ty then Some v else None, s'))
              else Some (None, s')))"

text \<open>The macro \<open>BASIC_TYPE\<close> and its six instances.\<close>

definition basic_set :: "('s, 'p) interning \<Rightarrow> mb_value \<Rightarrow> 's \<Rightarrow> 'p meta_buffer \<Rightarrow> string \<Rightarrow> ('s \<times> 'p meta_buffer) option" where
  "basic_set atom v s mb name =
     (case allocateItem atom s mb name of
        None \<Rightarrow> None
      | Some (i, s', mb') \<Rightarrow> Some (s', mb'\<lparr>mItems := (mItems mb')[i := (mItems mb' ! i)\<lparr>mValue := v\<rparr>]\<rparr>))"

definition mb_setInt32 :: "('s, 'p) interning \<Rightarrow> 's \<Rightarrow> 'p meta_buffer \<Rightarrow> string \<Rightarrow> int \<Rightarrow> ('s \<times> 'p meta_buffer) option" where
  "mb_setInt32 atom s mb name v = basic_set atom (Int32Value v) s mb name"
definition mb_setInt64 :: "('s, 'p) interning \<Rightarrow> 's \<Rightarrow> 'p meta_buffer \<Rightarrow> string \<Rightarrow> int \<Rightarrow> ('s \<times> 'p meta_buffer) option" where
  "mb_setInt64 atom s mb name v = basic_set atom (Int64Value v) s mb name"
definition mb_setSize :: "('s, 'p) interning \<Rightarrow> 's \<Rightarrow> 'p meta_buffer \<Rightarrow> string \<Rightarrow> nat \<Rightarrow> ('s \<times> 'p meta_buffer) option" where
  "mb_setSize atom s mb name v = basic_set atom (SizeValue v) s mb name"
definition mb_setFloat :: "('s, 'p) interning \<Rightarrow> 's \<Rightarrow> 'p meta_buffer \<Rightarrow> string \<Rightarrow> u32 \<Rightarrow> ('s \<times> 'p meta_buffer) option" where
  "mb_setFloat atom s mb name v = basic_set atom (FloatValue v) s mb name"
definition mb_setDouble :: "('s, 'p) interning \<Rightarrow> 's \<Rightarrow> 'p meta_buffer \<Rightarrow> string \<Rightarrow> u64 \<Rightarrow> ('s \<times> 'p meta_buffer) option" where
  "mb_setDouble atom s mb name v = basic_set atom (DoubleValue v) s mb name"
definition mb_setPointer :: "('s, 'p) interning \<Rightarrow> 's \<Rightarrow> 'p meta_buffer \<Rightarrow> string \<Rightarrow> nat \<Rightarrow> ('s \<times> 'p meta_buffer) option" where
  "mb_setPointer atom s mb name v = basic_set atom (PtrValue v) s mb name"

definition basic_find :: "('s, 'p) interning \<Rightarrow> mb_type \<Rightarrow> (mb_value \<Rightarrow> 'v) \<Rightarrow> 's \<Rightarrow> 'p meta_buffer \<Rightarrow> string \<Rightarrow> ('v option \<times> 's) option" where
  \<comment> \<open>\<open>field\<close> reads the member of the union; the answer \<open>None\<close> is \<open>false\<close>, which leaves \<open>*value\<close> alone\<close>
  "basic_find atom ty field s mb name = map_option (\<lambda>(v, s'). (map_option field v, s')) (findItem atom s mb name ty)"

definition mb_findInt32 :: "('s, 'p) interning \<Rightarrow> 's \<Rightarrow> 'p meta_buffer \<Rightarrow> string \<Rightarrow> (int option \<times> 's) option" where
  "mb_findInt32 atom = basic_find atom kTypeInt32 (\<lambda>u. case u of Int32Value v \<Rightarrow> v | _ \<Rightarrow> 0)"
definition mb_findInt64 :: "('s, 'p) interning \<Rightarrow> 's \<Rightarrow> 'p meta_buffer \<Rightarrow> string \<Rightarrow> (int option \<times> 's) option" where
  "mb_findInt64 atom = basic_find atom kTypeInt64 (\<lambda>u. case u of Int64Value v \<Rightarrow> v | _ \<Rightarrow> 0)"
definition mb_findSize :: "('s, 'p) interning \<Rightarrow> 's \<Rightarrow> 'p meta_buffer \<Rightarrow> string \<Rightarrow> (nat option \<times> 's) option" where
  "mb_findSize atom = basic_find atom kTypeSize (\<lambda>u. case u of SizeValue v \<Rightarrow> v | _ \<Rightarrow> 0)"
definition mb_findFloat :: "('s, 'p) interning \<Rightarrow> 's \<Rightarrow> 'p meta_buffer \<Rightarrow> string \<Rightarrow> (u32 option \<times> 's) option" where
  "mb_findFloat atom = basic_find atom kTypeFloat (\<lambda>u. case u of FloatValue v \<Rightarrow> v | _ \<Rightarrow> 0)"
definition mb_findDouble :: "('s, 'p) interning \<Rightarrow> 's \<Rightarrow> 'p meta_buffer \<Rightarrow> string \<Rightarrow> (u64 option \<times> 's) option" where
  "mb_findDouble atom = basic_find atom kTypeDouble (\<lambda>u. case u of DoubleValue v \<Rightarrow> v | _ \<Rightarrow> 0)"
definition mb_findPointer :: "('s, 'p) interning \<Rightarrow> 's \<Rightarrow> 'p meta_buffer \<Rightarrow> string \<Rightarrow> (nat option \<times> 's) option" where
  "mb_findPointer atom = basic_find atom kTypePointer (\<lambda>u. case u of PtrValue v \<Rightarrow> v | _ \<Rightarrow> 0)"

section \<open>The items are a map from names to values\<close>

text \<open>\<open>m\<close> are the pointers of the names, \<open>f\<close> the values of the names.\<close>

definition mb_rep :: "(string \<rightharpoonup> 'p) \<Rightarrow> 'p meta_buffer \<Rightarrow> (string \<rightharpoonup> mb_value) \<Rightarrow> bool" where
  "mb_rep m mb f \<longleftrightarrow> length (mItems mb) = kMaxNumItems \<and> mNumItems mb \<le> kMaxNumItems \<and>
     (\<forall>i < mNumItems mb. \<exists>n p. m n = Some p \<and> mName (mItems mb ! i) = Some p) \<and>
     (\<forall>i < mNumItems mb. \<forall>j < mNumItems mb. mName (mItems mb ! i) = mName (mItems mb ! j) \<longrightarrow> i = j) \<and>
     (\<forall>n v. f n = Some v \<longleftrightarrow> (\<exists>i < mNumItems mb. \<exists>p. m n = Some p \<and> mName (mItems mb ! i) = Some p \<and> mValue (mItems mb ! i) = v))"

lemma item_index_le: "item_index n its \<le> length its"
  by (induction its) auto

lemma item_index_found: "item_index n its < length its \<Longrightarrow> mName (its ! item_index n its) = n"
  by (induction its) auto

lemma item_index_first: "i < length its \<Longrightarrow> mName (its ! i) = n \<Longrightarrow> item_index n its < length its"
proof (induction its arbitrary: i)
  case (Cons it its)
  then show ?case by (cases i) auto
qed simp

lemma used_index:
  fixes n :: "'p option" and mb :: "'p meta_buffer"
  assumes "mNumItems mb \<le> length (mItems mb)"
  defines "i \<equiv> item_index n (take (mNumItems mb) (mItems mb))"
  shows "i < mNumItems mb \<Longrightarrow> mName (mItems mb ! i) = n"
    and "\<not> i < mNumItems mb \<Longrightarrow> j < mNumItems mb \<Longrightarrow> mName (mItems mb ! j) \<noteq> n"
  using assms item_index_found [of n "take (mNumItems mb) (mItems mb)"]
    item_index_first [of j "take (mNumItems mb) (mItems mb)" n] by auto

lemma mb_rep_mono:
  assumes "m \<subseteq>\<^sub>m m'" "inj_on m' (dom m')" "mb_rep m mb f"
  shows "mb_rep m' mb f"
proof -
  have le: "m' n = Some p" if "m n = Some p" for n p using that assms(1) by (metis domI map_le_def)
  have inj: "a = b" if "m' a = Some p" "m' b = Some p" for a b p using that assms(2) by (metis domI inj_onD)
  have "m n = Some p" if h: "m' n = Some p" "i < mNumItems mb" "mName (mItems mb ! i) = Some p" for n p i
  proof -
    obtain k q where "m k = Some q" "mName (mItems mb ! i) = Some q" using assms(3) h(2) by (auto simp: mb_rep_def)
    then show ?thesis using h le inj by (metis option.inject)
  qed
  then have eq: "(\<exists>i < mNumItems mb. \<exists>p. m n = Some p \<and> mName (mItems mb ! i) = Some p \<and> mValue (mItems mb ! i) = v) \<longleftrightarrow>
    (\<exists>i < mNumItems mb. \<exists>p. m' n = Some p \<and> mName (mItems mb ! i) = Some p \<and> mValue (mItems mb ! i) = v)" for n v
    using le by blast
  have "\<forall>i < mNumItems mb. \<exists>n p. m' n = Some p \<and> mName (mItems mb ! i) = Some p"
    using assms(3) le unfolding mb_rep_def by blast
  moreover have "\<forall>n v. f n = Some v \<longleftrightarrow>
    (\<exists>i < mNumItems mb. \<exists>p. m' n = Some p \<and> mName (mItems mb ! i) = Some p \<and> mValue (mItems mb ! i) = v)"
    using assms(3) unfolding mb_rep_def eq by blast
  ultimately show ?thesis using assms(3) unfolding mb_rep_def by blast
qed

lemma mb_rep_find:
  assumes "mb_rep m mb f" "m n = Some p"
  defines "i \<equiv> item_index (Some p) (take (mNumItems mb) (mItems mb))"
  shows "f n = (if i < mNumItems mb then Some (mValue (mItems mb ! i)) else None)"
proof -
  have le: "mNumItems mb \<le> length (mItems mb)" using assms(1) by (simp add: mb_rep_def)
  show ?thesis
  proof (cases "i < mNumItems mb")
    case True
    then have "mName (mItems mb ! i) = Some p" using used_index(1) [OF le] by (simp add: i_def)
    then show ?thesis using True assms(1,2) unfolding mb_rep_def by auto
  next
    case False
    then have "\<forall>j < mNumItems mb. mName (mItems mb ! j) \<noteq> Some p" using used_index(2) [OF le] by (simp add: i_def)
    then have "f n \<noteq> Some v" for v using assms(1,2) unfolding mb_rep_def by auto
    then show ?thesis using False by (cases "f n") auto
  qed
qed

lemma mb_rep_change:
  assumes "mb_rep m mb f" "m n = Some p" "i < mNumItems mb" "mName (mItems mb ! i) = Some p" "inj_on m (dom m)"
  shows "mb_rep m (mb\<lparr>mItems := (mItems mb)[i := (mItems mb ! i)\<lparr>mValue := v\<rparr>]\<rparr>) (f(n \<mapsto> v))"
proof -
  let ?its = "(mItems mb)[i := (mItems mb ! i)\<lparr>mValue := v\<rparr>]"
  have len: "length (mItems mb) = kMaxNumItems" "mNumItems mb \<le> kMaxNumItems" using assms(1) by (simp_all add: mb_rep_def)
  have names: "mName (?its ! j) = mName (mItems mb ! j)" if "j < mNumItems mb" for j
    using that len by (cases "j = i") auto
  have vals: "mValue (?its ! j) = (if j = i then v else mValue (mItems mb ! j))" if "j < mNumItems mb" for j
    using that len by auto
  have "(f(n \<mapsto> v)) k = Some w \<longleftrightarrow>
    (\<exists>j < mNumItems mb. \<exists>q. m k = Some q \<and> mName (?its ! j) = Some q \<and> mValue (?its ! j) = w)" for k w
  proof (cases "k = n")
    case True
    have "j = i" if "j < mNumItems mb" "mName (mItems mb ! j) = Some p" for j
      using that assms(1,3,4) unfolding mb_rep_def by metis
    then have "(\<exists>j < mNumItems mb. \<exists>q. m n = Some q \<and> mName (?its ! j) = Some q \<and> mValue (?its ! j) = w) \<longleftrightarrow> v = w"
      using assms(2,3,4) names vals by (metis option.inject)
    then show ?thesis using True by simp
  next
    case False
    have "j \<noteq> i" if "m k = Some q" "mName (mItems mb ! j) = Some q" for j q
      using that False assms(2,4,5) by (metis domI inj_onD option.inject)
    then have "(\<exists>j < mNumItems mb. \<exists>q. m k = Some q \<and> mName (?its ! j) = Some q \<and> mValue (?its ! j) = w) \<longleftrightarrow>
      (\<exists>j < mNumItems mb. \<exists>q. m k = Some q \<and> mName (mItems mb ! j) = Some q \<and> mValue (mItems mb ! j) = w)"
      using names vals by metis
    then show ?thesis using False assms(1) by (simp add: mb_rep_def)
  qed
  then show ?thesis using assms(1) names len unfolding mb_rep_def by auto
qed

lemma item_overwrite [simp]: "it\<lparr>mName := x, mValue := v\<rparr> = \<lparr>mName = x, mValue = v\<rparr>"
  by (cases it) simp

lemma mb_rep_extend:
  assumes "mb_rep m mb f" "m n = Some p" "f n = None" "mNumItems mb < kMaxNumItems" "inj_on m (dom m)"
  defines "k \<equiv> mNumItems mb"
  shows "mb_rep m (mb\<lparr>mNumItems := Suc k, mItems := (mItems mb)[k := \<lparr>mName = Some p, mValue = v\<rparr>]\<rparr>) (f(n \<mapsto> v))"
proof -
  let ?its = "(mItems mb)[k := \<lparr>mName = Some p, mValue = v\<rparr>]"
  have len: "length (mItems mb) = kMaxNumItems" "k < kMaxNumItems" using assms(1,4) by (simp_all add: mb_rep_def k_def)
  have old: "?its ! j = mItems mb ! j" if "j < k" for j using that by simp
  have new: "?its ! k = \<lparr>mName = Some p, mValue = v\<rparr>" using len by simp
  have fresh: "mName (mItems mb ! j) \<noteq> Some p" if "j < k" for j
  proof
    assume "mName (mItems mb ! j) = Some p"
    then have "f n = Some (mValue (mItems mb ! j))" using assms(1,2) that unfolding mb_rep_def k_def by blast
    then show False using assms(3) by simp
  qed
  have inj: "a = b" if "m a = Some q" "m b = Some q" for a b q using that assms(5) by (metis domI inj_onD)
  have "(f(n \<mapsto> v)) x = Some w \<longleftrightarrow>
    (\<exists>j < Suc k. \<exists>q. m x = Some q \<and> mName (?its ! j) = Some q \<and> mValue (?its ! j) = w)" for x w
  proof -
    have split: "(\<exists>j < Suc k. P j) \<longleftrightarrow> P k \<or> (\<exists>j < k. P j)" for P by (auto simp: less_Suc_eq)
    show ?thesis
    proof (cases "x = n")
      case True
      then show ?thesis unfolding split new using assms(2) old fresh by auto
    next
      case False
      then have "m x \<noteq> Some p" using inj assms(2) by blast
      moreover have "f x = Some w \<longleftrightarrow> (\<exists>j < k. \<exists>q. m x = Some q \<and> mName (mItems mb ! j) = Some q \<and> mValue (mItems mb ! j) = w)"
        using assms(1) unfolding mb_rep_def k_def by blast
      ultimately show ?thesis unfolding split new using False old by auto
    qed
  qed
  moreover have "\<forall>i < Suc k. \<exists>n p. m n = Some p \<and> mName (?its ! i) = Some p"
    using assms(1,2) old new unfolding mb_rep_def k_def by (auto simp: less_Suc_eq)
  moreover have "\<forall>i < Suc k. \<forall>j < Suc k. mName (?its ! i) = mName (?its ! j) \<longrightarrow> i = j"
    using assms(1) old new fresh unfolding mb_rep_def k_def by (auto simp: less_Suc_eq)
  ultimately show ?thesis using len unfolding mb_rep_def by auto
qed

text \<open>The part of a buffer that setting a value does not touch.\<close>

definition mb_frame :: "'p meta_buffer \<Rightarrow> 'p meta_buffer \<Rightarrow> bool" where
  "mb_frame mb mb' \<longleftrightarrow> mMem mb' = mMem mb \<and> mCapacity mb' = mCapacity mb \<and> mRangeOffset mb' = mRangeOffset mb \<and>
     mRangeLength mb' = mRangeLength mb \<and> mQuickData mb' = mQuickData mb"

text \<open>The laws of the buffer for every interner.\<close>

context interner
begin

lemma rep_inj_on: "rep s m \<Longrightarrow> inj_on m (dom m)"
  using rep_inj by (fastforce simp: inj_on_def dom_def)

lemma set_named:
  assumes "rep s' m" "m n = Some p" "mb_rep m mb f" "atom s n = Some (Some p, s')" "f n \<noteq> None \<or> mNumItems mb < kMaxNumItems"
  shows "\<exists>mb'. basic_set atom v s mb n = Some (s', mb') \<and> mb_rep m mb' (f(n \<mapsto> v)) \<and> mb_frame mb mb' \<and>
    mNumItems mb' \<le> Suc (mNumItems mb)"
proof -
  note inj = rep_inj_on [OF assms(1)]
  have le: "mNumItems mb \<le> length (mItems mb)" using assms(3) by (simp add: mb_rep_def)
  define i where "i = item_index (Some p) (take (mNumItems mb) (mItems mb))"
  have f: "f n = (if i < mNumItems mb then Some (mValue (mItems mb ! i)) else None)"
    using mb_rep_find [OF assms(3,2)] by (simp add: i_def)
  show ?thesis
  proof (cases "i < mNumItems mb")
    case True
    have "mName (mItems mb ! i) = Some p" using used_index(1) [OF le] True by (simp add: i_def)
    then show ?thesis using mb_rep_change [OF assms(3,2) True _ inj, of v] True assms(4)
      by (auto simp: basic_set_def allocateItem_def Let_def i_def [symmetric] mb_frame_def)
  next
    case False
    then have n: "f n = None" "mNumItems mb < kMaxNumItems" using f assms(5) by auto
    have "mNumItems mb < length (mItems mb)" using assms(3) n(2) by (simp add: mb_rep_def)
    then have "basic_set atom v s mb n = Some (s', mb\<lparr>mNumItems := Suc (mNumItems mb),
      mItems := (mItems mb)[mNumItems mb := \<lparr>mName = Some p, mValue = v\<rparr>]\<rparr>)"
      using False n(2) assms(4) by (simp add: basic_set_def allocateItem_def Let_def i_def [symmetric])
    then show ?thesis using mb_rep_extend [OF assms(3,2) n inj, of v] by (auto simp: mb_frame_def)
  qed
qed

lemma set_item:
  assumes "rep s m" "ok n" "mb_rep m mb f" "atom s n = Some (Some p, s')" "f n \<noteq> None \<or> mNumItems mb < kMaxNumItems"
  shows "\<exists>m' mb'. basic_set atom v s mb n = Some (s', mb') \<and> rep s' m' \<and> m \<subseteq>\<^sub>m m' \<and> m' n = Some p \<and>
    mb_rep m' mb' (f(n \<mapsto> v)) \<and> mb_frame mb mb' \<and> mNumItems mb' \<le> Suc (mNumItems mb)"
proof -
  obtain m' where m': "rep s' m'" "m \<subseteq>\<^sub>m m'" "m' n = Some p" using atom_rep [OF assms(1,2,4)] by blast
  note r = mb_rep_mono [OF m'(2) rep_inj_on [OF m'(1)] assms(3)]
  show ?thesis using set_named [OF m'(1,3) r assms(4,5), of v] m' by blast
qed

lemma set_known:
  assumes "rep s m" "m n = Some p" "mb_rep m mb f" "mNumItems mb < kMaxNumItems"
  shows "\<exists>mb'. basic_set atom v s mb n = Some (s, mb') \<and> mb_rep m mb' (f(n \<mapsto> v)) \<and> mb_frame mb mb' \<and>
    mNumItems mb' \<le> Suc (mNumItems mb)"
  using set_named [OF assms(1,2,3) atom_known [OF assms(1,2)]] assms(4) by blast

lemma find_known:
  assumes "rep s m" "m n = Some p" "mb_rep m mb f"
  shows "findItem atom s mb n ty = Some (case f n of None \<Rightarrow> None | Some v \<Rightarrow> if mType v = ty then Some v else None, s)"
  using mb_rep_find [OF assms(3,2)] atom_known [OF assms(1,2)] by (auto simp: findItem_def Let_def)

lemma set_item_full:
  assumes "rep s m" "ok n" "mb_rep m mb f" "atom s n = Some (Some p, s')" "f n = None" "mNumItems mb = kMaxNumItems"
  shows "basic_set atom v s mb n = None"
proof -
  obtain m' where m': "rep s' m'" "m \<subseteq>\<^sub>m m'" "m' n = Some p" using atom_rep [OF assms(1,2,4)] by blast
  have r: "mb_rep m' mb f" using mb_rep_mono [OF m'(2) rep_inj_on [OF m'(1)] assms(3)] .
  then show ?thesis using mb_rep_find [OF r m'(3)] assms(4,5,6)
    by (auto simp: basic_set_def allocateItem_def Let_def split: if_splits)
qed

lemma find_item:
  assumes "rep s m" "ok n" "mb_rep m mb f" "atom s n = Some (Some p, s')"
  shows "findItem atom s mb n ty = Some (case f n of None \<Rightarrow> None | Some v \<Rightarrow> if mType v = ty then Some v else None, s')"
proof -
  obtain m' where m': "rep s' m'" "m \<subseteq>\<^sub>m m'" "m' n = Some p" using atom_rep [OF assms(1,2,4)] by blast
  have r: "mb_rep m' mb f" using mb_rep_mono [OF m'(2) rep_inj_on [OF m'(1)] assms(3)] .
  then show ?thesis using mb_rep_find [OF r m'(3)] assms(4) by (auto simp: findItem_def Let_def)
qed

end

section \<open>Properties\<close>

text \<open>
  The states of a buffer and the pool, with the values its names have: the buffer is created, its values
  are set, searched and cleared, and other users of the pool intern names, as long as the pool has room
  for the names.
\<close>

inductive mb_reach :: "token_pool \<Rightarrow> nat meta_buffer \<Rightarrow> (string \<rightharpoonup> mb_value) \<Rightarrow> bool" where
  mb_start: "tp_reach tp m \<Longrightarrow> length junk = kMaxNumItems \<Longrightarrow> MetaBuffer_create malloc junk len data ff = Some mb \<Longrightarrow> mb_reach tp mb Map.empty"
| mb_set: "mb_reach tp mb f \<Longrightarrow> name_ok n \<Longrightarrow> atomize tp n = Some (Some p, tp') \<Longrightarrow> basic_set atomize v tp mb n = Some (tp', mb') \<Longrightarrow>
    mb_reach tp' mb' (f(n \<mapsto> v))"
| mb_intern: "mb_reach tp mb f \<Longrightarrow> name_ok n \<Longrightarrow> atomize tp n = Some (Some p, tp') \<Longrightarrow> mb_reach tp' mb f"
| mb_data: "mb_reach tp mb f \<Longrightarrow> mItems mb' = mItems mb \<Longrightarrow> mNumItems mb' = mNumItems mb \<Longrightarrow> mb_reach tp mb' f"
| mb_cleared: "mb_reach tp mb f \<Longrightarrow> mb_reach tp (mb_clear mb) Map.empty"

lemma mb_rep_empty: "length (mItems mb) = kMaxNumItems \<Longrightarrow> mNumItems mb = 0 \<Longrightarrow> mb_rep m mb Map.empty"
  by (simp add: mb_rep_def)

lemma mb_reach_rep:
  assumes "mb_reach tp mb f"
  shows "\<exists>m. pool_rep tp m \<and> mb_rep m mb f"
  using assms
proof induction
  case (mb_start tp m junk malloc len data ff mb)
  then have "mItems mb = junk" "mNumItems mb = 0"
    by (auto simp: MetaBuffer_create_def MetaBuffer_own_def MetaBuffer_wrap_def split: option.splits)
  then show ?case using mb_start tp_reach_rep mb_rep_empty by metis
next
  case (mb_set tp mb f n p tp' v mb')
  then obtain m where m: "pool_rep tp m" "mb_rep m mb f" by blast
  have "f n \<noteq> None \<or> mNumItems mb < kMaxNumItems"
    using tok.set_item_full [OF m(1) mb_set.hyps(2) m(2) mb_set.hyps(3)] mb_set.hyps(4) m(2) by (force simp: mb_rep_def)
  from tok.set_item [OF m(1) mb_set.hyps(2) m(2) mb_set.hyps(3) this, of v] show ?case
    using mb_set.hyps(4) by (metis option.inject prod.inject)
next
  case (mb_intern tp mb f n p tp')
  then obtain m where m: "pool_rep tp m" "mb_rep m mb f" by blast
  then show ?case using tok.atom_rep [OF m(1) mb_intern.hyps(2,3)] mb_rep_mono tok.rep_inj_on by metis
next
  case (mb_data tp mb f mb')
  then show ?case by (auto simp: mb_rep_def)
next
  case (mb_cleared tp mb f)
  then show ?case using mb_rep_empty [of "mb_clear mb"] by (auto simp: mb_clear_def mb_rep_def)
qed

text \<open>
  C27.  A buffer is a map from names to values.  In every reachable state, for a name that the pool knows
  or has room for: setting a value makes exactly this entry of the map, as long as the name is known to
  the buffer or one of the twelve items is free, and leaves data, range and quick data alone; otherwise
  the check fails.  A search returns the value of the name when it has the type asked for.
\<close>

theorem meta_buffer_refines_map:
  assumes "mb_reach tp mb f" "name_ok n" "atomize tp n = Some (Some p, tp')"
  shows "(if f n \<noteq> None \<or> mNumItems mb < kMaxNumItems
      then \<exists>mb'. basic_set atomize v tp mb n = Some (tp', mb') \<and> mb_reach tp' mb' (f(n \<mapsto> v)) \<and> mb_frame mb mb'
      else basic_set atomize v tp mb n = None) \<and>
    findItem atomize tp mb n ty = Some (case f n of None \<Rightarrow> None | Some w \<Rightarrow> if mType w = ty then Some w else None, tp')"
proof -
  obtain m where m: "pool_rep tp m" "mb_rep m mb f" using mb_reach_rep [OF assms(1)] by blast
  note laws = tok.set_item [OF m(1) assms(2) m(2) assms(3), of v] tok.set_item_full [OF m(1) assms(2) m(2) assms(3), of v]
  have full: "mNumItems mb = kMaxNumItems" if "\<not> mNumItems mb < kMaxNumItems" using that m(2) by (simp add: mb_rep_def)
  have "\<exists>mb'. basic_set atomize v tp mb n = Some (tp', mb') \<and> mb_reach tp' mb' (f(n \<mapsto> v)) \<and> mb_frame mb mb'"
    if "f n \<noteq> None \<or> mNumItems mb < kMaxNumItems"
    using laws(1) [OF that] mb_set [OF assms] by blast
  moreover have "basic_set atomize v tp mb n = None" if "\<not> (f n \<noteq> None \<or> mNumItems mb < kMaxNumItems)"
    using laws(2) full that by blast
  ultimately show ?thesis using tok.find_item [OF m(1) assms(2) m(2) assms(3)] by simp
qed

definition demo_junk :: "nat mb_item list" where
  "demo_junk = replicate 12 \<lparr>mName = None, mValue = PtrValue 0\<rparr>"

definition demo_buffer :: "nat meta_buffer" where
  "demo_buffer = MetaBuffer_wrap [0x80, 0, 0, 1] demo_junk 4 None"

lemma demo_reach: "mb_reach (TokenPool_init (\<lambda>_. CHR 0x00)) demo_buffer Map.empty"
  by (rule mb_start [OF tp_reach_init, of demo_junk "\<lambda>_. None" 4 "Some [0x80, 0, 0, 1]" None])
    (simp_all add: demo_junk_def kMaxNumItems_def MetaBuffer_create_def demo_buffer_def)

theorem meta_buffer_refines_map_witness:
  "\<exists>tp mb. mb_setInt32 atomize (TokenPool_init (\<lambda>_. CHR 0x00)) demo_buffer ''fd'' 5 = Some (tp, mb) \<and> mMem mb = [0x80, 0, 0, 1]"
proof -
  have ok: "name_ok ''fd''" by (simp add: name_ok_def)
  have "\<exists>tp. atomize (TokenPool_init (\<lambda>_. CHR 0x00)) ''fd'' = Some (Some 0, tp)"
    by (simp add: atomize_def TokenPool_init_def CONST_TOKENPOOL_ROWS_def CONST_TOKENPOOL_SIZE_def alloc_nolock_def Let_def)
  then obtain tp where a: "atomize (TokenPool_init (\<lambda>_. CHR 0x00)) ''fd'' = Some (Some 0, tp)" by blast
  show ?thesis using meta_buffer_refines_map [OF demo_reach ok a, of "Int32Value 5" kTypeInt32]
    by (auto simp: mb_setInt32_def mb_frame_def demo_buffer_def MetaBuffer_wrap_def kMaxNumItems_def)
qed

text \<open>
  When the pool is exhausted every new name is the null pointer, so a buffer cannot tell them apart:
  a value set under one such name is found under any other (whose search does not meet the null entry
  the first one left in its row).
\<close>

theorem meta_names_collapse:
  assumes "pool_rep tp m" "mb_rep m mb f" "mNumItems mb < kMaxNumItems"
    and "name_ok a" "m a = None" "\<not> bufferPtr tp + (1 + length a) < CONST_TOKENPOOL_SIZE"
    and "name_ok b" "m b = None" "\<not> bufferPtr tp + (1 + length b) < CONST_TOKENPOOL_SIZE" "row_of b \<noteq> row_of a"
  shows "\<exists>tp1 mb1 tp2. mb_setInt32 atomize tp mb a v = Some (tp1, mb1) \<and> mb_findInt32 atomize tp1 mb1 b = Some (Some v, tp2)"
proof -
  obtain L where L: "pool_list tp L" "m = map_of L" using assms(1) by (auto simp: pool_rep_def)
  define tp1 where "tp1 = tp\<lparr>mRows := (mRows tp)[row_of a := mRows tp ! row_of a @ [None]]\<rparr>"
  have a: "atomize tp a = Some (None, tp1)" using atomize_full [OF L(1) assms(4)] assms(5,6) L(2) by (simp add: tp1_def)
  have rows: "length (mRows tp) = CONST_TOKENPOOL_ROWS" using L(1) by (simp add: pool_list_def)
  have "atomize tp b = Some (None, tp\<lparr>mRows := (mRows tp)[row_of b := mRows tp ! row_of b @ [None]]\<rparr>)"
    using atomize_full [OF L(1) assms(7)] assms(8,9) L(2) by simp
  then have "find_token (tokenBuffer tp) b (mRows tp ! row_of b) = Some None"
    using rows assms(9) by (auto simp: atomize_def alloc_nolock_def Let_def split: option.splits if_splits)
  then obtain tp2 where b: "atomize tp1 b = Some (None, tp2)"
    using rows assms(9,10) by (auto simp: atomize_def alloc_nolock_def Let_def tp1_def)
  have le: "mNumItems mb < length (mItems mb)" using assms(2,3) by (simp add: mb_rep_def)
  let ?its = "(mItems mb)[mNumItems mb := \<lparr>mName = None, mValue = Int32Value v\<rparr>]"
  have none: "mName (mItems mb ! j) \<noteq> None" if "j < mNumItems mb" for j using that assms(2) by (auto simp: mb_rep_def)
  have "item_index None (take (mNumItems mb) (mItems mb)) = mNumItems mb"
  proof (rule ccontr)
    assume "\<not> ?thesis"
    then have "item_index None (take (mNumItems mb) (mItems mb)) < mNumItems mb"
      using item_index_le [of None "take (mNumItems mb) (mItems mb)"] le by simp
    then show False using used_index(1) [of mb None] none le by auto
  qed
  then have set: "mb_setInt32 atomize tp mb a v = Some (tp1, mb\<lparr>mNumItems := Suc (mNumItems mb), mItems := ?its\<rparr>)"
    using le assms(3) a by (simp add: mb_setInt32_def basic_set_def allocateItem_def Let_def)
  let ?mb = "mb\<lparr>mNumItems := Suc (mNumItems mb), mItems := ?its\<rparr>"
  define i where "i = item_index None (take (mNumItems ?mb) (mItems ?mb))"
  have "i < mNumItems ?mb"
    using item_index_first [of "mNumItems mb" "take (mNumItems ?mb) (mItems ?mb)" None] le by (simp add: i_def)
  moreover have "mName (?its ! i) = None" using used_index(1) [of ?mb None] le \<open>i < mNumItems ?mb\<close> by (simp add: i_def)
  ultimately have "i = mNumItems mb" using none by (cases "i < mNumItems mb") auto
  then have "mb_findInt32 atomize tp1 ?mb b = Some (Some v, tp2)"
    using b le i_def by (simp add: mb_findInt32_def basic_find_def findItem_def Let_def)
  then show ?thesis using set by blast
qed

theorem meta_names_collapse_witness:
  "\<exists>tp1 mb1 tp2. mb_setInt32 atomize ((TokenPool_init (\<lambda>_. CHR 0x00))\<lparr>bufferPtr := 65535\<rparr>) demo_buffer ''fd'' 5 = Some (tp1, mb1) \<and>
     mb_findInt32 atomize tp1 mb1 ''video'' = Some (Some 5, tp2)"
proof -
  let ?tp = "(TokenPool_init (\<lambda>_. CHR 0x00))\<lparr>bufferPtr := 65535\<rparr>"
  have "pool_list ?tp []" by (simp add: pool_list_def TokenPool_init_def CONST_TOKENPOOL_SIZE_def)
  then have p: "pool_rep ?tp Map.empty" unfolding pool_rep_def by (intro exI [of _ "[]"]) simp
  have r: "mb_rep Map.empty demo_buffer Map.empty"
    by (rule mb_rep_empty) (simp_all add: demo_buffer_def MetaBuffer_wrap_def demo_junk_def kMaxNumItems_def)
  have "row_of ''video'' \<noteq> row_of ''fd''" by (simp add: Hash_def Let_def CONST_TOKENPOOL_ROWS_def)
  then show ?thesis
    by (intro meta_names_collapse [OF p r])
      (simp_all add: name_ok_def CONST_TOKENPOOL_SIZE_def TokenPool_init_def demo_buffer_def MetaBuffer_wrap_def kMaxNumItems_def)
qed

end
