(* ===== verification/Udp_Transport.thy ===== *)
theory Udp_Transport
  imports Meta_Buffer Status_Codes "HOL-Library.Monad_Syntax"
begin

text \<open>
  \<open>libnet/Transport.cpp\<close>: the transport of the event loop and the UDP transport with its STUN client.
  The system calls and the poller are parameters: an operation takes the results of the calls it makes.
  Addresses and the numbers in packets are kept as the values \<open>ntohs\<close> and \<open>ntohl\<close> give; the buffers are
  the memory of \<open>Meta_Buffer\<close>, and an access outside of it is \<open>None\<close>.  \<open>BREAK_IF(c)\<close> leaves the
  enclosing loop when \<open>c\<close> holds, \<open>DOING_IF(c)\<close> when it does not; logging is left out.
\<close>

section \<open>Model\<close>

type_synonym u16 = "16 word"

record sockaddr_in =
  sin_family :: nat
  sin_port :: u16
  s_addr :: u32

definition AF_INET :: nat where "AF_INET = 2"
definition addr_zero :: sockaddr_in where "addr_zero = \<lparr>sin_family = 0, sin_port = 0, s_addr = 0\<rparr>"

record udp_transport =
  mSocket :: int
  sock :: int \<comment> \<open>\<open>ITransport::sock\<close>\<close>
  mCallback :: "nat option"
  mPeerAddr :: sockaddr_in
  mBindAddr :: sockaddr_in
  mReflAddr :: sockaddr_in
  mStunRequested :: bool
  mStunResponsed :: bool
  transId :: "u32 list"
  closed :: "int list" \<comment> \<open>the descriptors closed so far\<close>

definition Transport_new :: "udp_transport \<Rightarrow> udp_transport" where
  \<comment> \<open>the constructors, in memory that holds \<open>junk\<close>\<close>
  "Transport_new junk = junk\<lparr>mSocket := - 1, mCallback := None, sock := - 1\<rparr>"

definition Transport_doClose :: "int option \<Rightarrow> int" where
  \<comment> \<open>the answer of \<open>CloseTransport\<close>, if there is a poller\<close>
  "Transport_doClose poller = (case poller of None \<Rightarrow> NO_INIT | Some r \<Rightarrow> r)"

definition Transport_handleRead :: "udp_transport \<Rightarrow> nat option" where
  \<comment> \<open>the handler whose \<open>handleRead\<close> is called\<close>
  "Transport_handleRead t = mCallback t"

definition Transport_handleClose :: "udp_transport \<Rightarrow> nat option" where
  "Transport_handleClose t = mCallback t"

definition Transport_init :: "int option \<Rightarrow> udp_transport \<Rightarrow> int \<times> udp_transport" where
  \<comment> \<open>\<open>poller\<close> is the answer of \<open>AddTransport\<close>, if there is a poller\<close>
  "Transport_init poller t =
     (if mSocket t = - 1 then (NO_INIT, t)
      else (case poller of None \<Rightarrow> NO_INIT | Some r \<Rightarrow> r, t\<lparr>sock := mSocket t\<rparr>))"

definition Transport_setHandler :: "nat option \<Rightarrow> udp_transport \<Rightarrow> int \<times> udp_transport" where
  "Transport_setHandler cb t = (NO_ERROR, t\<lparr>mCallback := cb\<rparr>)"

definition Transport_setsockopt :: "int \<Rightarrow> udp_transport \<Rightarrow> int" where
  \<comment> \<open>\<open>setTypeOfService\<close> and \<open>setVLanPriority\<close>\<close>
  "Transport_setsockopt r t = (if mSocket t < 0 then UNKNOWN_ERROR else r)"

definition udp_init :: "int \<Rightarrow> int option \<Rightarrow> udp_transport \<Rightarrow> int \<times> udp_transport" where
  \<comment> \<open>\<open>fd\<close> is what \<open>socket\<close> returns\<close>
  "udp_init fd poller t =
     (let (ret, t1) =
            (if mSocket t > 2 then (NO_ERROR, t)
             else let t1 = t\<lparr>mSocket := fd\<rparr>
                  in if fd < 0 then (UNKNOWN_ERROR, t1)
                     else Transport_init poller (t1\<lparr>mStunRequested := False, mStunResponsed := False\<rparr>))
      in if ret \<noteq> NO_ERROR \<and> mSocket t1 > 2 then (ret, t1\<lparr>closed := closed t1 @ [mSocket t1], mSocket := - 1\<rparr>) else (ret, t1))"

definition udp_bindAddress :: "int \<Rightarrow> sockaddr_in \<Rightarrow> udp_transport \<Rightarrow> int \<times> udp_transport" where
  \<comment> \<open>\<open>r\<close> is what \<open>bind\<close> returns\<close>
  "udp_bindAddress r addr t =
     (if mSocket t < 0 then (UNKNOWN_ERROR, t)
      else if r < 0 then (r, t)
      else (NO_ERROR, t\<lparr>mBindAddr := addr, mStunRequested := False, mStunResponsed := False, mReflAddr := addr_zero\<rparr>))"

definition udp_connectTo :: "int \<Rightarrow> udp_transport \<Rightarrow> int" where
  "udp_connectTo r t = (if mSocket t < 0 then UNKNOWN_ERROR else r)"

definition udp_joinGroup :: "int \<Rightarrow> int \<Rightarrow> int \<Rightarrow> sockaddr_in \<Rightarrow> udp_transport \<Rightarrow> int \<times> udp_transport" where
  \<comment> \<open>the results of \<open>bind\<close>, \<open>ioctl\<close> and \<open>setsockopt\<close>\<close>
  "udp_joinGroup b i r addr t =
     (if mSocket t < 0 then (UNKNOWN_ERROR, t)
      else if b < 0 then (b, t) else if i < 0 then (i, t) else if r < 0 then (r, t)
      else (NO_ERROR, t\<lparr>mBindAddr := addr\<rparr>))"

text \<open>Big-endian numbers, and their values in a buffer.\<close>

definition be16 :: "u8 \<Rightarrow> u8 \<Rightarrow> u16" where
  "be16 a b = push_bit 8 (ucast a) OR ucast b"

definition be32 :: "u8 \<Rightarrow> u8 \<Rightarrow> u8 \<Rightarrow> u8 \<Rightarrow> u32" where
  "be32 a b c d = push_bit 16 (ucast (be16 a b)) OR ucast (be16 c d)"

definition bytes16 :: "u16 \<Rightarrow> u8 list" where
  "bytes16 w = [ucast (drop_bit 8 w), ucast w]"

definition bytes32 :: "u32 \<Rightarrow> u8 list" where
  "bytes32 w = [ucast (drop_bit 24 w), ucast (drop_bit 16 w), ucast (drop_bit 8 w), ucast w]"

definition net16 :: "'p meta_buffer \<Rightarrow> nat \<Rightarrow> u16 option" where
  "net16 mb i = do { a \<leftarrow> mb_get mb i; b \<leftarrow> mb_get mb (i + 1); Some (be16 a b) }"

definition net32 :: "'p meta_buffer \<Rightarrow> nat \<Rightarrow> u32 option" where
  "net32 mb i = do {
     a \<leftarrow> mb_get mb i; b \<leftarrow> mb_get mb (i + 1); c \<leftarrow> mb_get mb (i + 2); d \<leftarrow> mb_get mb (i + 3);
     Some (be32 a b c d) }"

definition stun_request :: "u32 list \<Rightarrow> u8 list" where
  \<comment> \<open>\<open>mStunMessage\<close> as it is sent; the three words of \<open>transId\<close> are random\<close>
  "stun_request ids = bytes16 0x0001 @ bytes16 0 @ bytes32 0x2112A442 @ concat (map bytes32 ids)"

definition sendStunRequest :: "u32 list \<Rightarrow> int \<Rightarrow> udp_transport \<Rightarrow> int \<times> udp_transport" where
  \<comment> \<open>\<open>ids\<close> are the random numbers, \<open>n\<close> is what \<open>sendto\<close> returns; \<open>n < sizeof(_addr)\<close> compares without sign\<close>
  "sendStunRequest ids n t =
     (if mStunRequested t then (NO_ERROR, t)
      else let t1 = t\<lparr>transId := ids\<rparr>
           in if (word_of_int n :: u32) < 16 then (UNKNOWN_ERROR, t1)
              else (NO_ERROR, t1\<lparr>mStunRequested := True, mStunResponsed := False\<rparr>))"

definition dropStunParsing :: "udp_transport \<Rightarrow> int \<times> udp_transport" where
  "dropStunParsing t = (NO_ERROR, t\<lparr>mStunRequested := False, mStunResponsed := False, mReflAddr := addr_zero\<rparr>)"

definition getStunReflect :: "udp_transport \<Rightarrow> sockaddr_in option" where
  \<comment> \<open>\<open>None\<close> is \<open>NO_INIT\<close>\<close>
  "getStunReflect t = (if mStunResponsed t then Some (mReflAddr t) else None)"

definition swap16 :: "'p meta_buffer \<Rightarrow> nat \<Rightarrow> (u16 \<times> 'p meta_buffer) option" where
  \<comment> \<open>\<open>p->len = ntohs(p->len)\<close>: the value, and the buffer with the two bytes exchanged\<close>
  "swap16 mb i = do {
     a \<leftarrow> mb_get mb i; b \<leftarrow> mb_get mb (i + 1);
     mb1 \<leftarrow> mb_put i b mb; mb2 \<leftarrow> mb_put (i + 1) a mb1;
     Some (be16 a b, mb2) }"

lemma swap16_shape:
  assumes "swap16 mb i = Some (w, mb')"
  shows "length (mMem mb') = length (mMem mb) \<and> mRangeOffset mb' = mRangeOffset mb \<and> mRangeOffset mb + i + 1 < length (mMem mb)"
  using assms by (auto simp: swap16_def mb_get_def mb_put_def split: if_splits bind_splits)

function stun_attrs :: "'p meta_buffer \<Rightarrow> nat \<Rightarrow> u16 \<Rightarrow> (nat option \<times> 'p meta_buffer) option" where
  \<comment> \<open>the \<open>while\<close> loop: the offset \<open>pAttrIP\<close>, or none\<close>
  "stun_attrs mb cursor len =
     (if len AND 3 = 0 \<and> len \<ge> 4
      then (case swap16 mb (cursor + 2) of
              None \<Rightarrow> None
            | Some (alen, mb1) \<Rightarrow>
                if alen AND 3 \<noteq> 0 then Some (None, mb1)
                else if alen \<noteq> 8 then Some (None, mb1)
                else (case net16 mb1 cursor of
                        None \<Rightarrow> None
                      | Some attr \<Rightarrow>
                          if attr = 1 then Some (Some (cursor + 4), mb1)
                          else stun_attrs mb1 (cursor + unat alen) (len - alen)))
      else Some (None, mb))"
  by pat_completeness auto
termination
  by (relation "measure (\<lambda>(mb, cursor, len). length (mMem mb) - (mRangeOffset mb + cursor))")
    (auto dest!: swap16_shape)

declare stun_attrs.simps [simp del]

definition parseStunResponse :: "udp_transport \<Rightarrow> 'p meta_buffer \<Rightarrow> (udp_transport \<times> 'p meta_buffer) option" where
  "parseStunResponse t mb =
     (if \<not> mStunRequested t \<or> mStunResponsed t then Some (t, mb)
      else do {
        method \<leftarrow> net16 mb 0;
        if method \<noteq> 0x0101 then Some (t, mb)
        else do {
          magic \<leftarrow> net32 mb 4;
          if magic \<noteq> 0x2112A442 then Some (t, mb)
          else do {
            len \<leftarrow> net16 mb 2;
            (ip, mb1) \<leftarrow> stun_attrs mb 20 len;
            case ip of
              None \<Rightarrow> Some (t, mb1)
            | Some i \<Rightarrow> do {
                port \<leftarrow> net16 mb1 (i + 2);
                ipv4 \<leftarrow> net32 mb1 (i + 4);
                Some (t\<lparr>mReflAddr := \<lparr>sin_family = AF_INET, sin_port = port, s_addr = ipv4\<rparr>, mStunResponsed := True\<rparr>, mb1) } } } })"

definition udp_deliver :: "int \<Rightarrow> 'p meta_buffer \<Rightarrow> (int \<times> u8 list) option" where
  \<comment> \<open>the bytes handed to \<open>sendto\<close>, whose result is \<open>n\<close>\<close>
  "udp_deliver n mb =
     (if mRangeOffset mb + mRangeLength mb \<le> length (mMem mb)
      then Some (if n < int (mRangeLength mb) then UNKNOWN_ERROR else NO_ERROR, take (mRangeLength mb) (drop (mRangeOffset mb) (mMem mb)))
      else None)"

datatype recv_result = RecvError | RecvBytes "u8 list" sockaddr_in

definition udp_receive ::
  "recv_result \<Rightarrow> udp_transport \<Rightarrow> 'p meta_buffer \<Rightarrow> (int \<times> sockaddr_in option \<times> udp_transport \<times> 'p meta_buffer) option" where
  \<comment> \<open>\<open>recvfrom\<close> stores at most \<open>capacity\<close> bytes at \<open>data()\<close>; the second component is what \<open>*peerAddr\<close> is set to\<close>
  "udp_receive r t mb =
     (case r of
        RecvError \<Rightarrow> Some (UNKNOWN_ERROR, None, t, mb)
      | RecvBytes packet from \<Rightarrow>
          (let bytes = take (mCapacity mb) packet; off = mRangeOffset mb; t1 = t\<lparr>mPeerAddr := from\<rparr>
           in if off + length bytes > length (mMem mb) then None
              else if bytes = [] then Some (DEAD_OBJECT, None, t1, mb)
              else let mb1 = mb_setRange 0 (length bytes)
                         (mb\<lparr>mMem := take off (mMem mb) @ bytes @ drop (off + length bytes) (mMem mb)\<rparr>)
                   in if mStunRequested t \<and> \<not> mStunResponsed t
                      then map_option (\<lambda>(t2, mb2). (NO_ERROR, Some from, t2, mb2)) (parseStunResponse t1 mb1)
                      else Some (NO_ERROR, Some from, t1, mb1)))"

definition getHostAddr :: "u8 list \<Rightarrow> udp_transport \<Rightarrow> int \<times> u8 list option" where
  \<comment> \<open>\<open>buff\<close> is the array of 128 bytes after the \<open>ioctl\<close>, whose result is not looked at; an entry has a name and an address of 16 bytes each\<close>
  "getHostAddr buff t = (if mSocket t < 0 then (UNKNOWN_ERROR, None) else (NO_ERROR, Some (take 16 (drop (32 + 16) buff))))"

section \<open>Numbers in buffers\<close>

lemma bytes_length [simp]: "length (bytes16 w) = 2" "length (bytes32 x) = 4"
  by (simp_all add: bytes16_def bytes32_def)

lemma be16_bytes: "be16 (ucast (drop_bit 8 w)) (ucast w) = w"
  by (rule bit_word_eqI) (auto simp: be16_def bit_simps)

lemma be32_bytes: "be32 (ucast (drop_bit 24 w)) (ucast (drop_bit 16 w)) (ucast (drop_bit 8 w)) (ucast w) = w"
proof (rule bit_word_eqI)
  fix n assume "n < LENGTH(32)"
  then show "bit (be32 (ucast (drop_bit 24 w)) (ucast (drop_bit 16 w)) (ucast (drop_bit 8 w)) (ucast w)) n = bit w n"
    by (cases "16 \<le> n") (auto simp: be32_def be16_def bit_simps)
qed

lemma mb_get_append:
  assumes "mRangeOffset mb = 0" "mMem mb = xs @ ys" "length xs \<le> i" "i < length xs + length ys"
  shows "mb_get mb i = Some (ys ! (i - length xs))"
  using assms by (simp add: mb_get_def nth_append)

lemma net16_at:
  assumes "mRangeOffset mb = 0" "mMem mb = xs @ bytes16 w @ ys" "i = length xs"
  shows "net16 mb i = Some w"
  using assms by (simp add: net16_def mb_get_def nth_append bytes16_def be16_bytes)

lemma net32_at:
  assumes "mRangeOffset mb = 0" "mMem mb = xs @ bytes32 w @ ys" "i = length xs"
  shows "net32 mb i = Some w"
  using assms by (simp add: net32_def mb_get_def nth_append bytes32_def be32_bytes)

lemma swap16_at:
  assumes "mRangeOffset mb = 0" "mMem mb = xs @ [a, b] @ ys" "i = length xs"
  shows "swap16 mb i = Some (be16 a b, mb\<lparr>mMem := xs @ [b, a] @ ys\<rparr>)"
  using assms by (simp add: swap16_def mb_get_def mb_put_def nth_append list_update_append)

lemma unat_and_3: "unat (w AND 3) = unat w mod 4" for w :: u16
proof -
  have "w AND 3 = take_bit 2 w" by (simp add: take_bit_eq_mask mask_eq_exp_minus_1)
  then show ?thesis by (simp only: unsigned_take_bit_eq) (simp add: take_bit_eq_mod)
qed

lemma spin_length:
  fixes w :: u16
  assumes "unat w mod 8 = 4"
  shows "w AND 3 = 0" "4 \<le> w" "unat (w - 8) mod 8 = 4"
proof -
  have "unat (w AND 3) = 0" unfolding unat_and_3 using assms by presburger
  then show "w AND 3 = 0" by (simp add: unat_eq_0)
  show "4 \<le> w" using assms by (simp add: word_le_nat_alt)
  have "unat (w - 8) = (if 8 \<le> unat w then unat w - 8 else unat w + 65536 - 8)"
    using unat_sub_if_size [of w 8] by (simp add: word_size)
  then have d: "8 \<le> unat w \<and> unat (w - 8) = unat w - 8 \<or> unat (w - 8) = unat w + 65528" by (simp split: if_splits)
  have "(unat w - 8) mod 8 = unat w mod 8" if "8 \<le> unat w" using that by (simp add: le_mod_geq [symmetric])
  moreover have "(unat w + 65528) mod 8 = unat w mod 8" using mod_mult_self2 [of "unat w" 8 8191] by simp
  ultimately show "unat (w - 8) mod 8 = 4" using d assms by metis
qed

section \<open>Properties\<close>

lemma stun_attrs_mapped:
  assumes "mRangeOffset mb = 0" "mMem mb = xs @ [0, 1, 0, 8] @ ys" "length xs = c" "len AND 3 = 0" "4 \<le> len"
  shows "stun_attrs mb c len = Some (Some (c + 4), mb\<lparr>mMem := xs @ [0, 1, 8, 0] @ ys\<rparr>)"
proof -
  have "swap16 mb (c + 2) = Some (8, mb\<lparr>mMem := xs @ [0, 1, 8, 0] @ ys\<rparr>)"
    using swap16_at [of mb "xs @ [0, 1]" 0 8 ys] assms by (simp add: be16_def)
  moreover have "net16 (mb\<lparr>mMem := xs @ [0, 1, 8, 0] @ ys\<rparr>) c = Some 1"
    using net16_at [of "mb\<lparr>mMem := xs @ [0, 1, 8, 0] @ ys\<rparr>" xs 1 "[8, 0] @ ys" c] assms by (simp add: bytes16_def)
  ultimately show ?thesis using assms(4,5) by (simp add: stun_attrs.simps [of mb c len])
qed

text \<open>
  A STUN response to a pending request whose first attribute is a mapped address sets the reflective
  address to the port and the address of the attribute, whatever follows it in the buffer; the answer of
  \<open>getStunReflect\<close> is that address from then on.
\<close>

theorem stun_mapped_address:
  assumes "mStunRequested t" "\<not> mStunResponsed t" "mRangeOffset mb = 0" "length ids = 12" "len AND 3 = 0" "4 \<le> len"
    and "mMem mb = bytes16 0x0101 @ bytes16 len @ bytes32 0x2112A442 @ ids @ [0, 1, 0, 8, r, f] @ bytes16 port @ bytes32 ipv4 @ rest"
  shows "\<exists>t' mb'. parseStunResponse t mb = Some (t', mb') \<and>
    getStunReflect t' = Some \<lparr>sin_family = AF_INET, sin_port = port, s_addr = ipv4\<rparr> \<and>
    getStunReflect t = None \<and> parseStunResponse t' mb' = Some (t', mb')"
proof -
  let ?h = "bytes16 0x0101 @ bytes16 len @ bytes32 0x2112A442 @ ids"
  define mb1 where "mb1 = mb\<lparr>mMem := ?h @ [0, 1, 8, 0, r, f] @ bytes16 port @ bytes32 ipv4 @ rest\<rparr>"
  have "net16 mb 0 = Some 0x0101" using net16_at [of mb "[]"] assms(3,7) by simp
  moreover have "net16 mb 2 = Some len" using net16_at [of mb "bytes16 0x0101" len] assms(3,7) by simp
  moreover have "net32 mb 4 = Some 0x2112A442" using net32_at [of mb "bytes16 0x0101 @ bytes16 len" "0x2112A442"] assms(3,7) by simp
  moreover have "stun_attrs mb 20 len = Some (Some 24, mb1)"
    using stun_attrs_mapped [of mb ?h "[r, f] @ bytes16 port @ bytes32 ipv4 @ rest" 20 len] assms by (simp add: mb1_def)
  moreover have "net16 mb1 26 = Some port" using net16_at [of mb1 "?h @ [0, 1, 8, 0, r, f]" port] assms(3,4) by (simp add: mb1_def)
  moreover have "net32 mb1 28 = Some ipv4"
    using net32_at [of mb1 "?h @ [0, 1, 8, 0, r, f] @ bytes16 port" ipv4] assms(3,4) by (simp add: mb1_def)
  ultimately show ?thesis using assms(1,2) by (simp add: parseStunResponse_def getStunReflect_def)
qed

definition demo_udp :: udp_transport where
  "demo_udp = \<lparr>mSocket = 5, sock = 5, mCallback = None, mPeerAddr = addr_zero, mBindAddr = addr_zero, mReflAddr = addr_zero,
     mStunRequested = True, mStunResponsed = False, transId = [1, 2, 3], closed = []\<rparr>"

definition buffer_of :: "u8 list \<Rightarrow> nat meta_buffer" where
  "buffer_of bytes = MetaBuffer_wrap bytes demo_junk (length bytes) None"

theorem stun_mapped_address_witness:
  "\<exists>t' mb'. parseStunResponse demo_udp (buffer_of (bytes16 0x0101 @ bytes16 12 @ bytes32 0x2112A442 @ replicate 12 7 @
       [0, 1, 0, 8, 0, 1] @ bytes16 5004 @ bytes32 0xC0A80001)) = Some (t', mb') \<and>
     getStunReflect t' = Some \<lparr>sin_family = 2, sin_port = 5004, s_addr = 0xC0A80001\<rparr>"
  using stun_mapped_address [of demo_udp "buffer_of (bytes16 0x0101 @ bytes16 12 @ bytes32 0x2112A442 @ replicate 12 7 @
       [0, 1, 0, 8, 0, 1] @ bytes16 5004 @ bytes32 0xC0A80001)" "replicate 12 7" 12 0 1 5004 "0xC0A80001" "[]"]
  by (auto simp: demo_udp_def buffer_of_def MetaBuffer_wrap_def AF_INET_def)

lemma stun_attrs_spins:
  fixes mb :: "'p meta_buffer"
  assumes "mRangeOffset mb = 0" "unat len mod 8 = 4"
    and "\<And>k. c + 8 * k + 3 < length (mMem mb) \<Longrightarrow> mMem mb ! (c + 8 * k) = 0 \<and> mMem mb ! (c + 8 * k + 1) \<noteq> 1 \<and>
      mMem mb ! (c + 8 * k + 2) = 0 \<and> mMem mb ! (c + 8 * k + 3) = 8"
  shows "stun_attrs mb c len = None"
  using assms
proof (induction mb c len rule: stun_attrs.induct)
  case (1 mb c len)
  note len = spin_length [OF 1(3)]
  show ?case
  proof (cases "c + 3 < length (mMem mb)")
    case True
    have b: "mMem mb ! c = 0" "mMem mb ! (c + 1) \<noteq> 1" "mMem mb ! (c + 2) = 0" "mMem mb ! (c + 3) = 8"
      using 1(4) [of 0] True by simp_all
    define mb1 where "mb1 = mb\<lparr>mMem := (mMem mb)[c + 2 := 8, c + 3 := 0]\<rparr>"
    have s: "swap16 mb (c + 2) = Some (8, mb1)"
      using True b 1(2) by (simp add: swap16_def mb_get_def mb_put_def be16_def mb1_def numeral_3_eq_3 nth_list_update)
    have n: "net16 mb1 c = Some (be16 0 (mMem mb ! (c + 1)))"
      using True b 1(2) by (simp add: net16_def mb_get_def mb1_def)
    have attr: "be16 0 (mMem mb ! (c + 1)) \<noteq> 1"
    proof
      assume "be16 0 (mMem mb ! (c + 1)) = 1"
      then have "ucast (be16 0 (mMem mb ! (c + 1))) = (1 :: u8)" by simp
      then show False using b(2) by (simp add: be16_def ucast_up_ucast_id is_up)
    qed
    have "stun_attrs mb1 (c + unat (8 :: u16)) (len - 8) = None"
    proof (rule 1(1) [OF _ s])
      show "len AND 3 = 0 \<and> 4 \<le> len" using len by simp
      show "mRangeOffset mb1 = 0" "unat (len - 8) mod 8 = 4" using 1(2) len by (simp_all add: mb1_def)
      show "net16 mb1 c = Some (be16 0 (mMem mb ! (c + 1)))" "be16 0 (mMem mb ! (c + 1)) \<noteq> 1" using n attr by simp_all
      show "mMem mb1 ! (c + unat (8 :: u16) + 8 * k) = 0 \<and> mMem mb1 ! (c + unat (8 :: u16) + 8 * k + 1) \<noteq> 1 \<and>
          mMem mb1 ! (c + unat (8 :: u16) + 8 * k + 2) = 0 \<and> mMem mb1 ! (c + unat (8 :: u16) + 8 * k + 3) = 8"
        if "c + unat (8 :: u16) + 8 * k + 3 < length (mMem mb1)" for k
        using 1(4) [of "Suc k"] that by (simp add: mb1_def nth_list_update add.assoc)
    qed simp_all
    then show ?thesis using len(1,2) s n attr by (simp add: stun_attrs.simps [of mb c len])
  next
    case False
    then have "swap16 mb (c + 2) = None" using 1(2) by (auto simp: swap16_def mb_get_def mb_put_def)
    then show ?thesis using len(1,2) by (simp add: stun_attrs.simps [of mb c len])
  qed
qed

text \<open>
  C38.  The STUN parser believes the length in the packet and does not count the attribute headers: for a
  length that is 4 modulo 8, whose 16-bit remainder wraps past zero, and attributes of eight bytes that
  are not mapped addresses, the parser runs over the end of its buffer, however long the buffer is,
  exchanging bytes on its way.
\<close>

theorem stun_overrun:
  assumes "mStunRequested t" "\<not> mStunResponsed t" "mRangeOffset mb = 0" "unat len mod 8 = 4" "length ids = 12"
    and "mMem mb = bytes16 0x0101 @ bytes16 len @ bytes32 0x2112A442 @ ids @ attrs"
    and "\<forall>k. 8 * k + 3 < length attrs \<longrightarrow> attrs ! (8 * k) = 0 \<and> attrs ! (8 * k + 1) \<noteq> 1 \<and> attrs ! (8 * k + 2) = 0 \<and> attrs ! (8 * k + 3) = 8"
  shows "parseStunResponse t mb = None"
proof -
  have "net16 mb 0 = Some 0x0101" using net16_at [of mb "[]"] assms(3,6) by simp
  moreover have "net16 mb 2 = Some len" using net16_at [of mb "bytes16 0x0101" len] assms(3,6) by simp
  moreover have "net32 mb 4 = Some 0x2112A442" using net32_at [of mb "bytes16 0x0101 @ bytes16 len" "0x2112A442"] assms(3,6) by simp
  moreover have "stun_attrs mb 20 len = None"
  proof (rule stun_attrs_spins [OF assms(3,4)])
    have m: "mMem mb ! (20 + j) = attrs ! j" for j using assms(5,6) by (simp add: nth_append)
    show "mMem mb ! (20 + 8 * k) = 0 \<and> mMem mb ! (20 + 8 * k + 1) \<noteq> 1 \<and> mMem mb ! (20 + 8 * k + 2) = 0 \<and> mMem mb ! (20 + 8 * k + 3) = 8"
      if "20 + 8 * k + 3 < length (mMem mb)" for k
      using assms(5,6,7) that m [of "8 * k"] m [of "8 * k + 1"] m [of "8 * k + 2"] m [of "8 * k + 3"] by (simp add: add.assoc)
  qed
  ultimately show ?thesis using assms(1,2) by (simp add: parseStunResponse_def)
qed

theorem stun_overrun_witness:
  "parseStunResponse demo_udp (buffer_of (bytes16 0x0101 @ bytes16 4 @ bytes32 0x2112A442 @ replicate 12 0 @ [0, 2, 0, 8])) = None"
proof (rule stun_overrun)
  have "8 * k + 3 < length [0, 2, 0, 8 :: u8] \<Longrightarrow> k = 0" for k :: nat by simp
  then show "\<forall>k. 8 * k + 3 < length [0, 2, 0, 8 :: u8] \<longrightarrow> [0, 2, 0, 8 :: u8] ! (8 * k) = 0 \<and> [0, 2, 0, 8 :: u8] ! (8 * k + 1) \<noteq> 1 \<and>
    [0, 2, 0, 8 :: u8] ! (8 * k + 2) = 0 \<and> [0, 2, 0, 8 :: u8] ! (8 * k + 3) = 8" by auto
  show "mMem (buffer_of (bytes16 0x0101 @ bytes16 4 @ bytes32 0x2112A442 @ replicate 12 0 @ [0, 2, 0, 8])) =
    bytes16 0x0101 @ bytes16 4 @ bytes32 0x2112A442 @ replicate 12 0 @ [0, 2, 0, 8]" by (simp add: buffer_of_def MetaBuffer_wrap_def)
qed (simp_all add: demo_udp_def buffer_of_def MetaBuffer_wrap_def)

lemma sendStunRequest_error_unnoticed:
  assumes "- 2147483648 \<le> n" "n < 0" "\<not> mStunRequested t"
  shows "fst (sendStunRequest ids n t) = NO_ERROR"
proof -
  have "uint (word_of_int n :: u32) = n mod 4294967296" by (simp add: uint_word_of_int)
  also have "\<dots> = n + 4294967296" using assms(1,2) by (intro int_mod_pos_eq [of _ _ "- 1"]) simp_all
  finally have "\<not> (word_of_int n :: u32) < 16" using assms(1) by (simp add: word_less_def)
  then show ?thesis using assms(3) by (simp add: sendStunRequest_def Let_def)
qed

text \<open>
  The address of the host is that of the second interface.  When the kernel knows one only, it is what the stack held behind it.
\<close>

lemma getHostAddr_second:
  assumes "0 \<le> mSocket t" "length e0 = 32" "length name = 16" "length addr = 16"
  shows "getHostAddr (e0 @ name @ addr @ rest) t = (NO_ERROR, Some addr)" "getHostAddr (e0 @ junk) t = (NO_ERROR, Some (take 16 (drop 16 junk)))"
  using assms by (simp_all add: getHostAddr_def)

end
