(* ===== verification/Rtp_Transport.thy ===== *)
theory Rtp_Transport
  imports Udp_Transport Wall_Clock
begin

text \<open>
  \<open>libnet/RTPTransport.cpp\<close>: the RTP transport, which writes and reads the headers of RTP packets and
  the RTCP reports.  Packets are the byte memory of a \<open>Meta_Buffer\<close>; the values a packet is annotated with
  go through the interner \<open>atom\<close>.  What the transport tells its observer is kept in \<open>told\<close>, what it
  hands to the sockets in \<open>sent\<close>.  The wall clock, the results of the socket calls and of the poller are
  parameters.
\<close>

section \<open>Model\<close>

datatype RTPMessage = RTPMSG_FIRST_PACKET | RTPMSG_PACKET_DATA | RTCPMSG_FIRST_PACKET | RTCPMSG_TIME_UPDATE | RTCPMSG_END_OF_STREAM

datatype rtp_param = Param u32 | TimeInfo u64 u32 \<comment> \<open>\<open>TimeInfo ntpTime rtpTime\<close> for the pointer to \<open>timeInfo\<close>\<close>

record rtp_info =
  nRTPSent :: u32
  nRTPOctetsSent :: u32
  nRcvdLost :: u32
  rcvdSourceId :: u32
  rcvdMaxSeqNum :: u32
  rcvdRTP :: u32
  rcvdRTPOctets :: u32
  rcvdRTCP :: u32
  totalRcvdLost :: u32
  arrivalJitter :: u32
  lastSR :: u64

record rtp_transport =
  rtpUdp :: udp_transport \<comment> \<open>the base class\<close>
  mRTCP :: "udp_transport option"
  useRTCP :: bool
  symmRTP :: bool
  firstRTP :: bool
  mObserver :: bool
  mEventId :: int
  mRTPAddr :: sockaddr_in
  mRTCPAddr :: sockaddr_in
  mHostAddr :: sockaddr_in
  mInfo :: rtp_info
  mSourceID :: u32
  mSeqNo :: u32
  mRTPTimeBase :: u32
  mLastRTPTime :: u32
  mLastNTPSec :: u32
  mLastNTPUSec :: u32
  mPType :: u8
  told :: "(RTPMessage \<times> rtp_param) list"
  sent :: "(u8 list \<times> sockaddr_in) list"

record rtp_clock = \<comment> \<open>the parameters of \<open>Wall_Clock\<close> and the time of the call\<close>
  fraction :: "u32 \<Rightarrow> u32"
  shl32 :: "u32 \<Rightarrow> u32"
  tod :: timeval

definition RTCP_PERIOD :: u32 where "RTCP_PERIOD = 5000"
definition MaxCapacity :: nat where "MaxCapacity = 1664"

definition info_zero :: rtp_info where
  "info_zero = \<lparr>nRTPSent = 0, nRTPOctetsSent = 0, nRcvdLost = 0, rcvdSourceId = 0, rcvdMaxSeqNum = 0, rcvdRTP = 0,
     rcvdRTPOctets = 0, rcvdRTCP = 0, totalRcvdLost = 0, arrivalJitter = 0, lastSR = 0\<rparr>"

definition RTPTransport_new :: "bool \<Rightarrow> rtp_transport \<Rightarrow> rtp_transport" where
  \<comment> \<open>the constructor, in memory that holds \<open>junk\<close>: the sequence number, the source id and the payload type stay as they are\<close>
  "RTPTransport_new rtcp junk =
     junk\<lparr>rtpUdp := Transport_new (rtpUdp junk), mRTCP := None, useRTCP := rtcp, symmRTP := False, firstRTP := True,
       mObserver := False, mEventId := - 1, mInfo := info_zero\<rparr>"

definition RTPTransport_init ::
  "udp_transport \<Rightarrow> int \<times> int option \<Rightarrow> int \<Rightarrow> int \<times> int option \<Rightarrow> rtp_transport \<Rightarrow> int \<times> rtp_transport" where
  \<comment> \<open>the new RTCP transport, the results of its \<open>socket\<close> and \<open>AddTransport\<close>, the event id, and the results for RTP\<close>
  "RTPTransport_init fresh rtcpRes event rtpRes t =
     (let (err, t1) =
            (if useRTCP t
             then let (e, u) = udp_init (fst rtcpRes) (snd rtcpRes) (Transport_new fresh); t1 = t\<lparr>mRTCP := Some u\<rparr>
                  in if e \<noteq> NO_ERROR then (e, t1)
                     else let t2 = t1\<lparr>mEventId := event\<rparr>
                          in if event = - 1 then (e, t2)
                             else let (e2, u2) = udp_init (fst rtpRes) (snd rtpRes) (rtpUdp t2) in (e2, t2\<lparr>rtpUdp := u2\<rparr>)
             else let (e2, u2) = udp_init (fst rtpRes) (snd rtpRes) (rtpUdp t) in (e2, t\<lparr>rtpUdp := u2\<rparr>))
      in (err, if err \<noteq> NO_ERROR then t1\<lparr>mRTCP := None\<rparr> else t1))"

definition RTPTransport_setHandler :: "nat option \<Rightarrow> nat \<Rightarrow> rtp_transport \<Rightarrow> (int \<times> rtp_transport) option" where
  \<comment> \<open>\<open>own\<close> is \<open>&mHandler\<close>; \<open>None\<close> when \<open>mRTCP\<close> is null\<close>
  "RTPTransport_setHandler cb own t =
     (let t1 = t\<lparr>rtpUdp := snd (Transport_setHandler cb (rtpUdp t))\<rparr>
      in if useRTCP t
         then map_option (\<lambda>u. (NO_ERROR, t1\<lparr>mRTCP := Some (snd (Transport_setHandler (map_option (\<lambda>_. own) cb) u))\<rparr>)) (mRTCP t)
         else Some (NO_ERROR, t1))"

definition setObserver :: "bool \<Rightarrow> rtp_transport \<Rightarrow> int \<times> rtp_transport" where
  "setObserver obs t = (NO_ERROR, t\<lparr>mObserver := obs\<rparr>)"

definition RTPTransport_create ::
  "rtp_transport \<Rightarrow> udp_transport \<Rightarrow> int \<times> int option \<Rightarrow> int \<Rightarrow> int \<times> int option \<Rightarrow> bool \<Rightarrow> bool \<Rightarrow> rtp_transport option" where
  "RTPTransport_create junk fresh rtcpRes event rtpRes observer rtcp =
     (let (err, t) = RTPTransport_init fresh rtcpRes event rtpRes (RTPTransport_new rtcp junk)
      in if err \<noteq> NO_ERROR then None
         else let (err2, t2) = setObserver observer t in if err2 \<noteq> NO_ERROR then None else Some t2)"

definition setBindPort :: "int \<Rightarrow> int \<Rightarrow> sockaddr_in \<Rightarrow> u16 \<Rightarrow> rtp_transport \<Rightarrow> (int \<times> rtp_transport) option" where
  \<comment> \<open>the results of the two \<open>bind\<close> calls and the address \<open>getHostAddr\<close> finds\<close>
  "setBindPort b1 b2 host port t =
     (if useRTCP t \<and> port AND 1 \<noteq> 0 then Some (BAD_VALUE, t)
      else let (e, u) = udp_bindAddress b1 \<lparr>sin_family = AF_INET, sin_port = port, s_addr = 0\<rparr> (rtpUdp t);
               t1 = t\<lparr>rtpUdp := u\<rparr>
           in if e \<noteq> NO_ERROR then Some (e, t1)
              else if \<not> useRTCP t then Some (e, t1)
              else case mRTCP t of
                     None \<Rightarrow> None
                   | Some r \<Rightarrow>
                       (let (e2, r2) = udp_bindAddress b2 \<lparr>sin_family = AF_INET, sin_port = port + 1, s_addr = 0\<rparr> r;
                            t2 = t1\<lparr>mRTCP := Some r2\<rparr>
                        in Some (e2, if e2 \<noteq> NO_ERROR then t2 else t2\<lparr>mHostAddr := if mSocket r2 < 0 then mHostAddr t2 else host\<rparr>)))"

definition setSourceID :: "u32 \<Rightarrow> rtp_transport \<Rightarrow> int \<times> rtp_transport" where
  "setSourceID ssrc t = (NO_ERROR, t\<lparr>mSourceID := ssrc\<rparr>)"

definition setPayloadType :: "int \<Rightarrow> rtp_transport \<Rightarrow> int \<times> rtp_transport" where
  "setPayloadType pt t = (NO_ERROR, t\<lparr>mPType := word_of_int pt\<rparr>)"

definition setTarget :: "sockaddr_in \<Rightarrow> bool \<Rightarrow> rtp_transport \<Rightarrow> int \<times> rtp_transport" where
  "setTarget addr symmetric t =
     (let t1 = t\<lparr>mRTPAddr := addr\<rparr>;
          t2 = (if useRTCP t then t1\<lparr>mRTCPAddr := addr\<lparr>sin_port := sin_port addr + 1\<rparr>\<rparr> else t1)
      in (NO_ERROR, t2\<lparr>symmRTP := symmetric\<rparr>))"

definition notify :: "RTPMessage \<Rightarrow> rtp_param \<Rightarrow> rtp_transport \<Rightarrow> rtp_transport" where
  "notify msg param t = (if mObserver t then t\<lparr>told := told t @ [(msg, param)]\<rparr> else t)"

fun put_bytes :: "nat \<Rightarrow> u8 list \<Rightarrow> 'p meta_buffer \<Rightarrow> 'p meta_buffer option" where
  \<comment> \<open>the assignments \<open>data[i] = b\<close>, \<open>data[i + 1] = ...\<close>\<close>
  "put_bytes i [] mb = Some mb"
| "put_bytes i (b # bs) mb = (case mb_put i b mb of None \<Rightarrow> None | Some mb' \<Rightarrow> put_bytes (Suc i) bs mb')"

definition rtp_header :: "rtp_transport \<Rightarrow> u32 \<Rightarrow> bool \<Rightarrow> u8 list" where
  "rtp_header t rtpTime marker =
     [0x80, (if marker then 0x80 else 0) OR mPType t, ucast (drop_bit 8 (mSeqNo t)), ucast (mSeqNo t)] @ bytes32 rtpTime @ bytes32 (mSourceID t)"

definition doSend ::
  "rtp_clock \<Rightarrow> int \<Rightarrow> 'p meta_buffer \<Rightarrow> u64 \<Rightarrow> bool \<Rightarrow> bool \<Rightarrow> rtp_transport \<Rightarrow> (int \<times> 'p meta_buffer \<times> rtp_transport) option" where
  \<comment> \<open>\<open>n\<close> is what \<open>sendto\<close> returns; its failure is not looked at\<close>
  "doSend clk n mb timeUs video marker t =
     (let rtpTime = (if video then mRTPTimeBase t + ucast (timeUs * 90) else ucast timeUs);
          fin = (\<lambda>t'. case getApartNTPNow (fraction clk) (tod clk) (Some (mLastNTPSec t')) (Some (mLastNTPUSec t')) of
                   (s, u) \<Rightarrow> t'\<lparr>mLastRTPTime := rtpTime, mLastNTPSec := the s, mLastNTPUSec := the u\<rparr>)
      in if 12 \<le> mCapacity mb
         then do {
           mb1 \<leftarrow> put_bytes 0 (rtp_header t rtpTime marker) mb;
           (_, bytes) \<leftarrow> udp_deliver n mb1;
           let info = (mInfo t)\<lparr>nRTPSent := nRTPSent (mInfo t) + 1,
                 nRTPOctetsSent := nRTPOctetsSent (mInfo t) + (word_of_nat (mRangeLength mb1) - 12)\<rparr>;
           Some (NO_ERROR, mb1, fin (t\<lparr>sent := sent t @ [(bytes, mRTPAddr t)], mSeqNo := mSeqNo t + 1, mInfo := info\<rparr>)) }
         else Some (NO_ERROR, mb, fin t))"

text \<open>Reading: \<open>u16at\<close>, \<open>u32at\<close>, \<open>u64at\<close> and the parsers.\<close>

definition u16at :: "'p meta_buffer \<Rightarrow> nat \<Rightarrow> u16 option" where "u16at mb i = net16 mb i"

definition u32at :: "'p meta_buffer \<Rightarrow> nat \<Rightarrow> u32 option" where
  "u32at mb i = do { h \<leftarrow> u16at mb i; l \<leftarrow> u16at mb (i + 2); Some (push_bit 16 (ucast h) OR ucast l) }"

definition u64at :: "'p meta_buffer \<Rightarrow> nat \<Rightarrow> u64 option" where
  "u64at mb i = do { h \<leftarrow> u32at mb i; l \<leftarrow> u32at mb (i + 4); Some (push_bit 32 (ucast h) OR ucast l) }"

definition rtp_unpad :: "'p meta_buffer \<Rightarrow> u8 \<Rightarrow> nat \<Rightarrow> nat option option" where
  \<comment> \<open>the size without the padding; the inner \<open>None\<close> rejects the packet\<close>
  "rtp_unpad mb d0 size0 =
     (if d0 AND 0x20 \<noteq> 0
      then do { pad \<leftarrow> mb_get mb (size0 - 1); Some (if unat pad + 12 > size0 then None else Some (size0 - unat pad)) }
      else Some (Some size0))"

definition rtp_extension :: "'p meta_buffer \<Rightarrow> u8 \<Rightarrow> nat \<Rightarrow> nat \<Rightarrow> nat option option" where
  \<comment> \<open>the offset of the payload behind the header extension\<close>
  "rtp_extension mb d0 size1 off =
     (if d0 AND 0x10 \<noteq> 0
      then if size1 < off + 4 then Some None
           else do {
             len \<leftarrow> net16 mb (off + 2);
             let extensionLength = 4 * unat len;
             Some (if size1 < off + 4 + extensionLength then None else Some (off + 4 + extensionLength)) }
      else Some (Some off))"

definition rtp_payload :: "'p meta_buffer \<Rightarrow> (nat \<times> nat) option option" where
  \<comment> \<open>the checks of \<open>parseRTP\<close>: offset and end of the payload, or rejection\<close>
  "rtp_payload mb =
     (let size0 = mRangeLength mb
      in if size0 < 12 then Some None
         else do {
           d0 \<leftarrow> mb_get mb 0;
           if drop_bit 6 d0 \<noteq> 2 then Some None
           else do {
             padded \<leftarrow> rtp_unpad mb d0 size0;
             case padded of
               None \<Rightarrow> Some None
             | Some size1 \<Rightarrow>
                 (let off = 12 + 4 * unat (d0 AND 0x0f)
                  in if size1 < off then Some None
                     else map_option (map_option (\<lambda>payloadOffset. (payloadOffset, size1))) (rtp_extension mb d0 size1 off)) } })"

definition parseRTP ::
  "('s, 'p) interning \<Rightarrow> 's \<Rightarrow> 'p meta_buffer \<Rightarrow> rtp_transport \<Rightarrow> (int \<times> 's \<times> 'p meta_buffer \<times> rtp_transport) option" where
  "parseRTP atom s mb t =
     (let t1 = t\<lparr>mInfo := (mInfo t)\<lparr>rcvdRTP := rcvdRTP (mInfo t) + 1\<rparr>\<rparr>
      in do {
        ok \<leftarrow> rtp_payload mb;
        case ok of
          None \<Rightarrow> Some (UNKNOWN_ERROR, s, mb, t1)
        | Some (payloadOffset, size1) \<Rightarrow> do {
            ssrc \<leftarrow> u32at mb 8;
            rtpTime \<leftarrow> u32at mb 4;
            d1 \<leftarrow> mb_get mb 1;
            seq \<leftarrow> u16at mb 2;
            (s1, mb1) \<leftarrow> mb_setInt32 atom s mb ''ssrc'' (sint ssrc);
            (s2, mb2) \<leftarrow> mb_setInt32 atom s1 mb1 ''rtp-time'' (sint rtpTime);
            (s3, mb3) \<leftarrow> mb_setInt32 atom s2 mb2 ''PT'' (uint (d1 AND 0x7f));
            (s4, mb4) \<leftarrow> mb_setInt32 atom s3 mb3 ''M'' (uint (drop_bit 7 d1));
            let mb5 = mb_setRange payloadOffset (size1 - payloadOffset) (mb_setQuickData (ucast seq) mb4);
            let t2 = t1\<lparr>mInfo := (mInfo t1)\<lparr>rcvdSourceId := ssrc\<rparr>\<rparr>;
            let t3 = (if firstRTP t2 then (notify RTPMSG_FIRST_PACKET (Param rtpTime) t2)\<lparr>firstRTP := False\<rparr> else t2);
            Some (NO_ERROR, s4, mb5, t3) } })"

definition RTPTransport_receive ::
  "('s, 'p) interning \<Rightarrow> 's \<Rightarrow> (nat \<Rightarrow> u8 list option) \<Rightarrow> 'p mb_item list \<Rightarrow> recv_result \<Rightarrow> rtp_transport \<Rightarrow>
    (int \<times> 's \<times> 'p meta_buffer \<times> rtp_transport) option" where
  \<comment> \<open>the result of the inner \<open>receive\<close> is ignored\<close>
  "RTPTransport_receive atom s malloc junk r t = do {
     mb \<leftarrow> MetaBuffer_create malloc junk MaxCapacity None None;
     (err, from, u, mb1) \<leftarrow> udp_receive r (rtpUdp t) mb;
     let t1 = t\<lparr>rtpUdp := u, mRTPAddr := (case (symmRTP t, from) of (True, Some a) \<Rightarrow> a | _ \<Rightarrow> mRTPAddr t)\<rparr>;
     parseRTP atom s mb1 t1 }"

text \<open>RTCP.  The parser walks over the packets of a compound; \<open>o\<close> is the offset of \<open>data\<close>.\<close>

definition parseBYE :: "'p meta_buffer \<Rightarrow> nat \<Rightarrow> nat \<Rightarrow> rtp_transport \<Rightarrow> (int \<times> rtp_transport) option" where
  "parseBYE mb pos len t = do {
     d0 \<leftarrow> mb_get mb pos;
     let SC = unat (d0 AND 0x3f);
     if SC = 0 \<or> len < 4 + SC * 4 then Some (- 1, t)
     else do { _ \<leftarrow> u32at mb (pos + 4); Some (0, notify RTCPMSG_END_OF_STREAM (Param 0) t) } }"

definition parseSR :: "rtp_clock \<Rightarrow> 'p meta_buffer \<Rightarrow> nat \<Rightarrow> nat \<Rightarrow> rtp_transport \<Rightarrow> (int \<times> rtp_transport) option" where
  "parseSR clk mb pos len t = do {
     let t1 = t\<lparr>mInfo := (mInfo t)\<lparr>lastSR := the (getWholeNTPNow (shl32 clk) (fraction clk) (tod clk) (Some (lastSR (mInfo t))))\<rparr>\<rparr>;
     d0 \<leftarrow> mb_get mb pos;
     let RC = unat (d0 AND 0x1f);
     if len < (7 + RC * 6) * 4 then Some (- 1, t1)
     else do {
       _ \<leftarrow> u32at mb (pos + 4);
       ntpTime \<leftarrow> u64at mb (pos + 8);
       rtpTime \<leftarrow> u32at mb (pos + 16);
       Some (0, notify RTCPMSG_TIME_UPDATE (TimeInfo ntpTime rtpTime) t1) } }"

definition rtcp_unpad :: "'p meta_buffer \<Rightarrow> nat \<Rightarrow> u8 \<Rightarrow> nat \<Rightarrow> nat option option" where
  "rtcp_unpad mb pos d0 size0 =
     (if d0 AND 0x20 \<noteq> 0
      then do { pad \<leftarrow> mb_get mb (pos + (size0 - 1)); Some (if unat pad + 8 > size0 then None else Some (size0 - unat pad)) }
      else Some (Some size0))"

lemma rtcp_unpad_le: "rtcp_unpad mb pos d0 n = Some (Some m) \<Longrightarrow> m \<le> n"
  by (auto simp: rtcp_unpad_def split: if_splits bind_splits)

definition rtcp_switch :: "rtp_clock \<Rightarrow> 'p meta_buffer \<Rightarrow> nat \<Rightarrow> u8 \<Rightarrow> nat \<Rightarrow> rtp_transport \<Rightarrow> rtp_transport option" where
  \<comment> \<open>the \<open>switch\<close>; the results of the two parsers are ignored\<close>
  "rtcp_switch clk mb pos d1 headerLength t =
     (if d1 = 200 then map_option snd (parseSR clk mb pos headerLength t)
      else if d1 = 203 then map_option snd (parseBYE mb pos headerLength t)
      else Some t)"

function rtcp_loop :: "rtp_clock \<Rightarrow> 'p meta_buffer \<Rightarrow> nat \<Rightarrow> nat \<Rightarrow> rtp_transport \<Rightarrow> (int \<times> rtp_transport) option" where
  "rtcp_loop clk mb pos size0 t =
     (if size0 = 0 then Some (NO_ERROR, t)
      else if size0 < 8 then Some (- 1, t)
      else case mb_get mb pos of
        None \<Rightarrow> None
      | Some d0 \<Rightarrow>
          if drop_bit 6 d0 \<noteq> 2 then Some (- 1, t)
          else (case rtcp_unpad mb pos d0 size0 of
                  None \<Rightarrow> None
                | Some None \<Rightarrow> Some (- 1, t)
                | Some (Some size1) \<Rightarrow>
                    (case net16 mb (pos + 2) of
                       None \<Rightarrow> None
                     | Some len \<Rightarrow>
                         (let headerLength = 4 * unat len + 4
                          in if size1 < headerLength then Some (- 1, t)
                             else case mb_get mb (pos + 1) of
                                    None \<Rightarrow> None
                                  | Some d1 \<Rightarrow>
                                      (case rtcp_switch clk mb pos d1 headerLength t of
                                         None \<Rightarrow> None
                                       | Some t1 \<Rightarrow> rtcp_loop clk mb (pos + headerLength) (size1 - headerLength) t1)))))"
  by pat_completeness auto
termination
  by (relation "measure (\<lambda>(clk, mb, pos, size0, t). size0)") (auto dest!: rtcp_unpad_le)

declare rtcp_loop.simps [simp del]

definition parseRTCP :: "rtp_clock \<Rightarrow> 'p meta_buffer \<Rightarrow> rtp_transport \<Rightarrow> (int \<times> rtp_transport) option" where
  "parseRTCP clk mb t =
     (let t1 = t\<lparr>mInfo := (mInfo t)\<lparr>rcvdRTCP := rcvdRTCP (mInfo t) + 1\<rparr>\<rparr>;
          t2 = (if rcvdRTCP (mInfo t) = 0 then notify RTCPMSG_FIRST_PACKET (Param 0) t1 else t1)
      in rtcp_loop clk mb 0 (mRangeLength mb) t2)"

definition handleRTCP ::
  "rtp_clock \<Rightarrow> (nat \<Rightarrow> u8 list option) \<Rightarrow> 'p mb_item list \<Rightarrow> recv_result \<Rightarrow> rtp_transport \<Rightarrow> rtp_transport option" where
  "handleRTCP clk malloc junk r t =
     (let made = MetaBuffer_create malloc junk MaxCapacity None None
      in case mRTCP t of
           None \<Rightarrow> Some t
         | Some u \<Rightarrow> do {
             mb \<leftarrow> made;
             (err, from, u1, mb1) \<leftarrow> udp_receive r u mb;
             let t1 = t\<lparr>mRTCP := Some u1, mRTCPAddr := (case (symmRTP t, from) of (True, Some a) \<Rightarrow> a | _ \<Rightarrow> mRTCPAddr t)\<rparr>;
             map_option snd (parseRTCP clk mb1 t1) })"

text \<open>The periodic report: a sender report with one report block and a source description.\<close>

definition clamp_lost :: "rtp_info \<Rightarrow> rtp_info" where
  "clamp_lost i =
     (let total = totalRcvdLost i + nRcvdLost i;
          total' = (if total > 0x00FFFFFF then 0x00FFFFFF else total);
          lost = (if nRcvdLost i > 255 then 255 else nRcvdLost i)
      in i\<lparr>totalRcvdLost := total', nRcvdLost := lost\<rparr>)"

definition sr_packet :: "rtp_transport \<Rightarrow> rtp_info \<Rightarrow> u32 \<Rightarrow> u8 list" where
  \<comment> \<open>\<open>_buffer[0]\<close> to \<open>_buffer[12]\<close>\<close>
  "sr_packet t i delay =
     [0x81, 200, 0, 12] @ bytes32 (mSourceID t) @
     bytes32 (mLastNTPSec t) @ bytes32 (mLastNTPUSec t) @ bytes32 (mLastRTPTime t) @ bytes32 (nRTPSent i) @ bytes32 (nRTPOctetsSent i) @
     bytes32 (rcvdSourceId i) @ bytes32 (push_bit 24 (nRcvdLost i) OR totalRcvdLost i) @ bytes32 (rcvdMaxSeqNum i) @ bytes32 0 @
     (if lastSR i \<noteq> 0 then bytes32 (ucast (drop_bit 16 (lastSR i))) @ bytes32 delay else bytes32 0 @ bytes32 0)"

definition sdes_text :: "u8 list \<Rightarrow> u8 list \<Rightarrow> u8 list" where
  \<comment> \<open>the 16 bytes behind the item header: \<open>snprintf\<close> writes the address, an at sign and a terminator over what the stack holds\<close>
  "sdes_text host stack = take 16 (take 16 (host @ [0x40]) @ [0] @ drop (Suc (length (take 16 (host @ [0x40])))) stack)"

definition sdes_packet :: "rtp_transport \<Rightarrow> u8 list \<Rightarrow> u8 list \<Rightarrow> u8 list" where
  "sdes_packet t host stack = [0x81, 202, 0, 6] @ bytes32 (mSourceID t) @ [1, 16] @ sdes_text host stack @ [0, 0]"

definition RTPTransport_handleTimeout ::
  "rtp_clock \<Rightarrow> u8 list \<Rightarrow> u8 list \<Rightarrow> int \<Rightarrow> int \<Rightarrow> rtp_transport \<Rightarrow> (int \<times> rtp_transport) option" where
  \<comment> \<open>\<open>host\<close> is the text of \<open>inet_ntoa\<close>, \<open>stack\<close> what the buffer held, \<open>event\<close> the id of the next timeout\<close>
  "RTPTransport_handleTimeout clk host stack n event t =
     (let delay = minusNTPDelay (shl32 clk) (fraction clk) (tod clk) (lastSR (mInfo t));
          i = clamp_lost (mInfo t);
          bytes = sr_packet t i delay @ sdes_packet t host stack
      in case mRTCP t of
           None \<Rightarrow> None
         | Some u \<Rightarrow>
             Some (0, t\<lparr>mInfo := i\<lparr>nRcvdLost := 0\<rparr>, sent := sent t @ [(take 80 bytes, mRTCPAddr t)], mEventId := event\<rparr>))"

definition getStatistic :: "rtp_transport \<Rightarrow> int list" where
  "getStatistic t = [0, 0, 0, 0]"

section \<open>The parsers stay in the packet\<close>

definition in_memory :: "'p meta_buffer \<Rightarrow> bool" where
  "in_memory mb \<longleftrightarrow> mRangeOffset mb + mRangeLength mb \<le> length (mMem mb)"

lemma mb_get_in: "mRangeOffset mb + k \<le> length (mMem mb) \<Longrightarrow> i < k \<Longrightarrow> \<exists>b. mb_get mb i = Some b"
  by (simp add: mb_get_def)

lemma net16_in: "mRangeOffset mb + k \<le> length (mMem mb) \<Longrightarrow> i + 1 < k \<Longrightarrow> \<exists>w. net16 mb i = Some w"
  by (simp add: net16_def mb_get_def)

lemma u32at_in: "mRangeOffset mb + k \<le> length (mMem mb) \<Longrightarrow> i + 3 < k \<Longrightarrow> \<exists>w. u32at mb i = Some w"
  by (simp add: u32at_def u16at_def net16_def mb_get_def)

lemma u64at_in: "mRangeOffset mb + k \<le> length (mMem mb) \<Longrightarrow> i + 7 < k \<Longrightarrow> \<exists>w. u64at mb i = Some w"
  by (simp add: u64at_def u32at_def u16at_def net16_def mb_get_def)

lemma rtp_unpad_in:
  assumes "in_memory mb" "size0 = mRangeLength mb" "12 \<le> size0"
  shows "\<exists>r. rtp_unpad mb d0 size0 = Some r \<and> (\<forall>size1. r = Some size1 \<longrightarrow> size1 \<le> size0)"
  using mb_get_in [of mb "mRangeLength mb" "size0 - 1"] assms by (auto simp: rtp_unpad_def in_memory_def)

lemma rtp_extension_in:
  assumes "in_memory mb" "size1 \<le> mRangeLength mb" "off \<le> size1"
  shows "\<exists>r. rtp_extension mb d0 size1 off = Some r \<and> (\<forall>p. r = Some p \<longrightarrow> off \<le> p \<and> p \<le> size1)"
proof (cases "size1 < off + 4")
  case True
  then show ?thesis using assms by (auto simp: rtp_extension_def)
next
  case False
  then obtain w where "net16 mb (off + 2) = Some w"
    using net16_in [of mb "mRangeLength mb" "off + 2"] assms by (auto simp: in_memory_def)
  then show ?thesis using assms False by (auto simp: rtp_extension_def Let_def)
qed

lemma rtp_payload_in:
  assumes "in_memory mb"
  shows "\<exists>r. rtp_payload mb = Some r \<and> (\<forall>p q. r = Some (p, q) \<longrightarrow> 12 \<le> p \<and> p \<le> q \<and> q \<le> mRangeLength mb \<and> 12 \<le> mRangeLength mb)"
proof (cases "mRangeLength mb < 12")
  case True
  then show ?thesis by (simp add: rtp_payload_def)
next
  case False
  then obtain d0 where d0: "mb_get mb 0 = Some d0" using mb_get_in [of mb "mRangeLength mb" 0] assms by (auto simp: in_memory_def)
  obtain r where r: "rtp_unpad mb d0 (mRangeLength mb) = Some r" "\<forall>size1. r = Some size1 \<longrightarrow> size1 \<le> mRangeLength mb"
    using rtp_unpad_in [OF assms refl] False by auto
  show ?thesis
  proof (cases r)
    case None
    then show ?thesis using False d0 r by (auto simp: rtp_payload_def Let_def)
  next
    case (Some size1)
    define off where "off = 12 + 4 * unat (d0 AND 0x0f)"
    show ?thesis
    proof (cases "size1 < off")
      case True
      then show ?thesis using False d0 r Some by (auto simp: rtp_payload_def Let_def off_def)
    next
      case False
      obtain e where e: "rtp_extension mb d0 size1 off = Some e" "\<forall>p. e = Some p \<longrightarrow> off \<le> p \<and> p \<le> size1"
        using rtp_extension_in [OF assms _] r(2) Some False by (metis not_less)
      have "12 \<le> off" by (simp add: off_def)
      then have g: "12 \<le> p \<and> p \<le> size1 \<and> size1 \<le> mRangeLength mb" if "e = Some p" for p
        using e(2) that r(2) Some by auto
      have "rtp_payload mb = Some (if drop_bit 6 d0 \<noteq> 2 then None else map_option (\<lambda>p. (p, size1)) e)"
        using \<open>\<not> mRangeLength mb < 12\<close> d0 r(1) Some False e(1) by (simp add: rtp_payload_def Let_def off_def [symmetric])
      then show ?thesis using g \<open>\<not> mRangeLength mb < 12\<close> by auto
    qed
  qed
qed

lemma rtcp_switch_in:
  assumes "mRangeOffset mb + k \<le> length (mMem mb)" "pos + headerLength \<le> k" "4 \<le> headerLength"
  shows "\<exists>t'. rtcp_switch clk mb pos d1 headerLength t = Some t'"
proof -
  obtain d0 where d0: "mb_get mb pos = Some d0" using mb_get_in [OF assms(1), of pos] assms(2,3) by auto
  have "\<exists>r. parseSR clk mb pos headerLength t = Some r"
  proof (cases "headerLength < (7 + unat (d0 AND 0x1f) * 6) * 4")
    case False
    then have "28 \<le> headerLength" by simp
    then show ?thesis using d0 False u32at_in [OF assms(1), of "pos + 4"] u64at_in [OF assms(1), of "pos + 8"] u32at_in [OF assms(1), of "pos + 16"] assms(2)
      by (auto simp: parseSR_def Let_def)
  qed (simp add: parseSR_def d0 Let_def)
  moreover have "\<exists>r. parseBYE mb pos headerLength t = Some r"
  proof (cases "unat (d0 AND 0x3f) = 0 \<or> headerLength < 4 + unat (d0 AND 0x3f) * 4")
    case False
    then have "8 \<le> headerLength" by auto
    then show ?thesis using d0 False u32at_in [OF assms(1), of "pos + 4"] assms(2) by (auto simp: parseBYE_def Let_def)
  qed (simp add: parseBYE_def d0 Let_def)
  ultimately show ?thesis by (auto simp: rtcp_switch_def)
qed

lemma rtcp_loop_in:
  assumes "mRangeOffset mb + k \<le> length (mMem mb)" "pos + size0 \<le> k"
  shows "\<exists>r. rtcp_loop clk mb pos size0 t = Some r"
  using assms(2)
proof (induction size0 arbitrary: pos t rule: less_induct)
  case (less size0)
  show ?case
  proof (cases "size0 < 8")
    case True
    then show ?thesis by (subst rtcp_loop.simps) simp
  next
    case False
    then obtain d0 d1 len where d: "mb_get mb pos = Some d0" "mb_get mb (pos + 1) = Some d1" "net16 mb (pos + 2) = Some len"
      using mb_get_in [OF assms(1), of pos] mb_get_in [OF assms(1), of "pos + 1"] net16_in [OF assms(1), of "pos + 2"] less.prems by auto
    have "pos + (size0 - 1) < k" using less.prems False by simp
    then obtain pad where "mb_get mb (pos + (size0 - 1)) = Some pad" using mb_get_in [OF assms(1)] by blast
    then have "\<exists>r. rtcp_unpad mb pos d0 size0 = Some r" by (simp add: rtcp_unpad_def)
    then obtain r where r: "rtcp_unpad mb pos d0 size0 = Some r" "\<forall>m. r = Some m \<longrightarrow> m \<le> size0"
      using rtcp_unpad_le by blast
    have rec: "\<exists>r. rtcp_loop clk mb (pos + (4 * unat len + 4)) (m - (4 * unat len + 4)) t1 = Some r"
      if "r = Some m" "\<not> m < 4 * unat len + 4" for m t1
      using less.IH [of "m - (4 * unat len + 4)" "pos + (4 * unat len + 4)" t1] that r(2) less.prems False by auto
    have sw: "\<exists>t1. rtcp_switch clk mb pos d1 (4 * unat len + 4) t = Some t1" if "r = Some m" "\<not> m < 4 * unat len + 4" for m
      using rtcp_switch_in [OF assms(1), of pos "4 * unat len + 4" clk d1 t] that r(2) less.prems by auto
    show ?thesis
    proof (cases "drop_bit 6 d0 \<noteq> 2 \<or> r = None \<or> (\<exists>m. r = Some m \<and> m < 4 * unat len + 4)")
      case True
      then show ?thesis using d r(1) by (subst rtcp_loop.simps) (auto simp: Let_def)
    next
      case False
      then obtain m where m: "r = Some m" "\<not> m < 4 * unat len + 4" "drop_bit 6 d0 = 2" by auto
      then obtain t1 where "rtcp_switch clk mb pos d1 (4 * unat len + 4) t = Some t1" using sw by blast
      then show ?thesis using d r(1) m rec [OF m(1,2)] \<open>\<not> size0 < 8\<close> by (subst rtcp_loop.simps) (simp add: Let_def)
    qed
  qed
qed

section \<open>Packets that are accepted\<close>

definition rtp_names :: "(string \<rightharpoonup> 'a) \<Rightarrow> bool" where
  "rtp_names m \<longleftrightarrow> {''ssrc'', ''rtp-time'', ''PT'', ''M''} \<subseteq> dom m"

definition rtp_values :: "u32 \<Rightarrow> u32 \<Rightarrow> u8 \<Rightarrow> (string \<rightharpoonup> mb_value) \<Rightarrow> string \<rightharpoonup> mb_value" where
  "rtp_values ssrc rtpTime d1 f =
     f(''ssrc'' \<mapsto> Int32Value (sint ssrc), ''rtp-time'' \<mapsto> Int32Value (sint rtpTime),
       ''PT'' \<mapsto> Int32Value (uint (d1 AND 0x7f)), ''M'' \<mapsto> Int32Value (uint (drop_bit 7 d1)))"

lemma mb_rep_cong: "mItems mb' = mItems mb \<Longrightarrow> mNumItems mb' = mNumItems mb \<Longrightarrow> mb_rep m mb' f \<longleftrightarrow> mb_rep m mb f"
  by (simp add: mb_rep_def)

lemma parseRTP_accept:
  assumes "pool_rep tp m" "rtp_names m" "mb_rep m mb f" "mNumItems mb \<le> 8"
    and "rtp_payload mb = Some (Some (p, q))" "u32at mb 8 = Some ssrc" "u32at mb 4 = Some rtpTime" "mb_get mb 1 = Some d1" "u16at mb 2 = Some seq"
  shows "\<exists>mb' t'. parseRTP atomize tp mb t = Some (NO_ERROR, tp, mb', t') \<and> mRangeOffset mb' = p \<and> mRangeLength mb' = q - p \<and>
    mMem mb' = mMem mb \<and> mQuickData mb' = ucast seq \<and> mb_rep m mb' (rtp_values ssrc rtpTime d1 f) \<and>
    rcvdSourceId (mInfo t') = ssrc \<and> rcvdRTP (mInfo t') = rcvdRTP (mInfo t) + 1 \<and> \<not> firstRTP t' \<and>
    told t' = told t @ (if firstRTP t \<and> mObserver t then [(RTPMSG_FIRST_PACKET, Param rtpTime)] else [])"
proof -
  obtain a b c d where n: "m ''ssrc'' = Some a" "m ''rtp-time'' = Some b" "m ''PT'' = Some c" "m ''M'' = Some d"
    using assms(2) by (auto simp: rtp_names_def)
  have k: "kMaxNumItems = 12" by (simp add: kMaxNumItems_def)
  obtain mb1 where 1: "mb_setInt32 atomize tp mb ''ssrc'' (sint ssrc) = Some (tp, mb1)" "mb_rep m mb1 (f(''ssrc'' \<mapsto> Int32Value (sint ssrc)))"
    "mb_frame mb mb1" "mNumItems mb1 \<le> 9"
    using tok.set_known [OF assms(1) n(1) assms(3), of "Int32Value (sint ssrc)"] assms(4) k by (auto simp: mb_setInt32_def)
  obtain mb2 where 2: "mb_setInt32 atomize tp mb1 ''rtp-time'' (sint rtpTime) = Some (tp, mb2)"
    "mb_rep m mb2 (f(''ssrc'' \<mapsto> Int32Value (sint ssrc), ''rtp-time'' \<mapsto> Int32Value (sint rtpTime)))" "mb_frame mb1 mb2" "mNumItems mb2 \<le> 10"
    using tok.set_known [OF assms(1) n(2) 1(2), of "Int32Value (sint rtpTime)"] 1(4) k unfolding mb_setInt32_def by fastforce
  obtain mb3 where 3: "mb_setInt32 atomize tp mb2 ''PT'' (uint (d1 AND 0x7f)) = Some (tp, mb3)"
    "mb_rep m mb3 (f(''ssrc'' \<mapsto> Int32Value (sint ssrc), ''rtp-time'' \<mapsto> Int32Value (sint rtpTime), ''PT'' \<mapsto> Int32Value (uint (d1 AND 0x7f))))"
    "mb_frame mb2 mb3" "mNumItems mb3 \<le> 11"
    using tok.set_known [OF assms(1) n(3) 2(2), of "Int32Value (uint (d1 AND 0x7f))"] 2(4) k unfolding mb_setInt32_def by fastforce
  obtain mb4 where 4: "mb_setInt32 atomize tp mb3 ''M'' (uint (drop_bit 7 d1)) = Some (tp, mb4)"
    "mb_rep m mb4 (rtp_values ssrc rtpTime d1 f)" "mb_frame mb3 mb4"
    using tok.set_known [OF assms(1) n(4) 3(2), of "Int32Value (uint (drop_bit 7 d1))"] 3(4) k unfolding mb_setInt32_def rtp_values_def by fastforce
  have mem: "mMem mb4 = mMem mb" using 1(3) 2(3) 3(3) 4(3) by (simp add: mb_frame_def)
  let ?mb = "mb_setRange p (q - p) (mb_setQuickData (ucast seq) mb4)"
  have "mb_rep m ?mb (rtp_values ssrc rtpTime d1 f)"
    using 4(2) mb_rep_cong [of ?mb mb4] by (simp add: mb_setRange_def mb_setQuickData_def)
  moreover have "\<exists>t'. parseRTP atomize tp mb t = Some (NO_ERROR, tp, ?mb, t') \<and> rcvdSourceId (mInfo t') = ssrc \<and>
    rcvdRTP (mInfo t') = rcvdRTP (mInfo t) + 1 \<and> \<not> firstRTP t' \<and>
    told t' = told t @ (if firstRTP t \<and> mObserver t then [(RTPMSG_FIRST_PACKET, Param rtpTime)] else [])"
    using assms(5,6,7,8,9) 1(1) 2(1) 3(1) 4(1) by (simp add: parseRTP_def Let_def notify_def)
  ultimately show ?thesis using mem by (auto simp: mb_setRange_def mb_setQuickData_def)
qed

lemma put_bytes_at:
  assumes "mRangeOffset mb = 0" "mMem mb = xs @ ys @ zs" "i = length xs" "length ys = length bs"
  shows "put_bytes i bs mb = Some (mb\<lparr>mMem := xs @ bs @ zs\<rparr>)"
  using assms
proof (induction bs arbitrary: i xs ys mb)
  case (Cons b bs)
  then obtain y ys' where y: "ys = y # ys'" by (cases ys) auto
  have "mb_put i b mb = Some (mb\<lparr>mMem := (xs @ [b]) @ ys' @ zs\<rparr>)"
    using Cons.prems y by (simp add: mb_put_def list_update_append)
  moreover have "put_bytes (Suc i) bs (mb\<lparr>mMem := (xs @ [b]) @ ys' @ zs\<rparr>) = Some (mb\<lparr>mMem := (xs @ [b]) @ bs @ zs\<rparr>)"
    using Cons.IH [of "mb\<lparr>mMem := (xs @ [b]) @ ys' @ zs\<rparr>" "xs @ [b]" ys' "Suc i"] Cons.prems y by simp
  ultimately show ?case by simp
qed (simp add: append_assoc [symmetric] del: append_assoc)

lemma rtp_header_length [simp]: "length (rtp_header t rtpTime marker) = 12"
  by (simp add: rtp_header_def)

lemma u32at_at:
  assumes "mRangeOffset mb = 0" "mMem mb = xs @ bytes32 w @ ys" "i = length xs"
  shows "u32at mb i = Some w"
  using net32_at [OF assms] assms
  by (auto simp: u32at_def u16at_def net16_def net32_def be32_def numeral_3_eq_3 split: bind_splits)

lemma header_read:
  assumes "mRangeOffset mb = 0" "mMem mb = rtp_header t rtpTime marker @ rest" "mRangeLength mb = 12 + n"
  shows "rtp_payload mb = Some (Some (12, 12 + n))" "u32at mb 8 = Some (mSourceID t)" "u32at mb 4 = Some rtpTime"
    "mb_get mb 1 = Some ((if marker then 0x80 else 0) OR mPType t)" "u16at mb 2 = Some (ucast (mSeqNo t))"
proof -
  let ?d1 = "(if marker then 0x80 else 0) OR mPType t"
  have m: "mMem mb = [0x80, ?d1] @ bytes16 (ucast (mSeqNo t)) @ bytes32 rtpTime @ bytes32 (mSourceID t) @ rest"
  proof -
    have "ucast (drop_bit 8 (ucast (mSeqNo t) :: u16)) = (ucast (drop_bit 8 (mSeqNo t)) :: u8)"
      by (rule bit_word_eqI) (simp add: bit_simps)
    moreover have "ucast (ucast (mSeqNo t) :: u16) = (ucast (mSeqNo t) :: u8)" by (rule bit_word_eqI) (simp add: bit_simps)
    ultimately show ?thesis using assms(2) by (simp add: rtp_header_def bytes16_def)
  qed
  show "u16at mb 2 = Some (ucast (mSeqNo t))" using net16_at [OF assms(1), of "[0x80, ?d1]" "ucast (mSeqNo t)" "bytes32 rtpTime @ bytes32 (mSourceID t) @ rest" 2] m by (simp add: u16at_def)
  show "u32at mb 4 = Some rtpTime" using u32at_at [of mb "[0x80, ?d1] @ bytes16 (ucast (mSeqNo t))"] assms(1) m by simp
  show "u32at mb 8 = Some (mSourceID t)"
    using u32at_at [of mb "[0x80, ?d1] @ bytes16 (ucast (mSeqNo t)) @ bytes32 rtpTime"] assms(1) m by simp
  have g: "mb_get mb 0 = Some 0x80" "mb_get mb 1 = Some ?d1" using assms(1) m by (simp_all add: mb_get_def)
  then show "mb_get mb 1 = Some ?d1" by simp
  show "rtp_payload mb = Some (Some (12, 12 + n))"
    using g(1) assms(3) by (simp add: rtp_payload_def rtp_unpad_def rtp_extension_def Let_def)
qed

lemma marker_bits:
  fixes pt :: u8
  assumes "pt AND 0x80 = 0"
  shows "((if marker then 0x80 else 0) OR pt) AND 0x7f = pt" "drop_bit 7 ((if marker then 0x80 else 0) OR pt) = of_bool marker"
proof -
  have c: "(0x80 :: u8) = 2 ^ 7" "(0x7f :: u8) = mask 7" by (simp_all add: mask_eq_exp_minus_1)
  have b: "\<not> bit pt 7" using assms and_exp_eq_0_iff_not_bit [of pt 7] by simp
  have lt: "n < 7" if "bit pt n" for n
  proof -
    have "n < 8" using bit_imp_le_length [OF that] by simp
    moreover have "n \<noteq> 7" using that b by blast
    ultimately show ?thesis by linarith
  qed
  have "drop_bit 7 pt = 0" by (rule bit_word_eqI) (use lt in \<open>force simp: bit_simps\<close>)
  then show "drop_bit 7 ((if marker then 0x80 else 0) OR pt) = of_bool marker" by (cases marker) (simp_all add: drop_bit_or)
  have "pt AND 0x7f = pt" unfolding c(2) by (rule bit_word_eqI) (use lt in \<open>auto simp: bit_simps\<close>)
  then show "((if marker then 0x80 else 0) OR pt) AND 0x7f = pt" by (cases marker) (simp_all add: bit.conj_disj_distrib2)
qed

section \<open>Properties\<close>

lemma doSend_packet:
  fixes t :: rtp_transport and timeUs :: u64 and video :: bool
  assumes "mRangeOffset mb = 0" "12 \<le> mCapacity mb" "mMem mb = hdr @ payload @ tail" "length hdr = 12" "mRangeLength mb = 12 + length payload"
  defines "rtpTime \<equiv> (if video then mRTPTimeBase t + ucast (timeUs * 90) else ucast timeUs)"
  shows "\<exists>mb' t'. doSend clk n mb timeUs video marker t = Some (NO_ERROR, mb', t') \<and>
    sent t' = sent t @ [(rtp_header t rtpTime marker @ payload, mRTPAddr t)] \<and> mSeqNo t' = mSeqNo t + 1 \<and>
    nRTPSent (mInfo t') = nRTPSent (mInfo t) + 1 \<and> nRTPOctetsSent (mInfo t') = nRTPOctetsSent (mInfo t) + word_of_nat (length payload)"
proof -
  have p: "put_bytes 0 (rtp_header t rtpTime marker) mb = Some (mb\<lparr>mMem := rtp_header t rtpTime marker @ payload @ tail\<rparr>)"
    using put_bytes_at [of mb "[]" hdr "payload @ tail" 0 "rtp_header t rtpTime marker"] assms by simp
  have "(word_of_nat (12 + length payload) :: u32) - 12 = word_of_nat (length payload)" by simp
  then show ?thesis using p assms(1,2,5)
    by (auto simp: doSend_def Let_def udp_deliver_def rtpTime_def split: prod.split)
qed

lemma receive_packet:
  assumes "malloc MaxCapacity = Some mem" "length mem = MaxCapacity" "packet \<noteq> []" "length packet \<le> MaxCapacity"
    and "\<not> (mStunRequested (rtpUdp r) \<and> \<not> mStunResponsed (rtpUdp r))"
  shows "\<exists>r'. RTPTransport_receive atom s malloc junk (RecvBytes packet peer) r =
      parseRTP atom s ((MetaBuffer_own mem junk MaxCapacity)\<lparr>mMem := packet @ drop (length packet) mem, mRangeLength := length packet\<rparr>) r' \<and>
    firstRTP r' = firstRTP r \<and> mObserver r' = mObserver r \<and> told r' = told r \<and> mInfo r' = mInfo r"
  using assms by (auto simp: RTPTransport_receive_def MetaBuffer_create_def udp_receive_def MetaBuffer_own_def mb_setRange_def Let_def)

text \<open>
  C14.  RTP round trip.  A payload sent by \<open>doSend\<close> and received by another transport arrives unchanged,
  annotated with the sender's source id, time stamp, payload type and marker and with the sequence number
  as quick data; the sender's sequence number and packet count advance by one.  The payload type must
  have seven bits and the packet must fit the receive buffer.
\<close>

theorem rtp_round_trip:
  assumes "mRangeOffset mb = 0" "12 \<le> mCapacity mb" "mMem mb = hdr @ payload @ tail" "length hdr = 12" "mRangeLength mb = 12 + length payload"
    and "mPType t AND 0x80 = 0"
    and "length payload \<le> 1652" "malloc MaxCapacity = Some mem" "length mem = MaxCapacity" "length junk = kMaxNumItems"
    and "\<not> (mStunRequested (rtpUdp r) \<and> \<not> mStunResponsed (rtpUdp r))" "pool_rep tp m" "rtp_names m"
  shows "\<exists>mb1 t1 packet. doSend clk n mb timeUs video marker t = Some (NO_ERROR, mb1, t1) \<and> sent t1 = sent t @ [(packet, mRTPAddr t)] \<and>
    mSeqNo t1 = mSeqNo t + 1 \<and> nRTPSent (mInfo t1) = nRTPSent (mInfo t) + 1 \<and>
    (\<exists>mb2 r2. RTPTransport_receive atomize tp malloc junk (RecvBytes packet peer) r = Some (NO_ERROR, tp, mb2, r2) \<and>
       take (mRangeLength mb2) (drop (mRangeOffset mb2) (mMem mb2)) = payload \<and> mQuickData mb2 = ucast (ucast (mSeqNo t) :: u16) \<and>
       mb_findInt32 atomize tp mb2 ''ssrc'' = Some (Some (sint (mSourceID t)), tp) \<and>
       mb_findInt32 atomize tp mb2 ''rtp-time'' = Some (Some (sint (if video then mRTPTimeBase t + ucast (timeUs * 90) else ucast timeUs)), tp) \<and>
       mb_findInt32 atomize tp mb2 ''PT'' = Some (Some (uint (mPType t)), tp) \<and>
       mb_findInt32 atomize tp mb2 ''M'' = Some (Some (of_bool marker), tp))"
proof -
  define rtpTime where "rtpTime = (if video then mRTPTimeBase t + ucast (timeUs * 90) else ucast timeUs)"
  let ?pkt = "rtp_header t rtpTime marker @ payload"
  have cap: "length ?pkt \<le> MaxCapacity" "?pkt \<noteq> []" using assms(7) rtp_header_length [of t rtpTime marker] by (auto simp: MaxCapacity_def simp del: rtp_header_length)
  let ?mb = "(MetaBuffer_own mem junk MaxCapacity)\<lparr>mMem := ?pkt @ drop (length ?pkt) mem, mRangeLength := length ?pkt\<rparr>"
  obtain r' where r': "RTPTransport_receive atomize tp malloc junk (RecvBytes ?pkt peer) r = parseRTP atomize tp ?mb r'"
    using receive_packet [where malloc = malloc and mem = mem and packet = ?pkt and r = r and atom = atomize and s = tp and junk = junk and peer = peer, OF assms(8,9) cap(2,1) assms(11)] by blast
  have b: "mRangeOffset ?mb = 0" "mMem ?mb = rtp_header t rtpTime marker @ (payload @ drop (length ?pkt) mem)" "mRangeLength ?mb = 12 + length payload"
    by (simp_all add: MetaBuffer_own_def)
  note h = header_read [OF b]
  have rep: "mb_rep m ?mb Map.empty" "mNumItems ?mb \<le> 8"
    using mb_rep_empty [of ?mb m] assms(10) by (simp_all add: MetaBuffer_own_def)
  obtain mb2 r2 where 2: "parseRTP atomize tp ?mb r' = Some (NO_ERROR, tp, mb2, r2)" "mRangeOffset mb2 = 12" "mRangeLength mb2 = 12 + length payload - 12"
    "mMem mb2 = mMem ?mb" "mQuickData mb2 = ucast (ucast (mSeqNo t) :: u16)"
    "mb_rep m mb2 (rtp_values (mSourceID t) rtpTime ((if marker then 0x80 else 0) OR mPType t) Map.empty)"
    using parseRTP_accept [OF assms(12,13) rep h, of r'] by blast
  obtain a1 a2 a3 a4 where n: "m ''ssrc'' = Some a1" "m ''rtp-time'' = Some a2" "m ''PT'' = Some a3" "m ''M'' = Some a4"
    using assms(13) by (auto simp: rtp_names_def)
  note find = n [THEN tok.find_known [OF assms(12) _ 2(6), of _ _ kTypeInt32]]
  have "mb_findInt32 atomize tp mb2 ''ssrc'' = Some (Some (sint (mSourceID t)), tp)"
    "mb_findInt32 atomize tp mb2 ''rtp-time'' = Some (Some (sint rtpTime), tp)"
    "mb_findInt32 atomize tp mb2 ''PT'' = Some (Some (uint (mPType t)), tp)"
    "mb_findInt32 atomize tp mb2 ''M'' = Some (Some (of_bool marker), tp)"
    using find marker_bits [OF assms(6), of marker]
    by (simp_all add: mb_findInt32_def basic_find_def rtp_values_def)
  moreover have "take (mRangeLength mb2) (drop (mRangeOffset mb2) (mMem mb2)) = payload" using 2(2,3,4) b(2) by simp
  ultimately have rcv: "\<exists>mb2 r2. RTPTransport_receive atomize tp malloc junk (RecvBytes ?pkt peer) r = Some (NO_ERROR, tp, mb2, r2) \<and>
       take (mRangeLength mb2) (drop (mRangeOffset mb2) (mMem mb2)) = payload \<and> mQuickData mb2 = ucast (ucast (mSeqNo t) :: u16) \<and>
       mb_findInt32 atomize tp mb2 ''ssrc'' = Some (Some (sint (mSourceID t)), tp) \<and>
       mb_findInt32 atomize tp mb2 ''rtp-time'' = Some (Some (sint rtpTime), tp) \<and>
       mb_findInt32 atomize tp mb2 ''PT'' = Some (Some (uint (mPType t)), tp) \<and>
       mb_findInt32 atomize tp mb2 ''M'' = Some (Some (of_bool marker), tp)"
    using r' 2(1,5) by metis
  show ?thesis
    using doSend_packet [OF assms(1-5), of clk n timeUs video marker t] rcv unfolding rtpTime_def by blast
qed

text \<open>
  C23.  The parsers read inside the packet.  For a buffer whose range lies in its memory, whatever its bytes
  are, \<open>parseRTP\<close> either rejects the packet or finds a payload behind the fixed header and inside the
  range, and \<open>parseRTCP\<close> comes to an end without a read outside the range.
\<close>

theorem rtp_parsers_in_bounds:
  assumes "mRangeOffset mb + mRangeLength mb \<le> length (mMem mb)"
  shows "(\<exists>r. rtp_payload mb = Some r \<and> (\<forall>p q. r = Some (p, q) \<longrightarrow> 12 \<le> p \<and> p \<le> q \<and> q \<le> mRangeLength mb)) \<and>
    (\<exists>err t'. parseRTCP clk mb t = Some (err, t'))"
proof -
  obtain r where "rtp_payload mb = Some r" "\<forall>p q. r = Some (p, q) \<longrightarrow> 12 \<le> p \<and> p \<le> q \<and> q \<le> mRangeLength mb"
    using rtp_payload_in [of mb] assms by (auto simp: in_memory_def)
  moreover have "\<exists>x. parseRTCP clk mb t = Some x"
    unfolding parseRTCP_def Let_def by (rule rtcp_loop_in [OF assms]) simp
  ultimately show ?thesis by auto
qed

theorem rtp_parsers_in_bounds_witness:
  "\<exists>r. rtp_payload (buffer_of [0xB1, 0, 0, 1, 0, 0, 0, 0, 0, 0, 0, 7, 200]) = Some r"
proof -
  have "mRangeOffset (buffer_of [0xB1, 0, 0, 1, 0, 0, 0, 0, 0, 0, 0, 7, 200]) + mRangeLength (buffer_of [0xB1, 0, 0, 1, 0, 0, 0, 0, 0, 0, 0, 7, 200])
    \<le> length (mMem (buffer_of [0xB1, 0, 0, 1, 0, 0, 0, 0, 0, 0, 0, 7, 200]))" by (simp add: buffer_of_def MetaBuffer_wrap_def)
  from rtp_parsers_in_bounds [OF this] show ?thesis by blast
qed

definition demo_names :: "(string \<times> nat) list" where
  "demo_names = [(''M'', 0), (''PT'', 2), (''ssrc'', 5), (''rtp-time'', 10)]"

definition demo_pool :: token_pool where
  "demo_pool = \<lparr>mRows = map (\<lambda>i. map (\<lambda>(n, p). Some p) (filter (\<lambda>(n, p). row_of n = i) demo_names)) [0..<128],
     tokenBuffer = (\<lambda>k. (''M'' @ [CHR 0x00] @ ''PT'' @ [CHR 0x00] @ ''ssrc'' @ [CHR 0x00] @ ''rtp-time'' @ [CHR 0x00]) ! k),
     bufferPtr = 19\<rparr>"

lemma demo_pool_rep: "pool_rep demo_pool (map_of demo_names)" "rtp_names (map_of demo_names)"
proof -
  have "pool_list demo_pool demo_names"
    unfolding pool_list_def demo_pool_def
    by (simp add: CONST_TOKENPOOL_ROWS_def CONST_TOKENPOOL_SIZE_def) (simp add: demo_names_def name_ok_def)
  then show "pool_rep demo_pool (map_of demo_names)" unfolding pool_rep_def by blast
  show "rtp_names (map_of demo_names)" by (simp add: rtp_names_def demo_names_def)
qed

definition demo_rtp :: rtp_transport where
  "demo_rtp = \<lparr>rtpUdp = demo_udp\<lparr>mStunRequested := False\<rparr>, mRTCP = Some (demo_udp\<lparr>mStunRequested := False\<rparr>), useRTCP = True, symmRTP = False,
     firstRTP = True, mObserver = True, mEventId = 1, mRTPAddr = addr_zero, mRTCPAddr = addr_zero, mHostAddr = addr_zero, mInfo = info_zero,
     mSourceID = 0xDEADBEEF, mSeqNo = 65535, mRTPTimeBase = 0, mLastRTPTime = 1000, mLastNTPSec = 5, mLastNTPUSec = 6, mPType = 96, told = [], sent = []\<rparr>"

definition demo_clock :: rtp_clock where
  "demo_clock = \<lparr>fraction = (\<lambda>u. u), shl32 = (\<lambda>_. 0), tod = \<lparr>tv_sec = 0, tv_usec = 0\<rparr>\<rparr>"

theorem rtp_round_trip_witness:
  "\<exists>mb1 t1 packet mb2 r2. doSend demo_clock 15 (buffer_of (replicate 12 0 @ [1, 2, 3])) 40 True True demo_rtp = Some (NO_ERROR, mb1, t1) \<and>
     sent t1 = [(packet, addr_zero)] \<and>
     RTPTransport_receive atomize demo_pool (\<lambda>n. Some (replicate n 0)) demo_junk (RecvBytes packet addr_zero) demo_rtp =
       Some (NO_ERROR, demo_pool, mb2, r2) \<and>
     take (mRangeLength mb2) (drop (mRangeOffset mb2) (mMem mb2)) = [1, 2, 3] \<and> mQuickData mb2 = 65535"
proof -
  let ?mb = "buffer_of (replicate 12 0 @ [1, 2, 3])"
  have h: "mRangeOffset ?mb = 0" "12 \<le> mCapacity ?mb" "mMem ?mb = replicate 12 0 @ [1, 2, 3] @ []" "length (replicate 12 (0 :: u8)) = 12"
    "mRangeLength ?mb = 12 + length [1, 2, 3 :: u8]" "mPType demo_rtp AND 0x80 = 0" "length [1, 2, 3 :: u8] \<le> 1652"
    "Some (replicate MaxCapacity 0) = Some (replicate MaxCapacity (0 :: u8))" "length (replicate MaxCapacity (0 :: u8)) = MaxCapacity"
    "length demo_junk = kMaxNumItems" "\<not> (mStunRequested (rtpUdp demo_rtp) \<and> \<not> mStunResponsed (rtpUdp demo_rtp))"
    by (simp_all add: buffer_of_def MetaBuffer_wrap_def demo_rtp_def demo_junk_def kMaxNumItems_def)
  show ?thesis
    using rtp_round_trip [where malloc = "\<lambda>n. Some (replicate n 0)" and r = demo_rtp and peer = addr_zero and timeUs = 40 and video = True
        and marker = True and clk = demo_clock and n = 15, OF h demo_pool_rep]
    by (auto simp: demo_rtp_def)
qed

lemma u64at_at:
  assumes "mRangeOffset mb = 0" "mMem mb = xs @ bytes32 h @ bytes32 l @ ys" "i = length xs"
  shows "u64at mb i = Some (push_bit 32 (ucast h) OR ucast l)"
  using u32at_at [OF assms(1), of xs h "bytes32 l @ ys" i] u32at_at [OF assms(1), of "xs @ bytes32 h" l ys "i + 4"] assms
  by (simp add: u64at_def)

lemma report_lengths [simp]:
  "length (sr_packet t i delay) = 52" "length stack = 16 \<Longrightarrow> length (sdes_packet t host stack) = 28"
  by (auto simp: sr_packet_def sdes_packet_def sdes_text_def min_def)

lemma sr_parsed:
  assumes "mRangeOffset mb = 0" "mMem mb = sr_packet t i delay @ rest"
  shows "\<exists>r'. rtcp_switch clk mb 0 200 52 r = Some r' \<and> told r' = told r @ (if mObserver r
      then [(RTCPMSG_TIME_UPDATE, TimeInfo (push_bit 32 (ucast (mLastNTPSec t)) OR ucast (mLastNTPUSec t)) (mLastRTPTime t))] else [])"
proof -
  let ?h = "[0x81, 200, 0, 12 :: u8]"
  obtain x where m: "mMem mb = ?h @ bytes32 (mSourceID t) @ bytes32 (mLastNTPSec t) @ bytes32 (mLastNTPUSec t) @ bytes32 (mLastRTPTime t) @ x"
    using assms(2) by (auto simp: sr_packet_def)
  have "mb_get mb 0 = Some 0x81" using assms(1) m by (simp add: mb_get_def)
  moreover have "u32at mb 4 = Some (mSourceID t)" using u32at_at [OF assms(1), of ?h "mSourceID t" _ 4] m by simp
  moreover have "u64at mb 8 = Some (push_bit 32 (ucast (mLastNTPSec t)) OR ucast (mLastNTPUSec t))"
    using u64at_at [OF assms(1), of "?h @ bytes32 (mSourceID t)" "mLastNTPSec t" "mLastNTPUSec t" _ 8] m by simp
  moreover have "u32at mb 16 = Some (mLastRTPTime t)"
    using u32at_at [OF assms(1), of "?h @ bytes32 (mSourceID t) @ bytes32 (mLastNTPSec t) @ bytes32 (mLastNTPUSec t)" "mLastRTPTime t" _ 16] m by simp
  ultimately show ?thesis by (simp add: rtcp_switch_def parseSR_def Let_def notify_def)
qed

text \<open>
  RTCP round trip.  The report that \<open>handleTimeout\<close> sends has eighty bytes and is accepted by
  \<open>parseRTCP\<close>: the observer of the receiver is told the sender's last NTP and RTP times (after the
  message about the first packet, if it was the first).  The counter of lost packets starts again and the
  next timeout is scheduled.
\<close>

theorem rtcp_report_round_trip:
  assumes "mRTCP t = Some u" "length stack = 16" "mObserver r"
  shows "\<exists>t' packet. RTPTransport_handleTimeout clk host stack n event t = Some (0, t') \<and> sent t' = sent t @ [(packet, mRTCPAddr t)] \<and>
    length packet = 80 \<and> nRcvdLost (mInfo t') = 0 \<and> mEventId t' = event \<and>
    (\<exists>r'. parseRTCP clk' (buffer_of packet) r = Some (NO_ERROR, r') \<and>
      told r' = told r @ (if rcvdRTCP (mInfo r) = 0 then [(RTCPMSG_FIRST_PACKET, Param 0)] else []) @
        [(RTCPMSG_TIME_UPDATE, TimeInfo (push_bit 32 (ucast (mLastNTPSec t)) OR ucast (mLastNTPUSec t)) (mLastRTPTime t))])"
proof -
  define delay where "delay = minusNTPDelay (shl32 clk) (fraction clk) (tod clk) (lastSR (mInfo t))"
  define i where "i = clamp_lost (mInfo t)"
  define pkt where "pkt = sr_packet t i delay @ sdes_packet t host stack"
  have len: "length pkt = 80" using assms(2) by (simp add: pkt_def)
  have send: "RTPTransport_handleTimeout clk host stack n event t =
      Some (0, t\<lparr>mInfo := i\<lparr>nRcvdLost := 0\<rparr>, sent := sent t @ [(pkt, mRTCPAddr t)], mEventId := event\<rparr>)"
    using assms(1) len by (simp add: RTPTransport_handleTimeout_def Let_def delay_def i_def pkt_def)
  let ?mb = "buffer_of pkt"
  have mb: "mRangeOffset ?mb = 0" "mMem ?mb = pkt" "mRangeLength ?mb = 80" by (simp_all add: buffer_of_def MetaBuffer_wrap_def len)
  define r0 where "r0 = (if rcvdRTCP (mInfo r) = 0
      then notify RTCPMSG_FIRST_PACKET (Param 0) (r\<lparr>mInfo := (mInfo r)\<lparr>rcvdRTCP := rcvdRTCP (mInfo r) + 1\<rparr>\<rparr>)
      else r\<lparr>mInfo := (mInfo r)\<lparr>rcvdRTCP := rcvdRTCP (mInfo r) + 1\<rparr>\<rparr>)"
  have r0: "mObserver r0" "told r0 = told r @ (if rcvdRTCP (mInfo r) = 0 then [(RTCPMSG_FIRST_PACKET, Param 0)] else [])"
    using assms(3) by (simp_all add: r0_def notify_def)
  obtain r1 where r1: "rtcp_switch clk' ?mb 0 200 52 r0 = Some r1" "told r1 = told r0 @
      [(RTCPMSG_TIME_UPDATE, TimeInfo (push_bit 32 (ucast (mLastNTPSec t)) OR ucast (mLastNTPUSec t)) (mLastRTPTime t))]"
    using sr_parsed [OF mb(1) trans [OF mb(2) pkt_def], of clk' r0] r0(1) by auto
  have b: "mb_get ?mb 0 = Some 0x81" "mb_get ?mb 1 = Some 200" "net16 ?mb 2 = Some 12"
    using mb(1,2) by (simp_all add: mb_get_def net16_def pkt_def sr_packet_def be16_def)
  have c: "mb_get ?mb 52 = Some 0x81" "mb_get ?mb 53 = Some 202" "net16 ?mb 54 = Some 6"
    using mb(1,2) assms(2) by (simp_all add: mb_get_def net16_def pkt_def nth_append be16_def) (simp_all add: sdes_packet_def be16_def)
  have "rtcp_loop clk' ?mb 52 28 r1 = Some (NO_ERROR, r1)"
    using c by (simp add: rtcp_loop.simps [of _ _ 52] rtcp_loop.simps [of _ _ _ 0] rtcp_unpad_def rtcp_switch_def Let_def)
  then have "rtcp_loop clk' ?mb 0 80 r0 = Some (NO_ERROR, r1)"
    using b(1,2) b(3) [unfolded numeral_2_eq_2] r1(1) by (simp add: rtcp_loop.simps [of _ _ 0 80] rtcp_unpad_def Let_def)
  then have "parseRTCP clk' ?mb r = Some (NO_ERROR, r1)" using mb(3) by (simp add: parseRTCP_def Let_def r0_def)
  then show ?thesis using send len r1(2) r0(2) by simp
qed

theorem rtcp_report_round_trip_witness:
  "\<exists>t' packet. RTPTransport_handleTimeout demo_clock [0x31] (replicate 16 0) 80 9 demo_rtp = Some (0, t') \<and> sent t' = [(packet, addr_zero)] \<and>
     (\<exists>r'. parseRTCP demo_clock (buffer_of packet) demo_rtp = Some (NO_ERROR, r') \<and>
       told r' = [(RTCPMSG_FIRST_PACKET, Param 0), (RTCPMSG_TIME_UPDATE, TimeInfo 0x0000000500000006 1000)])"
  using rtcp_report_round_trip [of demo_rtp _ "replicate 16 0" demo_rtp demo_clock "[0x31]" 80 9 demo_clock]
  by (auto simp: demo_rtp_def info_zero_def)

section \<open>Errors that go unnoticed\<close>

text \<open>
  \<open>receive\<close> ignores the failure of the socket: the uninitialised memory of the new buffer is parsed as
  if the peer had sent it.
\<close>

lemma receive_error_parsed:
  assumes "malloc MaxCapacity = Some mem" "length mem = MaxCapacity"
    and "\<not> (mStunRequested (rtpUdp r) \<and> \<not> mStunResponsed (rtpUdp r))" "\<not> symmRTP r"
  shows "RTPTransport_receive atom s malloc junk RecvError r = parseRTP atom s (MetaBuffer_own mem junk MaxCapacity) r"
    and "RTPTransport_receive atom s malloc junk (RecvBytes mem peer) r =
      parseRTP atom s (MetaBuffer_own mem junk MaxCapacity) (r\<lparr>rtpUdp := (rtpUdp r)\<lparr>mPeerAddr := peer\<rparr>\<rparr>)"
  using assms by (auto simp: RTPTransport_receive_def MetaBuffer_create_def udp_receive_def MetaBuffer_own_def mb_setRange_def
      MaxCapacity_def Let_def)

text \<open>
  When the RTCP timer cannot be scheduled, \<open>init\<close> leaves with the success of the step before: the
  transport is created without its RTP socket.
\<close>

lemma create_without_socket:
  assumes "udp_init (fst rtcpRes) (snd rtcpRes) (Transport_new fresh) = (NO_ERROR, u)"
  shows "\<exists>t. RTPTransport_create junk fresh rtcpRes (- 1) rtpRes obs True = Some t \<and> mSocket (rtpUdp t) = - 1"
  using assms by (auto simp: RTPTransport_create_def RTPTransport_init_def RTPTransport_new_def setObserver_def Let_def Transport_new_def)

text \<open>The mask of \<open>parseBYE\<close> takes the padding bit for a source count of 32 more: a padded BYE of one source is ignored.\<close>

lemma padded_bye_ignored:
  assumes "mb_get mb pos = Some 0xA1" "len < 136"
  shows "parseBYE mb pos len t = Some (- 1, t)"
  using assms by (simp add: parseBYE_def Let_def)

end
