(* ===== verification/Socket_Sender.thy ===== *)
theory Socket_Sender
  imports Socket_Holder Rtp_Transport
begin

text \<open>
  \<open>libnet/Sender.cpp\<close>: the class \<open>SocketSender\<close>, the thread that paces the outgoing RTP packets, and
  \<open>RTPTransport::deliver\<close>, which feeds it.  Buffers are shared objects: the queues hold pointers into the
  store \<open>bufs\<close>, and a packet's socket, time stamp, kind and marker are kept as named values in the
  buffer itself.  The reference counts of the buffers are not part of the model, those of the transports
  are, because the sender gets its transports from the registry of \<open>Socket_Holder\<close>.

  The code outside: the clock, the results of \<open>sendto\<close>, the destructor of a transport, and where the
  compiler puts the local variables of \<open>threadLoop\<close>.  \<open>findInt32\<close> stores four bytes through the
  pointers to the one-byte variables \<open>video\<close> and \<open>marker\<close>; what the other three do to the variables behind
  is \<open>spill_video\<close> and \<open>spill_marker\<close>.  No property assumes anything about the two: what is shown of the
  thread holds for every layout of its variables.
\<close>

section \<open>Model\<close>

record snd_locals = \<comment> \<open>the variables of \<open>threadLoop\<close>\<close>
  l_fd :: int
  l_video :: bool
  l_marker :: bool
  l_ts :: u64
  l_inst :: nat \<comment> \<open>what \<open>_inst\<close> refers to\<close>

record snd_env =
  clock :: rtp_clock
  sendto :: "nat \<Rightarrow> int" \<comment> \<open>the result of \<open>sendto\<close> for a buffer\<close>
  no_data :: "nat \<Rightarrow> bool" \<comment> \<open>\<open>buffer->data() == NULL\<close>\<close>
  locked_dtor :: dtor
  spill_video :: "int \<Rightarrow> snd_locals \<Rightarrow> snd_locals"
  spill_marker :: "int \<Rightarrow> snd_locals \<Rightarrow> snd_locals"

record sender =
  mBuffers :: "nat list"
  mPending :: "nat list"
  bufs :: "nat \<Rightarrow> nat meta_buffer"
  names :: token_pool
  holder :: SocketHolder
  trans :: transports
  rtps :: "nat \<rightharpoonup> rtp_transport" \<comment> \<open>the transports that are \<open>RTPTransport\<close>s\<close>
  handled :: "(nat \<times> bool) list" \<comment> \<open>the buffers taken off the queue so far, and whether they were sent\<close>


text \<open>Setting and reading a named value of a buffer in the store.\<close>

definition set_value :: "nat \<Rightarrow> string \<Rightarrow> mb_value \<Rightarrow> sender \<Rightarrow> sender outcome" where
  "set_value b n v st =
     (case basic_set atomize v (names st) (bufs st b) n of
        None \<Rightarrow> Fault
      | Some (tp, mb) \<Rightarrow> Ret (st\<lparr>names := tp, bufs := (bufs st)(b := mb)\<rparr>))"

definition get_int32 :: "nat \<Rightarrow> string \<Rightarrow> sender \<Rightarrow> (int option \<times> sender) outcome" where
  "get_int32 b n st =
     (case mb_findInt32 atomize (names st) (bufs st b) n of None \<Rightarrow> Fault | Some (v, tp) \<Rightarrow> Ret (v, st\<lparr>names := tp\<rparr>))"

definition get_int64 :: "nat \<Rightarrow> string \<Rightarrow> sender \<Rightarrow> (int option \<times> sender) outcome" where
  "get_int64 b n st =
     (case mb_findInt64 atomize (names st) (bufs st b) n of None \<Rightarrow> Fault | Some (v, tp) \<Rightarrow> Ret (v, st\<lparr>names := tp\<rparr>))"

definition sender_deliver :: "snd_env \<Rightarrow> nat \<Rightarrow> u64 \<Rightarrow> bool \<Rightarrow> bool \<Rightarrow> sender \<Rightarrow> (int \<times> sender) outcome" where
  \<comment> \<open>\<open>SocketSender::deliver\<close>; pointer 0 is null\<close>
  "sender_deliver e b timeUs video marker st =
     (if b = 0 then Ret (BAD_VALUE, st)
      else if no_data e b then Ret (BAD_VALUE, st)
      else obind (get_int32 b ''fd'' st) (\<lambda>(fd, st1).
        if fd = None then Ret (BAD_VALUE, st1)
        else
          obind (set_value b ''ts'' (Int64Value (sint timeUs)) st1) (\<lambda>st2.
          obind (set_value b ''video'' (Int32Value (if video then 1 else 0)) st2) (\<lambda>st3.
          obind (set_value b ''marker'' (Int32Value (if marker then 1 else 0)) st3) (\<lambda>st4.
          Ret (NO_ERROR, st4\<lparr>mBuffers := mBuffers st4 @ [b]\<rparr>))))))"

definition RTPTransport_deliver ::
  "snd_env \<Rightarrow> nat \<Rightarrow> nat \<Rightarrow> u64 \<Rightarrow> bool \<Rightarrow> bool \<Rightarrow> sender \<Rightarrow> (int \<times> sender) outcome" where
  \<comment> \<open>called on the transport \<open>self\<close>; the sender exists\<close>
  "RTPTransport_deliver e self b timeUs video marker st =
     (case rtps st self of
        None \<Rightarrow> Fault
      | Some t \<Rightarrow>
          if mSocket (rtpUdp t) = - 1 then Ret (BAD_VALUE, st)
          else if b = 0 then Fault
          else obind (set_value b ''fd'' (Int32Value (mSocket (rtpUdp t))) st) (\<lambda>st1.
               sender_deliver e b timeUs video marker st1))"

fun move_all :: "nat list \<Rightarrow> nat list \<Rightarrow> nat list" where
  \<comment> \<open>the loop that moves the first buffer to the end of \<open>mPending\<close> until there is none\<close>
  "move_all pending [] = pending"
| "move_all pending (b # bs) = move_all (pending @ [b]) bs"

definition take_buffers :: "sender \<Rightarrow> sender" where
  \<comment> \<open>\<open>threadLoop\<close> after the wait, until the lock is released\<close>
  "take_buffers st =
     (if mPending st = [] then st\<lparr>mPending := mBuffers st, mBuffers := []\<rparr>
      else st\<lparr>mPending := move_all (mPending st) (mBuffers st), mBuffers := []\<rparr>)"






definition sender_init :: "int option \<Rightarrow> int \<times> int option" where
  \<comment> \<open>\<open>init\<close>: what \<open>AddPeriodSignal\<close> of the poller returns (\<open>None\<close>: no poller); the status and the new \<open>mToken\<close>\<close>
  "sender_init poller =
     (case poller of
        None \<Rightarrow> (UNKNOWN_ERROR, None)
      | Some token \<Rightarrow> (if token = - 1 then UNKNOWN_ERROR else NO_ERROR, Some token))"

definition sender_destroy :: "int \<Rightarrow> int option" where
  \<comment> \<open>the destructor: the event it discards\<close>
  "sender_destroy token = (if token \<noteq> - 1 then Some token else None)"

text \<open>
  \<open>dumpInfo\<close> prints a rule, the lengths of the queues and a rule.  Without a stream it prints into a
  buffer of its own whose last character it overwrites with the terminating zero.
\<close>

definition sender_dumpInfo ::
  "u8 list \<Rightarrow> (nat \<Rightarrow> nat \<Rightarrow> u8 list) \<Rightarrow> u8 list \<Rightarrow> sender \<Rightarrow> ioStream option \<Rightarrow> (ioStream \<times> u8 list option) option" where
  \<comment> \<open>\<open>rule\<close> and \<open>fmt\<close> are the formatted texts, \<open>junk\<close> the local buffer; the last component is what \<open>shell_print\<close> gets\<close>
  "sender_dumpInfo rule fmt junk st stream =
     (let own = snd (ioStreamRewind \<lparr>buffer = junk, ssize = of_nat (length junk), cursor = 0, remain = 0\<rparr>);
          plogs = (case stream of None \<Rightarrow> own | Some s \<Rightarrow> s)
      in ioStreamPrint plogs (Some rule) \<bind> (\<lambda>(_, s1).
         ioStreamPrint s1 (Some (fmt (length (mBuffers st)) (length (mPending st)))) \<bind> (\<lambda>(_, s2).
         ioStreamPrint s2 (Some rule) \<bind> (\<lambda>(_, s3).
         if stream = None then
           (let s4 = snd (ioStreamSeek s3 (- 1) SEEK_CUR)
            in map_option (\<lambda>(_, s5). (s5, Some (buffer s5))) (ioStreamPutc 0 s4))
         else Some (s3, None)))))"

section \<open>The order of the packets\<close>

lemma move_all_append [simp]: "move_all xs ys = xs @ ys"
  by (induction ys arbitrary: xs) auto

lemma take_buffers_queues [simp]:
  "mPending (take_buffers st) = mPending st @ mBuffers st" "mBuffers (take_buffers st) = []"
  "handled (take_buffers st) = handled st" "names (take_buffers st) = names st" "bufs (take_buffers st) = bufs st"
  "holder (take_buffers st) = holder st" "trans (take_buffers st) = trans st" "rtps (take_buffers st) = rtps st"
  by (simp_all add: take_buffers_def)













section \<open>Properties\<close>


lemma set_value_known:
  assumes "pool_rep (names st) m" "m n = Some p" "mb_rep m (bufs st b) f" "mNumItems (bufs st b) < kMaxNumItems"
  shows "\<exists>mb. set_value b n v st = Ret (st\<lparr>bufs := (bufs st)(b := mb)\<rparr>) \<and> mb_rep m mb (f(n \<mapsto> v)) \<and>
    mb_frame (bufs st b) mb \<and> mNumItems mb \<le> Suc (mNumItems (bufs st b))"
  using tok.set_known [OF assms, of v] by (auto simp: set_value_def)

lemma set_value_next:
  assumes "pool_rep (names st) m" "m n = Some p" "mb_rep m mb f" "mNumItems mb < kMaxNumItems"
  shows "\<exists>mb'. set_value b n v (st\<lparr>bufs := (bufs st)(b := mb)\<rparr>) = Ret (st\<lparr>bufs := (bufs st)(b := mb')\<rparr>) \<and>
    mb_rep m mb' (f(n \<mapsto> v)) \<and> mb_frame mb mb' \<and> mNumItems mb' \<le> Suc (mNumItems mb)"
  using set_value_known [of "st\<lparr>bufs := (bufs st)(b := mb)\<rparr>" m n p b f v] assms by simp

lemma get_known:
  assumes "pool_rep (names st) m" "m n = Some p" "mb_rep m (bufs st b) f"
  shows "f n = Some (Int32Value v) \<Longrightarrow> get_int32 b n st = Ret (Some v, st)"
    "f n = Some (Int64Value v) \<Longrightarrow> get_int64 b n st = Ret (Some v, st)"
  using tok.find_known [OF assms, of kTypeInt32] tok.find_known [OF assms, of kTypeInt64]
  by (simp_all add: get_int32_def get_int64_def mb_findInt32_def mb_findInt64_def basic_find_def)

definition snd_names :: "(string \<rightharpoonup> nat) \<Rightarrow> bool" where
  "snd_names m \<longleftrightarrow> {''fd'', ''ts'', ''video'', ''marker''} \<subseteq> dom m"

definition snd_values :: "int \<Rightarrow> u64 \<Rightarrow> bool \<Rightarrow> bool \<Rightarrow> (string \<rightharpoonup> mb_value) \<Rightarrow> string \<rightharpoonup> mb_value" where
  \<comment> \<open>what \<open>RTPTransport::deliver\<close> leaves in the buffer\<close>
  "snd_values fd timeUs video marker f =
     f(''fd'' \<mapsto> Int32Value fd, ''ts'' \<mapsto> Int64Value (sint timeUs), ''video'' \<mapsto> Int32Value (if video then 1 else 0),
       ''marker'' \<mapsto> Int32Value (if marker then 1 else 0))"

lemma mb_frame_trans: "mb_frame a b \<Longrightarrow> mb_frame b c \<Longrightarrow> mb_frame a c"
  by (simp add: mb_frame_def)

lemma RTPTransport_deliver_ok:
  assumes "rtps st self = Some t" "mSocket (rtpUdp t) \<noteq> - 1" "b \<noteq> 0" "\<not> no_data e b"
    "pool_rep (names st) m" "snd_names m" "mb_rep m (bufs st b) f" "mNumItems (bufs st b) \<le> 8"
  shows "\<exists>mb. RTPTransport_deliver e self b timeUs video marker st =
      Ret (NO_ERROR, st\<lparr>bufs := (bufs st)(b := mb), mBuffers := mBuffers st @ [b]\<rparr>) \<and>
    mb_rep m mb (snd_values (mSocket (rtpUdp t)) timeUs video marker f) \<and> mb_frame (bufs st b) mb \<and>
    mNumItems mb \<le> mNumItems (bufs st b) + 4"
proof -
  let ?fd = "mSocket (rtpUdp t)" and ?k = "mNumItems (bufs st b)"
  obtain p q r s where n: "m ''fd'' = Some p" "m ''ts'' = Some q" "m ''video'' = Some r" "m ''marker'' = Some s"
    using assms(6) by (auto simp: snd_names_def dom_def)
  obtain mb1 where 1: "set_value b ''fd'' (Int32Value ?fd) st = Ret (st\<lparr>bufs := (bufs st)(b := mb1)\<rparr>)"
    "mb_rep m mb1 (f(''fd'' \<mapsto> Int32Value ?fd))" "mb_frame (bufs st b) mb1" "mNumItems mb1 \<le> ?k + 1"
    using set_value_known [OF assms(5) n(1) assms(7), of "Int32Value ?fd"] assms(8) by (auto simp: kMaxNumItems_def)
  let ?s1 = "st\<lparr>bufs := (bufs st)(b := mb1)\<rparr>"
  have fd: "get_int32 b ''fd'' ?s1 = Ret (Some ?fd, ?s1)" using get_known(1) [of ?s1 m "''fd''" p b] assms(5) n(1) 1(2) by simp
  obtain mb2 where 2: "set_value b ''ts'' (Int64Value (sint timeUs)) ?s1 = Ret (st\<lparr>bufs := (bufs st)(b := mb2)\<rparr>)"
    "mb_rep m mb2 (f(''fd'' \<mapsto> Int32Value ?fd, ''ts'' \<mapsto> Int64Value (sint timeUs)))" "mb_frame mb1 mb2" "mNumItems mb2 \<le> ?k + 2"
    using set_value_next [OF assms(5) n(2) 1(2), of b "Int64Value (sint timeUs)"] 1(4) assms(8) by (auto simp: kMaxNumItems_def)
  let ?s2 = "st\<lparr>bufs := (bufs st)(b := mb2)\<rparr>" and ?v = "Int32Value (if video then 1 else 0)" and ?m = "Int32Value (if marker then 1 else 0)"
  obtain mb3 where 3: "set_value b ''video'' ?v ?s2 = Ret (st\<lparr>bufs := (bufs st)(b := mb3)\<rparr>)"
    "mb_rep m mb3 (f(''fd'' \<mapsto> Int32Value ?fd, ''ts'' \<mapsto> Int64Value (sint timeUs), ''video'' \<mapsto> ?v))" "mb_frame mb2 mb3" "mNumItems mb3 \<le> ?k + 3"
    using set_value_next [OF assms(5) n(3) 2(2), of b ?v] 2(4) assms(8) by (auto simp: kMaxNumItems_def)
  let ?s3 = "st\<lparr>bufs := (bufs st)(b := mb3)\<rparr>"
  obtain mb4 where 4: "set_value b ''marker'' ?m ?s3 = Ret (st\<lparr>bufs := (bufs st)(b := mb4)\<rparr>)"
    "mb_rep m mb4 (snd_values ?fd timeUs video marker f)" "mb_frame mb3 mb4" "mNumItems mb4 \<le> ?k + 4"
    using set_value_next [OF assms(5) n(4) 3(2), of b ?m] 3(4) assms(8) by (auto simp: kMaxNumItems_def snd_values_def)
  have "mb_frame (bufs st b) mb4" using 1(3) 2(3) 3(3) 4(3) by (auto intro: mb_frame_trans)
  then show ?thesis using 1(1) 2(1) 3(1) 4(1,2,4) fd assms(1-4)
    by (auto simp: RTPTransport_deliver_def sender_deliver_def)
qed

text \<open>
  C13. What the transport hands to the sender.  For a transport with a closed socket, \<open>RTPTransport::deliver\<close>
  refuses the buffer and changes nothing.  Otherwise, for a buffer with room for four more values whose
  names the pool knows, it stores the socket in the buffer; a buffer without data is then refused, any
  other gets the time stamp, kind and marker of the caller as well and is put at the end of the queue,
  its memory and range and everything else in the sender staying as they were, and looking up the four
  values gives what was passed.
\<close>

theorem deliver_queues:
  assumes "rtps st self = Some t" "b \<noteq> 0" "pool_rep (names st) m" "snd_names m" "mb_rep m (bufs st b) f" "mNumItems (bufs st b) \<le> 8"
  shows "if mSocket (rtpUdp t) = - 1 then RTPTransport_deliver e self b timeUs video marker st = Ret (BAD_VALUE, st)
    else \<exists>mb. let st' = st\<lparr>bufs := (bufs st)(b := mb), mBuffers := mBuffers st @ (if no_data e b then [] else [b])\<rparr> in
      RTPTransport_deliver e self b timeUs video marker st = Ret (if no_data e b then BAD_VALUE else NO_ERROR, st') \<and>
      mb_frame (bufs st b) mb \<and> get_int32 b ''fd'' st' = Ret (Some (mSocket (rtpUdp t)), st') \<and>
      (\<not> no_data e b \<longrightarrow> get_int64 b ''ts'' st' = Ret (Some (sint timeUs), st') \<and>
         get_int32 b ''video'' st' = Ret (Some (if video then 1 else 0), st') \<and>
         get_int32 b ''marker'' st' = Ret (Some (if marker then 1 else 0), st'))"
proof (cases "mSocket (rtpUdp t) = - 1")
  case sock: False
  let ?fd = "mSocket (rtpUdp t)"
  obtain p q r s where n: "m ''fd'' = Some p" "m ''ts'' = Some q" "m ''video'' = Some r" "m ''marker'' = Some s"
    using assms(4) by (auto simp: snd_names_def dom_def)
  show ?thesis
  proof (cases "no_data e b")
    case True
    obtain mb where mb: "set_value b ''fd'' (Int32Value ?fd) st = Ret (st\<lparr>bufs := (bufs st)(b := mb)\<rparr>)"
      "mb_rep m mb (f(''fd'' \<mapsto> Int32Value ?fd))" "mb_frame (bufs st b) mb"
      using set_value_known [OF assms(3) n(1) assms(5), of "Int32Value ?fd"] assms(6) by (auto simp: kMaxNumItems_def)
    have "get_int32 b ''fd'' (st\<lparr>bufs := (bufs st)(b := mb)\<rparr>) = Ret (Some ?fd, st\<lparr>bufs := (bufs st)(b := mb)\<rparr>)"
      using get_known(1) [of "st\<lparr>bufs := (bufs st)(b := mb)\<rparr>" m "''fd''" p b] assms(3) n(1) mb(2) by simp
    then show ?thesis using sock True mb(1,3) assms(1,2)
      by (auto simp: RTPTransport_deliver_def sender_deliver_def intro!: exI [of _ mb])
  next
    case False
    obtain mb where mb: "RTPTransport_deliver e self b timeUs video marker st =
        Ret (NO_ERROR, st\<lparr>bufs := (bufs st)(b := mb), mBuffers := mBuffers st @ [b]\<rparr>)"
      "mb_rep m mb (snd_values ?fd timeUs video marker f)" "mb_frame (bufs st b) mb"
      using RTPTransport_deliver_ok [OF assms(1) sock assms(2) False assms(3-6)] by blast
    let ?st = "st\<lparr>bufs := (bufs st)(b := mb), mBuffers := mBuffers st @ [b]\<rparr>"
    note g = get_known [of ?st m _ _ b "snd_values ?fd timeUs video marker f"]
    have "get_int32 b ''fd'' ?st = Ret (Some ?fd, ?st)" "get_int32 b ''video'' ?st = Ret (Some (if video then 1 else 0), ?st)"
      "get_int32 b ''marker'' ?st = Ret (Some (if marker then 1 else 0), ?st)" "get_int64 b ''ts'' ?st = Ret (Some (sint timeUs), ?st)"
      using g(1) [OF _ n(1)] g(1) [OF _ n(3)] g(1) [OF _ n(4)] g(2) [OF _ n(2)] assms(3) mb(2) by (simp_all add: snd_values_def)
    then show ?thesis using sock False mb(1,3) by (auto intro!: exI [of _ mb])
  qed
qed (use assms(1) in \<open>simp add: RTPTransport_deliver_def\<close>)

text \<open>
  A buffer that is given to two transports before the sender's next round is queued twice, and both times
  with the socket of the second: the socket is a value of the shared buffer, and both entries of the queue
  are the same pointer.
\<close>

lemma shared_buffer_redirected:
  assumes "rtps st a = Some ta" "rtps st a' = Some ta'" "mSocket (rtpUdp ta) \<noteq> - 1" "mSocket (rtpUdp ta') \<noteq> - 1"
    "b \<noteq> 0" "\<not> no_data e b" "mBuffers st = []" "pool_rep (names st) m" "snd_names m" "mb_rep m (bufs st b) f" "mNumItems (bufs st b) \<le> 4"
  shows "\<exists>st1 st2. RTPTransport_deliver e a b ts video marker st = Ret (NO_ERROR, st1) \<and>
    RTPTransport_deliver e a' b ts' video' marker' st1 = Ret (NO_ERROR, st2) \<and> mBuffers st2 = [b, b] \<and>
    get_int32 b ''fd'' st2 = Ret (Some (mSocket (rtpUdp ta')), st2)"
proof -
  obtain mb where mb: "RTPTransport_deliver e a b ts video marker st = Ret (NO_ERROR, st\<lparr>bufs := (bufs st)(b := mb), mBuffers := [b]\<rparr>)"
    "mb_rep m mb (snd_values (mSocket (rtpUdp ta)) ts video marker f)" "mNumItems mb \<le> 8"
    using RTPTransport_deliver_ok [OF assms(1,3,5,6,8-10), of ts video marker] assms(7,11) by auto
  let ?s1 = "st\<lparr>bufs := (bufs st)(b := mb), mBuffers := [b]\<rparr>"
  obtain mb' where mb': "RTPTransport_deliver e a' b ts' video' marker' ?s1 =
      Ret (NO_ERROR, ?s1\<lparr>bufs := (bufs ?s1)(b := mb'), mBuffers := mBuffers ?s1 @ [b]\<rparr>)"
    "mb_rep m mb' (snd_values (mSocket (rtpUdp ta')) ts' video' marker' (snd_values (mSocket (rtpUdp ta)) ts video marker f))"
    using RTPTransport_deliver_ok [of ?s1 a' ta' b e m _ ts' video' marker'] assms(2,4-6,8,9) mb(2,3) by auto
  let ?s2 = "?s1\<lparr>bufs := (bufs ?s1)(b := mb'), mBuffers := mBuffers ?s1 @ [b]\<rparr>"
  obtain p where "m ''fd'' = Some p" using assms(9) by (auto simp: snd_names_def dom_def)
  then have "get_int32 b ''fd'' ?s2 = Ret (Some (mSocket (rtpUdp ta')), ?s2)"
    using get_known(1) [of ?s2 m "''fd''" p b] assms(8) mb'(2) by (simp add: snd_values_def)
  then show ?thesis using mb(1) mb'(1) by auto
qed

definition snd_demo_names :: "(string \<times> nat) list" where
  "snd_demo_names = [(''fd'', 0), (''ts'', 3), (''video'', 6), (''marker'', 12)]"

definition snd_demo_pool :: token_pool where
  "snd_demo_pool = \<lparr>mRows = map (\<lambda>i. map (\<lambda>(n, p). Some p) (filter (\<lambda>(n, p). row_of n = i) snd_demo_names)) [0..<128],
     tokenBuffer = (\<lambda>k. (''fd'' @ [CHR 0x00] @ ''ts'' @ [CHR 0x00] @ ''video'' @ [CHR 0x00] @ ''marker'' @ [CHR 0x00]) ! k),
     bufferPtr = 19\<rparr>"

lemma snd_demo_pool_rep: "pool_rep snd_demo_pool (map_of snd_demo_names)" "snd_names (map_of snd_demo_names)"
proof -
  have "pool_list snd_demo_pool snd_demo_names"
    unfolding pool_list_def snd_demo_pool_def
    by (simp add: CONST_TOKENPOOL_ROWS_def CONST_TOKENPOOL_SIZE_def) (simp add: snd_demo_names_def name_ok_def)
  then show "pool_rep snd_demo_pool (map_of snd_demo_names)" unfolding pool_rep_def by blast
  show "snd_names (map_of snd_demo_names)" by (simp add: snd_names_def snd_demo_names_def)
qed

definition demo_snd_env :: snd_env where
  "demo_snd_env = \<lparr>clock = demo_clock, sendto = (\<lambda>_. 15), no_data = (\<lambda>_. False), locked_dtor = no_dtor,
     spill_video = (\<lambda>_ l. l), spill_marker = (\<lambda>_ l. l)\<rparr>"

definition demo_sender :: "SocketHolder \<Rightarrow> transports \<Rightarrow> sender" where
  "demo_sender s w = \<lparr>mBuffers = [], mPending = [], bufs = (\<lambda>_. buffer_of (replicate 12 0 @ [1, 2, 3])), names = snd_demo_pool,
     holder = s, trans = w, rtps = [7 \<mapsto> demo_rtp\<lparr>rtpUdp := (rtpUdp demo_rtp)\<lparr>mSocket := 7\<rparr>\<rparr>], handled = []\<rparr>"

definition demo_locals :: snd_locals where
  "demo_locals = \<lparr>l_fd = 0, l_video = False, l_marker = False, l_ts = 0, l_inst = 0\<rparr>"

theorem deliver_queues_witness:
  "\<exists>st. RTPTransport_deliver demo_snd_env 7 1 40 True False (demo_sender demo_holder demo_refs) = Ret (NO_ERROR, st) \<and>
     mBuffers st = [1] \<and> get_int32 1 ''fd'' st = Ret (Some 7, st) \<and> get_int64 1 ''ts'' st = Ret (Some 40, st) \<and>
     get_int32 1 ''video'' st = Ret (Some 1, st) \<and> get_int32 1 ''marker'' st = Ret (Some 0, st)"
proof -
  let ?st = "demo_sender demo_holder demo_refs"
  have rep: "mb_rep m (buffer_of (replicate 12 0 @ [1, 2, 3])) Map.empty" for m
    by (rule mb_rep_empty) (simp_all add: buffer_of_def MetaBuffer_wrap_def demo_junk_def kMaxNumItems_def)
  have s: "rtps ?st 7 = Some (demo_rtp\<lparr>rtpUdp := (rtpUdp demo_rtp)\<lparr>mSocket := 7\<rparr>\<rparr>)" "(1 :: nat) \<noteq> 0" "names ?st = snd_demo_pool"
    "bufs ?st 1 = buffer_of (replicate 12 0 @ [1, 2, 3])" "mBuffers ?st = []" "\<not> no_data demo_snd_env 1"
    "mNumItems (buffer_of (replicate 12 0 @ [1, 2, 3])) \<le> 8"
    by (simp_all add: demo_sender_def demo_snd_env_def buffer_of_def MetaBuffer_wrap_def)
  show ?thesis
    using deliver_queues [OF s(1,2), of "map_of snd_demo_names" Map.empty demo_snd_env 40 True False] snd_demo_pool_rep rep s(3-7)
    by (auto simp: Let_def)
qed


end
