(* ===== verification/Timed_Queue.thy ===== *)
theory Timed_Queue
  imports Time_List Io_Stream "HOL-Library.Monad_Syntax"
begin

text \<open>
  \<open>libnet/absTimerList.cpp\<close>: the class \<open>TimedEventQ\<close>, a queue of events with absolute deadlines that
  several threads share.  The queue \<open>mList\<close> is a list of pointers into the store \<open>units\<close>; a pointer to
  a deleted unit has no entry there, and a dereference of it is \<open>None\<close>.  Every section between
  \<open>pthread_mutex_lock\<close> and \<open>pthread_mutex_unlock\<close> is one definition, so that the operations can be
  composed in one thread and interleaved with those of others.

  The environment \<open>tq_env\<close> has the code outside: the readings of the clock in the order of the calls
  (\<open>reads\<close> counts them) and the allocator (an address that is not in use and the contents of the fresh
  memory).  The calls of handlers are recorded in \<open>calls\<close>.  No lock is held while a handler runs: what a handler does to the queue itself are
  further operations, between the \<open>dispatch\<close> that calls it and the \<open>finish_unit\<close> that follows.
\<close>

section \<open>Model\<close>

datatype EventType = TIMED_CALLBACK | TIMED_RECYCLE | PERIOD_CONDITION | PERIOD_SEMAPHORE

record EventUnit =
  tvAbsolute :: c_timeval
  etype :: EventType
  handler :: nat \<comment> \<open>a pointer, 0 is null\<close>
  idToken :: u32
  period :: u32

datatype tq_call = HandleTimeout nat | DeleteHandler nat | CondSignal nat | SemPost nat

record TimedEventQ =
  listToken :: u32
  tvLastSync :: c_timeval
  mList :: "nat list"
  units :: "nat \<rightharpoonup> EventUnit"
  reads :: nat
  calls :: "tq_call list" \<comment> \<open>what the handlers were asked to do so far\<close>

record tq_env =
  gtod :: "nat \<Rightarrow> c_timeval"
  newUnit :: "(nat \<rightharpoonup> EventUnit) \<Rightarrow> (nat \<times> EventUnit) option"

definition MAX_PERIOD_DELAY :: nat where "MAX_PERIOD_DELAY = 2146483"
definition TV_ZERO :: c_timeval where "TV_ZERO = \<lparr>tv_sec = 0, tv_usec = 0\<rparr>"
definition TV_INFINITY :: c_timeval where "TV_INFINITY = \<lparr>tv_sec = 0x7FFFFFFF, tv_usec = MILLION - 1\<rparr>"

definition gettimeofday :: "tq_env \<Rightarrow> TimedEventQ \<Rightarrow> c_timeval \<times> TimedEventQ" where
  "gettimeofday e q = (gtod e (reads q), q\<lparr>reads := Suc (reads q)\<rparr>)"

definition TimedEventQ_init :: "tq_env \<Rightarrow> TimedEventQ" where
  \<comment> \<open>the constructor\<close>
  "TimedEventQ_init e = \<lparr>listToken = 1, tvLastSync = gtod e 0, mList = [], units = Map.empty, reads = 1, calls = []\<rparr>"

fun delete_all :: "nat list \<Rightarrow> (nat \<rightharpoonup> EventUnit) \<Rightarrow> (nat \<rightharpoonup> EventUnit) option" where
  "delete_all [] us = Some us"
| "delete_all (p # ps) us = (if us p = None then None else delete_all ps (us(p := None)))"

definition TimedEventQ_destroy :: "TimedEventQ \<Rightarrow> TimedEventQ option" where
  \<comment> \<open>the destructor\<close>
  "TimedEventQ_destroy q = map_option (\<lambda>us. q\<lparr>mList := [], units := us\<rparr>) (delete_all (mList q) (units q))"

function time_carry :: "int \<Rightarrow> int \<Rightarrow> c_timeval" where
  \<comment> \<open>\<open>while (tv_usec >= MILLION) { tv_usec -= MILLION; ++tv_sec; }\<close>\<close>
  "time_carry s u = (if u \<ge> MILLION then time_carry (c_int (s + 1)) (u - MILLION) else \<lparr>tv_sec = s, tv_usec = u\<rparr>)"
  by pat_completeness auto
termination by (relation "measure (\<lambda>(s, u). nat u)") (auto simp: MILLION_def)

declare time_carry.simps [simp del]

definition time_later :: "c_timeval \<Rightarrow> int \<Rightarrow> int \<Rightarrow> c_timeval" where
  "time_later timeNow seconds useconds =
     (let ret = time_carry (c_int (tv_sec timeNow + seconds)) (c_int (tv_usec timeNow + useconds))
      in if tv_sec ret < 0 then timeNow else ret)"

definition time_plus :: "c_timeval \<Rightarrow> u32 \<Rightarrow> c_timeval" where
  "time_plus tv mseconds =
     (if unat mseconds > MAX_PERIOD_DELAY then tv
      else time_carry (tv_sec tv) (c_int (tv_usec tv + uint (mseconds * 1000))))"

definition time_interval :: "c_timeval \<Rightarrow> c_timeval \<Rightarrow> c_timeval" where
  "time_interval tv2 tv1 =
     (let s = c_int (tv_sec tv2 - tv_sec tv1);
          u = c_int (tv_usec tv2 - tv_usec tv1);
          (s', u') = (if u < 0 then (c_int (s - 1), c_int (u + MILLION)) else (s, u))
      in if s' < 0 then TV_ZERO else \<lparr>tv_sec = s', tv_usec = u'\<rparr>)"

definition c_quot :: "int \<Rightarrow> int \<Rightarrow> int" where
  \<comment> \<open>C's division, towards zero\<close>
  "c_quot a b = (if (a < 0) = (b < 0) then \<bar>a\<bar> div \<bar>b\<bar> else - (\<bar>a\<bar> div \<bar>b\<bar>))"

definition time_minus :: "c_timeval \<Rightarrow> c_timeval \<Rightarrow> int" where
  "time_minus tv2 tv1 =
     (let s = c_int (tv_sec tv2 - tv_sec tv1); u = c_int (tv_usec tv2 - tv_usec tv1)
      in c_int (c_int (s * 1000) + c_quot u 1000))"

definition time_overthan :: "c_timeval \<Rightarrow> c_timeval \<Rightarrow> bool" where
  "time_overthan tv2 tv1 \<longleftrightarrow>
     tv_sec tv2 > tv_sec tv1 \<or> (tv_sec tv2 = tv_sec tv1 \<and> tv_usec tv2 \<ge> tv_usec tv1)"

text \<open>The critical sections of adding an event.\<close>

fun insert_timed :: "(nat \<rightharpoonup> EventUnit) \<Rightarrow> c_timeval \<Rightarrow> nat \<Rightarrow> nat list \<Rightarrow> nat list option" where
  "insert_timed us t p [] = Some [p]"
| "insert_timed us t p (x # xs) =
     (case us x of
        None \<Rightarrow> None
      | Some u \<Rightarrow>
          if \<not> time_overthan t (tvAbsolute u) then Some (p # x # xs)
          else map_option ((#) x) (insert_timed us t p xs))"

definition addEventInternal :: "TimedEventQ \<Rightarrow> nat \<Rightarrow> TimedEventQ option" where
  "addEventInternal q p =
     (case units q p of
        None \<Rightarrow> None
      | Some u \<Rightarrow> map_option (\<lambda>l. q\<lparr>mList := l\<rparr>) (insert_timed (units q) (tvAbsolute u) p (mList q)))"

definition next_token :: "u32 \<Rightarrow> u32" where
  "next_token t = (t + 1) AND 0x0FFFFFFF"

definition take_token :: "TimedEventQ \<Rightarrow> nat \<Rightarrow> TimedEventQ option" where
  \<comment> \<open>the second section of \<open>addLaterEvent\<close> and \<open>addPeriodEvent\<close>\<close>
  "take_token q p =
     (case units q p of
        None \<Rightarrow> None
      | Some u \<Rightarrow> Some (q\<lparr>units := (units q)(p \<mapsto> u\<lparr>idToken := listToken q\<rparr>), listToken := next_token (listToken q)\<rparr>))"

definition return_token :: "TimedEventQ \<Rightarrow> nat \<Rightarrow> (int \<times> TimedEventQ) option" where
  \<comment> \<open>\<open>ret = newEntry->idToken\<close> and the test of \<open>ret\<close> against -1\<close>
  "return_token q p =
     (case units q p of
        None \<Rightarrow> None
      | Some u \<Rightarrow>
          (let ret = sint (idToken u)
           in Some (ret, if ret = - 1 then q\<lparr>units := (units q)(p := None)\<rparr> else q)))"

definition arm_event :: "tq_env \<Rightarrow> TimedEventQ \<Rightarrow> nat \<Rightarrow> EventUnit \<Rightarrow> u32 \<Rightarrow> TimedEventQ option" where
  \<comment> \<open>set the deadline \<open>mseconds\<close> from now, store the unit and queue it\<close>
  "arm_event e q p u mseconds =
     (case gettimeofday e q of
        (now, q1) \<Rightarrow> addEventInternal (q1\<lparr>units := (units q1)(p \<mapsto> u\<lparr>tvAbsolute := time_plus now mseconds\<rparr>)\<rparr>) p)"

definition addLaterEvent_queue :: "tq_env \<Rightarrow> TimedEventQ \<Rightarrow> u32 \<Rightarrow> EventType \<Rightarrow> nat \<Rightarrow> (nat option \<times> TimedEventQ) option" where
  \<comment> \<open>\<open>addLaterEvent\<close> up to its second section; the pointer is null when the request is refused\<close>
  "addLaterEvent_queue e q mseconds ty h =
     (if h = 0 \<or> unat mseconds > MAX_PERIOD_DELAY \<or> (ty \<noteq> TIMED_CALLBACK \<and> ty \<noteq> TIMED_RECYCLE) then Some (None, q)
      else case newUnit e (units q) of
             None \<Rightarrow> Some (None, q)
           | Some (p, u) \<Rightarrow>
               map_option (\<lambda>q'. (Some p, q')) (arm_event e q p (u\<lparr>etype := ty, handler := h\<rparr>) mseconds))"

definition addPeriodEvent_queue :: "tq_env \<Rightarrow> TimedEventQ \<Rightarrow> u32 \<Rightarrow> EventType \<Rightarrow> nat \<Rightarrow> (nat option \<times> TimedEventQ) option" where
  "addPeriodEvent_queue e q mseconds ty h =
     (if h = 0 \<or> unat mseconds > MAX_PERIOD_DELAY \<or> (ty \<noteq> PERIOD_CONDITION \<and> ty \<noteq> PERIOD_SEMAPHORE) then Some (None, q)
      else case newUnit e (units q) of
             None \<Rightarrow> Some (None, q)
           | Some (p, u) \<Rightarrow>
               map_option (\<lambda>q'. (Some p, q'))
                 (arm_event e q p (u\<lparr>etype := ty, handler := h, period := mseconds\<rparr>) mseconds))"

definition finish_add :: "(nat option \<times> TimedEventQ) option \<Rightarrow> (int \<times> TimedEventQ) option" where
  \<comment> \<open>the rest of the two operations when no other thread comes in between\<close>
  "finish_add r =
     (case r of
        None \<Rightarrow> None
      | Some (None, q) \<Rightarrow> Some (- 1, q)
      | Some (Some p, q) \<Rightarrow> take_token q p \<bind> (\<lambda>q'. return_token q' p))"

definition addLaterEvent :: "tq_env \<Rightarrow> TimedEventQ \<Rightarrow> u32 \<Rightarrow> EventType \<Rightarrow> nat \<Rightarrow> (int \<times> TimedEventQ) option" where
  "addLaterEvent e q mseconds ty h = finish_add (addLaterEvent_queue e q mseconds ty h)"

definition addPeriodEvent :: "tq_env \<Rightarrow> TimedEventQ \<Rightarrow> u32 \<Rightarrow> EventType \<Rightarrow> nat \<Rightarrow> (int \<times> TimedEventQ) option" where
  "addPeriodEvent e q mseconds ty h = finish_add (addPeriodEvent_queue e q mseconds ty h)"

definition addAbsTimedEvent_queue :: "tq_env \<Rightarrow> TimedEventQ \<Rightarrow> c_timeval \<Rightarrow> EventType \<Rightarrow> nat \<Rightarrow> (nat option \<times> TimedEventQ) option" where
  "addAbsTimedEvent_queue e q absTime ty h =
     (if h = 0 then Some (None, q)
      else case newUnit e (units q) of
             None \<Rightarrow> Some (None, q)
           | Some (p, u) \<Rightarrow>
               (let u1 = u\<lparr>tvAbsolute := absTime, etype := ty, handler := h, idToken := listToken q\<rparr>;
                    us = (units q)(p \<mapsto> u1)
                in map_option (\<lambda>l. (Some p, q\<lparr>units := us, listToken := next_token (listToken q), mList := l\<rparr>))
                     (insert_timed us absTime p (mList q))))"

definition addAbsTimedEvent :: "tq_env \<Rightarrow> TimedEventQ \<Rightarrow> c_timeval \<Rightarrow> EventType \<Rightarrow> nat \<Rightarrow> (int \<times> TimedEventQ) option" where
  "addAbsTimedEvent e q absTime ty h =
     (case addAbsTimedEvent_queue e q absTime ty h of
        None \<Rightarrow> None
      | Some (None, q') \<Rightarrow> Some (- 1, q')
      | Some (Some p, q') \<Rightarrow> return_token q' p)"

text \<open>Asking for the next event.\<close>

definition abstimeToNextEvent :: "TimedEventQ \<Rightarrow> (int \<times> c_timeval) option" where
  "abstimeToNextEvent q =
     (case mList q of
        [] \<Rightarrow> Some (- 1, TV_INFINITY)
      | p # _ \<Rightarrow> map_option (\<lambda>u. (0, tvAbsolute u)) (units q p))"

definition timeToNextEvent :: "tq_env \<Rightarrow> TimedEventQ \<Rightarrow> (int \<times> int \<times> int \<times> TimedEventQ) option" where
  "timeToNextEvent e q =
     (case abstimeToNextEvent q of
        None \<Rightarrow> None
      | Some (ret, tvRet) \<Rightarrow>
          (let (timeNow, q1) = gettimeofday e q; tv = time_interval tvRet timeNow
           in Some (ret, tv_sec tv, tv_usec tv, q1)))"

text \<open>Firing: the section that takes the due events off the queue, then one event after the other.\<close>

fun due_prefix :: "(nat \<rightharpoonup> EventUnit) \<Rightarrow> c_timeval \<Rightarrow> nat list \<Rightarrow> (nat list \<times> nat list) option" where
  "due_prefix us now [] = Some ([], [])"
| "due_prefix us now (x # xs) =
     (case us x of
        None \<Rightarrow> None
      | Some u \<Rightarrow>
          if \<not> time_overthan now (tvAbsolute u) then Some ([], x # xs)
          else map_option (\<lambda>(d, r). (x # d, r)) (due_prefix us now xs))"

definition splice_due :: "tq_env \<Rightarrow> TimedEventQ \<Rightarrow> (nat list \<times> TimedEventQ) option" where
  "splice_due e q =
     (case gettimeofday e q of
        (timeNow, q1) \<Rightarrow> map_option (\<lambda>(d, r). (d, q1\<lparr>mList := r\<rparr>)) (due_prefix (units q1) timeNow (mList q1)))"

definition dispatch :: "TimedEventQ \<Rightarrow> nat \<Rightarrow> (bool \<times> TimedEventQ) option" where
  \<comment> \<open>the \<open>switch\<close>; the result says whether the event is periodic\<close>
  "dispatch q p =
     (case units q p of
        None \<Rightarrow> None
      | Some u \<Rightarrow>
          (case etype u of
             TIMED_CALLBACK \<Rightarrow> Some (False, q\<lparr>calls := calls q @ [HandleTimeout (handler u)]\<rparr>)
           | TIMED_RECYCLE \<Rightarrow>
               Some (False, q\<lparr>calls := calls q @ [DeleteHandler (handler u)], units := (units q)(p \<mapsto> u\<lparr>handler := 0\<rparr>)\<rparr>)
           | PERIOD_CONDITION \<Rightarrow> Some (True, q\<lparr>calls := calls q @ [CondSignal (handler u)]\<rparr>)
           | PERIOD_SEMAPHORE \<Rightarrow> Some (True, q\<lparr>calls := calls q @ [SemPost (handler u)]\<rparr>)))"

definition finish_unit :: "tq_env \<Rightarrow> bool \<Rightarrow> TimedEventQ \<Rightarrow> nat \<Rightarrow> TimedEventQ option" where
  "finish_unit e per q p =
     (case units q p of
        None \<Rightarrow> None
      | Some u \<Rightarrow> if per then arm_event e q p u (period u) else Some (q\<lparr>units := (units q)(p := None)\<rparr>))"

definition fire_unit :: "tq_env \<Rightarrow> TimedEventQ \<Rightarrow> nat \<Rightarrow> TimedEventQ option" where
  \<comment> \<open>the body of the \<open>while\<close> loop\<close>
  "fire_unit e q p = (case dispatch q p of None \<Rightarrow> None | Some (per, q1) \<Rightarrow> finish_unit e per q1 p)"

fun fire_all :: "tq_env \<Rightarrow> TimedEventQ \<Rightarrow> nat list \<Rightarrow> TimedEventQ option" where
  "fire_all e q [] = Some q"
| "fire_all e q (p # ps) = (case fire_unit e q p of None \<Rightarrow> None | Some q' \<Rightarrow> fire_all e q' ps)"

definition handleAlarmEvent :: "tq_env \<Rightarrow> TimedEventQ \<Rightarrow> TimedEventQ option" where
  "handleAlarmEvent e q = (case splice_due e q of None \<Rightarrow> None | Some (d, q1) \<Rightarrow> fire_all e q1 d)"

text \<open>Cancelling.\<close>

fun find_event :: "(nat \<rightharpoonup> EventUnit) \<Rightarrow> u32 \<Rightarrow> nat list \<Rightarrow> nat option option" where
  "find_event us token [] = Some None"
| "find_event us token (x # xs) =
     (case us x of None \<Rightarrow> None | Some u \<Rightarrow> if idToken u = token then Some (Some x) else find_event us token xs)"

definition delTimedEvent :: "TimedEventQ \<Rightarrow> u32 \<Rightarrow> (nat \<times> TimedEventQ) option" where
  \<comment> \<open>the handler is read after the unit has been deleted\<close>
  "delTimedEvent q token =
     (case find_event (units q) token (mList q) of
        None \<Rightarrow> None
      | Some None \<Rightarrow> Some (0, q)
      | Some (Some p) \<Rightarrow>
          let q1 = q\<lparr>units := (units q)(p := None)\<rparr>
          in case units q1 p of
               None \<Rightarrow> None
             | Some u \<Rightarrow> Some (handler u, q1\<lparr>mList := remove1 p (mList q1)\<rparr>))"

definition tq_isEmpty :: "TimedEventQ \<Rightarrow> bool" where
  "tq_isEmpty q \<longleftrightarrow> mList q = []"

text \<open>
  \<open>dump\<close> prints the token and the time to go of every event; \<open>fmt\<close> gives the text of
  \<open>"[%06d/%d] -> "\<close>.
\<close>

fun dump_events :: "(u32 \<Rightarrow> int \<Rightarrow> u8 list option) \<Rightarrow> (nat \<rightharpoonup> EventUnit) \<Rightarrow> c_timeval \<Rightarrow> nat list \<Rightarrow> ioStream \<Rightarrow> ioStream option" where
  "dump_events fmt us now [] s = Some s"
| "dump_events fmt us now (x # xs) s =
     (case us x of
        None \<Rightarrow> None
      | Some u \<Rightarrow>
          ioStreamPrint s (fmt (idToken u) (time_minus (tvAbsolute u) now)) \<bind> (\<lambda>(_, s'). dump_events fmt us now xs s'))"

definition tq_dump ::
  "tq_env \<Rightarrow> (u32 \<Rightarrow> int \<Rightarrow> u8 list option) \<Rightarrow> TimedEventQ \<Rightarrow> ioStream option \<Rightarrow> (TimedEventQ \<times> ioStream option) option" where
  "tq_dump e fmt q stream =
     (case stream of
        None \<Rightarrow> Some (q, None)
      | Some s \<Rightarrow>
          (case (if mList q = [] then Some (q, s)
                 else case gettimeofday e q of
                        (timeNow, q1) \<Rightarrow>
                          map_option (\<lambda>s1. (q1, snd (ioStreamSeek s1 (- 3) SEEK_CUR)))
                            (dump_events fmt (units q1) timeNow (mList q1) s)) of
             None \<Rightarrow> None
           | Some (q1, s1) \<Rightarrow> map_option (\<lambda>(_, s2). (q1, Some s2)) (ioStreamPutc 10 s1)))"

section \<open>Times\<close>

lemma time_overthan_eq: "time_overthan = Time_List.time_overthan"
  by (simp add: time_overthan_def Time_List.time_overthan_def fun_eq_iff)

lemma time_interval_eq: "time_interval = Time_List.time_interval"
  by (auto simp: time_interval_def Time_List.time_interval_def fun_eq_iff TV_ZERO_def DELAY_ZERO_def Let_def)

lemma time_overthan_order:
  "time_overthan a a" "time_overthan c b \<Longrightarrow> time_overthan b a \<Longrightarrow> time_overthan c a"
  "\<not> time_overthan a b \<Longrightarrow> time_overthan b a"
  by (auto simp: time_overthan_def)

lemma time_carry_exact:
  assumes "0 \<le> u" "0 \<le> s" "s + u div 1000000 \<le> 2147483647"
  shows "time_carry s u = \<lparr>tv_sec = s + u div 1000000, tv_usec = u mod 1000000\<rparr>"
  using assms
proof (induction s u rule: time_carry.induct)
  case (1 s u)
  show ?case
  proof (cases "u \<ge> MILLION")
    case True
    define v where "v = u - 1000000"
    have u: "u = v + 1000000" "0 \<le> v" using True by (simp_all add: v_def MILLION_def)
    have d: "u div 1000000 = v div 1000000 + 1" "u mod 1000000 = v mod 1000000" unfolding u(1) by simp_all
    have pos: "0 \<le> v div 1000000" using u(2) by (simp add: pos_imp_zdiv_nonneg_iff)
    have c: "c_int (s + 1) = s + 1" using d(1) 1(3,4) pos by (intro c_int_id) linarith
    have "time_carry (s + 1) v = \<lparr>tv_sec = s + 1 + v div 1000000, tv_usec = v mod 1000000\<rparr>"
      using 1(1) [OF True] 1(3,4) u(2) d(1) c by (simp add: MILLION_def v_def [symmetric])
    then show ?thesis using True c d by (simp add: time_carry.simps [of s u] MILLION_def v_def [symmetric])
  next
    case False
    then show ?thesis using 1 by (subst time_carry.simps) (simp add: MILLION_def)
  qed
qed

lemma time_plus_exact:
  assumes "norm_tv tv" "unat ms \<le> MAX_PERIOD_DELAY" "tv_sec tv \<le> 2147481499"
  shows "norm_tv (time_plus tv ms)" "usecs (time_plus tv ms) = usecs tv + 1000 * uint ms"
proof -
  have "int (unat ms) \<le> 2146483" using assms(2) unfolding MAX_PERIOD_DELAY_def by linarith
  then have ms: "uint ms \<le> 2146483" by (simp only: uint_nat)
  then have m: "uint (ms * 1000) = uint ms * 1000"
    by (simp add: uint_word_ariths take_bit_int_eq_self uint_mult_lem)
  define u where "u = tv_usec tv + uint ms * 1000"
  have u: "0 \<le> u" "u < 2147483000" "u div 1000000 \<le> 2147"
    using ms assms(1) by (auto simp: u_def norm_tv_def)
  have split: "1000000 * (u div 1000000) + u mod 1000000 = tv_usec tv + uint ms * 1000" by (simp add: u_def)
  have "time_plus tv ms = \<lparr>tv_sec = tv_sec tv + u div 1000000, tv_usec = u mod 1000000\<rparr>"
    using assms(1,2,3) u m by (auto simp: time_plus_def c_int_id u_def [symmetric] norm_tv_def intro!: time_carry_exact)
  then show "norm_tv (time_plus tv ms)" "usecs (time_plus tv ms) = usecs tv + 1000 * uint ms"
    using u assms(1,3) split by (auto simp: norm_tv_def usecs_def pos_imp_zdiv_nonneg_iff)
qed

section \<open>The queue as a sorted list\<close>

abbreviation due :: "(nat \<rightharpoonup> EventUnit) \<Rightarrow> nat \<Rightarrow> c_timeval" where
  "due us p \<equiv> tvAbsolute (the (us p))"

definition tq_sorted :: "(nat \<rightharpoonup> EventUnit) \<Rightarrow> nat list \<Rightarrow> bool" where
  "tq_sorted us = sorted_wrt (\<lambda>x y. time_overthan (due us y) (due us x))"

definition insert_sorted :: "(nat \<rightharpoonup> EventUnit) \<Rightarrow> nat \<Rightarrow> nat list \<Rightarrow> nat list" where
  "insert_sorted us p xs =
     takeWhile (\<lambda>x. time_overthan (due us p) (due us x)) xs @ p # dropWhile (\<lambda>x. time_overthan (due us p) (due us x)) xs"

text \<open>\<open>F\<close> are the units that were taken off the queue and are being fired.\<close>

definition tq_ok :: "TimedEventQ \<Rightarrow> nat list \<Rightarrow> bool" where
  "tq_ok q F \<longleftrightarrow> distinct (mList q @ F) \<and> set (mList q @ F) \<subseteq> dom (units q) \<and> tq_sorted (units q) (mList q) \<and>
     listToken q \<le> 0x0FFFFFFF"

lemma insert_sorted_set [simp]: "set (insert_sorted us p xs) = insert p (set xs)"
proof -
  have "set xs = set (takeWhile P xs @ dropWhile P xs)" for P by simp
  then show ?thesis unfolding insert_sorted_def by (metis Un_insert_right list.simps(15) set_append)
qed

lemma insert_sorted_distinct [simp]: "distinct (insert_sorted us p xs) \<longleftrightarrow> distinct (p # xs)"
proof -
  have "distinct (a @ p # b) \<longleftrightarrow> distinct (p # a @ b)" for a b by auto
  then show ?thesis unfolding insert_sorted_def by (metis takeWhile_dropWhile_id)
qed

lemma insert_timed_sorted: "set xs \<subseteq> dom us \<Longrightarrow> t = due us p \<Longrightarrow> insert_timed us t p xs = Some (insert_sorted us p xs)"
  by (induction xs) (auto simp: insert_sorted_def)

lemma tq_sorted_cong: "(\<And>x. x \<in> set xs \<Longrightarrow> due us x = due vs x) \<Longrightarrow> tq_sorted us xs \<longleftrightarrow> tq_sorted vs xs"
  by (induction xs) (auto simp: tq_sorted_def)

lemma tq_sorted_late:
  assumes "tq_sorted us xs" "x \<in> set (dropWhile (\<lambda>x. time_overthan t (due us x)) xs)"
  shows "\<not> time_overthan t (due us x)"
  using assms
proof (induction xs)
  case (Cons a xs)
  then show ?case using time_overthan_order(2) by (fastforce simp: tq_sorted_def split: if_splits)
qed simp

lemma tq_sorted_insert:
  assumes "tq_sorted us xs"
  shows "tq_sorted us (insert_sorted us p xs)"
proof -
  let ?P = "\<lambda>x. time_overthan (due us p) (due us x)"
  have "tq_sorted us (takeWhile ?P xs @ dropWhile ?P xs)" using assms by simp
  then have "tq_sorted us (takeWhile ?P xs)" "tq_sorted us (dropWhile ?P xs)"
    "\<forall>x \<in> set (takeWhile ?P xs). \<forall>y \<in> set (dropWhile ?P xs). time_overthan (due us y) (due us x)"
    unfolding tq_sorted_def sorted_wrt_append by blast+
  moreover have "time_overthan (due us x) (due us p)" if "x \<in> set (dropWhile ?P xs)" for x
    using tq_sorted_late [OF assms that] time_overthan_order(3) by blast
  ultimately show ?thesis
    by (auto simp: insert_sorted_def tq_sorted_def sorted_wrt_append dest: set_takeWhileD)
qed

lemma due_prefix_split:
  "set xs \<subseteq> dom us \<Longrightarrow> due_prefix us now xs =
     Some (takeWhile (\<lambda>x. time_overthan now (due us x)) xs, dropWhile (\<lambda>x. time_overthan now (due us x)) xs)"
  by (induction xs) auto

lemma while_filter:
  assumes "\<And>x. x \<in> set (dropWhile P xs) \<Longrightarrow> \<not> P x"
  shows "takeWhile P xs = filter P xs \<and> dropWhile P xs = filter (\<lambda>x. \<not> P x) xs"
  using assms
proof (induction xs)
  case (Cons a xs)
  show ?case
  proof (cases "P a")
    case True
    then have "dropWhile P (a # xs) = dropWhile P xs" by simp
    then have "takeWhile P xs = filter P xs \<and> dropWhile P xs = filter (\<lambda>x. \<not> P x) xs"
      using Cons.IH Cons.prems by metis
    then show ?thesis using True by simp
  next
    case False
    then have "\<not> P x" if "x \<in> set (a # xs)" for x using Cons.prems that by (metis dropWhile.simps(2))
    then have "filter P (a # xs) = []" "filter (\<lambda>x. \<not> P x) (a # xs) = a # xs"
      by (meson filter_False, meson filter_True)
    then show ?thesis using False by (simp only: takeWhile.simps dropWhile.simps if_False simp_thms)
  qed
qed simp

lemma tq_sorted_takeWhile:
  assumes "tq_sorted us xs"
  shows "takeWhile (\<lambda>x. time_overthan t (due us x)) xs = filter (\<lambda>x. time_overthan t (due us x)) xs"
    and "dropWhile (\<lambda>x. time_overthan t (due us x)) xs = filter (\<lambda>x. \<not> time_overthan t (due us x)) xs"
  using while_filter [of "\<lambda>x. time_overthan t (due us x)" xs, OF tq_sorted_late [OF assms]] by blast+

section \<open>The critical sections keep the queue\<close>

lemma next_token_mask: "next_token t \<le> 0x0FFFFFFF"
  unfolding next_token_def by (rule word_and_le1)

lemma arm_event_result:
  fixes q :: TimedEventQ and u :: EventUnit and e :: tq_env and ms :: u32
  assumes "set (mList q) \<subseteq> dom (units q)" "p \<notin> set (mList q)"
  defines "us \<equiv> (units q)(p \<mapsto> u\<lparr>tvAbsolute := time_plus (gtod e (reads q)) ms\<rparr>)"
  shows "arm_event e q p u ms = Some (q\<lparr>reads := Suc (reads q), units := us, mList := insert_sorted us p (mList q)\<rparr>)"
proof -
  have "insert_timed us (due us p) p (mList q) = Some (insert_sorted us p (mList q))"
    by (rule insert_timed_sorted) (use assms in auto)
  then show ?thesis
    by (simp add: arm_event_def gettimeofday_def addEventInternal_def us_def)
qed

lemma tq_sorted_upd: "p \<notin> set xs \<Longrightarrow> tq_sorted (us(p := x)) xs \<longleftrightarrow> tq_sorted us xs"
  by (rule tq_sorted_cong) auto

lemma arm_event_ok:
  assumes "tq_ok q F" "p \<notin> set (mList q)" "p \<notin> set F"
  shows "\<exists>q'. arm_event e q p u ms = Some q' \<and> tq_ok q' F \<and> set (mList q') = insert p (set (mList q)) \<and>
    units q' = (units q)(p \<mapsto> u\<lparr>tvAbsolute := time_plus (gtod e (reads q)) ms\<rparr>) \<and> listToken q' = listToken q \<and>
    calls q' = calls q \<and> reads q' = Suc (reads q)"
  using assms arm_event_result [of q p e u ms]
  by (auto simp: tq_ok_def tq_sorted_insert tq_sorted_upd)

definition alloc_ok :: "tq_env \<Rightarrow> bool" where
  "alloc_ok e \<longleftrightarrow> (\<forall>us p u. newUnit e us = Some (p, u) \<longrightarrow> us p = None)"

text \<open>What the first section of adding an event may do.\<close>

definition added :: "TimedEventQ \<Rightarrow> nat list \<Rightarrow> (nat option \<times> TimedEventQ) option \<Rightarrow> bool" where
  "added q F res \<longleftrightarrow>
     res = Some (None, q) \<or>
     (\<exists>p u q'. res = Some (Some p, q') \<and> units q p = None \<and> tq_ok q' F \<and> units q' = (units q)(p \<mapsto> u))"

lemma arm_fresh:
  assumes "tq_ok q F" "units q p = None"
  shows "added q F (map_option (\<lambda>q'. (Some p, q')) (arm_event e q p u ms))"
proof -
  have "p \<notin> set (mList q)" "p \<notin> set F" using assms by (auto simp: tq_ok_def)
  from arm_event_ok [OF assms(1) this, of e u ms] show ?thesis using assms(2) unfolding added_def by auto
qed

lemma queue_added:
  assumes "tq_ok q F" "alloc_ok e"
  shows "added q F (addLaterEvent_queue e q ms ty h)" "added q F (addPeriodEvent_queue e q ms ty h)"
  using assms arm_fresh by (auto simp: addLaterEvent_queue_def addPeriodEvent_queue_def added_def [of q F "Some (None, q)"] alloc_ok_def
      split: option.split prod.split)

lemma abs_added:
  assumes "tq_ok q F" "alloc_ok e"
  shows "addAbsTimedEvent_queue e q t ty h = Some (None, q) \<or>
    (\<exists>p u q'. addAbsTimedEvent_queue e q t ty h = Some (Some p, q') \<and> units q p = None \<and> tq_ok q' F \<and>
       units q' = (units q)(p \<mapsto> u) \<and> idToken u = listToken q)"
proof (cases "h = 0 \<or> newUnit e (units q) = None")
  case False
  then obtain p u where n: "newUnit e (units q) = Some (p, u)" by auto
  then have p: "units q p = None" using assms(2) by (auto simp: alloc_ok_def)
  then have "p \<notin> set (mList q)" "p \<notin> set F" using assms(1) by (auto simp: tq_ok_def)
  let ?us = "(units q)(p \<mapsto> u\<lparr>tvAbsolute := t, etype := ty, handler := h, idToken := listToken q\<rparr>)"
  have "insert_timed ?us t p (mList q) = Some (insert_sorted ?us p (mList q))"
    by (rule insert_timed_sorted) (use assms(1) in \<open>auto simp: tq_ok_def\<close>)
  then show ?thesis using False n p \<open>p \<notin> set (mList q)\<close> \<open>p \<notin> set F\<close> assms(1)
    by (auto simp: addAbsTimedEvent_queue_def Let_def tq_ok_def tq_sorted_insert tq_sorted_upd next_token_mask)
qed (auto simp: addAbsTimedEvent_queue_def)

lemma take_token_ok:
  assumes "tq_ok q F" "units q p = Some u"
  shows "\<exists>q'. take_token q p = Some q' \<and> tq_ok q' F \<and> units q' = (units q)(p \<mapsto> u\<lparr>idToken := listToken q\<rparr>)"
proof -
  have "tq_sorted ((units q)(p \<mapsto> u\<lparr>idToken := listToken q\<rparr>)) (mList q) \<longleftrightarrow> tq_sorted (units q) (mList q)"
    by (rule tq_sorted_cong) (use assms(2) in auto)
  then show ?thesis using assms by (auto simp: take_token_def tq_ok_def next_token_mask)
qed

lemma masked_sint: "(t :: u32) \<le> 0x0FFFFFFF \<Longrightarrow> sint t \<noteq> - 1"
proof
  assume "t \<le> 0x0FFFFFFF" "sint t = - 1"
  then have "(- 1 :: u32) \<le> 0x0FFFFFFF" by (metis sint_n1 signed_word_eqI)
  then have "sint (0x0FFFFFFF :: u32) = sint (- 1 :: u32)" using word_n1_ge [of "0x0FFFFFFF :: u32"] by (metis antisym)
  then show False by simp
qed

lemma return_token_ok:
  assumes "units q p = Some u" "idToken u \<le> 0x0FFFFFFF"
  shows "return_token q p = Some (sint (idToken u), q)"
  using assms masked_sint by (simp add: return_token_def Let_def)

lemma add_event_ok:
  assumes "tq_ok q F" "alloc_ok e"
  shows "\<exists>tok q'. addLaterEvent e q ms ty h = Some (tok, q') \<and> tq_ok q' F \<and> (tok = - 1 \<longrightarrow> q' = q)"
    "\<exists>tok q'. addPeriodEvent e q ms ty h = Some (tok, q') \<and> tq_ok q' F \<and> (tok = - 1 \<longrightarrow> q' = q)"
proof -
  have "\<exists>tok q'. finish_add r = Some (tok, q') \<and> tq_ok q' F \<and> (tok = - 1 \<longrightarrow> q' = q)" if "added q F r" for r
    using that unfolding added_def
  proof (elim disjE exE conjE)
    fix p u q1
    assume r: "r = Some (Some p, q1)" "tq_ok q1 F" "units q1 = (units q)(p \<mapsto> u)"
    then obtain q2 where q2: "take_token q1 p = Some q2" "tq_ok q2 F" "units q2 = (units q1)(p \<mapsto> u\<lparr>idToken := listToken q1\<rparr>)"
      using take_token_ok [of q1 F p u] by auto
    have "listToken q1 \<le> 0x0FFFFFFF" using r(2) by (simp add: tq_ok_def)
    then have "return_token q2 p = Some (sint (listToken q1), q2)" "sint (listToken q1) \<noteq> - 1"
      using return_token_ok [of q2 p "u\<lparr>idToken := listToken q1\<rparr>"] masked_sint [of "listToken q1"] q2(3) by simp_all
    then show ?thesis using r(1) q2 by (simp add: finish_add_def)
  qed (use assms(1) in \<open>simp add: finish_add_def\<close>)
  then show "\<exists>tok q'. addLaterEvent e q ms ty h = Some (tok, q') \<and> tq_ok q' F \<and> (tok = - 1 \<longrightarrow> q' = q)"
    "\<exists>tok q'. addPeriodEvent e q ms ty h = Some (tok, q') \<and> tq_ok q' F \<and> (tok = - 1 \<longrightarrow> q' = q)"
    using queue_added [OF assms] by (simp_all add: addLaterEvent_def addPeriodEvent_def)
qed

lemma splice_due_ok:
  assumes "tq_ok q F"
  shows "\<exists>d q'. splice_due e q = Some (d, q') \<and> tq_ok q' (d @ F) \<and> units q' = units q"
proof -
  let ?P = "\<lambda>x. time_overthan (gtod e (reads q)) (due (units q) x)"
  let ?d = "takeWhile ?P (mList q)" and ?r = "dropWhile ?P (mList q)"
  have "splice_due e q = Some (?d, q\<lparr>reads := Suc (reads q), mList := ?r\<rparr>)"
    using assms by (simp add: splice_due_def gettimeofday_def tq_ok_def due_prefix_split)
  moreover have "tq_ok (q\<lparr>reads := Suc (reads q), mList := ?r\<rparr>) (?d @ F)"
  proof -
    have "distinct ((?d @ ?r) @ F)" "set ((?d @ ?r) @ F) \<subseteq> dom (units q)" "tq_sorted (units q) (?d @ ?r)"
      using assms by (simp_all add: tq_ok_def)
    then show ?thesis using assms unfolding tq_ok_def tq_sorted_def sorted_wrt_append set_append distinct_append by auto
  qed
  ultimately show ?thesis by (intro exI conjI) (assumption, assumption, simp)
qed

definition same_tokens :: "TimedEventQ \<Rightarrow> TimedEventQ \<Rightarrow> bool" where
  "same_tokens q q' \<longleftrightarrow> (\<forall>x. units q' x = None \<or> map_option idToken (units q' x) = map_option idToken (units q x))"

lemma dispatch_ok:
  assumes "tq_ok q F" "p \<in> set F"
  shows "\<exists>per q'. dispatch q p = Some (per, q') \<and> tq_ok q' F \<and> same_tokens q q'"
proof -
  have "p \<in> dom (units q)" "p \<notin> set (mList q)" using assms by (auto simp: tq_ok_def)
  then obtain u where u: "units q p = Some u" "p \<notin> set (mList q)" by blast
  then show ?thesis using assms by (cases "etype u") (auto simp: dispatch_def tq_ok_def tq_sorted_upd same_tokens_def)
qed

lemma finish_unit_ok:
  assumes "tq_ok q (p # F)"
  shows "\<exists>q'. finish_unit e per q p = Some q' \<and> tq_ok q' F \<and> same_tokens q q' \<and> (\<forall>x. x \<noteq> p \<longrightarrow> units q' x = units q x)"
proof -
  obtain u where u: "units q p = Some u" using assms by (auto simp: tq_ok_def)
  have q: "tq_ok q F" "p \<notin> set (mList q)" "p \<notin> set F" using assms by (auto simp: tq_ok_def)
  show ?thesis
  proof (cases per)
    case True
    then show ?thesis using arm_event_ok [OF q, of e u "period u"] u by (auto simp: finish_unit_def same_tokens_def)
  next
    case False
    then show ?thesis using q u by (auto simp: finish_unit_def tq_ok_def tq_sorted_upd same_tokens_def)
  qed
qed

lemma find_event_result:
  "set xs \<subseteq> dom us \<Longrightarrow> find_event us t xs = Some (find (\<lambda>x. idToken (the (us x)) = t) xs)"
  by (induction xs) auto

lemma delTimedEvent_result:
  assumes "set (mList q) \<subseteq> dom (units q)"
  shows "delTimedEvent q t = (if \<exists>p \<in> set (mList q). idToken (the (units q p)) = t then None else Some (0, q))"
proof (cases "find (\<lambda>x. idToken (the (units q x)) = t) (mList q)")
  case None
  moreover from None have "\<not> (\<exists>p \<in> set (mList q). idToken (the (units q p)) = t)" by (auto simp: find_None_iff)
  ultimately show ?thesis using find_event_result [OF assms, of t] by (simp add: delTimedEvent_def)
next
  case (Some p)
  then have "\<exists>p \<in> set (mList q). idToken (the (units q p)) = t" by (auto simp: find_Some_iff)
  then show ?thesis using Some assms find_event_result [of "mList q" "units q" t] by (simp add: delTimedEvent_def)
qed

section \<open>Threads\<close>

text \<open>
  Several threads work on one queue.  A thread that adds an event is between its first and its second
  section (\<open>Adding\<close>) or about to read the token again (\<open>Returning\<close>); a thread in
  \<open>handleAlarmEvent\<close> has a private list of units to fire.  A step is one critical section or the
  unlocked code between two of them; its result is \<open>None\<close> when it touches a deleted unit.  Cancelling is
  one section that runs between the steps.
\<close>

datatype tq_thread = Adding nat | Returning nat | Firing "nat list" | Finishing bool nat "nat list"

type_synonym tq_sys = "TimedEventQ \<times> tq_thread list"

definition begin_add :: "(nat \<Rightarrow> tq_thread) \<Rightarrow> tq_thread list \<Rightarrow> (nat option \<times> TimedEventQ) option \<Rightarrow> tq_sys option" where
  "begin_add t ts = map_option (\<lambda>(r, q). (q, case r of None \<Rightarrow> ts | Some p \<Rightarrow> t p # ts))"

inductive tq_step :: "tq_env \<Rightarrow> tq_sys \<Rightarrow> tq_sys option \<Rightarrow> bool" for e where
  step_later: "tq_step e (q, ts) (begin_add Adding ts (addLaterEvent_queue e q ms ty h))"
| step_period: "tq_step e (q, ts) (begin_add Adding ts (addPeriodEvent_queue e q ms ty h))"
| step_abs: "tq_step e (q, ts) (begin_add Returning ts (addAbsTimedEvent_queue e q t ty h))"
| step_token: "tq_step e (q, xs @ Adding p # ys) (map_option (\<lambda>q'. (q', xs @ Returning p # ys)) (take_token q p))"
| step_return: "tq_step e (q, xs @ Returning p # ys) (map_option (\<lambda>(_, q'). (q', xs @ ys)) (return_token q p))"
| step_alarm: "tq_step e (q, ts) (map_option (\<lambda>(d, q'). (q', Firing d # ts)) (splice_due e q))"
| step_dispatch: "tq_step e (q, xs @ Firing (p # d) # ys) (map_option (\<lambda>(per, q'). (q', xs @ Finishing per p d # ys)) (dispatch q p))"
| step_finish: "tq_step e (q, xs @ Finishing per p d # ys) (map_option (\<lambda>q'. (q', xs @ Firing d # ys)) (finish_unit e per q p))"

fun fired :: "tq_thread \<Rightarrow> nat list" where
  "fired (Adding p) = []"
| "fired (Returning p) = []"
| "fired (Firing d) = d"
| "fired (Finishing per p d) = p # d"

definition owned :: "tq_thread list \<Rightarrow> nat list" where "owned ts = concat (map fired ts)"

definition in_progress :: "tq_thread list \<Rightarrow> nat \<Rightarrow> bool" where
  "in_progress ts p \<longleftrightarrow> Adding p \<in> set ts \<or> Returning p \<in> set ts"

text \<open>A step is calm when it deletes no unit whose addition has not returned yet.\<close>

fun calm :: "tq_sys \<Rightarrow> tq_sys \<Rightarrow> bool" where
  "calm (q, ts) (q', ts') \<longleftrightarrow> (\<forall>p. in_progress ts p \<longrightarrow> units q' p \<noteq> None)"

fun sys_ok :: "tq_sys \<Rightarrow> bool" where
  "sys_ok (q, ts) \<longleftrightarrow> tq_ok q (owned ts) \<and>
     (\<forall>p. Adding p \<in> set ts \<longrightarrow> units q p \<noteq> None) \<and>
     (\<forall>p. Returning p \<in> set ts \<longrightarrow> (\<exists>u. units q p = Some u \<and> idToken u \<le> 0x0FFFFFFF))"

inductive tq_reach :: "tq_env \<Rightarrow> tq_sys \<Rightarrow> bool" for e where
  reach_start: "tq_reach e (TimedEventQ_init e, [])"
| reach_step: "tq_reach e c \<Longrightarrow> tq_step e c (Some c') \<Longrightarrow> calm c c' \<Longrightarrow> tq_reach e c'"
| reach_cancel: "tq_reach e (q, ts) \<Longrightarrow> delTimedEvent q token = Some (h, q') \<Longrightarrow> tq_reach e (q', ts)"

lemma owned_simps [simp]:
  "owned [] = []" "owned (t # ts) = fired t @ owned ts" "owned (xs @ ys) = owned xs @ owned ys"
  by (simp_all add: owned_def)

lemma tq_ok_perm: "tq_ok q F \<Longrightarrow> set F' = set F \<Longrightarrow> distinct F' \<Longrightarrow> tq_ok q F'"
  by (auto simp: tq_ok_def)

lemma tq_ok_token: "tq_ok q F \<Longrightarrow> listToken q \<le> 0x0FFFFFFF"
  by (simp add: tq_ok_def)

lemma begin_add_ok:
  assumes "sys_ok (q, ts)" "added q (owned ts) r"
  shows "\<exists>c'. begin_add Adding ts r = Some c' \<and> sys_ok c'"
proof -
  have "Returning p \<notin> set ts" if "units q p = None" for p using that assms(1) by auto
  then show ?thesis using assms by (auto simp: added_def begin_add_def)
qed

lemma step_token_ok:
  assumes "sys_ok (q, xs @ Adding p # ys)"
  shows "\<exists>q'. take_token q p = Some q' \<and> sys_ok (q', xs @ Returning p # ys)"
proof -
  obtain u where u: "units q p = Some u" using assms by auto
  then obtain q' where "take_token q p = Some q'" "tq_ok q' (owned (xs @ Adding p # ys))"
    "units q' = (units q)(p \<mapsto> u\<lparr>idToken := listToken q\<rparr>)"
    using take_token_ok assms by (metis sys_ok.simps)
  moreover have "listToken q \<le> 0x0FFFFFFF" using assms tq_ok_token by auto
  ultimately show ?thesis using assms by auto
qed

lemma kept_ok:
  assumes "sys_ok (q, ts)" "calm (q, ts) (q', ts')" "tq_ok q' (owned ts')"
    and "\<And>p. in_progress ts' p \<Longrightarrow> in_progress ts p" "\<And>p. Returning p \<in> set ts' \<Longrightarrow> Returning p \<in> set ts"
    and "same_tokens q q'"
  shows "sys_ok (q', ts')"
proof -
  have "\<exists>u. units q' p = Some u \<and> idToken u \<le> 0x0FFFFFFF" if "Returning p \<in> set ts'" for p
  proof -
    have "Returning p \<in> set ts" using that assms(5) by blast
    then obtain u where "units q p = Some u" "idToken u \<le> 0x0FFFFFFF" "units q' p \<noteq> None"
      using assms(1,2) by (auto simp: in_progress_def)
    then show ?thesis using assms(6) by (auto simp: same_tokens_def dest!: spec [of _ p])
  qed
  moreover have "units q' p \<noteq> None" if "Adding p \<in> set ts'" for p
    using that assms(2,4) by (auto simp: in_progress_def)
  ultimately show ?thesis using assms(3) by simp
qed

lemma tq_step_ok:
  assumes "tq_step e c r" "alloc_ok e" "sys_ok c"
  shows "\<exists>c'. r = Some c' \<and> (calm c c' \<longrightarrow> sys_ok c')"
  using assms(1,3)
proof cases
  case (step_later q ts ms ty h)
  then show ?thesis using begin_add_ok [OF _ queue_added(1) [OF _ assms(2)]] assms(3) by (metis sys_ok.simps)
next
  case (step_period q ts ms ty h)
  then show ?thesis using begin_add_ok [OF _ queue_added(2) [OF _ assms(2)]] assms(3) by (metis sys_ok.simps)
next
  case (step_abs q ts t ty h)
  then show ?thesis using abs_added [OF _ assms(2), of q "owned ts" t ty h] assms(3)
    by (auto simp: begin_add_def dest: tq_ok_token)
next
  case (step_token q xs p ys)
  then show ?thesis using step_token_ok [of q xs p ys] assms(3) by auto
next
  case (step_return q xs p ys)
  then obtain u where "units q p = Some u" "idToken u \<le> 0x0FFFFFFF" using assms(3) by auto
  then show ?thesis using step_return return_token_ok assms(3) by auto
next
  case (step_alarm q ts)
  then show ?thesis using splice_due_ok [of q "owned ts" e] assms(3) by auto
next
  case (step_dispatch q xs p d ys)
  then have ok: "sys_ok (q, xs @ Firing (p # d) # ys)" using assms(3) by simp
  then have "tq_ok q (owned (xs @ Firing (p # d) # ys))" by (rule sys_ok.simps [THEN iffD1, THEN conjunct1])
  note d = dispatch_ok [OF this, of p]
  then obtain per q' where d: "dispatch q p = Some (per, q')" "tq_ok q' (owned (xs @ Firing (p # d) # ys))" "same_tokens q q'"
    by auto
  have "sys_ok (q', xs @ Finishing per p d # ys)" if "calm c (q', xs @ Finishing per p d # ys)"
    by (rule kept_ok [of q "xs @ Firing (p # d) # ys"]) (use d ok step_dispatch(1) that in \<open>auto simp: in_progress_def\<close>)
  moreover have "r = Some (q', xs @ Finishing per p d # ys)" using step_dispatch(2) d(1) by simp
  ultimately show ?thesis by blast
next
  case (step_finish q xs per p d ys)
  have "tq_ok q (p # owned (xs @ Firing d # ys))"
    using assms(3) step_finish by (auto elim!: tq_ok_perm simp: tq_ok_def)
  then obtain q' where f: "finish_unit e per q p = Some q'" "tq_ok q' (owned (xs @ Firing d # ys))"
    "same_tokens q q'"
    using finish_unit_ok by metis
  have "sys_ok (q', xs @ Firing d # ys)" if "calm c (q', xs @ Firing d # ys)"
    by (rule kept_ok [of q "xs @ Finishing per p d # ys"]) (use f step_finish assms(3) that in \<open>auto simp: in_progress_def\<close>)
  moreover have "r = Some (q', xs @ Firing d # ys)" using step_finish(2) f(1) by simp
  ultimately show ?thesis by blast
qed

lemma tq_reach_ok:
  assumes "tq_reach e c" "alloc_ok e"
  shows "sys_ok c"
  using assms(1)
proof induction
  case reach_start
  show ?case by (simp add: TimedEventQ_init_def tq_ok_def tq_sorted_def)
next
  case (reach_step c c')
  then show ?case using tq_step_ok [OF _ assms(2)] by blast
next
  case (reach_cancel q ts token h q')
  moreover have "set (mList q) \<subseteq> dom (units q)" using reach_cancel.IH by (simp add: tq_ok_def)
  ultimately show ?case using delTimedEvent_result [of q token] by (simp split: if_splits)
qed

section \<open>What firing does\<close>

definition periodic :: "EventUnit \<Rightarrow> bool" where
  "periodic u \<longleftrightarrow> etype u = PERIOD_CONDITION \<or> etype u = PERIOD_SEMAPHORE"

definition call_of :: "EventUnit \<Rightarrow> tq_call" where
  "call_of u =
     (case etype u of
        TIMED_CALLBACK \<Rightarrow> HandleTimeout (handler u)
      | TIMED_RECYCLE \<Rightarrow> DeleteHandler (handler u)
      | PERIOD_CONDITION \<Rightarrow> CondSignal (handler u)
      | PERIOD_SEMAPHORE \<Rightarrow> SemPost (handler u))"

definition after_firing :: "tq_env \<Rightarrow> nat \<Rightarrow> EventUnit \<Rightarrow> EventUnit option \<Rightarrow> bool" where
  \<comment> \<open>a periodic unit is due one period after a reading of the clock that is not before the \<open>n\<close>-th; others are gone\<close>
  "after_firing e n u r \<longleftrightarrow>
     (if periodic u then \<exists>k \<ge> n. r = Some (u\<lparr>tvAbsolute := time_plus (gtod e k) (period u)\<rparr>) else r = None)"

lemma fire_unit_result:
  assumes "tq_ok q (p # F)" "units q p = Some u"
  shows "\<exists>q'. fire_unit e q p = Some q' \<and> tq_ok q' F \<and> calls q' = calls q @ [call_of u] \<and> reads q \<le> reads q' \<and>
    set (mList q') = set (mList q) \<union> (if periodic u then {p} else {}) \<and>
    (\<forall>x. x \<noteq> p \<longrightarrow> units q' x = units q x) \<and> after_firing e (reads q) u (units q' p)"
proof -
  have q: "tq_ok q F" "p \<notin> set (mList q)" "p \<notin> set F" using assms(1) by (auto simp: tq_ok_def)
  show ?thesis
  proof (cases "periodic u")
    case True
    let ?q = "q\<lparr>calls := calls q @ [call_of u]\<rparr>"
    have "fire_unit e q p = arm_event e ?q p u (period u)" using True assms(2)
      by (cases "etype u") (auto simp: fire_unit_def dispatch_def finish_unit_def periodic_def call_of_def)
    moreover have "tq_ok ?q F" using q(1) by (simp add: tq_ok_def)
    ultimately show ?thesis using arm_event_ok [of ?q F p e u "period u"] q True by (auto simp: after_firing_def)
  next
    case False
    then have "fire_unit e q p = Some (q\<lparr>calls := calls q @ [call_of u], units := (units q)(p := None)\<rparr>)" using assms(2)
      by (cases "etype u") (auto simp: fire_unit_def dispatch_def finish_unit_def periodic_def call_of_def)
    then show ?thesis using q False by (auto simp: tq_ok_def tq_sorted_upd after_firing_def)
  qed
qed

lemma fire_all_result:
  assumes "tq_ok q D"
  shows "\<exists>q'. fire_all e q D = Some q' \<and> tq_ok q' [] \<and> calls q' = calls q @ map (\<lambda>p. call_of (the (units q p))) D \<and>
    set (mList q') = set (mList q) \<union> {p \<in> set D. periodic (the (units q p))} \<and>
    (\<forall>x. x \<notin> set D \<longrightarrow> units q' x = units q x) \<and>
    (\<forall>p \<in> set D. after_firing e (reads q) (the (units q p)) (units q' p))"
  using assms
proof (induction D arbitrary: q)
  case (Cons p D)
  then obtain u where u: "units q p = Some u" "p \<notin> set D" "p \<notin> set (mList q)" by (auto simp: tq_ok_def)
  obtain q1 where 1: "fire_unit e q p = Some q1" "tq_ok q1 D" "calls q1 = calls q @ [call_of u]" "reads q \<le> reads q1"
    "set (mList q1) = set (mList q) \<union> (if periodic u then {p} else {})"
    "\<forall>x. x \<noteq> p \<longrightarrow> units q1 x = units q x" "after_firing e (reads q) u (units q1 p)"
    using fire_unit_result [OF Cons.prems u(1)] by blast
  obtain q2 where 2: "fire_all e q1 D = Some q2" "tq_ok q2 []" "calls q2 = calls q1 @ map (\<lambda>p. call_of (the (units q1 p))) D"
    "set (mList q2) = set (mList q1) \<union> {p \<in> set D. periodic (the (units q1 p))}"
    "\<forall>x. x \<notin> set D \<longrightarrow> units q2 x = units q1 x" "\<forall>p \<in> set D. after_firing e (reads q1) (the (units q1 p)) (units q2 p)"
    using Cons.IH [OF 1(2)] by blast
  have same: "units q1 x = units q x" if "x \<in> set D" for x using that u(2) 1(6) by metis
  have mp: "map (\<lambda>p. call_of (the (units q1 p))) D = map (\<lambda>p. call_of (the (units q p))) D" using same by simp
  have per: "{p \<in> set D. periodic (the (units q1 p))} = {p \<in> set D. periodic (the (units q p))}" using same by auto
  have "after_firing e (reads q) (the (units q x)) (units q2 x)" if "x \<in> set D" for x
    using 2(6) that same 1(4) unfolding after_firing_def by (metis le_trans)
  moreover have "after_firing e (reads q) u (units q2 p)" using 1(7) 2(5) u(2) by simp
  ultimately have "\<forall>x \<in> set (p # D). after_firing e (reads q) (the (units q x)) (units q2 x)" using u(1) by simp
  moreover have "\<forall>x. x \<notin> set (p # D) \<longrightarrow> units q2 x = units q x" using 1(6) 2(5) by simp
  moreover have "set (mList q2) = set (mList q) \<union> {x \<in> set (p # D). periodic (the (units q x))}"
    unfolding 2(4) per 1(5) using u(1) by auto
  ultimately show ?case using 1(1,3) 2(1,2,3) u(1) mp by (intro exI [of _ q2]) simp
qed (simp add: tq_ok_def)

lemma handleAlarm_result:
  fixes q :: TimedEventQ and e :: tq_env
  assumes "tq_ok q []"
  defines "D \<equiv> filter (\<lambda>p. time_overthan (gtod e (reads q)) (tvAbsolute (the (units q p)))) (mList q)"
  shows "\<exists>q'. handleAlarmEvent e q = Some q' \<and> tq_ok q' [] \<and>
    calls q' = calls q @ map (\<lambda>p. call_of (the (units q p))) D \<and>
    set (mList q') = {p \<in> set (mList q). p \<in> set D \<longrightarrow> periodic (the (units q p))} \<and>
    (\<forall>p. p \<notin> set D \<longrightarrow> units q' p = units q p) \<and>
    (\<forall>p \<in> set D. after_firing e (Suc (reads q)) (the (units q p)) (units q' p))"
proof -
  let ?P = "\<lambda>p. time_overthan (gtod e (reads q)) (tvAbsolute (the (units q p)))"
  have m: "set (mList q) \<subseteq> dom (units q)" "tq_sorted (units q) (mList q)" "distinct (mList q)"
    using assms(1) by (simp_all add: tq_ok_def)
  let ?q1 = "q\<lparr>reads := Suc (reads q), mList := filter (\<lambda>p. \<not> ?P p) (mList q)\<rparr>"
  have s: "splice_due e q = Some (D, ?q1)"
    using m by (simp add: splice_due_def gettimeofday_def due_prefix_split tq_sorted_takeWhile D_def)
  then have "tq_ok ?q1 D" using splice_due_ok [OF assms(1), of e] by auto
  from fire_all_result [OF this, of e] obtain q' where q': "fire_all e ?q1 D = Some q'" "tq_ok q' []"
    "calls q' = calls q @ map (\<lambda>p. call_of (the (units q p))) D"
    "set (mList q') = set (filter (\<lambda>p. \<not> ?P p) (mList q)) \<union> {p \<in> set D. periodic (the (units q p))}"
    "\<forall>p. p \<notin> set D \<longrightarrow> units q' p = units q p"
    "\<forall>p \<in> set D. after_firing e (Suc (reads q)) (the (units q p)) (units q' p)"
    by auto
  have "set (mList q') = {p \<in> set (mList q). p \<in> set D \<longrightarrow> periodic (the (units q p))}"
    unfolding q'(4) by (auto simp: D_def)
  then show ?thesis using s q' by (intro exI [of _ q']) (simp add: handleAlarmEvent_def)
qed

section \<open>Properties\<close>

text \<open>
  C25.  Firing.  On a well-formed queue, \<open>handleAlarmEvent\<close> calls the handlers of exactly the events
  whose deadline has come, in the order of their deadlines; one-shot events are deleted, a periodic
  event is queued again one period after a later reading of the clock, every other event stays as it
  was, and the queue is sorted by deadline again.
\<close>

theorem handleAlarmEvent_fires_due:
  fixes q :: TimedEventQ and e :: tq_env
  assumes "tq_ok q []"
  defines "D \<equiv> filter (\<lambda>p. time_overthan (gtod e (reads q)) (tvAbsolute (the (units q p)))) (mList q)"
  shows "\<exists>q'. handleAlarmEvent e q = Some q' \<and> tq_ok q' [] \<and>
    calls q' = calls q @ map (\<lambda>p. call_of (the (units q p))) D \<and>
    set (mList q') = {p \<in> set (mList q). p \<in> set D \<longrightarrow> periodic (the (units q p))} \<and>
    (\<forall>p. p \<notin> set D \<longrightarrow> units q' p = units q p) \<and>
    (\<forall>p \<in> set D. after_firing e (Suc (reads q)) (the (units q p)) (units q' p))"
  unfolding D_def by (rule handleAlarm_result [OF assms(1)])

definition demo_unit :: "int \<Rightarrow> EventType \<Rightarrow> nat \<Rightarrow> u32 \<Rightarrow> EventUnit" where
  "demo_unit s ty h tk = \<lparr>tvAbsolute = \<lparr>tv_sec = s, tv_usec = 0\<rparr>, etype = ty, handler = h, idToken = tk, period = 1000\<rparr>"

definition demo_env :: tq_env where
  "demo_env = \<lparr>gtod = \<lambda>n. \<lparr>tv_sec = int n, tv_usec = 0\<rparr>,
     newUnit = \<lambda>us. if us 4 = None then Some (4, demo_unit 0 TIMED_CALLBACK 0 7) else None\<rparr>"

definition demo_queue :: TimedEventQ where
  "demo_queue = \<lparr>listToken = 3, tvLastSync = \<lparr>tv_sec = 0, tv_usec = 0\<rparr>, mList = [2, 1, 3],
     units = [1 \<mapsto> demo_unit 4 TIMED_CALLBACK 100 0, 2 \<mapsto> demo_unit 2 PERIOD_SEMAPHORE 200 1, 3 \<mapsto> demo_unit 9 TIMED_RECYCLE 300 2],
     reads = 5, calls = []\<rparr>"

lemma demo_queue_ok: "tq_ok demo_queue []" "alloc_ok demo_env"
  by (simp_all add: tq_ok_def tq_sorted_def demo_queue_def demo_unit_def time_overthan_def alloc_ok_def demo_env_def)

theorem handleAlarmEvent_fires_due_witness:
  "\<exists>q'. handleAlarmEvent demo_env demo_queue = Some q' \<and> calls q' = [SemPost 200, HandleTimeout 100] \<and>
     set (mList q') = {2, 3} \<and> units q' 1 = None"
  using handleAlarmEvent_fires_due [OF demo_queue_ok(1), of demo_env]
  by (auto simp: demo_queue_def demo_unit_def demo_env_def time_overthan_def call_of_def periodic_def after_firing_def)

text \<open>
  C24.  Threads.  Take any interleaving of the critical sections of adding, cancelling and firing events in
  which no event is deleted before the call that adds it has returned and no cancelling has found its
  event.  Then the queue is sorted by deadline, has no unit twice and no deleted unit, shares no unit with a
  thread that is firing, and no next step of a thread that adds or fires touches a deleted unit; a
  cancelling touches one exactly when an event with its token is queued, for it reads the handler of the
  unit that it has just deleted, and otherwise changes nothing.
\<close>

theorem timed_queue_interleavings:
  assumes "tq_reach e (q, ts)" "alloc_ok e"
  shows "sorted_wrt (\<lambda>x y. time_overthan (tvAbsolute (the (units q y))) (tvAbsolute (the (units q x)))) (mList q) \<and>
    distinct (mList q @ owned ts) \<and> set (mList q @ owned ts) \<subseteq> dom (units q) \<and>
    (\<forall>r. tq_step e (q, ts) r \<longrightarrow> r \<noteq> None) \<and>
    (\<forall>token. delTimedEvent q token = (if \<exists>p \<in> set (mList q). idToken (the (units q p)) = token then None else Some (0, q)))"
proof -
  have ok: "sys_ok (q, ts)" using tq_reach_ok [OF assms] .
  then have "tq_ok q (owned ts)" by simp
  moreover from this have "set (mList q) \<subseteq> dom (units q)" by (simp add: tq_ok_def)
  note delTimedEvent_result [OF this]
  moreover have "r \<noteq> None" if "tq_step e (q, ts) r" for r using tq_step_ok [OF that assms(2) ok] by auto
  ultimately show ?thesis by (simp add: tq_ok_def tq_sorted_def)
qed

theorem timed_queue_interleavings_witness:
  "\<exists>q. tq_reach demo_env (q, [Firing [], Adding 4]) \<and> mList q = [4] \<and> set (mList q) \<subseteq> dom (units q)"
proof -
  define q0 where "q0 = TimedEventQ_init demo_env"
  have ok: "tq_ok q0 []" by (simp add: q0_def TimedEventQ_init_def tq_ok_def tq_sorted_def)
  let ?u = "(demo_unit 0 TIMED_CALLBACK 0 7)\<lparr>etype := TIMED_CALLBACK, handler := 9, tvAbsolute := time_plus \<lparr>tv_sec = 1, tv_usec = 0\<rparr> 2000\<rparr>"
  define q1 where "q1 = q0\<lparr>reads := 2, units := [4 \<mapsto> ?u], mList := [4]\<rparr>"
  have a: "addLaterEvent_queue demo_env q0 2000 TIMED_CALLBACK 9 = Some (Some 4, q1)"
    by (simp add: addLaterEvent_queue_def q0_def q1_def TimedEventQ_init_def demo_env_def arm_event_def gettimeofday_def
        addEventInternal_def MAX_PERIOD_DELAY_def demo_unit_def)
  have "tq_reach demo_env (q0, [])" unfolding q0_def by (rule reach_start)
  moreover have "tq_step demo_env (q0, []) (Some (q1, [Adding 4]))"
    using step_later [of demo_env q0 "[]" 2000 TIMED_CALLBACK 9] by (simp add: a begin_add_def)
  ultimately have r1: "tq_reach demo_env (q1, [Adding 4])" by (rule reach_step) (simp add: in_progress_def)
  have tp: "time_plus \<lparr>tv_sec = 1, tv_usec = 0\<rparr> 2000 = \<lparr>tv_sec = 3, tv_usec = 0\<rparr>"
    by (simp add: time_plus_def MAX_PERIOD_DELAY_def c_int_id time_carry_exact)
  have "splice_due demo_env q1 = Some ([], q1\<lparr>reads := 3\<rparr>)"
    by (simp add: splice_due_def gettimeofday_def q1_def demo_env_def time_overthan_def tp)
  then have "tq_step demo_env (q1, [Adding 4]) (Some (q1\<lparr>reads := 3\<rparr>, [Firing [], Adding 4]))"
    using step_alarm [of demo_env q1 "[Adding 4]"] by simp
  then have r2: "tq_reach demo_env (q1\<lparr>reads := 3\<rparr>, [Firing [], Adding 4])"
    by (rule reach_step [OF r1]) (simp add: in_progress_def q1_def)
  show ?thesis using r2 timed_queue_interleavings [OF r2 demo_queue_ok(2)]
    by (intro exI [of _ "q1\<lparr>reads := 3\<rparr>"]) (simp add: q1_def)
qed

text \<open>
  The condition of the previous property is needed: the events of \<open>addLaterEvent\<close> are queued before
  they have a token.  When another thread fires the events between the two critical sections and the
  new event is already due, the second section and the read of the token touch the deleted unit.
\<close>

theorem addLaterEvent_race:
  assumes "tq_ok q []" "alloc_ok e" "addLaterEvent_queue e q ms ty h = Some (Some p, q1)"
    and "time_overthan (gtod e (reads q1)) (tvAbsolute (the (units q1 p)))"
  shows "\<exists>q2. handleAlarmEvent e q1 = Some q2 \<and> take_token q2 p = None \<and> return_token q2 p = None"
proof -
  obtain u where n: "newUnit e (units q) = Some (p, u)" "ty = TIMED_CALLBACK \<or> ty = TIMED_RECYCLE"
    and a: "arm_event e q p (u\<lparr>etype := ty, handler := h\<rparr>) ms = Some q1"
    using assms(3) by (auto simp: addLaterEvent_queue_def split: if_splits option.splits)
  have p: "p \<notin> set (mList q)" "p \<notin> set []" using n(1) assms(1,2) by (auto simp: alloc_ok_def tq_ok_def)
  have q1: "tq_ok q1 []" "p \<in> set (mList q1)" "\<not> periodic (the (units q1 p))"
    using arm_event_ok [OF assms(1) p, of e "u\<lparr>etype := ty, handler := h\<rparr>" ms] a n(2) by (auto simp: periodic_def)
  obtain q2 where "handleAlarmEvent e q1 = Some q2" "after_firing e (Suc (reads q1)) (the (units q1 p)) (units q2 p)"
    using handleAlarm_result [OF q1(1), of e] q1(2) assms(4) by auto
  then show ?thesis using q1(3) by (auto simp: after_firing_def take_token_def return_token_def)
qed

theorem addLaterEvent_race_witness:
  "\<exists>q1 q2. addLaterEvent_queue demo_env demo_queue 0 TIMED_CALLBACK 9 = Some (Some 4, q1) \<and>
     handleAlarmEvent demo_env q1 = Some q2 \<and> take_token q2 4 = None"
proof -
  have z: "time_plus \<lparr>tv_sec = 5, tv_usec = 0\<rparr> 0 = \<lparr>tv_sec = 5, tv_usec = 0\<rparr>"
    by (simp add: time_plus_def MAX_PERIOD_DELAY_def c_int_id time_carry_exact)
  obtain q1 where a: "addLaterEvent_queue demo_env demo_queue 0 TIMED_CALLBACK 9 = Some (Some 4, q1)"
    and "reads q1 = 6" "tvAbsolute (the (units q1 4)) = \<lparr>tv_sec = 5, tv_usec = 0\<rparr>"
    by (simp add: addLaterEvent_queue_def demo_queue_def demo_env_def arm_event_def gettimeofday_def
        addEventInternal_def MAX_PERIOD_DELAY_def demo_unit_def z time_overthan_def)
  then have "time_overthan (gtod demo_env (reads q1)) (tvAbsolute (the (units q1 4)))"
    by (simp add: demo_env_def time_overthan_def)
  then show ?thesis using addLaterEvent_race [OF demo_queue_ok a] a by blast
qed

lemma insert_sorted_upd:
  assumes "p \<notin> set xs"
  shows "insert_sorted (us(p \<mapsto> v)) p xs =
    takeWhile (\<lambda>x. time_overthan (tvAbsolute v) (due us x)) xs @ p # dropWhile (\<lambda>x. time_overthan (tvAbsolute v) (due us x)) xs"
proof -
  let ?P = "\<lambda>x. time_overthan (due (us(p \<mapsto> v)) p) (due (us(p \<mapsto> v)) x)" and ?Q = "\<lambda>x. time_overthan (tvAbsolute v) (due us x)"
  have "takeWhile ?P xs = takeWhile ?Q xs" "dropWhile ?P xs = dropWhile ?Q xs"
    by (rule takeWhile_cong dropWhile_cong; use assms in auto)+
  then show ?thesis by (simp only: insert_sorted_def)
qed

text \<open>
  Adding and cancelling in one thread.  An accepted request gets the next token, its deadline is the
  asked-for number of milliseconds after the reading of the clock (for readings before January 2038), and
  it is queued behind the events that are due no later.  Cancelling the token it has got then touches the
  deleted unit: there is no cancelling of a pending event without undefined behaviour.
\<close>

theorem addLaterEvent_deadline:
  fixes q :: TimedEventQ and e :: tq_env
  assumes "tq_ok q []" "alloc_ok e" "h \<noteq> 0" "unat ms \<le> MAX_PERIOD_DELAY" "ty = TIMED_CALLBACK \<or> ty = TIMED_RECYCLE"
    and "newUnit e (units q) = Some (p, g)" "norm_tv (gtod e (reads q))" "tv_sec (gtod e (reads q)) \<le> 2147481499"
  shows "\<exists>q1 u. addLaterEvent e q ms ty h = Some (sint (listToken q), q1) \<and> units q1 p = Some u \<and>
    usecs (tvAbsolute u) = usecs (gtod e (reads q)) + 1000 * uint ms \<and> handler u = h \<and> etype u = ty \<and>
    mList q1 = takeWhile (\<lambda>x. time_overthan (tvAbsolute u) (tvAbsolute (the (units q x)))) (mList q) @ p #
      dropWhile (\<lambda>x. time_overthan (tvAbsolute u) (tvAbsolute (the (units q x)))) (mList q) \<and>
    delTimedEvent q1 (listToken q) = None"
proof -
  have m: "set (mList q) \<subseteq> dom (units q)" "units q p = None" "listToken q \<le> 0x0FFFFFFF"
    using assms(1,2,6) by (auto simp: tq_ok_def alloc_ok_def)
  then have p: "p \<notin> set (mList q)" by blast
  define v where "v = g\<lparr>etype := ty, handler := h, tvAbsolute := time_plus (gtod e (reads q)) ms\<rparr>"
  define us where "us = (units q)(p \<mapsto> v)"
  define q0 where "q0 = q\<lparr>reads := Suc (reads q), units := us, mList := insert_sorted us p (mList q)\<rparr>"
  have a: "addLaterEvent_queue e q ms ty h = Some (Some p, q0)"
    using assms(3,4,5,6) arm_event_result [OF m(1) p, of e "g\<lparr>etype := ty, handler := h\<rparr>" ms]
    by (auto simp: addLaterEvent_queue_def q0_def us_def v_def)
  define u where "u = v\<lparr>idToken := listToken q\<rparr>"
  define q1 where "q1 = q0\<lparr>units := us(p \<mapsto> u), listToken := next_token (listToken q)\<rparr>"
  have "take_token q0 p = Some q1" by (simp add: take_token_def q0_def q1_def us_def u_def)
  moreover have "return_token q1 p = Some (sint (listToken q), q1)"
    using return_token_ok [of q1 p u] m(3) by (simp add: q1_def u_def)
  ultimately have add: "addLaterEvent e q ms ty h = Some (sint (listToken q), q1)"
    by (simp add: addLaterEvent_def a finish_add_def)
  have q1: "units q1 = (units q)(p \<mapsto> u)" "mList q1 = insert_sorted us p (mList q)" by (simp_all add: q1_def q0_def us_def)
  have mem: "set (mList q1) = insert p (set (mList q))" by (simp add: q1(2))
  then have "set (mList q1) \<subseteq> dom (units q1)" using q1(1) m(1) by auto
  then have del: "delTimedEvent q1 (listToken q) = None"
    using delTimedEvent_result [of q1 "listToken q"] mem q1(1) by (auto simp: u_def)
  have ins: "insert_sorted us p (mList q) = takeWhile (\<lambda>x. time_overthan (tvAbsolute u) (due (units q) x)) (mList q) @ p #
      dropWhile (\<lambda>x. time_overthan (tvAbsolute u) (due (units q) x)) (mList q)"
    using insert_sorted_upd [OF p, of "units q" v] by (simp add: us_def u_def)
  have "usecs (tvAbsolute u) = usecs (gtod e (reads q)) + 1000 * uint ms" "handler u = h" "etype u = ty"
    using time_plus_exact(2) [OF assms(7,4,8)] by (simp_all add: u_def v_def)
  moreover have "units q1 p = Some u" using q1(1) by simp
  ultimately show ?thesis using add del q1(2) [unfolded ins] by blast
qed

theorem addLaterEvent_deadline_witness:
  "\<exists>q1. addLaterEvent demo_env demo_queue 1500 TIMED_CALLBACK 9 = Some (3, q1) \<and> mList q1 = [2, 1, 4, 3] \<and>
     delTimedEvent q1 3 = None"
proof -
  have h: "newUnit demo_env (units demo_queue) = Some (4, demo_unit 0 TIMED_CALLBACK 0 7)" "unat (1500 :: u32) \<le> MAX_PERIOD_DELAY"
    "norm_tv (gtod demo_env (reads demo_queue))" "tv_sec (gtod demo_env (reads demo_queue)) \<le> 2147481499"
    by (simp_all add: demo_env_def demo_queue_def demo_unit_def MAX_PERIOD_DELAY_def norm_tv_def)
  obtain q1 u where r: "addLaterEvent demo_env demo_queue 1500 TIMED_CALLBACK 9 = Some (sint (listToken demo_queue), q1)"
    "units q1 4 = Some u" "usecs (tvAbsolute u) = usecs (gtod demo_env (reads demo_queue)) + 1000 * uint (1500 :: u32)" "handler u = 9"
    "mList q1 = takeWhile (\<lambda>x. time_overthan (tvAbsolute u) (tvAbsolute (the (units demo_queue x)))) (mList demo_queue) @ 4 #
      dropWhile (\<lambda>x. time_overthan (tvAbsolute u) (tvAbsolute (the (units demo_queue x)))) (mList demo_queue)"
    "delTimedEvent q1 (listToken demo_queue) = None"
    using addLaterEvent_deadline [OF demo_queue_ok _ h(2) _ h(1) h(3,4), of 9 TIMED_CALLBACK] by auto
  have "tvAbsolute u = \<lparr>tv_sec = 6, tv_usec = 500000\<rparr>"
    using r(1,2)
    by (auto simp: addLaterEvent_def addLaterEvent_queue_def finish_add_def demo_queue_def demo_env_def arm_event_def gettimeofday_def
        addEventInternal_def MAX_PERIOD_DELAY_def demo_unit_def time_plus_def c_int_id time_carry_exact time_overthan_def take_token_def return_token_def Let_def
        split: if_splits)
  then show ?thesis using r by (auto simp: demo_queue_def demo_env_def demo_unit_def time_overthan_def)
qed

text \<open>
  The dump stays in its stream: for a well-formed queue and a well-formed stream, \<open>dump\<close> visits no
  deleted unit, writes nothing outside the buffer of the stream, whatever texts the format gives, and
  leaves the stream well-formed; the queue is only read.
\<close>

theorem tq_dump_safe:
  assumes "tq_ok q F" "io_inv s"
  shows "\<exists>q' s'. tq_dump e fmt q (Some s) = Some (q', Some s') \<and> io_inv s' \<and> io_frame s s' \<and>
    mList q' = mList q \<and> units q' = units q"
proof -
  have ev: "\<exists>s'. dump_events fmt us now xs s = Some s' \<and> io_inv s' \<and> io_frame s s'"
    if "set xs \<subseteq> dom us" "io_inv s" for us now xs s
    using that
  proof (induction xs arbitrary: s)
    case (Cons x xs)
    then obtain u where u: "us x = Some u" by auto
    obtain r s1 where 1: "ioStreamPrint s (fmt (idToken u) (time_minus (tvAbsolute u) now)) = Some (r, s1)" "io_inv s1" "io_frame s s1"
      using io_step_safe [OF Cons.prems(2), of "Print (fmt (idToken u) (time_minus (tvAbsolute u) now))"] by auto
    moreover obtain s2 where "dump_events fmt us now xs s1 = Some s2" "io_inv s2" "io_frame s1 s2"
      using Cons.IH [OF _ 1(2)] Cons.prems(1) by auto
    ultimately show ?case using u by (auto intro: io_frame_trans)
  qed simp
  have seek: "io_inv (snd (ioStreamSeek s (- 3) SEEK_CUR))" "io_frame s (snd (ioStreamSeek s (- 3) SEEK_CUR))" if "io_inv s" for s
    using io_step_safe [OF that, of "Seek (- 3) SEEK_CUR"] by auto
  have putc: "\<exists>r s'. ioStreamPutc 10 s = Some (r, s') \<and> io_inv s' \<and> io_frame s s'" if "io_inv s" for s
    using io_step_safe [OF that, of "Putc 10"] by simp
  show ?thesis
  proof (cases "mList q = []")
    case True
    then show ?thesis using putc [OF assms(2)] by (auto simp: tq_dump_def)
  next
    case False
    have "set (mList q) \<subseteq> dom (units q)" using assms(1) by (simp add: tq_ok_def)
    then obtain s1 where 1: "dump_events fmt (units q) (gtod e (reads q)) (mList q) s = Some s1" "io_inv s1" "io_frame s s1"
      using ev [OF _ assms(2)] by blast
    obtain r s2 where 2: "ioStreamPutc 10 (snd (ioStreamSeek s1 (- 3) SEEK_CUR)) = Some (r, s2)" "io_inv s2"
      "io_frame (snd (ioStreamSeek s1 (- 3) SEEK_CUR)) s2" using putc [OF seek(1) [OF 1(2)]] by blast
    have "io_frame s s2" using 1(3) 2(3) seek(2) [OF 1(2)] io_frame_trans by blast
    then show ?thesis using False 1 2 by (simp add: tq_dump_def gettimeofday_def)
  qed
qed

theorem tq_dump_safe_witness:
  "\<exists>q' s'. tq_dump demo_env (\<lambda>t n. Some [91, 49, 93]) demo_queue (Some \<lparr>buffer = replicate 8 0, ssize = 8, cursor = 0, remain = 8\<rparr>)
     = Some (q', Some s') \<and> length (buffer s') = 8"
proof -
  have "io_inv \<lparr>buffer = replicate 8 0, ssize = 8, cursor = 0, remain = 8\<rparr>" by (simp add: io_inv_def)
  from tq_dump_safe [OF demo_queue_ok(1) this, of demo_env "\<lambda>t n. Some [91, 49, 93]"] show ?thesis by (auto simp: io_frame_def)
qed

end
