(* ===== verification/Socket_Poller.thy ===== *)
theory Socket_Poller
  imports Socket_Sender Timed_Queue
begin

text \<open>
  \<open>libnet/Poller.cpp\<close>: the class \<open>SocketPoller\<close>, the thread that waits for events on the registered sockets
  and for the timers, and its \<open>wakePipe\<close>.  It joins the registry of sockets, the queue of timed events and
  the reference counts of the transports.

  The kernel is a set of open descriptors, the set \<open>epoll_ctl\<close> has built and the number of bytes in the
  pipe; the results of its calls are arguments of the operations that make them, but for \<open>epoll_wait\<close>, which
  follows from the state of the pipe and what else goes on meanwhile.  Calls of the virtual
  handlers of the transports are recorded in \<open>upcalls\<close>; what a handler does in turn are further operations.
  \<open>workProgress\<close>, a text for debugging, is an argument of \<open>dumpInfo\<close> only.
\<close>

unbundle bit_operations_syntax

section \<open>Model\<close>

datatype upcall = HandleRead nat | HandleWrite nat | HandleClose nat

record poller =
  coreDescriptor :: int
  mWakeOn :: nat \<comment> \<open>the \<open>wakePipe\<close>, 0 is null\<close>
  write_fd :: int
  mTimerQ :: TimedEventQ
  registered :: SocketHolder
  objects :: transports
  open_fds :: "int set"
  epoll_set :: "int set"
  pipe_bytes :: nat
  upcalls :: "upcall list"

record poll_env =
  timers :: tq_env
  pipe_capacity :: nat

definition MAX_EPOLL_EVENT_NUM :: nat where "MAX_EPOLL_EVENT_NUM = 50"
definition EPOLLIN :: u32 where "EPOLLIN = 1"
definition EPOLLOUT :: u32 where "EPOLLOUT = 4"
definition EPOLLERR :: u32 where "EPOLLERR = 8"
definition EPOLLHUP :: u32 where "EPOLLHUP = 16"

definition IS_VALID_FD :: "int \<Rightarrow> bool" where "IS_VALID_FD s \<longleftrightarrow> s \<ge> 0"

definition close_fd :: "int \<Rightarrow> poller \<Rightarrow> poller" where
  \<comment> \<open>\<open>close\<close> also takes the descriptor out of the epoll set\<close>
  "close_fd fd st = st\<lparr>open_fds := open_fds st - {fd}, epoll_set := epoll_set st - {fd}\<rparr>"

definition set_sock :: "nat \<Rightarrow> int \<Rightarrow> poller \<Rightarrow> poller" where
  "set_sock b v st = st\<lparr>objects := (objects st)\<lparr>sock_of := (sock_of (objects st))(b := v)\<rparr>\<rparr>"

text \<open>
  The destructor of a transport that runs while the registry is locked.  \<open>~Transport\<close> calls
  \<open>CloseTransport\<close>, and \<open>~ITransport\<close> calls it again; it stops at a socket that is closed already and
  otherwise goes on to \<open>SocketHolder::remove\<close>, which takes the lock that the thread holds.
\<close>

definition transport_dtor :: dtor where
  "transport_dtor b w = (if sock_of w b = - 1 then Ret w else Deadlock)"

text \<open>The wake pipe.\<close>

definition wakePipe_init :: "int \<times> int \<times> int \<Rightarrow> int \<Rightarrow> int \<Rightarrow> int \<Rightarrow> int \<Rightarrow> int \<times> (int \<times> int) option \<times> int list" where
  \<comment> \<open>the result of \<open>pipe\<close> with the contents of \<open>pipefd\<close> after it, and those of the four calls of \<open>fcntl\<close>; the status, the
     new \<open>sock\<close> and \<open>write_fd\<close>, and the descriptors closed\<close>
  "wakePipe_init p getR setR getW setW =
     (case p of (perr, r, w) \<Rightarrow>
        let err = (if perr \<noteq> NO_ERROR then perr
                   else if getR = - 1 then perr
                   else if setR \<noteq> NO_ERROR then setR
                   else if getW = - 1 then setR
                   else setW)
        in if err \<noteq> NO_ERROR
           then (err, None, (if r \<noteq> - 1 then [r] else []) @ (if w \<noteq> - 1 then [w] else []))
           else (err, Some (r, w), []))"


definition wakePipe_handleRead :: "poller \<Rightarrow> poller" where
  \<comment> \<open>reads up to 128 integers\<close>
  "wakePipe_handleRead st = st\<lparr>pipe_bytes := pipe_bytes st - min (pipe_bytes st) 512\<rparr>"

definition wakePipe_destroy :: "poller \<Rightarrow> poller" where
  \<comment> \<open>\<open>~wakePipe\<close> on the object \<open>mWakeOn\<close>\<close>
  "wakePipe_destroy st =
     (let s = sock_of (objects st) (mWakeOn st);
          st1 = (if s \<noteq> - 1 then set_sock (mWakeOn st) (- 1) (close_fd s st) else st)
      in if write_fd st1 \<noteq> - 1 then (close_fd (write_fd st1) st1)\<lparr>write_fd := - 1\<rparr> else st1)"

record init_results =
  corefd :: int \<comment> \<open>of \<open>epoll_create\<close>\<close>
  setfd :: int \<comment> \<open>of \<open>fcntl\<close>\<close>
  wake_new :: "(nat \<times> int \<times> int) option" \<comment> \<open>of \<open>wakePipe::create\<close>: the object, its \<open>sock\<close> and \<open>write_fd\<close>\<close>
  ctl :: int \<comment> \<open>of \<open>epoll_ctl\<close>\<close>

definition poller_init :: "init_results \<Rightarrow> poller \<Rightarrow> (int \<times> poller) outcome" where
  "poller_init k st =
     (if coreDescriptor st \<noteq> - 1 then Ret (UNKNOWN_ERROR, st)
      else
        let st0 = (if corefd k = - 1 then st else st\<lparr>open_fds := insert (corefd k) (open_fds st)\<rparr>);
            fin = (\<lambda>err st'. (err, if err \<noteq> NO_ERROR \<and> corefd k \<noteq> - 1 then close_fd (corefd k) st' else st'))
        in if setfd k = - 1 then Ret (fin UNKNOWN_ERROR st0)
           else case wake_new k of
                  None \<Rightarrow> Ret (fin UNKNOWN_ERROR st0)
                | Some (b, r, w) \<Rightarrow>
                    let st1 = set_sock b r (st0\<lparr>mWakeOn := b, write_fd := w, open_fds := open_fds st0 \<union> {r, w}\<rparr>) in
                    obind (refs_do transport_dtor incStrong b (objects st1)) (\<lambda>o1.
                    obind (holder_insert transport_dtor (registered st1) o1 r b) (\<lambda>(err, h, o2).
                    let st2 = st1\<lparr>registered := h, objects := o2\<rparr> in
                    if err \<noteq> NO_ERROR then Ret (fin err st2)
                    else if ctl k = - 1 then Ret (fin err st2) \<comment> \<open>\<open>err\<close> is \<open>NO_ERROR\<close> here\<close>
                    else Ret (fin NO_ERROR (st2\<lparr>coreDescriptor := corefd k, epoll_set := insert r (epoll_set st2)\<rparr>)))))"

text \<open>Adding and closing transports.  \<open>dying\<close> tells that the call comes from the destructor of the transport.\<close>

definition AddTransport :: "int \<Rightarrow> nat \<Rightarrow> poller \<Rightarrow> (int \<times> poller) outcome" where
  \<comment> \<open>\<open>res\<close> is the result of \<open>epoll_ctl\<close>\<close>
  "AddTransport res b st =
     (if b = 0 then Ret (UNKNOWN_ERROR, st)
      else if sock_of (objects st) b = - 1 then Ret (UNKNOWN_ERROR, st)
      else obind (holder_insert transport_dtor (registered st) (objects st) (sock_of (objects st) b) b) (\<lambda>(_, h, w).
        let st1 = st\<lparr>registered := h, objects := w\<rparr> in
        if res = - 1 then Ret (UNKNOWN_ERROR, st1)
        else Ret (NO_ERROR, st1\<lparr>epoll_set := insert (sock_of w b) (epoll_set st1)\<rparr>)))"

definition CloseTransport :: "bool \<Rightarrow> int \<Rightarrow> nat \<Rightarrow> poller \<Rightarrow> (int \<times> poller) outcome" where
  "CloseTransport dying res b st =
     (if b = 0 then Ret (UNKNOWN_ERROR, st)
      else
        let s = sock_of (objects st) b in
        if s = - 1 then Ret (UNKNOWN_ERROR, st)
        else
          let st0 = set_sock b (- 1) st in
          obind (holder_remove transport_dtor (registered st0) (objects st0) s) (\<lambda>(_, h, w).
          let st1 = st0\<lparr>registered := h, objects := w\<rparr> in
          if res = - 1 then Ret (UNKNOWN_ERROR, st1)
          else
            let st2 = close_fd s (st1\<lparr>epoll_set := epoll_set st1 - {s}\<rparr>) in
            if dying \<or> obj (refs_of w b) then Ret (NO_ERROR, st2\<lparr>upcalls := upcalls st2 @ [HandleClose b]\<rparr>) else Fault))"



definition DiscardEvent :: "int \<Rightarrow> poller \<Rightarrow> (nat \<times> poller) outcome" where
  "DiscardEvent token st =
     (case delTimedEvent (mTimerQ st) (word_of_int token) of
        None \<Rightarrow> Fault
      | Some (h, q) \<Rightarrow> Ret (h, st\<lparr>mTimerQ := q\<rparr>))"

text \<open>The thread: waiting, then one event after the other.\<close>

definition poll_timeout :: "int \<Rightarrow> int \<Rightarrow> int" where
  "poll_timeout sec usec = c_int (c_int (sec * 1000) + c_quot usec 1000)"

text \<open>
  \<open>epoll_wait\<close> as it is documented, in milliseconds: the wait ends as soon as a descriptor of the epoll set is
  ready, which the wake pipe is as long as there are bytes in it, or a signal is caught, or when the timeout
  is over; a negative timeout never is.  Meanwhile other threads go on: \<open>during k\<close> is what the
  poller has become \<open>k\<close> milliseconds into the wait.
\<close>

record wait_world =
  during :: "nat \<Rightarrow> poller \<Rightarrow> poller"
  io_ready :: "nat \<Rightarrow> nat" \<comment> \<open>how many of the other descriptors are ready\<close>
  caught :: "nat \<Rightarrow> bool" \<comment> \<open>a signal is caught\<close>
  refused :: bool \<comment> \<open>the call fails at once\<close>
  exit_pending :: bool

definition wake_ready :: "poller \<Rightarrow> bool" where
  "wake_ready st \<longleftrightarrow> sock_of (objects st) (mWakeOn st) \<in> epoll_set st \<and> 0 < pipe_bytes st"

definition ready_num :: "wait_world \<Rightarrow> nat \<Rightarrow> poller \<Rightarrow> nat" where
  "ready_num w k st = min MAX_EPOLL_EVENT_NUM (io_ready w k + (if wake_ready (during w k st) then 1 else 0))"

definition wait_over :: "wait_world \<Rightarrow> int \<Rightarrow> poller \<Rightarrow> nat \<Rightarrow> bool" where
  "wait_over w time_out st k \<longleftrightarrow> refused w \<or> 0 < ready_num w k st \<or> caught w k \<or> int k = time_out"

partial_function (option) first_from :: "(nat \<Rightarrow> bool) \<Rightarrow> nat \<Rightarrow> nat option" where
  "first_from P k = (if P k then Some k else first_from P (Suc k))"

definition epoll_wait :: "wait_world \<Rightarrow> int \<Rightarrow> poller \<Rightarrow> (nat \<times> int \<times> bool \<times> poller) option" where
  \<comment> \<open>the time slept, the result, whether \<open>errno\<close> is \<open>EINTR\<close>, and the poller as it is then; \<open>None\<close> when the wait never ends\<close>
  "epoll_wait w time_out st =
     map_option (\<lambda>k.
         (k,
          if refused w then - 1 else if 0 < ready_num w k st then int (ready_num w k st) else if caught w k then - 1 else 0,
          \<not> refused w,
          during w k st))
       (first_from (wait_over w time_out st) 0)"

datatype wait_next = Stop | Again | Events | Asleep \<comment> \<open>\<open>Asleep\<close>: for ever\<close>

definition poll_wait :: "poll_env \<Rightarrow> wait_world \<Rightarrow> poller \<Rightarrow> (wait_next \<times> nat \<times> poller) outcome" where
  \<comment> \<open>one round of the \<open>do\<close> loop, with the time slept in it\<close>
  "poll_wait e w st =
     (case timeToNextEvent (timers e) (mTimerQ st) of
        None \<Rightarrow> Fault
      | Some (_, sec, usec, q) \<Rightarrow>
          let time_out = poll_timeout sec usec; st1 = st\<lparr>mTimerQ := q\<rparr> in
          case epoll_wait w time_out st1 of
            None \<Rightarrow> Ret (Asleep, 0, st1)
          | Some (slept, fd_num, eintr, st2) \<Rightarrow>
              if exit_pending w then Ret (Stop, slept, st2)
              else if fd_num < 0 \<and> \<not> eintr then Ret (Stop, slept, st2)
              else case handleAlarmEvent (timers e) (mTimerQ st2) of
                     None \<Rightarrow> Fault
                   | Some q' \<Rightarrow> Ret (if fd_num \<le> 0 then Again else Events, slept, st2\<lparr>mTimerQ := q'\<rparr>))"

definition upcall_on :: "upcall \<Rightarrow> nat \<Rightarrow> poller \<Rightarrow> poller outcome" where
  \<comment> \<open>a virtual call on an object, which must not be deleted\<close>
  "upcall_on u b st = (if obj (refs_of (objects st) b) then Ret (st\<lparr>upcalls := upcalls st @ [u]\<rparr>) else Fault)"

definition handle_event :: "int \<Rightarrow> u32 \<Rightarrow> poller \<Rightarrow> nat \<Rightarrow> (poller \<times> nat) outcome" where
  \<comment> \<open>the body of the \<open>for\<close> loop; \<open>out\<close> is what \<open>_trans\<close> refers to\<close>
  "handle_event fd ev st out =
     obind (holder_fetch transport_dtor (registered st) (objects st) fd out) (\<lambda>(err, b, h, w).
     let st1 = st\<lparr>registered := h, objects := w\<rparr> in
     if err \<noteq> NO_ERROR then Ret (st1, b)
     else if ev AND (EPOLLHUP OR EPOLLERR) \<noteq> 0 then
       (if IS_VALID_FD (sock_of w b) then
          let s = sock_of w b; st2 = close_fd s st1 in
          obind (holder_remove transport_dtor (registered st2) (objects st2) s) (\<lambda>(_, h', w').
          obind (upcall_on (HandleClose b) b (set_sock b (- 1) (st2\<lparr>registered := h', objects := w'\<rparr>))) (\<lambda>st3. Ret (st3, b)))
        else Ret (st1, b))
     else if IS_VALID_FD (sock_of w b) then
       obind (if ev AND EPOLLIN \<noteq> 0 then upcall_on (HandleRead b) b st1 else Ret st1) (\<lambda>st2.
       obind (if ev AND EPOLLOUT \<noteq> 0 then upcall_on (HandleWrite b) b st2 else Ret st2) (\<lambda>st3. Ret (st3, b)))
     else Ret (st1, b))"

fun handle_events :: "(int \<times> u32) list \<Rightarrow> poller \<Rightarrow> nat \<Rightarrow> (poller \<times> nat) outcome" where
  "handle_events [] st out = Ret (st, out)"
| "handle_events ((fd, ev) # evs) st out = obind (handle_event fd ev st out) (\<lambda>(st', out'). handle_events evs st' out')"

definition release_transport :: "int \<Rightarrow> nat \<Rightarrow> poller \<Rightarrow> poller outcome" where
  \<comment> \<open>the end of the life of \<open>_trans\<close>, outside of the registry: a transport that goes with it is closed by its destructor\<close>
  "release_transport res out st =
     (if out = 0 then Ret st
      else
        let r = refs_of (objects st) out in
        obind (refs_do (\<lambda>b w. Ret w) decStrong out (objects st)) (\<lambda>w.
        let st1 = st\<lparr>objects := w\<rparr> in
        if obj r \<and> \<not> obj (refs_of w out) then obind (CloseTransport True res out st1) (\<lambda>(_, st2). Ret st2) else Ret st1))"

fun poll_loop :: "poll_env \<Rightarrow> wait_world list \<Rightarrow> poller \<Rightarrow> (wait_next \<times> poller) outcome" where
  \<comment> \<open>the \<open>do\<close> loop along a list of waits; \<open>Again\<close> when they do not end it\<close>
  "poll_loop e [] st = Ret (Again, st)"
| "poll_loop e (w # ws) st =
     obind (poll_wait e w st) (\<lambda>(next, _, st'). if next = Again then poll_loop e ws st' else Ret (next, st'))"

definition poller_threadLoop ::
  "poll_env \<Rightarrow> wait_world list \<Rightarrow> (int \<times> u32) list \<Rightarrow> int \<Rightarrow> poller \<Rightarrow> (wait_next \<times> poller) outcome" where
  \<comment> \<open>\<open>events\<close> are those of the last wait; the loop of the thread goes on unless the result is \<open>Stop\<close> or \<open>Asleep\<close>\<close>
  "poller_threadLoop e waits events res st =
     obind (poll_loop e waits st) (\<lambda>(next, st1).
       if next = Events then
         obind (handle_events events st1 0) (\<lambda>(st2, out).
         obind (release_transport res out st2) (\<lambda>st3. Ret (Events, st3)))
       else Ret (next, st1))"

definition poller_destroy :: "poller \<Rightarrow> poller outcome" where
  \<comment> \<open>\<open>mWakeOn = NULL\<close> (deleting the pipe with its last reference), then \<open>close(coreDescriptor)\<close>\<close>
  "poller_destroy st =
     obind (if mWakeOn st = 0 then Ret st
            else
              let r = refs_of (objects st) (mWakeOn st) in
              obind (refs_do (\<lambda>b w. Ret w) decStrong (mWakeOn st) (objects st)) (\<lambda>w.
              let st1 = st\<lparr>objects := w\<rparr> in
              Ret (if obj r \<and> \<not> obj (refs_of w (mWakeOn st)) then wakePipe_destroy st1 else st1))) (\<lambda>st1.
     Ret ((close_fd (coreDescriptor st1) (st1\<lparr>mWakeOn := 0\<rparr>))\<lparr>coreDescriptor := - 1\<rparr>))"

definition poller_dumpInfo ::
  "poll_env \<Rightarrow> u8 list \<Rightarrow> u8 list \<Rightarrow> (SocketHolder \<Rightarrow> ioStream option \<Rightarrow> ioStream option option) \<Rightarrow> u8 list \<Rightarrow>
     (u32 \<Rightarrow> int \<Rightarrow> u8 list option) \<Rightarrow> u8 list \<Rightarrow> poller \<Rightarrow> ioStream option \<Rightarrow> (ioStream \<times> u8 list option \<times> poller) option" where
  \<comment> \<open>\<open>rule\<close>, \<open>event\<close> and \<open>timer\<close> are the formatted texts, \<open>dumpHolder\<close> is the registry's \<open>dumpInfo\<close> with its texts\<close>
  "poller_dumpInfo e rule event dumpHolder timer fmt junk st stream =
     (let own = snd (ioStreamRewind \<lparr>buffer = junk, ssize = of_nat (length junk), cursor = 0, remain = 0\<rparr>);
          plogs = (case stream of None \<Rightarrow> own | Some s \<Rightarrow> s)
      in do {
        (_, s1) \<leftarrow> ioStreamPrint plogs (Some rule);
        (_, s2) \<leftarrow> ioStreamPrint s1 (Some event);
        s3 \<leftarrow> dumpHolder (registered st) (Some s2);
        (_, s4) \<leftarrow> ioStreamPrint (the s3) (Some timer);
        (q, s5) \<leftarrow> tq_dump (timers e) fmt (mTimerQ st) (Some s4);
        (_, s6) \<leftarrow> ioStreamPrint (the s5) (Some rule);
        if stream = None then do {
          (_, s7) \<leftarrow> ioStreamPutc 0 (snd (ioStreamSeek s6 (- 1) SEEK_CUR));
          Some (s7, Some (buffer s7), st\<lparr>mTimerQ := q\<rparr>) }
        else Some (s6, None, st\<lparr>mTimerQ := q\<rparr>) })"

section \<open>Events\<close>

definition spacious :: "(nat \<Rightarrow> rc) \<Rightarrow> bool" where
  "spacious c \<longleftrightarrow> (\<forall>b. int (rc_total (c b)) < INITIAL_STRONG_VALUE - 8)"

lemma spacious_roomy: "spacious c \<Longrightarrow> roomy c"
  unfolding spacious_def roomy_def by (intro allI, drule spec, erule order_less_trans) simp

lemma registry_sock [simp]: "registry s (w\<lparr>sock_of := f\<rparr>) ring c = registry s w ring c"
  by (simp add: registry_def counted_def)

lemma registry_obj: "registry s w ring c \<Longrightarrow> obj (refs_of w b) \<longleftrightarrow> rc_alive (c b)"
  using refs_rep_alive by (auto simp: registry_def counted_def)

lemma fetched_facts:
  assumes "rc_alive (c b)" "out = 0 \<or> rc_strong (c out) > 1 \<or> out = b \<and> rc_strong (c b) > 0" "spacious c" "b \<noteq> 0"
  shows "roomy (fetched c out b)" "fetched c out b b \<noteq> Fresh n" "rc_alive (fetched c out b b)" "rc_strong (fetched c out b b) > 0"
proof -
  note tk = rc_took_facts [OF assms(1)]
  have t: "int (rc_total (c i)) < INITIAL_STRONG_VALUE - 8" for i using assms(3) by (simp add: spacious_def)
  have le: "rc_total (fetched c out b i) \<le> Suc (rc_total (c i))" for i
    using tk(5) assms(2) by (cases "c out") (auto simp: fetched_def)
  have "int (rc_total (fetched c out b i)) < INITIAL_STRONG_VALUE - 4" for i
    using t [of i] le [of i] by linarith
  then show "roomy (fetched c out b)" by (simp add: roomy_def)
  have "fetched c out b b = rc_took (c b) \<or> out = b \<and> rc_strong (c b) > 0 \<and> fetched c out b b = c b"
    using assms(2,4) by (cases "out = b") (auto simp: fetched_def)
  then show s: "rc_strong (fetched c out b b) > 0" using tk(6) by auto
  then show "fetched c out b b \<noteq> Fresh n" by auto
  show "rc_alive (fetched c out b b)" using s by (cases "fetched c out b b") auto
qed

definition event_ok :: "poller \<Rightarrow> u32 list \<Rightarrow> (nat \<Rightarrow> rc) \<Rightarrow> int \<Rightarrow> nat \<Rightarrow> bool" where
  \<comment> \<open>what an event needs: the registry is consistent, and no reference that is dropped is the last one\<close>
  "event_ok st ring c fd out \<longleftrightarrow> registry (registered st) (objects st) ring c \<and> spacious c \<and>
     0 \<notin> ran (holder_map (registered st) ring) \<and> 0 \<le> fd \<and>
     (out = 0 \<or> rc_strong (c out) > 1 \<or> holder_map (registered st) ring fd = Some out \<and> rc_strong (c out) > 0) \<and>
     (\<forall>b. holder_map (registered st) ring fd = Some b \<longrightarrow> sock_of (objects st) b \<noteq> fd \<longrightarrow> rc_alive (c b) \<longrightarrow> rc_strong (c b) > 0)"

lemma fetch_event:
  assumes "event_ok st ring c fd out" "holder_map (registered st) ring fd = Some b" "rc_alive (c b)" "sock_of (objects st) b = fd"
  shows "\<exists>w. holder_fetch transport_dtor (registered st) (objects st) fd out = Ret (NO_ERROR, b, registered st, w) \<and>
    registry (registered st) w ring (fetched c out b) \<and> sock_of w = sock_of (objects st) \<and> obj (refs_of w b) \<and>
    roomy (fetched c out b) \<and> fetched c out b b \<noteq> Fresh 1"
proof -
  note e = assms(1) [unfolded event_ok_def]
  have b0: "b \<noteq> 0" using e assms(2) ranI by metis
  have f: "roomy (fetched c out b)" "fetched c out b b \<noteq> Fresh 1" "rc_alive (fetched c out b b)"
    using fetched_facts [of c b out] assms(2,3) e b0 by auto
  obtain w where w: "holder_fetch transport_dtor (registered st) (objects st) fd out = Ret (NO_ERROR, b, registered st, w)"
    "registry (registered st) w ring (fetched c out b)" "sock_of w = sock_of (objects st)"
    using holder_fetch_ok [of "registered st" "objects st" ring c out fd transport_dtor] e spacious_roomy assms(2-4) by auto
  then show ?thesis using f registry_obj [OF w(2), of b] by auto
qed

lemma handle_event_io:
  assumes "event_ok st ring c fd out" "holder_map (registered st) ring fd = Some b" "rc_alive (c b)" "sock_of (objects st) b = fd"
    "ev AND (EPOLLHUP OR EPOLLERR) = 0"
  shows "\<exists>st'. handle_event fd ev st out = Ret (st', b) \<and> registered st' = registered st \<and>
    registry (registered st) (objects st') ring (fetched c out b) \<and> sock_of (objects st') = sock_of (objects st) \<and>
    open_fds st' = open_fds st \<and> epoll_set st' = epoll_set st \<and>
    upcalls st' = upcalls st @ (if ev AND EPOLLIN \<noteq> 0 then [HandleRead b] else []) @ (if ev AND EPOLLOUT \<noteq> 0 then [HandleWrite b] else [])"
proof -
  have v: "IS_VALID_FD fd" using assms(1) by (simp add: event_ok_def IS_VALID_FD_def)
  obtain w where w: "holder_fetch transport_dtor (registered st) (objects st) fd out = Ret (NO_ERROR, b, registered st, w)"
    "registry (registered st) w ring (fetched c out b)" "sock_of w = sock_of (objects st)" "obj (refs_of w b)"
    using fetch_event [OF assms(1-4)] by blast
  then show ?thesis using assms(4,5) v by (simp add: handle_event_def upcall_on_def Let_def)
qed

lemma handle_event_hangup:
  assumes "event_ok st ring c fd out" "holder_map (registered st) ring fd = Some b" "rc_alive (c b)" "sock_of (objects st) b = fd"
    "ev AND (EPOLLHUP OR EPOLLERR) \<noteq> 0"
  shows "\<exists>st' ring' c'. handle_event fd ev st out = Ret (st', b) \<and> registry (registered st') (objects st') ring' c' \<and>
    holder_map (registered st') ring' = (holder_map (registered st) ring)(fd := None) \<and>
    sock_of (objects st') = (sock_of (objects st))(b := - 1) \<and> open_fds st' = open_fds st - {fd} \<and> epoll_set st' = epoll_set st - {fd} \<and>
    upcalls st' = upcalls st @ [HandleClose b] \<and> rc_alive (c' b)"
proof -
  have v: "IS_VALID_FD fd" using assms(1) by (simp add: event_ok_def IS_VALID_FD_def)
  obtain w where w: "holder_fetch transport_dtor (registered st) (objects st) fd out = Ret (NO_ERROR, b, registered st, w)"
    "registry (registered st) w ring (fetched c out b)" "sock_of w = sock_of (objects st)" "obj (refs_of w b)"
    "roomy (fetched c out b)" "fetched c out b b \<noteq> Fresh 1"
    using fetch_event [OF assms(1-4)] by blast
  obtain h' w' ring' c' where r: "holder_remove transport_dtor (registered st) w fd = Ret (NO_ERROR, h', w')" "registry h' w' ring' c'"
    "holder_map h' ring' = (holder_map (registered st) ring)(fd := None)" "sock_of w' = sock_of w"
    "rc_decWeak (fetched c out b b) = Some (c' b)"
    using holder_remove_ok [OF w(2,5), of fd transport_dtor] w(6) assms(2) by auto
  have al: "rc_alive (c' b)" using rc_decWeak_life [OF r(5) w(6)] registry_obj [OF w(2), of b] w(4) by simp
  then have "obj (refs_of w' b)" using registry_obj [OF r(2), of b] by simp
  then show ?thesis using w(1,3) r(1-4) al assms(4,5) v
    by (auto simp: handle_event_def upcall_on_def Let_def close_fd_def set_sock_def)
qed

lemma handle_event_stale:
  assumes "event_ok st ring c fd out"
  shows "holder_map (registered st) ring fd = None \<Longrightarrow> handle_event fd ev st out = Ret (st, out)"
    "holder_map (registered st) ring fd = Some b \<Longrightarrow> \<not> (rc_alive (c b) \<and> sock_of (objects st) b = fd) \<Longrightarrow>
      \<exists>st' ring' c'. handle_event fd ev st out = Ret (st', out) \<and> registry (registered st') (objects st') ring' c' \<and>
        holder_map (registered st') ring' = (holder_map (registered st) ring)(fd := None) \<and>
        sock_of (objects st') = sock_of (objects st) \<and> open_fds st' = open_fds st \<and> epoll_set st' = epoll_set st \<and> upcalls st' = upcalls st"
proof -
  note e = assms [unfolded event_ok_def]
  note f = holder_fetch_ok [of "registered st" "objects st" ring c out fd transport_dtor]
  show "handle_event fd ev st out = Ret (st, out)" if "holder_map (registered st) ring fd = None"
    using f e spacious_roomy that by (simp add: handle_event_def Let_def status_defs)
  assume b: "holder_map (registered st) ring fd = Some b" "\<not> (rc_alive (c b) \<and> sock_of (objects st) b = fd)"
  obtain s' w' ring' c' where r: "holder_fetch transport_dtor (registered st) (objects st) fd out = Ret (DEAD_OBJECT, out, s', w')"
    "registry s' w' ring' c'" "holder_map s' ring' = (holder_map (registered st) ring)(fd := None)" "sock_of w' = sock_of (objects st)"
    using f e spacious_roomy b by auto
  show "\<exists>st' ring' c'. handle_event fd ev st out = Ret (st', out) \<and> registry (registered st') (objects st') ring' c' \<and>
        holder_map (registered st') ring' = (holder_map (registered st) ring)(fd := None) \<and>
        sock_of (objects st') = sock_of (objects st) \<and> open_fds st' = open_fds st \<and> epoll_set st' = epoll_set st \<and> upcalls st' = upcalls st"
    using r by (intro exI [of _ "st\<lparr>registered := s', objects := w'\<rparr>"] exI [of _ ring'] exI [of _ c'])
      (simp add: handle_event_def Let_def status_defs)
qed

section \<open>The life of a transport\<close>

lemma life_facts:
  assumes "life k c c'" "spacious c" "k \<le> 4"
  shows "roomy c'" "rc_alive (c' b) = rc_alive (c b)" "rc_strong (c' b) = rc_strong (c b)"
proof -
  have "int (rc_total (c' i)) < INITIAL_STRONG_VALUE - 4" for i
    using assms(1) [unfolded life_def, rule_format, of i] assms(2) [unfolded spacious_def, rule_format, of i] assms(3) by linarith
  then show "roomy c'" by (simp add: roomy_def)
  show "rc_alive (c' b) = rc_alive (c b)" "rc_strong (c' b) = rc_strong (c b)" using assms(1) by (simp_all add: life_def)
qed

lemma AddTransport_ok:
  assumes "registry (registered st) (objects st) ring c" "spacious c" "b \<noteq> 0" "rc_alive (c b)" "sock_of (objects st) b = s" "s \<noteq> - 1"
    "length ring < CONTAINER_LIMIT" "holder_map (registered st) ring s = None" "res \<noteq> - 1"
  shows "\<exists>st' ring' c'. AddTransport res b st = Ret (NO_ERROR, st') \<and> registry (registered st') (objects st') ring' c' \<and>
    holder_map (registered st') ring' = (holder_map (registered st) ring)(s \<mapsto> b) \<and> life 1 c c' \<and>
    st' = st\<lparr>registered := registered st', objects := objects st', epoll_set := insert s (epoll_set st)\<rparr> \<and>
    sock_of (objects st') = sock_of (objects st)"
proof -
  obtain h w ring' c' where r: "holder_insert transport_dtor (registered st) (objects st) s b = Ret (NO_ERROR, h, w)" "registry h w ring' c'"
    "holder_map h ring' = (holder_map (registered st) ring)(s \<mapsto> b)" "sock_of w = sock_of (objects st)" "life 1 c c'"
    using holder_insert_ok [OF assms(1) spacious_roomy [OF assms(2)] assms(3,4), of s transport_dtor] assms(7,8) by auto
  then show ?thesis using assms(3,5,6,9)
    by (intro exI [of _ "st\<lparr>registered := h, objects := w, epoll_set := insert s (epoll_set st)\<rparr>"] exI [of _ ring'] exI [of _ c'])
      (simp add: AddTransport_def Let_def)
qed

lemma CloseTransport_ok:
  assumes "registry (registered st) (objects st) ring c" "roomy c" "b \<noteq> 0" "rc_strong (c b) > 0" "sock_of (objects st) b = s" "s \<noteq> - 1"
    "holder_map (registered st) ring s = Some b" "res \<noteq> - 1"
  shows "\<exists>st' ring' c'. CloseTransport False res b st = Ret (NO_ERROR, st') \<and> registry (registered st') (objects st') ring' c' \<and>
    holder_map (registered st') ring' = (holder_map (registered st) ring)(s := None) \<and>
    sock_of (objects st') = (sock_of (objects st))(b := - 1) \<and> open_fds st' = open_fds st - {s} \<and> epoll_set st' = epoll_set st - {s} \<and>
    upcalls st' = upcalls st @ [HandleClose b] \<and> rc_strong (c' b) = rc_strong (c b) \<and> (\<forall>i. i \<noteq> b \<longrightarrow> c' i = c i)"
proof -
  let ?w = "(objects st)\<lparr>sock_of := (sock_of (objects st))(b := - 1)\<rparr>"
  have reg: "registry (registered st) ?w ring c" using assms(1) by simp
  have nf: "c b \<noteq> Fresh 1" using assms(4) by auto
  obtain h w ring' c' where r: "holder_remove transport_dtor (registered st) ?w s = Ret (NO_ERROR, h, w)" "registry h w ring' c'"
    "holder_map h ring' = (holder_map (registered st) ring)(s := None)" "sock_of w = (sock_of (objects st))(b := - 1)"
    "rc_decWeak (c b) = Some (c' b)" "\<forall>i. i \<noteq> b \<longrightarrow> c' i = c i"
    using holder_remove_ok [OF reg assms(2), of s transport_dtor] nf assms(7) by auto
  have st: "rc_strong (c' b) = rc_strong (c b)" using rc_decWeak_life [OF r(5) nf] by simp
  then have "rc_alive (c' b)" using assms(4) by (cases "c' b") auto
  then have "obj (refs_of w b)" using registry_obj [OF r(2)] by simp
  then show ?thesis using r st assms(3,5,6,8)
    by (intro exI [of _ "st\<lparr>registered := h, objects := w, open_fds := open_fds st - {s}, epoll_set := epoll_set st - {s},
        upcalls := upcalls st @ [HandleClose b]\<rparr>"] exI [of _ ring'] exI [of _ c'])
      (simp add: CloseTransport_def Let_def set_sock_def close_fd_def)
qed

text \<open>
  A transport without a strong reference is deleted by its own registration: the weak reference of the
  registry is the only one, \<open>CloseTransport\<close> drops it and then calls \<open>handleClose\<close> of the deleted object.
\<close>

lemma close_raw_transport:
  assumes "registry (registered st) (objects st) ring c" "roomy c" "c b = Fresh 1" "b \<noteq> 0" "sock_of (objects st) b = s" "s \<noteq> - 1"
    "holder_map (registered st) ring s = Some b" "res \<noteq> - 1"
  shows "CloseTransport False res b st = Fault"
proof -
  let ?w = "(objects st)\<lparr>sock_of := (sock_of (objects st))(b := - 1)\<rparr>"
  have i: "holder_inv (registered st) ring {}" and cw: "counted ?w c" using assms(1) by (simp_all add: registry_def counted_def)
  have d: "rc_decWeak (c b) = Some Gone" using assms(3) by simp
  obtain w1 where w1: "counted w1 (c(b := Gone))" "sock_of w1 = sock_of ?w" "refs_do transport_dtor decWeak b ?w = transport_dtor b w1"
    using refs_do_ok [OF refines_ops(4) cw roomyD [OF assms(2)] d, of transport_dtor] assms(3) by auto
  then have r: "refs_do transport_dtor decWeak b ?w = Ret w1" by (simp add: transport_dtor_def)
  have dead: "\<not> obj (refs_of w1 b)" using w1(1) [unfolded counted_def, rule_format, of b] by simp
  from i have "\<exists>h. holder_remove transport_dtor (registered st) ?w s = Ret (NO_ERROR, h, w1)"
  proof (cases rule: holder_find_cases [where sock = s])
    case (found xs p ys)
    then have "inst_at (registered st) p = b"
      using holder_map_find(1) [of "registered st" xs p ys] i assms(7) by (auto simp: holder_inv_def)
    then show ?thesis
      using removeItem_ok [of "registered st" xs p ys "{}" transport_dtor ?w w1] i r found(1,3) by (auto simp: holder_remove_def)
  next
    case (absent xs ys)
    then show ?thesis using holder_map_absent [OF absent(3,4)] assms(7) by simp
  qed
  then show ?thesis using dead assms(4-6,8) by (auto simp: CloseTransport_def Let_def set_sock_def)
qed

section \<open>Properties\<close>

text \<open>
  C12. An event reaches exactly the live transport that owns the socket.  Assume that the registry is
  consistent and its counts are far from their limits, that the reference the poller still holds from the
  event before is not the last one to its transport, unless that is the transport registered for this
  socket, and that a live transport registered for this socket but using another by now has a strong
  reference (dropping the last reference during the look-up deadlocks, see below).  For an event on a
  socket: a transport that is registered for it, alive and still using it gets \<open>handleRead\<close> and \<open>handleWrite\<close>
  as the event says, and the poller holds a reference to it; on a hang-up or error its socket is closed,
  unregistered and set to -1 and \<open>handleClose\<close> is called once.  No other handler is called; an entry
  of a dead transport, or of one with another socket, is dropped silently, and an event on an unknown
  socket changes nothing.  The registry stays consistent.
\<close>

theorem poller_dispatches_live:
  assumes "event_ok st ring c fd out"
  shows "\<exists>st' out' ring' c'. handle_event fd ev st out = Ret (st', out') \<and> registry (registered st') (objects st') ring' c' \<and>
    (case holder_map (registered st) ring fd of
       None \<Rightarrow> st' = st \<and> out' = out
     | Some b \<Rightarrow>
         if \<not> (rc_alive (c b) \<and> sock_of (objects st) b = fd)
         then out' = out \<and> upcalls st' = upcalls st \<and> open_fds st' = open_fds st \<and>
           holder_map (registered st') ring' = (holder_map (registered st) ring)(fd := None)
         else if ev AND (EPOLLHUP OR EPOLLERR) \<noteq> 0
         then out' = b \<and> upcalls st' = upcalls st @ [HandleClose b] \<and> open_fds st' = open_fds st - {fd} \<and>
           epoll_set st' = epoll_set st - {fd} \<and> sock_of (objects st') = (sock_of (objects st))(b := - 1) \<and>
           holder_map (registered st') ring' = (holder_map (registered st) ring)(fd := None)
         else out' = b \<and> open_fds st' = open_fds st \<and> registered st' = registered st \<and> ring' = ring \<and> c' = fetched c out b \<and>
           upcalls st' = upcalls st @ (if ev AND EPOLLIN \<noteq> 0 then [HandleRead b] else []) @
             (if ev AND EPOLLOUT \<noteq> 0 then [HandleWrite b] else []))"
proof (cases "holder_map (registered st) ring fd")
  case None
  then show ?thesis using handle_event_stale(1) [OF assms] assms by (auto simp: event_ok_def)
next
  case (Some b)
  show ?thesis
  proof (cases "rc_alive (c b) \<and> sock_of (objects st) b = fd")
    case False
    then show ?thesis unfolding Some option.case if_P [OF False] using handle_event_stale(2) [OF assms Some False] by blast
  next
    case live: True
    then show ?thesis
    proof (cases "ev AND (EPOLLHUP OR EPOLLERR) = 0")
      case True
      then show ?thesis using handle_event_io [OF assms Some _ _ True] live unfolding Some by fastforce
    next
      case False
      then show ?thesis using handle_event_hangup [OF assms Some _ _ False] live unfolding Some by fastforce
    qed
  qed
qed

definition demo_poller :: poller where
  "demo_poller = \<lparr>coreDescriptor = 3, mWakeOn = 1, write_fd = 5, mTimerQ = \<lparr>listToken = 1, tvLastSync = TV_ZERO, mList = [], units = Map.empty,
     reads = 0, calls = []\<rparr>, registered = demo_holder, objects = demo_refs, open_fds = {3, 4, 5, 7}, epoll_set = {4}, pipe_bytes = 0, upcalls = []\<rparr>"

lemma demo_spacious: "spacious (\<lambda>_. Shared 1 0)"
  by (simp add: spacious_def INITIAL_STRONG_VALUE_def)

lemma demo_poller_added:
  obtains st ring c where "AddTransport 0 7 demo_poller = Ret (NO_ERROR, st)" "registry (registered st) (objects st) ring c"
    "holder_map (registered st) ring = [7 \<mapsto> 7]" "life 1 (\<lambda>_. Shared 1 0) c" "sock_of (objects st) = int" "upcalls st = []"
    "open_fds st = {3, 4, 5, 7}"
proof -
  have e: "holder_map demo_holder [] = Map.empty" by (simp add: holder_map_def)
  obtain st ring c where r: "AddTransport 0 7 demo_poller = Ret (NO_ERROR, st)" "registry (registered st) (objects st) ring c"
    "holder_map (registered st) ring = (holder_map (registered demo_poller) [])(7 \<mapsto> 7)" "life 1 (\<lambda>_. Shared 1 0) c"
    "st = demo_poller\<lparr>registered := registered st, objects := objects st, epoll_set := insert 7 (epoll_set demo_poller)\<rparr>"
    "sock_of (objects st) = sock_of (objects demo_poller)"
    using AddTransport_ok [of demo_poller "[]" "\<lambda>_. Shared 1 0" 7 7 0] demo_holder_registry demo_spacious e
    by (auto simp: demo_poller_def CONTAINER_LIMIT_def demo_refs_def)
  moreover have "upcalls st = []" "open_fds st = {3, 4, 5, 7}" by (subst r(5), simp add: demo_poller_def)+
  ultimately show thesis using that e by (auto simp: demo_poller_def demo_refs_def)
qed

lemma life_spacious: "life 1 (\<lambda>_. Shared 1 0) c \<Longrightarrow> spacious c \<and> rc_strong (c b) = 1 \<and> rc_alive (c b)"
  unfolding life_def spacious_def
proof (intro conjI allI)
  fix i assume l: "\<forall>b. rc_alive (c b) = rc_alive (Shared 1 0) \<and> rc_strong (c b) = rc_strong (Shared 1 0) \<and> rc_total (c b) \<le> rc_total (Shared 1 0) + 1"
  show "int (rc_total (c i)) < INITIAL_STRONG_VALUE - 8" using l [rule_format, of i] by (simp add: INITIAL_STRONG_VALUE_def)
  show "rc_strong (c b) = 1" "rc_alive (c b)" using l by simp_all
qed

theorem poller_dispatches_live_witness:
  "\<exists>st st'. AddTransport 0 7 demo_poller = Ret (NO_ERROR, st) \<and> handle_event 7 (EPOLLIN OR EPOLLOUT) st 0 = Ret (st', 7) \<and>
     upcalls st' = [HandleRead 7, HandleWrite 7]"
proof -
  obtain st ring c where r: "AddTransport 0 7 demo_poller = Ret (NO_ERROR, st)" "registry (registered st) (objects st) ring c"
    "holder_map (registered st) ring = [7 \<mapsto> 7]" "life 1 (\<lambda>_. Shared 1 0) c" "sock_of (objects st) = int" "upcalls st = []"
    by (rule demo_poller_added)
  have "event_ok st ring c 7 0" using r life_spacious [OF r(4)] by (simp add: event_ok_def)
  from poller_dispatches_live [OF this, of "EPOLLIN OR EPOLLOUT"] show ?thesis
    using r life_spacious [OF r(4)] by (auto simp: EPOLLIN_def EPOLLOUT_def EPOLLHUP_def EPOLLERR_def)
qed

text \<open>
  C20. A transport can be added and closed again.  Adding a transport with a strong reference and a
  socket that is not registered, to a registry with room, maps the socket to it and puts it into the epoll
  set.  Closing it afterwards restores the registry, takes the socket out of the epoll set, closes it,
  sets the member to -1 and calls \<open>handleClose\<close> once; its references are as before.  Closing it once more
  does nothing but return an error.
\<close>

theorem transport_lifecycle:
  assumes "registry (registered st) (objects st) ring c" "spacious c" "b \<noteq> 0" "rc_strong (c b) > 0" "sock_of (objects st) b = s" "s \<noteq> - 1"
    "length ring < CONTAINER_LIMIT" "holder_map (registered st) ring s = None" "res \<noteq> - 1" "res' \<noteq> - 1"
  shows "\<exists>st1 ring1 st2 ring2 c2. AddTransport res b st = Ret (NO_ERROR, st1) \<and>
    holder_map (registered st1) ring1 = (holder_map (registered st) ring)(s \<mapsto> b) \<and> s \<in> epoll_set st1 \<and>
    CloseTransport False res' b st1 = Ret (NO_ERROR, st2) \<and> registry (registered st2) (objects st2) ring2 c2 \<and>
    holder_map (registered st2) ring2 = holder_map (registered st) ring \<and> rc_strong (c2 b) = rc_strong (c b) \<and>
    sock_of (objects st2) b = - 1 \<and> s \<notin> open_fds st2 \<and> s \<notin> epoll_set st2 \<and> upcalls st2 = upcalls st @ [HandleClose b] \<and>
    CloseTransport False res'' b st2 = Ret (UNKNOWN_ERROR, st2)"
proof -
  have al: "rc_alive (c b)" using assms(4) by (cases "c b") auto
  obtain st1 ring1 c1 where a: "AddTransport res b st = Ret (NO_ERROR, st1)" "registry (registered st1) (objects st1) ring1 c1"
    "holder_map (registered st1) ring1 = (holder_map (registered st) ring)(s \<mapsto> b)" "life 1 c c1"
    "st1 = st\<lparr>registered := registered st1, objects := objects st1, epoll_set := insert s (epoll_set st)\<rparr>"
    "sock_of (objects st1) = sock_of (objects st)"
    using AddTransport_ok [OF assms(1-3) al assms(5-9)] by blast
  have f: "roomy c1" "rc_strong (c1 b) = rc_strong (c b)" using life_facts [OF a(4) assms(2)] by simp_all
  have up: "upcalls st1 = upcalls st" "s \<in> epoll_set st1" by (subst a(5), simp)+
  obtain st2 ring2 c2 where d: "CloseTransport False res' b st1 = Ret (NO_ERROR, st2)" "registry (registered st2) (objects st2) ring2 c2"
    "holder_map (registered st2) ring2 = (holder_map (registered st1) ring1)(s := None)"
    "sock_of (objects st2) = (sock_of (objects st1))(b := - 1)" "open_fds st2 = open_fds st1 - {s}" "epoll_set st2 = epoll_set st1 - {s}"
    "upcalls st2 = upcalls st1 @ [HandleClose b]" "rc_strong (c2 b) = rc_strong (c1 b)"
    using CloseTransport_ok [OF a(2) f(1) assms(3), of s res'] f(2) a(3,6) assms(4-6,10) by auto
  have "CloseTransport False res'' b st2 = Ret (UNKNOWN_ERROR, st2)" using d(4) assms(3) by (simp add: CloseTransport_def Let_def)
  moreover have "holder_map (registered st2) ring2 = holder_map (registered st) ring" using d(3) a(3) assms(8) by auto
  ultimately show ?thesis using a(1,3) d(1,2,4-8) f(2) up
    by (intro exI [of _ st1] exI [of _ ring1] exI [of _ st2] exI [of _ ring2] exI [of _ c2]) simp
qed

theorem transport_lifecycle_witness:
  "\<exists>st1 st2. AddTransport 0 7 demo_poller = Ret (NO_ERROR, st1) \<and> CloseTransport False 0 7 st1 = Ret (NO_ERROR, st2) \<and> 7 \<notin> open_fds st2"
proof -
  have d: "registered demo_poller = demo_holder" "objects demo_poller = demo_refs" "sock_of demo_refs 7 = 7" "holder_map demo_holder [] = Map.empty"
    by (simp_all add: demo_poller_def demo_refs_def holder_map_def)
  show ?thesis
    using transport_lifecycle [of demo_poller "[]" "\<lambda>_. Shared 1 0" 7 7 0 0 0] demo_holder_registry demo_spacious d
    by (auto simp: CONTAINER_LIMIT_def)
qed

text \<open>
  Looking up a socket can deadlock the poller.  When the reference left over from the previous event
  is the last one to a transport whose socket is still open, the next successful lookup drops it while
  the registry is locked: the destructor of the transport closes it, which needs the same lock.
\<close>

theorem fetch_last_reference_deadlocks:
  assumes "registry (registered st) (objects st) ring c" "spacious c" "holder_map (registered st) ring fd = Some b" "b \<noteq> 0"
    "rc_alive (c b)" "sock_of (objects st) b = fd"
    "out \<noteq> 0" "out \<noteq> b" "c out = Shared 1 n" "sock_of (objects st) out \<noteq> - 1"
  shows "handle_event fd ev st out = Deadlock"
proof -
  let ?s = "registered st" and ?w = "objects st"
  have i: "holder_inv ?s ring {}" and cw: "counted ?w c" and ac: "accounted ?s ring c" using assms(1) by (simp_all add: registry_def)
  note rm = spacious_roomy [OF assms(2)]
  note tk = rc_took_facts [OF assms(5)]
  have tot: "int (rc_total (c j)) < INITIAL_STRONG_VALUE - 8" for j using assms(2) by (simp add: spacious_def)
  from i show ?thesis
  proof (cases rule: holder_find_cases [where sock = fd])
    case (absent xs ys)
    then show ?thesis using holder_map_absent [OF absent(3,4)] assms(3) by simp
  next
    case (found xs p ys)
    have b: "inst_at ?s p = b" using holder_map_find(1) [of ?s xs p ys] i found(1,2) assms(3) by (auto simp: holder_inv_def)
    then obtain it where it: "sitems ?s p = Some it" "socket_inst it = b"
      using holder_inv_slots(4) [OF i, of p] found(1) by (auto simp: inst_at_def)
    have wk: "rc_weak (c b) > 0" using ac [unfolded accounted_def, rule_format, of b] found(1) b by simp
    obtain r where r: "attemptIncStrong (refs_of ?w b) = Some (True, r)" "counted (?w\<lparr>refs_of := (refs_of ?w)(b := r)\<rparr>) (c(b := rc_took (c b)))"
      using attempt_ok [OF cw roomyD [OF rm] tk(2) [OF wk]] by blast
    let ?w1 = "?w\<lparr>refs_of := (refs_of ?w)(b := r)\<rparr>"
    obtain w2 where w2: "counted w2 (c(b := rc_took (rc_took (c b))))" "sock_of w2 = sock_of ?w" "refs_do transport_dtor incStrong b ?w1 = Ret w2"
      using refs_do_ok [OF refines_ops(1) r(2), of b "rc_took (rc_took (c b))" transport_dtor] rc_took_facts [OF tk(3)] tk(5) tot [of b] by auto
    obtain w3 where w3: "sock_of w3 = sock_of ?w" "refs_do transport_dtor decStrong out w2 = transport_dtor out w3"
      using refs_do_ok [OF refines_ops(2) w2(1), of out "Shared 0 n" transport_dtor] assms(8,9) tot [of out] w2(2) by auto
    then have "refs_do transport_dtor decStrong out w2 = Deadlock" using assms(10) by (simp add: transport_dtor_def)
    then have "sp_assign transport_dtor ?w1 out b = Deadlock" using w2(3) assms(4,7) by (simp add: sp_assign_def)
    then show ?thesis using found(3) it r(1) assms(6) by (simp add: handle_event_def holder_fetch_def Let_def)
  qed
qed

theorem fetch_last_reference_deadlocks_witness:
  "\<exists>st. AddTransport 0 7 demo_poller = Ret (NO_ERROR, st) \<and> handle_event 7 EPOLLIN st 8 = Deadlock"
proof -
  obtain st ring c where r: "AddTransport 0 7 demo_poller = Ret (NO_ERROR, st)" "registry (registered st) (objects st) ring c"
    "holder_map (registered st) ring = [7 \<mapsto> 7]" "life 1 (\<lambda>_. Shared 1 0) c" "sock_of (objects st) = int"
    by (rule demo_poller_added)
  obtain n where "c 8 = Shared 1 n" using life_spacious [OF r(4), of 8] by (cases "c 8") auto
  then show ?thesis
    using fetch_last_reference_deadlocks [OF r(2), of 7 7 8 n EPOLLIN] r(1,3,5) life_spacious [OF r(4)] by auto
qed

text \<open>
  The poller reports success when the kernel refuses its wake pipe.  If everything in \<open>init\<close> succeeds but
  \<open>epoll_ctl\<close>, the status is still the \<open>NO_ERROR\<close> of the registration before it: the poller is kept without
  a core descriptor, and the descriptor that was created is never closed.
\<close>

theorem init_hides_epoll_failure:
  assumes "coreDescriptor st = - 1" "setfd k \<noteq> - 1" "wake_new k = Some (b, r, w)" "ctl k = - 1" "corefd k \<noteq> - 1"
    "registry (registered st) (objects st) ring c" "spacious c" "c b = Fresh 0" "b \<noteq> 0" "length ring < CONTAINER_LIMIT"
    "holder_map (registered st) ring r = None"
  shows "\<exists>st' ring'. poller_init k st = Ret (NO_ERROR, st') \<and> coreDescriptor st' = - 1 \<and> corefd k \<in> open_fds st' \<and> mWakeOn st' = b \<and>
    holder_map (registered st') ring' = (holder_map (registered st) ring)(r \<mapsto> b)"
proof -
  let ?st0 = "st\<lparr>open_fds := insert (corefd k) (open_fds st)\<rparr>"
  let ?st1 = "set_sock b r (?st0\<lparr>mWakeOn := b, write_fd := w, open_fds := open_fds ?st0 \<union> {r, w}\<rparr>)"
  have reg: "registry (registered ?st1) (objects ?st1) ring c" using assms(6) by (simp add: set_sock_def)
  then have cw: "counted (objects ?st1) c" "accounted (registered ?st1) ring c" "holder_inv (registered ?st1) ring {}"
    by (simp_all add: registry_def)
  have inc: "rc_incStrong (c b) = Some (Shared 1 0)" using assms(8) by simp
  obtain o1 where o1: "counted o1 (c(b := Shared 1 0))" "refs_do transport_dtor incStrong b (objects ?st1) = Ret o1"
    using refs_do_ok [OF refines_ops(1) cw(1) roomyD [OF spacious_roomy [OF assms(7)]] inc, of transport_dtor] assms(8) by auto
  have "rc_weak ((c(b := Shared 1 0)) i) = rc_weak (c i)" for i using assms(8) by simp
  then have "registry (registered ?st1) o1 ring (c(b := Shared 1 0))" using cw o1(1) by (simp add: registry_def accounted_def)
  moreover have "int (rc_total ((c(b := Shared 1 0)) i)) < INITIAL_STRONG_VALUE - 4" for i
    using assms(7) [unfolded spacious_def, rule_format, of i] by (simp add: INITIAL_STRONG_VALUE_def)
  then have "roomy (c(b := Shared 1 0))" by (simp only: roomy_def) blast
  ultimately obtain h o2 ring' c' where ins: "holder_insert transport_dtor (registered ?st1) o1 r b = Ret (NO_ERROR, h, o2)"
    "holder_map h ring' = (holder_map (registered ?st1) ring)(r \<mapsto> b)"
    using holder_insert_ok [of "registered ?st1" o1 ring "c(b := Shared 1 0)" b r transport_dtor] assms(9-11)
    by (auto simp: set_sock_def)
  have hm: "holder_map (registered ?st1) ring = holder_map (registered st) ring" by (simp add: set_sock_def)
  have "poller_init k st = Ret (NO_ERROR, ?st1\<lparr>registered := h, objects := o2\<rparr>)"
    using assms(1-5) o1(2) ins(1) by (simp add: poller_init_def Let_def)
  then show ?thesis using ins(2) assms(1) hm by (auto simp: set_sock_def)
qed

definition demo_init :: init_results where
  "demo_init = \<lparr>corefd = 3, setfd = 0, wake_new = Some (9, 4, 5), ctl = - 1\<rparr>"

definition fresh_poller :: poller where
  "fresh_poller = demo_poller\<lparr>coreDescriptor := - 1, mWakeOn := 0, write_fd := - 1, open_fds := {},
     objects := demo_refs\<lparr>refs_of := (\<lambda>_. RefBase_init)\<rparr>\<rparr>"

theorem init_hides_epoll_failure_witness:
  "\<exists>st'. poller_init demo_init fresh_poller = Ret (NO_ERROR, st') \<and> coreDescriptor st' = - 1 \<and> 3 \<in> open_fds st'"
proof -
  have "holder_inv demo_holder [] {}" using demo_holder_registry by (simp add: registry_def)
  then have "registry (registered fresh_poller) (objects fresh_poller) [] (\<lambda>_. Fresh 0)"
    by (simp add: registry_def counted_def accounted_def fresh_poller_def demo_poller_def RefBase_init_def)
  from init_hides_epoll_failure [OF _ _ _ _ _ this, of demo_init 9 4 5] show ?thesis
    by (auto simp: demo_init_def fresh_poller_def spacious_def INITIAL_STRONG_VALUE_def CONTAINER_LIMIT_def holder_map_def)
qed

text \<open>
  A full registry goes unnoticed.  With 50 sockets registered, \<open>AddTransport\<close> of another one returns
  \<open>NO_ERROR\<close> and puts the socket into the epoll set although it is not registered: every event on it
  ends without a handler being called and leaves the socket in the epoll set.
\<close>

theorem full_registry_unnoticed:
  assumes "registry (registered st) (objects st) ring c" "spacious c" "0 \<notin> ran (holder_map (registered st) ring)"
    "length ring = CONTAINER_LIMIT" "b \<noteq> 0" "rc_alive (c b)" "sock_of (objects st) b = s" "0 \<le> s" "holder_map (registered st) ring s = None"
    "res \<noteq> - 1" "out = 0 \<or> rc_strong (c out) > 1"
  shows "\<exists>st'. AddTransport res b st = Ret (NO_ERROR, st') \<and> s \<in> epoll_set st' \<and> handle_event s ev st' out = Ret (st', out)"
proof -
  have ins: "holder_insert transport_dtor (registered st) (objects st) s b = Ret (UNKNOWN_ERROR, registered st, objects st)"
    using holder_insert_ok [OF assms(1) spacious_roomy [OF assms(2)] assms(5,6), of s transport_dtor] assms(4,9) by auto
  let ?st = "st\<lparr>epoll_set := insert s (epoll_set st)\<rparr>"
  have "AddTransport res b st = Ret (NO_ERROR, ?st)" using ins assms(5,7,8,10) by (auto simp: AddTransport_def Let_def)
  moreover have "event_ok ?st ring c s out" using assms by (auto simp: event_ok_def)
  then have "handle_event s ev ?st out = Ret (?st, out)" using handle_event_stale(1) assms(9) by simp
  ultimately show ?thesis by auto
qed


text \<open>
  The timeout for an empty queue of timers is the time to the end of the 32-bit clock and overflows: at
  the time 1395000000 the result stands for ten days.
\<close>

lemma poll_timeout_wraps: "poll_timeout (tv_sec (time_interval TV_INFINITY \<lparr>tv_sec = 1395000000, tv_usec = 0\<rparr>)) 999999 = 864371199"
  by (simp add: poll_timeout_def time_interval_def TV_INFINITY_def MILLION_def c_int_def signed_take_bit_eq_take_bit_shift take_bit_eq_mod c_quot_def)

section \<open>Waiting\<close>













lemma registry_size: "registry s w ring c \<Longrightarrow> length ring = card (dom (holder_map s ring))"
proof -
  assume "registry s w ring c"
  then have "sorted_wrt (<) (map (fd_at s) ring)" by (simp add: registry_def holder_inv_def)
  then have "distinct (map (fd_at s) ring)" using strict_sorted_iff by blast
  moreover have "dom (holder_map s ring) = set (map (fd_at s) ring)" by (simp add: holder_map_def dom_map_of_conv_image_fst image_image)
  ultimately show ?thesis using distinct_card [of "map (fd_at s) ring"] by simp
qed

lemma life_bound: "life n (\<lambda>_. Shared 1 0) c \<Longrightarrow> n \<le> 100 \<Longrightarrow> spacious c \<and> rc_alive (c b) \<and> c b \<noteq> Fresh 1"
  unfolding life_def spacious_def
proof (intro conjI allI)
  fix i assume l: "\<forall>b. rc_alive (c b) = rc_alive (Shared 1 0) \<and> rc_strong (c b) = rc_strong (Shared 1 0) \<and> rc_total (c b) \<le> rc_total (Shared 1 0) + n"
    and n: "n \<le> 100"
  show "int (rc_total (c i)) < INITIAL_STRONG_VALUE - 8" using l [rule_format, of i] n by (simp add: INITIAL_STRONG_VALUE_def)
  show "rc_alive (c b)" using l by simp
  show "c b \<noteq> Fresh 1" using l [rule_format, of b] by auto
qed

lemma demo_filled:
  assumes "n \<le> CONTAINER_LIMIT"
  shows "\<exists>s w ring c. registry s w ring c \<and> holder_map s ring = (\<lambda>x. if 10 \<le> x \<and> x < 10 + int n then Some (nat x) else None) \<and>
    sock_of w = int \<and> life n (\<lambda>_. Shared 1 0) c"
  using assms
proof (induction n)
  case 0
  then show ?case using demo_holder_registry(1) by (fastforce simp: holder_map_def demo_refs_def life_def)
next
  case (Suc n)
  then obtain s w ring c where r: "registry s w ring c" "holder_map s ring = (\<lambda>x. if 10 \<le> x \<and> x < 10 + int n then Some (nat x) else None)"
    "sock_of w = int" "life n (\<lambda>_. Shared 1 0) c" by auto
  have "dom (holder_map s ring) = {10..<10 + int n}" using r(2) by (auto split: if_splits)
  then have len: "length ring = n" using registry_size [OF r(1)] by simp
  have b: "spacious c \<and> rc_alive (c i) \<and> c i \<noteq> Fresh 1" for i using life_bound [OF r(4)] Suc.prems by (simp add: CONTAINER_LIMIT_def)
  obtain s' w' ring' c' where i: "registry s' w' ring' c'" "holder_map s' ring' = (holder_map s ring)(10 + int n \<mapsto> 10 + n)" "sock_of w' = sock_of w"
    "life 1 c c'"
    using holder_insert_ok [OF r(1) spacious_roomy, of "10 + n" "10 + int n" no_dtor] b len Suc.prems by fastforce
  have "(holder_map s ring)(10 + int n \<mapsto> 10 + n) = (\<lambda>x. if 10 \<le> x \<and> x < 10 + int (Suc n) then Some (nat x) else None)"
    unfolding r(2) by (auto simp: fun_eq_iff nat_add_distrib)
  moreover have "life (Suc n) (\<lambda>_. Shared 1 0) c'" using life_trans [OF r(4) i(4)] by simp
  ultimately show ?case using i r(3) by metis
qed

theorem full_registry_unnoticed_witness:
  "\<exists>s w st'. AddTransport 0 7 (demo_poller\<lparr>registered := s, objects := w\<rparr>) = Ret (NO_ERROR, st') \<and> 7 \<in> epoll_set st' \<and>
     handle_event 7 EPOLLIN st' 0 = Ret (st', 0)"
proof -
  obtain s w ring c where r: "registry s w ring c"
    "holder_map s ring = (\<lambda>x. if 10 \<le> x \<and> x < 10 + int CONTAINER_LIMIT then Some (nat x) else None)"
    "sock_of w = int" "life CONTAINER_LIMIT (\<lambda>_. Shared 1 0) c" using demo_filled [of CONTAINER_LIMIT] by auto
  have "dom (holder_map s ring) = {10..<10 + int CONTAINER_LIMIT}" using r(2) by (auto split: if_splits)
  then have len: "length ring = CONTAINER_LIMIT" using registry_size [OF r(1)] by simp
  have "0 \<notin> ran (holder_map s ring)" unfolding r(2) by (auto simp: ran_def)
  then show ?thesis
    using full_registry_unnoticed [of "demo_poller\<lparr>registered := s, objects := w\<rparr>" ring c 7 7 0 0 EPOLLIN] r len
      life_bound [OF r(4)] by (fastforce simp: CONTAINER_LIMIT_def)
qed

text \<open>
  On a hang-up the poller closes the socket before it removes the entry.  If another thread gets the same
  number for a new socket in between and adds its transport, the poller removes the new entry: the
  transport stays in the epoll set without being registered.
\<close>

lemma close_before_remove:
  assumes "registry (registered st) (objects st) ring c" "spacious c" "holder_map (registered st) ring s = Some b" "rc_strong (c b) > 0"
    "b' \<noteq> 0" "b' \<noteq> b" "rc_strong (c b') > 0" "sock_of (objects st) b' = s" "s \<noteq> - 1" "length ring < CONTAINER_LIMIT" "res \<noteq> - 1"
  shows "\<exists>st1 ring1 h w ring2. AddTransport res b' (close_fd s st) = Ret (NO_ERROR, st1) \<and>
    holder_map (registered st1) ring1 = (holder_map (registered st) ring)(s \<mapsto> b') \<and> s \<in> epoll_set st1 \<and>
    holder_remove transport_dtor (registered st1) (objects st1) s = Ret (NO_ERROR, h, w) \<and> holder_map h ring2 s = None"
proof -
  have al: "rc_alive (c b')" using assms(7) by (cases "c b'") auto
  have "c b \<noteq> Fresh 1" using assms(4) by auto
  then obtain h w ring1 c1 where i: "holder_insert transport_dtor (registered st) (objects st) s b' = Ret (NO_ERROR, h, w)" "registry h w ring1 c1"
    "holder_map h ring1 = (holder_map (registered st) ring)(s \<mapsto> b')" "sock_of w = sock_of (objects st)" "life 1 c c1"
    using holder_insert_ok [OF assms(1) spacious_roomy [OF assms(2)] assms(5) al, of s transport_dtor] assms(3,10) by fastforce
  note f = life_facts [OF i(5) assms(2)]
  have "c1 b' \<noteq> Fresh 1" using f(3) [of b'] assms(7) by auto
  then obtain h' w' ring2 where r: "holder_remove transport_dtor h w s = Ret (NO_ERROR, h', w')" "holder_map h' ring2 = (holder_map h ring1)(s := None)"
    using holder_remove_ok [OF i(2) f(1), of s transport_dtor] i(3) by fastforce
  let ?st1 = "(close_fd s st)\<lparr>registered := h, objects := w, epoll_set := insert s (epoll_set (close_fd s st))\<rparr>"
  have "AddTransport res b' (close_fd s st) = Ret (NO_ERROR, ?st1)"
    using i(1,4) assms(5,8,9,11) by (simp add: AddTransport_def Let_def close_fd_def)
  then show ?thesis using i(3) r by (intro exI [of _ ?st1] exI [of _ ring1] exI [of _ h'] exI [of _ w'] exI [of _ ring2]) (simp add: close_fd_def)
qed

text \<open>
  \<open>wakePipe::init\<close> reports success when \<open>F_GETFL\<close> fails, and closes whatever the uninitialised array
  holds when \<open>pipe\<close> fails.
\<close>

lemma wakePipe_init_errors:
  "wakePipe_init (0, r, w) (- 1) setR getW setW = (NO_ERROR, Some (r, w), [])"
  "r \<noteq> - 1 \<Longrightarrow> w \<noteq> - 1 \<Longrightarrow> wakePipe_init (- 1, r, w) getR setR getW setW = (- 1, None, [r, w])"
  by (simp_all add: wakePipe_init_def NO_ERROR_def)

end
