(* ===== verification/Conf_Nodes.thy ===== *)
theory Conf_Nodes
  imports Ref_Base Status_Codes Io_Stream "HOL-Library.Multiset"
begin

text \<open>
  What the conference classes of \<open>libconf\<close> share: the nodes of a conference.  The interface
  \<open>IMediaNode\<close> and the base class \<open>IConfMix\<close> are declared in \<open>IMultiParty.h\<close>, which is not in the
  repository: the values of the node types and the virtual function \<open>nodeType\<close> are the parameter \<open>e\<close>.
  A node is a pointer (0 is null) to an object with the reference counts of \<open>Ref_Base\<close>; a virtual call
  on a deleted node is a \<open>Fault\<close>.  \<open>mClientNum\<close>, a member of \<open>IConfMix\<close>, is an \<open>int\<close>.

  The locale \<open>conf_mixer\<close> is what a conference promises its callers about the references it owns.
\<close>

section \<open>Model\<close>

record media_if =
  NODE_A_IP_CODEC :: int
  NODE_A_DRIVER :: int
  NODE_V_IP_RENDER :: int
  NODE_V_CAMERA_SET :: int
  NODE_V_ENCODER :: int
  NODE_CLASS_MASK :: int
  NODE_A_CLASS :: int
  NODE_V_CLASS :: int
  nodeType :: "nat \<Rightarrow> int"

type_synonym nodes = "nat \<Rightarrow> refs_t"

definition node_do :: "(refs_t \<Rightarrow> refs_t option) \<Rightarrow> nat \<Rightarrow> nodes \<Rightarrow> nodes outcome" where
  \<comment> \<open>a reference-count operation on a node\<close>
  "node_do f n w = (if n = 0 then Fault else case f (w n) of None \<Rightarrow> Fault | Some r \<Rightarrow> Ret (w(n := r)))"

definition call_node :: "nat \<Rightarrow> nodes \<Rightarrow> 'a \<Rightarrow> 'a outcome" where
  \<comment> \<open>a virtual call that returns \<open>x\<close>\<close>
  "call_node n w x = (if n \<noteq> 0 \<and> obj (w n) then Ret x else Fault)"

fun calls :: "nat list \<Rightarrow> nodes \<Rightarrow> 'a \<Rightarrow> 'a outcome" where
  \<comment> \<open>virtual calls on the nodes of a list, one after the other\<close>
  "calls [] w x = Ret x"
| "calls (n # ns) w x = obind (call_node n w ()) (\<lambda>_. calls ns w x)"

fun release_nodes :: "nat list \<Rightarrow> nodes \<Rightarrow> nodes outcome" where
  \<comment> \<open>the loops of the destructors; for a list of strong references its own destructor\<close>
  "release_nodes [] w = Ret w"
| "release_nodes (n # ns) w = obind (node_do decStrong n w) (release_nodes ns)"

text \<open>
  The loop that prints the nodes of a list in \<open>dumpInfo\<close>; \<open>fmt\<close> is the formatted text for a node.
  \<open>dump_to\<close> prints to the caller's stream, or without one to a local buffer of 1024 bytes with the
  content \<open>junk\<close>, which then goes to the terminal.
\<close>

definition dump_nodes :: "(nat \<Rightarrow> u8 list option) \<Rightarrow> nat list \<Rightarrow> io_op list" where
  "dump_nodes fmt ns = map (\<lambda>n. Print (fmt n)) ns"

definition dump_to :: "u8 list \<Rightarrow> nat list \<Rightarrow> nodes \<Rightarrow> (bool \<Rightarrow> io_op list) \<Rightarrow> ioStream option \<Rightarrow> ioStream outcome" where
  "dump_to junk ns w ops stream =
     obind (calls ns w stream) (\<lambda>target.
       case target of
         None \<Rightarrow> access (io_run (ops True) (snd (ioStreamRewind \<lparr>buffer = junk, ssize = 1024, cursor = 0, remain = 0\<rparr>)))
       | Some s \<Rightarrow> access (io_run (ops False) s))"

lemma obind_eq_Ret: "obind x f = Ret y \<longleftrightarrow> (\<exists>z. x = Ret z \<and> f z = Ret y)"
  by (cases x) auto

section \<open>Nodes in the order of their types\<close>

definition placed :: "('a media_if_scheme) \<Rightarrow> nat \<Rightarrow> nat list \<Rightarrow> nat list" where
  \<comment> \<open>after the nodes whose type is not greater\<close>
  "placed e node ns = takeWhile (\<lambda>n. nodeType e n \<le> nodeType e node) ns @ node # dropWhile (\<lambda>n. nodeType e n \<le> nodeType e node) ns"

lemma mset_placed [simp]: "mset (placed e node ns) = add_mset node (mset ns)"
proof -
  have "mset (placed e node ns) = add_mset node (mset (takeWhile (\<lambda>n. nodeType e n \<le> nodeType e node) ns @ dropWhile (\<lambda>n. nodeType e n \<le> nodeType e node) ns))"
    unfolding placed_def mset_append by simp
  then show ?thesis by (simp only: takeWhile_dropWhile_id)
qed

lemma placed_simps [simp]: "length (placed e node ns) = Suc (length ns)" "set (placed e node ns) = insert node (set ns)"
  "length (filter P (placed e node ns)) = length (filter P ns) + (if P node then 1 else 0)"
proof -
  show "length (placed e node ns) = Suc (length ns)" by (metis mset_placed size_mset size_add_mset)
  show "set (placed e node ns) = insert node (set ns)" by (metis mset_placed set_mset_mset set_mset_add_mset_insert)
  have "size (filter_mset P (mset (placed e node ns))) = size (filter_mset P (mset ns)) + (if P node then 1 else 0)"
    unfolding mset_placed by simp
  then show "length (filter P (placed e node ns)) = length (filter P ns) + (if P node then 1 else 0)"
    by (metis mset_filter size_mset)
qed

lemma sorted_placed:
  assumes "sorted (map (nodeType e) ns)"
  shows "sorted (map (nodeType e) (placed e node ns))"
  using assms
proof (induction ns)
  case (Cons n ns)
  have le: "nodeType e n \<le> nodeType e m" if "m \<in> set ns" for m using Cons.prems that by simp
  show ?case
  proof (cases "nodeType e n \<le> nodeType e node")
    case True
    then have "placed e node (n # ns) = n # placed e node ns" by (simp add: placed_def)
    then show ?thesis using Cons le True by simp
  next
    case False
    then have "placed e node (n # ns) = node # n # ns" by (simp add: placed_def)
    then show ?thesis using Cons.prems le False by fastforce
  qed
qed (simp add: placed_def)

lemma sorted_map_remove1_gen: "sorted (map f xs) \<Longrightarrow> sorted (map f (remove1 x xs))"
  by (induction xs) (auto dest: notin_set_remove1 set_remove1_subset [THEN subsetD])

lemma length_filter_remove1:
  "n \<in> set xs \<Longrightarrow> length (filter P xs) = length (filter P (remove1 n xs)) + (if P n then 1 else 0)"
  by (induction xs) auto

section \<open>References\<close>

text \<open>
  \<open>c\<close> are the references the rest of the program has to the nodes; a conference with the members \<open>M\<close>
  has a strong reference more for each of them.
\<close>

fun rc_plus :: "rc \<Rightarrow> nat \<Rightarrow> rc" where
  "rc_plus (Fresh w) k = (if k = 0 then Fresh w else Shared k w)"
| "rc_plus (Shared s w) k = Shared (s + k) w"
| "rc_plus Gone k = (if k = 0 then Gone else Shared k 0)"

definition with_members :: "(nat \<Rightarrow> rc) \<Rightarrow> nat multiset \<Rightarrow> nat \<Rightarrow> rc" where
  "with_members c M n = rc_plus (c n) (count M n)"

definition node_counted :: "nodes \<Rightarrow> (nat \<Rightarrow> rc) \<Rightarrow> bool" where
  "node_counted w c \<longleftrightarrow> (\<forall>n. refs_rep (w n) (c n))"

definition has_room :: "nat \<Rightarrow> (nat \<Rightarrow> rc) \<Rightarrow> bool" where
  \<comment> \<open>no count comes near its limit with \<open>k\<close> references more\<close>
  "has_room k c \<longleftrightarrow> (\<forall>n. int (rc_total (c n)) + int k < INITIAL_STRONG_VALUE - 1)"

lemma rc_plus_inc: "rc_alive c \<Longrightarrow> rc_incStrong (rc_plus c k) = Some (rc_plus c (Suc k))"
  by (cases c) auto

lemma rc_plus_dec: "rc_strong c > 0 \<Longrightarrow> rc_decStrong (rc_plus c (Suc k)) = Some (rc_plus c k)"
  by (cases c) auto

lemma rc_plus_alive: "rc_alive c \<or> k > 0 \<Longrightarrow> rc_alive (rc_plus c k)"
  by (cases c) auto

lemma rc_plus_total: "rc_total (rc_plus c k) \<le> rc_total c + k"
  by (cases c) auto

lemma rc_strong_alive: "rc_strong c > 0 \<Longrightarrow> rc_alive c"
  by (cases c) auto

lemma with_members_none [simp]: "with_members c {#} = c"
proof
  fix n show "with_members c {#} n = c n" by (cases "c n") (simp_all add: with_members_def)
qed

lemma with_members_upd:
  "with_members c (add_mset n M) = (with_members c M)(n := rc_plus (c n) (Suc (count M n)))"
  "n \<in># M \<Longrightarrow> with_members c (M - {#n#}) = (with_members c M)(n := rc_plus (c n) (count M n - 1))"
  by (auto simp: with_members_def fun_eq_iff)

lemma has_room_less: "has_room k c \<Longrightarrow> j \<le> k \<Longrightarrow> has_room j c"
  unfolding has_room_def by (meson add_left_mono le_less_trans of_nat_mono)

lemma has_room_members:
  assumes "has_room k c" "size M + j \<le> k"
  shows "has_room j (with_members c M)"
  unfolding has_room_def
proof
  fix n
  have "rc_total (with_members c M n) \<le> rc_total (c n) + size M"
    using rc_plus_total [of "c n" "count M n"] count_le_size [of M n] by (simp add: with_members_def)
  then show "int (rc_total (with_members c M n)) + int j < INITIAL_STRONG_VALUE - 1"
    using assms(1) [unfolded has_room_def, rule_format, of n] assms(2) by linarith
qed

lemma node_counted_alive: "node_counted w c \<Longrightarrow> obj (w n) = rc_alive (c n)"
  using refs_rep_alive by (simp add: node_counted_def)

lemma members_alive:
  "node_counted w (with_members c M) \<Longrightarrow> rc_alive (c n) \<or> n \<in># M \<Longrightarrow> obj (w n)"
  by (simp add: node_counted_alive with_members_def rc_plus_alive)

lemma node_do_ok:
  assumes "refines f g" "node_counted w c" "has_room 0 c" "g (c n) = Some c'" "n \<noteq> 0"
  shows "\<exists>w'. node_do f n w = Ret w' \<and> node_counted w' (c(n := c'))"
proof -
  have "int (rc_total (c n)) < INITIAL_STRONG_VALUE - 1" using assms(3) [unfolded has_room_def, rule_format, of n] by simp
  then obtain r where "f (w n) = Some r" "refs_rep r c'" using assms(1,2,4) unfolding refines_def node_counted_def by blast
  then show ?thesis using assms(2,5) by (simp add: node_do_def node_counted_def)
qed

lemma node_take:
  assumes "node_counted w (with_members c M)" "has_room 0 (with_members c M)" "rc_alive (c n)" "n \<noteq> 0"
  shows "\<exists>w'. node_do incStrong n w = Ret w' \<and> node_counted w' (with_members c (add_mset n M))"
  using node_do_ok [OF refines_ops(1) assms(1,2) _ assms(4)] rc_plus_inc [OF assms(3)]
  by (simp add: with_members_upd) (simp add: with_members_def)

lemma node_drop:
  assumes "node_counted w (with_members c M)" "has_room 0 (with_members c M)" "rc_strong (c n) > 0" "n \<noteq> 0" "n \<in># M"
  shows "\<exists>w'. node_do decStrong n w = Ret w' \<and> node_counted w' (with_members c (M - {#n#}))"
proof -
  obtain k where "count M n = Suc k" using assms(5) by (metis count_eq_zero_iff not0_implies_Suc)
  then show ?thesis using node_do_ok [OF refines_ops(2) assms(1,2) _ assms(4)] rc_plus_dec [OF assms(3)] assms(5)
    by (simp add: with_members_upd) (simp add: with_members_def)
qed

lemma call_node_ok:
  "node_counted w (with_members c M) \<Longrightarrow> rc_alive (c n) \<or> n \<in># M \<Longrightarrow> n \<noteq> 0 \<Longrightarrow> call_node n w x = Ret x"
  using members_alive by (simp add: call_node_def)

lemma calls_ok:
  "node_counted w (with_members c M) \<Longrightarrow> set ns \<subseteq> set_mset M \<Longrightarrow> 0 \<notin> set ns \<Longrightarrow> calls ns w x = Ret x"
  by (induction ns) (auto simp: call_node_ok)

lemma release_nodes_ok:
  assumes "node_counted w (with_members c (mset ns))" "has_room 0 (with_members c (mset ns))" "0 \<notin> set ns"
    "\<forall>n \<in> set ns. \<exists>s v. c n = Shared s v"
  shows "\<exists>w'. release_nodes ns w = Ret w' \<and> node_counted w' (with_members c {#})"
  using assms
proof (induction ns arbitrary: w)
  case (Cons n ns)
  obtain s v where c: "c n = Shared s v" using Cons.prems(4) by auto
  let ?d = "(with_members c (mset (n # ns)))(n := rc_plus (c n) (count (mset ns) n))"
  have d: "?d = with_members c (mset ns)" by (auto simp: with_members_def fun_eq_iff)
  have "rc_decStrong (with_members c (mset (n # ns)) n) = Some (rc_plus (c n) (count (mset ns) n))" by (simp add: with_members_def c)
  then obtain w1 where w1: "node_do decStrong n w = Ret w1" "node_counted w1 (with_members c (mset ns))"
    using node_do_ok [OF refines_ops(2) Cons.prems(1,2)] Cons.prems(3) d by (metis list.set_intros(1))
  have "has_room 0 (with_members c (mset ns))" unfolding has_room_def
  proof
    fix k
    have "rc_total (rc_plus a i) \<le> rc_total (rc_plus a (Suc i))" for a i by (cases a) auto
    then have "rc_total (with_members c (mset ns) k) \<le> rc_total (with_members c (mset (n # ns)) k)" by (simp add: with_members_def)
    then show "int (rc_total (with_members c (mset ns) k)) + int 0 < INITIAL_STRONG_VALUE - 1"
      using Cons.prems(2) [unfolded has_room_def, rule_format, of k] by linarith
  qed
  then show ?case using Cons.IH [OF w1(2)] w1(1) Cons.prems(3,4) by auto
qed simp

text \<open>Printing a conference stays inside the stream, the local buffer included.\<close>

lemma io_run_in_bounds:
  assumes "io_inv s" "\<forall>x \<in> set xs. op_ok x"
  shows "\<exists>s'. io_run xs s = Some s' \<and> io_inv s' \<and> io_frame s s'"
  using assms
proof (induction xs arbitrary: s)
  case (Cons x xs)
  obtain r s1 where 1: "io_step x s = Some (r, s1)" "io_inv s1" "io_frame s s1"
    using io_step_safe [OF Cons.prems(1), of x] Cons.prems(2) by auto
  obtain s' where "io_run xs s1 = Some s'" "io_inv s'" "io_frame s1 s'" using Cons.IH [OF 1(2)] Cons.prems(2) by auto
  then show ?case using 1 io_frame_trans by auto
qed simp

lemma dump_to_ok:
  assumes "node_counted w (with_members c M)" "set ns \<subseteq> set_mset M" "0 \<notin> set ns" "\<forall>b. \<forall>x \<in> set (ops b). op_ok x"
    "length junk = 1024" "case stream of None \<Rightarrow> True | Some s \<Rightarrow> io_inv s"
  shows "\<exists>s'. dump_to junk ns w ops stream = Ret s' \<and> io_inv s'"
proof -
  let ?l = "\<lparr>buffer = junk, ssize = 1024, cursor = 0, remain = 1024\<rparr>"
  have "io_inv ?l" using assms(5) by (simp add: io_inv_def)
  then obtain s1 where "io_run (ops True) ?l = Some s1" "io_inv s1" using io_run_in_bounds assms(4) by blast
  moreover have "\<exists>s2. io_run (ops False) s = Some s2 \<and> io_inv s2" if "stream = Some s" for s
    using io_run_in_bounds [of s "ops False"] assms(4,6) that by auto
  ultimately show ?thesis
    using calls_ok [OF assms(1-3), of stream] by (auto simp: dump_to_def ioStreamRewind_def split: option.split)
qed

section \<open>The contract of a conference\<close>

datatype conf_op = Join nat | Leave nat

fun op_node :: "conf_op \<Rightarrow> nat" where
  "op_node (Join n) = n"
| "op_node (Leave n) = n"

type_synonym 'st member_op = "nat \<Rightarrow> 'st \<Rightarrow> nodes \<Rightarrow> (int \<times> 'st \<times> nodes) outcome"

fun conf_run :: "'st member_op \<Rightarrow> 'st member_op \<Rightarrow> conf_op list \<Rightarrow> 'st \<Rightarrow> nodes \<Rightarrow> (int list \<times> 'st \<times> nodes) outcome" where
  \<comment> \<open>a sequence of calls, with their results\<close>
  "conf_run ins rm [] st w = Ret ([], st, w)"
| "conf_run ins rm (Join n # xs) st w =
     obind (ins n st w) (\<lambda>(err, st1, w1). obind (conf_run ins rm xs st1 w1) (\<lambda>(errs, st2, w2). Ret (err # errs, st2, w2)))"
| "conf_run ins rm (Leave n # xs) st w =
     obind (rm n st w) (\<lambda>(err, st1, w1). obind (conf_run ins rm xs st1 w1) (\<lambda>(errs, st2, w2). Ret (err # errs, st2, w2)))"

text \<open>
  A caller joins a node that is alive and lets a node leave of which it has a strong reference of its
  own.  Either operation then returns, keeps the invariant, and changes the counts of the nodes by
  exactly the change of the members.
\<close>

locale conf_mixer =
  fixes ins rm :: "'st member_op" and members :: "'st \<Rightarrow> nat multiset" and inv :: "'st \<Rightarrow> bool"
  assumes insert_law: "inv st \<Longrightarrow> node_counted w (with_members c (members st)) \<Longrightarrow> has_room 1 (with_members c (members st)) \<Longrightarrow>
      n \<noteq> 0 \<Longrightarrow> rc_alive (c n) \<Longrightarrow>
      \<exists>err st' w'. ins n st w = Ret (err, st', w') \<and> inv st' \<and> node_counted w' (with_members c (members st')) \<and>
        (members st' = members st \<or> members st' = add_mset n (members st))"
    and remove_law: "inv st \<Longrightarrow> node_counted w (with_members c (members st)) \<Longrightarrow> has_room 0 (with_members c (members st)) \<Longrightarrow>
      n \<noteq> 0 \<Longrightarrow> rc_strong (c n) > 0 \<Longrightarrow>
      \<exists>err st' w'. rm n st w = Ret (err, st', w') \<and> inv st' \<and> node_counted w' (with_members c (members st')) \<and>
        (members st' = members st \<or> members st' = members st - {#n#})"
    and no_null: "inv st \<Longrightarrow> 0 \<notin># members st"
begin

lemma run_keeps_references:
  assumes "inv st" "node_counted w (with_members c (members st))" "has_room (size (members st) + length xs) c"
    "\<forall>x \<in> set xs. op_node x \<noteq> 0 \<and> rc_strong (c (op_node x)) > 0"
  shows "\<exists>errs st' w'. conf_run ins rm xs st w = Ret (errs, st', w') \<and> length errs = length xs \<and> inv st' \<and>
    node_counted w' (with_members c (members st'))"
  using assms
proof (induction xs arbitrary: st w)
  case (Cons x xs)
  let ?n = "op_node x"
  have n: "?n \<noteq> 0" "rc_strong (c ?n) > 0" "rc_alive (c ?n)" using Cons.prems(4) rc_strong_alive by auto
  have r: "has_room 1 (with_members c (members st))" "has_room 0 (with_members c (members st))"
    using Cons.prems(3) by (auto intro: has_room_members)
  let ?f = "case x of Join n \<Rightarrow> ins n | Leave n \<Rightarrow> rm n"
  obtain err st1 w1 where 1: "?f st w = Ret (err, st1, w1)" "inv st1" "node_counted w1 (with_members c (members st1))"
      "members st1 = members st \<or> members st1 = add_mset ?n (members st) \<or> members st1 = members st - {#?n#}"
  proof (cases x)
    case (Join k)
    then show thesis using that insert_law [OF Cons.prems(1,2) r(1) n(1,3)] by auto
  next
    case (Leave k)
    then show thesis using that remove_law [OF Cons.prems(1,2) r(2) n(1,2)] by auto
  qed
  have "size (members st1) \<le> Suc (size (members st))"
    using 1(4) size_Diff1_le [of "members st" ?n] by (elim disjE) simp_all
  then have "int (size (members st1) + length xs) \<le> int (size (members st) + length (x # xs))" by simp
  then have "has_room (size (members st1) + length xs) c"
    using Cons.prems(3) unfolding has_room_def by (meson add_left_mono order_le_less_trans)
  then obtain errs st' w' where "conf_run ins rm xs st1 w1 = Ret (errs, st', w')" "length errs = length xs" "inv st'"
      "node_counted w' (with_members c (members st'))"
    using Cons.IH [OF 1(2,3)] Cons.prems(4) by auto
  then show ?case using 1(1) by (cases x) auto
qed simp

lemma run_members_alive:
  assumes "inv st" "node_counted w (with_members c (members st))" "has_room (size (members st) + length xs) c"
    "\<forall>x \<in> set xs. op_node x \<noteq> 0 \<and> rc_strong (c (op_node x)) > 0" "conf_run ins rm xs st w = Ret (errs, st', w')" "n \<in># members st'"
  shows "n \<noteq> 0 \<and> obj (w' n)"
proof -
  have "inv st'" "node_counted w' (with_members c (members st'))" using run_keeps_references [OF assms(1-4)] assms(5) by auto
  then show ?thesis using members_alive no_null assms(6) by metis
qed

end

end
