(* ===== verification/Audio_Conf.thy ===== *)
theory Audio_Conf
  imports Conf_Nodes Meta_Buffer Mix_Func
begin

text \<open>
  \<open>libconf/AudioConfMix.cpp\<close>: the audio conference.  Its nodes are kept in the order of their types; every
  turn of its thread pulls a block of samples from each node, mixes, and pushes to each node what the
  others said.  The mixing itself is \<open>Mix_Func\<close>, the references to the nodes are in \<open>Conf_Nodes\<close>.

  A channel of the mixer is a \<open>mix_meta\<close>: two arrays of \<open>EVENT_SAMPLES\<close> samples with a meta buffer around
  each.  The memory \<open>mMem\<close> of a buffer is its array, as bytes in little-endian order: what a node stores
  in a buffer the mixer reads as samples, and the other way round.  \<open>EVENT_SAMPLES\<close> is defined in
  \<open>defines.h\<close>, which is not in the repository, and is a parameter, as are the functions \<open>pullMedia\<close> and
  \<open>pushMedia\<close> of the nodes: a status and the buffer after the call.  They take the reference to the
  buffer, not a copy; a node that stores another buffer in it is outside of the model.
\<close>

section \<open>Model\<close>

subsection \<open>Samples in memory\<close>

fun pcm_samples :: "u8 list \<Rightarrow> int list" where
  "pcm_samples (a # b # bs) = c_short (uint a + 256 * uint b) # pcm_samples bs"
| "pcm_samples _ = []"

fun pcm_bytes :: "int list \<Rightarrow> u8 list" where
  "pcm_bytes [] = []"
| "pcm_bytes (x # xs) = word_of_int x # word_of_int (x div 256) # pcm_bytes xs"

subsection \<open>State\<close>

record mix_meta =
  txBuffer :: "nat meta_buffer"
  rxBuffer :: "nat meta_buffer"

record audio_conf =
  mNodeList :: "nat list"
  mMetas :: "mix_meta list"
  mixBuffer :: "int list option" \<comment> \<open>the member \<open>buffer\<close>\<close>
  mMixNum :: int
  mClientNum :: int
  mstate :: bool

record audio_env = media_if +
  EVENT_SAMPLES :: nat
  pullMedia :: "nat \<Rightarrow> nat meta_buffer \<Rightarrow> int \<times> nat meta_buffer"
  pushMedia :: "nat \<Rightarrow> nat meta_buffer \<Rightarrow> int \<times> nat meta_buffer"

definition MAX_VOIP_OBJECT :: int where "MAX_VOIP_OBJECT = 6"
definition MAX_MIX_OBJECT :: nat where "MAX_MIX_OBJECT = 8"

subsection \<open>Construction and control\<close>

fun new_metas :: "nat \<Rightarrow> nat \<Rightarrow> nat mb_item list \<Rightarrow> token_pool \<Rightarrow> (mix_meta list \<times> token_pool) outcome" where
  \<comment> \<open>the loop of the constructor; \<open>junk\<close> are the uninitialised items of a new buffer\<close>
  "new_metas 0 S junk tp = Ret ([], tp)"
| "new_metas (Suc n) S junk tp =
     (let data = replicate (2 * S) 0
      in obind (access (MetaBuffer_create (\<lambda>_. None) junk (2 * S) (Some data) None)) (\<lambda>tx.
         obind (access (MetaBuffer_create (\<lambda>_. None) junk (2 * S) (Some data) None)) (\<lambda>rx.
         obind (access (mb_setInt32 atomize tp tx ''samples'' (c_int (int S)))) (\<lambda>(tp1, tx1).
         obind (new_metas n S junk tp1) (\<lambda>(ms, tp2). Ret (\<lparr>txBuffer = tx1, rxBuffer = rx\<rparr> # ms, tp2))))))"

definition audio_initMixer :: "int list option \<Rightarrow> audio_conf \<Rightarrow> int \<times> audio_conf" where
  \<comment> \<open>\<open>mem\<close> is what \<open>new int[mSampleLen]\<close> returns\<close>
  "audio_initMixer mem st = (if mem \<noteq> None then NO_ERROR else NO_MEMORY, st\<lparr>mixBuffer := mem\<rparr>)"

definition audio_create ::
  "nat \<Rightarrow> nat mb_item list \<Rightarrow> int list option \<Rightarrow> token_pool \<Rightarrow> (audio_conf option \<times> token_pool) outcome" where
  "audio_create S junk mem tp =
     obind (new_metas MAX_MIX_OBJECT S junk tp) (\<lambda>(ms, tp1).
     let (err, st) = audio_initMixer mem
           \<lparr>mNodeList = [], mMetas = ms, mixBuffer = None, mMixNum = 0, mClientNum = 0, mstate = False\<rparr>
     in Ret (if err \<noteq> NO_ERROR then None else Some st, tp1))"

definition audio_destroy :: "audio_conf \<Rightarrow> nodes \<Rightarrow> nodes outcome" where
  "audio_destroy st w = release_nodes (mNodeList st) w"

definition audio_start :: "int \<Rightarrow> audio_conf \<Rightarrow> int \<times> bool" where
  \<comment> \<open>the status, and whether the thread is started; \<open>res\<close> is the result of \<open>run()\<close>\<close>
  "audio_start res st = (if \<not> mstate st then (res, True) else (NO_ERROR, False))"

definition audio_reset :: "int \<times> bool" where
  \<comment> \<open>the status, and that the thread is asked to end\<close>
  "audio_reset = (NO_ERROR, True)"

definition audio_setParameters :: int where
  "audio_setParameters = INVALID_OPERATION"

subsection \<open>Members\<close>

fun place_node :: "('a media_if_scheme) \<Rightarrow> nodes \<Rightarrow> nat \<Rightarrow> nat list \<Rightarrow> nat list outcome" where
  \<comment> \<open>the loop that inserts before the first node of a greater type, or at the end\<close>
  "place_node e w node [] = Ret [node]"
| "place_node e w node (n # ns) =
     obind (call_node node w (nodeType e node)) (\<lambda>t.
     obind (call_node n w (nodeType e n)) (\<lambda>u.
     if t < u then Ret (node # n # ns) else obind (place_node e w node ns) (\<lambda>ms. Ret (n # ms))))"

definition audio_insertNode :: "('a media_if_scheme) \<Rightarrow> audio_conf member_op" where
  \<comment> \<open>\<open>doInsertNode\<close>\<close>
  "audio_insertNode e node st w =
     (if length (mNodeList st) \<ge> MAX_MIX_OBJECT then Ret (UNKNOWN_ERROR, st, w)
      else
        obind (if mNodeList st = [] then
                 obind (node_do incStrong node w) (\<lambda>w1. Ret (mNodeList st @ [node], w1))
               else
                 obind (place_node e w node (mNodeList st)) (\<lambda>ns.
                 obind (node_do incStrong node w) (\<lambda>w1. Ret (ns, w1)))) (\<lambda>(ns, w1).
        let st1 = st\<lparr>mNodeList := ns\<rparr> in
        obind (call_node node w1 (nodeType e node)) (\<lambda>t.
        if t = NODE_A_IP_CODEC e \<and> mClientNum st1 \<ge> MAX_VOIP_OBJECT then Ret (UNKNOWN_ERROR, st1, w1)
        else
          let st2 = (if t = NODE_A_IP_CODEC e then st1\<lparr>mClientNum := c_int (mClientNum st1 + 1)\<rparr> else st1)
          in Ret (NO_ERROR, st2\<lparr>mMixNum := c_int (mMixNum st2 + 1)\<rparr>, w1))))"

definition audio_removeNode :: "('a media_if_scheme) \<Rightarrow> audio_conf member_op" where
  \<comment> \<open>\<open>doRemoveNode\<close>; the node's type is asked for after its reference is dropped\<close>
  "audio_removeNode e node st w =
     (if node \<in> set (mNodeList st) then
        obind (node_do decStrong node w) (\<lambda>w1.
        let st1 = st\<lparr>mNodeList := remove1 node (mNodeList st)\<rparr> in
        obind (call_node node w1 (nodeType e node)) (\<lambda>t.
        let st2 = (if t = NODE_A_IP_CODEC e then st1\<lparr>mClientNum := c_int (mClientNum st1 - 1)\<rparr> else st1)
        in Ret (NO_ERROR, st2\<lparr>mMixNum := c_int (mMixNum st2 - 1)\<rparr>, w1)))
      else Ret (NO_ERROR, st, w))"

subsection \<open>A turn of the thread\<close>

record audio_turn =
  t_metas :: "mix_meta list"
  t_in :: "fastmix_vol_t list" \<comment> \<open>\<open>AudioIn[i].amp\<close>\<close>
  t_out :: "fastmix_vol_t list"
  t_ret :: int

fun pull_members :: "audio_env \<Rightarrow> nodes \<Rightarrow> nat \<Rightarrow> nat list \<Rightarrow> audio_turn \<Rightarrow> audio_turn outcome" where
  \<comment> \<open>the first \<open>for\<close> loop, from index \<open>i\<close> on\<close>
  "pull_members e w i [] t = Ret t"
| "pull_members e w i (n # ns) t =
     (if i \<ge> length (t_metas t) then Fault
      else obind (call_node n w (pullMedia e n (rxBuffer (t_metas t ! i)))) (\<lambda>(ret, mb).
        let t1 = t\<lparr>t_metas := (t_metas t)[i := (t_metas t ! i)\<lparr>rxBuffer := mb\<rparr>], t_ret := ret\<rparr>
        in if ret \<noteq> NO_ERROR then Ret t1
           else
             let vol = mQuickData mb
             in pull_members e w (Suc i) ns
                  (t1\<lparr>t_in := (t_in t1)[i := if i = 0 \<or> vol = 1 then MIX_KEEP_0dB else MIX_DISABLE],
                      t_out := (t_out t1)[i := MIX_KEEP_0dB]\<rparr>)))"

definition channels :: "(mix_meta \<Rightarrow> nat meta_buffer) \<Rightarrow> fastmix_vol_t list \<Rightarrow> mix_meta list \<Rightarrow> fastmix_io_t list" where
  \<comment> \<open>\<open>AudioIn\<close> and \<open>AudioOut\<close>, which point to the arrays of the metas\<close>
  "channels side amps metas = map2 (\<lambda>a m. \<lparr>amp = a, pAudioData = pcm_samples (mMem (side m))\<rparr>) amps metas"

definition store_channels :: "fastmix_io_t list \<Rightarrow> fastmix_io_t list \<Rightarrow> mix_meta list \<Rightarrow> mix_meta list" where
  \<comment> \<open>the arrays after the mixing\<close>
  "store_channels ins outs metas =
     map2 (\<lambda>(i, out) m. m\<lparr>rxBuffer := (rxBuffer m)\<lparr>mMem := pcm_bytes (pAudioData i)\<rparr>,
                           txBuffer := (txBuffer m)\<lparr>mMem := pcm_bytes (pAudioData out)\<rparr>\<rparr>)
       (zip ins outs) metas"

definition mix_turn :: "audio_env \<Rightarrow> audio_turn \<Rightarrow> audio_conf \<Rightarrow> audio_conf outcome" where
  \<comment> \<open>\<open>mix(AudioIn, NULL, AudioOut)\<close>\<close>
  "mix_turn e t st =
     obind (access (mix (int MAX_MIX_OBJECT) (int (EVENT_SAMPLES e))
              \<lparr>mixIn = Some (channels rxBuffer (t_in t) (t_metas t)), mixFull = None,
               mixInter = Some (channels txBuffer (t_out t) (t_metas t)), mixAcc = mixBuffer st\<rparr>)) (\<lambda>(_, m).
     Ret (case (mixIn m, mixInter m) of
            (Some ins, Some outs) \<Rightarrow> st\<lparr>mMetas := store_channels ins outs (t_metas t), mixBuffer := mixAcc m\<rparr>
          | _ \<Rightarrow> st))"

fun push_members ::
  "audio_env \<Rightarrow> nodes \<Rightarrow> nat \<Rightarrow> int \<Rightarrow> nat \<Rightarrow> nat list \<Rightarrow> mix_meta list \<Rightarrow> token_pool \<Rightarrow>
     ((nat \<times> nat meta_buffer) list \<times> mix_meta list \<times> token_pool) outcome" where
  \<comment> \<open>the second \<open>for\<close> loop: what each node was given, and the metas\<close>
  "push_members e w len ts i [] ms tp = Ret ([], ms, tp)"
| "push_members e w len ts i (n # ns) ms tp =
     (if i \<ge> length ms then Fault
      else obind (access (mb_setInt64 atomize tp (mb_setRange 0 len (txBuffer (ms ! i))) ''ntp-time'' ts)) (\<lambda>(tp1, mb).
        obind (call_node n w (pushMedia e n mb)) (\<lambda>(_, mb').
        obind (push_members e w len ts (Suc i) ns (ms[i := (ms ! i)\<lparr>txBuffer := mb'\<rparr>]) tp1) (\<lambda>(ps, ms', tp2).
        Ret ((n, mb) # ps, ms', tp2)))))"

definition exchange :: "audio_env \<Rightarrow> nodes \<Rightarrow> audio_conf \<Rightarrow> (audio_conf \<times> (nat \<times> nat meta_buffer) list) outcome" where
  \<comment> \<open>the branch without clients: the first two nodes get what the other has\<close>
  "exchange e w st =
     (case mNodeList st of
        a # b # ns \<Rightarrow>
          (case mMetas st of
             m0 # m1 # ms \<Rightarrow>
               obind (call_node a w (pullMedia e a (rxBuffer m0))) (\<lambda>(_, r0).
               obind (call_node b w (pullMedia e b (rxBuffer m1))) (\<lambda>(_, r1).
               obind (call_node a w (pushMedia e a r1)) (\<lambda>(_, r1').
               obind (call_node b w (pushMedia e b r0)) (\<lambda>(_, r0').
               Ret (st\<lparr>mMetas := m0\<lparr>rxBuffer := r0'\<rparr> # m1\<lparr>rxBuffer := r1'\<rparr> # ms\<rparr>, [(a, r1), (b, r0)])))))
           | _ \<Rightarrow> Fault)
      | _ \<Rightarrow> Fault)"

definition mix_round ::
  "audio_env \<Rightarrow> int \<Rightarrow> int \<Rightarrow> nodes \<Rightarrow> token_pool \<Rightarrow> audio_conf \<Rightarrow> (audio_conf \<times> token_pool \<times> (nat \<times> nat meta_buffer) list) outcome" where
  \<comment> \<open>the branch with clients; \<open>ret0\<close> and \<open>ts0\<close> are the uninitialised \<open>ret\<close> and \<open>_ts\<close>\<close>
  "mix_round e ret0 ts0 w tp st =
     (let off = replicate MAX_MIX_OBJECT MIX_DISABLE in
      obind (pull_members e w 0 (mNodeList st) \<lparr>t_metas = mMetas st, t_in = off, t_out = off, t_ret = ret0\<rparr>) (\<lambda>t.
      let st1 = st\<lparr>mMetas := t_metas t\<rparr> in
      if t_ret t \<noteq> NO_ERROR then Ret (st1, tp, [])
      else
        (case t_metas t of
           [] \<Rightarrow> Fault
         | m0 # _ \<Rightarrow>
             obind (access (mb_findInt64 atomize tp (rxBuffer m0) ''ntp-time'')) (\<lambda>(found, tp1).
             let len = mRangeLength (rxBuffer m0); ts = (case found of None \<Rightarrow> ts0 | Some v \<Rightarrow> v) in
             obind (mix_turn e t st1) (\<lambda>st2.
             obind (push_members e w len ts 0 (mNodeList st2) (mMetas st2) tp1) (\<lambda>(ps, ms, tp2).
             Ret (st2\<lparr>mMetas := ms\<rparr>, tp2, ps)))))))"

definition audio_threadLoop ::
  "audio_env \<Rightarrow> int \<Rightarrow> int \<Rightarrow> nodes \<Rightarrow> token_pool \<Rightarrow> audio_conf \<Rightarrow> (audio_conf \<times> token_pool \<times> (nat \<times> nat meta_buffer) list) outcome" where
  \<comment> \<open>one turn after the wait, with the lock held and no exit pending\<close>
  "audio_threadLoop e ret0 ts0 w tp st =
     (if mClientNum st \<noteq> 0 then mix_round e ret0 ts0 w tp st
      else obind (exchange e w st) (\<lambda>(st', ps). Ret (st', tp, ps)))"

record turn_input = \<comment> \<open>what the outside contributes to a turn\<close>
  exit_pending :: bool
  t_env :: audio_env
  t_ret0 :: int
  t_ts0 :: int

fun audio_turns ::
  "turn_input list \<Rightarrow> nodes \<Rightarrow> token_pool \<Rightarrow> audio_conf \<Rightarrow> (audio_conf \<times> token_pool \<times> (nat \<times> nat meta_buffer) list) outcome" where
  \<comment> \<open>the \<open>while\<close> loop along its inputs\<close>
  "audio_turns [] w tp st = Ret (st, tp, [])"
| "audio_turns (x # xs) w tp st =
     (if exit_pending x then Ret (st, tp, [])
      else obind (audio_threadLoop (t_env x) (t_ret0 x) (t_ts0 x) w tp st) (\<lambda>(st1, tp1, ps).
           obind (audio_turns xs w tp1 st1) (\<lambda>(st2, tp2, qs). Ret (st2, tp2, ps @ qs))))"

definition audio_thread ::
  "turn_input list \<Rightarrow> nodes \<Rightarrow> token_pool \<Rightarrow> audio_conf \<Rightarrow> (audio_conf \<times> token_pool \<times> (nat \<times> nat meta_buffer) list) outcome" where
  "audio_thread xs w tp st =
     obind (audio_turns xs w tp (st\<lparr>mstate := True\<rparr>)) (\<lambda>(st1, tp1, ps). Ret (st1\<lparr>mstate := False\<rparr>, tp1, ps))"

subsection \<open>Printing\<close>

definition audio_dumpInfo :: "(int \<Rightarrow> u8 list option) \<Rightarrow> (nat \<Rightarrow> u8 list option) \<Rightarrow> u8 list \<Rightarrow> nodes \<Rightarrow> audio_conf \<Rightarrow> ioStream option \<Rightarrow> ioStream outcome" where
  \<comment> \<open>\<open>fmt1\<close> and \<open>fmt2\<close> are the formatted texts of the head and of a node\<close>
  "audio_dumpInfo fmt1 fmt2 junk w st stream =
     dump_to junk (mNodeList st) w
       (\<lambda>local. [Print (fmt1 (mClientNum st))] @
          (if mNodeList st \<noteq> [] then dump_nodes fmt2 (mNodeList st) @ [Seek (- 3) SEEK_CUR] else []) @
          [Putc (if local then 0 else 10)]) stream"

section \<open>Members\<close>

definition is_codec :: "('a media_if_scheme) \<Rightarrow> nat \<Rightarrow> bool" where
  "is_codec e n \<longleftrightarrow> nodeType e n = NODE_A_IP_CODEC e"

definition audio_inv :: "('a media_if_scheme) \<Rightarrow> audio_conf \<Rightarrow> bool" where
  "audio_inv e st \<longleftrightarrow> sorted (map (nodeType e) (mNodeList st)) \<and> length (mNodeList st) \<le> MAX_MIX_OBJECT \<and> 0 \<notin> set (mNodeList st)"

definition audio_books :: "('a media_if_scheme) \<Rightarrow> audio_conf \<Rightarrow> bool" where
  \<comment> \<open>the two counters say what is in the list\<close>
  "audio_books e st \<longleftrightarrow> length (mNodeList st) \<le> MAX_MIX_OBJECT \<and> mMixNum st = int (length (mNodeList st)) \<and>
     mClientNum st = int (length (filter (is_codec e) (mNodeList st)))"

lemma audio_inv_counters [simp]:
  "audio_inv e (st\<lparr>mClientNum := x\<rparr>) = audio_inv e st" "audio_inv e (st\<lparr>mMixNum := y\<rparr>) = audio_inv e st"
  by (simp_all add: audio_inv_def)

lemma place_node_placed:
  assumes "n \<noteq> 0" "obj (w n)" "\<forall>m \<in> set ns. m \<noteq> 0 \<and> obj (w m)"
  shows "place_node e w n ns = Ret (placed e n ns)"
  using assms by (induction ns) (auto simp: call_node_def placed_def)

lemma audio_insertNode_ok:
  assumes "audio_inv e st" "node_counted w (with_members c (mset (mNodeList st)))" "has_room 1 (with_members c (mset (mNodeList st)))"
    "n \<noteq> 0" "rc_alive (c n)" "length (mNodeList st) < MAX_MIX_OBJECT"
  shows "\<exists>w'. node_counted w' (with_members c (add_mset n (mset (mNodeList st)))) \<and>
    audio_insertNode e n st w =
      (let st1 = st\<lparr>mNodeList := placed e n (mNodeList st)\<rparr>
       in if is_codec e n \<and> mClientNum st \<ge> MAX_VOIP_OBJECT then Ret (UNKNOWN_ERROR, st1, w')
          else Ret (NO_ERROR, st1\<lparr>mClientNum := if is_codec e n then c_int (mClientNum st + 1) else mClientNum st,
                                  mMixNum := c_int (mMixNum st + 1)\<rparr>, w'))"
proof -
  let ?M = "mset (mNodeList st)"
  have r: "has_room 0 (with_members c ?M)" using assms(3) by (rule has_room_less) simp
  obtain w' where w': "node_do incStrong n w = Ret w'" "node_counted w' (with_members c (add_mset n ?M))"
    using node_take [OF assms(2) r assms(5,4)] by blast
  have "m \<noteq> 0 \<and> obj (w m)" if "m \<in> set (mNodeList st)" for m
    using that assms(1) members_alive [OF assms(2), of m] by (metis audio_inv_def set_mset_mset)
  then have p: "place_node e w n (mNodeList st) = Ret (placed e n (mNodeList st))"
    using members_alive [OF assms(2), of n] assms(4,5) by (intro place_node_placed) simp_all
  have t: "call_node n w' t = Ret t" for t :: int using call_node_ok [OF w'(2), of n] assms(4) by simp
  have e: "placed e n [] = [n]" by (simp add: placed_def)
  show ?thesis
    using assms(6) w' p e by (intro exI [of _ w']) (simp add: audio_insertNode_def Let_def is_codec_def t)
qed

lemma audio_removeNode_ok:
  assumes "audio_inv e st" "node_counted w (with_members c (mset (mNodeList st)))" "has_room 0 (with_members c (mset (mNodeList st)))"
    "n \<noteq> 0" "rc_strong (c n) > 0" "n \<in> set (mNodeList st)"
  shows "\<exists>w'. node_counted w' (with_members c (mset (mNodeList st) - {#n#})) \<and>
    audio_removeNode e n st w =
      Ret (NO_ERROR, st\<lparr>mNodeList := remove1 n (mNodeList st), mClientNum := if is_codec e n then c_int (mClientNum st - 1) else mClientNum st,
             mMixNum := c_int (mMixNum st - 1)\<rparr>, w')"
proof -
  obtain w' where w': "node_do decStrong n w = Ret w'" "node_counted w' (with_members c (mset (mNodeList st) - {#n#}))"
    using node_drop [OF assms(2,3,5,4)] assms(6) by auto
  have t: "call_node n w' t = Ret t" for t :: int
    using call_node_ok [OF w'(2), of n] assms(4) rc_strong_alive [OF assms(5)] by simp
  show ?thesis using w' assms(6)
    by (intro exI [of _ w']) (simp add: audio_removeNode_def Let_def is_codec_def t)
qed

interpretation audio: conf_mixer "audio_insertNode e" "audio_removeNode e" "\<lambda>st. mset (mNodeList st)" "audio_inv e" for e
proof unfold_locales
  fix st w c n
  assume a: "audio_inv e st" "node_counted w (with_members c (mset (mNodeList st)))" "has_room 1 (with_members c (mset (mNodeList st)))"
    "n \<noteq> 0" "rc_alive (c n)"
  show "\<exists>err st' w'. audio_insertNode e n st w = Ret (err, st', w') \<and> audio_inv e st' \<and>
      node_counted w' (with_members c (mset (mNodeList st'))) \<and>
      (mset (mNodeList st') = mset (mNodeList st) \<or> mset (mNodeList st') = add_mset n (mset (mNodeList st)))"
  proof (cases "length (mNodeList st) < MAX_MIX_OBJECT")
    case True
    then have "audio_inv e (st\<lparr>mNodeList := placed e n (mNodeList st)\<rparr>)" using a(1,4) sorted_placed by (auto simp: audio_inv_def)
    then show ?thesis using audio_insertNode_ok [OF a True] by (auto simp: Let_def split: if_splits)
  next
    case False
    then show ?thesis using a(1,2) by (simp add: audio_insertNode_def)
  qed
next
  fix st w c n
  assume a: "audio_inv e st" "node_counted w (with_members c (mset (mNodeList st)))" "has_room 0 (with_members c (mset (mNodeList st)))"
    "n \<noteq> 0" "0 < rc_strong (c n)"
  show "\<exists>err st' w'. audio_removeNode e n st w = Ret (err, st', w') \<and> audio_inv e st' \<and>
      node_counted w' (with_members c (mset (mNodeList st'))) \<and>
      (mset (mNodeList st') = mset (mNodeList st) \<or> mset (mNodeList st') = mset (mNodeList st) - {#n#})"
  proof (cases "n \<in> set (mNodeList st)")
    case True
    have "length (remove1 n (mNodeList st)) \<le> MAX_MIX_OBJECT" using a(1) by (auto simp: audio_inv_def length_remove1)
    then have "audio_inv e (st\<lparr>mNodeList := remove1 n (mNodeList st)\<rparr>)"
      using a(1) sorted_map_remove1_gen by (auto simp: audio_inv_def dest: notin_set_remove1)
    then show ?thesis using audio_removeNode_ok [OF a True] by auto
  next
    case False
    then show ?thesis using a(1,2) by (simp add: audio_removeNode_def)
  qed
qed (simp add: audio_inv_def)

lemma place_node_mset: "place_node e w n ns = Ret ms \<Longrightarrow> mset ms = add_mset n (mset ns)"
  by (induction ns arbitrary: ms) (auto simp: obind_eq_Ret split: if_splits)

lemma codecs_mset: "length (filter (is_codec e) ns) = size (filter_mset (is_codec e) (mset ns))"
  by (metis mset_filter size_mset)

lemma audio_insertNode_books:
  assumes "audio_books e st" "audio_insertNode e n st w = Ret (NO_ERROR, st', w')"
  shows "audio_books e st'"
proof -
  have len: "length (mNodeList st) < MAX_MIX_OBJECT"
    using assms(2) by (auto simp: audio_insertNode_def status_defs split: if_splits)
  then obtain ns where ns: "mset ns = add_mset n (mset (mNodeList st))" and
    st': "st' = st\<lparr>mNodeList := ns, mClientNum := if is_codec e n then c_int (mClientNum st + 1) else mClientNum st,
      mMixNum := c_int (mMixNum st + 1)\<rparr>"
    using assms(2) by (auto simp: audio_insertNode_def obind_eq_Ret Let_def call_node_def is_codec_def status_defs
        dest: place_node_mset split: if_splits)
  have "length ns = Suc (length (mNodeList st))" by (metis ns size_mset size_add_mset)
  moreover have "length (filter (is_codec e) ns) = length (filter (is_codec e) (mNodeList st)) + (if is_codec e n then 1 else 0)"
    unfolding codecs_mset ns by simp
  moreover have "length (filter (is_codec e) (mNodeList st)) < 8"
    using le_less_trans [OF length_filter_le len] by (simp add: MAX_MIX_OBJECT_def)
  ultimately show ?thesis
    using assms(1) len by (auto simp: st' audio_books_def MAX_MIX_OBJECT_def c_int_id)
qed

lemma audio_removeNode_books:
  assumes "audio_books e st" "audio_removeNode e n st w = Ret (NO_ERROR, st', w')"
  shows "audio_books e st'"
proof (cases "n \<in> set (mNodeList st)")
  case True
  then have st': "st' = st\<lparr>mNodeList := remove1 n (mNodeList st), mClientNum := if is_codec e n then c_int (mClientNum st - 1) else mClientNum st,
      mMixNum := c_int (mMixNum st - 1)\<rparr>"
    using assms(2) by (auto simp: audio_removeNode_def obind_eq_Ret Let_def call_node_def is_codec_def split: if_splits)
  have "length (filter (is_codec e) (mNodeList st)) =
      length (filter (is_codec e) (remove1 n (mNodeList st))) + (if is_codec e n then 1 else 0)"
    using True by (rule length_filter_remove1)
  moreover have "length (mNodeList st) = Suc (length (remove1 n (mNodeList st)))" using length_pos_if_in_set [OF True] True by (simp add: length_remove1)
  moreover have "length (filter (is_codec e) (mNodeList st)) \<le> 8"
    using assms(1) order_trans [OF length_filter_le] by (auto simp: audio_books_def MAX_MIX_OBJECT_def)
  ultimately show ?thesis
    using assms(1) by (auto simp: st' audio_books_def MAX_MIX_OBJECT_def c_int_id)
next
  case False
  then show ?thesis using assms by (simp add: audio_removeNode_def)
qed

lemma audio_books_run:
  assumes "audio_books e st" "conf_run (audio_insertNode e) (audio_removeNode e) xs st w = Ret (errs, st', w')" "set errs \<subseteq> {NO_ERROR}"
  shows "audio_books e st'"
  using assms
proof (induction xs arbitrary: st w errs)
  case (Cons x xs)
  obtain err st1 w1 errs' where 1: "(case x of Join n \<Rightarrow> audio_insertNode e n | Leave n \<Rightarrow> audio_removeNode e n) st w = Ret (err, st1, w1)"
    "conf_run (audio_insertNode e) (audio_removeNode e) xs st1 w1 = Ret (errs', st', w')" "errs = err # errs'"
    using Cons.prems(2) by (cases x) (auto simp: obind_eq_Ret)
  then have "audio_books e st1" using audio_insertNode_books [OF Cons.prems(1)] audio_removeNode_books [OF Cons.prems(1)] Cons.prems(3) by (cases x) auto
  then show ?case using Cons.IH [OF _ 1(2)] 1(3) Cons.prems(3) by simp
qed simp

text \<open>
  C7. The members of an audio conference.  A caller that has a strong reference of its own to every node
  it names may join and remove nodes in any order.  Every call returns; the nodes stay in the order of
  their types and are never more than eight, the length of the mixer's arrays; the conference has exactly
  one strong reference for each place in its list, so all its members are alive.  When no call failed,
  \<open>mMixNum\<close> is the number of members and \<open>mClientNum\<close> the number of codecs among them.
\<close>

theorem audio_membership:
  assumes "audio_inv e st" "audio_books e st" "node_counted w (with_members c (mset (mNodeList st)))"
    and "has_room (length (mNodeList st) + length xs) c" "\<forall>x \<in> set xs. op_node x \<noteq> 0 \<and> rc_strong (c (op_node x)) > 0"
  shows "\<exists>errs st' w'. conf_run (audio_insertNode e) (audio_removeNode e) xs st w = Ret (errs, st', w') \<and>
    sorted (map (nodeType e) (mNodeList st')) \<and> length (mNodeList st') \<le> 8 \<and>
    node_counted w' (with_members c (mset (mNodeList st'))) \<and> (\<forall>n \<in> set (mNodeList st'). obj (w' n)) \<and>
    (set errs \<subseteq> {NO_ERROR} \<longrightarrow> mMixNum st' = int (length (mNodeList st')) \<and>
       mClientNum st' = int (length (filter (is_codec e) (mNodeList st'))))"
proof -
  obtain errs st' w' where r: "conf_run (audio_insertNode e) (audio_removeNode e) xs st w = Ret (errs, st', w')"
    "audio_inv e st'" "node_counted w' (with_members c (mset (mNodeList st')))"
    using audio.run_keeps_references [OF assms(1,3) _ assms(5)] assms(4) by auto
  have "audio_books e st'" if "set errs \<subseteq> {NO_ERROR}" using audio_books_run [OF assms(2) r(1) that] .
  then show ?thesis using r members_alive [OF r(3)] by (auto simp: audio_inv_def audio_books_def MAX_MIX_OBJECT_def)
qed

definition demo_audio :: "nat \<Rightarrow> audio_env" where
  \<comment> \<open>node 1 is a sound card, the others are codecs; the arrays have \<open>S\<close> samples\<close>
  "demo_audio S = \<lparr>NODE_A_IP_CODEC = 2, NODE_A_DRIVER = 0, NODE_V_IP_RENDER = 17, NODE_V_CAMERA_SET = 16, NODE_V_ENCODER = 18,
     NODE_CLASS_MASK = 240, NODE_A_CLASS = 0, NODE_V_CLASS = 16, nodeType = (\<lambda>n. if n = 1 then 0 else 2), EVENT_SAMPLES = S,
     pullMedia = (\<lambda>n mb. (NO_ERROR, mb\<lparr>mMem := concat (replicate S [of_nat n, 0]), mQuickData := 1\<rparr>)), pushMedia = (\<lambda>n mb. (NO_ERROR, mb))\<rparr>"

definition demo_nodes :: nodes where
  "demo_nodes = (\<lambda>_. \<lparr>mStrong = 1, mWeak = 1, mFlags = 0, obj = True, impl = True, hooks = []\<rparr>)"

definition demo_conf :: audio_conf where
  "demo_conf = \<lparr>mNodeList = [], mMetas = [], mixBuffer = None, mMixNum = 0, mClientNum = 0, mstate = False\<rparr>"

lemma demo_nodes_counted: "node_counted demo_nodes (with_members (\<lambda>_. Shared 1 0) {#})"
  by (simp add: node_counted_def with_members_def demo_nodes_def)

theorem audio_membership_witness:
  "\<exists>errs st' w'. conf_run (audio_insertNode (demo_audio 1)) (audio_removeNode (demo_audio 1)) [Join 5, Join 1, Join 6, Leave 5] demo_conf demo_nodes
      = Ret (errs, st', w') \<and> length (mNodeList st') \<le> 8 \<and> (\<forall>n \<in> set (mNodeList st'). obj (w' n))"
proof -
  let ?e = "demo_audio 1" and ?xs = "[Join 5, Join 1, Join 6, Leave 5]"
  have "\<exists>errs st' w'. conf_run (audio_insertNode ?e) (audio_removeNode ?e) ?xs demo_conf demo_nodes = Ret (errs, st', w') \<and>
    sorted (map (nodeType ?e) (mNodeList st')) \<and> length (mNodeList st') \<le> 8 \<and>
    node_counted w' (with_members (\<lambda>_. Shared 1 0) (mset (mNodeList st'))) \<and> (\<forall>n \<in> set (mNodeList st'). obj (w' n)) \<and>
    (set errs \<subseteq> {NO_ERROR} \<longrightarrow> mMixNum st' = int (length (mNodeList st')) \<and>
       mClientNum st' = int (length (filter (is_codec ?e) (mNodeList st'))))"
    by (rule audio_membership) (use demo_nodes_counted in \<open>simp_all add: audio_inv_def audio_books_def demo_conf_def has_room_def
          INITIAL_STRONG_VALUE_def\<close>)
  then show ?thesis by blast
qed

lemma leaving_keeps_gap:
  assumes "conf_run ins (audio_removeNode e) (map Leave ns) st w = Ret (errs, st', w')" "length (mNodeList st) \<le> 8"
    "mClientNum st = int (length (filter (is_codec e) (mNodeList st))) - 1"
  shows "mClientNum st' = int (length (filter (is_codec e) (mNodeList st'))) - 1"
  using assms
proof (induction ns arbitrary: st w errs)
  case (Cons n ns)
  obtain err st1 w1 errs' where 1: "audio_removeNode e n st w = Ret (err, st1, w1)"
    "conf_run ins (audio_removeNode e) (map Leave ns) st1 w1 = Ret (errs', st', w')"
    using Cons.prems(1) by (auto simp: obind_eq_Ret)
  have k: "length (filter (is_codec e) (mNodeList st)) \<le> 8" using order_trans [OF length_filter_le] Cons.prems(2) .
  have "length (mNodeList st1) \<le> 8 \<and> mClientNum st1 = int (length (filter (is_codec e) (mNodeList st1))) - 1"
  proof (cases "n \<in> set (mNodeList st)")
    case True
    then have "st1 = st\<lparr>mNodeList := remove1 n (mNodeList st), mClientNum := if is_codec e n then c_int (mClientNum st - 1) else mClientNum st,
        mMixNum := c_int (mMixNum st - 1)\<rparr>"
      using 1(1) by (auto simp: audio_removeNode_def obind_eq_Ret Let_def call_node_def is_codec_def split: if_splits)
    then show ?thesis using length_filter_remove1 [OF True, of "is_codec e"] Cons.prems(2,3) k True
      by (auto simp: length_remove1 c_int_id)
  next
    case False
    then show ?thesis using 1(1) Cons.prems(2,3) by (simp add: audio_removeNode_def)
  qed
  then show ?case using Cons.IH [OF 1(2)] by blast
qed simp

text \<open>
  C40. A codec that is refused stays in the conference.  When six codecs are members and there is room in
  the list, joining a seventh is refused with \<open>UNKNOWN_ERROR\<close>, but the node is already in the list and has
  the conference's reference: it goes on to be mixed, \<open>mClientNum\<close> is one too low from then on, and when
  all codecs have left it is below zero.
\<close>

theorem refused_codec_stays:
  assumes "audio_inv e st" "audio_books e st" "node_counted w (with_members c (mset (mNodeList st)))"
    and "has_room 1 (with_members c (mset (mNodeList st)))" "n \<noteq> 0" "rc_alive (c n)" "is_codec e n" "mClientNum st = 6"
    and "length (mNodeList st) < 8"
  shows "\<exists>st' w'. audio_insertNode e n st w = Ret (UNKNOWN_ERROR, st', w') \<and> n \<in> set (mNodeList st') \<and>
    node_counted w' (with_members c (add_mset n (mset (mNodeList st)))) \<and> mMixNum st' = int (length (mNodeList st')) - 1 \<and>
    mClientNum st' = int (length (filter (is_codec e) (mNodeList st'))) - 1 \<and>
    (\<forall>ns errs st2 w2. conf_run (audio_insertNode e) (audio_removeNode e) (map Leave ns) st' w' = Ret (errs, st2, w2) \<and> mNodeList st2 = [] \<longrightarrow>
       mClientNum st2 = - 1)"
proof -
  let ?st = "st\<lparr>mNodeList := placed e n (mNodeList st)\<rparr>"
  obtain w' where w': "audio_insertNode e n st w = Ret (UNKNOWN_ERROR, ?st, w')"
    "node_counted w' (with_members c (add_mset n (mset (mNodeList st))))"
    using audio_insertNode_ok [OF assms(1,3-6)] assms(7-9) by (auto simp: MAX_MIX_OBJECT_def MAX_VOIP_OBJECT_def)
  have g: "length (mNodeList ?st) \<le> 8" "mMixNum ?st = int (length (mNodeList ?st)) - 1"
    "mClientNum ?st = int (length (filter (is_codec e) (mNodeList ?st))) - 1"
    using assms(2,7,9) by (auto simp: audio_books_def)
  show ?thesis using w' g leaving_keeps_gap [OF _ g(1,3)] by (intro exI [of _ ?st] exI [of _ w']) fastforce
qed

theorem refused_codec_stays_witness:
  "\<exists>st' w'. audio_insertNode (demo_audio 1) 8 (demo_conf\<lparr>mNodeList := [2, 3, 4, 5, 6, 7], mMixNum := 6, mClientNum := 6\<rparr>)
      (\<lambda>n. if n \<in> {2, 3, 4, 5, 6, 7} then (demo_nodes n)\<lparr>mStrong := 2, mWeak := 2\<rparr> else demo_nodes n) = Ret (UNKNOWN_ERROR, st', w') \<and>
     8 \<in> set (mNodeList st')"
proof -
  let ?st = "demo_conf\<lparr>mNodeList := [2, 3, 4, 5, 6, 7], mMixNum := 6, mClientNum := 6\<rparr>"
  let ?w = "\<lambda>n. if n \<in> {2, 3, 4, 5, 6, 7} then (demo_nodes n)\<lparr>mStrong := 2, mWeak := 2\<rparr> else demo_nodes n"
  have "node_counted ?w (with_members (\<lambda>_. Shared 1 0) (mset (mNodeList ?st)))"
    by (simp add: node_counted_def with_members_def demo_nodes_def)
  moreover have "has_room 1 (with_members (\<lambda>_. Shared 1 0) (mset (mNodeList ?st)))"
    by (simp add: has_room_def with_members_def INITIAL_STRONG_VALUE_def)
  ultimately have "\<exists>st' w'. audio_insertNode (demo_audio 1) 8 ?st ?w = Ret (UNKNOWN_ERROR, st', w') \<and> 8 \<in> set (mNodeList st') \<and>
    node_counted w' (with_members (\<lambda>_. Shared 1 0) (add_mset 8 (mset (mNodeList ?st)))) \<and> mMixNum st' = int (length (mNodeList st')) - 1 \<and>
    mClientNum st' = int (length (filter (is_codec (demo_audio 1)) (mNodeList st'))) - 1 \<and>
    (\<forall>ns errs st2 w2. conf_run (audio_insertNode (demo_audio 1)) (audio_removeNode (demo_audio 1)) (map Leave ns) st' w' = Ret (errs, st2, w2) \<and>
       mNodeList st2 = [] \<longrightarrow> mClientNum st2 = - 1)"
    by (intro refused_codec_stays)
      (simp_all add: audio_inv_def audio_books_def demo_conf_def demo_audio_def is_codec_def MAX_MIX_OBJECT_def)
  then show ?thesis by blast
qed

section \<open>A turn of the mixer\<close>

lemma length_pcm_samples: "length (pcm_samples bs) = length bs div 2"
  by (induction bs rule: pcm_samples.induct) auto

lemma length_pcm_bytes: "length (pcm_bytes xs) = 2 * length xs"
  by (induction xs) auto

lemma pcm_samples_short: "x \<in> set (pcm_samples bs) \<Longrightarrow> is_short x"
  by (induction bs rule: pcm_samples.induct) auto

lemma c_short_mod: "c_short (x mod 65536) = c_short x"
proof -
  have "signed_take_bit 15 (take_bit 16 x) = signed_take_bit 15 x" by (simp add: signed_take_bit_take_bit)
  then show ?thesis by (simp add: c_short_def take_bit_eq_mod)
qed

lemma pcm_round_trip: "\<forall>x \<in> set xs. is_short x \<Longrightarrow> pcm_samples (pcm_bytes xs) = xs"
proof (induction xs)
  case (Cons x xs)
  have "x mod 65536 = x mod 256 + 256 * (x div 256 mod 256)"
    using mod_mult2_eq' [of x 256 256] by simp
  then have "c_short (uint (word_of_int x :: u8) + 256 * uint (word_of_int (x div 256) :: u8)) = c_short x"
    using c_short_mod [of x] by (simp add: uint_word_of_int)
  then show ?case using Cons by (simp add: c_short_id)
qed simp

definition heard :: "(nat \<Rightarrow> nat meta_buffer) \<Rightarrow> nat \<Rightarrow> bool" where
  \<comment> \<open>the first node always is, another one when its buffer says so\<close>
  "heard got j \<longleftrightarrow> j = 0 \<or> mQuickData (got j) = 1"

lemma pull_members_ok:
  assumes "i + length ns \<le> length (t_metas t)" "length (t_in t) = length (t_metas t)" "length (t_out t) = length (t_metas t)"
    "\<forall>n \<in> set ns. n \<noteq> 0 \<and> obj (w n)"
    "\<forall>k < length ns. pullMedia e (ns ! k) (rxBuffer (t_metas t ! (i + k))) = (NO_ERROR, got (i + k))"
  shows "\<exists>t'. pull_members e w i ns t = Ret t' \<and> length (t_metas t') = length (t_metas t) \<and>
    length (t_in t') = length (t_metas t) \<and> length (t_out t') = length (t_metas t) \<and> (ns \<noteq> [] \<longrightarrow> t_ret t' = NO_ERROR) \<and> (ns = [] \<longrightarrow> t' = t) \<and>
    (\<forall>j < length (t_metas t).
       if i \<le> j \<and> j < i + length ns
       then t_metas t' ! j = (t_metas t ! j)\<lparr>rxBuffer := got j\<rparr> \<and> t_in t' ! j = (if heard got j then MIX_KEEP_0dB else MIX_DISABLE) \<and>
         t_out t' ! j = MIX_KEEP_0dB
       else t_metas t' ! j = t_metas t ! j \<and> t_in t' ! j = t_in t ! j \<and> t_out t' ! j = t_out t ! j)"
  using assms
proof (induction ns arbitrary: i t)
  case (Cons n ns)
  let ?m = "(t_metas t ! i)\<lparr>rxBuffer := got i\<rparr>"
  let ?t = "t\<lparr>t_metas := (t_metas t)[i := ?m], t_ret := NO_ERROR,
    t_in := (t_in t)[i := if i = 0 \<or> mQuickData (got i) = 1 then MIX_KEEP_0dB else MIX_DISABLE], t_out := (t_out t)[i := MIX_KEEP_0dB]\<rparr>"
  have i: "i < length (t_metas t)" using Cons.prems(1) by simp
  have p: "pullMedia e n (rxBuffer (t_metas t ! i)) = (NO_ERROR, got i)" using Cons.prems(5) [rule_format, of 0] by simp
  then have s: "pull_members e w i (n # ns) t = pull_members e w (Suc i) ns ?t"
    using i Cons.prems(4) by (simp add: call_node_def Let_def)
  have q: "\<forall>k < length ns. pullMedia e (ns ! k) (rxBuffer (t_metas ?t ! (Suc i + k))) = (NO_ERROR, got (Suc i + k))"
    using Cons.prems(5) [rule_format, of "Suc k" for k] by simp
  obtain t' where t': "pull_members e w (Suc i) ns ?t = Ret t'" "length (t_metas t') = length (t_metas t)"
    "length (t_in t') = length (t_metas t)" "length (t_out t') = length (t_metas t)" "t_ret t' = NO_ERROR"
    "\<forall>j < length (t_metas t).
       if Suc i \<le> j \<and> j < Suc i + length ns
       then t_metas t' ! j = (t_metas ?t ! j)\<lparr>rxBuffer := got j\<rparr> \<and> t_in t' ! j = (if heard got j then MIX_KEEP_0dB else MIX_DISABLE) \<and>
         t_out t' ! j = MIX_KEEP_0dB
       else t_metas t' ! j = t_metas ?t ! j \<and> t_in t' ! j = t_in ?t ! j \<and> t_out t' ! j = t_out ?t ! j"
    using Cons.IH [of "Suc i" ?t] Cons.prems(1-4) q by (cases "ns = []") auto
  have "if i \<le> j \<and> j < i + length (n # ns)
       then t_metas t' ! j = (t_metas t ! j)\<lparr>rxBuffer := got j\<rparr> \<and> t_in t' ! j = (if heard got j then MIX_KEEP_0dB else MIX_DISABLE) \<and>
         t_out t' ! j = MIX_KEEP_0dB
       else t_metas t' ! j = t_metas t ! j \<and> t_in t' ! j = t_in t ! j \<and> t_out t' ! j = t_out t ! j" if "j < length (t_metas t)" for j
  proof (cases "j = i")
    case True
    then show ?thesis using t'(6) [rule_format, OF that] that Cons.prems(2,3) by (simp add: heard_def)
  next
    case False
    then have "Suc i \<le> j \<and> j < Suc i + length ns \<longleftrightarrow> i \<le> j \<and> j < i + length (n # ns)" by auto
    then show ?thesis using t'(6) [rule_format, OF that] False by simp
  qed
  then show ?case using s t'(1-5) by auto
qed auto

lemma channels_simps:
  assumes "length amps = length ms"
  shows "length (channels side amps ms) = length ms"
    "j < length ms \<Longrightarrow> channels side amps ms ! j = \<lparr>amp = amps ! j, pAudioData = pcm_samples (mMem (side (ms ! j)))\<rparr>"
  using assms by (simp_all add: channels_def)

lemma channels_ok:
  assumes "length amps = length ms" "\<forall>x \<in> set ms. length (mMem (side x)) = 2 * S"
  shows "\<forall>ch \<in> set (channels side amps ms). chan_ok S ch \<and> length (pAudioData ch) = S"
proof
  fix ch assume "ch \<in> set (channels side amps ms)"
  then obtain j where "j < length ms" "ch = channels side amps ms ! j" using channels_simps(1) [OF assms(1)] by (metis in_set_conv_nth)
  then show "chan_ok S ch \<and> length (pAudioData ch) = S"
    using channels_simps(2) [OF assms(1), of j] assms(2) pcm_samples_short by (auto simp: chan_ok_def length_pcm_samples)
qed

lemma mix_turn_ok:
  assumes "length (t_metas t) = 8" "length (t_in t) = 8" "length (t_out t) = 8" "mixBuffer st = Some acc" "S \<le> length acc" "S = EVENT_SAMPLES e"
    "\<forall>x \<in> set (t_metas t). length (mMem (rxBuffer x)) = 2 * S \<and> length (mMem (txBuffer x)) = 2 * S"
  shows "\<exists>ms acc'. mix_turn e t st = Ret (st\<lparr>mMetas := ms, mixBuffer := Some acc'\<rparr>) \<and> length acc' = length acc \<and> length ms = 8 \<and>
    (\<forall>j < 8. \<exists>rx tx. ms ! j = (t_metas t ! j)\<lparr>rxBuffer := (rxBuffer (t_metas t ! j))\<lparr>mMem := rx\<rparr>,
         txBuffer := (txBuffer (t_metas t ! j))\<lparr>mMem := pcm_bytes tx\<rparr>\<rparr> \<and> length rx = 2 * S \<and> length tx = S \<and>
       (\<forall>i < S. tx ! i = gain_out (t_out t ! j)
          (\<Sum>k\<in>{..<8} - {j}. gain_in (t_in t ! k) (pcm_samples (mMem (rxBuffer (t_metas t ! k))) ! i))))"
proof -
  let ?ins = "channels rxBuffer (t_in t) (t_metas t)" and ?outs = "channels txBuffer (t_out t) (t_metas t)"
  have l: "length (t_in t) = length (t_metas t)" "length (t_out t) = length (t_metas t)" using assms(1-3) by simp_all
  note in_ok = channels_ok [OF l(1), of rxBuffer S] and out_ok = channels_ok [OF l(2), of txBuffer S]
  note ci = channels_simps [OF l(1), where side = rxBuffer] and co = channels_simps [OF l(2), where side = txBuffer]
  obtain ins' outs' acc' where
    m: "mix (int 8) (int S) \<lparr>mixIn = Some ?ins, mixFull = None, mixInter = Some ?outs, mixAcc = Some acc\<rparr> =
      Some (0, \<lparr>mixIn = Some ins', mixFull = None, mixInter = Some outs', mixAcc = Some acc'\<rparr>)"
    and len: "length ins' = 8" "\<forall>j < 8. length (pAudioData (ins' ! j)) = length (pAudioData (?ins ! j))" "length acc' = length acc"
      "length outs' = 8" "\<forall>j < 8. length (pAudioData (outs' ! j)) = length (pAudioData (?outs ! j))"
    and v: "\<forall>j < 8. \<forall>i < nat (int S). pAudioData (outs' ! j) ! i =
       gain_out (amp (?outs ! j)) (\<Sum>k\<in>{..<8} - {j}. gain_in (amp (?ins ! k)) (pAudioData (?ins ! k) ! i))"
    using mix_ok [of ?ins 8 ?outs "int S" acc] in_ok out_ok ci(1) co(1) assms(1,5,7) by auto
  let ?ms = "store_channels ins' outs' (t_metas t)"
  have "\<exists>rx tx. ?ms ! j = (t_metas t ! j)\<lparr>rxBuffer := (rxBuffer (t_metas t ! j))\<lparr>mMem := rx\<rparr>,
         txBuffer := (txBuffer (t_metas t ! j))\<lparr>mMem := pcm_bytes tx\<rparr>\<rparr> \<and> length rx = 2 * S \<and> length tx = S \<and>
       (\<forall>i < S. tx ! i = gain_out (t_out t ! j)
          (\<Sum>k\<in>{..<8} - {j}. gain_in (t_in t ! k) (pcm_samples (mMem (rxBuffer (t_metas t ! k))) ! i)))" if j: "j < 8" for j
  proof (intro exI conjI allI impI)
    show "?ms ! j = (t_metas t ! j)\<lparr>rxBuffer := (rxBuffer (t_metas t ! j))\<lparr>mMem := pcm_bytes (pAudioData (ins' ! j))\<rparr>,
         txBuffer := (txBuffer (t_metas t ! j))\<lparr>mMem := pcm_bytes (pAudioData (outs' ! j))\<rparr>\<rparr>"
      using j len assms(1) by (simp add: store_channels_def)
    show "length (pcm_bytes (pAudioData (ins' ! j))) = 2 * S" "length (pAudioData (outs' ! j)) = S"
      using j len(2,5) ci(2) [of j] co(2) [of j] assms(1,7) by (simp_all add: length_pcm_bytes length_pcm_samples)
    fix i assume "i < S"
    then have "pAudioData (outs' ! j) ! i =
       gain_out (amp (?outs ! j)) (\<Sum>k\<in>{..<8} - {j}. gain_in (amp (?ins ! k)) (pAudioData (?ins ! k) ! i))" using v j by simp
    also have "\<dots> = gain_out (t_out t ! j) (\<Sum>k\<in>{..<8} - {j}. gain_in (t_in t ! k) (pcm_samples (mMem (rxBuffer (t_metas t ! k))) ! i))"
      using co(2) [of j] ci(2) j assms(1) by (auto intro!: arg_cong [of _ _ "gain_out _"] sum.cong)
    finally show "pAudioData (outs' ! j) ! i = gain_out (t_out t ! j)
       (\<Sum>k\<in>{..<8} - {j}. gain_in (t_in t ! k) (pcm_samples (mMem (rxBuffer (t_metas t ! k))) ! i))" .
  qed
  moreover have "length ?ms = 8" using len assms(1) by (simp add: store_channels_def)
  ultimately show ?thesis using m len(3) assms(4,6)
    by (intro exI [of _ ?ms] exI [of _ acc']) (simp add: mix_turn_def MAX_MIX_OBJECT_def)
qed

text \<open>
  The buffers of a channel: arrays of the right length, items that are a map, and room for the time
  stamp.  Nodes are polite when they keep buffers that way.
\<close>

definition tx_ok :: "(string \<rightharpoonup> nat) \<Rightarrow> nat meta_buffer \<Rightarrow> bool" where
  "tx_ok m mb \<longleftrightarrow> (\<exists>f. mb_rep m mb f \<and> (f ''ntp-time'' \<noteq> None \<or> mNumItems mb < kMaxNumItems))"

definition rx_ok :: "(string \<rightharpoonup> nat) \<Rightarrow> nat meta_buffer \<Rightarrow> bool" where
  "rx_ok m mb \<longleftrightarrow> (\<exists>f. mb_rep m mb f)"

definition meta_ok :: "nat \<Rightarrow> (string \<rightharpoonup> nat) \<Rightarrow> mix_meta \<Rightarrow> bool" where
  "meta_ok S m x \<longleftrightarrow> length (mMem (rxBuffer x)) = 2 * S \<and> rx_ok m (rxBuffer x) \<and> length (mMem (txBuffer x)) = 2 * S \<and> tx_ok m (txBuffer x)"

definition polite :: "audio_env \<Rightarrow> (string \<rightharpoonup> nat) \<Rightarrow> bool" where
  "polite e m \<longleftrightarrow>
     (\<forall>n mb. length (mMem mb) = 2 * EVENT_SAMPLES e \<longrightarrow> rx_ok m mb \<longrightarrow>
        length (mMem (snd (pullMedia e n mb))) = 2 * EVENT_SAMPLES e \<and> rx_ok m (snd (pullMedia e n mb))) \<and>
     (\<forall>n mb. length (mMem mb) = 2 * EVENT_SAMPLES e \<longrightarrow> tx_ok m mb \<longrightarrow>
        length (mMem (snd (pushMedia e n mb))) = 2 * EVENT_SAMPLES e \<and> tx_ok m (snd (pushMedia e n mb)))"

definition stamp :: "token_pool \<Rightarrow> nat meta_buffer \<Rightarrow> int \<Rightarrow> int" where
  \<comment> \<open>the time stamp of a buffer, or the value a variable has without one\<close>
  "stamp tp mb d = (case mb_findInt64 atomize tp mb ''ntp-time'' of Some (Some v, _) \<Rightarrow> v | _ \<Rightarrow> d)"

lemma mb_rep_items: "mItems mb' = mItems mb \<Longrightarrow> mNumItems mb' = mNumItems mb \<Longrightarrow> mb_rep m mb' f = mb_rep m mb f"
  by (simp add: mb_rep_def)

lemma tx_rx_mem [simp]: "tx_ok m (mb\<lparr>mMem := d\<rparr>) = tx_ok m mb" "rx_ok m (mb\<lparr>mMem := d\<rparr>) = rx_ok m mb"
  "tx_ok m (mb_setRange a b mb) = tx_ok m mb"
  by (simp_all add: tx_ok_def rx_ok_def mb_setRange_def mb_rep_items [of "mb\<lparr>mMem := d\<rparr>" mb]
      mb_rep_items [of "mb\<lparr>mRangeOffset := a, mRangeLength := b\<rparr>" mb])

lemma stamp_tx:
  assumes "pool_rep tp m" "m ''ntp-time'' = Some p" "tx_ok m mb"
  shows "\<exists>mb'. mb_setInt64 atomize tp (mb_setRange 0 len mb) ''ntp-time'' ts = Some (tp, mb') \<and> tx_ok m mb' \<and> mMem mb' = mMem mb \<and>
    mRangeOffset mb' = 0 \<and> mRangeLength mb' = len \<and> mb_findInt64 atomize tp mb' ''ntp-time'' = Some (Some ts, tp)"
proof -
  have "tx_ok m (mb_setRange 0 len mb)" using assms(3) by simp
  then obtain f where f: "mb_rep m (mb_setRange 0 len mb) f" "f ''ntp-time'' \<noteq> None \<or> mNumItems (mb_setRange 0 len mb) < kMaxNumItems"
    unfolding tx_ok_def by blast
  obtain mb' where mb': "basic_set atomize (Int64Value ts) tp (mb_setRange 0 len mb) ''ntp-time'' = Some (tp, mb')"
    "mb_rep m mb' (f(''ntp-time'' \<mapsto> Int64Value ts))" "mb_frame (mb_setRange 0 len mb) mb'"
    using tok.set_named [OF assms(1,2) f(1) tok.atom_known [OF assms(1,2)] f(2)] by blast
  then have "tx_ok m mb'" unfolding tx_ok_def by (metis fun_upd_same option.distinct(1))
  then show ?thesis using mb' tok.find_known [OF assms(1,2) mb'(2), of kTypeInt64]
    by (auto simp: mb_setInt64_def mb_frame_def mb_setRange_def mb_findInt64_def basic_find_def)
qed

lemma find_stamp:
  assumes "pool_rep tp m" "m ''ntp-time'' = Some p" "rx_ok m mb"
  shows "\<exists>found. mb_findInt64 atomize tp mb ''ntp-time'' = Some (found, tp) \<and> (case found of None \<Rightarrow> d | Some v \<Rightarrow> v) = stamp tp mb d"
proof -
  obtain f where "mb_rep m mb f" using assms(3) by (auto simp: rx_ok_def)
  then show ?thesis using tok.find_known [OF assms(1,2), of mb f kTypeInt64]
    by (simp add: stamp_def mb_findInt64_def basic_find_def split: option.split)
qed

lemma push_members_ok:
  assumes "pool_rep tp m" "m ''ntp-time'' = Some p" "polite e m" "i + length ns \<le> length ms" "\<forall>n \<in> set ns. n \<noteq> 0 \<and> obj (w n)"
    "\<forall>x \<in> set ms. meta_ok (EVENT_SAMPLES e) m x"
  shows "\<exists>ps ms'. push_members e w len ts i ns ms tp = Ret (ps, ms', tp) \<and> map fst ps = ns \<and> length ms' = length ms \<and>
    (\<forall>x \<in> set ms'. meta_ok (EVENT_SAMPLES e) m x) \<and>
    (\<forall>k < length ns. mMem (snd (ps ! k)) = mMem (txBuffer (ms ! (i + k))) \<and> mRangeOffset (snd (ps ! k)) = 0 \<and>
       mRangeLength (snd (ps ! k)) = len \<and> mb_findInt64 atomize tp (snd (ps ! k)) ''ntp-time'' = Some (Some ts, tp))"
  using assms(4-6)
proof (induction ns arbitrary: i ms)
  case (Cons n ns)
  let ?x = "ms ! i"
  have i: "i < length ms" using Cons.prems(1) by simp
  then have x: "meta_ok (EVENT_SAMPLES e) m ?x" using Cons.prems(3) by simp
  then obtain mb where mb: "mb_setInt64 atomize tp (mb_setRange 0 len (txBuffer ?x)) ''ntp-time'' ts = Some (tp, mb)" "tx_ok m mb"
    "mMem mb = mMem (txBuffer ?x)" "mRangeOffset mb = 0" "mRangeLength mb = len" "mb_findInt64 atomize tp mb ''ntp-time'' = Some (Some ts, tp)"
    using stamp_tx [OF assms(1,2), of "txBuffer ?x" len ts] unfolding meta_ok_def by blast
  obtain r mb' where p: "pushMedia e n mb = (r, mb')" by (cases "pushMedia e n mb")
  let ?ms = "ms[i := ?x\<lparr>txBuffer := mb'\<rparr>]"
  have "length (mMem mb) = 2 * EVENT_SAMPLES e" using mb(3) x by (simp add: meta_ok_def)
  then have "length (mMem mb') = 2 * EVENT_SAMPLES e" "tx_ok m mb'"
    using assms(3) [unfolded polite_def, THEN conjunct2, rule_format, OF _ mb(2), of n] p by simp_all
  then have "meta_ok (EVENT_SAMPLES e) m (?x\<lparr>txBuffer := mb'\<rparr>)" using x by (simp add: meta_ok_def)
  then have "\<forall>y \<in> set ?ms. meta_ok (EVENT_SAMPLES e) m y" using Cons.prems(3) set_update_subset_insert [of ms i] by blast
  then obtain ps ms' where r: "push_members e w len ts (Suc i) ns ?ms tp = Ret (ps, ms', tp)" "map fst ps = ns" "length ms' = length ms"
    "\<forall>x \<in> set ms'. meta_ok (EVENT_SAMPLES e) m x"
    "\<forall>k < length ns. mMem (snd (ps ! k)) = mMem (txBuffer (?ms ! (Suc i + k))) \<and> mRangeOffset (snd (ps ! k)) = 0 \<and>
       mRangeLength (snd (ps ! k)) = len \<and> mb_findInt64 atomize tp (snd (ps ! k)) ''ntp-time'' = Some (Some ts, tp)"
    using Cons.IH [of "Suc i" ?ms] Cons.prems(1,2) by auto
  have "push_members e w len ts i (n # ns) ms tp = Ret ((n, mb) # ps, ms', tp)"
    using i mb(1) p r(1) Cons.prems(2) by (simp add: call_node_def)
  moreover have "mMem (snd (((n, mb) # ps) ! k)) = mMem (txBuffer (ms ! (i + k))) \<and> mRangeOffset (snd (((n, mb) # ps) ! k)) = 0 \<and>
       mRangeLength (snd (((n, mb) # ps) ! k)) = len \<and> mb_findInt64 atomize tp (snd (((n, mb) # ps) ! k)) ''ntp-time'' = Some (Some ts, tp)"
    if "k < length (n # ns)" for k
    using that mb r(5) by (cases k) auto
  ultimately show ?case using r(2-4) by auto
qed simp

lemma heard_sum:
  assumes "L \<le> 8" "\<forall>k < 8. a ! k = (if k < L \<and> heard got k then MIX_KEEP_0dB else MIX_DISABLE)"
    "\<forall>k < L. s k = pcm_samples (mMem (got k)) ! i"
  shows "(\<Sum>k\<in>{..<8} - {j}. gain_in (a ! k) (s k)) = (\<Sum>k\<in>{k. k < L \<and> k \<noteq> j \<and> heard got k}. pcm_samples (mMem (got k)) ! i)"
  by (rule sum.mono_neutral_cong_right) (use assms in auto)

text \<open>The two halves of a turn: what the arrays and amplifications are after pulling, and what is in them after mixing.\<close>

definition turn_pulled :: "nat \<Rightarrow> (string \<rightharpoonup> nat) \<Rightarrow> nat \<Rightarrow> (nat \<Rightarrow> nat meta_buffer) \<Rightarrow> audio_turn \<Rightarrow> bool" where
  "turn_pulled S m L got t \<longleftrightarrow> length (t_metas t) = 8 \<and> length (t_in t) = 8 \<and> length (t_out t) = 8 \<and> t_ret t = NO_ERROR \<and>
     (\<forall>x \<in> set (t_metas t). meta_ok S m x) \<and>
     (\<forall>j < 8. t_in t ! j = (if j < L \<and> heard got j then MIX_KEEP_0dB else MIX_DISABLE) \<and>
        (j < L \<longrightarrow> rxBuffer (t_metas t ! j) = got j \<and> t_out t ! j = MIX_KEEP_0dB))"

lemma pull_turn:
  assumes "length ns \<le> 8" "ns \<noteq> []" "\<forall>n \<in> set ns. n \<noteq> 0 \<and> obj (w n)" "polite e m" "length ms = 8"
    "\<forall>x \<in> set ms. meta_ok (EVENT_SAMPLES e) m x" "\<forall>i < length ns. pullMedia e (ns ! i) (rxBuffer (ms ! i)) = (NO_ERROR, got i)"
  shows "\<exists>t. pull_members e w 0 ns \<lparr>t_metas = ms, t_in = replicate MAX_MIX_OBJECT MIX_DISABLE,
      t_out = replicate MAX_MIX_OBJECT MIX_DISABLE, t_ret = ret0\<rparr> = Ret t \<and> turn_pulled (EVENT_SAMPLES e) m (length ns) got t"
proof -
  let ?off = "replicate MAX_MIX_OBJECT MIX_DISABLE" and ?S = "EVENT_SAMPLES e"
  let ?t0 = "\<lparr>t_metas = ms, t_in = ?off, t_out = ?off, t_ret = ret0\<rparr>"
  obtain t where t: "pull_members e w 0 ns ?t0 = Ret t" "length (t_metas t) = 8" "length (t_in t) = 8" "length (t_out t) = 8" "t_ret t = NO_ERROR"
    and each: "\<forall>j < 8. if j < length ns
       then t_metas t ! j = (ms ! j)\<lparr>rxBuffer := got j\<rparr> \<and> t_in t ! j = (if heard got j then MIX_KEEP_0dB else MIX_DISABLE) \<and>
         t_out t ! j = MIX_KEEP_0dB
       else t_metas t ! j = ms ! j \<and> t_in t ! j = ?off ! j \<and> t_out t ! j = ?off ! j"
    using pull_members_ok [of 0 ns ?t0 w e got] assms(1-3,5,7) by (auto simp: MAX_MIX_OBJECT_def)
  have "meta_ok ?S m (t_metas t ! j)" if j: "j < 8" for j
  proof -
    have x: "meta_ok ?S m (ms ! j)" using j assms(5,6) by simp
    then have "length (mMem (got j)) = 2 * ?S \<and> rx_ok m (got j)" if "j < length ns"
      using assms(4) [unfolded polite_def, THEN conjunct1, rule_format, of "rxBuffer (ms ! j)" "ns ! j"] assms(7) that by (simp add: meta_ok_def)
    then show ?thesis using each [rule_format, OF j] x by (cases "j < length ns") (simp_all add: meta_ok_def)
  qed
  then have "\<forall>x \<in> set (t_metas t). meta_ok ?S m x" using t(2) by (metis in_set_conv_nth)
  moreover have "t_in t ! j = (if j < length ns \<and> heard got j then MIX_KEEP_0dB else MIX_DISABLE) \<and>
      (j < length ns \<longrightarrow> rxBuffer (t_metas t ! j) = got j \<and> t_out t ! j = MIX_KEEP_0dB)" if "j < 8" for j
    using each [rule_format, OF that] that by (cases "j < length ns") (simp_all add: MAX_MIX_OBJECT_def)
  ultimately show ?thesis using t by (auto simp: turn_pulled_def)
qed

definition others :: "nat \<Rightarrow> nat \<Rightarrow> (nat \<Rightarrow> nat meta_buffer) \<Rightarrow> nat \<Rightarrow> int list" where
  \<comment> \<open>what member \<open>i\<close> of \<open>L\<close> is to hear\<close>
  "others S L got i =
     map (\<lambda>k. clamp16 (\<Sum>j\<in>{j. j < L \<and> j \<noteq> i \<and> heard got j}. pcm_samples (mMem (got j)) ! k)) [0..<S]"

lemma mix_pulled:
  assumes "turn_pulled (EVENT_SAMPLES e) m L got t" "L \<le> 8" "mixBuffer st = Some acc" "EVENT_SAMPLES e \<le> length acc"
  shows "\<exists>ms acc'. mix_turn e t st = Ret (st\<lparr>mMetas := ms, mixBuffer := Some acc'\<rparr>) \<and> length acc' = length acc \<and> length ms = 8 \<and>
    (\<forall>x \<in> set ms. meta_ok (EVENT_SAMPLES e) m x) \<and> (\<forall>i < L. pcm_samples (mMem (txBuffer (ms ! i))) = others (EVENT_SAMPLES e) L got i)"
proof -
  let ?S = "EVENT_SAMPLES e"
  note t = assms(1) [unfolded turn_pulled_def]
  obtain ms acc' where x: "mix_turn e t st = Ret (st\<lparr>mMetas := ms, mixBuffer := Some acc'\<rparr>)" "length acc' = length acc" "length ms = 8"
    and mixed: "\<forall>j < 8. \<exists>rx tx. ms ! j = (t_metas t ! j)\<lparr>rxBuffer := (rxBuffer (t_metas t ! j))\<lparr>mMem := rx\<rparr>,
         txBuffer := (txBuffer (t_metas t ! j))\<lparr>mMem := pcm_bytes tx\<rparr>\<rparr> \<and> length rx = 2 * ?S \<and> length tx = ?S \<and>
       (\<forall>i < ?S. tx ! i = gain_out (t_out t ! j)
          (\<Sum>k\<in>{..<8} - {j}. gain_in (t_in t ! k) (pcm_samples (mMem (rxBuffer (t_metas t ! k))) ! i)))"
    using mix_turn_ok [of t st acc ?S e] t assms(3,4) by (auto simp: meta_ok_def)
  have "meta_ok ?S m y" if y: "y \<in> set ms" for y
  proof -
    obtain j where j: "j < 8" "y = ms ! j" using y x(3) by (auto simp: in_set_conv_nth)
    moreover have "meta_ok ?S m (t_metas t ! j)" using t j(1) by simp
    ultimately show ?thesis using mixed [rule_format, OF j(1)] by (auto simp: meta_ok_def length_pcm_bytes)
  qed
  moreover have "pcm_samples (mMem (txBuffer (ms ! i))) = others ?S L got i" if i: "i < L" for i
  proof -
    have i8: "i < 8" using i assms(2) by simp
    then have out: "t_out t ! i = MIX_KEEP_0dB" using t i by blast
    obtain tx where r: "txBuffer (ms ! i) = (txBuffer (t_metas t ! i))\<lparr>mMem := pcm_bytes tx\<rparr>" "length tx = ?S"
      "\<forall>k < ?S. tx ! k = clamp16 (\<Sum>k'\<in>{..<8} - {i}. gain_in (t_in t ! k') (pcm_samples (mMem (rxBuffer (t_metas t ! k'))) ! k))"
      using mixed [rule_format, OF i8, unfolded out] by fastforce
    have rx: "\<forall>k < L. rxBuffer (t_metas t ! k) = got k" "\<forall>k < 8. t_in t ! k = (if k < L \<and> heard got k then MIX_KEEP_0dB else MIX_DISABLE)"
      using t assms(2) by auto
    have "tx ! k = clamp16 (\<Sum>j\<in>{j. j < L \<and> j \<noteq> i \<and> heard got j}. pcm_samples (mMem (got j)) ! k)" if "k < ?S" for k
      using r(3) [rule_format, OF that] heard_sum [OF assms(2) rx(2), of "\<lambda>j. pcm_samples (mMem (rxBuffer (t_metas t ! j))) ! k" k i] rx(1)
      by simp
    then have "tx = others ?S L got i" using r(2) unfolding others_def by (intro nth_equalityI) simp_all
    moreover have "\<forall>v \<in> set (others ?S L got i). is_short v" by (auto simp: others_def clamp16_def)
    ultimately show ?thesis using r(1) pcm_round_trip by simp
  qed
  ultimately show ?thesis using x by blast
qed

text \<open>
  C5. Everybody hears the others.  In a turn of the audio conference with clients in which every member
  delivers its samples, every member is given one buffer, in the order of the list.  Sample for sample it
  is the saturated sum of what the other members delivered; a member is left out of the sums when its
  buffer does not have the quick data 1, the first member never.  The buffer has the size and the time stamp of
  the first member's.  The arrays and the accumulator keep their lengths, so the next turn finds them as
  this one did.
\<close>

theorem audio_turn_mixes:
  assumes "audio_inv e st" "node_counted w (with_members c (mset (mNodeList st)))" "mClientNum st \<noteq> 0" "mNodeList st \<noteq> []"
    and "pool_rep tp m" "m ''ntp-time'' = Some p" "polite e m" "length (mMetas st) = 8" "\<forall>x \<in> set (mMetas st). meta_ok (EVENT_SAMPLES e) m x"
    and "mixBuffer st = Some acc" "EVENT_SAMPLES e \<le> length acc"
    and "\<forall>i < length (mNodeList st). pullMedia e (mNodeList st ! i) (rxBuffer (mMetas st ! i)) = (NO_ERROR, got i)"
  shows "\<exists>ms acc' ps. audio_threadLoop e ret0 ts0 w tp st = Ret (st\<lparr>mMetas := ms, mixBuffer := Some acc'\<rparr>, tp, ps) \<and>
    map fst ps = mNodeList st \<and>
    (\<forall>i < length (mNodeList st). case snd (ps ! i) of mb \<Rightarrow>
       pcm_samples (mMem mb) = others (EVENT_SAMPLES e) (length (mNodeList st)) got i \<and>
       mRangeOffset mb = 0 \<and> mRangeLength mb = mRangeLength (got 0) \<and>
       mb_findInt64 atomize tp mb ''ntp-time'' = Some (Some (stamp tp (got 0) ts0), tp)) \<and>
    length ms = 8 \<and> (\<forall>x \<in> set ms. meta_ok (EVENT_SAMPLES e) m x) \<and> length acc' = length acc"
proof -
  let ?ns = "mNodeList st" and ?S = "EVENT_SAMPLES e"
  have L: "length ?ns \<le> 8" using assms(1) by (simp add: audio_inv_def MAX_MIX_OBJECT_def)
  have alive: "\<forall>n \<in> set ?ns. n \<noteq> 0 \<and> obj (w n)"
    using members_alive [OF assms(2)] assms(1) by (metis audio_inv_def set_mset_mset)
  obtain t where t: "pull_members e w 0 ?ns \<lparr>t_metas = mMetas st, t_in = replicate MAX_MIX_OBJECT MIX_DISABLE,
      t_out = replicate MAX_MIX_OBJECT MIX_DISABLE, t_ret = ret0\<rparr> = Ret t" "turn_pulled ?S m (length ?ns) got t"
    using pull_turn [OF L assms(4) alive assms(7-9,12)] by blast
  obtain ms acc' where x: "mix_turn e t (st\<lparr>mMetas := t_metas t\<rparr>) = Ret (st\<lparr>mMetas := ms, mixBuffer := Some acc'\<rparr>)" "length acc' = length acc"
    "length ms = 8" "\<forall>x \<in> set ms. meta_ok ?S m x" "\<forall>i < length ?ns. pcm_samples (mMem (txBuffer (ms ! i))) = others ?S (length ?ns) got i"
    using mix_pulled [OF t(2) L, of "st\<lparr>mMetas := t_metas t\<rparr>" acc] assms(10,11) by auto
  obtain m0 mr where m0: "t_metas t = m0 # mr" "rxBuffer m0 = got 0" "rx_ok m (got 0)"
  proof (cases "t_metas t")
    case (Cons a as)
    note a = that [OF Cons]
    have "rxBuffer (t_metas t ! 0) = got 0" "meta_ok ?S m (t_metas t ! 0)" using t(2) assms(4) by (auto simp: turn_pulled_def)
    then show thesis using a by (simp add: Cons meta_ok_def)
  qed (use t(2) in \<open>simp add: turn_pulled_def\<close>)
  obtain found where f: "mb_findInt64 atomize tp (got 0) ''ntp-time'' = Some (found, tp)" "(case found of None \<Rightarrow> ts0 | Some v \<Rightarrow> v) = stamp tp (got 0) ts0"
    using find_stamp [OF assms(5,6) m0(3)] by blast
  obtain ps ms' where pm: "push_members e w (mRangeLength (got 0)) (stamp tp (got 0) ts0) 0 ?ns ms tp = Ret (ps, ms', tp)" "map fst ps = ?ns"
    "length ms' = 8" "\<forall>x \<in> set ms'. meta_ok ?S m x"
    "\<forall>k < length ?ns. mMem (snd (ps ! k)) = mMem (txBuffer (ms ! k)) \<and> mRangeOffset (snd (ps ! k)) = 0 \<and>
       mRangeLength (snd (ps ! k)) = mRangeLength (got 0) \<and> mb_findInt64 atomize tp (snd (ps ! k)) ''ntp-time'' = Some (Some (stamp tp (got 0) ts0), tp)"
    using push_members_ok [OF assms(5,6,7) _ alive x(4), where i = 0 and len = "mRangeLength (got 0)" and ts = "stamp tp (got 0) ts0"] L x(3) by auto
  have "t_ret t = NO_ERROR" using t(2) by (simp add: turn_pulled_def)
  then have "audio_threadLoop e ret0 ts0 w tp st = Ret (st\<lparr>mMetas := ms', mixBuffer := Some acc'\<rparr>, tp, ps)"
    using assms(3) t(1) m0 f x(1) pm(1) by (simp add: audio_threadLoop_def mix_round_def Let_def)
  then show ?thesis using pm(2-5) x(2,5) by (intro exI [of _ ms'] exI [of _ acc'] exI [of _ ps]) auto
qed

definition audio_demo_names :: "(string \<times> nat) list" where
  "audio_demo_names = [(''ntp-time'', 0), (''samples'', 9)]"

definition audio_demo_pool :: token_pool where
  "audio_demo_pool = \<lparr>mRows = map (\<lambda>i. map (\<lambda>(n, p). Some p) (filter (\<lambda>(n, p). row_of n = i) audio_demo_names)) [0..<128],
     tokenBuffer = (\<lambda>k. (''ntp-time'' @ [CHR 0x00] @ ''samples'' @ [CHR 0x00]) ! k), bufferPtr = 17\<rparr>"

lemma audio_demo_pool_rep: "pool_rep audio_demo_pool (map_of audio_demo_names)"
proof -
  have "pool_list audio_demo_pool audio_demo_names"
    unfolding pool_list_def audio_demo_pool_def
    by (simp add: CONST_TOKENPOOL_ROWS_def CONST_TOKENPOOL_SIZE_def) (simp add: audio_demo_names_def name_ok_def)
  then show ?thesis unfolding pool_rep_def by blast
qed

definition demo_meta :: mix_meta where
  "demo_meta =
     (let mb = MetaBuffer_wrap [0, 0] (replicate 12 \<lparr>mName = None, mValue = Int32Value 0\<rparr>) 2 None in \<lparr>txBuffer = mb, rxBuffer = mb\<rparr>)"

lemma demo_meta_ok: "meta_ok 1 m demo_meta" "polite (demo_audio 1) m"
proof -
  have "mb_rep m (MetaBuffer_wrap [0, 0] (replicate 12 \<lparr>mName = None, mValue = Int32Value 0\<rparr>) 2 None) Map.empty"
    by (rule mb_rep_empty) (simp_all add: MetaBuffer_wrap_def kMaxNumItems_def)
  then show "meta_ok 1 m demo_meta"
    unfolding meta_ok_def tx_ok_def rx_ok_def demo_meta_def Let_def
    by (auto simp: MetaBuffer_wrap_def kMaxNumItems_def)
  show "polite (demo_audio 1) m" by (simp add: polite_def demo_audio_def rx_ok_def mb_rep_def)
qed

text \<open>A sound card that delivers the sample 1 and a codec that delivers 5: each is given the other's.\<close>

theorem audio_turn_mixes_witness:
  "\<exists>ms acc' ps. audio_threadLoop (demo_audio 1) 0 0 (\<lambda>_. (demo_nodes 0)\<lparr>mStrong := 2, mWeak := 2\<rparr>) audio_demo_pool
      (demo_conf\<lparr>mNodeList := [1, 5], mMetas := replicate 8 demo_meta, mixBuffer := Some [0], mClientNum := 1\<rparr>) =
    Ret (demo_conf\<lparr>mNodeList := [1, 5], mMetas := ms, mixBuffer := Some acc', mClientNum := 1\<rparr>, audio_demo_pool, ps) \<and>
    map fst ps = [1, 5] \<and> pcm_samples (mMem (snd (ps ! 0))) = [5] \<and> pcm_samples (mMem (snd (ps ! 1))) = [1]"
proof -
  let ?e = "demo_audio 1" and ?w = "\<lambda>_. (demo_nodes 0)\<lparr>mStrong := 2, mWeak := 2\<rparr>" and ?tp = audio_demo_pool
  let ?st = "demo_conf\<lparr>mNodeList := [1, 5], mMetas := replicate 8 demo_meta, mixBuffer := Some [0], mClientNum := 1\<rparr>"
  let ?c = "\<lambda>n. if n \<in> {1, 5} then Shared 1 0 else Shared 2 0"
  let ?got = "\<lambda>i. snd (pullMedia ?e ([1, 5] ! i) (rxBuffer demo_meta))"
  have "node_counted ?w (with_members ?c (mset (mNodeList ?st)))"
    by (simp add: node_counted_def with_members_def demo_nodes_def)
  moreover have "\<forall>i < length (mNodeList ?st). pullMedia ?e (mNodeList ?st ! i) (rxBuffer (mMetas ?st ! i)) = (NO_ERROR, ?got i)"
    by (simp add: demo_audio_def)
  ultimately obtain ms acc' ps where r: "audio_threadLoop ?e 0 0 ?w ?tp ?st = Ret (?st\<lparr>mMetas := ms, mixBuffer := Some acc'\<rparr>, ?tp, ps)"
    "map fst ps = mNodeList ?st"
    "\<forall>i < length (mNodeList ?st). case snd (ps ! i) of mb \<Rightarrow> pcm_samples (mMem mb) = others (EVENT_SAMPLES ?e) (length (mNodeList ?st)) ?got i \<and>
       mRangeOffset mb = 0 \<and> mRangeLength mb = mRangeLength (?got 0) \<and> mb_findInt64 atomize ?tp mb ''ntp-time'' = Some (Some (stamp ?tp (?got 0) 0), ?tp)"
    using audio_turn_mixes [of ?e ?st ?w ?c ?tp "map_of audio_demo_names" 0 "[0]" ?got 0 0] audio_demo_pool_rep demo_meta_ok
    by (auto simp: audio_inv_def MAX_MIX_OBJECT_def demo_audio_def audio_demo_names_def)
  have sets: "{j. j < 2 \<and> j \<noteq> 0 \<and> heard ?got j} = {1}" "{j. j < 2 \<and> j \<noteq> 1 \<and> heard ?got j} = {0}"
    by (auto simp: heard_def demo_audio_def less_2_cases_iff)
  have o: "others 1 2 ?got 0 = [5]" "others 1 2 ?got 1 = [1]"
    unfolding others_def sets by (simp_all add: demo_audio_def clamp16_def c_short_id)
  have l: "EVENT_SAMPLES ?e = 1" "length (mNodeList ?st) = 2" by (simp_all add: demo_audio_def)
  have "pcm_samples (mMem (snd (ps ! 0))) = [5]" "pcm_samples (mMem (snd (ps ! 1))) = [1]"
    using r(3) [unfolded l, rule_format, of 0] r(3) [unfolded l, rule_format, of 1] unfolding o by simp_all
  then show ?thesis using r(1,2) by (intro exI [of _ ms] exI [of _ acc'] exI [of _ ps]) simp
qed

section \<open>The life of a conference\<close>

lemma new_metas_ok:
  assumes "pool_rep tp m" "m ''samples'' = Some p" "length junk = kMaxNumItems"
  shows "\<exists>ms. new_metas k S junk tp = Ret (ms, tp) \<and> length ms = k \<and> (\<forall>x \<in> set ms. meta_ok S m x)"
proof (induction k)
  case (Suc k)
  then obtain ms where ms: "new_metas k S junk tp = Ret (ms, tp)" "length ms = k" "\<forall>x \<in> set ms. meta_ok S m x" by blast
  let ?mb = "MetaBuffer_wrap (replicate (2 * S) 0) junk (2 * S) None"
  have rep: "mb_rep m ?mb Map.empty" using assms(3) by (intro mb_rep_empty) (simp_all add: MetaBuffer_wrap_def)
  have "mNumItems ?mb < kMaxNumItems" by (simp add: MetaBuffer_wrap_def kMaxNumItems_def)
  then obtain mb' where mb': "basic_set atomize (Int32Value (c_int (int S))) tp ?mb ''samples'' = Some (tp, mb')"
    "mb_rep m mb' [''samples'' \<mapsto> Int32Value (c_int (int S))]" "mb_frame ?mb mb'" "mNumItems mb' \<le> Suc (mNumItems ?mb)"
    using tok.set_known [OF assms(1,2) rep] by blast
  have "mNumItems mb' < kMaxNumItems" using mb'(4) by (simp add: MetaBuffer_wrap_def kMaxNumItems_def)
  then have "meta_ok S m \<lparr>txBuffer = mb', rxBuffer = ?mb\<rparr>"
    using rep mb'(2,3) by (auto simp: meta_ok_def tx_ok_def rx_ok_def mb_frame_def MetaBuffer_wrap_def)
  then show ?case using ms mb'(1) by (simp add: MetaBuffer_create_def mb_setInt32_def Let_def)
qed simp

lemma audio_create_ok:
  assumes "pool_rep tp m" "m ''samples'' = Some p" "length junk = kMaxNumItems"
  shows "audio_create S junk None tp = Ret (None, tp)"
    and "\<exists>ms. audio_create S junk (Some mem) tp =
      Ret (Some \<lparr>mNodeList = [], mMetas = ms, mixBuffer = Some mem, mMixNum = 0, mClientNum = 0, mstate = False\<rparr>, tp) \<and>
      length ms = 8 \<and> (\<forall>x \<in> set ms. meta_ok S m x)"
  using new_metas_ok [OF assms, of MAX_MIX_OBJECT S]
  by (auto simp: audio_create_def audio_initMixer_def status_defs MAX_MIX_OBJECT_def)

text \<open>
  The destructor gives back every reference of the conference: afterwards a node is alive only if somebody
  else has a reference to it.
\<close>

lemma audio_destroy_ok:
  assumes "audio_inv e st" "node_counted w (with_members c (mset (mNodeList st)))" "has_room 0 (with_members c (mset (mNodeList st)))"
    "\<forall>n \<in> set (mNodeList st). \<exists>s v. c n = Shared s v"
  shows "\<exists>w'. audio_destroy st w = Ret w' \<and> (\<forall>n. obj (w' n) = rc_alive (c n))"
proof -
  obtain w' where "audio_destroy st w = Ret w'" "node_counted w' (with_members c {#})"
    using release_nodes_ok [OF assms(2,3) _ assms(4)] assms(1) by (auto simp: audio_destroy_def audio_inv_def)
  then show ?thesis using node_counted_alive by auto
qed

text \<open>
  Without clients the first two nodes, sound card and virtual sound card, are connected to each other.
  With fewer than two nodes the thread reads behind the end of its list.
\<close>

lemma exchange_pair:
  assumes "audio_inv e st" "node_counted w (with_members c (mset (mNodeList st)))" "mClientNum st = 0" "mNodeList st = a # b # ns" "length (mMetas st) = 8"
  shows "\<exists>st'. audio_threadLoop e ret0 ts0 w tp st = Ret (st', tp,
    [(a, snd (pullMedia e b (rxBuffer (mMetas st ! 1)))), (b, snd (pullMedia e a (rxBuffer (mMetas st ! 0))))])"
proof -
  have n: "a \<noteq> 0" "b \<noteq> 0" "obj (w a)" "obj (w b)" using assms(1,4) members_alive [OF assms(2)] by (auto simp: audio_inv_def)
  obtain m0 m1 ms where "mMetas st = m0 # m1 # ms" using assms(5) by (cases "mMetas st" rule: remdups_adj.cases) auto
  then show ?thesis using assms(3,4) n
    by (simp add: audio_threadLoop_def exchange_def call_node_def split_beta)
qed

lemma lonely_node_faults:
  assumes "mClientNum st = 0" "length (mNodeList st) < 2"
  shows "audio_threadLoop e ret0 ts0 w tp st = Fault"
  using assms by (cases "mNodeList st" rule: remdups_adj.cases) (simp_all add: audio_threadLoop_def exchange_def)

text \<open>One member that has no samples silences the whole turn: nobody is given anything.\<close>

lemma pull_members_fails:
  assumes "i + length ns \<le> length (t_metas t)" "\<forall>n \<in> set ns. n \<noteq> 0 \<and> obj (w n)" "n \<in> set ns" "\<forall>mb. fst (pullMedia e n mb) \<noteq> NO_ERROR"
  shows "\<exists>t'. pull_members e w i ns t = Ret t' \<and> t_ret t' \<noteq> NO_ERROR"
  using assms
proof (induction ns arbitrary: i t)
  case (Cons k ns)
  obtain r mb where p: "pullMedia e k (rxBuffer (t_metas t ! i)) = (r, mb)" by fastforce
  show ?case
  proof (cases "r = NO_ERROR")
    case True
    then have "n \<in> set ns" using p Cons.prems(3,4) by (metis fst_conv set_ConsD)
    then show ?thesis using Cons p True by (simp add: call_node_def Let_def)
  next
    case False
    then show ?thesis using Cons.prems(1,2) p by (simp add: call_node_def Let_def)
  qed
qed simp

lemma one_failure_silences:
  assumes "audio_inv e st" "node_counted w (with_members c (mset (mNodeList st)))" "mClientNum st \<noteq> 0" "length (mMetas st) = 8"
    "n \<in> set (mNodeList st)" "\<forall>mb. fst (pullMedia e n mb) \<noteq> NO_ERROR"
  shows "\<exists>st'. audio_threadLoop e ret0 ts0 w tp st = Ret (st', tp, [])"
proof -
  have "\<forall>n \<in> set (mNodeList st). n \<noteq> 0 \<and> obj (w n)"
    using members_alive [OF assms(2)] assms(1) by (metis audio_inv_def set_mset_mset)
  then obtain t where "pull_members e w 0 (mNodeList st) \<lparr>t_metas = mMetas st, t_in = replicate 8 MIX_DISABLE,
      t_out = replicate 8 MIX_DISABLE, t_ret = ret0\<rparr> = Ret t" "t_ret t \<noteq> NO_ERROR"
    using pull_members_fails [of 0 "mNodeList st" "\<lparr>t_metas = mMetas st, t_in = replicate 8 MIX_DISABLE,
      t_out = replicate 8 MIX_DISABLE, t_ret = ret0\<rparr>" w n e] assms(1,4-6) by (auto simp: audio_inv_def MAX_MIX_OBJECT_def)
  then show ?thesis using assms(3)
    by (auto simp: audio_threadLoop_def mix_round_def Let_def audio_inv_def MAX_MIX_OBJECT_def)
qed

text \<open>A member that leaves with its last reference is asked for its type after it has been deleted.\<close>

lemma last_reference_leaves:
  assumes "node_counted w (with_members c (mset (mNodeList st)))" "has_room 0 (with_members c (mset (mNodeList st)))"
    "c n = Shared 0 v" "n \<noteq> 0" "count (mset (mNodeList st)) n = 1"
  shows "audio_removeNode e n st w = Fault"
proof -
  let ?c = "with_members c (mset (mNodeList st))"
  have "rc_decStrong (?c n) = Some (Shared 0 v)" using assms(3,5) by (simp add: with_members_def)
  then obtain w' where w': "node_do decStrong n w = Ret w'" "node_counted w' (?c(n := Shared 0 v))"
    using node_do_ok [OF refines_ops(2) assms(1,2) _ assms(4)] by blast
  then have "\<not> obj (w' n)" using node_counted_alive [OF w'(2), of n] by simp
  moreover have "n \<in> set (mNodeList st)" using assms(5) by (metis count_mset_0_iff zero_neq_one)
  ultimately show ?thesis using w'(1) by (simp add: audio_removeNode_def call_node_def)
qed

lemma audio_dump_safe:
  assumes "audio_inv e st" "node_counted w (with_members c (mset (mNodeList st)))" "length junk = 1024"
    "case stream of None \<Rightarrow> True | Some s \<Rightarrow> io_inv s"
  shows "\<exists>s'. audio_dumpInfo fmt1 fmt2 junk w st stream = Ret s' \<and> io_inv s'"
  unfolding audio_dumpInfo_def
  by (rule dump_to_ok [OF assms(2)]) (use assms(1,3,4) in \<open>auto simp: audio_inv_def dump_nodes_def\<close>)

end
