(* ===== verification/Video_Conf.thy ===== *)
theory Video_Conf
  imports Conf_Nodes
begin

text \<open>
  \<open>libconf/VideoConfMix.cpp\<close>: the video conference of at most one camera, two clients and one encoder.
  Its thread pulls a picture from every node, gives the encoder's picture to the clients and the camera's
  to the encoder, and pushes.  Pulling and pushing hold the lock, the routing between them does not; so
  a turn is a sequence of steps between which other threads may change the members.  A picture is a
  pointer to a buffer, 0 is null.  The list holds strong references (\<open>sp\<close>): an insertion takes one, an
  erasure drops it.
\<close>

section \<open>Model\<close>

record video_conf =
  vNodeList :: "nat list"
  vRx :: "nat list" \<comment> \<open>\<open>mMetas[i].rxBuffer\<close>\<close>
  vTx :: "nat list"
  vClientNum :: int
  mCameraNum :: u32
  mEncoderNum :: u32

definition MAX_VIDEO_CLIENT :: int where "MAX_VIDEO_CLIENT = 2"
definition MAX_VIDEO_CAMERA :: u32 where "MAX_VIDEO_CAMERA = 1"
definition MAX_VIDEO_ENCODER :: u32 where "MAX_VIDEO_ENCODER = 1"
definition MAX_VIDEO_ITEMS :: nat where "MAX_VIDEO_ITEMS = 4"

subsection \<open>Construction and control\<close>

definition video_new :: video_conf where
  "video_new = \<lparr>vNodeList = [], vRx = replicate MAX_VIDEO_ITEMS 0, vTx = replicate MAX_VIDEO_ITEMS 0, vClientNum = 0,
     mCameraNum = 0, mEncoderNum = 0\<rparr>"

definition video_init :: int where
  "video_init = NO_ERROR"

definition video_create :: "video_conf option" where
  "video_create = (if video_init \<noteq> NO_ERROR then None else Some video_new)"

definition video_destroy :: "video_conf \<Rightarrow> nodes \<Rightarrow> nodes outcome" where
  \<comment> \<open>the destructor is empty, the list drops its references\<close>
  "video_destroy st w = release_nodes (vNodeList st) w"

fun start_nodes :: "(nat \<Rightarrow> int) \<Rightarrow> nodes \<Rightarrow> nat list \<Rightarrow> int \<Rightarrow> (bool \<times> int) outcome" where
  \<comment> \<open>the loop of \<open>start\<close>: whether it came to the end of the list, and \<open>err\<close>\<close>
  "start_nodes begin w [] err = Ret (True, err)"
| "start_nodes begin w (n # ns) err =
     obind (call_node n w (begin n)) (\<lambda>r. if r \<noteq> NO_ERROR then Ret (False, r) else start_nodes begin w ns r)"

definition video_start :: "(nat \<Rightarrow> int) \<Rightarrow> int \<Rightarrow> int \<Rightarrow> nodes \<Rightarrow> video_conf \<Rightarrow> (int \<times> bool) outcome" where
  \<comment> \<open>the status and whether the thread is started; \<open>tid\<close> is the id of a running thread or -1, \<open>res\<close> the result of \<open>run()\<close>\<close>
  "video_start begin tid res w st =
     (if tid \<noteq> - 1 then Ret (NO_ERROR, False)
      else obind (start_nodes begin w (vNodeList st) NO_ERROR) (\<lambda>(all, err). Ret (if all then (res, True) else (err, False))))"

definition video_reset :: "int \<Rightarrow> video_conf \<Rightarrow> int \<times> video_conf" where
  \<comment> \<open>\<open>res\<close> is the result of \<open>requestExitAndWait\<close>; the nodes stay\<close>
  "video_reset res st = (res, if res \<noteq> NO_ERROR then st else st\<lparr>vClientNum := 0\<rparr>)"

definition video_setParameters :: int where
  "video_setParameters = INVALID_OPERATION"

subsection \<open>Members\<close>

fun find_place :: "('a media_if_scheme) \<Rightarrow> nodes \<Rightarrow> int \<Rightarrow> nat list \<Rightarrow> (nat list \<times> nat list) outcome" where
  \<comment> \<open>the loop that stops at the first node of a greater type: the nodes before and from \<open>it\<close>\<close>
  "find_place e w t [] = Ret ([], [])"
| "find_place e w t (n # ns) =
     obind (call_node n w (nodeType e n)) (\<lambda>u.
     if t < u then Ret ([], n # ns) else obind (find_place e w t ns) (\<lambda>(xs, ys). Ret (n # xs, ys)))"

datatype admission = NoRoom | OtherType | Room video_conf

definition admit :: "('a media_if_scheme) \<Rightarrow> int \<Rightarrow> video_conf \<Rightarrow> admission" where
  \<comment> \<open>the counters for a node of type \<open>t\<close>\<close>
  "admit e t st =
     (if NODE_V_IP_RENDER e = t then
        (if vClientNum st \<ge> MAX_VIDEO_CLIENT then NoRoom else Room (st\<lparr>vClientNum := c_int (vClientNum st + 1)\<rparr>))
      else if NODE_V_CAMERA_SET e = t then
        (if mCameraNum st \<ge> MAX_VIDEO_CAMERA then NoRoom else Room (st\<lparr>mCameraNum := mCameraNum st + 1\<rparr>))
      else if NODE_V_ENCODER e \<noteq> 0 then
        (if mEncoderNum st \<ge> MAX_VIDEO_ENCODER then NoRoom else Room (st\<lparr>mEncoderNum := mEncoderNum st + 1\<rparr>))
      else OtherType)"

definition video_insertNode :: "('a media_if_scheme) \<Rightarrow> video_conf member_op" where
  \<comment> \<open>\<open>doInsertNode\<close>\<close>
  "video_insertNode e node st w =
     (if node = 0 then Ret (UNKNOWN_ERROR, st, w)
      else
        obind (call_node node w (nodeType e node)) (\<lambda>t.
        obind (find_place e w t (vNodeList st)) (\<lambda>(xs, ys).
        case admit e t st of
          NoRoom \<Rightarrow> Ret (UNKNOWN_ERROR, st, w)
        | OtherType \<Rightarrow> Ret (NO_ERROR, st, w)
        | Room st1 \<Rightarrow> obind (node_do incStrong node w) (\<lambda>w1. Ret (NO_ERROR, st1\<lparr>vNodeList := xs @ node # ys\<rparr>, w1)))))"

definition dismiss :: "('a media_if_scheme) \<Rightarrow> int \<Rightarrow> video_conf \<Rightarrow> video_conf" where
  "dismiss e t st =
     (if NODE_V_IP_RENDER e = t then st\<lparr>vClientNum := c_int (vClientNum st - 1)\<rparr>
      else if NODE_V_CAMERA_SET e = t then st\<lparr>mCameraNum := mCameraNum st - 1\<rparr>
      else if NODE_V_ENCODER e \<noteq> 0 then st\<lparr>mEncoderNum := mEncoderNum st - 1\<rparr>
      else st)"

definition video_removeNode :: "('a media_if_scheme) \<Rightarrow> video_conf member_op" where
  \<comment> \<open>\<open>doRemoveNode\<close>\<close>
  "video_removeNode e node st w =
     (if node = 0 then Ret (UNKNOWN_ERROR, st, w)
      else
        obind (call_node node w (nodeType e node)) (\<lambda>t.
        if node \<notin> set (vNodeList st) then Ret (UNKNOWN_ERROR, st, w)
        else obind (node_do decStrong node w) (\<lambda>w1.
             Ret (NO_ERROR, dismiss e t (st\<lparr>vNodeList := remove1 node (vNodeList st)\<rparr>), w1))))"

subsection \<open>A turn of the thread\<close>

fun pull_pictures :: "(nat \<Rightarrow> nat) \<Rightarrow> nodes \<Rightarrow> nat \<Rightarrow> nat list \<Rightarrow> nat list \<Rightarrow> nat list outcome" where
  \<comment> \<open>the first loop; \<open>pull n\<close> is the buffer node \<open>n\<close> delivers, or null\<close>
  "pull_pictures pull w i [] rx = Ret rx"
| "pull_pictures pull w i (n # ns) rx =
     (if i \<ge> length rx then Fault
      else obind (call_node n w (pull n)) (\<lambda>b. pull_pictures pull w (Suc i) ns (rx[i := b])))"

fun push_pictures :: "nodes \<Rightarrow> nat \<Rightarrow> nat list \<Rightarrow> nat list \<Rightarrow> (nat \<times> nat) list outcome" where
  \<comment> \<open>the last loop: what each node is given\<close>
  "push_pictures w i [] tx = Ret []"
| "push_pictures w i (n # ns) tx =
     (if i \<ge> length tx then Fault
      else obind (call_node n w (tx ! i)) (\<lambda>b. obind (push_pictures w (Suc i) ns tx) (\<lambda>ps. Ret ((n, b) # ps))))"

definition store_at :: "int \<Rightarrow> nat \<Rightarrow> nat list \<Rightarrow> nat list outcome" where
  "store_at i b xs = (if 0 \<le> i \<and> i < int (length xs) then Ret (xs[nat i := b]) else Fault)"

definition load_at :: "int \<Rightarrow> nat list \<Rightarrow> nat outcome" where
  "load_at i xs = (if 0 \<le> i \<and> i < int (length xs) then Ret (xs ! nat i) else Fault)"

datatype video_pc = VWait | VRoute int int int \<comment> \<open>\<open>offsetDec\<close>, \<open>offsetEnc\<close>, \<open>i\<close>\<close> | VRouted int int

definition video_pull :: "(nat \<Rightarrow> nat) \<Rightarrow> nodes \<Rightarrow> video_conf \<Rightarrow> (video_pc \<times> video_conf) outcome" where
  \<comment> \<open>the first critical section\<close>
  "video_pull pull w st =
     obind (pull_pictures pull w 0 (vNodeList st) (vRx st)) (\<lambda>rx.
     Ret (VRoute (c_int (uint (mCameraNum st))) (c_int (uint (mCameraNum st) + vClientNum st)) 0, st\<lparr>vRx := rx\<rparr>))"

definition video_route :: "int \<Rightarrow> int \<Rightarrow> int \<Rightarrow> video_conf \<Rightarrow> (video_pc \<times> video_conf) outcome" where
  \<comment> \<open>a test of the loop condition and what follows it\<close>
  "video_route dec enc i st =
     (if i < vClientNum st then
        obind (load_at enc (vRx st)) (\<lambda>b. obind (store_at (dec + i) b (vTx st)) (\<lambda>tx. Ret (VRoute dec enc (i + 1), st\<lparr>vTx := tx\<rparr>)))
      else if dec \<noteq> 0 then
        obind (load_at 0 (vRx st)) (\<lambda>b. obind (store_at enc b (vTx st)) (\<lambda>tx. Ret (VRouted dec enc, st\<lparr>vTx := tx\<rparr>)))
      else Ret (VRouted dec enc, st))"

definition video_push :: "nodes \<Rightarrow> int \<Rightarrow> int \<Rightarrow> video_conf \<Rightarrow> (nat \<times> nat) list outcome" where
  \<comment> \<open>the second critical section\<close>
  "video_push w dec enc st =
     (if word_of_int dec \<noteq> mCameraNum st \<or> word_of_int enc \<noteq> mCameraNum st + word_of_int (vClientNum st) then Ret []
      else push_pictures w 0 (vNodeList st) (vTx st))"

text \<open>The thread and the calls of other threads in any order.\<close>

record video_state =
  vpc :: video_pc
  vconf :: video_conf
  vnodes :: nodes
  pushed :: "(nat \<times> nat) list"

datatype video_act = VInsert nat | VRemove nat | VThread "nat \<Rightarrow> nat"

fun video_step :: "('a media_if_scheme) \<Rightarrow> video_act \<Rightarrow> video_state \<Rightarrow> video_state outcome" where
  "video_step e (VInsert n) s =
     obind (video_insertNode e n (vconf s) (vnodes s)) (\<lambda>(_, st, w). Ret (s\<lparr>vconf := st, vnodes := w\<rparr>))"
| "video_step e (VRemove n) s =
     obind (video_removeNode e n (vconf s) (vnodes s)) (\<lambda>(_, st, w). Ret (s\<lparr>vconf := st, vnodes := w\<rparr>))"
| "video_step e (VThread pull) s =
     (case vpc s of
        VWait \<Rightarrow> obind (video_pull pull (vnodes s) (vconf s)) (\<lambda>(p, st). Ret (s\<lparr>vpc := p, vconf := st\<rparr>))
      | VRoute dec enc i \<Rightarrow> obind (video_route dec enc i (vconf s)) (\<lambda>(p, st). Ret (s\<lparr>vpc := p, vconf := st\<rparr>))
      | VRouted dec enc \<Rightarrow> obind (video_push (vnodes s) dec enc (vconf s)) (\<lambda>ps. Ret (s\<lparr>vpc := VWait, pushed := pushed s @ ps\<rparr>)))"

fun video_acts :: "('a media_if_scheme) \<Rightarrow> video_act list \<Rightarrow> video_state \<Rightarrow> video_state outcome" where
  "video_acts e [] s = Ret s"
| "video_acts e (x # xs) s = obind (video_step e x s) (video_acts e xs)"

subsection \<open>Printing\<close>

definition video_dumpInfo :: "(int \<Rightarrow> u8 list option) \<Rightarrow> (nat \<Rightarrow> u8 list option) \<Rightarrow> u8 list \<Rightarrow> nodes \<Rightarrow> video_conf \<Rightarrow> ioStream option \<Rightarrow> ioStream outcome" where
  "video_dumpInfo fmt1 fmt2 junk w st stream =
     dump_to junk (vNodeList st) w
       (\<lambda>local. [Print (fmt1 (vClientNum st))] @
          (if vNodeList st \<noteq> [] then dump_nodes fmt2 (vNodeList st) @ [Seek (- 3) SEEK_CUR] else []) @
          [Putc (if local then 0 else 10)]) stream"

section \<open>Members and bounds\<close>

definition is_render :: "('a media_if_scheme) \<Rightarrow> nat \<Rightarrow> bool" where
  "is_render e n \<longleftrightarrow> nodeType e n = NODE_V_IP_RENDER e"

definition is_camera :: "('a media_if_scheme) \<Rightarrow> nat \<Rightarrow> bool" where
  "is_camera e n \<longleftrightarrow> nodeType e n = NODE_V_CAMERA_SET e"

definition is_other :: "('a media_if_scheme) \<Rightarrow> nat \<Rightarrow> bool" where
  \<comment> \<open>the code takes every other type for an encoder\<close>
  "is_other e n \<longleftrightarrow> \<not> is_render e n \<and> \<not> is_camera e n"

definition video_types :: "('a media_if_scheme) \<Rightarrow> bool" where
  \<comment> \<open>what the code needs of the enumeration\<close>
  "video_types e \<longleftrightarrow> NODE_V_IP_RENDER e \<noteq> NODE_V_CAMERA_SET e \<and> NODE_V_ENCODER e \<noteq> 0"

definition video_inv :: "('a media_if_scheme) \<Rightarrow> video_conf \<Rightarrow> bool" where
  "video_inv e st \<longleftrightarrow> sorted (map (nodeType e) (vNodeList st)) \<and> 0 \<notin> set (vNodeList st) \<and>
     length (vRx st) = MAX_VIDEO_ITEMS \<and> length (vTx st) = MAX_VIDEO_ITEMS \<and>
     vClientNum st = int (length (filter (is_render e) (vNodeList st))) \<and> vClientNum st \<le> MAX_VIDEO_CLIENT \<and>
     uint (mCameraNum st) = int (length (filter (is_camera e) (vNodeList st))) \<and> mCameraNum st \<le> MAX_VIDEO_CAMERA \<and>
     uint (mEncoderNum st) = int (length (filter (is_other e) (vNodeList st))) \<and> mEncoderNum st \<le> MAX_VIDEO_ENCODER"

lemma three_kinds:
  assumes "video_types e"
  shows "length (filter (is_render e) ns) + length (filter (is_camera e) ns) + length (filter (is_other e) ns) = length ns"
  using assms by (induction ns) (auto simp: is_render_def is_camera_def is_other_def video_types_def)

lemma one_word: "x \<le> 1 \<longleftrightarrow> x = 0 \<or> x = 1" for x :: u32
proof -
  have "x \<le> 1 \<longleftrightarrow> unat x \<le> 1" by (simp add: word_le_nat_alt)
  also have "\<dots> \<longleftrightarrow> unat x = 0 \<or> unat x = 1" by linarith
  finally show ?thesis by (metis unat_0 unat_1 word_unat_eq_iff)
qed

lemma video_bounds:
  assumes "video_inv e st"
  shows "0 \<le> vClientNum st" "vClientNum st \<le> 2" "uint (mCameraNum st) \<le> 1" "uint (mEncoderNum st) \<le> 1"
proof -
  show "0 \<le> vClientNum st" "vClientNum st \<le> 2" using assms by (simp_all add: video_inv_def MAX_VIDEO_CLIENT_def)
  show "uint (mCameraNum st) \<le> 1" "uint (mEncoderNum st) \<le> 1"
    using assms one_word [of "mCameraNum st"] one_word [of "mEncoderNum st"]
    by (auto simp: video_inv_def MAX_VIDEO_CAMERA_def MAX_VIDEO_ENCODER_def)
qed

lemma video_length:
  assumes "video_types e" "video_inv e st"
  shows "length (vNodeList st) \<le> MAX_VIDEO_ITEMS"
  using three_kinds [OF assms(1), of "vNodeList st"] video_bounds [OF assms(2)] assms(2)
  by (simp add: video_inv_def MAX_VIDEO_ITEMS_def)

lemma find_place_placed:
  assumes "\<forall>m \<in> set ns. m \<noteq> 0 \<and> obj (w m)"
  shows "find_place e w (nodeType e n) ns =
    Ret (takeWhile (\<lambda>m. nodeType e m \<le> nodeType e n) ns, dropWhile (\<lambda>m. nodeType e m \<le> nodeType e n) ns)"
  using assms by (induction ns) (auto simp: call_node_def)

lemma video_insertNode_ok:
  assumes "0 \<notin> set (vNodeList st)" "node_counted w (with_members c (mset (vNodeList st)))" "has_room 1 (with_members c (mset (vNodeList st)))"
    "n \<noteq> 0" "rc_alive (c n)"
  shows "\<exists>w'. node_counted w' (with_members c (add_mset n (mset (vNodeList st)))) \<and>
    video_insertNode e n st w =
      (case admit e (nodeType e n) st of
         NoRoom \<Rightarrow> Ret (UNKNOWN_ERROR, st, w)
       | OtherType \<Rightarrow> Ret (NO_ERROR, st, w)
       | Room st1 \<Rightarrow> Ret (NO_ERROR, st1\<lparr>vNodeList := placed e n (vNodeList st)\<rparr>, w'))"
proof -
  let ?M = "mset (vNodeList st)"
  obtain w' where w': "node_do incStrong n w = Ret w'" "node_counted w' (with_members c (add_mset n ?M))"
    using node_take [OF assms(2) has_room_less [OF assms(3)] assms(5,4)] by auto
  have "\<forall>m \<in> set (vNodeList st). m \<noteq> 0 \<and> obj (w m)"
    using assms(1) members_alive [OF assms(2)] by (metis set_mset_mset)
  then have p: "find_place e w (nodeType e n) (vNodeList st) = Ret (takeWhile (\<lambda>m. nodeType e m \<le> nodeType e n) (vNodeList st),
      dropWhile (\<lambda>m. nodeType e m \<le> nodeType e n) (vNodeList st))" by (rule find_place_placed)
  have "obj (w n)" using members_alive [OF assms(2), of n] assms(5) by simp
  then show ?thesis using w' p assms(4)
    by (intro exI [of _ w']) (simp add: video_insertNode_def call_node_def placed_def split: admission.split)
qed

lemma admit_inv:
  assumes "video_types e" "video_inv e st" "n \<noteq> 0" "admit e (nodeType e n) st = Room st1"
  shows "video_inv e (st1\<lparr>vNodeList := placed e n (vNodeList st)\<rparr>)"
proof -
  note b = video_bounds [OF assms(2)]
  have w: "mCameraNum st = 0 \<Longrightarrow> uint (mCameraNum st) = 0" "mEncoderNum st = 0 \<Longrightarrow> uint (mEncoderNum st) = 0" by simp_all
  show ?thesis using assms b sorted_placed [of e "vNodeList st" n] one_word [of "mCameraNum st"] one_word [of "mEncoderNum st"]
    by (auto simp: admit_def video_inv_def video_types_def is_other_def is_render_def is_camera_def c_int_id
        MAX_VIDEO_CLIENT_def MAX_VIDEO_CAMERA_def MAX_VIDEO_ENCODER_def not_le split: if_splits)
qed

lemma dismiss_inv:
  assumes "video_types e" "video_inv e st" "n \<in> set (vNodeList st)"
  shows "video_inv e (dismiss e (nodeType e n) (st\<lparr>vNodeList := remove1 n (vNodeList st)\<rparr>))"
proof -
  note b = video_bounds [OF assms(2)] and f = length_filter_remove1 [OF assms(3)]
  have s: "sorted (map (nodeType e) (remove1 n (vNodeList st)))" "0 \<notin> set (remove1 n (vNodeList st))"
    using assms(2) sorted_map_remove1_gen by (auto simp: video_inv_def dest: notin_set_remove1)
  have cam: "mCameraNum st = 1" if "is_camera e n"
    using f [of "is_camera e"] that assms(2) one_word [of "mCameraNum st"] by (auto simp: video_inv_def MAX_VIDEO_CAMERA_def)
  have enc: "mEncoderNum st = 1" if "is_other e n"
    using f [of "is_other e"] that assms(2) one_word [of "mEncoderNum st"] by (auto simp: video_inv_def MAX_VIDEO_ENCODER_def)
  consider "is_render e n" | "is_camera e n" | "is_other e n" by (auto simp: is_other_def)
  then show ?thesis
  proof cases
    case 1
    then have k: "\<not> is_camera e n" "\<not> is_other e n" using assms(1) by (auto simp: is_other_def is_camera_def is_render_def video_types_def)
    have "dismiss e (nodeType e n) (st\<lparr>vNodeList := remove1 n (vNodeList st)\<rparr>) = st\<lparr>vNodeList := remove1 n (vNodeList st), vClientNum := vClientNum st - 1\<rparr>"
      using 1 b by (simp add: dismiss_def is_render_def c_int_id)
    then show ?thesis using 1 k s assms(2) f [of "is_render e"] f [of "is_camera e"] f [of "is_other e"] by (simp add: video_inv_def)
  next
    case 2
    then have k: "\<not> is_render e n" "\<not> is_other e n" using assms(1) by (auto simp: is_other_def is_camera_def is_render_def video_types_def)
    then have "dismiss e (nodeType e n) (st\<lparr>vNodeList := remove1 n (vNodeList st)\<rparr>) = st\<lparr>vNodeList := remove1 n (vNodeList st), mCameraNum := 0\<rparr>"
      using 2 cam by (simp add: dismiss_def is_render_def is_camera_def)
    then show ?thesis using 2 k s assms(2) cam f [of "is_render e"] f [of "is_camera e"] f [of "is_other e"] by (simp add: video_inv_def)
  next
    case 3
    then have k: "\<not> is_render e n" "\<not> is_camera e n" by (simp_all add: is_other_def)
    then have "dismiss e (nodeType e n) (st\<lparr>vNodeList := remove1 n (vNodeList st)\<rparr>) = st\<lparr>vNodeList := remove1 n (vNodeList st), mEncoderNum := 0\<rparr>"
      using 3 enc assms(1) by (auto simp: dismiss_def is_render_def is_camera_def video_types_def)
    then show ?thesis using 3 k s assms(2) enc f [of "is_render e"] f [of "is_camera e"] f [of "is_other e"] by (simp add: video_inv_def)
  qed
qed

lemma admit_node_list: "admit e t st = Room st1 \<Longrightarrow> vNodeList st1 = vNodeList st"
  by (auto simp: admit_def split: if_splits)

lemma dismiss_node_list [simp]: "vNodeList (dismiss e t st) = vNodeList st"
  by (simp add: dismiss_def)

text \<open>The invariant for the interface, with the requirement on the types.\<close>

definition video_ok :: "('a media_if_scheme) \<Rightarrow> video_conf \<Rightarrow> bool" where
  "video_ok e st \<longleftrightarrow> video_types e \<and> video_inv e st"

interpretation video: conf_mixer "video_insertNode e" "video_removeNode e" "\<lambda>st. mset (vNodeList st)" "video_ok e" for e
proof unfold_locales
  fix st w c n
  assume a: "video_ok e st" "node_counted w (with_members c (mset (vNodeList st)))" "has_room 1 (with_members c (mset (vNodeList st)))"
    "n \<noteq> 0" "rc_alive (c n)"
  have i: "video_inv e st" "video_types e" using a(1) by (simp_all add: video_ok_def)
  obtain w' where w': "node_counted w' (with_members c (add_mset n (mset (vNodeList st))))" "video_insertNode e n st w =
      (case admit e (nodeType e n) st of
         NoRoom \<Rightarrow> Ret (UNKNOWN_ERROR, st, w)
       | OtherType \<Rightarrow> Ret (NO_ERROR, st, w)
       | Room st1 \<Rightarrow> Ret (NO_ERROR, st1\<lparr>vNodeList := placed e n (vNodeList st)\<rparr>, w'))"
    using video_insertNode_ok [OF _ a(2-5)] i(1) by (auto simp: video_inv_def)
  show "\<exists>err st' w'. video_insertNode e n st w = Ret (err, st', w') \<and> video_ok e st' \<and>
      node_counted w' (with_members c (mset (vNodeList st'))) \<and>
      (mset (vNodeList st') = mset (vNodeList st) \<or> mset (vNodeList st') = add_mset n (mset (vNodeList st)))"
  proof (cases "admit e (nodeType e n) st")
    case (Room st1)
    then show ?thesis using w' admit_inv [OF i(2,1) a(4) Room] i(2) by (auto simp: video_ok_def)
  qed (use w' a(1,2) in auto)
next
  fix st w c n
  assume a: "video_ok e st" "node_counted w (with_members c (mset (vNodeList st)))" "has_room 0 (with_members c (mset (vNodeList st)))"
    "n \<noteq> 0" "0 < rc_strong (c n)"
  have i: "video_inv e st" "video_types e" using a(1) by (simp_all add: video_ok_def)
  have t: "call_node n w t = Ret t" for t :: int using call_node_ok [OF a(2), of n t] a(4) rc_strong_alive [OF a(5)] by simp
  show "\<exists>err st' w'. video_removeNode e n st w = Ret (err, st', w') \<and> video_ok e st' \<and>
      node_counted w' (with_members c (mset (vNodeList st'))) \<and>
      (mset (vNodeList st') = mset (vNodeList st) \<or> mset (vNodeList st') = mset (vNodeList st) - {#n#})"
  proof (cases "n \<in> set (vNodeList st)")
    case True
    obtain w' where "node_do decStrong n w = Ret w'" "node_counted w' (with_members c (mset (vNodeList st) - {#n#}))"
      using node_drop [OF a(2,3,5,4)] True by auto
    then show ?thesis using True a(4) dismiss_inv [OF i(2,1) True] i(2) by (simp add: video_removeNode_def t video_ok_def)
  next
    case False
    then show ?thesis using a by (simp add: video_removeNode_def t)
  qed
qed (simp add: video_ok_def video_inv_def)

section \<open>The thread among other threads\<close>

fun offsets_ok :: "video_pc \<Rightarrow> bool" where
  "offsets_ok VWait = True"
| "offsets_ok (VRoute dec enc i) = (0 \<le> dec \<and> dec \<le> 1 \<and> 0 \<le> enc \<and> enc \<le> 3 \<and> 0 \<le> i)"
| "offsets_ok (VRouted dec enc) = (0 \<le> dec \<and> dec \<le> 1 \<and> 0 \<le> enc \<and> enc \<le> 3)"

definition video_sys :: "('a media_if_scheme) \<Rightarrow> (nat \<Rightarrow> rc) \<Rightarrow> video_state \<Rightarrow> bool" where
  "video_sys e c s \<longleftrightarrow> video_ok e (vconf s) \<and> node_counted (vnodes s) (with_members c (mset (vNodeList (vconf s)))) \<and> offsets_ok (vpc s)"

fun act_ok :: "(nat \<Rightarrow> rc) \<Rightarrow> video_act \<Rightarrow> bool" where
  "act_ok c (VInsert n) = (n \<noteq> 0 \<and> rc_strong (c n) > 0)"
| "act_ok c (VRemove n) = (n \<noteq> 0 \<and> rc_strong (c n) > 0)"
| "act_ok c (VThread pull) = True"

lemma pull_pictures_ok:
  assumes "i + length ns \<le> length rx" "\<forall>n \<in> set ns. n \<noteq> 0 \<and> obj (w n)"
  shows "\<exists>rx'. pull_pictures pull w i ns rx = Ret rx' \<and> length rx' = length rx \<and>
    (\<forall>j < length rx. rx' ! j = (if i \<le> j \<and> j < i + length ns then pull (ns ! (j - i)) else rx ! j))"
  using assms
proof (induction ns arbitrary: i rx)
  case (Cons n ns)
  let ?rx = "rx[i := pull n]"
  obtain rx' where r: "pull_pictures pull w (Suc i) ns ?rx = Ret rx'" "length rx' = length rx"
    "\<forall>j < length rx. rx' ! j = (if Suc i \<le> j \<and> j < Suc i + length ns then pull (ns ! (j - Suc i)) else ?rx ! j)"
    using Cons.IH [of "Suc i" ?rx] Cons.prems by auto
  have "rx' ! j = (if i \<le> j \<and> j < i + length (n # ns) then pull ((n # ns) ! (j - i)) else rx ! j)" if "j < length rx" for j
    using r(3) [rule_format, OF that] that by (cases "j = i") (auto simp: nth_Cons' Suc_diff_Suc)
  then show ?case using r(1,2) Cons.prems by (auto simp: call_node_def)
qed simp

lemma push_pictures_ok:
  assumes "i + length ns \<le> length tx" "\<forall>n \<in> set ns. n \<noteq> 0 \<and> obj (w n)"
  shows "push_pictures w i ns tx = Ret (zip ns (drop i tx))"
  using assms
proof (induction ns arbitrary: i)
  case (Cons n ns)
  have "drop i tx = tx ! i # drop (Suc i) tx" using Cons.prems(1) by (simp add: Cons_nth_drop_Suc)
  then show ?case using Cons by (simp add: call_node_def)
qed simp

lemma video_members_alive:
  assumes "video_sys e c s"
  shows "\<forall>n \<in> set (vNodeList (vconf s)). n \<noteq> 0 \<and> obj (vnodes s n)" "length (vNodeList (vconf s)) \<le> 4"
    "length (vRx (vconf s)) = 4" "length (vTx (vconf s)) = 4"
proof -
  have o: "video_inv e (vconf s)" "video_types e" "node_counted (vnodes s) (with_members c (mset (vNodeList (vconf s))))"
    using assms by (simp_all add: video_sys_def video_ok_def)
  show "\<forall>n \<in> set (vNodeList (vconf s)). n \<noteq> 0 \<and> obj (vnodes s n)"
    using members_alive [OF o(3)] o(1) by (metis video_inv_def set_mset_mset)
  show "length (vNodeList (vconf s)) \<le> 4" using video_length [OF o(2,1)] by (simp add: MAX_VIDEO_ITEMS_def)
  show "length (vRx (vconf s)) = 4" "length (vTx (vconf s)) = 4" using o(1) by (simp_all add: video_inv_def MAX_VIDEO_ITEMS_def)
qed

lemma video_ok_pictures [simp]: "length rx = length (vRx st) \<Longrightarrow> video_ok e (st\<lparr>vRx := rx\<rparr>) = video_ok e st"
  "length tx = length (vTx st) \<Longrightarrow> video_ok e (st\<lparr>vTx := tx\<rparr>) = video_ok e st"
  by (simp_all add: video_ok_def video_inv_def)

lemma video_pull_ok:
  assumes "video_sys e c s" "vpc s = VWait"
  shows "\<exists>s'. video_step e (VThread pull) s = Ret s' \<and> video_sys e c s'"
proof -
  note m = video_members_alive [OF assms(1)]
  obtain rx where rx: "pull_pictures pull (vnodes s) 0 (vNodeList (vconf s)) (vRx (vconf s)) = Ret rx" "length rx = 4"
    using pull_pictures_ok [of 0 "vNodeList (vconf s)" "vRx (vconf s)" "vnodes s" pull] m by auto
  have "video_inv e (vconf s)" using assms(1) by (simp add: video_sys_def video_ok_def)
  note b = video_bounds [OF this]
  have "0 \<le> uint (mCameraNum (vconf s))" by simp
  then have "c_int (uint (mCameraNum (vconf s))) = uint (mCameraNum (vconf s))"
    "c_int (uint (mCameraNum (vconf s)) + vClientNum (vconf s)) = uint (mCameraNum (vconf s)) + vClientNum (vconf s)"
    using b(1-3) by (intro c_int_id conjI; linarith)+
  then show ?thesis using rx assms m(3) b by (simp add: video_pull_def video_sys_def)
qed

lemma video_route_ok:
  assumes "video_sys e c s" "vpc s = VRoute dec enc i"
  shows "\<exists>s'. video_step e (VThread pull) s = Ret s' \<and> video_sys e c s'"
proof -
  note m = video_members_alive [OF assms(1)]
  have "video_inv e (vconf s)" using assms(1) by (simp add: video_sys_def video_ok_def)
  note b = video_bounds [OF this]
  have o: "0 \<le> dec" "dec \<le> 1" "0 \<le> enc" "enc \<le> 3" "0 \<le> i" using assms by (simp_all add: video_sys_def)
  show ?thesis
  proof (cases "i < vClientNum (vconf s)")
    case True
    then have "video_route dec enc i (vconf s) =
        Ret (VRoute dec enc (i + 1), (vconf s)\<lparr>vTx := (vTx (vconf s))[nat (dec + i) := vRx (vconf s) ! nat enc]\<rparr>)"
      using o b(2) m(3,4) by (simp add: video_route_def load_at_def store_at_def)
    then show ?thesis using assms o by (simp add: video_sys_def)
  next
    case False
    then show ?thesis using assms o m(3,4) by (cases "dec = 0") (simp_all add: video_route_def load_at_def store_at_def video_sys_def)
  qed
qed

lemma video_push_ok:
  assumes "video_sys e c s" "vpc s = VRouted dec enc"
  shows "\<exists>s'. video_step e (VThread pull) s = Ret s' \<and> video_sys e c s'"
  using push_pictures_ok [of 0 "vNodeList (vconf s)" "vTx (vconf s)" "vnodes s"] video_members_alive [OF assms(1)] assms
  by (simp add: video_push_def video_sys_def)

lemma video_step_ok:
  assumes "video_sys e c s" "has_room 5 c" "act_ok c x"
  shows "\<exists>s'. video_step e x s = Ret s' \<and> video_sys e c s'"
proof -
  have o: "video_ok e (vconf s)" "node_counted (vnodes s) (with_members c (mset (vNodeList (vconf s))))" "offsets_ok (vpc s)"
    using assms(1) by (simp_all add: video_sys_def)
  have r: "has_room 1 (with_members c (mset (vNodeList (vconf s))))" "has_room 0 (with_members c (mset (vNodeList (vconf s))))"
    using has_room_members [OF assms(2)] video_members_alive(2) [OF assms(1)] by auto
  show ?thesis
  proof (cases x)
    case (VInsert n)
    then show ?thesis using video.insert_law [OF o(1,2) r(1), of n] assms(3) rc_strong_alive [of "c n"] o(3) by (auto simp: video_sys_def)
  next
    case (VRemove n)
    then show ?thesis using video.remove_law [OF o(1,2) r(2), of n] assms(3) o(3) by (auto simp: video_sys_def)
  next
    case (VThread pull)
    then show ?thesis using video_pull_ok [OF assms(1)] video_route_ok [OF assms(1)] video_push_ok [OF assms(1)] by (cases "vpc s") auto
  qed
qed

lemma video_acts_ok:
  assumes "video_sys e c s" "has_room 5 c" "\<forall>x \<in> set xs. act_ok c x"
  shows "\<exists>s'. video_acts e xs s = Ret s' \<and> video_sys e c s'"
  using assms
proof (induction xs arbitrary: s)
  case (Cons x xs)
  obtain s1 where "video_step e x s = Ret s1" "video_sys e c s1" using video_step_ok [OF Cons.prems(1,2)] Cons.prems(3) by auto
  then show ?case using Cons.IH [of s1] Cons.prems(2,3) by auto
qed simp

text \<open>
  C6. The video thread is safe among the callers of the conference.  Other threads that have references of
  their own may insert and remove nodes between any two steps of a turn, also between the loop tests of
  the part that holds no lock.  Whatever the order, no step leaves the arrays of four pictures or calls a deleted
  node, the conference owns one reference per place in its list, and its counters are the numbers of
  cameras, clients and other nodes, with at most one, two and one of them.
\<close>

theorem video_interleavings:
  assumes "video_types e" "node_counted w c" "has_room 5 c" "\<forall>x \<in> set xs. act_ok c x"
  shows "\<exists>s. video_acts e xs \<lparr>vpc = VWait, vconf = video_new, vnodes = w, pushed = []\<rparr> = Ret s \<and>
    node_counted (vnodes s) (with_members c (mset (vNodeList (vconf s)))) \<and> (\<forall>n \<in> set (vNodeList (vconf s)). obj (vnodes s n)) \<and>
    sorted (map (nodeType e) (vNodeList (vconf s))) \<and>
    length (filter (is_camera e) (vNodeList (vconf s))) = unat (mCameraNum (vconf s)) \<and> unat (mCameraNum (vconf s)) \<le> 1 \<and>
    int (length (filter (is_render e) (vNodeList (vconf s)))) = vClientNum (vconf s) \<and> vClientNum (vconf s) \<le> 2 \<and>
    length (filter (is_other e) (vNodeList (vconf s))) = unat (mEncoderNum (vconf s)) \<and> unat (mEncoderNum (vconf s)) \<le> 1"
proof -
  have int_unat: "int (unat x) = uint x" for x :: u32 by simp
  have "video_inv e video_new" by (simp add: video_inv_def video_new_def MAX_VIDEO_CLIENT_def)
  then have "video_sys e c \<lparr>vpc = VWait, vconf = video_new, vnodes = w, pushed = []\<rparr>"
    using assms(1,2) by (simp add: video_sys_def video_ok_def) (simp add: video_new_def)
  then obtain s where s: "video_acts e xs \<lparr>vpc = VWait, vconf = video_new, vnodes = w, pushed = []\<rparr> = Ret s" "video_sys e c s"
    using video_acts_ok [OF _ assms(3,4)] by blast
  then have i: "video_inv e (vconf s)" "node_counted (vnodes s) (with_members c (mset (vNodeList (vconf s))))"
    by (simp_all add: video_sys_def video_ok_def)
  have u: "k = unat x" if "uint x = int k" for x :: u32 and k
    using that int_unat [of x] by linarith
  have v: "unat x \<le> 1" if "uint x \<le> 1" for x :: u32
    using that int_unat [of x] by linarith
  have "length (filter (is_camera e) (vNodeList (vconf s))) = unat (mCameraNum (vconf s))" "unat (mCameraNum (vconf s)) \<le> 1"
    "length (filter (is_other e) (vNodeList (vconf s))) = unat (mEncoderNum (vconf s))" "unat (mEncoderNum (vconf s)) \<le> 1"
    using i(1) [unfolded video_inv_def] video_bounds(3,4) [OF i(1)] u v by blast+
  then show ?thesis using s(1) i video_bounds(2) [OF i(1)] video_members_alive(1) [OF s(2)]
    by (intro exI [of _ s]) (simp add: video_inv_def)
qed

definition demo_video :: media_if where
  \<comment> \<open>node 1 is a camera, 4 an encoder, the others are clients\<close>
  "demo_video = \<lparr>NODE_A_IP_CODEC = 2, NODE_A_DRIVER = 0, NODE_V_IP_RENDER = 17, NODE_V_CAMERA_SET = 16, NODE_V_ENCODER = 18,
     NODE_CLASS_MASK = 240, NODE_A_CLASS = 0, NODE_V_CLASS = 16, nodeType = (\<lambda>n. if n = 1 then 16 else if n = 4 then 18 else 17)\<rparr>"

definition demo_viewers :: nodes where
  "demo_viewers = (\<lambda>_. \<lparr>mStrong = 1, mWeak = 1, mFlags = 0, obj = True, impl = True, hooks = []\<rparr>)"

lemma demo_video_ok: "video_types demo_video" "node_counted demo_viewers (\<lambda>_. Shared 1 0)" "has_room k (\<lambda>_. Shared 1 0) \<longleftrightarrow> k < 268435454"
  by (auto simp: video_types_def demo_video_def node_counted_def demo_viewers_def has_room_def INITIAL_STRONG_VALUE_def)

theorem video_interleavings_witness:
  "\<exists>s. video_acts demo_video [VInsert 2, VThread id, VInsert 1, VThread id, VRemove 2, VThread id, VInsert 4]
      \<lparr>vpc = VWait, vconf = video_new, vnodes = demo_viewers, pushed = []\<rparr> = Ret s \<and>
    sorted (map (nodeType demo_video) (vNodeList (vconf s))) \<and> vClientNum (vconf s) \<le> 2"
proof -
  let ?xs = "[VInsert 2, VThread id, VInsert 1, VThread id, VRemove 2, VThread id, VInsert 4]"
  have "\<forall>x \<in> set ?xs. act_ok (\<lambda>_. Shared 1 0) x" by simp
  moreover have "has_room 5 (\<lambda>_. Shared 1 0)" unfolding demo_video_ok(3) by simp
  ultimately show ?thesis using video_interleavings [OF demo_video_ok(1,2), of ?xs] by blast
qed

section \<open>A turn without interference\<close>

lemma sorted_kinds:
  assumes "sorted (map (nodeType e) ns)" "NODE_V_CAMERA_SET e < NODE_V_IP_RENDER e" "\<forall>n \<in> set ns. is_other e n \<longrightarrow> NODE_V_IP_RENDER e < nodeType e n"
  shows "ns = filter (is_camera e) ns @ filter (is_render e) ns @ filter (is_other e) ns"
  using assms
proof (induction ns)
  case (Cons n ns)
  have le: "nodeType e n \<le> nodeType e m" if "m \<in> set ns" for m using Cons.prems(1) that by simp
  have IH: "ns = filter (is_camera e) ns @ filter (is_render e) ns @ filter (is_other e) ns" using Cons by simp
  consider "is_camera e n" "\<not> is_render e n" "\<not> is_other e n" | "is_render e n" "\<not> is_camera e n" "\<not> is_other e n" | "is_other e n" "\<not> is_camera e n" "\<not> is_render e n"
    using assms(2) by (auto simp: is_other_def is_camera_def is_render_def)
  then show ?case
  proof cases
    case 1
    then show ?thesis using IH by simp
  next
    case 2
    have "filter (is_camera e) ns = []" using le 2(1) assms(2) by (fastforce simp: filter_empty_conv is_camera_def is_render_def)
    then show ?thesis using IH 2 by simp
  next
    case 3
    have "nodeType e n > NODE_V_IP_RENDER e" using Cons.prems(3) 3(1) by simp
    then have "filter (is_camera e) ns = []" "filter (is_render e) ns = []"
      using le assms(2) by (fastforce simp: filter_empty_conv is_camera_def is_render_def)+
    then show ?thesis using IH 3 by simp
  qed
qed simp

lemma length_one: "length xs = 1 \<Longrightarrow> \<exists>x. xs = [x]"
  by (cases xs) auto

lemma video_shape:
  assumes "video_inv e st" "NODE_V_CAMERA_SET e < NODE_V_IP_RENDER e" "\<forall>n \<in> set (vNodeList st). is_other e n \<longrightarrow> NODE_V_IP_RENDER e < nodeType e n"
    "mCameraNum st = 1" "mEncoderNum st = 1"
  shows "\<exists>cam cs enc. vNodeList st = cam # cs @ [enc] \<and> is_camera e cam \<and> (\<forall>n \<in> set cs. is_render e n) \<and> is_other e enc \<and>
    vClientNum st = int (length cs) \<and> length cs \<le> 2"
proof -
  have "length (filter (is_camera e) (vNodeList st)) = 1" "length (filter (is_other e) (vNodeList st)) = 1" and
    k: "vClientNum st = int (length (filter (is_render e) (vNodeList st)))" "sorted (map (nodeType e) (vNodeList st))"
    using assms(1,4,5) by (simp_all add: video_inv_def)
  then obtain cam enc where ce: "filter (is_camera e) (vNodeList st) = [cam]" "filter (is_other e) (vNodeList st) = [enc]" by (metis length_one)
  have "vNodeList st = cam # filter (is_render e) (vNodeList st) @ [enc]" using sorted_kinds [OF k(2) assms(2,3)] ce by simp
  moreover have "is_camera e cam" "is_other e enc" using ce by (metis filter_eq_Cons_iff)+
  ultimately show ?thesis using k(1) video_bounds(2) [OF assms(1)] by (intro exI [of _ cam] exI [of _ "filter (is_render e) (vNodeList st)"] exI [of _ enc]) simp
qed

lemma length_four: "length xs = 4 \<Longrightarrow> \<exists>a b c d. xs = [a, b, c, d]"
  by (auto simp: eval_nat_numeral length_Suc_conv)

lemma video_turn_steps:
  assumes "vpc s = VWait" "vNodeList (vconf s) = cam # cs @ [enc]" "\<forall>n \<in> set (vNodeList (vconf s)). n \<noteq> 0 \<and> obj (vnodes s n)"
    "length (vRx (vconf s)) = 4" "length (vTx (vconf s)) = 4" "mCameraNum (vconf s) = 1" "vClientNum (vconf s) = int (length cs)" "length cs \<le> 2"
  shows "\<exists>s'. video_acts e (replicate (length cs + 3) (VThread pull)) s = Ret s' \<and> vpc s' = VWait \<and>
    pushed s' = pushed s @ (cam, vTx (vconf s) ! 0) # map (\<lambda>n. (n, pull enc)) cs @ [(enc, pull cam)]"
proof -
  obtain r0 r1 r2 r3 where r: "vRx (vconf s) = [r0, r1, r2, r3]" using length_four [OF assms(4)] by blast
  obtain t0 t1 t2 t3 where t: "vTx (vconf s) = [t0, t1, t2, t3]" using length_four [OF assms(5)] by blast
  consider "cs = []" | a where "cs = [a]" | a b where "cs = [a, b]"
    using assms(8) by (cases cs rule: remdups_adj.cases) auto
  then show ?thesis
    by cases (use assms(1-3,6,7) r t in \<open>simp_all add: numeral_3_eq_3 numeral_2_eq_2 video_pull_def video_route_def video_push_def
        load_at_def store_at_def call_node_def c_int_id\<close>)
qed

text \<open>
  C21. Who sees whom.  In a turn that no other thread disturbs, with a camera, an encoder and up to two clients, whose
  types are in this order (camera before client before the others), every client is given the picture the
  encoder delivered in this turn, and the encoder is given the camera's.  The camera is given whatever is
  in the first transmit buffer.  The turn takes one step to pull, one per client and one more to route, and
  one to push.
\<close>

theorem video_turn_routes:
  assumes "video_sys e c s" "vpc s = VWait" "mCameraNum (vconf s) = 1" "mEncoderNum (vconf s) = 1"
    and "NODE_V_CAMERA_SET e < NODE_V_IP_RENDER e" "\<forall>n \<in> set (vNodeList (vconf s)). is_other e n \<longrightarrow> NODE_V_IP_RENDER e < nodeType e n"
  shows "\<exists>cam cs enc s'. vNodeList (vconf s) = cam # cs @ [enc] \<and> is_camera e cam \<and> (\<forall>n \<in> set cs. is_render e n) \<and> is_other e enc \<and>
    video_acts e (replicate (nat (vClientNum (vconf s)) + 3) (VThread pull)) s = Ret s' \<and> vpc s' = VWait \<and>
    pushed s' = pushed s @ (cam, vTx (vconf s) ! 0) # map (\<lambda>n. (n, pull enc)) cs @ [(enc, pull cam)]"
proof -
  have "video_inv e (vconf s)" using assms(1) by (simp add: video_sys_def video_ok_def)
  then obtain cam cs enc where sh: "vNodeList (vconf s) = cam # cs @ [enc]" "is_camera e cam" "\<forall>n \<in> set cs. is_render e n" "is_other e enc"
    "vClientNum (vconf s) = int (length cs)" "length cs \<le> 2"
    using video_shape [OF _ assms(5,6,3,4)] by blast
  note m = video_members_alive [OF assms(1)]
  show ?thesis using video_turn_steps [OF assms(2) sh(1) m(1,3,4) assms(3) sh(5,6), of e pull] sh(1-5)
    by (intro exI [of _ cam] exI [of _ cs] exI [of _ enc]) simp
qed

definition demo_show :: video_state where
  "demo_show = \<lparr>vpc = VWait, vconf = video_new\<lparr>vNodeList := [1, 2, 3, 4], vClientNum := 2, mCameraNum := 1, mEncoderNum := 1\<rparr>,
     vnodes = (\<lambda>n. if n \<in> {1, 2, 3, 4} then (demo_viewers n)\<lparr>mStrong := 2, mWeak := 2\<rparr> else demo_viewers n), pushed = []\<rparr>"

lemma demo_show_sys: "video_sys demo_video (\<lambda>_. Shared 1 0) demo_show"
proof -
  have "video_inv demo_video (vconf demo_show)"
    by (simp add: video_inv_def demo_show_def video_new_def demo_video_def is_other_def is_camera_def is_render_def
        MAX_VIDEO_CLIENT_def MAX_VIDEO_CAMERA_def MAX_VIDEO_ENCODER_def)
  moreover have "node_counted (vnodes demo_show) (with_members (\<lambda>_. Shared 1 0) (mset (vNodeList (vconf demo_show))))"
    by (simp add: node_counted_def with_members_def demo_show_def demo_viewers_def)
  moreover have "vpc demo_show = VWait" by (simp add: demo_show_def)
  ultimately show ?thesis using demo_video_ok(1) by (simp add: video_sys_def video_ok_def)
qed

theorem video_turn_routes_witness:
  "\<exists>s'. video_acts demo_video (replicate 5 (VThread (\<lambda>n. 10 * n))) demo_show = Ret s' \<and> pushed s' = [(1, 0), (2, 40), (3, 40), (4, 10)]"
proof -
  have d: "vpc demo_show = VWait" "mCameraNum (vconf demo_show) = 1" "mEncoderNum (vconf demo_show) = 1"
    "NODE_V_CAMERA_SET demo_video < NODE_V_IP_RENDER demo_video"
    "\<forall>n \<in> set (vNodeList (vconf demo_show)). is_other demo_video n \<longrightarrow> NODE_V_IP_RENDER demo_video < nodeType demo_video n"
    by (simp_all add: demo_show_def demo_video_def is_other_def is_camera_def is_render_def)
  obtain cam cs enc s' where r: "vNodeList (vconf demo_show) = cam # cs @ [enc]"
    "video_acts demo_video (replicate (nat (vClientNum (vconf demo_show)) + 3) (VThread (\<lambda>n. 10 * n))) demo_show = Ret s'"
    "pushed s' = pushed demo_show @ (cam, vTx (vconf demo_show) ! 0) # map (\<lambda>n. (n, 10 * enc)) cs @ [(enc, 10 * cam)]"
    using video_turn_routes [OF demo_show_sys d, of "\<lambda>n. 10 * n"] by blast
  have n: "nat (vClientNum (vconf demo_show)) + 3 = 5" "pushed demo_show = []" "vTx (vconf demo_show) ! 0 = 0"
    by (simp_all add: demo_show_def video_new_def MAX_VIDEO_ITEMS_def)
  have "cam # cs @ [enc] = [1, 2, 3] @ [4]" using r(1) by (simp add: demo_show_def)
  then have "cam = 1 \<and> cs = [2, 3] \<and> enc = 4" by (cases cs rule: rev_cases) (auto simp: append_eq_Cons_conv Cons_eq_append_conv)
  then show ?thesis using r(2,3) by (simp only: n) simp
qed

section \<open>After a reset\<close>

lemma pull_pictures_overrun:
  assumes "i \<le> length rx" "length rx < i + length ns" "\<forall>n \<in> set ns. n \<noteq> 0 \<and> obj (w n)"
  shows "pull_pictures pull w i ns rx = Fault"
  using assms by (induction ns arbitrary: i rx) (auto simp: call_node_def)

text \<open>
  A reset lets the conference outgrow its arrays.  \<open>reset\<close> sets the number of clients to zero but keeps the
  nodes.  When the conference had its four nodes, a further client is admitted after the reset as if there
  was room; the next turn of the thread stores a fifth picture behind the end of \<open>mMetas\<close>.
\<close>

theorem video_reset_overrun:
  assumes "video_sys e c s" "vClientNum (vconf s) = 2" "mCameraNum (vconf s) = 1" "mEncoderNum (vconf s) = 1"
    and "has_room 5 c" "n \<noteq> 0" "rc_alive (c n)" "is_render e n"
  shows "\<exists>st' w'. video_insertNode e n (snd (video_reset NO_ERROR (vconf s))) (vnodes s) = Ret (NO_ERROR, st', w') \<and>
    length (vNodeList st') = 5 \<and> (\<forall>pull. video_pull pull w' st' = Fault)"
proof -
  let ?st = "(vconf s)\<lparr>vClientNum := 0\<rparr>" and ?ns = "vNodeList (vconf s)"
  have i: "video_inv e (vconf s)" "video_types e" and w: "node_counted (vnodes s) (with_members c (mset (vNodeList ?st)))"
    using assms(1) by (simp_all add: video_sys_def video_ok_def)
  note m = video_members_alive [OF assms(1)]
  have len: "length ?ns = 4" using three_kinds [OF i(2), of ?ns] i(1) assms(2-4) by (simp add: video_inv_def)
  have z: "0 \<notin> set (vNodeList ?st)" using i(1) by (simp add: video_inv_def)
  have r: "has_room 1 (with_members c (mset (vNodeList ?st)))" using has_room_members [OF assms(5)] len by simp
  have ad: "admit e (nodeType e n) ?st = Room (?st\<lparr>vClientNum := 1\<rparr>)"
    using assms(8) by (simp add: admit_def is_render_def MAX_VIDEO_CLIENT_def c_int_id)
  obtain w' where w': "node_counted w' (with_members c (add_mset n (mset ?ns)))"
    "video_insertNode e n ?st (vnodes s) = Ret (NO_ERROR, ?st\<lparr>vClientNum := 1, vNodeList := placed e n ?ns\<rparr>, w')"
    using video_insertNode_ok [OF z w r assms(6,7), of e] ad by auto
  have "\<forall>k \<in> set (placed e n ?ns). k \<noteq> 0 \<and> obj (w' k)"
    using members_alive [OF w'(1)] m(1) assms(6,7) by auto
  then have "pull_pictures pull w' 0 (placed e n ?ns) (vRx (vconf s)) = Fault" for pull
    using pull_pictures_overrun m(3) len by simp
  then show ?thesis using w'(2) len by (simp add: video_reset_def status_defs video_pull_def)
qed

theorem video_reset_overrun_witness:
  "\<exists>st' w'. video_insertNode demo_video 5 (snd (video_reset NO_ERROR (vconf demo_show))) (vnodes demo_show) = Ret (NO_ERROR, st', w') \<and>
     (\<forall>pull. video_pull pull w' st' = Fault)"
proof -
  have "has_room 5 (\<lambda>_. Shared 1 0)" unfolding demo_video_ok(3) by simp
  moreover have "vClientNum (vconf demo_show) = 2" "mCameraNum (vconf demo_show) = 1" "mEncoderNum (vconf demo_show) = 1" "is_render demo_video 5"
    by (simp_all add: demo_show_def demo_video_def is_render_def)
  ultimately show ?thesis using video_reset_overrun [OF demo_show_sys, of 5] by fastforce
qed

text \<open>Audio nodes that reach the video conference are not ignored, as a comment in the code says, but counted as encoders.\<close>

lemma audio_node_admitted_as_encoder:
  assumes "video_types e" "mEncoderNum st = 0" "is_other e n"
  shows "admit e (nodeType e n) st = Room (st\<lparr>mEncoderNum := 1\<rparr>)"
  using assms by (auto simp: admit_def is_other_def is_render_def is_camera_def video_types_def MAX_VIDEO_ENCODER_def)

lemma video_dump_safe:
  assumes "video_sys e c s" "length junk = 1024" "case stream of None \<Rightarrow> True | Some x \<Rightarrow> io_inv x"
  shows "\<exists>x. video_dumpInfo fmt1 fmt2 junk (vnodes s) (vconf s) stream = Ret x \<and> io_inv x"
  unfolding video_dumpInfo_def
  by (rule dump_to_ok [of _ c "mset (vNodeList (vconf s))"])
    (use assms video_members_alive(1) [OF assms(1)] in \<open>auto simp: video_sys_def dump_nodes_def\<close>)

end
