(* ===== verification/Moh_Player.thy ===== *)
theory Moh_Player
  imports Meta_Buffer Status_Codes Io_Stream
begin

text \<open>
  \<open>libconf/MOHPlayer.cpp\<close>: the node that plays music to waiting callers, block by block from a file of
  samples, at the pace of its timer.  A file is its bytes and a position; \<open>fread\<close> stores the bytes it gets,
  returns the number of whole samples and sets the end-of-file flag when it gets fewer than it asks for.
  \<open>FS_HZ\<close> is defined in \<open>defines.h\<close>, which is not in the repository, and is a parameter, as are the clock,
  \<open>fopen\<close> and \<open>rand\<close>.
\<close>

section \<open>Model\<close>

unbundle bit_operations_syntax

record music =
  content :: "u8 list"
  pos :: nat
  eof :: bool

record moh =
  fpMusic :: "music option"
  fpWrite :: "u8 list option" \<comment> \<open>what has been recorded\<close>
  firstRun :: bool
  eventTime :: int
  eventSample :: u32
  timeStamp :: u32

definition GetTimeInMS :: "int \<Rightarrow> int \<Rightarrow> u32" where
  \<comment> \<open>for the seconds and microseconds of \<open>gettimeofday\<close>\<close>
  "GetTimeInMS sec usec = word_of_int (c_int (sec * 1000 + usec div 1000))"

definition SleepMs :: "int \<Rightarrow> int \<times> int" where
  \<comment> \<open>seconds and nanoseconds of the sleep, for a time that is not negative\<close>
  "SleepMs msecs = (msecs div 1000, (msecs mod 1000) * 1000 * 1000)"

definition fread :: "nat \<Rightarrow> music \<Rightarrow> nat \<times> u8 list \<times> music" where
  \<comment> \<open>\<open>fread(p, sizeof(int16_t), n, f)\<close>: the result, the bytes stored at \<open>p\<close> and the file\<close>
  "fread n f =
     (let bytes = take (2 * n) (drop (pos f) (content f))
      in (length bytes div 2, bytes, f\<lparr>pos := pos f + length bytes, eof := length bytes < 2 * n\<rparr>))"

definition fseek_set :: "nat \<Rightarrow> music \<Rightarrow> music" where
  "fseek_set p f = f\<lparr>pos := p, eof := False\<rparr>"

definition MOHPlayer_new :: "u32 \<Rightarrow> u32 \<Rightarrow> u32 \<Rightarrow> moh" where
  \<comment> \<open>the constructor; \<open>ts0\<close> is the uninitialised \<open>timeStamp\<close>\<close>
  "MOHPlayer_new FS_HZ timeInMs ts0 =
     \<lparr>fpMusic = None, fpWrite = None, firstRun = True, eventTime = sint timeInMs, eventSample = timeInMs * FS_HZ div 1000, timeStamp = ts0\<rparr>"

definition initOpen :: "u8 list option \<Rightarrow> bool \<Rightarrow> u32 \<Rightarrow> u32 \<Rightarrow> moh \<Rightarrow> moh" where
  \<comment> \<open>\<open>file\<close> is the content of the music file if \<open>fopen\<close> succeeds, \<open>rec\<close> whether the record file is opened, then two random numbers\<close>
  "initOpen file rec r1 r2 st =
     st\<lparr>fpMusic := map_option (\<lambda>bs. \<lparr>content = bs, pos = 0, eof = False\<rparr>) file, fpWrite := if rec then Some [] else None,
        timeStamp := push_bit 16 (r1 AND 0xFFFF) OR (r2 AND 0xFFFF)\<rparr>"

definition MOHPlayer_create :: "u32 \<Rightarrow> u32 \<Rightarrow> u32 \<Rightarrow> bool \<Rightarrow> u8 list option \<Rightarrow> bool \<Rightarrow> u32 \<Rightarrow> u32 \<Rightarrow> moh option" where
  \<comment> \<open>\<open>named\<close>: the name of the music file is not null\<close>
  "MOHPlayer_create FS_HZ timeInMs ts0 named file rec r1 r2 =
     (if \<not> named then None else Some (initOpen file rec r1 r2 (MOHPlayer_new FS_HZ timeInMs ts0)))"

definition moh_onStart :: "moh \<Rightarrow> int \<times> moh" where
  "moh_onStart st = (NO_ERROR, st\<lparr>firstRun := True\<rparr>)"

definition moh_onReset :: "moh \<Rightarrow> int \<times> moh" where
  "moh_onReset st = (NO_ERROR, st\<lparr>firstRun := True\<rparr>)"

definition write_data :: "u8 list \<Rightarrow> nat meta_buffer \<Rightarrow> nat meta_buffer outcome" where
  \<comment> \<open>bytes stored from \<open>data()\<close> on\<close>
  "write_data bytes mb = obind (access (store_bytes (mMem mb) (mRangeOffset mb) bytes)) (\<lambda>mem. Ret (mb\<lparr>mMem := mem\<rparr>))"

definition moh_sleep :: "u32 \<Rightarrow> moh \<Rightarrow> int option" where
  \<comment> \<open>the milliseconds \<open>pullMedia\<close> sleeps at the time \<open>now\<close>\<close>
  "moh_sleep now st =
     (if \<not> firstRun st then
        let timer = sint (now - timeStamp st) in if timer < eventTime st then Some (c_int (eventTime st - timer)) else None
      else None)"

definition play :: "nat \<Rightarrow> nat meta_buffer \<Rightarrow> music \<Rightarrow> (nat meta_buffer \<times> music) outcome" where
  \<comment> \<open>the reading of \<open>pullMedia\<close>; the arguments of \<open>fseek\<close> are swapped, but both are 0\<close>
  "play n mb f =
     (let (k, bytes, f1) = fread n f in
      obind (write_data bytes mb) (\<lambda>mb1.
      if k < n \<and> eof f1 then
        let (_, bytes2, f2) = fread n (fseek_set 0 f1) in obind (write_data bytes2 mb1) (\<lambda>mb2. Ret (mb2, f2))
      else Ret (mb1, f1)))"

definition moh_pullMedia ::
  "u32 \<Rightarrow> u32 \<Rightarrow> u32 \<Rightarrow> nat meta_buffer option \<Rightarrow> moh \<Rightarrow> token_pool \<Rightarrow> (int \<times> int option \<times> nat meta_buffer option \<times> moh \<times> token_pool) outcome" where
  \<comment> \<open>\<open>before\<close> and \<open>now\<close> are the times before the sleep and after reading; the result has the time slept\<close>
  "moh_pullMedia FS_HZ before now data st tp =
     (case data of
        None \<Rightarrow> Ret (BAD_VALUE, None, data, st, tp)
      | Some mb \<Rightarrow>
          if mCapacity mb < unat (eventSample st * 2) then Ret (BAD_VALUE, None, data, st, tp)
          else
            obind (write_data (replicate (unat (2 * eventSample st)) 0) mb) (\<lambda>mb1.
            let st1 = st\<lparr>firstRun := False\<rparr> in
            obind (case fpMusic st of
                     None \<Rightarrow> Ret (mb1, None)
                   | Some f \<Rightarrow> obind (play (unat (eventSample st)) mb1 f) (\<lambda>(mb2, f'). Ret (mb2, Some f'))) (\<lambda>(mb2, f').
            let st2 = st1\<lparr>fpMusic := f', timeStamp := now\<rparr>; ts = uint now * uint FS_HZ div 1000 in
            obind (access (mb_setInt64 atomize tp mb2 ''ntp-time'' ts)) (\<lambda>(tp1, mb3).
            obind (access (mb_setInt32 atomize tp1 mb3 ''samples'' (sint (eventSample st)))) (\<lambda>(tp2, mb4).
            Ret (NO_ERROR, moh_sleep before st, Some (mb_setRange 0 (unat (eventSample st * 2)) mb4), st2, tp2))))))"

definition moh_pushMedia :: "nat meta_buffer option \<Rightarrow> moh \<Rightarrow> (int \<times> moh) outcome" where
  "moh_pushMedia data st =
     (case data of
        None \<Rightarrow> Ret (BAD_VALUE, st)
      | Some mb \<Rightarrow>
          if mRangeLength mb \<noteq> unat (eventSample st * 2) then Ret (BAD_VALUE, st)
          else case fpWrite st of
                 None \<Rightarrow> Ret (NO_ERROR, st)
               | Some out \<Rightarrow>
                   if mRangeOffset mb + mRangeLength mb \<le> length (mMem mb)
                   then Ret (NO_ERROR, st\<lparr>fpWrite := Some (out @ take (mRangeLength mb) (drop (mRangeOffset mb) (mMem mb)))\<rparr>)
                   else Fault)"

text \<open>A sequence of calls with the same buffer; the range of the buffer after each.\<close>

fun moh_pulls ::
  "u32 \<Rightarrow> (u32 \<times> u32) list \<Rightarrow> nat meta_buffer \<Rightarrow> moh \<Rightarrow> token_pool \<Rightarrow> (u8 list list \<times> moh) outcome" where
  "moh_pulls FS_HZ [] mb st tp = Ret ([], st)"
| "moh_pulls FS_HZ ((before, now) # ts) mb st tp =
     obind (moh_pullMedia FS_HZ before now (Some mb) st tp) (\<lambda>(_, _, data, st1, tp1).
     case data of
       None \<Rightarrow> Fault
     | Some mb1 \<Rightarrow>
         obind (moh_pulls FS_HZ ts mb1 st1 tp1) (\<lambda>(bs, st2).
         Ret (take (mRangeLength mb1) (drop (mRangeOffset mb1) (mMem mb1)) # bs, st2)))"

section \<open>The music goes round\<close>

definition block :: "u8 list \<Rightarrow> nat \<Rightarrow> nat \<Rightarrow> u8 list" where
  "block bs S j = take (2 * S) (drop (j * (2 * S)) bs)"

definition next_block :: "nat \<Rightarrow> nat \<Rightarrow> nat" where
  "next_block n j = (if j < n then j else 0)"

lemma length_block: "(j + 1) * (2 * S) \<le> length bs \<Longrightarrow> length (block bs S j) = 2 * S"
  by (simp add: block_def)

lemma write_data_ok:
  assumes "mRangeOffset mb = 0" "length bytes \<le> length (mMem mb)"
  shows "write_data bytes mb = Ret (mb\<lparr>mMem := bytes @ drop (length bytes) (mMem mb)\<rparr>)"
  using assms by (simp add: write_data_def store_bytes_def)

lemma play_block:
  assumes "mRangeOffset mb = 0" "2 * S \<le> length (mMem mb)" "0 < S" "content f = bs" "pos f = j * (2 * S)" "j \<le> n" "0 < n" "n = length bs div (2 * S)"
  shows "\<exists>mem e. play S mb f = Ret (mb\<lparr>mMem := mem\<rparr>, f\<lparr>pos := Suc (next_block n j) * (2 * S), eof := e\<rparr>) \<and>
    length mem = length (mMem mb) \<and> take (2 * S) mem = block bs S (next_block n j)"
proof -
  have n: "n * (2 * S) \<le> length bs" "length bs < Suc n * (2 * S)"
    using assms(3,8) div_times_less_eq_dividend [of "length bs" "2 * S"] dividend_less_div_times [of "2 * S" "length bs"] by simp_all
  let ?bytes = "take (2 * S) (drop (j * (2 * S)) bs)"
  let ?mem = "?bytes @ drop (length ?bytes) (mMem mb)"
  have w: "write_data ?bytes mb = Ret (mb\<lparr>mMem := ?mem\<rparr>)" using assms(1,2) by (intro write_data_ok) simp_all
  show ?thesis
  proof (cases "j < n")
    case True
    then have "(j + 1) * (2 * S) \<le> n * (2 * S)" by (intro mult_right_mono) simp_all
    then have l: "length ?bytes = 2 * S" using n(1) length_block [of j S bs] by (simp add: block_def)
    then show ?thesis using True w assms(2,4,5)
      by (intro exI [of _ ?mem] exI [of _ False])
        (simp add: play_def fread_def Let_def next_block_def block_def)
  next
    case False
    then have j: "j = n" using assms(6) by simp
    have "length bs < 2 * S + n * (2 * S)" using n(2) by simp
    then have "length bs - n * (2 * S) < 2 * S" using assms(3) by linarith
    then have l: "length ?bytes < 2 * S" using j by simp
    have l0: "length (block bs S 0) = 2 * S" using n(1) assms(7) by (intro length_block) (simp add: mult_le_mono1 order_trans [of _ "n * (2 * S)"])
    let ?mem2 = "block bs S 0 @ drop (2 * S) ?mem"
    have "write_data (block bs S 0) (mb\<lparr>mMem := ?mem\<rparr>) = Ret (mb\<lparr>mMem := ?mem2\<rparr>)"
      using l0 l assms(1,2) by (subst write_data_ok) simp_all
    moreover have "length ?bytes div 2 < S" using l by linarith
    ultimately show ?thesis using j w l l0 assms(2-5)
      by (intro exI [of _ ?mem2] exI [of _ False])
        (simp add: play_def fread_def fseek_set_def Let_def next_block_def block_def)
  qed
qed

definition play_ok :: "(string \<rightharpoonup> nat) \<Rightarrow> nat \<Rightarrow> nat meta_buffer \<Rightarrow> bool" where
  \<comment> \<open>a buffer with memory for a block that has the two values or room for them\<close>
  "play_ok m S mb \<longleftrightarrow> mRangeOffset mb = 0 \<and> 2 * S \<le> mCapacity mb \<and> 2 * S \<le> length (mMem mb) \<and>
     (\<exists>f. mb_rep m mb f \<and> (f ''ntp-time'' \<noteq> None \<and> f ''samples'' \<noteq> None \<or> mNumItems mb + 2 \<le> kMaxNumItems))"

lemma set_two_values:
  assumes "pool_rep tp m" "m ''ntp-time'' = Some p" "m ''samples'' = Some q" "play_ok m S mb"
  shows "\<exists>mb1 mb2. mb_setInt64 atomize tp mb ''ntp-time'' ts = Some (tp, mb1) \<and> mb_setInt32 atomize tp mb1 ''samples'' k = Some (tp, mb2) \<and>
    mMem mb2 = mMem mb \<and> play_ok m S mb2"
proof -
  obtain f where f: "mb_rep m mb f" "f ''ntp-time'' \<noteq> None \<and> f ''samples'' \<noteq> None \<or> mNumItems mb + 2 \<le> kMaxNumItems"
    using assms(4) by (auto simp: play_ok_def)
  have "f ''ntp-time'' \<noteq> None \<or> mNumItems mb < kMaxNumItems" using f(2) by auto
  then obtain mb1 where 1: "basic_set atomize (Int64Value ts) tp mb ''ntp-time'' = Some (tp, mb1)" "mb_rep m mb1 (f(''ntp-time'' \<mapsto> Int64Value ts))"
    "mb_frame mb mb1" "mNumItems mb1 \<le> Suc (mNumItems mb)"
    using tok.set_named [OF assms(1,2) f(1) tok.atom_known [OF assms(1,2)]] by blast
  let ?f = "f(''ntp-time'' \<mapsto> Int64Value ts)"
  have "?f ''samples'' \<noteq> None \<or> mNumItems mb1 < kMaxNumItems" using f(2) 1(4) by auto
  then obtain mb2 where 2: "basic_set atomize (Int32Value k) tp mb1 ''samples'' = Some (tp, mb2)" "mb_rep m mb2 (?f(''samples'' \<mapsto> Int32Value k))"
    "mb_frame mb1 mb2"
    using tok.set_named [OF assms(1,3) 1(2) tok.atom_known [OF assms(1,3)]] by blast
  have "\<exists>f. mb_rep m mb2 f \<and> (f ''ntp-time'' \<noteq> None \<and> f ''samples'' \<noteq> None \<or> mNumItems mb2 + 2 \<le> kMaxNumItems)"
    using 2(2) by (intro exI [of _ "?f(''samples'' \<mapsto> Int32Value k)"]) simp
  then show ?thesis using 1 2 assms(4) by (auto simp: mb_setInt64_def mb_setInt32_def mb_frame_def play_ok_def)
qed

lemma play_ok_mem: "length mem = length (mMem mb) \<Longrightarrow> play_ok m S (mb\<lparr>mMem := mem\<rparr>) = play_ok m S mb"
  "play_ok m S mb \<Longrightarrow> play_ok m S (mb_setRange 0 len mb)"
  by (simp_all add: play_ok_def mb_rep_def mb_setRange_def)

lemma moh_pull_block:
  assumes "pool_rep tp m" "m ''ntp-time'' = Some p" "m ''samples'' = Some q" "play_ok m S mb" "S = unat (eventSample st)" "0 < S" "2 * S < 2 ^ 32"
    "fpMusic st = Some f" "content f = bs" "pos f = j * (2 * S)" "j \<le> n" "0 < n" "n = length bs div (2 * S)"
  shows "\<exists>mb' f'. moh_pullMedia FS_HZ before now (Some mb) st tp =
      Ret (NO_ERROR, moh_sleep before st, Some mb', st\<lparr>firstRun := False, fpMusic := Some f', timeStamp := now\<rparr>, tp) \<and>
    play_ok m S mb' \<and> take (mRangeLength mb') (drop (mRangeOffset mb') (mMem mb')) = block bs S (next_block n j) \<and>
    content f' = bs \<and> pos f' = Suc (next_block n j) * (2 * S)"
proof -
  have u: "unat (eventSample st * 2) = 2 * S" "unat (2 * eventSample st) = 2 * S"
    using assms(5,7) by (simp_all add: unat_word_ariths)
  have ok: "mRangeOffset mb = 0" "2 * S \<le> mCapacity mb" "2 * S \<le> length (mMem mb)" using assms(4) by (simp_all add: play_ok_def)
  let ?mem1 = "replicate (2 * S) 0 @ drop (2 * S) (mMem mb)" and ?mb1 = "mb\<lparr>mMem := replicate (2 * S) 0 @ drop (2 * S) (mMem mb)\<rparr>"
  have w: "write_data (replicate (2 * S) 0) mb = Ret ?mb1" using ok by (subst write_data_ok) simp_all
  obtain mem e where pl: "play S ?mb1 f = Ret (?mb1\<lparr>mMem := mem\<rparr>, f\<lparr>pos := Suc (next_block n j) * (2 * S), eof := e\<rparr>)"
    "length mem = length (mMem mb)" "take (2 * S) mem = block bs S (next_block n j)"
    using play_block [of ?mb1 S f bs j n] ok assms(6,9-13) by auto
  have "play_ok m S (mb\<lparr>mMem := mem\<rparr>)" using assms(4) play_ok_mem(1) [OF pl(2)] by simp
  then obtain mb3 mb4 where v: "mb_setInt64 atomize tp (mb\<lparr>mMem := mem\<rparr>) ''ntp-time'' (uint now * uint FS_HZ div 1000) = Some (tp, mb3)"
    "mb_setInt32 atomize tp mb3 ''samples'' (sint (eventSample st)) = Some (tp, mb4)" "mMem mb4 = mem" "play_ok m S mb4"
    using set_two_values [OF assms(1-3)] by fastforce
  show ?thesis using w pl v u ok assms(5,8,9) play_ok_mem(2) [OF v(4)]
    by (intro exI [of _ "mb_setRange 0 (2 * S) mb4"] exI [of _ "f\<lparr>pos := Suc (next_block n j) * (2 * S), eof := e\<rparr>"])
      (simp add: moh_pullMedia_def Let_def mb_setRange_def)
qed

lemma next_block_mod:
  assumes "0 < n"
  shows "next_block n (if k = 0 then 0 else Suc ((k - 1) mod n)) = k mod n"
proof (cases k)
  case (Suc i)
  have "i mod n < n" using assms by simp
  then have "\<not> Suc (i mod n) < n \<longleftrightarrow> Suc (i mod n) = n" by linarith
  then show ?thesis using Suc by (simp add: next_block_def mod_Suc)
qed (use assms in \<open>simp add: next_block_def\<close>)

lemma moh_pulls_blocks:
  assumes "pool_rep tp m" "m ''ntp-time'' = Some p" "m ''samples'' = Some q" "0 < S" "2 * S < 2 ^ 32" "0 < n" "n = length bs div (2 * S)"
    "play_ok m S mb" "S = unat (eventSample st)" "fpMusic st = Some f" "content f = bs"
    "pos f = (if k = 0 then 0 else Suc ((k - 1) mod n)) * (2 * S)"
  shows "\<exists>st'. moh_pulls FS_HZ ts mb st tp = Ret (map (\<lambda>i. block bs S ((k + i) mod n)) [0..<length ts], st')"
  using assms(8-12)
proof (induction ts arbitrary: mb st f k)
  case (Cons t ts)
  obtain before now where t: "t = (before, now)" by fastforce
  let ?j = "if k = 0 then 0 else Suc ((k - 1) mod n)"
  have j: "?j \<le> n" using assms(6) by (simp add: Suc_le_eq)
  obtain mb' f' where 1: "moh_pullMedia FS_HZ before now (Some mb) st tp =
      Ret (NO_ERROR, moh_sleep before st, Some mb', st\<lparr>firstRun := False, fpMusic := Some f', timeStamp := now\<rparr>, tp)"
    "play_ok m S mb'" "take (mRangeLength mb') (drop (mRangeOffset mb') (mMem mb')) = block bs S (k mod n)"
    "content f' = bs" "pos f' = Suc (k mod n) * (2 * S)"
    using moh_pull_block [OF assms(1-3) Cons.prems(1,2) assms(4,5) Cons.prems(3,4,5) j assms(6,7)] next_block_mod [OF assms(6), of k] by fastforce
  obtain st' where 2: "moh_pulls FS_HZ ts mb' (st\<lparr>firstRun := False, fpMusic := Some f', timeStamp := now\<rparr>) tp =
      Ret (map (\<lambda>i. block bs S ((Suc k + i) mod n)) [0..<length ts], st')"
    using Cons.IH [OF 1(2), of "st\<lparr>firstRun := False, fpMusic := Some f', timeStamp := now\<rparr>" f' "Suc k"] Cons.prems(2) 1(4,5) by auto
  have "map (\<lambda>i. block bs S ((k + i) mod n)) [0..<length (t # ts)] = block bs S (k mod n) # map (\<lambda>i. block bs S ((Suc k + i) mod n)) [0..<length ts]"
    by (simp add: map_upt_Suc del: upt_Suc)
  then show ?case using 1(1,3) 2 t by simp
qed simp

text \<open>
  Music on hold goes round.  A player whose music file has at least one block delivers with every call
  of \<open>pullMedia\<close> the next whole block of the file, and after the last whole block the first one again: the
  call number \<open>i\<close> delivers the block \<open>i mod n\<close> of the \<open>n\<close> blocks.  Bytes behind the last whole block are
  never delivered.  The buffer may be the same in all calls, and the times of the calls do not matter.
\<close>

theorem music_goes_round:
  assumes "pool_rep tp m" "m ''ntp-time'' = Some p" "m ''samples'' = Some q" "S = unat (timeInMs * FS_HZ div 1000)" "0 < S" "2 * S < 2 ^ 32"
    and "2 * S \<le> length bs" "play_ok m S mb" "MOHPlayer_create FS_HZ timeInMs ts0 True (Some bs) rec r1 r2 = Some st"
  shows "\<exists>st'. moh_pulls FS_HZ ts mb st tp = Ret (map (\<lambda>i. block bs S (i mod (length bs div (2 * S)))) [0..<length ts], st')"
proof -
  have "0 < length bs div (2 * S)" using assms(5,7) by (simp add: div_greater_zero_iff)
  moreover have "S = unat (eventSample st)" "fpMusic st = Some \<lparr>content = bs, pos = 0, eof = False\<rparr>"
    using assms(4,9) by (auto simp: MOHPlayer_create_def initOpen_def MOHPlayer_new_def)
  ultimately show ?thesis
    using moh_pulls_blocks [OF assms(1-3,5,6) _ refl assms(8), where st = st and k = 0] by simp
qed

definition moh_names :: "(string \<times> nat) list" where
  "moh_names = [(''ntp-time'', 0), (''samples'', 9)]"

definition moh_pool :: token_pool where
  "moh_pool = \<lparr>mRows = map (\<lambda>i. map (\<lambda>(n, p). Some p) (filter (\<lambda>(n, p). row_of n = i) moh_names)) [0..<128],
     tokenBuffer = (\<lambda>k. (''ntp-time'' @ [CHR 0x00] @ ''samples'' @ [CHR 0x00]) ! k), bufferPtr = 17\<rparr>"

lemma moh_pool_rep: "pool_rep moh_pool (map_of moh_names)"
proof -
  have "pool_list moh_pool moh_names"
    unfolding pool_list_def moh_pool_def
    by (simp add: CONST_TOKENPOOL_ROWS_def CONST_TOKENPOOL_SIZE_def) (simp add: moh_names_def name_ok_def)
  then show ?thesis unfolding pool_rep_def by blast
qed

theorem music_goes_round_witness:
  "\<exists>st st'. MOHPlayer_create 1000 1 0 True (Some [1, 2, 3, 4, 5]) False 0 0 = Some st \<and>
     moh_pulls 1000 [(0, 0), (0, 1), (1, 2)] (MetaBuffer_wrap [0, 0] demo_junk 2 None) st moh_pool = Ret ([[1, 2], [3, 4], [1, 2]], st')"
proof -
  let ?mb = "MetaBuffer_wrap [0, 0] demo_junk 2 None" and ?bs = "[1, 2, 3, 4, 5] :: u8 list"
  obtain st where st: "MOHPlayer_create 1000 1 0 True (Some ?bs) False 0 0 = Some st" by (simp add: MOHPlayer_create_def)
  have "mb_rep (map_of moh_names) ?mb Map.empty"
    by (rule mb_rep_empty) (simp_all add: MetaBuffer_wrap_def demo_junk_def kMaxNumItems_def)
  then have ok: "play_ok (map_of moh_names) 1 ?mb" by (auto simp: play_ok_def MetaBuffer_wrap_def kMaxNumItems_def)
  have n: "map_of moh_names ''ntp-time'' = Some 0" "map_of moh_names ''samples'' = Some 9" by (simp_all add: moh_names_def)
  have w: "(1 :: nat) = unat ((1 :: u32) * 1000 div 1000)" by simp
  have "\<exists>st'. moh_pulls 1000 [(0, 0), (0, 1), (1, 2)] ?mb st moh_pool =
      Ret (map (\<lambda>i. block ?bs 1 (i mod (length ?bs div (2 * 1)))) [0..<length [(0, 0), (0, 1), (1 :: u32, 2 :: u32)]], st')"
    by (rule music_goes_round [OF moh_pool_rep n w _ _ _ ok st]) simp_all
  then show ?thesis using st by (auto simp: block_def)
qed

text \<open>Without a music file the player delivers silence, whatever the buffer had before.\<close>

lemma no_music_is_silence:
  assumes "pool_rep tp m" "m ''ntp-time'' = Some p" "m ''samples'' = Some q" "play_ok m S mb" "S = unat (eventSample st)" "2 * S < 2 ^ 32" "fpMusic st = None"
  shows "\<exists>mb' st'. moh_pullMedia FS_HZ before now (Some mb) st tp = Ret (NO_ERROR, moh_sleep before st, Some mb', st', tp) \<and>
    take (mRangeLength mb') (drop (mRangeOffset mb') (mMem mb')) = replicate (2 * S) 0"
proof -
  have u: "unat (eventSample st * 2) = 2 * S" "unat (2 * eventSample st) = 2 * S"
    using assms(5,6) by (simp_all add: unat_word_ariths)
  have ok: "mRangeOffset mb = 0" "2 * S \<le> mCapacity mb" "2 * S \<le> length (mMem mb)" using assms(4) by (simp_all add: play_ok_def)
  let ?mem = "replicate (2 * S) 0 @ drop (2 * S) (mMem mb)"
  have w: "write_data (replicate (2 * S) 0) mb = Ret (mb\<lparr>mMem := ?mem\<rparr>)" using ok by (subst write_data_ok) simp_all
  have "play_ok m S (mb\<lparr>mMem := ?mem\<rparr>)" using assms(4) ok(3) play_ok_mem(1) [of ?mem mb m S] by simp
  then obtain mb3 mb4 where v: "mb_setInt64 atomize tp (mb\<lparr>mMem := ?mem\<rparr>) ''ntp-time'' (uint now * uint FS_HZ div 1000) = Some (tp, mb3)"
    "mb_setInt32 atomize tp mb3 ''samples'' (sint (eventSample st)) = Some (tp, mb4)" "mMem mb4 = ?mem"
    using set_two_values [OF assms(1-3)] by fastforce
  show ?thesis using w v u ok assms(7)
    by (intro exI [of _ "mb_setRange 0 (2 * S) mb4"] exI [of _ "st\<lparr>firstRun := False, fpMusic := None, timeStamp := now\<rparr>"])
      (simp add: moh_pullMedia_def Let_def mb_setRange_def)
qed

text \<open>
  The wait of \<open>pullMedia\<close>: a call that comes \<open>d\<close> milliseconds after the last one sleeps for the rest of the event
  time, and a call after the event time does not sleep, as long as the clock has not run for 24 days.
\<close>

lemma moh_sleep_rest:
  assumes "\<not> firstRun st" "0 \<le> eventTime st" "is_int (eventTime st)" "0 \<le> d" "d < 2 ^ 31"
  shows "moh_sleep (timeStamp st + word_of_int d) st = (if d < eventTime st then Some (eventTime st - d) else None)"
proof -
  have "sint (word_of_int d :: u32) = d" using assms(4,5) by (simp add: signed_of_int signed_take_bit_int_eq_self)
  then show ?thesis using assms by (simp add: moh_sleep_def Let_def c_int_id)
qed

text \<open>What is pushed is recorded after what was recorded before; a buffer of another size is refused.\<close>

lemma moh_records:
  assumes "fpWrite st = Some out" "mRangeOffset mb + mRangeLength mb \<le> length (mMem mb)"
  shows "moh_pushMedia (Some mb) st =
    (if mRangeLength mb = unat (eventSample st * 2)
     then Ret (NO_ERROR, st\<lparr>fpWrite := Some (out @ take (mRangeLength mb) (drop (mRangeOffset mb) (mMem mb)))\<rparr>)
     else Ret (BAD_VALUE, st))"
  using assms by (simp add: moh_pushMedia_def)

text \<open>
  \<open>pullMedia\<close> compares the capacity of the buffer with the size of a block but stores from \<open>data()\<close> on: a
  buffer that is just large enough and whose range starts behind its beginning is overrun.
\<close>

lemma moh_offset_overrun:
  assumes "mCapacity mb = length (mMem mb)" "unat (eventSample st * 2) = length (mMem mb)" "0 < mRangeOffset mb"
  shows "moh_pullMedia FS_HZ before now (Some mb) st tp = Fault"
  using assms by (simp add: moh_pullMedia_def write_data_def store_bytes_def mult.commute [of 2])

end
