(* ===== verification/Waiting_Room.thy ===== *)
theory Waiting_Room
  imports Conf_Nodes Moh_Player
begin

text \<open>
  \<open>libconf/WaitingRoom.cpp\<close>: the conference of the callers on hold.  Its first node plays music
  (\<open>Moh_Player\<close>); every turn of the thread pulls a block from it and pushes the block to all others, what
  they say is thrown away.  Audio and video nodes are in two lists; the order is that of arrival.  \<open>EVENT_SAMPLES\<close>
  and \<open>EVENTTIME_US\<close> are defined in \<open>defines.h\<close>, which is not in the repository, and are parameters, as are
  the functions of the nodes: a status and the buffer after the call.
\<close>

section \<open>Model\<close>

record waiting_room =
  mMedia :: nat \<comment> \<open>the player, 0 is null\<close>
  mAudioNum :: int
  mVideoNum :: int
  wClientNum :: int
  mVideoList :: "nat list"
  mAudioList :: "nat list"

record wait_env = media_if +
  W_SAMPLES :: nat \<comment> \<open>\<open>EVENT_SAMPLES\<close>\<close>
  wpull :: "nat \<Rightarrow> nat meta_buffer \<Rightarrow> int \<times> nat meta_buffer"
  wpush :: "nat \<Rightarrow> nat meta_buffer \<Rightarrow> int \<times> nat meta_buffer"

subsection \<open>Construction and control\<close>

definition WaitingRoom_new :: waiting_room where
  "WaitingRoom_new = \<lparr>mMedia = 0, mAudioNum = 0, mVideoNum = 0, wClientNum = 0, mVideoList = [], mAudioList = []\<rparr>"

definition room_initMixer :: "nat \<Rightarrow> waiting_room \<Rightarrow> nodes \<Rightarrow> (int \<times> waiting_room \<times> nodes) outcome" where
  \<comment> \<open>\<open>player\<close> is what \<open>MOHPlayer::create\<close> returns; the member and the list take a reference each\<close>
  "room_initMixer player st w =
     (if player = 0 then Ret (UNKNOWN_ERROR, st, w)
      else obind (node_do incStrong player w) (\<lambda>w1.
           obind (node_do incStrong player w1) (\<lambda>w2.
           Ret (NO_ERROR, st\<lparr>mMedia := player, mAudioList := player # mAudioList st\<rparr>, w2))))"

definition room_reset :: "(nat \<Rightarrow> int) \<Rightarrow> waiting_room \<Rightarrow> nodes \<Rightarrow> (int \<times> bool) outcome" where
  \<comment> \<open>the status and whether the thread is asked to end; \<open>res\<close> is the result of the player's \<open>reset\<close>\<close>
  "room_reset res st w =
     obind (call_node (mMedia st) w (res (mMedia st))) (\<lambda>err. Ret (if err \<noteq> NO_ERROR then (err, False) else (NO_ERROR, True)))"

definition room_start :: "(nat \<Rightarrow> int) \<Rightarrow> int \<Rightarrow> waiting_room \<Rightarrow> nodes \<Rightarrow> (int \<times> bool) outcome" where
  \<comment> \<open>the status and whether the thread is started; \<open>res\<close> is the result of the player's \<open>start\<close>, \<open>run\<close> that of \<open>run()\<close>\<close>
  "room_start res run st w =
     obind (call_node (mMedia st) w (res (mMedia st))) (\<lambda>err. Ret (if err \<noteq> NO_ERROR then (err, False) else (run, True)))"

definition room_destroy :: "(nat \<Rightarrow> int) \<Rightarrow> waiting_room \<Rightarrow> nodes \<Rightarrow> (waiting_room \<times> nodes) outcome" where
  "room_destroy res st w =
     obind (room_reset res st w) (\<lambda>_.
     obind (if mMedia st = 0 then Ret w else node_do decStrong (mMedia st) w) (\<lambda>w1.
     obind (release_nodes (mAudioList st) w1) (\<lambda>w2.
     obind (release_nodes (mVideoList st) w2) (\<lambda>w3.
     Ret (\<lparr>mMedia = 0, mAudioNum = 0, mVideoNum = 0, wClientNum = 0, mVideoList = [], mAudioList = []\<rparr>, w3)))))"

definition room_create :: "(nat \<Rightarrow> int) \<Rightarrow> nat \<Rightarrow> nodes \<Rightarrow> (waiting_room option \<times> nodes) outcome" where
  "room_create res player w =
     obind (room_initMixer player WaitingRoom_new w) (\<lambda>(err, st, w1).
     if err \<noteq> NO_ERROR then obind (room_destroy res st w1) (\<lambda>(_, w2). Ret (None, w2)) else Ret (Some st, w1))"

subsection \<open>Members\<close>

definition room_insertNode :: "('a media_if_scheme) \<Rightarrow> waiting_room member_op" where
  \<comment> \<open>\<open>doInsertNode\<close>\<close>
  "room_insertNode e node st w =
     (if node = 0 then Ret (BAD_VALUE, st, w)
      else
        obind (call_node node w (nodeType e node)) (\<lambda>t.
        if t = NODE_A_IP_CODEC e then
          obind (node_do incStrong node w) (\<lambda>w1.
          Ret (NO_ERROR, st\<lparr>mAudioList := mAudioList st @ [node], mAudioNum := c_int (mAudioNum st + 1), wClientNum := c_int (wClientNum st + 1)\<rparr>, w1))
        else if t = NODE_V_IP_RENDER e then
          obind (node_do incStrong node w) (\<lambda>w1.
          Ret (NO_ERROR, st\<lparr>mVideoList := mVideoList st @ [node], mVideoNum := c_int (mVideoNum st + 1), wClientNum := c_int (wClientNum st + 1)\<rparr>, w1))
        else Ret (NO_ERROR, st, w)))"

definition room_removeNode :: "('a media_if_scheme) \<Rightarrow> waiting_room member_op" where
  \<comment> \<open>\<open>doRemoveNode\<close>\<close>
  "room_removeNode e node st w =
     (if node = 0 then Ret (BAD_VALUE, st, w)
      else
        obind (call_node node w (nodeType e node)) (\<lambda>t.
        if t = NODE_A_IP_CODEC e then
          obind (if node \<in> set (mAudioList st) then
                   obind (node_do decStrong node w) (\<lambda>w1.
                   Ret (st\<lparr>mAudioList := remove1 node (mAudioList st), mAudioNum := c_int (mAudioNum st - 1)\<rparr>, w1))
                 else Ret (st, w)) (\<lambda>(st1, w1). Ret (NO_ERROR, st1\<lparr>wClientNum := c_int (wClientNum st1 - 1)\<rparr>, w1))
        else if t = NODE_V_IP_RENDER e then
          obind (if node \<in> set (mVideoList st) then
                   obind (node_do decStrong node w) (\<lambda>w1.
                   Ret (st\<lparr>mVideoList := remove1 node (mVideoList st), mVideoNum := c_int (mVideoNum st - 1)\<rparr>, w1))
                 else Ret (st, w)) (\<lambda>(st1, w1). Ret (NO_ERROR, st1\<lparr>wClientNum := c_int (wClientNum st1 - 1)\<rparr>, w1))
        else Ret (BAD_VALUE, st, w)))"

subsection \<open>A turn of the thread\<close>

fun serve :: "wait_env \<Rightarrow> nodes \<Rightarrow> nat list \<Rightarrow> nat meta_buffer \<Rightarrow> nat meta_buffer \<Rightarrow>
    ((nat \<times> nat meta_buffer) list \<times> nat meta_buffer \<times> nat meta_buffer) outcome" where
  \<comment> \<open>the loop from the second node on: what each node is given, \<open>_buffer\<close> and \<open>_trash\<close>\<close>
  "serve e w [] mb trash = Ret ([], mb, trash)"
| "serve e w (n # ns) mb trash =
     obind (call_node n w (wpull e n trash)) (\<lambda>(_, trash1).
     obind (call_node n w (wpush e n mb)) (\<lambda>(_, mb1).
     obind (serve e w ns mb1 trash1) (\<lambda>(ps, mb2, trash2). Ret ((n, mb) # ps, mb2, trash2))))"

definition room_turn :: "wait_env \<Rightarrow> nodes \<Rightarrow> waiting_room \<Rightarrow> nat meta_buffer \<Rightarrow> nat meta_buffer \<Rightarrow>
    ((nat \<times> nat meta_buffer) list \<times> nat meta_buffer \<times> nat meta_buffer) outcome" where
  \<comment> \<open>the critical section of \<open>threadLoop\<close>\<close>
  "room_turn e w st mb trash =
     (case mAudioList st of
        [] \<Rightarrow> Ret ([], mb, trash)
      | p # ns \<Rightarrow>
          obind (call_node p w (wpull e p mb)) (\<lambda>(err, mb1).
          serve e w ns (if err \<noteq> NO_ERROR then mb1\<lparr>mMem := replicate (2 * W_SAMPLES e) 0\<rparr> else mb1) trash))"

definition wait_time :: "int \<Rightarrow> int \<times> int \<Rightarrow> int \<times> int \<Rightarrow> int \<times> int" where
  \<comment> \<open>\<open>waitTime\<close> at the end of a turn that began and ended at these times\<close>
  "wait_time EVENTTIME_US begun ended =
     (let sec = fst begun - fst ended; usec = snd begun + EVENTTIME_US - snd ended;
          (sec1, usec1) = (if usec < 0 then (sec - 1, usec + 1000000) else (sec, usec))
      in if sec1 < 0 then (0, 0) else (sec1, usec1))"

record room_input = \<comment> \<open>what the outside contributes to a turn\<close>
  r_exit :: bool
  r_env :: wait_env
  r_begun :: "int \<times> int"
  r_ended :: "int \<times> int"

fun room_turns :: "int \<Rightarrow> room_input list \<Rightarrow> nodes \<Rightarrow> waiting_room \<Rightarrow> nat meta_buffer \<Rightarrow> nat meta_buffer \<Rightarrow>
    ((nat \<times> nat meta_buffer) list \<times> (int \<times> int) list) outcome" where
  \<comment> \<open>the \<open>while\<close> loop along its inputs: what the nodes are given, and the waits between the turns\<close>
  "room_turns ev [] w st mb trash = Ret ([], [])"
| "room_turns ev (x # xs) w st mb trash =
     (if r_exit x then Ret ([], [])
      else obind (room_turn (r_env x) w st mb trash) (\<lambda>(ps, mb1, trash1).
           obind (room_turns ev xs w st mb1 trash1) (\<lambda>(qs, waits). Ret (ps @ qs, wait_time ev (r_begun x) (r_ended x) # waits))))"

definition room_threadLoop :: "int \<Rightarrow> nat \<Rightarrow> nat mb_item list \<Rightarrow> u8 list \<Rightarrow> (nat \<Rightarrow> u8 list option) \<Rightarrow> room_input list \<Rightarrow> nodes \<Rightarrow> waiting_room \<Rightarrow>
    ((nat \<times> nat meta_buffer) list \<times> (int \<times> int) list) outcome" where
  \<comment> \<open>\<open>stack\<close> is the uninitialised array \<open>buffer\<close>; for a null \<open>_trash\<close> the nodes get a null pointer, which is outside of the model\<close>
  "room_threadLoop ev S junk stack malloc xs w st =
     (case (MetaBuffer_create malloc junk (2 * S) (Some stack) None, MetaBuffer_create malloc junk 4096 None None) of
        (Some mb, Some trash) \<Rightarrow> room_turns ev xs w st mb trash
      | _ \<Rightarrow> Fault)"

subsection \<open>Printing\<close>

definition room_dumpInfo :: "u8 list option \<Rightarrow> u8 list option \<Rightarrow> (int \<Rightarrow> u8 list option) \<Rightarrow> (int \<Rightarrow> u8 list option) \<Rightarrow> (nat \<Rightarrow> u8 list option) \<Rightarrow>
    u8 list \<Rightarrow> nodes \<Rightarrow> waiting_room \<Rightarrow> ioStream option \<Rightarrow> ioStream outcome" where
  \<comment> \<open>the texts: the ruler with and without the end of a line, the heads of the two lists and a node\<close>
  "room_dumpInfo ruler ruler2 fmtA fmtV fmt junk w st stream =
     dump_to junk (mAudioList st @ mVideoList st) w
       (\<lambda>local. [Print ruler, Print (fmtA (mAudioNum st))] @ dump_nodes fmt (mAudioList st) @ [Seek (- 3) SEEK_CUR, Putc 10] @
          [Print (fmtV (mVideoNum st))] @ dump_nodes fmt (mVideoList st) @ [Seek (- 3) SEEK_CUR, Putc 10] @
          [Print ruler2] @ (if local then [] else [Putc 10])) stream"

section \<open>Members\<close>

definition room_members :: "waiting_room \<Rightarrow> nat multiset" where
  \<comment> \<open>what the room has references to: the lists, and the player once more\<close>
  "room_members st = add_mset (mMedia st) (mset (mAudioList st) + mset (mVideoList st))"

definition room_inv :: "waiting_room \<Rightarrow> bool" where
  "room_inv st \<longleftrightarrow> mMedia st \<noteq> 0 \<and> 0 \<notin> set (mAudioList st) \<and> 0 \<notin> set (mVideoList st)"

lemma room_insert_law:
  assumes "room_inv st" "node_counted w (with_members c (room_members st))" "has_room 1 (with_members c (room_members st))" "n \<noteq> 0" "rc_alive (c n)"
  shows "\<exists>err st' w'. room_insertNode e n st w = Ret (err, st', w') \<and> room_inv st' \<and> node_counted w' (with_members c (room_members st')) \<and>
    (room_members st' = room_members st \<or> room_members st' = add_mset n (room_members st))"
proof -
  obtain w' where w': "node_do incStrong n w = Ret w'" "node_counted w' (with_members c (add_mset n (room_members st)))"
    using node_take [OF assms(2) has_room_less [OF assms(3)] assms(5,4)] by auto
  have t: "call_node n w t = Ret t" for t :: int using call_node_ok [OF assms(2), of n t] assms(4,5) by simp
  show ?thesis using w' assms(1,2,4) by (auto simp: room_insertNode_def t room_inv_def room_members_def add_mset_commute)
qed

lemma room_remove_law:
  assumes "room_inv st" "node_counted w (with_members c (room_members st))" "has_room 0 (with_members c (room_members st))" "n \<noteq> 0" "rc_strong (c n) > 0"
  shows "\<exists>err st' w'. room_removeNode e n st w = Ret (err, st', w') \<and> room_inv st' \<and> node_counted w' (with_members c (room_members st')) \<and>
    (room_members st' = room_members st \<or> room_members st' = room_members st - {#n#})"
proof -
  have t: "call_node n w t = Ret t" for t :: int using call_node_ok [OF assms(2), of n t] assms(4) rc_strong_alive [OF assms(5)] by simp
  have d: "\<exists>w'. node_do decStrong n w = Ret w' \<and> node_counted w' (with_members c (room_members st - {#n#}))"
    if "n \<in> set (mAudioList st) \<or> n \<in> set (mVideoList st)"
    using node_drop [OF assms(2,3,5,4)] that by (auto simp: room_members_def)
  have r: "room_members (st\<lparr>mAudioList := remove1 n (mAudioList st), mAudioNum := x, wClientNum := y\<rparr>) = room_members st - {#n#}"
    if "n \<in> set (mAudioList st)" for x y using that by (simp add: room_members_def)
  have v: "room_members (st\<lparr>mVideoList := remove1 n (mVideoList st), mVideoNum := x, wClientNum := y\<rparr>) = room_members st - {#n#}"
    if "n \<in> set (mVideoList st)" for x y using that by (simp add: room_members_def)
  have i: "0 \<notin> set (remove1 n (mAudioList st))" "0 \<notin> set (remove1 n (mVideoList st))"
    using assms(1) by (auto simp: room_inv_def dest: notin_set_remove1)
  have s: "room_members (st\<lparr>wClientNum := y\<rparr>) = room_members st" for y by (simp add: room_members_def)
  consider "nodeType e n = NODE_A_IP_CODEC e" | "nodeType e n \<noteq> NODE_A_IP_CODEC e" "nodeType e n = NODE_V_IP_RENDER e"
    | "nodeType e n \<noteq> NODE_A_IP_CODEC e" "nodeType e n \<noteq> NODE_V_IP_RENDER e" by blast
  then show ?thesis
  proof cases
    case 1
    then show ?thesis using d r i(1) s assms(1,2,4) by (cases "n \<in> set (mAudioList st)") (auto simp: room_removeNode_def t room_inv_def)
  next
    case 2
    then show ?thesis using d v i(2) s assms(1,2,4) by (cases "n \<in> set (mVideoList st)") (auto simp: room_removeNode_def t room_inv_def)
  next
    case 3
    then show ?thesis using assms(1,2,4) by (simp add: room_removeNode_def t)
  qed
qed

interpretation room: conf_mixer "room_insertNode e" "room_removeNode e" room_members room_inv for e
  by unfold_locales (fact room_insert_law room_remove_law | simp add: room_inv_def room_members_def)+

text \<open>A room whose player could not be made is deleted through its destructor, which calls the missing player.\<close>

lemma room_without_player_faults: "room_create res 0 w = Fault"
  by (simp add: room_create_def room_initMixer_def room_destroy_def room_reset_def WaitingRoom_new_def call_node_def status_defs)

lemma room_create_ok:
  assumes "node_counted w c" "has_room 2 c" "rc_alive (c player)" "player \<noteq> 0"
  shows "\<exists>w'. room_create res player w = Ret (Some (WaitingRoom_new\<lparr>mMedia := player, mAudioList := [player]\<rparr>), w') \<and>
    room_inv (WaitingRoom_new\<lparr>mMedia := player, mAudioList := [player]\<rparr>) \<and>
    node_counted w' (with_members c (room_members (WaitingRoom_new\<lparr>mMedia := player, mAudioList := [player]\<rparr>)))"
proof -
  obtain w1 where 1: "node_do incStrong player w = Ret w1" "node_counted w1 (with_members c {#player#})"
    using node_take [of w c "{#}" player] assms has_room_less [of 2 c 0] by auto
  obtain w2 where 2: "node_do incStrong player w1 = Ret w2" "node_counted w2 (with_members c {#player, player#})"
    using node_take [OF 1(2) _ assms(3,4)] has_room_members [OF assms(2), of "{#player#}" 0] by auto
  show ?thesis using 1(1) 2 assms(4)
    by (simp add: room_create_def room_initMixer_def status_defs WaitingRoom_new_def room_inv_def room_members_def)
qed

text \<open>Removing a node that is not in the room counts a client less all the same.\<close>

lemma stranger_leaves:
  assumes "n \<noteq> 0" "obj (w n)" "nodeType e n = NODE_A_IP_CODEC e" "n \<notin> set (mAudioList st)"
  shows "room_removeNode e n st w = Ret (NO_ERROR, st\<lparr>wClientNum := c_int (wClientNum st - 1)\<rparr>, w)"
  using assms by (simp add: room_removeNode_def call_node_def)

section \<open>Music for everybody\<close>

lemma serve_all:
  assumes "\<forall>n \<in> set ns. n \<noteq> 0 \<and> obj (w n)" "\<forall>n b. snd (wpush e n b) = b"
  shows "\<exists>trash'. serve e w ns mb trash = Ret (map (\<lambda>n. (n, mb)) ns, mb, trash')"
  using assms(1)
proof (induction ns arbitrary: trash)
  case (Cons n ns)
  obtain r1 t1 r2 b2 where p: "wpull e n trash = (r1, t1)" "wpush e n mb = (r2, b2)" by fastforce
  have b: "b2 = mb" using assms(2) p(2) by (metis snd_conv)
  obtain t' where "serve e w ns mb t1 = Ret (map (\<lambda>n. (n, mb)) ns, mb, t')" using Cons.IH [of t1] Cons.prems by auto
  then show ?case using Cons.prems p b by (simp add: call_node_def)
qed simp

lemma room_turn_serves:
  assumes "room_inv st" "node_counted w (with_members c (room_members st))" "mAudioList st = player # ns" "\<forall>n b. snd (wpush e n b) = b"
    "wpull e player mb = (err, mb1)"
  shows "\<exists>trash'. room_turn e w st mb trash =
    (let mb2 = if err \<noteq> NO_ERROR then mb1\<lparr>mMem := replicate (2 * W_SAMPLES e) 0\<rparr> else mb1 in Ret (map (\<lambda>n. (n, mb2)) ns, mb2, trash'))"
proof -
  have "\<forall>n \<in> set (player # ns). n \<noteq> 0 \<and> obj (w n)"
    using members_alive [OF assms(2)] assms(1,3) by (auto simp: room_inv_def room_members_def intro!: Nat.gr0I)
  then show ?thesis using serve_all [of ns w e _ trash] assms(3-5) by (auto simp: room_turn_def call_node_def Let_def)
qed

text \<open>
  The pace of the waiting room.  A turn that ends in the second in which it began is followed by a
  wait of exactly the time that is left until the event time has passed since its beginning, and of nothing when it has
  passed already.  A turn that goes over the end of a second is not followed by any wait: the microseconds of the deadline are
  not carried into its seconds, so the difference of the seconds is negative although time is left, and the next
  block of music comes too early.  No wait is ever too long.
\<close>

theorem room_pace:
  assumes "0 \<le> u0" "u0 < 1000000" "0 \<le> u1" "u1 < 1000000" "0 \<le> EVENTTIME_US" "s0 \<le> s1" "wait_time EVENTTIME_US (s0, u0) (s1, u1) = (sec, usec)"
  shows "sec * 1000000 + usec = (if s1 = s0 then max 0 ((s0 * 1000000 + u0 + EVENTTIME_US) - (s1 * 1000000 + u1)) else 0) \<and>
    0 \<le> sec \<and> 0 \<le> usec \<and> usec < 1000000 + EVENTTIME_US"
  using assms by (auto simp: wait_time_def Let_def max_def split: if_splits)

text \<open>Nine of twenty milliseconds are left, but the turn began at 7.99 seconds and ended at 8.001.\<close>

theorem room_pace_witness:
  "wait_time 20000 (7, 990000) (8, 1000) = (0, 0) \<and> (7 * 1000000 + 990000 + 20000) - (8 * 1000000 + (1000 :: int)) = 9000 \<and>
   (\<exists>sec usec. wait_time 20000 (7, 990000) (8, 1000) = (sec, usec) \<and> sec * 1000000 + usec = 0)"
proof -
  have w: "wait_time 20000 (7, 990000) (8, 1000) = (0, 0)" by (simp add: wait_time_def)
  then have "0 * 1000000 + 0 = (if 8 = (7 :: int) then max 0 ((7 * 1000000 + 990000 + 20000) - (8 * 1000000 + (1000 :: int))) else 0)"
    using room_pace [of 990000 1000 20000 7 8 0 0] by simp
  then show ?thesis using w by simp
qed

section \<open>The room with its player\<close>

text \<open>
  The turns of a room whose first node is a \<open>MOHPlayer\<close>: its \<open>pullMedia\<close> is the function of \<open>Moh_Player\<close>, called with
  the room's buffer at the times \<open>before\<close> and \<open>now\<close>.  The result is what the callers are given in every turn, as the bytes
  of the range of the buffer.
\<close>

definition range_bytes :: "nat meta_buffer \<Rightarrow> u8 list" where
  "range_bytes mb = take (mRangeLength mb) (drop (mRangeOffset mb) (mMem mb))"

fun hold_turns :: "u32 \<Rightarrow> (u32 \<times> u32) list \<Rightarrow> wait_env \<Rightarrow> nodes \<Rightarrow> waiting_room \<Rightarrow> nat meta_buffer \<Rightarrow> nat meta_buffer \<Rightarrow> moh \<Rightarrow> token_pool \<Rightarrow>
    (nat \<times> u8 list) list list outcome" where
  "hold_turns FS_HZ [] e w room mb trash st tp = Ret []"
| "hold_turns FS_HZ ((before, now) # ts) e w room mb trash st tp =
     obind (moh_pullMedia FS_HZ before now (Some mb) st tp) (\<lambda>(err, _, data, st1, tp1).
     case data of
       None \<Rightarrow> Fault
     | Some mb1 \<Rightarrow>
         obind (room_turn (e\<lparr>wpull := (wpull e)(mMedia room := \<lambda>_. (err, mb1))\<rparr>) w room mb trash) (\<lambda>(ps, mb2, trash2).
         obind (hold_turns FS_HZ ts e w room mb2 trash2 st1 tp1) (\<lambda>rest.
         Ret (map (\<lambda>(n, b). (n, range_bytes b)) ps # rest))))"

lemma hold_turns_blocks:
  assumes "room_inv room" "node_counted w (with_members c (room_members room))" "mAudioList room = mMedia room # ns" "\<forall>n b. snd (wpush e n b) = b"
    "pool_rep tp m" "m ''ntp-time'' = Some p" "m ''samples'' = Some q" "0 < S" "2 * S < 2 ^ 32" "0 < n" "n = length bs div (2 * S)"
    "play_ok m S mb" "S = unat (eventSample st)" "fpMusic st = Some f" "content f = bs"
    "pos f = (if k = 0 then 0 else Suc ((k - 1) mod n)) * (2 * S)"
  shows "hold_turns FS_HZ ts e w room mb trash st tp = Ret (map (\<lambda>i. map (\<lambda>x. (x, block bs S ((k + i) mod n))) ns) [0..<length ts])"
  using assms(12-16)
proof (induction ts arbitrary: mb trash st f k)
  case (Cons t ts)
  obtain before now where t: "t = (before, now)" by fastforce
  let ?j = "if k = 0 then 0 else Suc ((k - 1) mod n)"
  have j: "?j \<le> n" using assms(10) by (simp add: Suc_le_eq)
  obtain mb1 f' where 1: "moh_pullMedia FS_HZ before now (Some mb) st tp =
      Ret (NO_ERROR, moh_sleep before st, Some mb1, st\<lparr>firstRun := False, fpMusic := Some f', timeStamp := now\<rparr>, tp)"
    "play_ok m S mb1" "range_bytes mb1 = block bs S (k mod n)" "content f' = bs" "pos f' = Suc (k mod n) * (2 * S)"
    using moh_pull_block [OF assms(5-7) Cons.prems(1,2) assms(8,9) Cons.prems(3,4,5) j assms(10,11)] next_block_mod [OF assms(10), of k]
    unfolding range_bytes_def by fastforce
  let ?e = "e\<lparr>wpull := (wpull e)(mMedia room := \<lambda>_. (NO_ERROR, mb1))\<rparr>"
  obtain trash' where 2: "room_turn ?e w room mb trash = Ret (map (\<lambda>x. (x, mb1)) ns, mb1, trash')"
    using room_turn_serves [OF assms(1-3), of ?e mb NO_ERROR mb1 trash] assms(4) by auto
  have 3: "hold_turns FS_HZ ts e w room mb1 trash' (st\<lparr>firstRun := False, fpMusic := Some f', timeStamp := now\<rparr>) tp =
      Ret (map (\<lambda>i. map (\<lambda>x. (x, block bs S ((Suc k + i) mod n))) ns) [0..<length ts])"
    using Cons.IH [OF 1(2), of "st\<lparr>firstRun := False, fpMusic := Some f', timeStamp := now\<rparr>" f' "Suc k" trash'] Cons.prems(2) 1(4,5) by simp
  have "map (\<lambda>i. map (\<lambda>x. (x, block bs S ((k + i) mod n))) ns) [0..<length (t # ts)] =
      map (\<lambda>x. (x, block bs S (k mod n))) ns # map (\<lambda>i. map (\<lambda>x. (x, block bs S ((Suc k + i) mod n))) ns) [0..<length ts]"
    by (simp add: map_upt_Suc del: upt_Suc)
  then show ?case using 1(1,3) 2 3 t by (simp add: comp_def)
qed simp

text \<open>
  C9. Callers on hold hear the music.  In a waiting room whose player has a music file of at least one block,
  every caller is given in turn number \<open>i\<close> the block \<open>i mod n\<close> of the \<open>n\<close> whole blocks of the file, all
  callers the same, in the order of their arrival; the player itself is given nothing.  The callers do not
  change the buffer they are given.
\<close>

theorem callers_hear_music:
  assumes "room_inv room" "node_counted w (with_members c (room_members room))" "mAudioList room = mMedia room # ns" "\<forall>n b. snd (wpush e n b) = b"
    and "pool_rep tp m" "m ''ntp-time'' = Some p" "m ''samples'' = Some q" "S = unat (timeInMs * FS_HZ div 1000)" "0 < S" "2 * S < 2 ^ 32"
    and "2 * S \<le> length bs" "play_ok m S mb" "MOHPlayer_create FS_HZ timeInMs ts0 True (Some bs) rec r1 r2 = Some st"
  shows "hold_turns FS_HZ ts e w room mb trash st tp =
    Ret (map (\<lambda>i. map (\<lambda>x. (x, block bs S (i mod (length bs div (2 * S))))) ns) [0..<length ts])"
proof -
  have "0 < length bs div (2 * S)" using assms(9,11) by (simp add: div_greater_zero_iff)
  moreover have "S = unat (eventSample st)" "fpMusic st = Some \<lparr>content = bs, pos = 0, eof = False\<rparr>"
    using assms(8,13) by (auto simp: MOHPlayer_create_def initOpen_def MOHPlayer_new_def)
  ultimately show ?thesis
    using hold_turns_blocks [OF assms(1-7,9,10) _ refl assms(12), where st = st and k = 0] by simp
qed

definition demo_wait :: wait_env where
  "demo_wait = \<lparr>NODE_A_IP_CODEC = 2, NODE_A_DRIVER = 0, NODE_V_IP_RENDER = 17, NODE_V_CAMERA_SET = 16, NODE_V_ENCODER = 18,
     NODE_CLASS_MASK = 240, NODE_A_CLASS = 0, NODE_V_CLASS = 16, nodeType = (\<lambda>n. 2), W_SAMPLES = 1,
     wpull = (\<lambda>n mb. (NO_ERROR, mb)), wpush = (\<lambda>n mb. (NO_ERROR, mb))\<rparr>"

definition demo_room :: waiting_room where
  "demo_room = \<lparr>mMedia = 1, mAudioNum = 2, mVideoNum = 0, wClientNum = 2, mVideoList = [], mAudioList = [1, 5, 6]\<rparr>"

theorem callers_hear_music_witness:
  "\<exists>st. MOHPlayer_create 1000 1 0 True (Some [1, 2, 3, 4, 5]) False 0 0 = Some st \<and>
     hold_turns 1000 [(0, 0), (0, 1), (1, 2)] demo_wait (\<lambda>_. \<lparr>mStrong = 2, mWeak = 2, mFlags = 0, obj = True, impl = True, hooks = []\<rparr>) demo_room
       (MetaBuffer_wrap [0, 0] demo_junk 2 None) (MetaBuffer_wrap [0] demo_junk 1 None) st moh_pool =
     Ret [[(5, [1, 2]), (6, [1, 2])], [(5, [3, 4]), (6, [3, 4])], [(5, [1, 2]), (6, [1, 2])]]"
proof -
  let ?mb = "MetaBuffer_wrap [0, 0] demo_junk 2 None" and ?bs = "[1, 2, 3, 4, 5] :: u8 list"
  let ?w = "\<lambda>_. \<lparr>mStrong = 2, mWeak = 2, mFlags = 0, obj = True, impl = True, hooks = []\<rparr>"
  let ?c = "\<lambda>n. if n = 1 then Shared 0 0 else if n \<in> {5, 6} then Shared 1 0 else Shared 2 0"
  obtain st where st: "MOHPlayer_create 1000 1 0 True (Some ?bs) False 0 0 = Some st" by (simp add: MOHPlayer_create_def)
  have "mb_rep (map_of moh_names) ?mb Map.empty"
    by (rule mb_rep_empty) (simp_all add: MetaBuffer_wrap_def demo_junk_def kMaxNumItems_def)
  then have ok: "play_ok (map_of moh_names) 1 ?mb" by (auto simp: play_ok_def MetaBuffer_wrap_def kMaxNumItems_def)
  have n: "map_of moh_names ''ntp-time'' = Some 0" "map_of moh_names ''samples'' = Some 9" by (simp_all add: moh_names_def)
  have w: "(1 :: nat) = unat ((1 :: u32) * 1000 div 1000)" by simp
  have r: "room_inv demo_room" "mAudioList demo_room = mMedia demo_room # [5, 6]" "\<forall>n b. snd (wpush demo_wait n b) = b"
    by (simp_all add: room_inv_def demo_room_def demo_wait_def)
  have c: "node_counted ?w (with_members ?c (room_members demo_room))"
    by (simp add: node_counted_def with_members_def room_members_def demo_room_def)
  have "hold_turns 1000 [(0, 0), (0, 1), (1, 2)] demo_wait ?w demo_room ?mb (MetaBuffer_wrap [0] demo_junk 1 None) st moh_pool =
      Ret (map (\<lambda>i. map (\<lambda>x. (x, block ?bs 1 (i mod (length ?bs div (2 * 1))))) [5, 6]) [0..<length [(0, 0), (0, 1), (1 :: u32, 2 :: u32)]])"
    by (rule callers_hear_music [OF r(1) c r(2,3) moh_pool_rep n w _ _ _ ok st]) simp_all
  then show ?thesis using st by (simp add: block_def)
qed

end
