(* ===== verification/Compound_Mix.thy ===== *)
theory Compound_Mix
  imports Audio_Conf Video_Conf Waiting_Room
begin

text \<open>
  \<open>libconf/CompoundMix.cpp\<close> and \<open>libconf/IMultiParty.cpp\<close>: the conference with sound and pictures, which
  gives every node to one of two mixers by the class of its type, and the function that makes a conference of a
  given kind.  The mixers are called through \<open>IConfMix\<close>, whose non-virtual members \<open>insertNode\<close>, \<open>removeNode\<close>
  and \<open>clientNum\<close> are in \<open>IMultiParty.h\<close>, which is not in the repository: the interface of a mixer is the
  parameter \<open>conf_if\<close>.  The mixers are alive as long as the compound has its references.
\<close>

section \<open>Model\<close>

unbundle bit_operations_syntax

record 'st conf_if =
  insertNode :: "'st member_op"
  removeNode :: "'st member_op"
  clientNum :: "'st \<Rightarrow> int"
  conf_start :: "'st \<Rightarrow> nodes \<Rightarrow> (int \<times> 'st) outcome"
  conf_reset :: "'st \<Rightarrow> nodes \<Rightarrow> (int \<times> 'st) outcome"
  conf_release :: "'st \<Rightarrow> nodes \<Rightarrow> nodes outcome" \<comment> \<open>what dropping the compound's reference does to the nodes\<close>
  conf_dump :: "'st \<Rightarrow> nodes \<Rightarrow> ioStream \<Rightarrow> ioStream outcome"
  getTid :: "'st \<Rightarrow> int"

record ('a, 'v) compound =
  mAudioMix :: "'a option"
  mVideoMix :: "'v option"
  cClientNum :: int

definition compound_destroy :: "'a conf_if \<Rightarrow> 'v conf_if \<Rightarrow> ('a, 'v) compound \<Rightarrow> nodes \<Rightarrow> nodes outcome" where
  \<comment> \<open>\<open>mAudioMix = mVideoMix = NULL\<close>\<close>
  "compound_destroy ia iv st w =
     obind (case mVideoMix st of None \<Rightarrow> Ret w | Some v \<Rightarrow> conf_release iv v w) (\<lambda>w1.
     case mAudioMix st of None \<Rightarrow> Ret w1 | Some a \<Rightarrow> conf_release ia a w1)"

definition compound_create :: "'a conf_if \<Rightarrow> 'v conf_if \<Rightarrow> 'a option \<Rightarrow> 'v option \<Rightarrow> nodes \<Rightarrow> (('a, 'v) compound option \<times> nodes) outcome" where
  \<comment> \<open>\<open>audio\<close> and \<open>video\<close> are what the \<open>create\<close> functions of the mixers return; the second is not called when the first fails\<close>
  "compound_create ia iv audio video w =
     (case audio of
        None \<Rightarrow> obind (compound_destroy ia iv \<lparr>mAudioMix = None, mVideoMix = None, cClientNum = 0\<rparr> w) (\<lambda>w1. Ret (None, w1))
      | Some a \<Rightarrow>
          (case video of
             None \<Rightarrow> obind (compound_destroy ia iv \<lparr>mAudioMix = Some a, mVideoMix = None, cClientNum = 0\<rparr> w) (\<lambda>w1. Ret (None, w1))
           | Some v \<Rightarrow> Ret (Some \<lparr>mAudioMix = Some a, mVideoMix = Some v, cClientNum = 0\<rparr>, w)))"

definition reset_part :: "'st conf_if \<Rightarrow> 'st option \<Rightarrow> nodes \<Rightarrow> 'st option outcome" where
  \<comment> \<open>\<open>reset\<close> of a mixer that is there; its status is ignored\<close>
  "reset_part i x w = (case x of None \<Rightarrow> Ret None | Some s \<Rightarrow> obind (conf_reset i s w) (\<lambda>(_, s1). Ret (Some s1)))"

definition compound_reset :: "'a conf_if \<Rightarrow> 'v conf_if \<Rightarrow> ('a, 'v) compound \<Rightarrow> nodes \<Rightarrow> (int \<times> ('a, 'v) compound) outcome" where
  "compound_reset ia iv st w =
     obind (reset_part ia (mAudioMix st) w) (\<lambda>a.
     obind (reset_part iv (mVideoMix st) w) (\<lambda>v.
     Ret (NO_ERROR, st\<lparr>mAudioMix := a, mVideoMix := v\<rparr>)))"

definition start_both :: "'a conf_if \<Rightarrow> 'v conf_if \<Rightarrow> ('a, 'v) compound \<Rightarrow> nodes \<Rightarrow> (int \<times> ('a, 'v) compound) outcome" where
  \<comment> \<open>the block of \<open>start\<close>; the mixers are not tested for null\<close>
  "start_both ia iv st w =
     (case mAudioMix st of
        None \<Rightarrow> Fault
      | Some a \<Rightarrow>
          obind (conf_start ia a w) (\<lambda>(err, a1).
          let st1 = st\<lparr>mAudioMix := Some a1\<rparr> in
          if err \<noteq> NO_ERROR then Ret (err, st1)
          else
            case mVideoMix st1 of
              None \<Rightarrow> Fault
            | Some v \<Rightarrow>
                if clientNum iv v \<noteq> 0 then obind (conf_start iv v w) (\<lambda>(err, v1). Ret (err, st1\<lparr>mVideoMix := Some v1\<rparr>))
                else Ret (err, st1)))"

definition compound_start :: "'a conf_if \<Rightarrow> 'v conf_if \<Rightarrow> ('a, 'v) compound \<Rightarrow> nodes \<Rightarrow> (int \<times> ('a, 'v) compound) outcome" where
  "compound_start ia iv st w =
     obind (start_both ia iv st w) (\<lambda>(err, st1).
     if err \<noteq> NO_ERROR then obind (compound_reset ia iv st1 w) (\<lambda>(_, st2). Ret (err, st2)) else Ret (err, st1))"

definition doUpdateClientNum :: "'a conf_if \<Rightarrow> 'v conf_if \<Rightarrow> ('a, 'v) compound \<Rightarrow> int \<times> ('a, 'v) compound" where
  "doUpdateClientNum ia iv st =
     (case (mAudioMix st, mVideoMix st) of
        (Some a, Some v) \<Rightarrow> (NO_ERROR, st\<lparr>cClientNum := c_int (clientNum ia a + clientNum iv v)\<rparr>)
      | (Some a, None) \<Rightarrow> (NO_ERROR, st\<lparr>cClientNum := clientNum ia a\<rparr>)
      | (None, Some v) \<Rightarrow> (NO_ERROR, st\<lparr>cClientNum := clientNum iv v\<rparr>)
      | (None, None) \<Rightarrow> (UNKNOWN_ERROR, st))"

definition node_class :: "('e media_if_scheme) \<Rightarrow> int \<Rightarrow> int" where
  "node_class e t = t AND NODE_CLASS_MASK e"

definition updated :: "'a conf_if \<Rightarrow> 'v conf_if \<Rightarrow> int \<Rightarrow> ('a, 'v) compound \<Rightarrow> nodes \<Rightarrow> (int \<times> ('a, 'v) compound \<times> nodes) outcome" where
  \<comment> \<open>the end of \<open>doInsertNode\<close> and \<open>doRemoveNode\<close>\<close>
  "updated ia iv err st w =
     (if err \<noteq> NO_ERROR then Ret (err, st, w) else let (err1, st1) = doUpdateClientNum ia iv st in Ret (err1, st1, w))"

definition compound_insertNode :: "('e media_if_scheme) \<Rightarrow> 'a conf_if \<Rightarrow> 'v conf_if \<Rightarrow> ('a, 'v) compound member_op" where
  \<comment> \<open>\<open>doInsertNode\<close>\<close>
  "compound_insertNode e ia iv node st w =
     (if node = 0 then Ret (BAD_VALUE, st, w)
      else
        obind (call_node node w (nodeType e node)) (\<lambda>t.
        if node_class e t = NODE_A_CLASS e then
          (case mAudioMix st of
             None \<Rightarrow> Ret (NO_INIT, st, w)
           | Some a \<Rightarrow> obind (insertNode ia node a w) (\<lambda>(err, a1, w1). updated ia iv err (st\<lparr>mAudioMix := Some a1\<rparr>) w1))
        else if node_class e t = NODE_V_CLASS e then
          (case mVideoMix st of
             None \<Rightarrow> Ret (NO_INIT, st, w)
           | Some v \<Rightarrow> obind (insertNode iv node v w) (\<lambda>(err, v1, w1). updated ia iv err (st\<lparr>mVideoMix := Some v1\<rparr>) w1))
        else updated ia iv UNKNOWN_ERROR st w))"

definition compound_removeNode :: "('e media_if_scheme) \<Rightarrow> 'a conf_if \<Rightarrow> 'v conf_if \<Rightarrow> ('a, 'v) compound member_op" where
  \<comment> \<open>\<open>doRemoveNode\<close>\<close>
  "compound_removeNode e ia iv node st w =
     (if node = 0 then Ret (BAD_VALUE, st, w)
      else
        obind (call_node node w (nodeType e node)) (\<lambda>t.
        if node_class e t = NODE_A_CLASS e then
          (case mAudioMix st of
             None \<Rightarrow> Ret (NO_INIT, st, w)
           | Some a \<Rightarrow> obind (removeNode ia node a w) (\<lambda>(err, a1, w1). updated ia iv err (st\<lparr>mAudioMix := Some a1\<rparr>) w1))
        else if node_class e t = NODE_V_CLASS e then
          (case mVideoMix st of
             None \<Rightarrow> Ret (NO_INIT, st, w)
           | Some v \<Rightarrow> obind (removeNode iv node v w) (\<lambda>(err, v1, w1). updated ia iv err (st\<lparr>mVideoMix := Some v1\<rparr>) w1))
        else updated ia iv UNKNOWN_ERROR st w))"

definition dump_parts :: "(int \<Rightarrow> int \<Rightarrow> u8 list option) \<Rightarrow> (int \<Rightarrow> u8 list option) \<Rightarrow> (int \<Rightarrow> u8 list option) \<Rightarrow>
    'a conf_if \<Rightarrow> 'v conf_if \<Rightarrow> nodes \<Rightarrow> ('a, 'v) compound \<Rightarrow> ioStream \<Rightarrow> ioStream outcome" where
  \<comment> \<open>the middle of \<open>dumpInfo\<close>; the texts for two threads, one of audio, one of video\<close>
  "dump_parts both audio video ia iv w st s =
     (case (mAudioMix st, mVideoMix st) of
        (Some a, Some v) \<Rightarrow>
          obind (access (io_run [Print (both (getTid ia a) (getTid iv v))] s)) (\<lambda>s1. obind (conf_dump ia a w s1) (conf_dump iv v w))
      | (Some a, None) \<Rightarrow> obind (access (io_run [Print (audio (getTid ia a))] s)) (conf_dump ia a w)
      | (None, Some v) \<Rightarrow> obind (access (io_run [Print (video (getTid iv v))] s)) (conf_dump iv v w)
      | (None, None) \<Rightarrow> Ret s)"

definition compound_dumpInfo :: "u8 list option \<Rightarrow> u8 list option \<Rightarrow> (int \<Rightarrow> int \<Rightarrow> u8 list option) \<Rightarrow> (int \<Rightarrow> u8 list option) \<Rightarrow> (int \<Rightarrow> u8 list option) \<Rightarrow>
    'a conf_if \<Rightarrow> 'v conf_if \<Rightarrow> u8 list \<Rightarrow> nodes \<Rightarrow> ('a, 'v) compound \<Rightarrow> ioStream option \<Rightarrow> ioStream outcome" where
  \<comment> \<open>\<open>ruler\<close> and \<open>ruler2\<close> are the lines with and without their end\<close>
  "compound_dumpInfo ruler ruler2 both audio video ia iv junk w st stream =
     (let s = (case stream of None \<Rightarrow> snd (ioStreamRewind \<lparr>buffer = junk, ssize = 1024, cursor = 0, remain = 0\<rparr>) | Some s \<Rightarrow> s) in
      obind (access (io_run [Print ruler] s)) (\<lambda>s1.
      obind (dump_parts both audio video ia iv w st s1) (\<lambda>s2.
      access (io_run ([Print ruler2] @ (if stream = None then [] else [Putc 10])) s2))))"

subsection \<open>Conferences of every kind\<close>

datatype ConfType = CONF_FULL_MEDIA | CONF_IDLE_MEDIA | CONF_VIDEO_ONLY | CONF_AUDIO_ONLY | ConfOther

datatype ('f, 'i, 'v, 'a) conference = Full 'f | Idle 'i | VideoOnly 'v | AudioOnly 'a

definition IConfMix_create :: "'f option \<Rightarrow> 'i option \<Rightarrow> 'v option \<Rightarrow> 'a option \<Rightarrow> ConfType \<Rightarrow> ('f, 'i, 'v, 'a) conference option" where
  \<comment> \<open>\<open>f\<close>, \<open>i\<close>, \<open>v\<close> and \<open>a\<close> are what the \<open>create\<close> function of each class returns\<close>
  "IConfMix_create f i v a type =
     (if type = CONF_FULL_MEDIA then map_option Full f
      else if type = CONF_IDLE_MEDIA then map_option Idle i
      else if type = CONF_VIDEO_ONLY then map_option VideoOnly v
      else if type = CONF_AUDIO_ONLY then map_option AudioOnly a
      else None)"

section \<open>Two mixers as one conference\<close>

text \<open>
  What the compound needs of its parts: the contract of a conference, and that a call that fails leaves the number of
  clients as it is, since the compound only looks at it after a call that succeeds.
\<close>

locale counted_mixer = conf_mixer ins rm members inv
  for ins rm :: "'st member_op" and members :: "'st \<Rightarrow> nat multiset" and inv :: "'st \<Rightarrow> bool" +
  fixes num :: "'st \<Rightarrow> int"
  assumes ins_num: "ins n st w = Ret (err, st', w') \<Longrightarrow> err \<noteq> NO_ERROR \<Longrightarrow> num st' = num st"
    and rm_num: "rm n st w = Ret (err, st', w') \<Longrightarrow> err \<noteq> NO_ERROR \<Longrightarrow> num st' = num st"

interpretation audio_part: counted_mixer "audio_insertNode e" "audio_removeNode e" "\<lambda>st. mset (mNodeList st)" "audio_inv e" mClientNum for e
  by unfold_locales (auto simp: audio_insertNode_def audio_removeNode_def obind_eq_Ret Let_def split: if_splits)

interpretation video_part: counted_mixer "video_insertNode e" "video_removeNode e" "\<lambda>st. mset (vNodeList st)" "video_ok e" vClientNum for e
  by (unfold_locales; auto simp: video_insertNode_def video_removeNode_def obind_eq_Ret split: if_split_asm admission.split_asm; metis admission.exhaust)

definition compound_members :: "('a \<Rightarrow> nat multiset) \<Rightarrow> ('v \<Rightarrow> nat multiset) \<Rightarrow> ('a, 'v) compound \<Rightarrow> nat multiset" where
  "compound_members ma mv st =
     (case mAudioMix st of None \<Rightarrow> {#} | Some a \<Rightarrow> ma a) + (case mVideoMix st of None \<Rightarrow> {#} | Some v \<Rightarrow> mv v)"

definition of_class :: "('e media_if_scheme) \<Rightarrow> int \<Rightarrow> nat multiset \<Rightarrow> bool" where
  "of_class e k M \<longleftrightarrow> (\<forall>n \<in># M. node_class e (nodeType e n) = k)"

definition compound_inv :: "('e media_if_scheme) \<Rightarrow> 'a conf_if \<Rightarrow> 'v conf_if \<Rightarrow> ('a \<Rightarrow> nat multiset) \<Rightarrow> ('a \<Rightarrow> bool) \<Rightarrow> ('v \<Rightarrow> nat multiset) \<Rightarrow> ('v \<Rightarrow> bool) \<Rightarrow>
    ('a, 'v) compound \<Rightarrow> bool" where
  \<comment> \<open>both mixers are there, each with nodes of its class only, and the number of clients is the sum of theirs\<close>
  "compound_inv e ia iv ma inva mv invv st \<longleftrightarrow>
     (\<exists>a v. mAudioMix st = Some a \<and> mVideoMix st = Some v \<and> inva a \<and> invv v \<and> of_class e (NODE_A_CLASS e) (ma a) \<and> of_class e (NODE_V_CLASS e) (mv v) \<and>
        cClientNum st = c_int (clientNum ia a + clientNum iv v))"

lemma of_class_simps [simp]: "of_class e k {#}" "of_class e k (add_mset n M) \<longleftrightarrow> node_class e (nodeType e n) = k \<and> of_class e k M"
  "of_class e k M \<Longrightarrow> of_class e k (M - {#n#})"
  by (auto simp: of_class_def dest: in_diffD)

text \<open>For one of the mixers the references of the other are references of the rest of the program.\<close>

lemma with_members_plus: "with_members (with_members c N) M = with_members c (M + N)"
proof
  fix n show "with_members (with_members c N) M n = with_members c (M + N) n" by (cases "c n") (auto simp: with_members_def count_eq_zero_iff)
qed

lemma with_members_strong: "rc_strong (c n) > 0 \<Longrightarrow> rc_strong (with_members c M n) > 0"
  by (cases "c n") (auto simp: with_members_def)

lemma with_members_alive: "rc_alive (c n) \<Longrightarrow> rc_alive (with_members c M n)"
  by (simp add: with_members_def rc_plus_alive)

lemma updated_ok:
  assumes "mAudioMix st = Some a" "mVideoMix st = Some v" "err \<noteq> NO_ERROR \<Longrightarrow> cClientNum st = c_int (clientNum ia a + clientNum iv v)"
  shows "updated ia iv err st w = Ret (err, st\<lparr>cClientNum := c_int (clientNum ia a + clientNum iv v)\<rparr>, w)"
  using assms by (auto simp: updated_def doUpdateClientNum_def)

lemma audio_updated:
  assumes "compound_inv e ia iv ma inva mv invv st" "mAudioMix st = Some a" "mVideoMix st = Some v" "inva a1" "of_class e (NODE_A_CLASS e) (ma a1)"
    "err \<noteq> NO_ERROR \<Longrightarrow> clientNum ia a1 = clientNum ia a"
  shows "\<exists>st'. updated ia iv err (st\<lparr>mAudioMix := Some a1\<rparr>) w = Ret (err, st', w) \<and> compound_inv e ia iv ma inva mv invv st' \<and>
    compound_members ma mv st' = ma a1 + mv v"
  using assms updated_ok [of "st\<lparr>mAudioMix := Some a1\<rparr>" a1 v err ia iv w] by (auto simp: compound_inv_def compound_members_def)

lemma video_updated:
  assumes "compound_inv e ia iv ma inva mv invv st" "mAudioMix st = Some a" "mVideoMix st = Some v" "invv v1" "of_class e (NODE_V_CLASS e) (mv v1)"
    "err \<noteq> NO_ERROR \<Longrightarrow> clientNum iv v1 = clientNum iv v"
  shows "\<exists>st'. updated ia iv err (st\<lparr>mVideoMix := Some v1\<rparr>) w = Ret (err, st', w) \<and> compound_inv e ia iv ma inva mv invv st' \<and>
    compound_members ma mv st' = ma a + mv v1"
  using assms updated_ok [of "st\<lparr>mVideoMix := Some v1\<rparr>" a v1 err ia iv w] by (auto simp: compound_inv_def compound_members_def)

lemma three_classes:
  obtains "node_class e (nodeType e n) = NODE_A_CLASS e"
  | "node_class e (nodeType e n) \<noteq> NODE_A_CLASS e" "node_class e (nodeType e n) = NODE_V_CLASS e"
  | "node_class e (nodeType e n) \<noteq> NODE_A_CLASS e" "node_class e (nodeType e n) \<noteq> NODE_V_CLASS e"
  by blast

locale compound_conf = a: counted_mixer "insertNode ia" "removeNode ia" ma inva "clientNum ia" +
    v: counted_mixer "insertNode iv" "removeNode iv" mv invv "clientNum iv"
  for ia :: "'a conf_if" and ma :: "'a \<Rightarrow> nat multiset" and inva :: "'a \<Rightarrow> bool" and iv :: "'v conf_if" and mv :: "'v \<Rightarrow> nat multiset" and invv :: "'v \<Rightarrow> bool" +
  fixes e :: "'e media_if_scheme"
begin

lemma compound_insert_law:
  assumes "compound_inv e ia iv ma inva mv invv st" "node_counted w (with_members c (compound_members ma mv st))"
    "has_room 1 (with_members c (compound_members ma mv st))" "n \<noteq> 0" "rc_alive (c n)"
  shows "\<exists>err st' w'. compound_insertNode e ia iv n st w = Ret (err, st', w') \<and> compound_inv e ia iv ma inva mv invv st' \<and>
    node_counted w' (with_members c (compound_members ma mv st')) \<and>
    (compound_members ma mv st' = compound_members ma mv st \<or> compound_members ma mv st' = add_mset n (compound_members ma mv st))"
proof -
  obtain a v where s: "mAudioMix st = Some a" "mVideoMix st = Some v" "inva a" "invv v" "of_class e (NODE_A_CLASS e) (ma a)" "of_class e (NODE_V_CLASS e) (mv v)"
    using assms(1) by (auto simp: compound_inv_def)
  have t: "call_node n w t = Ret t" for t :: int using call_node_ok [OF assms(2), of n t] assms(4,5) by simp
  have m: "compound_members ma mv st = ma a + mv v" using s(1,2) by (simp add: compound_members_def)
  have c: "node_counted w (with_members (with_members c (mv v)) (ma a))" "has_room 1 (with_members (with_members c (mv v)) (ma a))"
    "node_counted w (with_members (with_members c (ma a)) (mv v))" "has_room 1 (with_members (with_members c (ma a)) (mv v))"
    using assms(2,3) by (simp_all add: with_members_plus m add.commute)
  have l: "rc_alive (with_members c M n)" for M using assms(5) by (rule with_members_alive)
  show ?thesis
  proof (cases rule: three_classes [of e n])
    case 1
    obtain err a1 w1 where 2: "insertNode ia n a w = Ret (err, a1, w1)" "inva a1" "node_counted w1 (with_members (with_members c (mv v)) (ma a1))"
      "ma a1 = ma a \<or> ma a1 = add_mset n (ma a)"
      using a.insert_law [OF s(3) c(1,2) assms(4) l] by blast
    have "of_class e (NODE_A_CLASS e) (ma a1)" using 2(4) s(5) 1 by auto
    then obtain st' where "updated ia iv err (st\<lparr>mAudioMix := Some a1\<rparr>) w1 = Ret (err, st', w1)" "compound_inv e ia iv ma inva mv invv st'"
      "compound_members ma mv st' = ma a1 + mv v"
      using audio_updated [OF assms(1) s(1,2) 2(2)] a.ins_num [OF 2(1)] by blast
    then show ?thesis using 1 2 s(1) t assms(4) by (auto simp: compound_insertNode_def m with_members_plus)
  next
    case 2
    obtain err v1 w1 where 3: "insertNode iv n v w = Ret (err, v1, w1)" "invv v1" "node_counted w1 (with_members (with_members c (ma a)) (mv v1))"
      "mv v1 = mv v \<or> mv v1 = add_mset n (mv v)"
      using v.insert_law [OF s(4) c(3,4) assms(4) l] by blast
    have "of_class e (NODE_V_CLASS e) (mv v1)" using 3(4) s(6) 2(2) by auto
    then obtain st' where "updated ia iv err (st\<lparr>mVideoMix := Some v1\<rparr>) w1 = Ret (err, st', w1)" "compound_inv e ia iv ma inva mv invv st'"
      "compound_members ma mv st' = ma a + mv v1"
      using video_updated [OF assms(1) s(1,2) 3(2)] v.ins_num [OF 3(1)] by blast
    then show ?thesis using 2 3 s(2) t assms(4) by (auto simp: compound_insertNode_def m with_members_plus add.commute)
  next
    case 3
    then show ?thesis using assms(1,2,4) t by (simp add: compound_insertNode_def updated_def status_defs)
  qed
qed

lemma compound_remove_law:
  assumes "compound_inv e ia iv ma inva mv invv st" "node_counted w (with_members c (compound_members ma mv st))"
    "has_room 0 (with_members c (compound_members ma mv st))" "n \<noteq> 0" "rc_strong (c n) > 0"
  shows "\<exists>err st' w'. compound_removeNode e ia iv n st w = Ret (err, st', w') \<and> compound_inv e ia iv ma inva mv invv st' \<and>
    node_counted w' (with_members c (compound_members ma mv st')) \<and>
    (compound_members ma mv st' = compound_members ma mv st \<or> compound_members ma mv st' = compound_members ma mv st - {#n#})"
proof -
  obtain a v where s: "mAudioMix st = Some a" "mVideoMix st = Some v" "inva a" "invv v" "of_class e (NODE_A_CLASS e) (ma a)" "of_class e (NODE_V_CLASS e) (mv v)"
    using assms(1) by (auto simp: compound_inv_def)
  have t: "call_node n w t = Ret t" for t :: int using call_node_ok [OF assms(2), of n t] assms(4) rc_strong_alive [OF assms(5)] by simp
  have m: "compound_members ma mv st = ma a + mv v" using s(1,2) by (simp add: compound_members_def)
  have c: "node_counted w (with_members (with_members c (mv v)) (ma a))" "has_room 0 (with_members (with_members c (mv v)) (ma a))"
    "node_counted w (with_members (with_members c (ma a)) (mv v))" "has_room 0 (with_members (with_members c (ma a)) (mv v))"
    using assms(2,3) by (simp_all add: with_members_plus m add.commute)
  have l: "rc_strong (with_members c M n) > 0" for M using assms(5) by (rule with_members_strong)
  show ?thesis
  proof (cases rule: three_classes [of e n])
    case 1
    obtain err a1 w1 where 2: "removeNode ia n a w = Ret (err, a1, w1)" "inva a1" "node_counted w1 (with_members (with_members c (mv v)) (ma a1))"
      "ma a1 = ma a \<or> ma a1 = ma a - {#n#}"
      using a.remove_law [OF s(3) c(1,2) assms(4) l] by blast
    have "of_class e (NODE_A_CLASS e) (ma a1)" using 2(4) s(5) by auto
    then obtain st' where "updated ia iv err (st\<lparr>mAudioMix := Some a1\<rparr>) w1 = Ret (err, st', w1)" "compound_inv e ia iv ma inva mv invv st'"
      "compound_members ma mv st' = ma a1 + mv v"
      using audio_updated [OF assms(1) s(1,2) 2(2)] a.rm_num [OF 2(1)] by blast
    then show ?thesis using 1 2 s(1) t assms(4) by (cases "n \<in># ma a") (auto simp: compound_removeNode_def m with_members_plus)
  next
    case 2
    obtain err v1 w1 where 3: "removeNode iv n v w = Ret (err, v1, w1)" "invv v1" "node_counted w1 (with_members (with_members c (ma a)) (mv v1))"
      "mv v1 = mv v \<or> mv v1 = mv v - {#n#}"
      using v.remove_law [OF s(4) c(3,4) assms(4) l] by blast
    have "of_class e (NODE_V_CLASS e) (mv v1)" using 3(4) s(6) by auto
    then obtain st' where "updated ia iv err (st\<lparr>mVideoMix := Some v1\<rparr>) w1 = Ret (err, st', w1)" "compound_inv e ia iv ma inva mv invv st'"
      "compound_members ma mv st' = ma a + mv v1"
      using video_updated [OF assms(1) s(1,2) 3(2)] v.rm_num [OF 3(1)] by blast
    then show ?thesis using 2 3 s(2) t assms(4) by (cases "n \<in># mv v") (auto simp: compound_removeNode_def m with_members_plus add.commute)
  next
    case 3
    then show ?thesis using assms(1,2,4) t by (simp add: compound_removeNode_def updated_def status_defs)
  qed
qed

end

sublocale compound_conf \<subseteq> both: conf_mixer "compound_insertNode e ia iv" "compound_removeNode e ia iv" "compound_members ma mv" "compound_inv e ia iv ma inva mv invv"
proof unfold_locales
  fix st assume "compound_inv e ia iv ma inva mv invv st"
  then show "0 \<notin># compound_members ma mv st" using a.no_null v.no_null by (auto simp: compound_inv_def compound_members_def)
qed (fact compound_insert_law compound_remove_law)+

context compound_conf
begin

lemma compound_run:
  assumes "compound_inv e ia iv ma inva mv invv st" "node_counted w (with_members c (compound_members ma mv st))"
    "has_room (size (compound_members ma mv st) + length xs) c" "\<forall>x \<in> set xs. op_node x \<noteq> 0 \<and> rc_strong (c (op_node x)) > 0"
  shows "\<exists>errs st' w'. conf_run (compound_insertNode e ia iv) (compound_removeNode e ia iv) xs st w = Ret (errs, st', w') \<and> length errs = length xs \<and>
    compound_inv e ia iv ma inva mv invv st' \<and> node_counted w' (with_members c (compound_members ma mv st'))"
  using both.run_keeps_references [OF assms] .

end

subsection \<open>The audio and the video mixer\<close>

definition passes_on :: "'st conf_if \<Rightarrow> 'st member_op \<Rightarrow> 'st member_op \<Rightarrow> ('st \<Rightarrow> int) \<Rightarrow> bool" where
  \<comment> \<open>the members of \<open>IConfMix\<close> call the virtual functions of the mixer and read its \<open>mClientNum\<close>\<close>
  "passes_on i ins rm num \<longleftrightarrow> insertNode i = ins \<and> removeNode i = rm \<and> clientNum i = num"

definition audio_if :: "('e media_if_scheme) \<Rightarrow> int \<Rightarrow> int \<Rightarrow> (int \<Rightarrow> u8 list option) \<Rightarrow> (nat \<Rightarrow> u8 list option) \<Rightarrow> audio_conf conf_if" where
  "audio_if e res tid fmt1 fmt2 =
     \<lparr>insertNode = audio_insertNode e, removeNode = audio_removeNode e, clientNum = mClientNum,
      conf_start = (\<lambda>st w. Ret (fst (audio_start res st), st)), conf_reset = (\<lambda>st w. Ret (fst audio_reset, st)),
      conf_release = audio_destroy, conf_dump = (\<lambda>st w s. audio_dumpInfo fmt1 fmt2 [] w st (Some s)), getTid = (\<lambda>_. tid)\<rparr>"

definition video_if :: "('e media_if_scheme) \<Rightarrow> (nat \<Rightarrow> int) \<Rightarrow> int \<Rightarrow> int \<Rightarrow> int \<Rightarrow> (int \<Rightarrow> u8 list option) \<Rightarrow> (nat \<Rightarrow> u8 list option) \<Rightarrow> video_conf conf_if" where
  "video_if e begin tid res ended fmt1 fmt2 =
     \<lparr>insertNode = video_insertNode e, removeNode = video_removeNode e, clientNum = vClientNum,
      conf_start = (\<lambda>st w. obind (video_start begin tid res w st) (\<lambda>(err, _). Ret (err, st))), conf_reset = (\<lambda>st w. Ret (video_reset ended st)),
      conf_release = video_destroy, conf_dump = (\<lambda>st w s. video_dumpInfo fmt1 fmt2 [] w st (Some s)), getTid = (\<lambda>_. tid)\<rparr>"

lemma audio_video_parts:
  assumes "passes_on ia (audio_insertNode e) (audio_removeNode e) mClientNum" "passes_on iv (video_insertNode e) (video_removeNode e) vClientNum"
  shows "compound_conf ia (\<lambda>a. mset (mNodeList a)) (audio_inv e) iv (\<lambda>v. mset (vNodeList v)) (video_ok e)"
  using assms audio_part.counted_mixer_axioms [of e] video_part.counted_mixer_axioms [of e]
  by (simp add: passes_on_def compound_conf_def)

interpretation av: compound_conf "audio_if e res tid fmt1 fmt2" "\<lambda>a. mset (mNodeList a)" "audio_inv e"
    "video_if e starts tid' res' ended fmt3 fmt4" "\<lambda>v. mset (vNodeList v)" "video_ok e" e for e res tid fmt1 fmt2 starts tid' res' ended fmt3 fmt4
  by (rule audio_video_parts) (simp_all add: passes_on_def audio_if_def video_if_def)

text \<open>
  C8. The conference with sound and pictures.  Nodes join and leave a new conference in any order, by callers that
  have a strong reference of their own to each.  Every call returns, whatever the type of the node.  The audio mixer has nodes of the audio class
  only and the video mixer nodes of the video class only, and both keep their invariants: the audio nodes are at most eight, the pictures fit
  their four places.  The number of clients is the sum of those of the mixers, also after calls that fail.  Each node has
  exactly one strong reference more for every place it has in either mixer.
\<close>

theorem compound_membership:
  assumes "passes_on ia (audio_insertNode e) (audio_removeNode e) mClientNum" "passes_on iv (video_insertNode e) (video_removeNode e) vClientNum"
    and "video_types e" "mNodeList a = []" "mClientNum a = 0" "compound_create ia iv (Some a) video_create w = Ret (Some st, w0)"
    and "node_counted w c" "has_room (length xs) c" "\<forall>x \<in> set xs. op_node x \<noteq> 0 \<and> rc_strong (c (op_node x)) > 0"
  shows "\<exists>errs st' w' a' v'. conf_run (compound_insertNode e ia iv) (compound_removeNode e ia iv) xs st w0 = Ret (errs, st', w') \<and>
    mAudioMix st' = Some a' \<and> mVideoMix st' = Some v' \<and> audio_inv e a' \<and> video_inv e v' \<and>
    (\<forall>n \<in> set (mNodeList a'). node_class e (nodeType e n) = NODE_A_CLASS e) \<and> (\<forall>n \<in> set (vNodeList v'). node_class e (nodeType e n) = NODE_V_CLASS e) \<and>
    cClientNum st' = c_int (mClientNum a' + vClientNum v') \<and> node_counted w' (with_members c (mset (mNodeList a') + mset (vNodeList v')))"
proof -
  let ?ma = "\<lambda>a. mset (mNodeList a)" and ?mv = "\<lambda>v. mset (vNodeList v)"
  have st: "st = \<lparr>mAudioMix = Some a, mVideoMix = Some video_new, cClientNum = 0\<rparr>" "w0 = w"
    using assms(6) by (simp_all add: compound_create_def video_create_def video_init_def status_defs)
  have n: "clientNum ia = mClientNum" "clientNum iv = vClientNum" using assms(1,2) by (simp_all add: passes_on_def)
  have "video_ok e video_new"
    using assms(3) by (simp add: video_ok_def video_inv_def video_new_def MAX_VIDEO_CLIENT_def)
  then have i: "compound_inv e ia iv ?ma (audio_inv e) ?mv (video_ok e) st"
    using assms(4,5) by (simp add: compound_inv_def st n audio_inv_def video_new_def c_int_def)
  have m: "compound_members ?ma ?mv st = {#}" using assms(4) by (simp add: compound_members_def st video_new_def)
  obtain errs st' w' where r: "conf_run (compound_insertNode e ia iv) (compound_removeNode e ia iv) xs st w = Ret (errs, st', w')"
    "compound_inv e ia iv ?ma (audio_inv e) ?mv (video_ok e) st'" "node_counted w' (with_members c (compound_members ?ma ?mv st'))"
    using compound_conf.compound_run [OF audio_video_parts [OF assms(1,2)] i _ _ assms(9), of w] assms(7,8) unfolding m by auto
  then obtain a' v' where "mAudioMix st' = Some a'" "mVideoMix st' = Some v'" "audio_inv e a'" "video_ok e v'"
    "of_class e (NODE_A_CLASS e) (?ma a')" "of_class e (NODE_V_CLASS e) (?mv v')" "cClientNum st' = c_int (mClientNum a' + vClientNum v')"
    by (auto simp: compound_inv_def n)
  then show ?thesis using r by (simp add: st(2) of_class_def video_ok_def compound_members_def)
qed

definition demo_media :: media_if where
  \<comment> \<open>audio nodes have even numbers, video nodes odd ones\<close>
  "demo_media = \<lparr>NODE_A_IP_CODEC = 2, NODE_A_DRIVER = 0, NODE_V_IP_RENDER = 17, NODE_V_CAMERA_SET = 16, NODE_V_ENCODER = 18,
     NODE_CLASS_MASK = 16, NODE_A_CLASS = 0, NODE_V_CLASS = 16, nodeType = (\<lambda>n. if even n then 2 else 17)\<rparr>"

theorem compound_membership_witness:
  "\<exists>st errs st' w' a' v'. compound_create (audio_if demo_media 0 1 (\<lambda>_. None) (\<lambda>_. None)) (video_if demo_media (\<lambda>_. 0) (- 1) 0 0 (\<lambda>_. None) (\<lambda>_. None))
      (Some demo_conf) video_create demo_nodes = Ret (Some st, demo_nodes) \<and>
    conf_run (compound_insertNode demo_media (audio_if demo_media 0 1 (\<lambda>_. None) (\<lambda>_. None)) (video_if demo_media (\<lambda>_. 0) (- 1) 0 0 (\<lambda>_. None) (\<lambda>_. None)))
      (compound_removeNode demo_media (audio_if demo_media 0 1 (\<lambda>_. None) (\<lambda>_. None)) (video_if demo_media (\<lambda>_. 0) (- 1) 0 0 (\<lambda>_. None) (\<lambda>_. None)))
      [Join 2, Join 1, Join 3, Join 5, Leave 2] st demo_nodes = Ret (errs, st', w') \<and>
    mAudioMix st' = Some a' \<and> mVideoMix st' = Some v' \<and> cClientNum st' = c_int (mClientNum a' + vClientNum v')"
proof -
  let ?ia = "audio_if demo_media 0 1 (\<lambda>_. None) (\<lambda>_. None)" and ?iv = "video_if demo_media (\<lambda>_. 0) (- 1) 0 0 (\<lambda>_. None) (\<lambda>_. None)"
  have p: "passes_on ?ia (audio_insertNode demo_media) (audio_removeNode demo_media) mClientNum"
    "passes_on ?iv (video_insertNode demo_media) (video_removeNode demo_media) vClientNum"
    by (simp_all add: passes_on_def audio_if_def video_if_def)
  have t: "video_types demo_media" "mNodeList demo_conf = []" "mClientNum demo_conf = 0"
    by (simp_all add: video_types_def demo_media_def demo_conf_def)
  obtain st where st: "compound_create ?ia ?iv (Some demo_conf) video_create demo_nodes = Ret (Some st, demo_nodes)"
    by (simp add: compound_create_def video_create_def video_init_def)
  have c: "node_counted demo_nodes (\<lambda>_. Shared 1 0)" using demo_nodes_counted by simp
  have "has_room (length [Join 2, Join 1, Join 3, Join 5, Leave 2]) (\<lambda>_. Shared 1 0)"
    "\<forall>x \<in> set [Join 2, Join 1, Join 3, Join 5, Leave 2]. op_node x \<noteq> 0 \<and> rc_strong (Shared 1 0) > 0"
    by (simp_all add: has_room_def INITIAL_STRONG_VALUE_def)
  then show ?thesis using compound_membership [OF p t st c] st by meson
qed

text \<open>Without its parts there is no compound, and what was made before is released.\<close>

lemma compound_create_fails:
  "compound_create ia iv None video w = Ret (None, w)"
  "compound_create ia iv (Some a) None w = obind (conf_release ia a w) (\<lambda>w1. Ret (None, w1))"
  by (simp_all add: compound_create_def compound_destroy_def)

text \<open>
  A reset sets the number of clients of the video mixer to 0 but neither removes its nodes nor updates the number of
  the compound; the next start then leaves the video mixer out, although its nodes are still there.
\<close>

lemma reset_forgets_video:
  assumes "mAudioMix st = Some a" "mVideoMix st = Some v" "clientNum iv = vClientNum" "conf_reset iv v w = Ret (video_reset NO_ERROR v)"
    "conf_reset ia a w = Ret (err, a1)" "conf_start ia a1 w = Ret (NO_ERROR, a2)"
  shows "\<exists>st1 st2 v1. compound_reset ia iv st w = Ret (NO_ERROR, st1) \<and> compound_start ia iv st1 w = Ret (NO_ERROR, st2) \<and>
    mVideoMix st2 = Some v1 \<and> mVideoMix st1 = Some v1 \<and> vNodeList v1 = vNodeList v \<and> vClientNum v1 = 0 \<and> cClientNum st2 = cClientNum st"
  using assms by (simp add: compound_reset_def reset_part_def compound_start_def start_both_def video_reset_def)

lemma compound_dump_safe:
  assumes "\<And>a s. mAudioMix st = Some a \<Longrightarrow> io_inv s \<Longrightarrow> \<exists>s'. conf_dump ia a w s = Ret s' \<and> io_inv s'"
    "\<And>v s. mVideoMix st = Some v \<Longrightarrow> io_inv s \<Longrightarrow> \<exists>s'. conf_dump iv v w s = Ret s' \<and> io_inv s'"
    "length junk = 1024" "case stream of None \<Rightarrow> True | Some s \<Rightarrow> io_inv s"
  shows "\<exists>s'. compound_dumpInfo ruler ruler2 both audio video ia iv junk w st stream = Ret s' \<and> io_inv s'"
proof -
  have p: "\<exists>s'. access (io_run xs s) = Ret s' \<and> io_inv s'" if "io_inv s" "\<forall>x \<in> set xs. op_ok x" for xs s
    using io_run_in_bounds [OF that] by auto
  let ?s = "case stream of None \<Rightarrow> snd (ioStreamRewind \<lparr>buffer = junk, ssize = 1024, cursor = 0, remain = 0\<rparr>) | Some s \<Rightarrow> s"
  have "io_inv ?s" using assms(3,4) by (auto simp: io_inv_def ioStreamRewind_def split: option.split)
  then obtain s1 where 1: "access (io_run [Print ruler] ?s) = Ret s1" "io_inv s1" using p [of ?s "[Print ruler]"] by auto
  have h: "\<exists>s'. obind (access (io_run [Print t] s1)) f = Ret s' \<and> io_inv s'" if "\<And>s. io_inv s \<Longrightarrow> \<exists>s'. f s = Ret s' \<and> io_inv s'" for t f
    using p [OF 1(2), of "[Print t]"] that by auto
  have "\<exists>s2. dump_parts both audio video ia iv w st s1 = Ret s2 \<and> io_inv s2"
  proof (cases "mAudioMix st")
    case None
    then show ?thesis using assms(2) h 1(2) by (auto simp: dump_parts_def split: option.split)
  next
    case (Some a)
    have "\<exists>s'. obind (conf_dump ia a w s) (conf_dump iv v w) = Ret s' \<and> io_inv s'" if "io_inv s" "mVideoMix st = Some v" for s v
      using assms(1) [OF Some that(1)] assms(2) [OF that(2)] by auto
    then show ?thesis using Some assms(1) h by (auto simp: dump_parts_def split: option.split)
  qed
  then obtain s2 where 2: "dump_parts both audio video ia iv w st s1 = Ret s2" "io_inv s2" by blast
  show ?thesis using 1(1) 2 p [OF 2(2), of "[Print ruler2] @ (if stream = None then [] else [Putc 10])"]
    by (simp add: compound_dumpInfo_def Let_def)
qed

text \<open>A conference of the kind asked for, or none.\<close>

lemma IConfMix_create_kind:
  "IConfMix_create f i v a type = Some c \<longleftrightarrow>
     (type = CONF_FULL_MEDIA \<and> (\<exists>x. f = Some x \<and> c = Full x) \<or> type = CONF_IDLE_MEDIA \<and> (\<exists>x. i = Some x \<and> c = Idle x) \<or>
      type = CONF_VIDEO_ONLY \<and> (\<exists>x. v = Some x \<and> c = VideoOnly x) \<or> type = CONF_AUDIO_ONLY \<and> (\<exists>x. a = Some x \<and> c = AudioOnly x))"
  by (cases type) (auto simp: IConfMix_create_def)

end
