(* ===== verification/Tone_Gene.thy ===== *)
theory Tone_Gene
  imports Gen_Tone Status_Codes
begin

text \<open>
  \<open>libaux/ToneGene.cpp\<close>: the generator of keypad tones (\<open>DtmfGene\<close>) and the player of tone scripts
  (\<open>ToneGene\<close>), a queue of cadences of which each sounds for a time and is silent for a time, in frames of
  10 milliseconds.  \<open>EVENT_SAMPLES\<close> and \<open>CONST_SAMPLING_RATE\<close> are defined in \<open>defines.h\<close>, which is not in the
  repository, and are parameters.  \<open>ceff\<close> gives the coefficients that \<open>get_tone_ceff\<close> computes in floating point for a
  frequency.  The scanning of a script passes the addresses of 32-bit variables for 64-bit values to \<open>sscanf\<close>,
  which is undefined: what it delivers is the parameter \<open>scan\<close>.  An access outside of an array is a \<open>Fault\<close>.
\<close>

section \<open>Model\<close>

definition store_samples :: "int list \<Rightarrow> int list \<Rightarrow> int list option" where
  \<comment> \<open>samples stored from the beginning of an array on\<close>
  "store_samples mem xs = (if length xs \<le> length mem then Some (xs @ drop (length xs) mem) else None)"

subsection \<open>Keypad tones\<close>

definition DT_BLK_NUM :: nat where "DT_BLK_NUM = 32"

record dtmf_gene =
  dtVal :: int
  dtu :: "dtmf_tone_inst_t list"
  dtmfBuf :: "int list"

definition DtmfGene_new :: "dtmf_tone_inst_t list \<Rightarrow> int list \<Rightarrow> dtmf_gene" where
  \<comment> \<open>\<open>insts\<close> and \<open>buf\<close> are what the memory of the two arrays holds\<close>
  "DtmfGene_new insts buf = \<lparr>dtVal = - 1, dtu = map (\<lambda>d. d\<lparr>reinit := 1\<rparr>) insts, dtmfBuf = buf\<rparr>"

definition SetDtmf :: "nat \<Rightarrow> dtmf_gene \<Rightarrow> int \<times> dtmf_gene" where
  "SetDtmf keyVal st = (NO_ERROR, st\<lparr>dtVal := int keyVal\<rparr>)"

definition dtmf_key :: "dtmf_gene \<Rightarrow> char" where
  \<comment> \<open>\<open>dtVal\<close> as the parameter of type \<open>char\<close>\<close>
  "dtmf_key st = char_of (dtVal st mod 256)"

definition dtmf_gen :: "int \<Rightarrow> nat \<Rightarrow> int \<Rightarrow> int \<Rightarrow> dtmf_gene \<Rightarrow> (int \<times> dtmf_gene) outcome" where
  \<comment> \<open>\<open>gen\<close>; the index is not tested\<close>
  "dtmf_gen rate E inAudio value st =
     (if inAudio < 0 \<or> int (length (dtu st)) \<le> inAudio then Fault
      else
        let (len, xs, d) = GenDtmf (dtu st ! nat inAudio) (dtmf_key st) value rate (int E) in
        obind (access (store_samples (dtmfBuf st) xs)) (\<lambda>buf.
        Ret (len, st\<lparr>dtu := (dtu st)[nat inAudio := d], dtmfBuf := buf\<rparr>)))"

definition dtmf_updateFrame :: "int \<Rightarrow> nat \<Rightarrow> int list option \<Rightarrow> nat \<Rightarrow> nat \<Rightarrow> int \<Rightarrow> dtmf_gene \<Rightarrow> (int \<times> int list option \<times> dtmf_gene) outcome" where
  \<comment> \<open>the result of \<open>gen\<close> is not looked at\<close>
  "dtmf_updateFrame rate E frame nSamples value inAudio st =
     (case frame of
        None \<Rightarrow> Ret (BAD_VALUE, None, st)
      | Some mem \<Rightarrow>
          if nSamples < E \<or> value > 32 then Ret (BAD_VALUE, frame, st)
          else obind (dtmf_gen rate E inAudio (int value) st) (\<lambda>(_, st1).
               obind (access (store_samples mem (take E (dtmfBuf st1)))) (\<lambda>mem1. Ret (NO_ERROR, Some mem1, st1))))"

subsection \<open>Tone scripts\<close>

record cadence =
  cfreq1 :: u32
  cfreq2 :: u32
  timeOn :: int
  timeOff :: int

record tone_gene =
  mToneList :: "cadence list"
  cadNow :: "cadence option"
  yInit :: "int \<times> int"
  aTbl :: "int \<times> int"
  freq1 :: int
  freq2 :: int
  dtmfdec :: dtmf_tone_inst_t
  toneGen_INF :: bool
  toneInTx :: bool
  toneBuf :: "int list"

definition ToneGene_new :: "int \<times> int \<Rightarrow> int \<times> int \<Rightarrow> dtmf_tone_inst_t \<Rightarrow> int list \<Rightarrow> tone_gene" where
  \<comment> \<open>the arguments are members that the constructor does not set\<close>
  "ToneGene_new y a d buf =
     \<lparr>mToneList = [], cadNow = None, yInit = y, aTbl = a, freq1 = 0, freq2 = 0, dtmfdec = d, toneGen_INF = False, toneInTx = False, toneBuf = buf\<rparr>"

definition stop_tones :: "tone_gene \<Rightarrow> tone_gene" where
  \<comment> \<open>the script \<open>0000\<close>\<close>
  "stop_tones st = st\<lparr>mToneList := [], cadNow := map_option (\<lambda>c. c\<lparr>timeOn := 50, timeOff := 50\<rparr>) (cadNow st), toneGen_INF := False\<rparr>"

definition new_cadence :: "u32 \<times> u32 \<times> u32 \<times> u32 \<Rightarrow> cadence" where
  "new_cadence c = (case c of (on, off, f1, f2) \<Rightarrow> \<lparr>cfreq1 = f1, cfreq2 = f2, timeOn = uint on, timeOff = uint off\<rparr>)"

definition loop_divider :: "(u32 \<times> u32 \<times> u32 \<times> u32) list \<Rightarrow> u64" where
  \<comment> \<open>\<open>_divider\<close>; the sum of the two times is computed in 32 bits\<close>
  "loop_divider cs = sum_list (map (\<lambda>(on, off, _, _). ucast (on + off)) cs)"

definition set_loop :: "int \<Rightarrow> (u32 \<times> u32 \<times> u32 \<times> u32) list \<Rightarrow> tone_gene \<Rightarrow> tone_gene" where
  \<comment> \<open>what \<open>setToneScript\<close> does with a loop of a script: its time and its cadences, of which there are at most 6\<close>
  "set_loop loopTime cs st =
     (let st1 = (if loopTime = 0 then st\<lparr>toneGen_INF := True\<rparr> else st);
          divider = loop_divider cs;
          cycle = (if loopTime = 0 then 1 else ucast (word_of_int loopTime div divider) :: u32)
      in if divider = 0 then st1 else st1\<lparr>mToneList := concat (replicate (unat cycle) (map new_cadence cs))\<rparr>)"

definition setToneScript :: "(string \<Rightarrow> (int \<times> (u32 \<times> u32 \<times> u32 \<times> u32) list) list) \<Rightarrow> string \<Rightarrow> tone_gene \<Rightarrow> int \<times> tone_gene" where
  "setToneScript scan tones st =
     (NO_ERROR, if tones = ''0000'' then stop_tones st else fold (\<lambda>(loopTime, cs). set_loop loopTime (take 6 cs)) (scan tones) st)"

definition tone_empty :: "tone_gene \<Rightarrow> bool" where
  "tone_empty st = (if cadNow st = None then mToneList st = [] else False)"

definition next_cadence :: "(int \<Rightarrow> int \<times> int) \<Rightarrow> cadence \<Rightarrow> cadence list \<Rightarrow> tone_gene \<Rightarrow> tone_gene" where
  \<comment> \<open>the first cadence of the queue becomes the current one\<close>
  "next_cadence ceff c cs st =
     (let st1 = st\<lparr>cadNow := Some c, mToneList := if toneGen_INF st then cs @ [c] else cs\<rparr>;
          st2 = (if word_of_int (freq1 st1) \<noteq> cfreq1 c \<or> word_of_int (freq2 st1) \<noteq> cfreq2 c
                 then st1\<lparr>freq1 := c_short (uint (cfreq1 c)), freq2 := c_short (uint (cfreq2 c)), dtmfdec := (dtmfdec st1)\<lparr>reinit := 1\<rparr>\<rparr>
                 else st1);
          (y1, a1) = ceff (freq1 st2); (y2, a2) = ceff (freq2 st2)
      in st2\<lparr>yInit := (y1, y2), aTbl := (a1, a2)\<rparr>)"

definition refresh_tone :: "nat \<Rightarrow> cadence \<Rightarrow> tone_gene \<Rightarrow> tone_gene outcome" where
  \<comment> \<open>the branch for \<open>refresh\<close> with the current cadence\<close>
  "refresh_tone value c st =
     obind (if timeOn c > 0 then
              let (_, xs, d) = GenTone 0 (dtmfdec st) (yInit st) (aTbl st) (int value) 160 in
              obind (access (store_samples (toneBuf st) xs)) (\<lambda>buf. Ret (c\<lparr>timeOn := timeOn c - 10\<rparr>, st\<lparr>dtmfdec := d, toneBuf := buf\<rparr>))
            else if timeOff c > 0 then Ret (c\<lparr>timeOff := timeOff c - 10\<rparr>, st\<lparr>toneBuf := replicate (length (toneBuf st)) 0\<rparr>)
            else Ret (c, st)) (\<lambda>(c1, st1).
     Ret (st1\<lparr>cadNow := if timeOn c1 \<le> 0 \<and> timeOff c1 \<le> 0 then None else Some c1\<rparr>))"

definition tone_updateFrame :: "(int \<Rightarrow> int \<times> int) \<Rightarrow> int list option \<Rightarrow> u32 \<Rightarrow> nat \<Rightarrow> bool \<Rightarrow> tone_gene \<Rightarrow> (int \<times> int list option \<times> tone_gene) outcome" where
  \<comment> \<open>\<open>EVENT_SAMPLES\<close> is the length of \<open>toneBuf\<close>\<close>
  "tone_updateFrame ceff frame nSamples value refresh st =
     (case frame of
        None \<Rightarrow> Ret (BAD_VALUE, None, st)
      | Some mem \<Rightarrow>
          if unat (nSamples * 2) < 2 * length (toneBuf st) \<or> value > 36 then Ret (BAD_VALUE, frame, st)
          else
            let st1 = (case cadNow st of
                         Some _ \<Rightarrow> st
                       | None \<Rightarrow> (case mToneList st of [] \<Rightarrow> st | c # cs \<Rightarrow> next_cadence ceff c cs st))
            in case cadNow st1 of
                 None \<Rightarrow> Ret (NO_ERROR, frame, st1)
               | Some c \<Rightarrow>
                   if refresh then
                     obind (refresh_tone value c st1) (\<lambda>st2.
                     obind (access (store_samples mem (toneBuf st2))) (\<lambda>mem1. Ret (NO_ERROR, Some mem1, st2)))
                   else if \<not> toneInTx st1 then Ret (NO_ERROR, frame, st1)
                   else obind (access (store_samples mem (toneBuf st1))) (\<lambda>mem1. Ret (NO_ERROR, Some mem1, st1)))"

text \<open>The speaker: frames of the length of \<open>toneBuf\<close>, one after the other.\<close>

fun tone_frames :: "(int \<Rightarrow> int \<times> int) \<Rightarrow> nat \<Rightarrow> nat \<Rightarrow> tone_gene \<Rightarrow> (int list list \<times> tone_gene) outcome" where
  "tone_frames ceff value 0 st = Ret ([], st)"
| "tone_frames ceff value (Suc n) st =
     obind (tone_updateFrame ceff (Some (replicate (length (toneBuf st)) 0)) (word_of_nat (length (toneBuf st))) value True st) (\<lambda>(_, frame, st1).
     case frame of
       None \<Rightarrow> Fault
     | Some mem \<Rightarrow> obind (tone_frames ceff value n st1) (\<lambda>(frames, st2). Ret (mem # frames, st2)))"

section \<open>A script as it is heard\<close>

definition frames_of :: "int \<Rightarrow> nat" where
  \<comment> \<open>the frames of 10 milliseconds that a time takes, the last one counted in full\<close>
  "frames_of t = nat ((t + 9) div 10)"

definition cad_frames :: "cadence \<Rightarrow> nat" where
  "cad_frames c = frames_of (timeOn c) + frames_of (timeOff c)"

definition sounding :: "nat \<Rightarrow> nat \<Rightarrow> int \<times> int \<Rightarrow> int \<times> int \<Rightarrow> dtmf_tone_inst_t \<Rightarrow> int list \<times> dtmf_tone_inst_t" where
  \<comment> \<open>\<open>k\<close> frames of a tone made in one go\<close>
  "sounding k value y a d = (if k = 0 then ([], d) else gen_loop (160 * k) (fst a) (snd a) (dtfm_dBm0 ! value) (osc_reinit (fst y) (snd y) d))"

fun song :: "(int \<Rightarrow> int \<times> int) \<Rightarrow> nat \<Rightarrow> cadence list \<Rightarrow> int \<times> int \<times> dtmf_tone_inst_t \<Rightarrow> int list \<times> int \<times> int \<times> dtmf_tone_inst_t" where
  \<comment> \<open>the samples of a list of cadences, and the frequencies and the oscillators at the end\<close>
  "song ceff value [] s = ([], s)"
| "song ceff value (c # cs) (f1, f2, d) =
     (let same = (word_of_int f1 = cfreq1 c \<and> word_of_int f2 = cfreq2 c);
          g1 = (if same then f1 else c_short (uint (cfreq1 c))); g2 = (if same then f2 else c_short (uint (cfreq2 c)));
          (xs, d1) = sounding (frames_of (timeOn c)) value (fst (ceff g1), fst (ceff g2)) (snd (ceff g1), snd (ceff g2)) (if same then d else d\<lparr>reinit := 1\<rparr>);
          (ys, s) = song ceff value cs (g1, g2, d1)
      in (xs @ replicate (160 * frames_of (timeOff c)) 0 @ ys, s))"

lemma frames_of_step: "0 < t \<Longrightarrow> frames_of t = Suc (frames_of (t - 10))" "t \<le> 0 \<Longrightarrow> frames_of t = 0"
proof -
  have "(t + 9) div 10 = (t - 10 + 9) div 10 + 1" using div_add_self2 [of "10 :: int" "t - 10 + 9"] by simp
  moreover assume "0 < t"
  then have "0 \<le> (t - 10 + 9) div 10" by simp
  ultimately show "frames_of t = Suc (frames_of (t - 10))" by (simp add: frames_of_def nat_add_distrib)
next
  assume "t \<le> 0"
  then have "(t + 9) div 10 \<le> 9 div 10" by (intro zdiv_mono1) simp_all
  then show "frames_of t = 0" by (simp add: frames_of_def)
qed

lemma cad_frames_pos: "0 < cad_frames c \<longleftrightarrow> 0 < timeOn c \<or> 0 < timeOff c"
  using frames_of_step [of "timeOn c"] frames_of_step [of "timeOff c"]
  by (cases "0 < timeOn c"; cases "0 < timeOff c") (simp_all add: cad_frames_def not_less)

lemma GenTone_frame: "value \<le> 36 \<Longrightarrow> GenTone j d y a (int value) 160 = (160, gen_loop 160 (fst a) (snd a) (dtfm_dBm0 ! value) (osc_reinit (fst y) (snd y) d))"
  by (simp add: GenTone_def c_short_id split: prod.split)

lemma sounding_step:
  assumes "gen_loop 160 (fst a) (snd a) (dtfm_dBm0 ! value) (osc_reinit (fst y) (snd y) d) = (xs, d1)" "sounding k value y a d1 = (ys, d2)"
  shows "sounding (Suc k) value y a d = (xs @ ys, d2)"
proof -
  have "reinit d1 = 0" using gen_loop_reinit [OF assms(1)] by simp
  then have "gen_loop (160 * k) (fst a) (snd a) (dtfm_dBm0 ! value) d1 = (ys, d2)" using assms(2) by (auto simp: sounding_def split: if_splits)
  then show ?thesis using assms(1) by (simp add: sounding_def gen_loop_append)
qed

text \<open>One frame of the current cadence.\<close>

lemma sounding_frame:
  assumes "cadNow st = Some c" "length (toneBuf st) = 160" "value \<le> 36" "0 < timeOn c"
    "gen_loop 160 (fst (aTbl st)) (snd (aTbl st)) (dtfm_dBm0 ! value) (osc_reinit (fst (yInit st)) (snd (yInit st)) (dtmfdec st)) = (xs, d)"
  shows "tone_updateFrame ceff (Some (replicate 160 0)) 160 value True st =
    Ret (NO_ERROR, Some xs, st\<lparr>dtmfdec := d, toneBuf := xs, cadNow := if timeOn c \<le> 10 \<and> timeOff c \<le> 0 then None else Some (c\<lparr>timeOn := timeOn c - 10\<rparr>)\<rparr>)"
  using assms gen_loop_length [OF assms(5)]
  by (simp add: tone_updateFrame_def refresh_tone_def GenTone_frame store_samples_def Let_def)

lemma silent_frame:
  assumes "cadNow st = Some c" "length (toneBuf st) = 160" "value \<le> 36" "timeOn c \<le> 0" "0 < timeOff c"
  shows "tone_updateFrame ceff (Some (replicate 160 0)) 160 value True st =
    Ret (NO_ERROR, Some (replicate 160 0), st\<lparr>toneBuf := replicate 160 0, cadNow := if timeOff c \<le> 10 then None else Some (c\<lparr>timeOff := timeOff c - 10\<rparr>)\<rparr>)"
  using assms by (simp add: tone_updateFrame_def refresh_tone_def store_samples_def Let_def)

lemma cadence_frames:
  assumes "cadNow st = Some c" "length (toneBuf st) = 160" "value \<le> 36" "0 < cad_frames c"
    "sounding (frames_of (timeOn c)) value (yInit st) (aTbl st) (dtmfdec st) = (xs, d)"
  shows "\<exists>frames buf. tone_frames ceff value (cad_frames c) st = Ret (frames, st\<lparr>dtmfdec := d, toneBuf := buf, cadNow := None\<rparr>) \<and> length buf = 160 \<and>
    concat frames = xs @ replicate (160 * frames_of (timeOff c)) 0"
  using assms
proof (induction "cad_frames c" arbitrary: st c xs)
  case (Suc n)
  have w: "word_of_nat (length (toneBuf st)) = (160 :: u32)" using Suc.prems(2) by simp
  let ?go = "\<lambda>c1 st1 rest. \<exists>frames buf. tone_frames ceff value n (st1\<lparr>cadNow := if cad_frames c1 = 0 then None else Some c1\<rparr>) =
      Ret (frames, st\<lparr>dtmfdec := d, toneBuf := buf, cadNow := None\<rparr>) \<and> length buf = 160 \<and> concat frames = rest"
  show ?case
  proof (cases "0 < timeOn c")
    case True
    obtain ys d1 where y: "gen_loop 160 (fst (aTbl st)) (snd (aTbl st)) (dtfm_dBm0 ! value) (osc_reinit (fst (yInit st)) (snd (yInit st)) (dtmfdec st)) = (ys, d1)"
      by fastforce
    let ?c = "c\<lparr>timeOn := timeOn c - 10\<rparr>" and ?st = "st\<lparr>dtmfdec := d1, toneBuf := ys\<rparr>"
    have k: "frames_of (timeOn c) = Suc (frames_of (timeOn ?c))" "cad_frames ?c = n"
      using frames_of_step(1) [OF True] Suc.hyps(2) by (simp_all add: cad_frames_def)
    obtain zs d2 where z: "sounding (frames_of (timeOn ?c)) value (yInit st) (aTbl st) d1 = (zs, d2)" by fastforce
    have x: "xs = ys @ zs" "d = d2" using sounding_step [OF y z] Suc.prems(5) k(1) by simp_all
    have l: "length ys = 160" using gen_loop_length [OF y] .
    have "?go ?c ?st (zs @ replicate (160 * frames_of (timeOff c)) 0)"
    proof (cases "n = 0")
      case True
      then show ?thesis using k(2) z x(2) l by (auto simp: cad_frames_def sounding_def)
    next
      case False
      then show ?thesis using Suc.hyps(1) [of ?c "?st\<lparr>cadNow := Some ?c\<rparr>" zs] k(2) z x(2) l Suc.prems(3) by simp
    qed
    then obtain frames buf where "tone_frames ceff value n (?st\<lparr>cadNow := if cad_frames ?c = 0 then None else Some ?c\<rparr>) =
        Ret (frames, st\<lparr>dtmfdec := d, toneBuf := buf, cadNow := None\<rparr>)" "length buf = 160" "concat frames = zs @ replicate (160 * frames_of (timeOff c)) 0"
      by blast
    moreover have "(timeOn c \<le> 10 \<and> timeOff c \<le> 0) = (cad_frames ?c = 0)" using cad_frames_pos [of ?c] by auto
    ultimately show ?thesis
      unfolding Suc.hyps(2) [symmetric] x(1)
      using sounding_frame [OF Suc.prems(1-3) True y, of ceff] w Suc.prems(2) by (intro exI [of _ "ys # frames"] exI [of _ buf]) simp
  next
    case False
    then have o: "0 < timeOff c" using Suc.prems(4) cad_frames_pos by auto
    let ?c = "c\<lparr>timeOff := timeOff c - 10\<rparr>" and ?st = "st\<lparr>toneBuf := replicate 160 0\<rparr>"
    have k: "frames_of (timeOff c) = Suc (frames_of (timeOff ?c))" "cad_frames ?c = n" "frames_of (timeOn c) = 0"
      using frames_of_step(1) [OF o] frames_of_step(2) [of "timeOn c"] False Suc.hyps(2) by (simp_all add: cad_frames_def)
    have x: "xs = []" "d = dtmfdec st" using Suc.prems(5) k(3) by (simp_all add: sounding_def)
    have "?go ?c ?st (replicate (160 * frames_of (timeOff ?c)) 0)"
    proof (cases "n = 0")
      case True
      then show ?thesis using k(2) x(2) by (auto simp: cad_frames_def)
    next
      case False
      then show ?thesis using Suc.hyps(1) [of ?c "?st\<lparr>cadNow := Some ?c\<rparr>" "[]"] k(2,3) x(2) Suc.prems(3) by (simp add: sounding_def)
    qed
    then obtain frames buf where "tone_frames ceff value n (?st\<lparr>cadNow := if cad_frames ?c = 0 then None else Some ?c\<rparr>) =
        Ret (frames, st\<lparr>dtmfdec := d, toneBuf := buf, cadNow := None\<rparr>)" "length buf = 160" "concat frames = replicate (160 * frames_of (timeOff ?c)) 0"
      by blast
    moreover have "(timeOff c \<le> 10) = (cad_frames ?c = 0)" using cad_frames_pos [of ?c] False by auto
    ultimately show ?thesis
      unfolding Suc.hyps(2) [symmetric] x(1) k(1)
      using silent_frame [OF Suc.prems(1-3) _ o, of ceff] False w Suc.prems(2)
      by (intro exI [of _ "replicate 160 0 # frames"] exI [of _ buf]) (simp add: replicate_add)
  qed
qed simp

lemma tone_frames_append:
  "tone_frames ceff value (m + n) st = obind (tone_frames ceff value m st) (\<lambda>(fs, st1). obind (tone_frames ceff value n st1) (\<lambda>(gs, st2). Ret (fs @ gs, st2)))"
proof (induction m arbitrary: st)
  case 0
  then show ?case by (cases "tone_frames ceff value n st") auto
next
  case (Suc m)
  have b: "obind (obind x f) g = obind x (\<lambda>y. obind (f y) g)" for x and f :: "'x \<Rightarrow> 'y outcome" and g :: "'y \<Rightarrow> 'z outcome"
    by (cases x) auto
  have c: "obind (case p of (a, q) \<Rightarrow> h a q) g = (case p of (a, q) \<Rightarrow> obind (h a q) g)" for p :: "'p \<times> 'q" and h and g :: "'y \<Rightarrow> 'z outcome"
    by (cases p) auto
  show ?case by (simp add: b, rule arg_cong [where f = "obind _"]) (auto simp: Suc b c split: option.split intro!: arg_cong [where f = "obind _"] ext)
qed

lemma next_cadence_simps [simp]:
  "cadNow (next_cadence ceff c cs st) = Some c" "toneBuf (next_cadence ceff c cs st) = toneBuf st" "toneGen_INF (next_cadence ceff c cs st) = toneGen_INF st"
  "mToneList (next_cadence ceff c cs st) = (if toneGen_INF st then cs @ [c] else cs)"
  by (simp_all add: next_cadence_def Let_def split: prod.split)

lemma next_cadence_tone:
  "freq1 (next_cadence ceff c cs st) = (if word_of_int (freq1 st) = cfreq1 c \<and> word_of_int (freq2 st) = cfreq2 c then freq1 st else c_short (uint (cfreq1 c)))"
  "freq2 (next_cadence ceff c cs st) = (if word_of_int (freq1 st) = cfreq1 c \<and> word_of_int (freq2 st) = cfreq2 c then freq2 st else c_short (uint (cfreq2 c)))"
  "dtmfdec (next_cadence ceff c cs st) =
     (if word_of_int (freq1 st) = cfreq1 c \<and> word_of_int (freq2 st) = cfreq2 c then dtmfdec st else (dtmfdec st)\<lparr>reinit := 1\<rparr>)"
  "yInit (next_cadence ceff c cs st) = (fst (ceff (freq1 (next_cadence ceff c cs st))), fst (ceff (freq2 (next_cadence ceff c cs st))))"
  "aTbl (next_cadence ceff c cs st) = (snd (ceff (freq1 (next_cadence ceff c cs st))), snd (ceff (freq2 (next_cadence ceff c cs st))))"
  by (simp_all add: next_cadence_def Let_def split: prod.split)

lemma tone_frames_next:
  "cadNow st = None \<Longrightarrow> mToneList st = c # cs \<Longrightarrow> 0 < n \<Longrightarrow> length (toneBuf st) = 160 \<Longrightarrow> value \<le> 36 \<Longrightarrow>
    tone_frames ceff value n st = tone_frames ceff value n (next_cadence ceff c cs st)"
  by (cases n) (simp_all add: tone_updateFrame_def)

lemma tone_script_frames:
  assumes "cadNow st = None" "mToneList st = cs @ ds" "length (toneBuf st) = 160" "value \<le> 36" "\<forall>c \<in> set cs. 0 < cad_frames c"
    "song ceff value cs (freq1 st, freq2 st, dtmfdec st) = (xs, f1, f2, d)"
  shows "\<exists>frames st'. tone_frames ceff value (sum_list (map cad_frames cs)) st = Ret (frames, st') \<and> concat frames = xs \<and> cadNow st' = None \<and>
    mToneList st' = ds @ (if toneGen_INF st then cs else []) \<and> freq1 st' = f1 \<and> freq2 st' = f2 \<and> dtmfdec st' = d \<and>
    toneGen_INF st' = toneGen_INF st \<and> length (toneBuf st') = 160"
  using assms
proof (induction cs arbitrary: st ds xs)
  case (Cons c cs)
  let ?st = "next_cadence ceff c (cs @ ds) st"
  obtain ys e where y: "sounding (frames_of (timeOn c)) value (yInit ?st) (aTbl ?st) (dtmfdec ?st) = (ys, e)" by fastforce
  obtain zs s where z: "song ceff value cs (freq1 ?st, freq2 ?st, e) = (zs, s)" by (rule prod.exhaust)
  have x: "song ceff value (c # cs) (freq1 st, freq2 st, dtmfdec st) = (ys @ replicate (160 * frames_of (timeOff c)) 0 @ zs, s)"
    using y z unfolding next_cadence_tone by (simp add: Let_def)
  obtain fs buf where 1: "tone_frames ceff value (cad_frames c) ?st = Ret (fs, ?st\<lparr>dtmfdec := e, toneBuf := buf, cadNow := None\<rparr>)" "length buf = 160"
    "concat fs = ys @ replicate (160 * frames_of (timeOff c)) 0"
    using cadence_frames [OF _ _ Cons.prems(4) _ y, of ceff] Cons.prems(3,5) by auto
  let ?st1 = "?st\<lparr>dtmfdec := e, toneBuf := buf, cadNow := None\<rparr>"
  have "tone_frames ceff value (cad_frames c) st = Ret (fs, ?st1)" using tone_frames_next [OF Cons.prems(1)] Cons.prems(2-5) 1(1) by simp
  moreover have s: "s = (f1, f2, d)" "xs = ys @ replicate (160 * frames_of (timeOff c)) 0 @ zs" using x Cons.prems(6) by simp_all
  have "mToneList ?st1 = cs @ (ds @ (if toneGen_INF st then [c] else []))" by simp
  from Cons.IH [OF _ this _ Cons.prems(4)] obtain gs st' where "tone_frames ceff value (sum_list (map cad_frames cs)) ?st1 = Ret (gs, st')" "concat gs = zs" "cadNow st' = None"
    "mToneList st' = (ds @ (if toneGen_INF st then [c] else [])) @ (if toneGen_INF st then cs else [])" "freq1 st' = f1" "freq2 st' = f2" "dtmfdec st' = d"
    "toneGen_INF st' = toneGen_INF st" "length (toneBuf st') = 160"
    using 1(2) Cons.prems(5) z s(1) by auto
  ultimately show ?case using 1(3) s(2) by (simp add: tone_frames_append)
qed simp

text \<open>
  C22. A tone script as it is heard.  The frames that \<open>updateFrame\<close> delivers every 10 milliseconds are, one after the other, the
  song that the cadences describe: each cadence sounds without a break for its time, rounded up to whole frames, the
  oscillators being started anew when the frequencies change and going on in phase when they do not, and is followed by silence for
  its second time, rounded up too.  Afterwards the queue is empty, or, for a script that is repeated for ever, it is the
  script again.
\<close>

theorem tone_script_heard:
  assumes "cadNow st = None" "length (toneBuf st) = 160" "value \<le> 36" "\<forall>c \<in> set (mToneList st). 0 < timeOn c \<or> 0 < timeOff c"
  shows "\<exists>frames st'. tone_frames ceff value (sum_list (map cad_frames (mToneList st))) st = Ret (frames, st') \<and>
    concat frames = fst (song ceff value (mToneList st) (freq1 st, freq2 st, dtmfdec st)) \<and>
    cadNow st' = None \<and> mToneList st' = (if toneGen_INF st then mToneList st else []) \<and>
    (freq1 st', freq2 st', dtmfdec st') = snd (song ceff value (mToneList st) (freq1 st, freq2 st, dtmfdec st))"
proof -
  obtain xs f1 f2 d where s: "song ceff value (mToneList st) (freq1 st, freq2 st, dtmfdec st) = (xs, f1, f2, d)" by (metis prod_cases4)
  have "\<forall>c \<in> set (mToneList st). 0 < cad_frames c" using assms(4) by (simp add: cad_frames_pos)
  from tone_script_frames [OF assms(1) _ assms(2,3) this s, of "[]"] show ?thesis unfolding s by auto
qed

definition demo_tones :: tone_gene where
  \<comment> \<open>25 milliseconds of a tone, 10 of silence, for ever\<close>
  "demo_tones = (ToneGene_new (0, 0) (0, 0) \<lparr>reinit = 0, oldOutputLow = (0, 0), oldOutputHigh = (0, 0), lastDtmfSample = 0\<rparr> (replicate 160 0))
     \<lparr>mToneList := [\<lparr>cfreq1 = 440, cfreq2 = 480, timeOn = 25, timeOff = 10\<rparr>], toneGen_INF := True\<rparr>"

theorem tone_script_heard_witness:
  "\<exists>frames st'. tone_frames (\<lambda>f. (f, 2 * f)) 4 4 demo_tones = Ret (frames, st') \<and> mToneList st' = mToneList demo_tones \<and>
     length (concat frames) = 640 \<and> drop 480 (concat frames) = replicate 160 0"
proof -
  let ?ceff = "\<lambda>f :: int. (f, 2 * f)"
  let ?s = "song ?ceff 4 (mToneList demo_tones) (freq1 demo_tones, freq2 demo_tones, dtmfdec demo_tones)"
  have n: "sum_list (map cad_frames (mToneList demo_tones)) = 4" by (simp add: demo_tones_def cad_frames_def frames_of_def)
  obtain xs d where x: "sounding 3 4 (fst (?ceff 440), fst (?ceff 480)) (snd (?ceff 440), snd (?ceff 480)) ((dtmfdec demo_tones)\<lparr>reinit := 1\<rparr>) = (xs, d)"
    by (rule prod.exhaust)
  have l: "length xs = 480" using x gen_loop_length by (auto simp: sounding_def)
  have "fst ?s = xs @ replicate 160 0"
    using x by (simp add: demo_tones_def ToneGene_new_def frames_of_def c_short_id)
  moreover obtain frames st' where "tone_frames ?ceff 4 4 demo_tones = Ret (frames, st')" "concat frames = fst ?s" "mToneList st' = mToneList demo_tones"
    using tone_script_heard [of demo_tones 4 ?ceff] n by (auto simp: demo_tones_def ToneGene_new_def)
  ultimately show ?thesis using l by auto
qed

text \<open>The script \<open>0000\<close> ends every other script after ten more frames, of which five sound, also in a pause.\<close>

lemma tone_empty_iff: "tone_empty st \<longleftrightarrow> cadNow st = None \<and> mToneList st = []"
  by (simp add: tone_empty_def)

lemma stop_after_ten_frames:
  assumes "cadNow st = Some c" "length (toneBuf st) = 160" "value \<le> 36"
  shows "\<exists>frames st'. tone_frames ceff value 10 (snd (setToneScript scan ''0000'' st)) = Ret (frames, st') \<and> tone_empty st' \<and>
    concat frames = fst (sounding 5 value (yInit st) (aTbl st) (dtmfdec st)) @ replicate 800 0"
proof -
  let ?c = "c\<lparr>timeOn := 50, timeOff := 50\<rparr>" and ?st = "snd (setToneScript scan ''0000'' st)"
  have "cadNow ?st = Some ?c" "length (toneBuf ?st) = 160" "cad_frames ?c = 10" "yInit ?st = yInit st" "aTbl ?st = aTbl st" "dtmfdec ?st = dtmfdec st" "mToneList ?st = []"
    using assms by (simp_all add: setToneScript_def stop_tones_def cad_frames_def frames_of_def)
  moreover obtain xs d where "sounding (frames_of (timeOn ?c)) value (yInit ?st) (aTbl ?st) (dtmfdec ?st) = (xs, d)" by (rule prod.exhaust)
  ultimately show ?thesis using cadence_frames [of ?st ?c "value" xs d ceff] assms(3) by (auto simp: tone_empty_iff frames_of_def)
qed

text \<open>A loop of a script plays its cadences as often as they fit its time, and not at all when it is shorter than one round.\<close>

lemma set_loop_rounds:
  assumes "0 < loopTime" "loop_divider cs \<noteq> 0" "loopTime < 2 ^ 31"
  shows "mToneList (set_loop loopTime cs st) = concat (replicate (nat loopTime div unat (loop_divider cs)) (map new_cadence cs))"
proof -
  let ?q = "word_of_int loopTime div loop_divider cs :: u64"
  have w: "unat (word_of_int loopTime :: u64) = nat loopTime"
    using assms(1,3) by (simp add: unsigned_of_int take_bit_int_eq_self)
  have q: "unat ?q = nat loopTime div unat (loop_divider cs)" by (simp add: unat_div w)
  have "nat loopTime < 2 ^ 32" using assms(3) by simp
  then have "unat ?q < 2 ^ 32" unfolding q by (rule le_less_trans [OF div_le_dividend])
  then have "unat (ucast ?q :: u32) = unat ?q" by (simp add: unsigned_ucast_eq take_bit_nat_eq_self)
  then show ?thesis using assms(1,2) by (simp add: set_loop_def Let_def q)
qed

text \<open>Once a loop for ever has been set, the loops of later scripts are repeated for ever too.\<close>

lemma repeats_for_ever: "toneGen_INF st \<Longrightarrow> toneGen_INF (set_loop loopTime cs st)"
  by (simp add: set_loop_def Let_def)

text \<open>A cadence without any time takes a frame in which the last buffer is heard again.\<close>

lemma empty_cadence_repeats_buffer:
  assumes "cadNow st = Some c" "timeOn c \<le> 0" "timeOff c \<le> 0" "value \<le> 36" "length (toneBuf st) = 160"
  shows "tone_updateFrame ceff (Some (replicate 160 0)) 160 value True st = Ret (NO_ERROR, Some (toneBuf st), st\<lparr>cadNow := None\<rparr>)"
  using assms by (simp add: tone_updateFrame_def refresh_tone_def store_samples_def Let_def)

text \<open>Every frame of a tone has 160 samples, whatever \<open>EVENT_SAMPLES\<close> is: a shorter buffer is overrun.\<close>

lemma short_buffer_overrun:
  assumes "cadNow st = Some c" "0 < timeOn c" "value \<le> 36" "length (toneBuf st) < 160"
  shows "refresh_tone value c st = Fault"
proof -
  obtain xs d where g: "gen_loop 160 (fst (aTbl st)) (snd (aTbl st)) (dtfm_dBm0 ! value) (osc_reinit (fst (yInit st)) (snd (yInit st)) (dtmfdec st)) = (xs, d)"
    by (rule prod.exhaust)
  then show ?thesis using assms gen_loop_length [OF g] by (simp add: refresh_tone_def GenTone_frame store_samples_def)
qed

section \<open>Keypad tones\<close>

text \<open>
  With a key of the keypad a frame is the next part of its tone; the oscillators are those of the line \<open>inAudio\<close>.
  Without a key, after construction, \<open>GenDtmf\<close> refuses and the frame is what the buffer holds, with \<open>NO_ERROR\<close>.
\<close>

lemma dtmf_frame:
  assumes "rate_tables rate = Some (aT, yT, dflt)" "is_short rate" "low_index (dtmf_key st) = Some lo" "E \<le> 32767" "value \<le> 32" "E \<le> nSamples"
    "k < length (dtu st)" "length mem = E" "E \<le> length (dtmfBuf st)"
    "gen_loop E (aT ! lo) (aT ! high_index (dtmf_key st)) (dtfm_dBm0 ! value) (osc_reinit (yT ! lo) (yT ! high_index (dtmf_key st)) (dtu st ! k)) = (xs, d)"
  shows "dtmf_updateFrame rate E (Some mem) nSamples value (int k) st =
    Ret (NO_ERROR, Some xs, st\<lparr>dtu := (dtu st)[k := d], dtmfBuf := xs @ drop E (dtmfBuf st)\<rparr>)"
proof -
  have "GenDtmf (dtu st ! k) (dtmf_key st) (int value) rate (int E) = (int E, xs, d)"
    using GenDtmf_ok [OF _ _ assms(1,2,3), of "int value" "int E"] assms(4,5,10) by simp
  then show ?thesis using assms(5-9) gen_loop_length [OF assms(10)] by (simp add: dtmf_updateFrame_def dtmf_gen_def store_samples_def)
qed

lemma no_key_no_tone:
  assumes "dtVal st = - 1" "value \<le> 32" "length (dtmfBuf st) = DT_BLK_NUM * E" "E \<le> nSamples" "k < length (dtu st)" "length mem = E"
  shows "dtmf_updateFrame rate E (Some mem) nSamples value (int k) st = Ret (NO_ERROR, Some (take E (dtmfBuf st)), st)"
proof -
  have "dtmf_key st \<notin> set ''0123456789abcd*#''" using assms(1) by (simp add: dtmf_key_def char_of_def)
  then have "low_index (dtmf_key st) = None" using low_index_keys by blast
  then have "snd (GenDtmf (dtu st ! k) (dtmf_key st) (int value) rate (int E)) = ([], dtu st ! k)"
    by (simp add: GenDtmf_def Let_def split: option.split)
  then obtain r where "GenDtmf (dtu st ! k) (dtmf_key st) (int value) rate (int E) = (r, [], dtu st ! k)" by (metis prod.collapse)
  then show ?thesis using assms(2-6) by (simp add: dtmf_updateFrame_def dtmf_gen_def store_samples_def DT_BLK_NUM_def)
qed

text \<open>The tone of a key goes on from frame to frame as if it were made in one go.\<close>

fun dtmf_frames :: "int \<Rightarrow> nat \<Rightarrow> nat \<Rightarrow> int \<Rightarrow> nat \<Rightarrow> dtmf_gene \<Rightarrow> (int list list \<times> dtmf_gene) outcome" where
  "dtmf_frames rate E value k 0 st = Ret ([], st)"
| "dtmf_frames rate E value k (Suc n) st =
     obind (dtmf_updateFrame rate E (Some (replicate E 0)) E value k st) (\<lambda>(_, frame, st1).
     case frame of None \<Rightarrow> Fault | Some mem \<Rightarrow> obind (dtmf_frames rate E value k n st1) (\<lambda>(fs, st2). Ret (mem # fs, st2)))"

lemma dtmf_frames_join:
  assumes "rate_tables rate = Some (aT, yT, dflt)" "is_short rate" "low_index (dtmf_key st) = Some lo" "E \<le> 32767" "value \<le> 32" "k < length (dtu st)"
    "E \<le> length (dtmfBuf st)" "0 < n"
  shows "\<exists>frames st'. dtmf_frames rate E value (int k) n st = Ret (frames, st') \<and>
    (concat frames, dtu st' ! k) = gen_loop (n * E) (aT ! lo) (aT ! high_index (dtmf_key st)) (dtfm_dBm0 ! value)
      (osc_reinit (yT ! lo) (yT ! high_index (dtmf_key st)) (dtu st ! k))"
  using assms
proof (induction n arbitrary: st)
  case (Suc n)
  let ?g = "\<lambda>m. gen_loop m (aT ! lo) (aT ! high_index (dtmf_key st)) (dtfm_dBm0 ! value)"
  let ?o = "osc_reinit (yT ! lo) (yT ! high_index (dtmf_key st))"
  obtain xs d where g: "?g E (?o (dtu st ! k)) = (xs, d)" by (rule prod.exhaust)
  let ?st = "st\<lparr>dtu := (dtu st)[k := d], dtmfBuf := xs @ drop E (dtmfBuf st)\<rparr>"
  have f: "dtmf_updateFrame rate E (Some (replicate E 0)) E value (int k) st = Ret (NO_ERROR, Some xs, ?st)"
    by (rule dtmf_frame [OF Suc.prems(1-5) _ Suc.prems(6) _ Suc.prems(7) g]) simp_all
  have l: "length xs = E" "reinit d = 0" using gen_loop_length [OF g] gen_loop_reinit [OF g] by simp_all
  have t: "dtmf_key ?st = dtmf_key st" by (simp add: dtmf_key_def)
  have d: "?o d = d" using l(2) by simp
  show ?case
  proof (cases "n = 0")
    case True
    then show ?thesis using f g Suc.prems(6) by simp
  next
    case False
    obtain fs st' where "dtmf_frames rate E value (int k) n ?st = Ret (fs, st')" "(concat fs, dtu st' ! k) = ?g (n * E) (?o d)"
      using Suc.IH [of ?st] Suc.prems l(1) False unfolding t by auto
    then show ?thesis using f g d gen_loop_append [of E "n * E"] by (auto split: prod.split)
  qed
qed simp

end
