(* ===== verification/Sh_Print.thy ===== *)
theory Sh_Print
  imports Io_Stream
begin

text \<open>
  \<open>libckits/sh_print.c\<close>: \<open>shell_print\<close> formats a text into a static buffer of 1024 bytes and sends it as a datagram to the
  shell.  The socket is opened by the first call.  The results of the system calls are parameters; the datagrams
  sent are part of the result.  The mutex serialises the calls once it is initialised.
\<close>

section \<open>Model\<close>

record shell =
  s_fd_shell_log :: int
  s_buf_shell_log :: "u8 list"

record shell_sys = \<comment> \<open>what the system answers\<close>
  sys_mutex :: int
  sys_socket :: int
  sys_setfl :: int
  sys_sendto :: int

definition shell_init :: shell where
  "shell_init = \<lparr>s_fd_shell_log = - 1, s_buf_shell_log = replicate 1024 0\<rparr>"

definition c_strlen :: "u8 list \<Rightarrow> nat option" where
  \<comment> \<open>\<open>None\<close> when there is no zero byte in the memory\<close>
  "c_strlen mem = (if 0 \<in> set mem then Some (length (takeWhile (\<lambda>b. b \<noteq> 0) mem)) else None)"

definition open_shell :: "shell_sys \<Rightarrow> shell \<Rightarrow> int + (int \<times> shell)" where
  \<comment> \<open>the branch for a socket that is not open: an early return, or \<open>ret\<close> and the state to go on with\<close>
  "open_shell sys st =
     (let st1 = st\<lparr>s_fd_shell_log := sys_socket sys\<rparr>
      in if s_fd_shell_log st1 < 0 then Inl (- 1)
         else if sys_setfl sys = - 1 then Inl (- 1)
         else Inr (sys_mutex sys, st1))"

definition send_text :: "shell_sys \<Rightarrow> u8 list option \<Rightarrow> int \<Rightarrow> shell \<Rightarrow> (int \<times> u8 list option \<times> shell) option" where
  \<comment> \<open>from the lock on: the result and the datagram; \<open>text\<close> is what the format expands to\<close>
  "send_text sys text ret st =
     (case (case text of None \<Rightarrow> Some (s_buf_shell_log st) | Some t \<Rightarrow> store_bytes (s_buf_shell_log st) 0 (vsnprintf_bytes 1024 t)) of
        None \<Rightarrow> None
      | Some buf \<Rightarrow>
          if s_fd_shell_log st > 0 then
            map_option (\<lambda>n. (sys_sendto sys, Some (take n buf), st\<lparr>s_buf_shell_log := buf\<rparr>)) (c_strlen buf)
          else Some (ret, None, st\<lparr>s_buf_shell_log := buf\<rparr>))"

definition shell_print :: "shell_sys \<Rightarrow> u8 list option \<Rightarrow> shell \<Rightarrow> (int \<times> u8 list option \<times> shell) option" where
  "shell_print sys text st =
     (if s_fd_shell_log st < 0 then
        (case open_shell sys st of
           Inl r \<Rightarrow> Some (r, None, st\<lparr>s_fd_shell_log := sys_socket sys\<rparr>)
         | Inr (ret, st1) \<Rightarrow> send_text sys text ret st1)
      else send_text sys text (- 1) st)"

section \<open>Properties\<close>

definition shell_inv :: "shell \<Rightarrow> bool" where
  "shell_inv st \<longleftrightarrow> length (s_buf_shell_log st) = 1024 \<and> 0 \<in> set (s_buf_shell_log st)"

lemma shell_init_inv: "shell_inv shell_init"
  by (simp add: shell_inv_def shell_init_def)

lemma vsnprintf_text:
  assumes "0 \<notin> set t"
  shows "takeWhile (\<lambda>b. b \<noteq> 0) (vsnprintf_bytes 1024 t @ rest) = take 1023 t" "length (vsnprintf_bytes 1024 t) \<le> 1024" "0 \<in> set (vsnprintf_bytes 1024 t)"
proof -
  have "\<forall>b \<in> set (take 1023 t). b \<noteq> 0" using assms by (metis in_set_takeD)
  then show "takeWhile (\<lambda>b. b \<noteq> 0) (vsnprintf_bytes 1024 t @ rest) = take 1023 t"
    by (simp add: vsnprintf_bytes_def takeWhile_append2)
qed (simp_all add: vsnprintf_bytes_def)

text \<open>A text goes out as one datagram of at most 1023 bytes; the static buffer is never overrun and stays a string.\<close>

lemma shell_print_sends:
  assumes "shell_inv st" "0 < s_fd_shell_log st" "0 \<notin> set t"
  shows "\<exists>st'. shell_print sys (Some t) st = Some (sys_sendto sys, Some (take 1023 t), st') \<and> shell_inv st' \<and> s_fd_shell_log st' = s_fd_shell_log st"
proof -
  note v = vsnprintf_text [OF assms(3)]
  let ?buf = "vsnprintf_bytes 1024 t @ drop (length (vsnprintf_bytes 1024 t)) (s_buf_shell_log st)"
  have b: "store_bytes (s_buf_shell_log st) 0 (vsnprintf_bytes 1024 t) = Some ?buf" using assms(1) v(2) by (simp add: store_bytes_def shell_inv_def)
  have n: "c_strlen ?buf = Some (length (take 1023 t))" using v(1,3) by (simp add: c_strlen_def)
  have "take (length (take 1023 t)) ?buf = take 1023 t" by (simp add: vsnprintf_bytes_def min_def)
  then show ?thesis using assms(1,2) b n v(2,3) by (simp add: shell_print_def send_text_def shell_inv_def)
qed

lemma shell_print_safe:
  assumes "shell_inv st" "\<forall>t. text = Some t \<longrightarrow> 0 \<notin> set t"
  shows "\<exists>r out st'. shell_print sys text st = Some (r, out, st') \<and> shell_inv st'"
proof -
  have "\<exists>r out st'. send_text sys text ret s = Some (r, out, st') \<and> shell_inv st'" if "shell_inv s" for s ret
    using that assms(2) vsnprintf_text(2,3)
    by (cases "text") (auto simp: send_text_def shell_inv_def c_strlen_def store_bytes_def)
  moreover have "shell_inv (st\<lparr>s_fd_shell_log := fd\<rparr>)" for fd using assms(1) by (simp add: shell_inv_def)
  ultimately show ?thesis using assms(1) by (auto simp: shell_print_def open_shell_def Let_def)
qed

text \<open>When the socket cannot be made non-blocking the call fails, but the socket stays open and the next call uses it.\<close>

lemma blocking_socket_is_used:
  assumes "shell_inv st" "s_fd_shell_log st < 0" "0 < sys_socket sys" "sys_setfl sys = - 1" "0 \<notin> set t"
  shows "\<exists>st1 st2. shell_print sys (Some t) st = Some (- 1, None, st1) \<and> shell_print sys' (Some t) st1 = Some (sys_sendto sys', Some (take 1023 t), st2)"
proof -
  let ?st = "st\<lparr>s_fd_shell_log := sys_socket sys\<rparr>"
  have "shell_inv ?st" using assms(1) by (simp add: shell_inv_def)
  then show ?thesis using assms(2-4) shell_print_sends [of ?st t sys'] assms(5) by (auto simp: shell_print_def open_shell_def)
qed

end
